(* ===== verification/Prelude.thy ===== *)
theory Prelude
  imports Main "HOL-Library.Word" "HOL-Library.Monad_Syntax" "HOL-Library.Signed_Division"
begin

text \<open>
  Shared vocabulary of the development: the C types of the runtime, aborting computations
  (a failed \<^verbatim>\<open>assert\<close>, a null or dangling dereference, an out-of-range array access and a
  division by zero are all \<open>None\<close>), checked array accesses, the heap of C objects, and the
  generic lemmas on lists, options and words that the component theories share.
\<close>

unbundle bit_operations_syntax

section \<open>C types\<close>

text \<open>
  \<^verbatim>\<open>unsigned int\<close> is a 32-bit word, \<^verbatim>\<open>char\<close> data an 8-bit word and a pointer a 64-bit word
  (the build targets x86-64). \<^verbatim>\<open>int\<close> and \<^verbatim>\<open>long\<close> are \<open>int\<close> where their values are
  bounded by the code, and words read through \<open>sint\<close> where the code relies on the width.
\<close>

type_synonym uint = "32 word"
type_synonym byte = "8 word"
type_synonym addr = "64 word"

abbreviation NULL :: addr where
  "NULL \<equiv> 0"

section \<open>Aborting computations\<close>

definition assertion :: "bool \<Rightarrow> unit option" where
  "assertion b = (if b then Some () else None)"

definition read_at :: "'a list \<Rightarrow> nat \<Rightarrow> 'a option" where
  "read_at xs i = (if i < length xs then Some (xs ! i) else None)"

definition write_at :: "'a list \<Rightarrow> nat \<Rightarrow> 'a \<Rightarrow> 'a list option" where
  "write_at xs i v = (if i < length xs then Some (xs[i := v]) else None)"

definition umod :: "uint \<Rightarrow> uint \<Rightarrow> uint option" where
  "umod a b = (if b = 0 then None else Some (a mod b))"

section \<open>The heap\<close>

text \<open>
  A heap maps the addresses of live objects to their contents. \<open>deref\<close> is \<^verbatim>\<open>*p\<close>,
  \<open>assign\<close> an update of an object through a pointer and \<open>c_free\<close> is \<^verbatim>\<open>free\<close> of a live object.
\<close>

type_synonym 'o heap = "addr \<rightharpoonup> 'o"

definition deref :: "'o heap \<Rightarrow> addr \<Rightarrow> 'o option" where
  "deref h p = (if p = NULL then None else h p)"

definition assign :: "'o heap \<Rightarrow> addr \<Rightarrow> ('o \<Rightarrow> 'o) \<Rightarrow> 'o heap option" where
  "assign h p f = (case deref h p of None \<Rightarrow> None | Some x \<Rightarrow> Some (h(p \<mapsto> f x)))"

definition c_free :: "'o heap \<Rightarrow> addr \<Rightarrow> 'o heap option" where
  "c_free h p =
     (if p = NULL then Some h
      else case h p of None \<Rightarrow> None | Some _ \<Rightarrow> Some (h(p := None)))"

section \<open>Automation for aborting computations\<close>

named_theorems abort_simps \<open>evaluation of aborting computations\<close>
named_theorems abort_splits \<open>what a computation that returned says about its steps\<close>

lemma assertion_True [simp]: "assertion True = Some ()"
  by (simp add: assertion_def)

lemma assertion_False [simp]: "assertion False = None"
  by (simp add: assertion_def)

lemma assertion_Some [simp, abort_splits]: "assertion b = Some u \<longleftrightarrow> b"
  by (simp add: assertion_def)

lemma assertion_None [simp, abort_splits]: "assertion b = None \<longleftrightarrow> \<not> b"
  by (simp add: assertion_def)

lemma bind_assertion [abort_simps]:
  "Option.bind (assertion b) f = (if b then f () else None)"
  by (simp add: assertion_def)

lemma read_at_less [simp]: "i < length xs \<Longrightarrow> read_at xs i = Some (xs ! i)"
  by (simp add: read_at_def)

lemma read_at_Some [abort_splits]: "read_at xs i = Some v \<longleftrightarrow> i < length xs \<and> xs ! i = v"
  by (simp add: read_at_def)

lemma write_at_less [simp]: "i < length xs \<Longrightarrow> write_at xs i v = Some (xs[i := v])"
  by (simp add: write_at_def)

lemma write_at_Some [abort_splits]:
  "write_at xs i v = Some ys \<longleftrightarrow> i < length xs \<and> ys = xs[i := v]"
  by (auto simp: write_at_def)

lemma umod_nonzero [simp]: "b \<noteq> 0 \<Longrightarrow> umod a b = Some (a mod b)"
  by (simp add: umod_def)

lemma umod_Some [abort_splits]: "umod a b = Some c \<longleftrightarrow> b \<noteq> 0 \<and> c = a mod b"
  by (auto simp: umod_def)

section \<open>Heap lemmas\<close>

named_theorems heap_simps \<open>reads and writes through pointers to live objects\<close>

lemma deref_NULL [simp]: "deref h NULL = None"
  by (simp add: deref_def)

lemma deref_live [heap_simps]: "p \<noteq> NULL \<Longrightarrow> deref h p = h p"
  by (simp add: deref_def)

lemma deref_Some [abort_splits]: "deref h p = Some x \<longleftrightarrow> p \<noteq> NULL \<and> h p = Some x"
  by (simp add: deref_def)

lemma deref_upd_same [simp]: "p \<noteq> NULL \<Longrightarrow> deref (h(p \<mapsto> x)) p = Some x"
  by (simp add: deref_def)

lemma deref_upd_other [simp]: "p \<noteq> q \<Longrightarrow> deref (h(q := v)) p = deref h p"
  by (simp add: deref_def)

lemma assign_live [heap_simps]: "deref h p = Some x \<Longrightarrow> assign h p f = Some (h(p \<mapsto> f x))"
  by (simp add: assign_def)

lemma assign_NULL [simp]: "assign h NULL f = None"
  by (simp add: assign_def)

lemma assign_Some [abort_splits]:
  "assign h p f = Some h' \<longleftrightarrow> (\<exists>x. deref h p = Some x \<and> h' = h(p \<mapsto> f x))"
  by (auto simp: assign_def split: option.splits)

lemma c_free_NULL [simp]: "c_free h NULL = Some h"
  by (simp add: c_free_def)

lemma c_free_live [heap_simps]: "deref h p = Some x \<Longrightarrow> c_free h p = Some (h(p := None))"
  by (auto simp: c_free_def deref_def split: if_splits)

section \<open>Words\<close>

lemma unat_mod_less: "(b :: 'a::len word) \<noteq> 0 \<Longrightarrow> unat (a mod b) < unat b"
  by (simp add: unat_mod unat_gt_0)

lemma unat_Suc_less:
  assumes "(a :: 'a::len word) < b"
  shows "unat (a + 1) = Suc (unat a)"
proof -
  have "Suc (unat a) < 2 ^ LENGTH('a)"
    using assms unsigned_less [of b] by (metis less_trans_Suc word_less_nat_alt)
  then show ?thesis by (simp add: unat_word_ariths)
qed

lemma bit_word_less: "bit (w :: 'a::len word) i \<Longrightarrow> i < LENGTH('a)"
  by (rule bit_imp_le_length)

end
