(* ===== verification/Interfaces.thy ===== *)
theory Interfaces
  imports Prelude "HOL-Library.Multiset"
begin

text \<open>
  The contracts between the runtime and the containers it is built from, as locales, and the
  arithmetic of ring buffers that several containers share. A container promises how its
  operations act on the list of its items; what clients do with it (filling and draining,
  arbitrary sequences of operations) is proved once against the contract and holds for every
  container that interprets the locale.
\<close>

section \<open>Ring buffers\<close>

text \<open>
  Indices \<open>h\<close> (next item to take) and \<open>t\<close> (next free slot) into a buffer with \<open>cap\<close> slots, one
  of which stays free; \<open>f\<close> reads a slot.
\<close>

definition ring_len :: "nat \<Rightarrow> nat \<Rightarrow> nat \<Rightarrow> nat" where
  "ring_len cap h t = (cap + t - h) mod cap"

definition ring_items :: "(nat \<Rightarrow> 'a) \<Rightarrow> nat \<Rightarrow> nat \<Rightarrow> nat \<Rightarrow> 'a list" where
  "ring_items f cap h t = map (\<lambda>i. f ((h + i) mod cap)) [0..<ring_len cap h t]"

lemma ring_len_cases:
  "h < cap \<Longrightarrow> t < cap \<Longrightarrow> ring_len cap h t = (if h \<le> t then t - h else cap + t - h)"
  by (simp add: ring_len_def) (simp add: mod_if)

lemma ring_len_less: "0 < cap \<Longrightarrow> ring_len cap h t < cap"
  by (simp add: ring_len_def)

lemma ring_len_0: "h < cap \<Longrightarrow> t < cap \<Longrightarrow> ring_len cap h t = 0 \<longleftrightarrow> h = t"
  by (auto simp: ring_len_cases)

lemma ring_full: "h < cap \<Longrightarrow> t < cap \<Longrightarrow> Suc t mod cap = h \<longleftrightarrow> ring_len cap h t = cap - 1"
  by (auto simp: ring_len_cases mod_if)

lemma ring_len_put:
  "h < cap \<Longrightarrow> t < cap \<Longrightarrow> ring_len cap h t < cap - 1 \<Longrightarrow>
   ring_len cap h (Suc t mod cap) = Suc (ring_len cap h t)"
  by (auto simp: ring_len_cases mod_if)

lemma ring_len_get:
  "h < cap \<Longrightarrow> t < cap \<Longrightarrow> h \<noteq> t \<Longrightarrow>
   Suc (ring_len cap (Suc h mod cap) t) = ring_len cap h t"
  by (auto simp: ring_len_cases mod_if)

lemma ring_tail_index: "h < cap \<Longrightarrow> t < cap \<Longrightarrow> (h + ring_len cap h t) mod cap = t"
  by (auto simp: ring_len_cases mod_if)

lemma ring_index_inj:
  "h < cap \<Longrightarrow> t < cap \<Longrightarrow> i < ring_len cap h t \<Longrightarrow> (h + i) mod cap \<noteq> t"
proof -
  assume a: "h < cap" "t < cap" "i < ring_len cap h t"
  show ?thesis
  proof (cases "h + i < cap")
    case True
    then show ?thesis using a by (auto simp: ring_len_cases split: if_splits)
  next
    case False
    moreover have "i < cap" using a ring_len_less [of cap h t] by linarith
    ultimately have "(h + i) mod cap = h + i - cap"
      using a(1) by (simp add: le_mod_geq)
    then show ?thesis using a False by (auto simp: ring_len_cases split: if_splits)
  qed
qed

lemma length_ring_items [simp]: "length (ring_items f cap h t) = ring_len cap h t"
  by (simp add: ring_items_def)

lemma ring_items_Nil: "h < cap \<Longrightarrow> t < cap \<Longrightarrow> ring_items f cap h t = [] \<longleftrightarrow> h = t"
  by (simp add: ring_items_def ring_len_0)

lemma ring_items_cong:
  assumes "\<And>i. i < ring_len cap h t \<Longrightarrow> f ((h + i) mod cap) = g ((h + i) mod cap)"
  shows "ring_items f cap h t = ring_items g cap h t"
  using assms by (simp add: ring_items_def)

lemma ring_items_put:
  assumes "h < cap" "t < cap" "ring_len cap h t < cap - 1"
    and "\<And>j. j < cap \<Longrightarrow> j \<noteq> t \<Longrightarrow> g j = f j"
  shows "ring_items g cap h (Suc t mod cap) = ring_items f cap h t @ [g t]"
proof -
  have "g ((h + i) mod cap) = f ((h + i) mod cap)" if "i < ring_len cap h t" for i
    using that assms ring_index_inj [of h cap t i] by (intro assms(4)) auto
  then show ?thesis
    by (simp add: ring_items_def ring_len_put [OF assms(1-3)] ring_tail_index [OF assms(1,2)])
qed

lemma ring_items_get:
  assumes "h < cap" "t < cap" "h \<noteq> t"
  shows "ring_items f cap h t = f h # ring_items f cap (Suc h mod cap) t"
proof -
  have "ring_len cap h t = Suc (ring_len cap (Suc h mod cap) t)"
    using ring_len_get [OF assms] by simp
  then show ?thesis
    using assms(1) by (simp add: ring_items_def upt_conv_Cons map_Suc_upt [symmetric] mod_simps
        del: upt_Suc)
qed

section \<open>Running operations\<close>

fun put_all :: "('a \<Rightarrow> 'q \<Rightarrow> 'q option) \<Rightarrow> 'a list \<Rightarrow> 'q \<Rightarrow> 'q option" where
  "put_all put [] q = Some q"
| "put_all put (x # xs) q = do { q \<leftarrow> put x q; put_all put xs q }"

fun get_all :: "('q \<Rightarrow> ('a \<times> 'q) option) \<Rightarrow> nat \<Rightarrow> 'q \<Rightarrow> ('a list \<times> 'q) option" where
  "get_all get 0 q = Some ([], q)"
| "get_all get (Suc n) q = do {
     (x, q) \<leftarrow> get q;
     (xs, q) \<leftarrow> get_all get n q;
     Some (x # xs, q)
   }"

text \<open>
  Clients that poll: an operation that cannot proceed is refused and leaves the container
  alone. The answers are those of the code: whether a put was accepted, and the item taken.
\<close>

datatype 'a qop = Put 'a | Get
datatype 'a answer = Accepted bool | Taken "'a option"

fun run_ops ::
  "('a \<Rightarrow> 'q \<Rightarrow> 'q option) \<Rightarrow> ('q \<Rightarrow> ('a \<times> 'q) option) \<Rightarrow> 'a qop list \<Rightarrow> 'q \<Rightarrow> 'a answer list \<times> 'q"
where
  "run_ops put get [] q = ([], q)"
| "run_ops put get (Put x # ops) q =
     (case put x q of
        Some q' \<Rightarrow> (let (as, q'') = run_ops put get ops q' in (Accepted True # as, q''))
      | None \<Rightarrow> (let (as, q'') = run_ops put get ops q in (Accepted False # as, q'')))"
| "run_ops put get (Get # ops) q =
     (case get q of
        Some (x, q') \<Rightarrow> (let (as, q'') = run_ops put get ops q' in (Taken (Some x) # as, q''))
      | None \<Rightarrow> (let (as, q'') = run_ops put get ops q in (Taken None # as, q'')))"

text \<open>The reference containers: lists with a capacity.\<close>

definition list_put :: "nat \<Rightarrow> 'a \<Rightarrow> 'a list \<Rightarrow> 'a list option" where
  "list_put cap x xs = (if length xs < cap then Some (xs @ [x]) else None)"

definition list_get :: "'a list \<Rightarrow> ('a \<times> 'a list) option" where
  "list_get xs = (case xs of [] \<Rightarrow> None | x # xs' \<Rightarrow> Some (x, xs'))"

section \<open>First in, first out\<close>

locale bounded_fifo =
  fixes inv :: "'q \<Rightarrow> bool"
    and items :: "'q \<Rightarrow> 'a list"
    and cap :: "'q \<Rightarrow> nat"
    and ok :: "'a \<Rightarrow> 'q \<Rightarrow> bool"
    and put :: "'a \<Rightarrow> 'q \<Rightarrow> 'q option"
    and get :: "'q \<Rightarrow> ('a \<times> 'q) option"
  assumes put_room: "inv q \<Longrightarrow> ok x q \<Longrightarrow> length (items q) < cap q \<Longrightarrow>
      \<exists>q'. put x q = Some q' \<and> inv q' \<and> items q' = items q @ [x] \<and> cap q' = cap q
        \<and> (\<forall>y. ok y q' = ok y q)"
    and put_full: "inv q \<Longrightarrow> ok x q \<Longrightarrow> \<not> length (items q) < cap q \<Longrightarrow> put x q = None"
    and get_item: "inv q \<Longrightarrow> items q = x # xs \<Longrightarrow>
      \<exists>q'. get q = Some (x, q') \<and> inv q' \<and> items q' = xs \<and> cap q' = cap q
        \<and> (\<forall>y. ok y q' = ok y q)"
    and get_empty: "inv q \<Longrightarrow> items q = [] \<Longrightarrow> get q = None"
begin

lemma put_all_room:
  assumes "inv q" "\<forall>x \<in> set xs. ok x q" "length (items q) + length xs \<le> cap q"
  shows "\<exists>q'. put_all put xs q = Some q' \<and> inv q' \<and> items q' = items q @ xs \<and> cap q' = cap q"
  using assms
proof (induction xs arbitrary: q)
  case (Cons x xs)
  obtain q' where q': "put x q = Some q'" "inv q'" "items q' = items q @ [x]" "cap q' = cap q"
      "\<forall>y. ok y q' = ok y q"
    using put_room [of q x] Cons.prems by auto
  with Cons.IH [of q'] Cons.prems show ?case by auto
qed simp

lemma get_all_items:
  assumes "inv q" "items q = xs @ ys"
  shows "\<exists>q'. get_all get (length xs) q = Some (xs, q') \<and> inv q' \<and> items q' = ys \<and> cap q' = cap q"
  using assms
proof (induction xs arbitrary: q)
  case (Cons x xs)
  obtain q' where q': "get q = Some (x, q')" "inv q'" "items q' = xs @ ys" "cap q' = cap q"
    using get_item [of q x "xs @ ys"] Cons.prems by auto
  with Cons.IH [of q'] show ?case by auto
qed simp

lemma fill_then_drain:
  assumes "inv q" "items q = []" "\<forall>x \<in> set xs. ok x q" "length xs \<le> cap q"
  shows "\<exists>q' q''. put_all put xs q = Some q' \<and> get_all get (length xs) q' = Some (xs, q'')
    \<and> items q'' = []"
proof -
  obtain q' where "put_all put xs q = Some q'" "inv q'" "items q' = xs"
    using put_all_room [of q xs] assms by auto
  with get_all_items [of q' xs "[]"] show ?thesis by auto
qed

text \<open>Every sequence of operations is answered as the reference container answers it.\<close>

lemma run_ops_refines:
  assumes "inv q" "\<forall>x. Put x \<in> set ops \<longrightarrow> ok x q"
  shows "\<exists>q'. run_ops put get ops q = (fst (run_ops (list_put (cap q)) list_get ops (items q)), q')
    \<and> inv q' \<and> items q' = snd (run_ops (list_put (cap q)) list_get ops (items q)) \<and> cap q' = cap q"
  using assms
proof (induction ops arbitrary: q)
  case (Cons op ops)
  show ?case
  proof (cases op)
    case (Put x)
    show ?thesis
    proof (cases "length (items q) < cap q")
      case True
      obtain q' where "put x q = Some q'" "inv q'" "items q' = items q @ [x]" "cap q' = cap q"
          "\<forall>y. ok y q' = ok y q"
        using put_room [of q x] Cons.prems Put True by auto
      with Cons.IH [of q'] Cons.prems Put True show ?thesis
        by (auto simp: list_put_def split: prod.splits)
    next
      case False
      then have "put x q = None" using put_full [of q x] Cons.prems Put by auto
      with Cons.IH [of q] Cons.prems Put False show ?thesis
        by (auto simp: list_put_def split: prod.splits)
    qed
  next
    case Get
    show ?thesis
    proof (cases "items q")
      case Nil
      with Cons.IH [of q] Cons.prems Get get_empty [of q] show ?thesis
        by (auto simp: list_get_def split: prod.splits)
    next
      case (Cons x xs)
      obtain q' where "get q = Some (x, q')" "inv q'" "items q' = xs" "cap q' = cap q"
          "\<forall>y. ok y q' = ok y q"
        using get_item [of q x xs] Cons Cons.prems by auto
      with Cons Cons.IH [of q'] Cons.prems Get show ?thesis
        by (auto simp: list_get_def split: prod.splits)
    qed
  qed
qed simp

end

section \<open>Last in, first out\<close>

locale bounded_lifo =
  fixes inv :: "'s \<Rightarrow> bool"
    and items :: "'s \<Rightarrow> 'a list"
    and cap :: "'s \<Rightarrow> nat"
    and push :: "'a \<Rightarrow> 's \<Rightarrow> 's option"
    and pop :: "'s \<Rightarrow> ('a \<times> 's) option"
  assumes push_room: "inv s \<Longrightarrow> length (items s) < cap s \<Longrightarrow>
      \<exists>s'. push x s = Some s' \<and> inv s' \<and> items s' = x # items s \<and> cap s' = cap s"
    and push_full: "inv s \<Longrightarrow> \<not> length (items s) < cap s \<Longrightarrow> push x s = None"
    and pop_item: "inv s \<Longrightarrow> items s = x # xs \<Longrightarrow>
      \<exists>s'. pop s = Some (x, s') \<and> inv s' \<and> items s' = xs \<and> cap s' = cap s"
    and pop_empty: "inv s \<Longrightarrow> items s = [] \<Longrightarrow> pop s = None"
begin

lemma push_all_room:
  assumes "inv s" "length (items s) + length xs \<le> cap s"
  shows "\<exists>s'. put_all push xs s = Some s' \<and> inv s' \<and> items s' = rev xs @ items s \<and> cap s' = cap s"
  using assms
proof (induction xs arbitrary: s)
  case (Cons x xs)
  obtain s' where "push x s = Some s'" "inv s'" "items s' = x # items s" "cap s' = cap s"
    using push_room [of s x] Cons.prems by auto
  with Cons.IH [of s'] Cons.prems show ?case by auto
qed simp

lemma pop_all_items:
  assumes "inv s" "items s = xs @ ys"
  shows "\<exists>s'. get_all pop (length xs) s = Some (xs, s') \<and> inv s' \<and> items s' = ys \<and> cap s' = cap s"
  using assms
proof (induction xs arbitrary: s)
  case (Cons x xs)
  obtain s' where "pop s = Some (x, s')" "inv s'" "items s' = xs @ ys" "cap s' = cap s"
    using pop_item [of s x "xs @ ys"] Cons.prems by auto
  with Cons.IH [of s'] show ?case by auto
qed simp

lemma push_then_pop_reverses:
  assumes "inv s" "length (items s) + length xs \<le> cap s"
  shows "\<exists>s' s''. put_all push xs s = Some s' \<and> get_all pop (length xs) s' = Some (rev xs, s'')
    \<and> inv s'' \<and> items s'' = items s"
proof -
  obtain s' where "put_all push xs s = Some s'" "inv s'" "items s' = rev xs @ items s"
    using push_all_room [OF assms] by blast
  with pop_all_items [of s' "rev xs" "items s"] show ?thesis by auto
qed

end

section \<open>Work-stealing deques\<close>

text \<open>
  The owner of a deque pushes and pops at one end, thieves steal from the other. The reference
  is a list with its head at the owner's end.
\<close>

datatype 'a dop = DPush 'a | DPop | DSteal
datatype 'a danswer = Pushed | Popped "'a option" | Stolen "'a option"

fun run_dops ::
  "('a \<Rightarrow> 's \<Rightarrow> 's option) \<Rightarrow> ('s \<Rightarrow> ('a option \<times> 's) option) \<Rightarrow> ('s \<Rightarrow> ('a option \<times> 's) option) \<Rightarrow>
   'a dop list \<Rightarrow> 's \<Rightarrow> ('a danswer list \<times> 's) option"
where
  "run_dops push pop steal [] s = Some ([], s)"
| "run_dops push pop steal (DPush x # ops) s = do {
     s \<leftarrow> push x s;
     (as, s) \<leftarrow> run_dops push pop steal ops s;
     Some (Pushed # as, s)
   }"
| "run_dops push pop steal (DPop # ops) s = do {
     (r, s) \<leftarrow> pop s;
     (as, s) \<leftarrow> run_dops push pop steal ops s;
     Some (Popped r # as, s)
   }"
| "run_dops push pop steal (DSteal # ops) s = do {
     (r, s) \<leftarrow> steal s;
     (as, s) \<leftarrow> run_dops push pop steal ops s;
     Some (Stolen r # as, s)
   }"

definition list_pop :: "'a list \<Rightarrow> 'a option \<times> 'a list" where
  "list_pop xs = (case xs of [] \<Rightarrow> (None, []) | x # xs' \<Rightarrow> (Some x, xs'))"

definition list_steal :: "'a list \<Rightarrow> 'a option \<times> 'a list" where
  "list_steal xs = (if xs = [] then (None, []) else (Some (last xs), butlast xs))"

fun ref_dops :: "'a dop list \<Rightarrow> 'a list \<Rightarrow> 'a danswer list \<times> 'a list" where
  "ref_dops [] xs = ([], xs)"
| "ref_dops (DPush x # ops) xs = (let (as, ys) = ref_dops ops (x # xs) in (Pushed # as, ys))"
| "ref_dops (DPop # ops) xs =
     (let (r, xs) = list_pop xs; (as, ys) = ref_dops ops xs in (Popped r # as, ys))"
| "ref_dops (DSteal # ops) xs =
     (let (r, xs) = list_steal xs; (as, ys) = ref_dops ops xs in (Stolen r # as, ys))"

fun pushed :: "'a dop list \<Rightarrow> 'a list" where
  "pushed [] = []"
| "pushed (DPush x # ops) = x # pushed ops"
| "pushed (DPop # ops) = pushed ops"
| "pushed (DSteal # ops) = pushed ops"

fun taken :: "'a danswer list \<Rightarrow> 'a list" where
  "taken [] = []"
| "taken (Popped (Some x) # as) = x # taken as"
| "taken (Stolen (Some x) # as) = x # taken as"
| "taken (_ # as) = taken as"

text \<open>Every task that went in is taken out once or still there.\<close>

lemma ref_dops_conserves:
  "mset (taken (fst (ref_dops ops xs))) + mset (snd (ref_dops ops xs)) = mset xs + mset (pushed ops)"
proof (induction ops xs rule: ref_dops.induct)
  case (3 ops xs)
  then show ?case
    by (cases xs) (auto simp: list_pop_def split: prod.splits)
next
  case (4 ops xs)
  then show ?case
    by (cases xs rule: rev_cases) (auto simp: list_steal_def split: prod.splits)
qed (auto split: prod.splits)

locale work_deque =
  fixes rel :: "'s \<Rightarrow> 'a list \<Rightarrow> bool"
    and ok :: "'a \<Rightarrow> 's \<Rightarrow> 'a list \<Rightarrow> bool"
    and limit :: nat
    and push :: "'a \<Rightarrow> 's \<Rightarrow> 's option"
    and pop :: "'s \<Rightarrow> ('a option \<times> 's) option"
    and steal :: "'s \<Rightarrow> ('a option \<times> 's) option"
  assumes push_law: "rel s ts \<Longrightarrow> ok x s ts \<Longrightarrow> length ts < limit \<Longrightarrow>
      \<exists>s'. push x s = Some s' \<and> rel s' (x # ts) \<and> (\<forall>y. y \<noteq> x \<longrightarrow> ok y s ts \<longrightarrow> ok y s' (x # ts))"
    and pop_law: "rel s (x # ts) \<Longrightarrow> \<exists>s'. pop s = Some (Some x, s') \<and> rel s' ts \<and> ok x s' ts \<and>
      (\<forall>y. ok y s (x # ts) \<longrightarrow> ok y s' ts)"
    and pop_none: "rel s [] \<Longrightarrow> pop s = Some (None, s)"
    and steal_law: "rel s (ts @ [x]) \<Longrightarrow> \<exists>s'. steal s = Some (Some x, s') \<and> rel s' ts \<and> ok x s' ts \<and>
      (\<forall>y. ok y s (ts @ [x]) \<longrightarrow> ok y s' ts)"
    and steal_none: "rel s [] \<Longrightarrow> steal s = Some (None, s)"
begin

lemma run_dops_refines:
  assumes "rel s ts" "\<forall>x \<in> set (pushed ops). ok x s ts" "distinct (pushed ops)"
    and "length ts + length (pushed ops) \<le> limit"
  shows "\<exists>s'. run_dops push pop steal ops s = Some (fst (ref_dops ops ts), s') \<and>
    rel s' (snd (ref_dops ops ts))"
  using assms
proof (induction ops arbitrary: s ts)
  case (Cons op ops)
  show ?case
  proof (cases op)
    case (DPush x)
    obtain s' where "push x s = Some s'" "rel s' (x # ts)" "\<forall>y. y \<noteq> x \<longrightarrow> ok y s ts \<longrightarrow> ok y s' (x # ts)"
      using push_law [of s ts x] Cons.prems DPush by auto
    with Cons.IH [of s' "x # ts"] Cons.prems DPush show ?thesis
      by (fastforce split: prod.splits)
  next
    case DPop
    show ?thesis
    proof (cases ts)
      case Nil
      with Cons.IH [of s "[]"] Cons.prems DPop pop_none [of s] show ?thesis
        by (auto simp: list_pop_def split: prod.splits)
    next
      case (Cons x xs)
      obtain s' where "pop s = Some (Some x, s')" "rel s' xs" "\<forall>y. ok y s ts \<longrightarrow> ok y s' xs"
        using pop_law [of s x xs] Cons Cons.prems by auto
      with Cons.IH [of s' xs] Cons.prems DPop Cons show ?thesis
        by (fastforce simp: list_pop_def split: prod.splits)
    qed
  next
    case DSteal
    show ?thesis
    proof (cases ts rule: rev_cases)
      case Nil
      with Cons.IH [of s "[]"] Cons.prems DSteal steal_none [of s] show ?thesis
        by (auto simp: list_steal_def split: prod.splits)
    next
      case (snoc xs x)
      obtain s' where "steal s = Some (Some x, s')" "rel s' xs" "\<forall>y. ok y s ts \<longrightarrow> ok y s' xs"
        using steal_law [of s xs x] snoc Cons.prems by auto
      with Cons.IH [of s' xs] Cons.prems DSteal snoc show ?thesis
        by (fastforce simp: list_steal_def split: prod.splits)
    qed
  qed
qed simp

end

end
