(* ===== verification/Channel.thy ===== *)
theory Channel
  imports Interfaces
begin

text \<open>
  The shared-memory channels of \<^verbatim>\<open>src/channel_shm/channel.c\<close>: byte buffers used as rings
  (buffered channels) or as a single slot (unbuffered channels), with three implementations
  (MPMC with locks on both ends, MPSC with a lock for senders only, SPSC without locks)
  reached through tables of functions. This theory has one call at a time; the interleaving
  of calls is the subject of \<^theory_text>\<open>Channel_Conc\<close> and the pool of recycled channels of
  \<^theory_text>\<open>Channel_Cache\<close>.
\<close>

section \<open>Channels\<close>

text \<open>
  \<^verbatim>\<open>struct SHM_channel\<close>. The flags of the two mutexes say whether they are held. The fields
  \<open>ch_size\<close>, \<open>ch_itemsize\<close>, \<open>ch_head\<close> and \<open>ch_tail\<close> are unsigned and their arithmetic wraps.
\<close>

record channel =
  ch_head_lock :: bool
  ch_tail_lock :: bool
  ch_owner :: int
  ch_impl :: int
  ch_closed :: int
  ch_size :: uint
  ch_itemsize :: uint
  ch_head :: uint
  ch_tail :: uint
  ch_buffer :: "byte list"

abbreviation (input) MPMC :: int where "MPMC \<equiv> 0"
abbreviation (input) MPSC :: int where "MPSC \<equiv> 1"
abbreviation (input) SPSC :: int where "SPSC \<equiv> 2"

definition INC :: "uint \<Rightarrow> uint \<Rightarrow> uint option" where
  "INC i s = umod (i + 1) s"

definition DEC :: "uint \<Rightarrow> uint \<Rightarrow> uint option" where
  "DEC i s = umod (i - 1 + s) s"

definition NUM_ITEMS :: "channel \<Rightarrow> uint option" where
  "NUM_ITEMS chan = umod (ch_size chan + ch_tail chan - ch_head chan) (ch_size chan)"

definition IS_FULL :: "channel \<Rightarrow> bool option" where
  "IS_FULL chan = do { n \<leftarrow> NUM_ITEMS chan; Some (n = ch_size chan - 1) }"

definition IS_EMPTY :: "channel \<Rightarrow> bool" where
  "IS_EMPTY chan = (ch_head chan = ch_tail chan)"

definition NUM_ITEMS_UNBUF :: "channel \<Rightarrow> uint" where
  "NUM_ITEMS_UNBUF chan = ch_head chan"

definition IS_FULL_UNBUF :: "channel \<Rightarrow> bool" where
  "IS_FULL_UNBUF chan = (ch_head chan = 1)"

definition IS_EMPTY_UNBUF :: "channel \<Rightarrow> bool" where
  "IS_EMPTY_UNBUF chan = (ch_head chan = 0)"

definition IS_MULTIPLE :: "uint \<Rightarrow> uint \<Rightarrow> bool" where
  "IS_MULTIPLE num n = (num AND (n - 1) = 0)"

text \<open>\<^verbatim>\<open>memcpy\<close> into a buffer at an offset and out of it; leaving either object aborts.\<close>

definition memcpy_in :: "byte list \<Rightarrow> nat \<Rightarrow> byte list \<Rightarrow> nat \<Rightarrow> byte list option" where
  "memcpy_in buf off data n =
     (if off + n \<le> length buf \<and> n \<le> length data
      then Some (take off buf @ take n data @ drop (off + n) buf) else None)"

definition memcpy_out :: "byte list \<Rightarrow> nat \<Rightarrow> nat \<Rightarrow> byte list option" where
  "memcpy_out buf off n = (if off + n \<le> length buf then Some (take n (drop off buf)) else None)"

text \<open>A mutex that is held blocks its taker for good when nothing else runs: no result.\<close>

definition lock_head :: "channel \<Rightarrow> channel option" where
  "lock_head chan = (if ch_head_lock chan then None else Some (chan\<lparr>ch_head_lock := True\<rparr>))"

definition unlock_head :: "channel \<Rightarrow> channel" where
  "unlock_head chan = chan\<lparr>ch_head_lock := False\<rparr>"

definition lock_tail :: "channel \<Rightarrow> channel option" where
  "lock_tail chan = (if ch_tail_lock chan then None else Some (chan\<lparr>ch_tail_lock := True\<rparr>))"

definition unlock_tail :: "channel \<Rightarrow> channel" where
  "unlock_tail chan = chan\<lparr>ch_tail_lock := False\<rparr>"

definition channel_buffered :: "channel \<Rightarrow> bool" where
  "channel_buffered chan = (ch_size chan - 1 > 0)"

definition channel_unbuffered :: "channel \<Rightarrow> bool" where
  "channel_unbuffered chan = (\<not> channel_buffered chan)"

definition channel_closed :: "channel \<Rightarrow> bool" where
  "channel_closed chan = (ch_closed chan = 1)"

text \<open>
  The construction of a channel in \<^verbatim>\<open>channel_alloc\<close>. \<open>chan_ok\<close> and \<open>buffer_ok\<close> say whether the
  two calls of \<^verbatim>\<open>malloc\<close> succeed and \<open>junk\<close> is the contents of fresh memory.
\<close>

definition channel_new ::
  "bool \<Rightarrow> bool \<Rightarrow> (nat \<Rightarrow> byte) \<Rightarrow> uint \<Rightarrow> uint \<Rightarrow> int \<Rightarrow> channel option"
where
  "channel_new chan_ok buffer_ok junk sz n impl =
     (if \<not> chan_ok then None
      else let bufsize = (n + 1) * sz
           in if \<not> buffer_ok then None
              else Some \<lparr>ch_head_lock = False, ch_tail_lock = False, ch_owner = - 1,
                ch_impl = impl, ch_closed = 0, ch_size = n + 1, ch_itemsize = sz,
                ch_head = 0, ch_tail = 0, ch_buffer = map junk [0..<unat bufsize]\<rparr>)"

section \<open>MPMC implementation\<close>

definition channel_send_unbuffered_mpmc ::
  "channel \<Rightarrow> byte list \<Rightarrow> uint \<Rightarrow> (bool \<times> channel) option"
where
  "channel_send_unbuffered_mpmc chan data sz =
     (if IS_FULL_UNBUF chan then Some (False, chan)
      else do {
        chan \<leftarrow> lock_head chan;
        if IS_FULL_UNBUF chan then Some (False, unlock_head chan)
        else do {
          assertion (IS_EMPTY_UNBUF chan);
          assertion (sz \<le> ch_itemsize chan);
          buffer \<leftarrow> memcpy_in (ch_buffer chan) 0 data (unat sz);
          let chan = chan\<lparr>ch_buffer := buffer, ch_head := 1\<rparr>;
          Some (True, unlock_head chan)
        }
      })"

definition channel_send_mpmc :: "channel \<Rightarrow> byte list \<Rightarrow> uint \<Rightarrow> (bool \<times> channel) option" where
  "channel_send_mpmc chan data sz =
     (if channel_unbuffered chan then channel_send_unbuffered_mpmc chan data sz
      else do {
        full \<leftarrow> IS_FULL chan;
        if full then Some (False, chan)
        else do {
          chan \<leftarrow> lock_tail chan;
          full \<leftarrow> IS_FULL chan;
          if full then Some (False, unlock_tail chan)
          else do {
            assertion (sz \<le> ch_itemsize chan);
            buffer \<leftarrow> memcpy_in (ch_buffer chan) (unat (ch_tail chan * ch_itemsize chan)) data (unat sz);
            tail \<leftarrow> INC (ch_tail chan) (ch_size chan);
            let chan = chan\<lparr>ch_buffer := buffer, ch_tail := tail\<rparr>;
            Some (True, unlock_tail chan)
          }
        }
      })"

text \<open>A receive returns the received bytes, \<open>None\<close> where the code returns \<^verbatim>\<open>false\<close>.\<close>

definition channel_recv_unbuffered_mpmc ::
  "channel \<Rightarrow> uint \<Rightarrow> (byte list option \<times> channel) option"
where
  "channel_recv_unbuffered_mpmc chan sz =
     (if IS_EMPTY_UNBUF chan then Some (None, chan)
      else do {
        chan \<leftarrow> lock_head chan;
        if IS_EMPTY_UNBUF chan then Some (None, unlock_head chan)
        else do {
          assertion (IS_FULL_UNBUF chan);
          assertion (sz \<le> ch_itemsize chan);
          data \<leftarrow> memcpy_out (ch_buffer chan) 0 (unat sz);
          let chan = chan\<lparr>ch_head := 0\<rparr>;
          assertion (IS_EMPTY_UNBUF chan);
          Some (Some data, unlock_head chan)
        }
      })"

definition channel_recv_mpmc :: "channel \<Rightarrow> uint \<Rightarrow> (byte list option \<times> channel) option" where
  "channel_recv_mpmc chan sz =
     (if channel_unbuffered chan then channel_recv_unbuffered_mpmc chan sz
      else if IS_EMPTY chan then Some (None, chan)
      else do {
        chan \<leftarrow> lock_head chan;
        if IS_EMPTY chan then Some (None, unlock_head chan)
        else do {
          assertion (sz \<le> ch_itemsize chan);
          data \<leftarrow> memcpy_out (ch_buffer chan) (unat (ch_head chan * ch_itemsize chan)) (unat sz);
          head \<leftarrow> INC (ch_head chan) (ch_size chan);
          let chan = chan\<lparr>ch_head := head\<rparr>;
          Some (Some data, unlock_head chan)
        }
      })"

definition channel_close_mpmc :: "channel \<Rightarrow> bool \<times> channel" where
  "channel_close_mpmc chan =
     (if channel_closed chan then (False, chan) else (True, chan\<lparr>ch_closed := 1\<rparr>))"

definition channel_open_mpmc :: "channel \<Rightarrow> bool \<times> channel" where
  "channel_open_mpmc chan =
     (if \<not> channel_closed chan then (False, chan) else (True, chan\<lparr>ch_closed := 0\<rparr>))"

section \<open>MPSC implementation\<close>

definition channel_send_mpsc :: "channel \<Rightarrow> byte list \<Rightarrow> uint \<Rightarrow> (bool \<times> channel) option" where
  "channel_send_mpsc chan data sz = channel_send_mpmc chan data sz"

definition channel_recv_unbuffered_mpsc ::
  "channel \<Rightarrow> uint \<Rightarrow> (byte list option \<times> channel) option"
where
  "channel_recv_unbuffered_mpsc chan sz =
     (if IS_EMPTY_UNBUF chan then Some (None, chan)
      else do {
        assertion (IS_FULL_UNBUF chan);
        assertion (sz \<le> ch_itemsize chan);
        data \<leftarrow> memcpy_out (ch_buffer chan) 0 (unat sz);
        Some (Some data, chan\<lparr>ch_head := 0\<rparr>)
      })"

definition channel_recv_mpsc :: "channel \<Rightarrow> uint \<Rightarrow> (byte list option \<times> channel) option" where
  "channel_recv_mpsc chan sz =
     (if channel_unbuffered chan then channel_recv_unbuffered_mpsc chan sz
      else if IS_EMPTY chan then Some (None, chan)
      else do {
        assertion (sz \<le> ch_itemsize chan);
        data \<leftarrow> memcpy_out (ch_buffer chan) (unat (ch_head chan * ch_itemsize chan)) (unat sz);
        newhead \<leftarrow> INC (ch_head chan) (ch_size chan);
        Some (Some data, chan\<lparr>ch_head := newhead\<rparr>)
      })"

definition channel_close_mpsc :: "channel \<Rightarrow> bool \<times> channel" where
  "channel_close_mpsc chan =
     (if channel_closed chan then (False, chan) else (True, chan\<lparr>ch_closed := 1\<rparr>))"

definition channel_open_mpsc :: "channel \<Rightarrow> bool \<times> channel" where
  "channel_open_mpsc chan =
     (if \<not> channel_closed chan then (False, chan) else (True, chan\<lparr>ch_closed := 0\<rparr>))"

section \<open>SPSC implementation\<close>

definition channel_send_unbuffered_spsc ::
  "channel \<Rightarrow> byte list \<Rightarrow> uint \<Rightarrow> (bool \<times> channel) option"
where
  "channel_send_unbuffered_spsc chan data sz =
     (if IS_FULL_UNBUF chan then Some (False, chan)
      else do {
        assertion (IS_EMPTY_UNBUF chan);
        assertion (sz \<le> ch_itemsize chan);
        buffer \<leftarrow> memcpy_in (ch_buffer chan) 0 data (unat sz);
        Some (True, chan\<lparr>ch_buffer := buffer, ch_head := 1\<rparr>)
      })"

definition channel_send_spsc :: "channel \<Rightarrow> byte list \<Rightarrow> uint \<Rightarrow> (bool \<times> channel) option" where
  "channel_send_spsc chan data sz =
     (if channel_unbuffered chan then channel_send_unbuffered_spsc chan data sz
      else do {
        full \<leftarrow> IS_FULL chan;
        if full then Some (False, chan)
        else do {
          assertion (sz \<le> ch_itemsize chan);
          buffer \<leftarrow> memcpy_in (ch_buffer chan) (unat (ch_tail chan * ch_itemsize chan)) data (unat sz);
          newtail \<leftarrow> INC (ch_tail chan) (ch_size chan);
          Some (True, chan\<lparr>ch_buffer := buffer, ch_tail := newtail\<rparr>)
        }
      })"

definition channel_close_spsc :: "channel \<Rightarrow> bool \<times> channel" where
  "channel_close_spsc chan =
     (if channel_closed chan then (False, chan) else (True, chan\<lparr>ch_closed := 1\<rparr>))"

definition channel_open_spsc :: "channel \<Rightarrow> bool \<times> channel" where
  "channel_open_spsc chan =
     (if \<not> channel_closed chan then (False, chan) else (True, chan\<lparr>ch_closed := 0\<rparr>))"

definition channel_recv_spsc :: "channel \<Rightarrow> uint \<Rightarrow> (byte list option \<times> channel) option" where
  "channel_recv_spsc chan sz = channel_recv_mpsc chan sz"

section \<open>Function tables and the channel API\<close>

definition send_fn :: "(channel \<Rightarrow> byte list \<Rightarrow> uint \<Rightarrow> (bool \<times> channel) option) list" where
  "send_fn = [channel_send_mpmc, channel_send_mpsc, channel_send_spsc]"

definition recv_fn :: "(channel \<Rightarrow> uint \<Rightarrow> (byte list option \<times> channel) option) list" where
  "recv_fn = [channel_recv_mpmc, channel_recv_mpsc, channel_recv_spsc]"

definition close_fn :: "(channel \<Rightarrow> bool \<times> channel) list" where
  "close_fn = [channel_close_mpmc, channel_close_mpsc, channel_close_spsc]"

definition open_fn :: "(channel \<Rightarrow> bool \<times> channel) list" where
  "open_fn = [channel_open_mpmc, channel_open_mpsc, channel_open_spsc]"

text \<open>A table is indexed by the \<^verbatim>\<open>int\<close> field \<^verbatim>\<open>impl\<close>; an index outside the table aborts.\<close>

definition entry :: "'f list \<Rightarrow> int \<Rightarrow> 'f option" where
  "entry table i = (if i < 0 then None else read_at table (nat i))"

definition channel_send :: "channel \<Rightarrow> byte list \<Rightarrow> uint \<Rightarrow> (bool \<times> channel) option" where
  "channel_send chan data sz = do { f \<leftarrow> entry send_fn (ch_impl chan); f chan data sz }"

definition channel_receive :: "channel \<Rightarrow> uint \<Rightarrow> (byte list option \<times> channel) option" where
  "channel_receive chan sz = do { f \<leftarrow> entry recv_fn (ch_impl chan); f chan sz }"

definition channel_close :: "channel \<Rightarrow> (bool \<times> channel) option" where
  "channel_close chan = do { f \<leftarrow> entry close_fn (ch_impl chan); Some (f chan) }"

definition channel_open :: "channel \<Rightarrow> (bool \<times> channel) option" where
  "channel_open chan = do { f \<leftarrow> entry open_fn (ch_impl chan); Some (f chan) }"

text \<open>\<^verbatim>\<open>channel_owner\<close> accepts a null pointer, here \<open>None\<close>.\<close>

definition channel_owner :: "channel option \<Rightarrow> int" where
  "channel_owner chan = (case chan of None \<Rightarrow> - 1 | Some chan \<Rightarrow> ch_owner chan)"

definition channel_peek :: "channel \<Rightarrow> uint option" where
  "channel_peek chan =
     (if channel_unbuffered chan then Some (NUM_ITEMS_UNBUF chan) else NUM_ITEMS chan)"

definition channel_capacity :: "channel \<Rightarrow> uint" where
  "channel_capacity chan = ch_size chan - 1"

definition channel_impl :: "channel \<Rightarrow> int" where
  "channel_impl chan = ch_impl chan"

text \<open>
  \<^verbatim>\<open>channel_inspect\<close> prints the occupancy of a buffered channel. Its first loop advances from
  \<^verbatim>\<open>head\<close> to \<^verbatim>\<open>tail\<close>; it returns the number of steps. The result is the printed text.
\<close>

partial_function (option) inspect_loop :: "uint \<Rightarrow> uint \<Rightarrow> uint \<Rightarrow> nat \<Rightarrow> nat option" where
  "inspect_loop i tail sz j =
     (if i \<noteq> tail then do { i \<leftarrow> INC i sz; inspect_loop i tail sz (Suc j) } else Some j)"

definition channel_inspect :: "channel \<Rightarrow> string option" where
  "channel_inspect chan =
     (if channel_unbuffered chan then Some []
      else do {
        j \<leftarrow> inspect_loop (ch_head chan) (ch_tail chan) (ch_size chan) 0;
        Some (''[ '' @ concat (replicate j ''X '') @
          concat (replicate (unat (ch_size chan - of_nat j)) ''  '') @ '']'' @ [CHR 0x0A])
      })"

section \<open>Blocks of a buffer\<close>

definition block :: "nat \<Rightarrow> nat \<Rightarrow> byte list \<Rightarrow> byte list" where
  "block w i buf = take w (drop (i * w) buf)"

lemma memcpy_in_eq:
  "off + length data \<le> length buf \<Longrightarrow>
   memcpy_in buf off data (length data) = Some (take off buf @ data @ drop (off + length data) buf)"
  by (simp add: memcpy_in_def)

lemma block_memcpy_same:
  assumes "length data \<le> w" "Suc i * w \<le> length buf"
  shows "block w i (take (i * w) buf @ data @ drop (i * w + length data) buf) =
    data @ drop (length data) (block w i buf)"
  using assms by (simp add: block_def drop_take add.commute min_absorb2)

lemma block_memcpy_other:
  assumes "length data \<le> w" "Suc i * w \<le> length buf" "j \<noteq> i"
  shows "block w j (take (i * w) buf @ data @ drop (i * w + length data) buf) = block w j buf"
proof (cases "j < i")
  case True
  then have "Suc j * w \<le> i * w" by (intro mult_le_mono1) simp
  then show ?thesis
    using assms by (simp add: block_def drop_take min_absorb2)
next
  case False
  with assms(3) have "Suc i * w \<le> j * w" by (intro mult_le_mono1) simp
  moreover have "i * w \<le> length buf" using assms(2) by simp
  moreover have "i * w \<le> j * w" using calculation(1) by (metis add_leD2 mult_Suc)
  ultimately show ?thesis
    using assms by (simp add: block_def min_absorb2)
qed

lemma length_memcpy: "off + n \<le> length buf \<Longrightarrow> length data = n \<Longrightarrow>
  length (take off buf @ data @ drop (off + n) buf) = length buf"
  by simp

section \<open>Invariant and abstraction\<close>

definition chan_inv :: "channel \<Rightarrow> bool" where
  "chan_inv c \<longleftrightarrow> ch_impl c \<in> {MPMC, MPSC, SPSC} \<and> \<not> ch_head_lock c \<and> \<not> ch_tail_lock c \<and>
     ch_size c \<noteq> 0 \<and> unat (ch_size c) \<le> 2 ^ 31 \<and>
     unat (ch_size c) * unat (ch_itemsize c) < 2 ^ 32 \<and>
     length (ch_buffer c) = unat (ch_size c) * unat (ch_itemsize c) \<and>
     (if channel_unbuffered c then ch_head c \<le> 1 \<and> ch_tail c = 0
      else ch_head c < ch_size c \<and> ch_tail c < ch_size c)"

definition chan_slots :: "channel \<Rightarrow> byte list list" where
  "chan_slots c =
     (let slot = (\<lambda>i. block (unat (ch_itemsize c)) i (ch_buffer c))
      in if channel_unbuffered c then (if ch_head c = 1 then [slot 0] else [])
         else ring_items slot (unat (ch_size c)) (unat (ch_head c)) (unat (ch_tail c)))"

text \<open>The messages of \<open>sz\<close> bytes waiting in a channel, oldest first.\<close>

definition chan_items :: "uint \<Rightarrow> channel \<Rightarrow> byte list list" where
  "chan_items sz c = map (take (unat sz)) (chan_slots c)"

text \<open>An unbuffered channel holds one message, a buffered one \<open>ch_size - 1\<close>.\<close>

definition chan_cap :: "channel \<Rightarrow> nat" where
  "chan_cap c = (if channel_unbuffered c then 1 else unat (ch_size c) - 1)"

definition chan_put :: "uint \<Rightarrow> byte list \<Rightarrow> channel \<Rightarrow> channel option" where
  "chan_put sz data c = (case channel_send c data sz of Some (True, c') \<Rightarrow> Some c' | _ \<Rightarrow> None)"

definition chan_get :: "uint \<Rightarrow> channel \<Rightarrow> (byte list \<times> channel) option" where
  "chan_get sz c = (case channel_receive c sz of Some (Some d, c') \<Rightarrow> Some (d, c') | _ \<Rightarrow> None)"

section \<open>The three implementations agree\<close>

lemma unlock_lock_head: "\<not> ch_head_lock c \<Longrightarrow> c\<lparr>ch_head_lock := False\<rparr> = c"
  by (cases c) simp

lemma unlock_lock_tail: "\<not> ch_tail_lock c \<Longrightarrow> c\<lparr>ch_tail_lock := False\<rparr> = c"
  by (cases c) simp

lemmas lock_defs = lock_head_def unlock_head_def lock_tail_def unlock_tail_def

lemmas chan_tests = IS_FULL_def IS_EMPTY_def NUM_ITEMS_def IS_FULL_UNBUF_def IS_EMPTY_UNBUF_def
  channel_unbuffered_def channel_buffered_def

lemma send_mpmc_eq_spsc:
  assumes "\<not> ch_head_lock c" "\<not> ch_tail_lock c"
  shows "channel_send_mpmc c data sz = channel_send_spsc c data sz"
  using assms
  by (cases c) (auto simp: channel_send_mpmc_def channel_send_spsc_def
      channel_send_unbuffered_mpmc_def channel_send_unbuffered_spsc_def lock_defs chan_tests Let_def
      split: Option.bind_splits)

lemma recv_mpmc_eq_mpsc:
  assumes "\<not> ch_head_lock c" "\<not> ch_tail_lock c"
  shows "channel_recv_mpmc c sz = channel_recv_mpsc c sz"
  using assms
  by (cases c) (auto simp: channel_recv_mpmc_def channel_recv_mpsc_def
      channel_recv_unbuffered_mpmc_def channel_recv_unbuffered_mpsc_def lock_defs chan_tests Let_def
      split: Option.bind_splits)

lemma channel_send_spsc:
  "chan_inv c \<Longrightarrow> channel_send c data sz = channel_send_spsc c data sz"
  by (auto simp: chan_inv_def channel_send_def entry_def send_fn_def channel_send_mpsc_def
      send_mpmc_eq_spsc)

lemma channel_receive_mpsc:
  "chan_inv c \<Longrightarrow> channel_receive c sz = channel_recv_mpsc c sz"
  by (auto simp: chan_inv_def channel_receive_def entry_def recv_fn_def channel_recv_spsc_def
      recv_mpmc_eq_mpsc)

section \<open>Occupancy\<close>

lemma unbuffered_size: "channel_unbuffered c \<longleftrightarrow> ch_size c = 1"
  by (auto simp: channel_unbuffered_def channel_buffered_def word_neq_0_conv [symmetric])

lemma chan_inv_ring:
  assumes "chan_inv c" "\<not> channel_unbuffered c"
  shows "unat (ch_head c) < unat (ch_size c)" "unat (ch_tail c) < unat (ch_size c)"
    "ch_size c \<noteq> 0" "unat (ch_size c) \<le> 2 ^ 31"
  using assms by (auto simp: chan_inv_def word_less_nat_alt)

lemma NUM_ITEMS_ring:
  assumes "chan_inv c" "\<not> channel_unbuffered c"
  shows "\<exists>n. NUM_ITEMS c = Some n \<and>
    unat n = ring_len (unat (ch_size c)) (unat (ch_head c)) (unat (ch_tail c))"
proof -
  note b = chan_inv_ring [OF assms]
  have add: "unat (ch_size c + ch_tail c) = unat (ch_size c) + unat (ch_tail c)"
    using b by (simp add: unat_word_ariths)
  then have "ch_head c \<le> ch_size c + ch_tail c"
    using b by (simp add: word_le_nat_alt)
  then have "unat (ch_size c + ch_tail c - ch_head c) =
      unat (ch_size c) + unat (ch_tail c) - unat (ch_head c)"
    by (simp add: unat_sub add)
  then show ?thesis
    using b by (simp add: NUM_ITEMS_def ring_len_def unat_mod)
qed

lemma IS_FULL_ring:
  assumes "chan_inv c" "\<not> channel_unbuffered c"
  shows "IS_FULL c = Some (length (chan_slots c) = chan_cap c)"
proof -
  obtain n where n: "NUM_ITEMS c = Some n"
    "unat n = ring_len (unat (ch_size c)) (unat (ch_head c)) (unat (ch_tail c))"
    using NUM_ITEMS_ring [OF assms] by blast
  have "unat (ch_size c - 1) = unat (ch_size c) - 1"
    using chan_inv_ring [OF assms] by (simp add: unat_minus_one)
  with n assms(2) show ?thesis
    by (simp add: IS_FULL_def chan_slots_def chan_cap_def Let_def word_unat_eq_iff)
qed

lemma IS_EMPTY_ring:
  assumes "chan_inv c" "\<not> channel_unbuffered c"
  shows "IS_EMPTY c \<longleftrightarrow> chan_slots c = []"
  using chan_inv_ring [OF assms] assms(2)
  by (simp add: IS_EMPTY_def chan_slots_def Let_def word_unat_eq_iff ring_items_Nil)

lemma length_slots_le: "chan_inv c \<Longrightarrow> length (chan_slots c) \<le> chan_cap c"
  using chan_inv_ring [of c]
    ring_len_less [of "unat (ch_size c)" "unat (ch_head c)" "unat (ch_tail c)"]
  by (auto simp: chan_slots_def chan_cap_def Let_def)

lemma channel_peek_items:
  assumes "chan_inv c"
  shows "\<exists>n. channel_peek c = Some n \<and> unat n = length (chan_slots c)"
proof (cases "channel_unbuffered c")
  case True
  with assms have "ch_head c = 0 \<or> ch_head c = 1"
    by (auto simp: chan_inv_def word_le_nat_alt word_unat_eq_iff le_Suc_eq)
  with True show ?thesis
    by (auto simp: channel_peek_def NUM_ITEMS_UNBUF_def chan_slots_def)
next
  case False
  with NUM_ITEMS_ring [OF assms False] show ?thesis
    by (simp add: channel_peek_def chan_slots_def Let_def)
qed

section \<open>Sending and receiving\<close>

lemma unat_offset:
  assumes "chan_inv c" "unat i < unat (ch_size c)"
  shows "unat (i * ch_itemsize c) = unat i * unat (ch_itemsize c)"
    "Suc (unat i) * unat (ch_itemsize c) \<le> length (ch_buffer c)"
proof -
  have le: "Suc (unat i) * unat (ch_itemsize c) \<le> unat (ch_size c) * unat (ch_itemsize c)"
    using assms(2) by (intro mult_le_mono1) simp
  then show "Suc (unat i) * unat (ch_itemsize c) \<le> length (ch_buffer c)"
    using assms(1) by (simp add: chan_inv_def)
  have "unat i * unat (ch_itemsize c) < 2 ^ 32"
    using le assms(1) by (auto simp: chan_inv_def)
  then show "unat (i * ch_itemsize c) = unat i * unat (ch_itemsize c)"
    by (simp add: unat_word_ariths)
qed

lemma send_buffered:
  assumes c: "chan_inv c" "\<not> channel_unbuffered c"
    and d: "length data = unat sz" "sz \<le> ch_itemsize c" and room: "length (chan_slots c) < chan_cap c"
  shows "\<exists>c'. channel_send_spsc c data sz = Some (True, c') \<and> chan_inv c' \<and>
    (\<exists>s. chan_slots c' = chan_slots c @ [s] \<and> take (unat sz) s = data) \<and>
    ch_size c' = ch_size c \<and> ch_itemsize c' = ch_itemsize c"
proof -
  note b = chan_inv_ring [OF c]
  let ?w = "unat (ch_itemsize c)" and ?t = "unat (ch_tail c)" and ?n = "unat (ch_size c)"
  let ?buf = "take (?t * ?w) (ch_buffer c) @ data @ drop (?t * ?w + unat sz) (ch_buffer c)"
  let ?c = "c\<lparr>ch_buffer := ?buf, ch_tail := (ch_tail c + 1) mod ch_size c\<rparr>"
  note off = unat_offset [OF c(1) b(2)]
  have dw: "length data \<le> ?w" using d by (simp add: word_le_nat_alt)
  have fits: "?t * ?w + unat sz \<le> length (ch_buffer c)"
    using dw off(2) d(1) by simp
  have "channel_send_spsc c data sz = Some (True, ?c)"
    using c d b room fits
    by (simp add: channel_send_spsc_def IS_FULL_ring memcpy_in_def off(1) INC_def)
  moreover have t: "unat ((ch_tail c + 1) mod ch_size c) = Suc ?t mod ?n"
    using b by (simp add: unat_mod unat_Suc_less word_less_nat_alt)
  then have "chan_inv ?c"
    using c b fits d(1) by (auto simp: chan_inv_def word_less_nat_alt unbuffered_size)
  moreover have "chan_slots ?c = chan_slots c @ [block ?w ?t ?buf]"
  proof -
    have "block ?w j ?buf = block ?w j (ch_buffer c)" if "j \<noteq> ?t" for j
      using block_memcpy_other [OF dw off(2) that] by (simp add: d(1))
    then have "ring_items (\<lambda>i. block ?w i ?buf) ?n (unat (ch_head c)) (Suc ?t mod ?n) =
        ring_items (\<lambda>i. block ?w i (ch_buffer c)) ?n (unat (ch_head c)) ?t @ [block ?w ?t ?buf]"
      using b room c(2) by (intro ring_items_put) (auto simp: chan_slots_def chan_cap_def Let_def)
    then show ?thesis
      using c(2) t by (simp add: chan_slots_def Let_def unbuffered_size)
  qed
  moreover have "take (unat sz) (block ?w ?t ?buf) = data"
    using block_memcpy_same [OF dw off(2)] by (simp add: d(1))
  ultimately show ?thesis by auto
qed

lemma send_unbuffered:
  assumes c: "chan_inv c" "channel_unbuffered c"
    and d: "length data = unat sz" "sz \<le> ch_itemsize c" and room: "chan_slots c = []"
  shows "\<exists>c'. channel_send_spsc c data sz = Some (True, c') \<and> chan_inv c' \<and>
    (\<exists>s. chan_slots c' = [s] \<and> take (unat sz) s = data) \<and>
    ch_size c' = ch_size c \<and> ch_itemsize c' = ch_itemsize c"
proof -
  let ?w = "unat (ch_itemsize c)"
  let ?buf = "data @ drop (unat sz) (ch_buffer c)"
  let ?c = "c\<lparr>ch_buffer := ?buf, ch_head := 1\<rparr>"
  have len: "length (ch_buffer c) = ?w" and dw: "unat sz \<le> ?w"
    using c d by (auto simp: chan_inv_def unbuffered_size word_le_nat_alt)
  have h: "ch_head c = 0"
    using c room by (auto simp: chan_inv_def chan_slots_def word_le_nat_alt word_unat_eq_iff
        le_Suc_eq split: if_splits)
  then have "channel_send_spsc c data sz = Some (True, ?c)"
    using c(2) d len dw by (simp add: channel_send_spsc_def channel_send_unbuffered_spsc_def
        IS_FULL_UNBUF_def IS_EMPTY_UNBUF_def memcpy_in_def)
  moreover have "chan_inv ?c"
    using c len dw d(1) by (auto simp: chan_inv_def unbuffered_size)
  moreover have "chan_slots ?c = [block ?w 0 ?buf]" and "take (unat sz) (block ?w 0 ?buf) = data"
    using c(2) d(1) dw by (simp_all add: chan_slots_def unbuffered_size block_def min_absorb1)
  ultimately show ?thesis by auto
qed

lemma chan_put_room:
  assumes "chan_inv c" "sz \<le> ch_itemsize c" "length data = unat sz"
    and "length (chan_items sz c) < chan_cap c"
  shows "\<exists>c'. chan_put sz data c = Some c' \<and> chan_inv c' \<and> sz \<le> ch_itemsize c' \<and>
    chan_items sz c' = chan_items sz c @ [data] \<and> chan_cap c' = chan_cap c"
proof (cases "channel_unbuffered c")
  case True
  then have "chan_slots c = []"
    using assms(4) by (simp add: chan_items_def chan_cap_def)
  with send_unbuffered [OF assms(1) True assms(3,2)] assms(1) True show ?thesis
    by (auto simp: chan_put_def channel_send_spsc chan_items_def chan_cap_def unbuffered_size assms(2))
next
  case False
  have "length (chan_slots c) < chan_cap c" using assms(4) by (simp add: chan_items_def)
  from send_buffered [OF assms(1) False assms(3,2) this] obtain c' s
    where c': "channel_send_spsc c data sz = Some (True, c')" "chan_inv c'"
      "chan_slots c' = chan_slots c @ [s]" "take (unat sz) s = data"
      "ch_size c' = ch_size c" "ch_itemsize c' = ch_itemsize c"
    by blast
  have "chan_put sz data c = Some c'" and "chan_items sz c' = chan_items sz c @ [data]"
    and "chan_cap c' = chan_cap c" and "sz \<le> ch_itemsize c'"
    using c' by (simp_all add: chan_put_def channel_send_spsc [OF assms(1)] chan_items_def
        chan_cap_def unbuffered_size assms(2))
  with c'(2) show ?thesis by blast
qed

lemma channel_send_full:
  assumes "chan_inv c" "\<not> length (chan_slots c) < chan_cap c"
  shows "channel_send c data sz = Some (False, c)"
proof -
  have len: "length (chan_slots c) = chan_cap c"
    using assms length_slots_le [OF assms(1)] by simp
  show ?thesis
  proof (cases "channel_unbuffered c")
    case True
    then have "ch_head c = 1"
      using len by (simp add: chan_slots_def chan_cap_def split: if_splits)
    with True show ?thesis
      by (simp add: channel_send_spsc [OF assms(1)] channel_send_spsc_def
          channel_send_unbuffered_spsc_def IS_FULL_UNBUF_def)
  next
    case False
    with len show ?thesis
      by (simp add: channel_send_spsc [OF assms(1)] channel_send_spsc_def
          IS_FULL_ring [OF assms(1)])
  qed
qed

lemma channel_receive_empty:
  assumes "chan_inv c" "chan_slots c = []"
  shows "channel_receive c sz = Some (None, c)"
proof (cases "channel_unbuffered c")
  case True
  then have "ch_head c = 0"
    using assms by (auto simp: chan_inv_def chan_slots_def word_le_nat_alt word_unat_eq_iff
        le_Suc_eq split: if_splits)
  with True show ?thesis
    by (simp add: channel_receive_mpsc [OF assms(1)] channel_recv_mpsc_def
        channel_recv_unbuffered_mpsc_def IS_EMPTY_UNBUF_def)
next
  case False
  with assms(2) show ?thesis
    by (simp add: channel_receive_mpsc [OF assms(1)] channel_recv_mpsc_def
        IS_EMPTY_ring [OF assms(1)])
qed

lemma recv_unbuffered:
  assumes c: "chan_inv c" "channel_unbuffered c" and sz: "sz \<le> ch_itemsize c"
    and slots: "chan_slots c = s # ss"
  shows "channel_recv_mpsc c sz = Some (Some (take (unat sz) s), c\<lparr>ch_head := 0\<rparr>)
    \<and> chan_inv (c\<lparr>ch_head := 0\<rparr>) \<and> chan_slots (c\<lparr>ch_head := 0\<rparr>) = ss"
proof -
  have len: "length (ch_buffer c) = unat (ch_itemsize c)" and dw: "unat sz \<le> unat (ch_itemsize c)"
    using c sz by (auto simp: chan_inv_def unbuffered_size word_le_nat_alt)
  have h: "ch_head c = 1" "s = ch_buffer c" "ss = []"
    using slots c(2) len by (auto simp: chan_slots_def block_def split: if_splits)
  then show ?thesis
    using c len dw sz
    by (auto simp: channel_recv_mpsc_def channel_recv_unbuffered_mpsc_def IS_EMPTY_UNBUF_def
        IS_FULL_UNBUF_def memcpy_out_def chan_inv_def unbuffered_size chan_slots_def)
qed

lemma recv_buffered:
  assumes c: "chan_inv c" "\<not> channel_unbuffered c" and sz: "sz \<le> ch_itemsize c"
    and slots: "chan_slots c = s # ss"
  shows "\<exists>c'. channel_recv_mpsc c sz = Some (Some (take (unat sz) s), c') \<and> chan_inv c' \<and>
    chan_slots c' = ss \<and> ch_size c' = ch_size c \<and> ch_itemsize c' = ch_itemsize c"
proof -
  note b = chan_inv_ring [OF c]
  let ?w = "unat (ch_itemsize c)" and ?h = "unat (ch_head c)" and ?n = "unat (ch_size c)"
  let ?slot = "\<lambda>i. block ?w i (ch_buffer c)"
  let ?c = "c\<lparr>ch_head := (ch_head c + 1) mod ch_size c\<rparr>"
  note off = unat_offset [OF c(1) b(1)]
  have dw: "unat sz \<le> ?w" using sz by (simp add: word_le_nat_alt)
  have ne: "?h \<noteq> unat (ch_tail c)"
    using slots c b by (auto simp: chan_slots_def Let_def ring_items_def ring_len_def)
  have h: "unat ((ch_head c + 1) mod ch_size c) = Suc ?h mod ?n"
    using b by (simp add: unat_mod unat_Suc_less word_less_nat_alt)
  have split: "chan_slots c = ?slot ?h # ring_items ?slot ?n (Suc ?h mod ?n) (unat (ch_tail c))"
    using ring_items_get [OF b(1,2) ne, of ?slot] c(2) by (simp add: chan_slots_def Let_def)
  have "channel_recv_mpsc c sz = Some (Some (take (unat sz) (?slot ?h)), ?c)"
    using c(2) b sz dw off ne
    by (simp add: channel_recv_mpsc_def IS_EMPTY_def word_unat_eq_iff [of "ch_head c"]
        memcpy_out_def INC_def umod_def block_def min_absorb1)
  moreover have "chan_inv ?c"
    using c b h by (auto simp: chan_inv_def word_less_nat_alt unbuffered_size)
  moreover have "chan_slots ?c = ss"
    using split slots c(2) h by (simp add: chan_slots_def Let_def unbuffered_size)
  ultimately show ?thesis using split slots by auto
qed

lemma chan_get_item:
  assumes "chan_inv c" "sz \<le> ch_itemsize c" "chan_items sz c = x # xs"
  shows "\<exists>c'. chan_get sz c = Some (x, c') \<and> chan_inv c' \<and> sz \<le> ch_itemsize c' \<and>
    chan_items sz c' = xs \<and> chan_cap c' = chan_cap c"
proof -
  obtain s ss where s: "chan_slots c = s # ss" "x = take (unat sz) s" "xs = map (take (unat sz)) ss"
    using assms(3) by (auto simp: chan_items_def)
  show ?thesis
  proof (cases "channel_unbuffered c")
    case True
    from recv_unbuffered [OF assms(1) True assms(2) s(1)] True s assms show ?thesis
      by (auto simp: chan_get_def channel_receive_mpsc chan_items_def chan_cap_def unbuffered_size)
  next
    case False
    from recv_buffered [OF assms(1) False assms(2) s(1)] obtain c'
      where c': "channel_recv_mpsc c sz = Some (Some (take (unat sz) s), c')" "chan_inv c'"
        "chan_slots c' = ss" "ch_size c' = ch_size c" "ch_itemsize c' = ch_itemsize c"
      by blast
    have "chan_get sz c = Some (x, c')" and "chan_items sz c' = xs"
      and "chan_cap c' = chan_cap c" and "sz \<le> ch_itemsize c'"
      using c' s by (simp_all add: chan_get_def channel_receive_mpsc [OF assms(1)] chan_items_def
          chan_cap_def unbuffered_size assms(2))
    with c'(2) show ?thesis by blast
  qed
qed

text \<open>
  Channels are bounded queues of messages of \<open>n\<close> bytes, whatever their implementation.
\<close>

interpretation ch: bounded_fifo "\<lambda>c. chan_inv c \<and> n \<le> ch_itemsize c" "chan_items n" chan_cap
  "\<lambda>x c. length x = unat n" "chan_put n" "chan_get n" for n
proof
  fix c and x :: "byte list"
  assume c: "chan_inv c \<and> n \<le> ch_itemsize c" "length x = unat n"
  show "\<exists>q'. chan_put n x c = Some q' \<and> (chan_inv q' \<and> n \<le> ch_itemsize q') \<and>
      chan_items n q' = chan_items n c @ [x] \<and> chan_cap q' = chan_cap c \<and>
      (\<forall>y :: byte list. (length y = unat n) = (length y = unat n))"
    if "length (chan_items n c) < chan_cap c"
    using chan_put_room [of c n x] c that by auto
  show "chan_put n x c = None" if "\<not> length (chan_items n c) < chan_cap c"
    using channel_send_full [of c x n] c that by (simp add: chan_put_def chan_items_def)
next
  fix c x xs
  assume c: "chan_inv c \<and> n \<le> ch_itemsize c"
  show "\<exists>q'. chan_get n c = Some (x, q') \<and> (chan_inv q' \<and> n \<le> ch_itemsize q') \<and>
      chan_items n q' = xs \<and> chan_cap q' = chan_cap c \<and>
      (\<forall>y :: byte list. (length y = unat n) = (length y = unat n))"
    if "chan_items n c = x # xs"
    using chan_get_item [of c n x xs] c that by auto
  show "chan_get n c = None" if "chan_items n c = []"
    using channel_receive_empty [of c n] c that by (simp add: chan_get_def chan_items_def)
qed

section \<open>Creation, closing and inspection\<close>

lemma channel_new_inv:
  assumes "channel_new ok1 ok2 junk sz n impl = Some c" "impl \<in> {MPMC, MPSC, SPSC}"
    and "unat n < 2 ^ 31" "Suc (unat n) * unat sz < 2 ^ 32"
  shows "chan_inv c \<and> chan_slots c = [] \<and> \<not> channel_closed c \<and> ch_itemsize c = sz \<and>
    chan_cap c = max 1 (unat n)"
proof -
  have n: "unat (n + 1) = Suc (unat n)"
    using assms(3) by (simp add: unat_word_ariths)
  then have nz: "n + 1 \<noteq> 0" by (metis nat.simps(3) unsigned_0)
  have "unat ((n + 1) * sz) = Suc (unat n) * unat sz"
    using assms(4) n by (simp add: unat_word_ariths)
  then show ?thesis
    using assms n nz
    by (auto simp: channel_new_def chan_inv_def chan_slots_def chan_cap_def unbuffered_size
        channel_closed_def Let_def ring_items_def ring_len_def max_def word_less_nat_alt
        word_unat_eq_iff split: if_splits)
qed

lemma close_open_eq:
  assumes "ch_impl c \<in> {MPMC, MPSC, SPSC}"
  shows "channel_close c = Some (if channel_closed c then (False, c) else (True, c\<lparr>ch_closed := 1\<rparr>))"
    "channel_open c = Some (if channel_closed c then (True, c\<lparr>ch_closed := 0\<rparr>) else (False, c))"
  using assms by (auto simp: channel_close_def channel_open_def entry_def close_fn_def open_fn_def
      channel_close_mpmc_def channel_close_mpsc_def channel_close_spsc_def
      channel_open_mpmc_def channel_open_mpsc_def channel_open_spsc_def)

lemma inspect_loop_ring:
  assumes "i < sz" "t < sz"
  shows "inspect_loop i t sz j = Some (j + ring_len (unat sz) (unat i) (unat t))"
  using assms
proof (induction "ring_len (unat sz) (unat i) (unat t)" arbitrary: i j)
  case 0
  then have "i = t" by (simp add: ring_len_0 word_less_nat_alt word_unat_eq_iff)
  with 0 show ?case by (subst inspect_loop.simps) simp
next
  case (Suc k)
  note b = Suc.prems [unfolded word_less_nat_alt]
  have ne: "i \<noteq> t" using Suc.hyps(2) b ring_len_0 [of "unat i" "unat sz" "unat t"] by auto
  then have ne': "unat i \<noteq> unat t" by (simp add: word_unat_eq_iff)
  let ?i = "(i + 1) mod sz"
  have sz: "sz \<noteq> 0" using Suc.prems(1) by auto
  have i: "unat ?i = Suc (unat i) mod unat sz"
    using Suc.prems by (simp add: unat_mod unat_Suc_less)
  have lt: "?i < sz" using sz by (simp add: word_less_nat_alt unat_mod_less)
  have k: "k = ring_len (unat sz) (unat ?i) (unat t)"
    using ring_len_get [OF b ne'] Suc.hyps(2) i by simp
  have "inspect_loop i t sz j = inspect_loop ?i t sz (Suc j)"
    using ne sz by (subst inspect_loop.simps) (simp add: INC_def umod_def)
  also have "\<dots> = Some (Suc j + k)"
    using Suc.hyps(1) [OF k lt Suc.prems(2)] k by simp
  finally show ?case using Suc.hyps(2) by simp
qed

lemma channel_inspect_items:
  assumes "chan_inv c" "\<not> channel_unbuffered c"
  shows "channel_inspect c = Some (''[ '' @ concat (replicate (length (chan_slots c)) ''X '') @
    concat (replicate (unat (ch_size c) - length (chan_slots c)) ''  '') @ '']'' @ [CHR 0x0A])"
proof -
  note b = chan_inv_ring [OF assms]
  let ?l = "ring_len (unat (ch_size c)) (unat (ch_head c)) (unat (ch_tail c))"
  have "?l < unat (ch_size c)" using b by (intro ring_len_less) simp
  then have "unat (ch_size c - of_nat ?l) = unat (ch_size c) - ?l"
    using b(4) by (subst unat_sub) (auto simp: word_le_nat_alt unat_of_nat take_bit_eq_mod)
  then show ?thesis
    using assms(2) b inspect_loop_ring [of "ch_head c" "ch_size c" "ch_tail c" 0]
    by (simp add: channel_inspect_def chan_slots_def Let_def word_less_nat_alt)
qed

section \<open>Sessions\<close>

text \<open>
  A client that sends and receives messages of \<open>sz\<close> bytes by polling, as the loops of
  \<^verbatim>\<open>runtime.c\<close> do; the session aborts when one of its calls does.
\<close>

fun channel_session ::
  "uint \<Rightarrow> byte list qop list \<Rightarrow> channel \<Rightarrow> (byte list answer list \<times> channel) option"
where
  "channel_session sz [] c = Some ([], c)"
| "channel_session sz (Put x # ops) c = do {
     (b, c) \<leftarrow> channel_send c x sz;
     (as, c) \<leftarrow> channel_session sz ops c;
     Some (Accepted b # as, c)
   }"
| "channel_session sz (Get # ops) c = do {
     (x, c) \<leftarrow> channel_receive c sz;
     (as, c) \<leftarrow> channel_session sz ops c;
     Some (Taken x # as, c)
   }"

lemma channel_send_put:
  assumes "chan_inv c" "sz \<le> ch_itemsize c" "length data = unat sz"
  shows "channel_send c data sz =
    Some (case chan_put sz data c of Some c' \<Rightarrow> (True, c') | None \<Rightarrow> (False, c))"
proof (cases "length (chan_slots c) < chan_cap c")
  case True
  with chan_put_room [OF assms] obtain c' where "chan_put sz data c = Some c'"
    by (auto simp: chan_items_def)
  then show ?thesis
    by (auto simp: chan_put_def split: option.splits prod.splits bool.splits)
next
  case False
  with channel_send_full [OF assms(1) this] show ?thesis by (simp add: chan_put_def)
qed

lemma channel_receive_get:
  assumes "chan_inv c" "sz \<le> ch_itemsize c"
  shows "channel_receive c sz =
    Some (case chan_get sz c of Some (x, c') \<Rightarrow> (Some x, c') | None \<Rightarrow> (None, c))"
proof (cases "chan_items sz c")
  case Nil
  then have "chan_slots c = []" by (simp add: chan_items_def)
  with channel_receive_empty [OF assms(1) this] show ?thesis by (simp add: chan_get_def)
next
  case (Cons x xs)
  with chan_get_item [OF assms] obtain c' where "chan_get sz c = Some (x, c')"
    by auto
  then show ?thesis
    by (auto simp: chan_get_def split: option.splits prod.splits)
qed

lemma channel_session_run_ops:
  assumes "chan_inv c" "sz \<le> ch_itemsize c" "\<forall>x. Put x \<in> set ops \<longrightarrow> length x = unat sz"
  shows "channel_session sz ops c = Some (run_ops (chan_put sz) (chan_get sz) ops c)"
  using assms
proof (induction ops arbitrary: c)
  case (Cons op ops)
  show ?case
  proof (cases op)
    case (Put x)
    have x: "length x = unat sz" using Cons.prems(3) Put by simp
    show ?thesis
    proof (cases "chan_put sz x c")
      case None
      with Cons Put x show ?thesis by (simp add: channel_send_put split: prod.splits)
    next
      case (Some c')
      then have "length (chan_items sz c) < chan_cap c"
        using ch.put_full [of c sz x] Cons.prems x by fastforce
      then have "chan_inv c' \<and> sz \<le> ch_itemsize c'"
        using chan_put_room [of c sz x] Cons.prems x Some by auto
      with Cons Put x Some show ?thesis by (simp add: channel_send_put split: prod.splits)
    qed
  next
    case Get
    show ?thesis
    proof (cases "chan_get sz c")
      case None
      with Cons Get show ?thesis by (simp add: channel_receive_get split: prod.splits)
    next
      case (Some p)
      then obtain x xs where "chan_items sz c = x # xs"
        using ch.get_empty [of c sz] Cons.prems by (cases "chan_items sz c") auto
      then have "chan_inv (snd p) \<and> sz \<le> ch_itemsize (snd p)"
        using chan_get_item [of c sz x xs] Cons.prems Some by auto
      with Cons Get Some show ?thesis
        by (cases p) (simp add: channel_receive_get split: prod.splits)
    qed
  qed
qed simp

section \<open>Properties\<close>

text \<open>
  Property C20. A channel is a bounded first-in-first-out queue: on a freshly allocated channel
  of capacity \<open>n\<close> and any of the three implementations, every sequence of sends and receives of
  messages of the channel's item size runs without aborting, and answers each call exactly as a list bounded by
  \<open>n\<close> (by 1 for an unbuffered channel) does: sends are refused exactly when it is full, and
  receives return the bytes sent, in order.
\<close>

theorem channel_session_fifo:
  assumes "impl \<in> {MPMC, MPSC, SPSC}" "unat n < 2 ^ 31" "Suc (unat n) * unat sz < 2 ^ 32"
    and "\<forall>x. Put x \<in> set ops \<longrightarrow> length x = unat sz"
  shows "\<exists>c c'. channel_new True True junk sz n impl = Some c \<and>
    channel_session sz ops c = Some (fst (run_ops (list_put (max 1 (unat n))) list_get ops []), c')"
proof -
  obtain c where c: "channel_new True True junk sz n impl = Some c"
    by (simp add: channel_new_def Let_def)
  note inv = channel_new_inv [OF c assms(1-3)]
  then have "chan_items sz c = []" by (simp add: chan_items_def)
  with ch.run_ops_refines [of c sz ops] channel_session_run_ops [of c sz ops] inv assms(4) c
  show ?thesis by auto
qed

theorem channel_session_fifo_witness:
  "fst (run_ops (list_put 2) list_get
      [Put [1 :: byte], Put [2], Put [3], Get, Get, Get] []) =
    [Accepted True, Accepted True, Accepted False, Taken (Some [1]), Taken (Some [2]), Taken None] \<and>
   (\<exists>c c'. channel_new True True (\<lambda>_. 0) 1 2 MPSC = Some c \<and>
    channel_session 1 [Put [1], Put [2], Put [3], Get, Get, Get] c =
      Some ([Accepted True, Accepted True, Accepted False, Taken (Some [1]), Taken (Some [2]),
        Taken None], c'))"
  using channel_session_fifo [of MPSC 2 1 "[Put [1], Put [2], Put [3], Get, Get, Get]" "\<lambda>_. 0"]
  by (simp add: list_put_def list_get_def)

text \<open>
  Property C21. With no lock held the three implementations are the same function: the locked
  MPMC operations compute what the lock-free SPSC send and MPSC receive compute, so a channel
  can be declared with the weakest implementation its use allows.
\<close>

theorem channel_impls_agree:
  assumes "\<not> ch_head_lock c" "\<not> ch_tail_lock c"
  shows "channel_send_mpmc c data sz = channel_send_spsc c data sz \<and>
    channel_send_mpsc c data sz = channel_send_spsc c data sz \<and>
    channel_recv_mpmc c sz = channel_recv_mpsc c sz \<and>
    channel_recv_spsc c sz = channel_recv_mpsc c sz"
  using assms by (simp add: send_mpmc_eq_spsc recv_mpmc_eq_mpsc channel_send_mpsc_def
      channel_recv_spsc_def)

theorem channel_impls_agree_witness:
  "channel_send_mpmc (the (channel_new True True (\<lambda>_. 0) 1 2 MPMC)) [7] 1 =
   channel_send_spsc (the (channel_new True True (\<lambda>_. 0) 1 2 MPMC)) [7] 1"
  using channel_impls_agree [of "the (channel_new True True (\<lambda>_. 0) 1 2 MPMC)" "[7]" 1]
  by (simp add: channel_new_def)

text \<open>
  \<^verbatim>\<open>channel_peek\<close> returns the number of waiting messages, which never exceeds the
  capacity, and \<^verbatim>\<open>channel_inspect\<close> prints that many crosses and pads the rest of the ring with
  blanks; its loop over the ring always terminates.
\<close>

theorem channel_peek_inspect:
  assumes "chan_inv c"
  shows "(\<exists>n. channel_peek c = Some n \<and> unat n = length (chan_slots c)) \<and>
    length (chan_slots c) \<le> chan_cap c \<and>
    (channel_buffered c \<longrightarrow> channel_inspect c =
      Some (''[ '' @ concat (replicate (length (chan_slots c)) ''X '') @
        concat (replicate (unat (ch_size c) - length (chan_slots c)) ''  '') @ '']'' @ [CHR 0x0A]))"
  using channel_peek_items [OF assms] length_slots_le [OF assms] channel_inspect_items [OF assms]
  by (simp add: channel_unbuffered_def)

theorem channel_peek_inspect_witness:
  "(let c = \<lparr>ch_head_lock = False, ch_tail_lock = False, ch_owner = - 1, ch_impl = MPSC,
      ch_closed = 0, ch_size = 3, ch_itemsize = 1, ch_head = 2, ch_tail = 1,
      ch_buffer = [5, 6, 7]\<rparr>
    in chan_slots c = [[7], [5]] \<and> channel_inspect c = Some (''[ X X   ]'' @ [CHR 0x0A]))"
proof -
  let ?c = "\<lparr>ch_head_lock = False, ch_tail_lock = False, ch_owner = - 1, ch_impl = MPSC,
      ch_closed = 0, ch_size = 3, ch_itemsize = 1, ch_head = 2, ch_tail = 1,
      ch_buffer = [5, 6, 7]\<rparr>"
  have "chan_inv ?c" and b: "channel_buffered ?c"
    by (simp_all add: chan_inv_def channel_unbuffered_def channel_buffered_def)
  have s: "chan_slots ?c = [[7], [5]]"
    by code_simp
  show ?thesis
    using channel_peek_inspect [OF \<open>chan_inv ?c\<close>] b s
    by simp
qed

text \<open>
  Closing an open channel succeeds once and opening it again restores it
  unchanged; a second close or open is refused. The flag is advisory: sending to and receiving
  from a closed channel gives the results of the open one.
\<close>

theorem channel_close_open:
  assumes "chan_inv c" "ch_closed c = 0"
  shows "\<exists>c'. channel_close c = Some (True, c') \<and> channel_closed c' \<and>
    channel_close c' = Some (False, c') \<and> channel_open c' = Some (True, c) \<and>
    channel_open c = Some (False, c) \<and>
    map_option fst (channel_send c' data sz) = map_option fst (channel_send c data sz) \<and>
    map_option fst (channel_receive c' sz) = map_option fst (channel_receive c sz)"
proof -
  let ?c = "c\<lparr>ch_closed := 1\<rparr>"
  have impl: "ch_impl c \<in> {MPMC, MPSC, SPSC}" using assms(1) by (simp add: chan_inv_def)
  have inv: "chan_inv ?c"
    using assms(1) by (simp add: chan_inv_def channel_unbuffered_def channel_buffered_def)
  have "c\<lparr>ch_closed := 0\<rparr> = c" using assms(2) by simp
  then have "channel_close c = Some (True, ?c)" "channel_close ?c = Some (False, ?c)"
      "channel_open ?c = Some (True, c)" "channel_open c = Some (False, c)"
    using close_open_eq [OF impl] close_open_eq [of ?c] impl assms(2)
    by (simp_all add: channel_closed_def)
  moreover have "map_option fst (channel_send ?c data sz) = map_option fst (channel_send c data sz)"
    unfolding channel_send_spsc [OF assms(1)] channel_send_spsc [OF inv]
    by (auto simp: channel_send_spsc_def channel_send_unbuffered_spsc_def chan_tests
        split: Option.bind_splits)
  moreover have "map_option fst (channel_receive ?c sz) = map_option fst (channel_receive c sz)"
    unfolding channel_receive_mpsc [OF assms(1)] channel_receive_mpsc [OF inv]
    by (auto simp: channel_recv_mpsc_def channel_recv_unbuffered_mpsc_def chan_tests
        split: Option.bind_splits)
  ultimately show ?thesis by (auto simp: channel_closed_def)
qed

theorem channel_close_open_witness:
  "\<exists>c c'. channel_new True True (\<lambda>_. 0) 1 2 SPSC = Some c \<and> channel_close c = Some (True, c') \<and>
    channel_open c' = Some (True, c)"
proof -
  obtain c where c: "channel_new True True (\<lambda>_. 0) 1 2 SPSC = Some c"
    by (simp add: channel_new_def)
  then have "chan_inv c" and "ch_closed c = 0"
    using channel_new_inv [OF c] by (auto simp: channel_new_def)
  from channel_close_open [OF this] c show ?thesis by blast
qed

end
