(* ===== verification/Channel_Cache.thy ===== *)
theory Channel_Cache
  imports Channel
begin

text \<open>
  Allocation and recycling of channels in \<^verbatim>\<open>src/channel_shm/channel.c\<close> built with
  \<^verbatim>\<open>CHANNEL_CACHE\<close>: every thread keeps, per type of channel (item size, capacity,
  implementation), an array of freed channels that later allocations reuse. Channels live in a
  heap; the linked list of caches is a list, most recent first, and the capacity
  \<^verbatim>\<open>CHANNEL_CACHE_CAPACITY\<close> is the parameter \<open>cap\<close>.
\<close>

section \<open>Definitions\<close>

record channel_cache =
  chan_size :: uint
  chan_n :: uint
  cache_impl :: int
  num_cached :: nat
  cache :: "addr list"

record cache_state =
  channels :: "channel heap"
  caches :: "channel_cache list"
  channel_cache_len :: uint

definition valid_impl :: "int \<Rightarrow> bool" where
  "valid_impl impl = (\<not> (impl \<noteq> MPMC \<and> impl \<noteq> MPSC \<and> impl \<noteq> SPSC))"

definition cache_matches :: "uint \<Rightarrow> uint \<Rightarrow> int \<Rightarrow> channel_cache \<Rightarrow> bool" where
  "cache_matches sz n impl p = (sz = chan_size p \<and> n = chan_n p \<and> impl = cache_impl p)"

text \<open>
  \<open>malloc_ok\<close> is whether \<^verbatim>\<open>malloc\<close> succeeds, \<open>junk\<close> what the fresh array of \<open>cap\<close> pointers holds.
\<close>

definition channel_cache_alloc ::
  "nat \<Rightarrow> bool \<Rightarrow> (nat \<Rightarrow> addr) \<Rightarrow> uint \<Rightarrow> uint \<Rightarrow> int \<Rightarrow> cache_state \<Rightarrow> bool \<times> cache_state"
where
  "channel_cache_alloc cap malloc_ok junk sz n impl st =
     (if \<not> valid_impl impl then (False, st)
      else if list_ex (cache_matches sz n impl) (caches st) then (False, st)
      else if \<not> malloc_ok then (False, st)
      else let p = \<lparr>chan_size = sz, chan_n = n, cache_impl = impl, num_cached = 0,
             cache = map junk [0..<cap]\<rparr>
           in (True, st\<lparr>caches := p # caches st, channel_cache_len := channel_cache_len st + 1\<rparr>))"

text \<open>
  The search loop of \<^verbatim>\<open>channel_alloc\<close>: the first matching cache gives up its last channel,
  \<open>Some None\<close> when it has none or there is no such cache.
\<close>

fun take_cached ::
  "uint \<Rightarrow> uint \<Rightarrow> int \<Rightarrow> channel_cache list \<Rightarrow> (addr \<times> channel_cache list) option option"
where
  "take_cached sz n impl [] = Some None"
| "take_cached sz n impl (p # ps) =
     (if cache_matches sz n impl p then
        if num_cached p > 0 then do {
          let p = p\<lparr>num_cached := num_cached p - 1\<rparr>;
          chan \<leftarrow> read_at (cache p) (num_cached p);
          Some (Some (chan, p # ps))
        } else Some None
      else do {
        r \<leftarrow> take_cached sz n impl ps;
        Some (map_option (\<lambda>(chan, ps). (chan, p # ps)) r)
      })"

text \<open>
  \<open>p\<close> is the address \<^verbatim>\<open>malloc\<close> returns for the channel (\<open>NULL\<close> when it fails), \<open>buffer_ok\<close> and
  \<open>cache_ok\<close> whether the other two calls succeed.
\<close>

definition channel_alloc ::
  "nat \<Rightarrow> addr \<Rightarrow> bool \<Rightarrow> bool \<Rightarrow> (nat \<Rightarrow> byte) \<Rightarrow> (nat \<Rightarrow> addr) \<Rightarrow> uint \<Rightarrow> uint \<Rightarrow> int \<Rightarrow>
   cache_state \<Rightarrow> (addr \<times> cache_state) option"
where
  "channel_alloc cap p buffer_ok cache_ok junk cjunk sz n impl st =
     (if \<not> valid_impl impl then Some (NULL, st)
      else do {
        r \<leftarrow> take_cached sz n impl (caches st);
        case r of
          Some (chan, ps) \<Rightarrow> do {
            c \<leftarrow> deref (channels st) chan;
            assertion (IS_EMPTY c);
            Some (chan, st\<lparr>caches := ps\<rparr>)
          }
        | None \<Rightarrow>
            (case channel_new (p \<noteq> NULL) buffer_ok junk sz n impl of
               None \<Rightarrow> Some (NULL, st)
             | Some c \<Rightarrow>
                 let st = st\<lparr>channels := (channels st)(p \<mapsto> c)\<rparr>
                 in Some (p, snd (channel_cache_alloc cap cache_ok cjunk sz n impl st)))
      })"

text \<open>The search loop of \<^verbatim>\<open>channel_free\<close>: a matching cache with room takes the channel.\<close>

fun put_cached ::
  "nat \<Rightarrow> addr \<Rightarrow> uint \<Rightarrow> uint \<Rightarrow> int \<Rightarrow> channel_cache list \<Rightarrow> channel_cache list option option"
where
  "put_cached cap chan sz n impl [] = Some None"
| "put_cached cap chan sz n impl (p # ps) =
     (if cache_matches sz n impl p then
        if num_cached p < cap then do {
          arr \<leftarrow> write_at (cache p) (num_cached p) chan;
          Some (Some (p\<lparr>cache := arr, num_cached := num_cached p + 1\<rparr> # ps))
        } else Some None
      else do {
        r \<leftarrow> put_cached cap chan sz n impl ps;
        Some (map_option (\<lambda>ps. p # ps) r)
      })"

definition channel_free :: "nat \<Rightarrow> addr \<Rightarrow> cache_state \<Rightarrow> cache_state option" where
  "channel_free cap chan st =
     (if chan = NULL then Some st
      else do {
        c \<leftarrow> deref (channels st) chan;
        r \<leftarrow> put_cached cap chan (ch_itemsize c) (ch_size c - 1) (ch_impl c) (caches st);
        case r of
          Some ps \<Rightarrow> Some (st\<lparr>caches := ps\<rparr>)
        | None \<Rightarrow> do {
            h \<leftarrow> c_free (channels st) chan;
            Some (st\<lparr>channels := h\<rparr>)
          }
      })"

text \<open>\<^verbatim>\<open>channel_cache_free\<close>: the inner loop frees the channels of a cache, the outer one its caches.\<close>

fun free_channels :: "addr list \<Rightarrow> channel heap \<Rightarrow> channel heap option" where
  "free_channels [] h = Some h"
| "free_channels (chan # cs) h = do {
     c \<leftarrow> deref h chan;
     h \<leftarrow> c_free h chan;
     free_channels cs h
   }"

fun free_caches :: "channel_cache list \<Rightarrow> channel heap \<Rightarrow> uint \<Rightarrow> (channel heap \<times> uint) option" where
  "free_caches [] h len = Some (h, len)"
| "free_caches (p # ps) h len = do {
     assertion (num_cached p \<le> length (cache p));
     h \<leftarrow> free_channels (take (num_cached p) (cache p)) h;
     free_caches ps h (len - 1)
   }"

definition channel_cache_free :: "cache_state \<Rightarrow> cache_state option" where
  "channel_cache_free st = do {
     (h, len) \<leftarrow> free_caches (caches st) (channels st) (channel_cache_len st);
     assertion (len = 0);
     Some (st\<lparr>channels := h, caches := [], channel_cache_len := len\<rparr>)
   }"

section \<open>Invariant\<close>

definition cached_of :: "channel_cache \<Rightarrow> addr list" where
  "cached_of p = take (num_cached p) (cache p)"

definition all_cached :: "channel_cache list \<Rightarrow> addr list" where
  "all_cached ps = concat (map cached_of ps)"

text \<open>A channel that may be handed out for a request: of the right type, empty and unlocked.\<close>

definition reusable :: "uint \<Rightarrow> uint \<Rightarrow> int \<Rightarrow> channel \<Rightarrow> bool" where
  "reusable sz n impl c \<longleftrightarrow> chan_inv c \<and> chan_slots c = [] \<and>
     ch_itemsize c = sz \<and> ch_size c - 1 = n \<and> ch_impl c = impl"

definition cache_ok :: "nat \<Rightarrow> channel heap \<Rightarrow> channel_cache \<Rightarrow> bool" where
  "cache_ok cap h p \<longleftrightarrow> num_cached p \<le> cap \<and> length (cache p) = cap \<and>
     (\<forall>a \<in> set (cached_of p). \<exists>c. deref h a = Some c \<and>
        reusable (chan_size p) (chan_n p) (cache_impl p) c)"

definition cache_key :: "channel_cache \<Rightarrow> uint \<times> uint \<times> int" where
  "cache_key p = (chan_size p, chan_n p, cache_impl p)"

definition caches_ok :: "nat \<Rightarrow> channel heap \<Rightarrow> channel_cache list \<Rightarrow> bool" where
  "caches_ok cap h ps \<longleftrightarrow> (\<forall>p \<in> set ps. cache_ok cap h p) \<and> distinct (map cache_key ps) \<and>
     distinct (all_cached ps)"

definition cache_inv :: "nat \<Rightarrow> cache_state \<Rightarrow> bool" where
  "cache_inv cap st \<longleftrightarrow> caches_ok cap (channels st) (caches st) \<and>
     channel_cache_len st = of_nat (length (caches st))"

section \<open>Taking from and returning to a cache\<close>

lemma all_cached_simps [simp]:
  "all_cached [] = []" "all_cached (p # ps) = cached_of p @ all_cached ps"
  by (simp_all add: all_cached_def)

lemma matches_key: "cache_matches sz n impl p \<longleftrightarrow> cache_key p = (sz, n, impl)"
  by (auto simp: cache_matches_def cache_key_def)

lemma take_cached_spec:
  assumes "\<forall>p \<in> set ps. num_cached p \<le> length (cache p)"
  shows "\<exists>r. take_cached sz n impl ps = Some r \<and>
    (case r of None \<Rightarrow> True | Some (a, ps') \<Rightarrow> map cache_key ps' = map cache_key ps \<and>
       map cache ps' = map cache ps \<and> list_all2 (\<lambda>p' p. num_cached p' \<le> num_cached p) ps' ps \<and>
       mset (all_cached ps) = add_mset a (mset (all_cached ps')) \<and>
       (\<exists>p \<in> set ps. cache_key p = (sz, n, impl) \<and> a \<in> set (cached_of p)))"
  using assms
proof (induction ps)
  case (Cons p ps)
  then obtain r where r: "take_cached sz n impl ps = Some r"
    and spec: "case r of None \<Rightarrow> True | Some (a, ps') \<Rightarrow> map cache_key ps' = map cache_key ps \<and>
       map cache ps' = map cache ps \<and> list_all2 (\<lambda>p' p. num_cached p' \<le> num_cached p) ps' ps \<and>
       mset (all_cached ps) = add_mset a (mset (all_cached ps')) \<and>
       (\<exists>p \<in> set ps. cache_key p = (sz, n, impl) \<and> a \<in> set (cached_of p))"
    by auto
  show ?case
  proof (cases "cache_matches sz n impl p \<and> num_cached p > 0")
    case True
    define k where "k = num_cached p - 1"
    have k: "num_cached p = Suc k" "k < length (cache p)"
      using True Cons.prems by (auto simp: k_def)
    have "take_cached sz n impl (p # ps) = Some (Some (cache p ! k, p\<lparr>num_cached := k\<rparr> # ps))"
      using True k by simp
    moreover have "cached_of p = cached_of (p\<lparr>num_cached := k\<rparr>) @ [cache p ! k]"
      using k by (simp add: cached_of_def take_Suc_conv_app_nth)
    ultimately show ?thesis
      using True k by (simp add: matches_key [symmetric] list_all2_refl)
        (simp add: cache_key_def)
  next
    case False
    then show ?thesis
      using r spec by (auto simp: split: option.splits)
  qed
qed simp

lemma put_cached_spec:
  assumes "\<forall>p \<in> set ps. num_cached p \<le> cap \<and> length (cache p) = cap"
  shows "\<exists>r. put_cached cap a sz n impl ps = Some r \<and>
    (case r of None \<Rightarrow> True | Some ps' \<Rightarrow> map cache_key ps' = map cache_key ps \<and>
       (\<forall>p \<in> set ps'. num_cached p \<le> cap \<and> length (cache p) = cap) \<and>
       mset (all_cached ps') = add_mset a (mset (all_cached ps)) \<and>
       (\<forall>p' \<in> set ps'. \<forall>b \<in> set (cached_of p').
          b = a \<and> cache_key p' = (sz, n, impl) \<or>
          (\<exists>p \<in> set ps. cache_key p = cache_key p' \<and> b \<in> set (cached_of p))))"
  using assms
proof (induction ps)
  case (Cons p ps)
  then obtain r where r: "put_cached cap a sz n impl ps = Some r"
    and spec: "case r of None \<Rightarrow> True | Some ps' \<Rightarrow> map cache_key ps' = map cache_key ps \<and>
       (\<forall>p \<in> set ps'. num_cached p \<le> cap \<and> length (cache p) = cap) \<and>
       mset (all_cached ps') = add_mset a (mset (all_cached ps)) \<and>
       (\<forall>p' \<in> set ps'. \<forall>b \<in> set (cached_of p').
          b = a \<and> cache_key p' = (sz, n, impl) \<or>
          (\<exists>p \<in> set ps. cache_key p = cache_key p' \<and> b \<in> set (cached_of p)))"
    by auto
  show ?case
  proof (cases "cache_matches sz n impl p \<and> num_cached p < cap")
    case True
    let ?p = "p\<lparr>cache := (cache p)[num_cached p := a], num_cached := Suc (num_cached p)\<rparr>"
    have "put_cached cap a sz n impl (p # ps) = Some (Some (?p # ps))"
      using True Cons.prems by simp
    moreover have "cached_of ?p = cached_of p @ [a]"
      using True Cons.prems by (simp add: cached_of_def take_Suc_conv_app_nth)
    moreover have "cache_key ?p = cache_key p" by (simp add: cache_key_def)
    ultimately show ?thesis
      using True Cons.prems by (auto simp: matches_key)
  next
    case False
    then show ?thesis
    proof (cases "cache_matches sz n impl p \<or> r = None")
      case True
      with False r show ?thesis by auto
    next
      case no: False
      then obtain ps' where ps': "r = Some ps'" by blast
      have "put_cached cap a sz n impl (p # ps) = Some (Some (p # ps'))"
        using no r ps' by simp
      moreover have "mset (all_cached (p # ps')) = add_mset a (mset (all_cached (p # ps)))"
        using spec ps' by simp
      moreover have "\<forall>p' \<in> set (p # ps'). \<forall>b \<in> set (cached_of p').
          b = a \<and> cache_key p' = (sz, n, impl) \<or>
          (\<exists>q \<in> set (p # ps). cache_key q = cache_key p' \<and> b \<in> set (cached_of q))"
        using spec ps' by (simp, blast)
      moreover have "\<forall>p \<in> set (p # ps'). num_cached p \<le> cap \<and> length (cache p) = cap"
        using spec ps' Cons.prems by simp
      ultimately show ?thesis using spec ps' by (intro exI [of _ "Some (p # ps')"]) simp
    qed
  qed
qed simp

section \<open>The operations keep the invariant\<close>

lemma cache_ok_heap:
  assumes "cache_ok cap h p" "\<forall>a \<in> set (cached_of p). deref h' a = deref h a"
  shows "cache_ok cap h' p"
  using assms by (simp add: cache_ok_def)

lemma cached_live: "caches_ok cap h ps \<Longrightarrow> a \<in> set (all_cached ps) \<Longrightarrow> \<exists>c. deref h a = Some c"
  by (auto simp: caches_ok_def cache_ok_def all_cached_def)

lemma caches_ok_heap:
  assumes "caches_ok cap h ps" "\<And>a. a \<in> set (all_cached ps) \<Longrightarrow> deref h' a = deref h a"
  shows "caches_ok cap h' ps"
proof -
  have "cache_ok cap h' p" if "p \<in> set ps" for p
  proof (rule cache_ok_heap [of cap h])
    show "cache_ok cap h p" using assms(1) that by (simp add: caches_ok_def)
    have "set (cached_of p) \<subseteq> set (all_cached ps)" using that by (auto simp: all_cached_def)
    then show "\<forall>a \<in> set (cached_of p). deref h' a = deref h a" using assms(2) by blast
  qed
  then show ?thesis using assms(1) by (simp add: caches_ok_def)
qed

lemma list_all2_shrink:
  assumes "map cache_key ps' = map cache_key ps" "map cache ps' = map cache ps"
    and "list_all2 (\<lambda>p' p. num_cached p' \<le> num_cached p) ps' ps" "\<forall>p \<in> set ps. cache_ok cap h p"
  shows "\<forall>p \<in> set ps'. cache_ok cap h p"
proof
  fix p' assume "p' \<in> set ps'"
  then obtain i where i: "i < length ps'" "p' = ps' ! i" by (metis in_set_conv_nth)
  let ?p = "ps ! i"
  have len: "length ps' = length ps" using assms(1) map_eq_imp_length_eq by blast
  have eq: "cache_key p' = cache_key ?p" "cache p' = cache ?p"
    using assms(1,2) i len by (metis nth_map)+
  have le: "num_cached p' \<le> num_cached ?p"
    using assms(3) i by (simp add: list_all2_conv_all_nth)
  then have "set (cached_of p') \<subseteq> set (cached_of ?p)"
    by (simp add: cached_of_def eq(2) set_take_subset_set_take)
  moreover have "cache_ok cap h ?p" using assms(4) i len by simp
  ultimately show "cache_ok cap h p'"
    using eq le by (auto simp: cache_ok_def cache_key_def)
qed

lemma take_cached_ok:
  assumes "caches_ok cap h ps"
  shows "\<exists>r. take_cached sz n impl ps = Some r \<and>
    (case r of None \<Rightarrow> True | Some (a, ps') \<Rightarrow> caches_ok cap h ps' \<and> length ps' = length ps \<and>
       a \<in> set (all_cached ps) \<and> set (all_cached ps') = set (all_cached ps) - {a} \<and>
       (\<exists>c. deref h a = Some c \<and> reusable sz n impl c))"
proof -
  have ok: "\<forall>p \<in> set ps. cache_ok cap h p" and d: "distinct (map cache_key ps)" "distinct (all_cached ps)"
    using assms by (auto simp: caches_ok_def)
  have "\<forall>p \<in> set ps. num_cached p \<le> length (cache p)" using ok by (simp add: cache_ok_def)
  from take_cached_spec [OF this, of sz n impl] obtain r where r: "take_cached sz n impl ps = Some r"
    and spec: "case r of None \<Rightarrow> True | Some (a, ps') \<Rightarrow> map cache_key ps' = map cache_key ps \<and>
       map cache ps' = map cache ps \<and> list_all2 (\<lambda>p' p. num_cached p' \<le> num_cached p) ps' ps \<and>
       mset (all_cached ps) = add_mset a (mset (all_cached ps')) \<and>
       (\<exists>p \<in> set ps. cache_key p = (sz, n, impl) \<and> a \<in> set (cached_of p))"
    by blast
  show ?thesis
  proof (cases r)
    case (Some x)
    obtain a ps' where x: "x = (a, ps')" by (cases x)
    note sp = spec [unfolded Some x, simplified]
    have ms: "mset (all_cached ps) = add_mset a (mset (all_cached ps'))"
      and keys: "map cache_key ps' = map cache_key ps" using sp by blast+
    have ok': "\<forall>p \<in> set ps'. cache_ok cap h p" using list_all2_shrink [of ps' ps] sp ok by blast
    have ms2: "mset (all_cached ps) = mset (a # all_cached ps')" using ms by simp
    have "distinct (a # all_cached ps')" using d(2) mset_eq_imp_distinct_iff [OF ms2] by blast
    moreover have "set (all_cached ps) = set (a # all_cached ps')" using mset_eq_setD [OF ms2] .
    moreover have "\<exists>c. deref h a = Some c \<and> reusable sz n impl c"
      using sp ok by (auto simp: cache_ok_def cache_key_def)
    moreover have "distinct (map cache_key ps')" using keys d(1) by simp
    moreover have "length ps' = length ps" using keys map_eq_imp_length_eq by blast
    ultimately show ?thesis
      using r Some x ok' by (auto simp: caches_ok_def)
  qed (use r in simp)
qed

lemma put_cached_ok:
  assumes "caches_ok cap h ps" "a \<notin> set (all_cached ps)" "deref h a = Some c" "reusable sz n impl c"
  shows "\<exists>r. put_cached cap a sz n impl ps = Some r \<and>
    (case r of None \<Rightarrow> True | Some ps' \<Rightarrow> caches_ok cap h ps' \<and> length ps' = length ps \<and>
       set (all_cached ps') = insert a (set (all_cached ps)))"
proof -
  have ok: "\<forall>p \<in> set ps. cache_ok cap h p" and d: "distinct (map cache_key ps)" "distinct (all_cached ps)"
    using assms(1) by (auto simp: caches_ok_def)
  have "\<forall>p \<in> set ps. num_cached p \<le> cap \<and> length (cache p) = cap" using ok by (simp add: cache_ok_def)
  from put_cached_spec [OF this, of a sz n impl] obtain r where r: "put_cached cap a sz n impl ps = Some r"
    and spec: "case r of None \<Rightarrow> True | Some ps' \<Rightarrow> map cache_key ps' = map cache_key ps \<and>
       (\<forall>p \<in> set ps'. num_cached p \<le> cap \<and> length (cache p) = cap) \<and>
       mset (all_cached ps') = add_mset a (mset (all_cached ps)) \<and>
       (\<forall>p' \<in> set ps'. \<forall>b \<in> set (cached_of p').
          b = a \<and> cache_key p' = (sz, n, impl) \<or>
          (\<exists>p \<in> set ps. cache_key p = cache_key p' \<and> b \<in> set (cached_of p)))"
    by blast
  show ?thesis
  proof (cases r)
    case (Some ps')
    note sp = spec [unfolded Some, simplified]
    have "cache_ok cap h p'" if p': "p' \<in> set ps'" for p'
    proof -
      have "\<exists>c. deref h b = Some c \<and> reusable (chan_size p') (chan_n p') (cache_impl p') c"
        if "b \<in> set (cached_of p')" for b
      proof -
        from that p' sp consider "b = a" "cache_key p' = (sz, n, impl)"
          | p where "p \<in> set ps" "cache_key p = cache_key p'" "b \<in> set (cached_of p)"
          by blast
        then show ?thesis
        proof cases
          case 1
          with assms(3,4) show ?thesis by (auto simp: cache_key_def)
        next
          case (2 p)
          with ok show ?thesis by (auto simp: cache_ok_def cache_key_def)
        qed
      qed
      with p' sp show ?thesis by (simp add: cache_ok_def)
    qed
    moreover have ms: "mset (all_cached ps') = mset (a # all_cached ps)" using sp by simp
    have "distinct (all_cached ps')"
      using mset_eq_imp_distinct_iff [OF ms] d(2) assms(2) by simp
    moreover have "set (all_cached ps') = insert a (set (all_cached ps))"
      using mset_eq_setD [OF ms] by simp
    moreover have keys: "map cache_key ps' = map cache_key ps" using sp by blast
    moreover have "length ps' = length ps" using keys map_eq_imp_length_eq by blast
    ultimately show ?thesis
      using r Some d(1) by (simp add: caches_ok_def)
  qed (use r in simp)
qed

lemma cache_alloc_ok:
  assumes "cache_inv cap st" "channel_cache_alloc cap ok junk sz n impl st = (b, st')"
  shows "cache_inv cap st' \<and> channels st' = channels st \<and> all_cached (caches st') = all_cached (caches st)"
proof -
  let ?p = "\<lparr>chan_size = sz, chan_n = n, cache_impl = impl, num_cached = 0, cache = map junk [0..<cap]\<rparr>"
  have "cached_of ?p = []" "cache_key ?p = (sz, n, impl)" "cache_ok cap (channels st) ?p"
    by (simp_all add: cached_of_def cache_key_def cache_ok_def)
  moreover have "(sz, n, impl) \<notin> cache_key ` set (caches st)"
    if "\<not> list_ex (cache_matches sz n impl) (caches st)"
    using that by (force simp: list_ex_iff matches_key)
  ultimately show ?thesis
    using assms by (auto simp: channel_cache_alloc_def cache_inv_def caches_ok_def Let_def
        split: if_splits)
qed

lemma channel_new_reusable:
  assumes "channel_new ok1 ok2 junk sz n impl = Some c" "valid_impl impl"
    and "unat n < 2 ^ 31" "Suc (unat n) * unat sz < 2 ^ 32"
  shows "reusable sz n impl c"
proof -
  have "ch_impl c = impl" "ch_size c = n + 1"
    using assms(1) by (auto simp: channel_new_def Let_def split: if_splits)
  then show ?thesis
    using channel_new_inv [OF assms(1) _ assms(3,4)] assms(2)
    by (auto simp: reusable_def valid_impl_def)
qed

lemma reusable_IS_EMPTY: "reusable sz n impl c \<Longrightarrow> IS_EMPTY c"
proof (cases "channel_unbuffered c")
  case True
  assume "reusable sz n impl c"
  then have "ch_head c \<le> 1" "ch_tail c = 0" "ch_head c \<noteq> 1"
    using True by (auto simp: reusable_def chan_inv_def chan_slots_def split: if_splits)
  then show ?thesis by (auto simp: IS_EMPTY_def word_le_nat_alt word_unat_eq_iff)
next
  case False
  assume "reusable sz n impl c"
  then show ?thesis using IS_EMPTY_ring False by (auto simp: reusable_def)
qed

lemma channel_alloc_fresh:
  assumes inv: "cache_inv cap st" and p: "p \<noteq> NULL" "channels st p = None"
    and new: "channel_new True b junk sz n impl = Some c" and impl: "valid_impl impl"
    and miss: "take_cached sz n impl (caches st) = Some None"
    and small: "unat n < 2 ^ 31" "Suc (unat n) * unat sz < 2 ^ 32"
  shows "\<exists>st'. channel_alloc cap p b ok junk cjunk sz n impl st = Some (p, st') \<and> cache_inv cap st' \<and>
    p \<notin> set (all_cached (caches st')) \<and> channels st' = (channels st)(p \<mapsto> c)"
proof -
  let ?st = "st\<lparr>channels := (channels st)(p \<mapsto> c)\<rparr>"
  have old: "p \<notin> set (all_cached (caches st))"
    using cached_live [of cap "channels st" "caches st" p] inv p by (auto simp: cache_inv_def deref_def)
  have ok: "caches_ok cap (channels st) (caches st)" using inv by (simp add: cache_inv_def)
  have "caches_ok cap ((channels st)(p \<mapsto> c)) (caches st)"
    by (rule caches_ok_heap [OF ok]) (use old in \<open>auto simp: deref_def\<close>)
  then have st: "cache_inv cap ?st" using inv by (simp add: cache_inv_def)
  obtain b' st' where r: "channel_cache_alloc cap ok cjunk sz n impl ?st = (b', st')"
    by (cases "channel_cache_alloc cap ok cjunk sz n impl ?st")
  have "cache_inv cap st' \<and> channels st' = (channels st)(p \<mapsto> c) \<and>
      all_cached (caches st') = all_cached (caches st)"
    using cache_alloc_ok [OF st r] by simp
  moreover have "channel_alloc cap p b ok junk cjunk sz n impl st = Some (p, st')"
    using impl miss new p r by (simp add: channel_alloc_def)
  ultimately show ?thesis using old by auto
qed

lemma channel_alloc_ok:
  assumes inv: "cache_inv cap st" and p: "p = NULL \<or> channels st p = None" and impl: "valid_impl impl"
    and small: "unat n < 2 ^ 31" "Suc (unat n) * unat sz < 2 ^ 32"
  shows "\<exists>a st'. channel_alloc cap p b ok junk cjunk sz n impl st = Some (a, st') \<and> cache_inv cap st' \<and>
    (a = NULL \<longrightarrow> st' = st) \<and>
    (a \<noteq> NULL \<longrightarrow> a \<notin> set (all_cached (caches st')) \<and>
      (a = p \<or> a \<in> set (all_cached (caches st))) \<and>
      (\<exists>c. deref (channels st') a = Some c \<and> reusable sz n impl c)) \<and>
    (\<forall>a'. a' \<noteq> a \<longrightarrow> channels st' a' = channels st a')"
proof -
  have "caches_ok cap (channels st) (caches st)" using inv by (simp add: cache_inv_def)
  from take_cached_ok [OF this, of sz n impl] obtain r
    where r: "take_cached sz n impl (caches st) = Some r"
      and ok: "case r of None \<Rightarrow> True | Some (a, ps') \<Rightarrow> caches_ok cap (channels st) ps' \<and>
       length ps' = length (caches st) \<and> a \<in> set (all_cached (caches st)) \<and>
       set (all_cached ps') = set (all_cached (caches st)) - {a} \<and>
       (\<exists>c. deref (channels st) a = Some c \<and> reusable sz n impl c)"
    by blast
  show ?thesis
  proof (cases r)
    case (Some x)
    obtain a ps' where x: "x = (a, ps')" by (cases x)
    obtain c where c: "deref (channels st) a = Some c" "reusable sz n impl c"
      using ok Some x by auto
    have "channel_alloc cap p b ok junk cjunk sz n impl st = Some (a, st\<lparr>caches := ps'\<rparr>)"
      using impl r Some x c(1) reusable_IS_EMPTY [OF c(2)] by (simp add: channel_alloc_def)
    moreover have "a \<noteq> NULL" using c(1) by auto
    moreover have "cache_inv cap (st\<lparr>caches := ps'\<rparr>)"
      using ok Some x inv by (simp add: cache_inv_def)
    ultimately show ?thesis using ok Some x c by auto
  next
    case None
    show ?thesis
    proof (cases "channel_new (p \<noteq> NULL) b junk sz n impl")
      case no: None
      then have "channel_alloc cap p b ok junk cjunk sz n impl st = Some (NULL, st)"
        using impl r None by (simp add: channel_alloc_def)
      then show ?thesis using inv by auto
    next
      case (Some c)
      then have np: "p \<noteq> NULL" by (auto simp: channel_new_def)
      with Some have new: "channel_new True b junk sz n impl = Some c" by simp
      have pn: "channels st p = None" using p np by blast
      obtain st' where "channel_alloc cap p b ok junk cjunk sz n impl st = Some (p, st')"
          "cache_inv cap st'" "p \<notin> set (all_cached (caches st'))" "channels st' = (channels st)(p \<mapsto> c)"
        using channel_alloc_fresh [OF inv np pn new impl _ small] r None by blast
      then show ?thesis
        using channel_new_reusable [OF new impl small] np by (auto simp: deref_def)
    qed
  qed
qed

lemma channel_free_ok:
  assumes inv: "cache_inv cap st" and c: "deref (channels st) a = Some c" "chan_inv c" "chan_slots c = []"
    and a: "a \<notin> set (all_cached (caches st))"
  shows "\<exists>st'. channel_free cap a st = Some st' \<and> cache_inv cap st' \<and>
    (channels st' = channels st \<and>
       set (all_cached (caches st')) = insert a (set (all_cached (caches st))) \<or>
     channels st' = (channels st)(a := None) \<and> caches st' = caches st)"
proof -
  let ?put = "put_cached cap a (ch_itemsize c) (ch_size c - 1) (ch_impl c) (caches st)"
  have ok: "caches_ok cap (channels st) (caches st)" using inv by (simp add: cache_inv_def)
  have "reusable (ch_itemsize c) (ch_size c - 1) (ch_impl c) c" using c by (simp add: reusable_def)
  from put_cached_ok [OF ok a c(1) this] obtain r where r: "?put = Some r"
    and sp: "case r of None \<Rightarrow> True | Some ps' \<Rightarrow> caches_ok cap (channels st) ps' \<and>
       length ps' = length (caches st) \<and>
       set (all_cached ps') = insert a (set (all_cached (caches st)))"
    by blast
  have np: "a \<noteq> NULL" using c(1) by auto
  show ?thesis
  proof (cases r)
    case None
    have "caches_ok cap ((channels st)(a := None)) (caches st)"
      by (rule caches_ok_heap [OF ok]) (use a in \<open>auto simp: deref_def\<close>)
    then show ?thesis
      using r None c(1) np inv by (simp add: channel_free_def heap_simps cache_inv_def)
  next
    case (Some ps')
    then show ?thesis
      using r sp c(1) np inv by (simp add: channel_free_def cache_inv_def)
  qed
qed

lemma put_then_take:
  assumes "put_cached cap a sz n impl ps = Some (Some ps')" "\<forall>p \<in> set ps. length (cache p) = cap"
  shows "\<exists>ps''. take_cached sz n impl ps' = Some (Some (a, ps'')) \<and> map cached_of ps'' = map cached_of ps"
  using assms
proof (induction ps arbitrary: ps')
  case (Cons p ps)
  show ?case
  proof (cases "cache_matches sz n impl p")
    case True
    then have lt: "num_cached p < cap"
      and "ps' = p\<lparr>cache := (cache p)[num_cached p := a], num_cached := Suc (num_cached p)\<rparr> # ps"
      using Cons.prems by (auto split: if_splits)
    then show ?thesis using True Cons.prems by (simp add: cache_matches_def cached_of_def)
  next
    case False
    then obtain qs where "put_cached cap a sz n impl ps = Some (Some qs)" "ps' = p # qs"
      using Cons.prems by (auto split: Option.bind_splits)
    with Cons.IH [of qs] Cons.prems False show ?thesis by auto
  qed
qed simp

lemma free_channels_ok:
  assumes "distinct as" "\<forall>a \<in> set as. deref h a \<noteq> None"
  shows "free_channels as h = Some (h |` (- set as))"
  using assms
proof (induction as arbitrary: h)
  case (Cons a as)
  then obtain c where c: "deref h a = Some c" by auto
  have "\<forall>b \<in> set as. deref (h(a := None)) b \<noteq> None"
    using Cons.prems by (auto simp: deref_def)
  then have "free_channels as (h(a := None)) = Some ((h(a := None)) |` (- set as))"
    using Cons by simp
  moreover have "(h(a := None)) |` (- set as) = h |` (- set (a # as))"
    by (auto simp: restrict_map_def fun_eq_iff)
  ultimately show ?case using c by (simp add: heap_simps)
qed (simp add: restrict_map_def)

text \<open>Whatever the cached channels hold, they are freed if they are live and distinct.\<close>

definition stocked :: "channel heap \<Rightarrow> channel_cache list \<Rightarrow> bool" where
  "stocked h ps \<longleftrightarrow> distinct (all_cached ps) \<and> (\<forall>a \<in> set (all_cached ps). deref h a \<noteq> None) \<and>
     (\<forall>p \<in> set ps. num_cached p \<le> length (cache p))"

lemma caches_ok_stocked: "caches_ok cap h ps \<Longrightarrow> stocked h ps"
  using cached_live [of cap h ps] by (fastforce simp: stocked_def caches_ok_def cache_ok_def)

lemma free_caches_stocked:
  assumes "stocked h ps"
  shows "free_caches ps h len = Some (h |` (- set (all_cached ps)), len - of_nat (length ps))"
  using assms
proof (induction ps arbitrary: h len)
  case (Cons p ps)
  have p: "distinct (cached_of p)" "set (cached_of p) \<inter> set (all_cached ps) = {}" "num_cached p \<le> length (cache p)"
    and ps: "stocked h ps"
    using Cons.prems by (auto simp: stocked_def)
  let ?h = "h |` (- set (cached_of p))"
  have "free_channels (cached_of p) h = Some ?h"
    using p Cons.prems by (intro free_channels_ok) (auto simp: stocked_def)
  moreover have "stocked ?h ps"
    using ps p(2) by (auto simp: stocked_def deref_def restrict_map_def)
  moreover have "?h |` (- set (all_cached ps)) = h |` (- set (all_cached (p # ps)))"
    by (auto simp: restrict_map_def fun_eq_iff)
  ultimately show ?case
    using p(3) Cons.IH [of ?h "len - 1"] by (simp add: cached_of_def)
qed (simp add: restrict_map_def)

lemma channel_cache_free_stocked:
  assumes "stocked (channels st) (caches st)" "channel_cache_len st = of_nat (length (caches st))"
  shows "channel_cache_free st = Some (st\<lparr>channels := channels st |` (- set (all_cached (caches st))),
    caches := [], channel_cache_len := 0\<rparr>)"
  using assms free_caches_stocked [of "channels st" "caches st"]
  by (simp add: channel_cache_free_def)

lemma channel_cache_free_ok:
  assumes "cache_inv cap st"
  shows "channel_cache_free st = Some (st\<lparr>channels := channels st |` (- set (all_cached (caches st))),
    caches := [], channel_cache_len := 0\<rparr>)"
  using assms caches_ok_stocked [of cap "channels st" "caches st"]
  by (simp add: channel_cache_free_stocked cache_inv_def)

section \<open>Properties\<close>

text \<open>
  Property C22. Allocation never fails an assertion and hands out either \<open>NULL\<close>, leaving the state
  alone, or a live channel of the requested type that is well formed, unlocked and empty, that
  was fresh or cached before and is in no cache afterwards: no two owners get the same channel.
  All other channels are untouched and the caches stay well formed.
\<close>

theorem channel_alloc_exclusive:
  assumes "cache_inv cap st" "p = NULL \<or> channels st p = None"
    and "unat n < 2 ^ 31" "Suc (unat n) * unat sz < 2 ^ 32"
  shows "\<exists>a st'. channel_alloc cap p b ok junk cjunk sz n impl st = Some (a, st') \<and> cache_inv cap st' \<and>
    (a = NULL \<longrightarrow> st' = st) \<and>
    (a \<noteq> NULL \<longrightarrow> a \<notin> set (all_cached (caches st')) \<and>
      (a = p \<or> a \<in> set (all_cached (caches st))) \<and>
      (\<exists>c. deref (channels st') a = Some c \<and> reusable sz n impl c)) \<and>
    (\<forall>a'. a' \<noteq> a \<longrightarrow> channels st' a' = channels st a')"
proof (cases "valid_impl impl")
  case True
  then show ?thesis using channel_alloc_ok [OF assms(1,2) True assms(3,4)] by blast
next
  case False
  then show ?thesis using assms(1) by (simp add: channel_alloc_def)
qed

theorem channel_alloc_exclusive_witness:
  "\<exists>a st'. channel_alloc 2 64 True True (\<lambda>_. 0) (\<lambda>_. 0) 4 3 MPSC
      \<lparr>channels = (\<lambda>_. None), caches = [], channel_cache_len = 0\<rparr> = Some (a, st') \<and> cache_inv 2 st'"
proof -
  let ?st = "\<lparr>channels = (\<lambda>_. None), caches = [], channel_cache_len = 0\<rparr>"
  have "cache_inv 2 ?st" "64 = NULL \<or> channels ?st 64 = None" "unat (3 :: uint) < 2 ^ 31"
      "Suc (unat (3 :: uint)) * unat (4 :: uint) < 2 ^ 32"
    by (simp_all add: cache_inv_def caches_ok_def)
  from channel_alloc_exclusive [OF this, of True True "\<lambda>_. 0" "\<lambda>_. 0" MPSC] show ?thesis by blast
qed

text \<open>
  Freeing a drained channel that is in no cache either caches it, leaving the heap
  alone, or returns its memory; and a channel that went to a cache is the one the
  next allocation of its type returns.
\<close>

theorem channel_free_then_alloc:
  assumes "cache_inv cap st" "deref (channels st) a = Some c" "chan_inv c" "chan_slots c = []"
    and "a \<notin> set (all_cached (caches st))"
  shows "\<exists>st'. channel_free cap a st = Some st' \<and> cache_inv cap st' \<and>
    (if a \<in> set (all_cached (caches st')) then channels st' = channels st \<and>
       (\<exists>st''. channel_alloc cap p b ok junk cjunk (ch_itemsize c) (ch_size c - 1) (ch_impl c) st' =
          Some (a, st'') \<and> map cached_of (caches st'') = map cached_of (caches st) \<and>
          channels st'' = channels st)
     else channels st' = (channels st)(a := None) \<and> caches st' = caches st)"
proof -
  obtain st' where st': "channel_free cap a st = Some st'" "cache_inv cap st'"
    and or: "channels st' = channels st \<and>
       set (all_cached (caches st')) = insert a (set (all_cached (caches st))) \<or>
     channels st' = (channels st)(a := None) \<and> caches st' = caches st"
    using channel_free_ok [OF assms] by blast
  show ?thesis
  proof (cases "a \<in> set (all_cached (caches st'))")
    case True
    with or assms(5) have ch: "channels st' = channels st" by auto
    have "a \<noteq> NULL" using assms(2) by auto
    with True st'(1) assms(2,5) have put: "put_cached cap a (ch_itemsize c) (ch_size c - 1) (ch_impl c)
        (caches st) = Some (Some (caches st'))"
      by (auto simp: channel_free_def split: Option.bind_splits option.splits)
    have "\<forall>p \<in> set (caches st). length (cache p) = cap"
      using assms(1) by (auto simp: cache_inv_def caches_ok_def cache_ok_def)
    from put_then_take [OF put this] obtain ps'' where
      t: "take_cached (ch_itemsize c) (ch_size c - 1) (ch_impl c) (caches st') = Some (Some (a, ps''))"
        "map cached_of ps'' = map cached_of (caches st)"
      by blast
    have "IS_EMPTY c" using reusable_IS_EMPTY [of _ _ _ c] assms(3,4) by (auto simp: reusable_def)
    moreover have "valid_impl (ch_impl c)" using assms(3) by (auto simp: chan_inv_def valid_impl_def)
    ultimately have "channel_alloc cap p b ok junk cjunk (ch_itemsize c) (ch_size c - 1) (ch_impl c) st' =
        Some (a, st'\<lparr>caches := ps''\<rparr>)"
      using t(1) assms(2) ch by (simp add: channel_alloc_def)
    with True ch st' t(2) show ?thesis by auto
  qed (use or st' in auto)
qed

theorem channel_free_then_alloc_witness:
  "\<exists>st c st' st''. channel_alloc 2 64 True True (\<lambda>_. 0) (\<lambda>_. 0) 4 3 MPSC
      \<lparr>channels = (\<lambda>_. None), caches = [], channel_cache_len = 0\<rparr> = Some (64, st) \<and>
    deref (channels st) 64 = Some c \<and> channel_free 2 64 st = Some st' \<and>
    channel_alloc 2 0 True True (\<lambda>_. 0) (\<lambda>_. 0) 4 3 MPSC st' = Some (64, st'')"
proof -
  let ?c = "the (channel_new True True (\<lambda>_. 0) 4 3 MPSC)"
  let ?st = "\<lparr>channels = [64 \<mapsto> ?c], caches = [\<lparr>chan_size = 4, chan_n = 3, cache_impl = MPSC,
    num_cached = 0, cache = [0, 0]\<rparr>], channel_cache_len = 1\<rparr>"
  have new: "channel_new True True (\<lambda>_. 0) 4 3 MPSC = Some ?c" by (simp add: channel_new_def Let_def)
  have alloc: "channel_alloc 2 64 True True (\<lambda>_. 0) (\<lambda>_. 0) 4 3 MPSC
      \<lparr>channels = (\<lambda>_. None), caches = [], channel_cache_len = 0\<rparr> = Some (64, ?st)"
    by (simp add: channel_alloc_def valid_impl_def channel_cache_alloc_def channel_new_def upt_rec)
  have inv: "cache_inv 2 ?st"
    by (simp add: cache_inv_def caches_ok_def cache_ok_def cached_of_def)
  have c: "chan_inv ?c" "chan_slots ?c = []" using channel_new_inv [OF new] by simp_all
  have d: "deref (channels ?st) 64 = Some ?c" by (simp add: deref_def)
  have a: "64 \<notin> set (all_cached (caches ?st))" by (simp add: cached_of_def)
  have k: "ch_itemsize ?c = 4" "ch_size ?c - 1 = 3" "ch_impl ?c = MPSC" by (simp_all add: channel_new_def)
  have "\<exists>st'. channel_free 2 64 ?st = Some st' \<and> 64 \<in> set (all_cached (caches st'))"
    using d k by (simp add: channel_free_def cache_matches_def cached_of_def)
  with channel_free_then_alloc [OF inv d c a, of 0 True True "\<lambda>_. 0" "\<lambda>_. 0", unfolded k]
  have "\<exists>st' st''. channel_free 2 64 ?st = Some st' \<and>
      channel_alloc 2 0 True True (\<lambda>_. 0) (\<lambda>_. 0) 4 3 MPSC st' = Some (64, st'')"
    by auto
  with alloc d show ?thesis by blast
qed

text \<open>
  \<^verbatim>\<open>channel_cache_free\<close> frees exactly the cached channels, each once, and its
  final assertion on the number of caches holds.
\<close>

theorem channel_cache_free_all:
  assumes "cache_inv cap st"
  shows "\<exists>st'. channel_cache_free st = Some st' \<and> caches st' = [] \<and> channel_cache_len st' = 0 \<and>
    dom (channels st') = dom (channels st) - set (all_cached (caches st)) \<and>
    (\<forall>a \<in> dom (channels st'). channels st' a = channels st a)"
  using channel_cache_free_ok [OF assms] by (auto simp: restrict_map_def split: if_splits)

theorem channel_cache_free_all_witness:
  "\<exists>st'. channel_cache_free \<lparr>channels = (\<lambda>_. None), caches = [\<lparr>chan_size = 4, chan_n = 3,
      cache_impl = MPSC, num_cached = 0, cache = [0, 0]\<rparr>], channel_cache_len = 1\<rparr> = Some st' \<and>
    caches st' = []"
proof -
  let ?st = "\<lparr>channels = (\<lambda>_. None), caches = [\<lparr>chan_size = 4, chan_n = 3,
      cache_impl = MPSC, num_cached = 0, cache = [0, 0]\<rparr>], channel_cache_len = 1\<rparr>"
  have "cache_inv 2 ?st" by (simp add: cache_inv_def caches_ok_def cache_ok_def cached_of_def)
  from channel_cache_free_all [OF this] show ?thesis by blast
qed

text \<open>
  Property C23. Recycling does not reset a channel: a channel that is closed when it is
  freed into a cache comes back closed from the next allocation of its type, while a channel
  that is newly allocated is open.
\<close>

theorem recycled_channel_stays_closed:
  assumes "channel_closed c" "deref (channels st) a = Some c"
    and "put_cached cap a (ch_itemsize c) (ch_size c - 1) (ch_impl c) (caches st) = Some (Some ps)"
    and "\<forall>p \<in> set (caches st). length (cache p) = cap" "valid_impl (ch_impl c)" "IS_EMPTY c"
  shows "\<exists>st' st'' c'. channel_free cap a st = Some st' \<and>
    channel_alloc cap p b ok junk cjunk (ch_itemsize c) (ch_size c - 1) (ch_impl c) st' = Some (a, st'') \<and>
    deref (channels st'') a = Some c' \<and> channel_closed c'"
proof -
  have "a \<noteq> NULL" using assms(2) by auto
  then have f: "channel_free cap a st = Some (st\<lparr>caches := ps\<rparr>)"
    using assms by (simp add: channel_free_def)
  obtain qs where "take_cached (ch_itemsize c) (ch_size c - 1) (ch_impl c) ps = Some (Some (a, qs))"
    using put_then_take [OF assms(3,4)] by blast
  with f assms show ?thesis by (simp add: channel_alloc_def)
qed

theorem recycled_channel_stays_closed_witness:
  "\<exists>st a c st' st'' c'. channel_closed c \<and> deref (channels st) a = Some c \<and>
    channel_free 1 a st = Some st' \<and>
    channel_alloc 1 0 True True (\<lambda>_. 0) (\<lambda>_. 0) 4 3 MPSC st' = Some (a, st'') \<and>
    deref (channels st'') a = Some c' \<and> channel_closed c'"
proof -
  let ?c = "(the (channel_new True True (\<lambda>_. 0) 4 3 MPSC))\<lparr>ch_closed := 1\<rparr>"
  let ?p = "\<lparr>chan_size = 4, chan_n = 3, cache_impl = MPSC, num_cached = 0, cache = [0]\<rparr>"
  let ?st = "\<lparr>channels = [64 \<mapsto> ?c], caches = [?p], channel_cache_len = 1\<rparr>"
  have k: "ch_itemsize ?c = 4" "ch_size ?c - 1 = 3" "ch_impl ?c = MPSC" by (simp_all add: channel_new_def)
  have "channel_closed ?c" by (simp add: channel_closed_def)
  moreover have "deref (channels ?st) 64 = Some ?c" by (simp add: deref_def)
  moreover have "put_cached 1 64 (ch_itemsize ?c) (ch_size ?c - 1) (ch_impl ?c) (caches ?st) =
      Some (Some [?p\<lparr>cache := [64], num_cached := 1\<rparr>])"
    unfolding k by (simp add: cache_matches_def)
  moreover have "\<forall>p \<in> set (caches ?st). length (cache p) = 1" "valid_impl (ch_impl ?c)" "IS_EMPTY ?c"
    by (simp_all add: valid_impl_def IS_EMPTY_def channel_new_def)
  ultimately show ?thesis
    using recycled_channel_stays_closed [of ?c ?st 64 1 "[?p\<lparr>cache := [64], num_cached := 1\<rparr>]"
        0 True True "\<lambda>_. 0" "\<lambda>_. 0"]
    unfolding k by blast
qed

end
