(* ===== verification/Channel_Conc.thy ===== *)
theory Channel_Conc
  imports Channel
begin

text \<open>
  Channels used by several threads at once. The functions of \<^verbatim>\<open>src/channel_shm/channel.c\<close> as machines whose
  steps are single accesses to the shared memory: reading \<^verbatim>\<open>head\<close> or \<^verbatim>\<open>tail\<close>, copying one byte, taking or
  releasing a lock, publishing a message by writing an index. Steps of the threads interleave
  arbitrarily; memory is sequentially consistent, which is what the barriers of the code are for.
\<close>

section \<open>Threads\<close>

datatype chan_op = Sending | Receiving

text \<open>The tests of the code: the two before and after taking the lock, and the assertions.\<close>

datatype phase = First | Second | Asserting | Final

text \<open>
  Where a thread is: it has read \<^verbatim>\<open>head\<close> and \<^verbatim>\<open>tail\<close> for a test, or not yet; it copies a message from or
  to an offset; it is about to write an index; it is done with an answer.
\<close>

datatype pc =
    Idle
  | Check phase "uint option" "uint option"
  | Lock
  | Copy nat nat
  | Publish uint
  | Unlock bool
  | Done bool
  | Aborted

record chan_thread =
  th_op :: chan_op
  th_data :: "byte list"
  th_size :: uint
  th_pc :: pc

text \<open>Senders and receivers of an MPMC channel take a lock, and so do the senders of an MPSC channel.\<close>

definition uses_lock :: "channel \<Rightarrow> chan_op \<Rightarrow> bool" where
  "uses_lock c op = (case op of Sending \<Rightarrow> ch_impl c \<noteq> SPSC | Receiving \<Rightarrow> ch_impl c = MPMC)"

definition head_locked :: "channel \<Rightarrow> chan_op \<Rightarrow> bool" where
  "head_locked c op = (op = Receiving \<or> channel_unbuffered c)"

definition lock_held :: "channel \<Rightarrow> chan_op \<Rightarrow> bool" where
  "lock_held c op = (if head_locked c op then ch_head_lock c else ch_tail_lock c)"

definition set_lock :: "channel \<Rightarrow> chan_op \<Rightarrow> bool \<Rightarrow> channel" where
  "set_lock c op b = (if head_locked c op then c\<lparr>ch_head_lock := b\<rparr> else c\<lparr>ch_tail_lock := b\<rparr>)"

text \<open>The tests, on the values read: whether to give up, and what is asserted before copying.\<close>

definition seen :: "channel \<Rightarrow> uint option \<Rightarrow> uint option \<Rightarrow> channel" where
  "seen c rh rt =
     c\<lparr>ch_head := (case rh of None \<Rightarrow> ch_head c | Some h \<Rightarrow> h), ch_tail := (case rt of None \<Rightarrow> ch_tail c | Some t \<Rightarrow> t)\<rparr>"

definition refused :: "chan_op \<Rightarrow> channel \<Rightarrow> bool option" where
  "refused op c = (case op of
     Sending \<Rightarrow> if channel_unbuffered c then Some (IS_FULL_UNBUF c) else IS_FULL c
   | Receiving \<Rightarrow> Some (if channel_unbuffered c then IS_EMPTY_UNBUF c else IS_EMPTY c))"

definition asserted :: "chan_op \<Rightarrow> channel \<Rightarrow> bool option" where
  "asserted op c = (case op of
     Sending \<Rightarrow> if channel_unbuffered c then Some (IS_EMPTY_UNBUF c) else map_option Not (IS_FULL c)
   | Receiving \<Rightarrow> Some (if channel_unbuffered c then IS_FULL_UNBUF c else \<not> IS_EMPTY c))"

definition copy_offset :: "channel \<Rightarrow> chan_op \<Rightarrow> nat" where
  "copy_offset c op = (if channel_unbuffered c then 0
     else unat ((case op of Sending \<Rightarrow> ch_tail c | Receiving \<Rightarrow> ch_head c) * ch_itemsize c))"

definition next_index :: "channel \<Rightarrow> chan_op \<Rightarrow> uint option" where
  "next_index c op = (case op of
     Sending \<Rightarrow> if channel_unbuffered c then Some 1 else INC (ch_tail c) (ch_size c)
   | Receiving \<Rightarrow> if channel_unbuffered c then Some 0 else INC (ch_head c) (ch_size c))"

definition set_index :: "channel \<Rightarrow> chan_op \<Rightarrow> uint \<Rightarrow> channel" where
  "set_index c op i =
     (if op = Receiving \<or> channel_unbuffered c then c\<lparr>ch_head := i\<rparr> else c\<lparr>ch_tail := i\<rparr>)"

text \<open>What follows a test.\<close>

definition decide :: "phase \<Rightarrow> channel \<Rightarrow> channel \<Rightarrow> chan_thread \<Rightarrow> pc" where
  "decide ph c view t = (case ph of
     First \<Rightarrow> (case refused (th_op t) view of
         None \<Rightarrow> Aborted
       | Some b \<Rightarrow> if b then Done False else if uses_lock c (th_op t) then Lock else Check Asserting None None)
   | Second \<Rightarrow> (case refused (th_op t) view of
         None \<Rightarrow> Aborted
       | Some b \<Rightarrow> if b then Unlock False else Check Asserting None None)
   | Asserting \<Rightarrow> (if asserted (th_op t) view = Some True \<and> th_size t \<le> ch_itemsize c
       then Copy (copy_offset c (th_op t)) 0 else Aborted)
   | Final \<Rightarrow> (if IS_EMPTY_UNBUF view then Unlock True else Aborted))"

text \<open>Copying one byte; the data of a receiver is where the message goes to.\<close>

definition copy_byte :: "nat \<Rightarrow> nat \<Rightarrow> channel \<Rightarrow> chan_thread \<Rightarrow> (channel \<times> chan_thread) option" where
  "copy_byte off k c t =
     (if off + k < length (ch_buffer c) \<and> k < length (th_data t)
      then Some (case th_op t of
          Sending \<Rightarrow> (c\<lparr>ch_buffer := (ch_buffer c)[off + k := th_data t ! k]\<rparr>, t)
        | Receiving \<Rightarrow> (c, t\<lparr>th_data := (th_data t)[k := ch_buffer c ! (off + k)]\<rparr>))
      else None)"

datatype event = Sent "byte list" | Received "byte list"

text \<open>
  One access of a thread. The order of the two reads of a test is not specified by C, so \<open>b\<close>
  chooses it. A thread that waits for a lock has no step.
\<close>

definition thread_next :: "bool \<Rightarrow> channel \<Rightarrow> chan_thread \<Rightarrow> (event list \<times> channel \<times> chan_thread) option" where
  "thread_next b c t = (case th_pc t of
     Check ph rh rt \<Rightarrow>
       if rh = None \<and> (b \<or> rt \<noteq> None \<or> channel_unbuffered c)
       then Some ([], c, t\<lparr>th_pc := Check ph (Some (ch_head c)) rt\<rparr>)
       else if rt = None \<and> \<not> channel_unbuffered c
       then Some ([], c, t\<lparr>th_pc := Check ph rh (Some (ch_tail c))\<rparr>)
       else Some ([], c, t\<lparr>th_pc := decide ph c (seen c rh rt) t\<rparr>)
   | Lock \<Rightarrow>
       if lock_held c (th_op t) then None
       else Some ([], set_lock c (th_op t) True, t\<lparr>th_pc := Check Second None None\<rparr>)
   | Copy off k \<Rightarrow>
       if k < unat (th_size t)
       then (case copy_byte off k c t of
           None \<Rightarrow> Some ([], c, t\<lparr>th_pc := Aborted\<rparr>)
         | Some (c, t) \<Rightarrow> Some ([], c, t\<lparr>th_pc := Copy off (Suc k)\<rparr>))
       else (case next_index c (th_op t) of
           None \<Rightarrow> Some ([], c, t\<lparr>th_pc := Aborted\<rparr>)
         | Some i \<Rightarrow> Some ([], c, t\<lparr>th_pc := Publish i\<rparr>))
   | Publish i \<Rightarrow>
       (let m = take (unat (th_size t)) (th_data t) in
        Some ([case th_op t of Sending \<Rightarrow> Sent m | Receiving \<Rightarrow> Received m], set_index c (th_op t) i,
          t\<lparr>th_pc := if \<not> uses_lock c (th_op t) then Done True
            else if th_op t = Receiving \<and> channel_unbuffered c then Check Final None None else Unlock True\<rparr>))
   | Unlock r \<Rightarrow> Some ([], set_lock c (th_op t) False, t\<lparr>th_pc := Done r\<rparr>)
   | _ \<Rightarrow> None)"

section \<open>Systems of threads\<close>

record conc =
  cc :: channel
  threads :: "chan_thread list"

datatype move = Call nat chan_op "byte list" uint | Step nat bool

definition active :: "chan_thread \<Rightarrow> bool" where
  "active t = (case th_pc t of Idle \<Rightarrow> False | Done _ \<Rightarrow> False | _ \<Rightarrow> True)"

text \<open>
  Calls begin by the contract of the implementation: without a lock, one sender or receiver at a time.
\<close>

definition may_call :: "chan_op \<Rightarrow> conc \<Rightarrow> bool" where
  "may_call op z = (uses_lock (cc z) op \<or> (\<forall>t \<in> set (threads z). th_op t = op \<longrightarrow> \<not> active t))"

definition conc_next :: "move \<Rightarrow> conc \<Rightarrow> (event list \<times> conc) option" where
  "conc_next m z = (case m of
     Call i op dat n \<Rightarrow>
       if i < length (threads z) \<and> \<not> active (threads z ! i) \<and> may_call op z
       then Some ([], z\<lparr>threads := (threads z)[i := \<lparr>th_op = op, th_data = dat, th_size = n, th_pc = Check First None None\<rparr>]\<rparr>)
       else None
   | Step i b \<Rightarrow>
       if i < length (threads z) then do {
         (es, c, t) \<leftarrow> thread_next b (cc z) (threads z ! i);
         Some (es, z\<lparr>cc := c, threads := (threads z)[i := t]\<rparr>)
       } else None)"

fun conc_run :: "move list \<Rightarrow> conc \<Rightarrow> (event list \<times> conc) option" where
  "conc_run [] z = Some ([], z)"
| "conc_run (m # ms) z = do {
     (es, z) \<leftarrow> conc_next m z;
     (es', z) \<leftarrow> conc_run ms z;
     Some (es @ es', z)
   }"

text \<open>The states a run goes through.\<close>

fun conc_states :: "move list \<Rightarrow> conc \<Rightarrow> conc list" where
  "conc_states [] z = [z]"
| "conc_states (m # ms) z = z # (case conc_next m z of None \<Rightarrow> [] | Some (es, z') \<Rightarrow> conc_states ms z')"

definition conc_init :: "nat \<Rightarrow> channel \<Rightarrow> conc" where
  "conc_init k c = \<lparr>cc = c, threads = replicate k \<lparr>th_op = Sending, th_data = [], th_size = 0, th_pc = Idle\<rparr>\<rparr>"

text \<open>Everybody exchanges messages of \<open>n\<close> bytes.\<close>

definition sized :: "uint \<Rightarrow> move \<Rightarrow> bool" where
  "sized n m = (case m of Call i op dat n' \<Rightarrow> n' = n \<and> unat n \<le> length dat | Step i b \<Rightarrow> True)"

definition sent :: "event list \<Rightarrow> byte list list" where
  "sent es = concat (map (\<lambda>e. case e of Sent m \<Rightarrow> [m] | Received _ \<Rightarrow> []) es)"

definition received :: "event list \<Rightarrow> byte list list" where
  "received es = concat (map (\<lambda>e. case e of Sent _ \<Rightarrow> [] | Received m \<Rightarrow> [m]) es)"

section \<open>Channels in use\<close>

text \<open>Everything but the locks of the invariant of \<^theory_text>\<open>Channel\<close> holds at all times.\<close>

definition unlocked :: "channel \<Rightarrow> channel" where
  "unlocked c = c\<lparr>ch_head_lock := False, ch_tail_lock := False\<rparr>"

definition ring_ok :: "channel \<Rightarrow> bool" where
  "ring_ok c \<longleftrightarrow> chan_inv (unlocked c)"

definition slot_of :: "channel \<Rightarrow> chan_op \<Rightarrow> nat" where
  "slot_of c op = (if channel_unbuffered c then 0
     else unat (case op of Sending \<Rightarrow> ch_tail c | Receiving \<Rightarrow> ch_head c))"

abbreviation message :: "channel \<Rightarrow> chan_op \<Rightarrow> byte list" where
  "message c op \<equiv> block (unat (ch_itemsize c)) (slot_of c op) (ch_buffer c)"

lemma unbuffered_upd [simp]:
  "channel_unbuffered (c\<lparr>ch_head := h\<rparr>) = channel_unbuffered c"
  "channel_unbuffered (c\<lparr>ch_tail := h\<rparr>) = channel_unbuffered c"
  "channel_unbuffered (c\<lparr>ch_buffer := bs\<rparr>) = channel_unbuffered c"
  "channel_unbuffered (c\<lparr>ch_head_lock := b\<rparr>) = channel_unbuffered c"
  "channel_unbuffered (c\<lparr>ch_tail_lock := b\<rparr>) = channel_unbuffered c"
  by (simp_all add: unbuffered_size)

lemma unlocked_simps [simp]:
  "ch_head (unlocked c) = ch_head c" "ch_tail (unlocked c) = ch_tail c" "ch_size (unlocked c) = ch_size c"
  "ch_itemsize (unlocked c) = ch_itemsize c" "ch_buffer (unlocked c) = ch_buffer c" "ch_impl (unlocked c) = ch_impl c"
  "channel_unbuffered (unlocked c) = channel_unbuffered c" "\<not> ch_head_lock (unlocked c)" "\<not> ch_tail_lock (unlocked c)"
  by (simp_all add: unlocked_def)

lemma unlocked_obs [simp]:
  "chan_slots (unlocked c) = chan_slots c" "chan_cap (unlocked c) = chan_cap c" "IS_FULL (unlocked c) = IS_FULL c"
  "IS_EMPTY (unlocked c) = IS_EMPTY c"
  by (simp_all add: chan_slots_def chan_cap_def IS_FULL_def NUM_ITEMS_def IS_EMPTY_def)

lemma ring_okD:
  assumes "ring_ok c"
  shows "ch_size c \<noteq> 0" "unat (ch_size c) \<le> 2 ^ 31" "length (ch_buffer c) = unat (ch_size c) * unat (ch_itemsize c)"
    "channel_unbuffered c \<Longrightarrow> ch_head c = 0 \<or> ch_head c = 1"
    "\<not> channel_unbuffered c \<Longrightarrow> unat (ch_head c) < unat (ch_size c) \<and> unat (ch_tail c) < unat (ch_size c)"
  using assms
  by (auto simp: ring_ok_def chan_inv_def word_less_nat_alt word_le_nat_alt word_unat_eq_iff le_Suc_eq)

lemma slots_le: "ring_ok c \<Longrightarrow> length (chan_slots c) \<le> chan_cap c"
  using length_slots_le [of "unlocked c"] by (simp add: ring_ok_def)

lemma refused_ring:
  assumes "ring_ok c"
  shows "refused Sending c = Some (\<not> length (chan_slots c) < chan_cap c)" "refused Receiving c = Some (chan_slots c = [])"
    "asserted Sending c = Some (length (chan_slots c) < chan_cap c)" "asserted Receiving c = Some (chan_slots c \<noteq> [])"
proof -
  show "refused Sending c = Some (\<not> length (chan_slots c) < chan_cap c)"
    "asserted Sending c = Some (length (chan_slots c) < chan_cap c)"
    using IS_FULL_ring [of "unlocked c"] ring_okD(4) [OF assms] slots_le [OF assms] assms
    by (auto simp: refused_def asserted_def ring_ok_def IS_FULL_UNBUF_def IS_EMPTY_UNBUF_def chan_slots_def chan_cap_def)
  show "refused Receiving c = Some (chan_slots c = [])" "asserted Receiving c = Some (chan_slots c \<noteq> [])"
    using IS_EMPTY_ring [of "unlocked c"] ring_okD(4) [OF assms] assms
    by (auto simp: refused_def asserted_def ring_ok_def IS_FULL_UNBUF_def IS_EMPTY_UNBUF_def chan_slots_def)
qed

lemma slot_less: "ring_ok c \<Longrightarrow> slot_of c op < unat (ch_size c)"
  using ring_okD(1,5) [of c] by (auto simp: slot_of_def unat_gt_0 split: chan_op.splits)

lemma offset_ring:
  assumes "ring_ok c"
  shows "copy_offset c op = slot_of c op * unat (ch_itemsize c)"
    "Suc (slot_of c op) * unat (ch_itemsize c) \<le> length (ch_buffer c)"
proof -
  show "Suc (slot_of c op) * unat (ch_itemsize c) \<le> length (ch_buffer c)"
    using slot_less [OF assms, of op] ring_okD(3) [OF assms] by (metis Suc_leI mult_le_mono1)
  show "copy_offset c op = slot_of c op * unat (ch_itemsize c)"
    using unat_offset(1) [of "unlocked c"] assms ring_okD(5) [OF assms]
    by (cases op) (auto simp: copy_offset_def slot_of_def ring_ok_def)
qed

lemma block_update:
  "k < w \<Longrightarrow> j \<noteq> i \<Longrightarrow> block w j (bs[i * w + k := x]) = block w j bs"
proof -
  assume k: "k < w" and j: "j \<noteq> i"
  show ?thesis
  proof (cases "j < i")
    case True
    then have "Suc j * w \<le> i * w" by (intro mult_le_mono1) simp
    then show ?thesis by (simp add: block_def drop_update_swap)
  next
    case False
    with j have "Suc i * w \<le> j * w" by (intro mult_le_mono1) simp
    with k show ?thesis by (simp add: block_def drop_update_cancel)
  qed
qed

lemma slots_other:
  assumes "ring_ok c" "length (chan_slots c) < chan_cap c" "chan_slots c \<noteq> []"
  shows "slot_of c Receiving \<noteq> slot_of c Sending"
  using assms(2,3) ring_okD(5) [OF assms(1)]
  by (auto simp: slot_of_def chan_slots_def chan_cap_def ring_items_Nil word_unat_eq_iff split: if_splits)

lemma write_slots:
  fixes c k x
  defines "c' \<equiv> c\<lparr>ch_buffer := (ch_buffer c)[slot_of c Sending * unat (ch_itemsize c) + k := x]\<rparr>"
  assumes "ring_ok c" "length (chan_slots c) < chan_cap c" "k < unat (ch_itemsize c)"
  shows "ring_ok c'" "chan_slots c' = chan_slots c" "chan_slots c \<noteq> [] \<Longrightarrow> message c' Receiving = message c Receiving"
proof -
  have s: "slot_of c' op = slot_of c op" for op by (cases op) (simp_all add: c'_def slot_of_def)
  have o: "block (unat (ch_itemsize c)) j (ch_buffer c') = block (unat (ch_itemsize c)) j (ch_buffer c)" if "j \<noteq> slot_of c Sending" for j
    unfolding c'_def using block_update [OF assms(4) that] by simp
  show "ring_ok c'" using assms(2) by (auto simp: c'_def ring_ok_def chan_inv_def)
  show "chan_slots c \<noteq> [] \<Longrightarrow> message c' Receiving = message c Receiving"
    using o [OF slots_other [OF assms(2,3)]] s by (simp add: c'_def)
  show "chan_slots c' = chan_slots c"
  proof (cases "channel_unbuffered c")
    case True
    then show ?thesis using assms(3) by (simp add: chan_slots_def chan_cap_def c'_def split: if_splits)
  next
    case False
    then have b: "unat (ch_head c) < unat (ch_size c)" "unat (ch_tail c) < unat (ch_size c)" using ring_okD(5) [OF assms(2)] by auto
    have "slot_of c Sending = unat (ch_tail c)" using False by (simp add: slot_of_def)
    with ring_index_inj [OF b] o show ?thesis
      using False by (auto simp: chan_slots_def c'_def Let_def intro!: ring_items_cong)
  qed
qed

lemma next_index_ring:
  assumes "ring_ok c"
  shows "next_index c op = Some (if channel_unbuffered c then (case op of Sending \<Rightarrow> 1 | Receiving \<Rightarrow> 0)
    else ((case op of Sending \<Rightarrow> ch_tail c | Receiving \<Rightarrow> ch_head c) + 1) mod ch_size c)"
  using ring_okD(1) [OF assms] by (cases op) (auto simp: next_index_def INC_def)

lemma publish_send:
  assumes "ring_ok c" "length (chan_slots c) < chan_cap c" "next_index c Sending = Some i"
  shows "ring_ok (set_index c Sending i)" "chan_slots (set_index c Sending i) = chan_slots c @ [message c Sending]"
proof -
  have i: "i = (if channel_unbuffered c then 1 else (ch_tail c + 1) mod ch_size c)"
    using assms(3) next_index_ring [OF assms(1), of Sending] by (auto split: if_splits)
  have n: "0 < unat (ch_size c)" using ring_okD(1) [OF assms(1)] by (simp add: unat_gt_0)
  have t: "unat ((ch_tail c + 1) mod ch_size c) = Suc (unat (ch_tail c)) mod unat (ch_size c)" if "\<not> channel_unbuffered c"
    using ring_okD(5) [OF assms(1) that] unat_Suc_less [of "ch_tail c" "ch_size c"] by (auto simp: unat_mod word_less_nat_alt)
  show "ring_ok (set_index c Sending i)"
    using assms(1) i n t by (auto simp: ring_ok_def chan_inv_def set_index_def word_less_nat_alt)
  show "chan_slots (set_index c Sending i) = chan_slots c @ [message c Sending]"
  proof (cases "channel_unbuffered c")
    case True
    then show ?thesis using assms(2) i by (simp add: chan_slots_def chan_cap_def set_index_def slot_of_def split: if_splits)
  next
    case False
    then show ?thesis
      using assms(2) i t ring_okD(5) [OF assms(1) False]
        ring_items_put [of "unat (ch_head c)" "unat (ch_size c)" "unat (ch_tail c)" "\<lambda>i. block (unat (ch_itemsize c)) i (ch_buffer c)"]
      by (simp add: chan_slots_def chan_cap_def set_index_def slot_of_def Let_def)
  qed
qed

lemma publish_receive:
  assumes "ring_ok c" "chan_slots c \<noteq> []" "next_index c Receiving = Some i"
  shows "ring_ok (set_index c Receiving i)" "chan_slots c = message c Receiving # chan_slots (set_index c Receiving i)"
proof -
  have i: "i = (if channel_unbuffered c then 0 else (ch_head c + 1) mod ch_size c)"
    using assms(3) next_index_ring [OF assms(1), of Receiving] by (auto split: if_splits)
  have n: "0 < unat (ch_size c)" using ring_okD(1) [OF assms(1)] by (simp add: unat_gt_0)
  have h: "unat ((ch_head c + 1) mod ch_size c) = Suc (unat (ch_head c)) mod unat (ch_size c)" if "\<not> channel_unbuffered c"
    using ring_okD(5) [OF assms(1) that] unat_Suc_less [of "ch_head c" "ch_size c"] by (auto simp: unat_mod word_less_nat_alt)
  show "ring_ok (set_index c Receiving i)"
    using assms(1) i n h by (auto simp: ring_ok_def chan_inv_def set_index_def word_less_nat_alt)
  show "chan_slots c = message c Receiving # chan_slots (set_index c Receiving i)"
  proof (cases "channel_unbuffered c")
    case True
    then show ?thesis using assms(2) i by (simp add: chan_slots_def set_index_def slot_of_def split: if_splits)
  next
    case False
    then show ?thesis
      using assms(2) i h ring_okD(5) [OF assms(1) False]
        ring_items_get [of "unat (ch_head c)" "unat (ch_size c)" "unat (ch_tail c)" "\<lambda>i. block (unat (ch_itemsize c)) i (ch_buffer c)"]
      by (auto simp: chan_slots_def set_index_def slot_of_def Let_def ring_items_Nil)
  qed
qed

section \<open>The invariant of the threads\<close>

text \<open>How many messages the indices stand for, whatever the buffer holds.\<close>

definition fill_count :: "channel \<Rightarrow> nat" where
  "fill_count c = (if channel_unbuffered c then (if ch_head c = 1 then 1 else 0)
     else ring_len (unat (ch_size c)) (unat (ch_head c)) (unat (ch_tail c)))"

lemma length_slots [simp]: "length (chan_slots c) = fill_count c"
  by (simp add: chan_slots_def fill_count_def Let_def)

lemma slots_Nil [simp]: "chan_slots c = [] \<longleftrightarrow> fill_count c = 0"
  using length_slots [of c] by (metis length_0_conv)

definition available :: "chan_op \<Rightarrow> channel \<Rightarrow> bool" where
  "available op c = (case op of Sending \<Rightarrow> fill_count c < chan_cap c | Receiving \<Rightarrow> 0 < fill_count c)"

text \<open>
  What a thread has read is out of date in one direction only: a sender sees at least as many
  messages as there are, a receiver at most as many.
\<close>

definition view_ok :: "bool \<Rightarrow> chan_op \<Rightarrow> channel \<Rightarrow> uint option \<Rightarrow> uint option \<Rightarrow> bool" where
  "view_ok strict op c rh rt \<longleftrightarrow> ring_ok (seen c rh rt) \<and> (strict \<longrightarrow> available op (seen c rh rt)) \<and>
     (channel_unbuffered c \<longrightarrow> rt = None) \<and> (case op of
       Sending \<Rightarrow> (\<forall>t. rt = Some t \<longrightarrow> t = ch_tail c) \<and> fill_count c \<le> fill_count (seen c rh rt)
     | Receiving \<Rightarrow> (\<forall>h. rh = Some h \<longrightarrow> \<not> channel_unbuffered c \<longrightarrow> h = ch_head c) \<and>
         fill_count (seen c rh rt) \<le> fill_count c)"

definition copied :: "channel \<Rightarrow> chan_op \<Rightarrow> byte list \<Rightarrow> nat \<Rightarrow> bool" where
  "copied c op dat k \<longleftrightarrow> (\<forall>i<k. ch_buffer c ! (slot_of c op * unat (ch_itemsize c) + i) = dat ! i)"

definition pc_ok :: "uint \<Rightarrow> channel \<Rightarrow> chan_thread \<Rightarrow> bool" where
  "pc_ok n c t \<longleftrightarrow> (case th_pc t of
     Check ph rh rt \<Rightarrow>
       if ph = Asserting then available (th_op t) c \<and> view_ok True (th_op t) c rh rt
       else if ph = Final then fill_count c = 0 \<and> rh \<in> {None, Some 0}
       else view_ok False (th_op t) c rh rt
   | Copy off k \<Rightarrow> available (th_op t) c \<and> off = slot_of c (th_op t) * unat (ch_itemsize c) \<and> k \<le> unat n \<and>
       copied c (th_op t) (th_data t) k
   | Publish i \<Rightarrow> available (th_op t) c \<and> next_index c (th_op t) = Some i \<and> copied c (th_op t) (th_data t) (unat n)
   | _ \<Rightarrow> True)"

definition thread_wf :: "uint \<Rightarrow> channel \<Rightarrow> chan_thread \<Rightarrow> bool" where
  "thread_wf n c t \<longleftrightarrow> th_pc t \<noteq> Aborted \<and> (active t \<longrightarrow> th_size t = n \<and> unat n \<le> length (th_data t)) \<and>
     (case th_pc t of
        Check ph rh rt \<Rightarrow> (channel_unbuffered c \<longrightarrow> rt = None) \<and>
          (ph = Second \<longrightarrow> uses_lock c (th_op t)) \<and>
          (ph = Final \<longrightarrow> uses_lock c (th_op t) \<and> th_op t = Receiving \<and> channel_unbuffered c)
      | Lock \<Rightarrow> uses_lock c (th_op t)
      | Unlock r \<Rightarrow> uses_lock c (th_op t)
      | _ \<Rightarrow> True)"

text \<open>Where a thread has the end of the channel it works on for itself.\<close>

definition region :: "channel \<Rightarrow> chan_thread \<Rightarrow> bool" where
  "region c t \<longleftrightarrow> active t \<and> (case th_pc t of
     Check ph rh rt \<Rightarrow> ph = First \<longrightarrow> \<not> uses_lock c (th_op t)
   | Lock \<Rightarrow> False
   | _ \<Rightarrow> True)"

definition conflict :: "channel \<Rightarrow> chan_op \<Rightarrow> chan_op \<Rightarrow> bool" where
  "conflict c op op' \<longleftrightarrow> op = op' \<or> uses_lock c op \<and> uses_lock c op' \<and> channel_unbuffered c"

text \<open>What a thread relies on while others move.\<close>

definition static_eq :: "channel \<Rightarrow> channel \<Rightarrow> bool" where
  "static_eq c c' \<longleftrightarrow> ch_impl c' = ch_impl c \<and> ch_size c' = ch_size c \<and> ch_itemsize c' = ch_itemsize c"

definition relies :: "chan_op \<Rightarrow> channel \<Rightarrow> channel \<Rightarrow> bool" where
  "relies op c c' \<longleftrightarrow> static_eq c c' \<and> ring_ok c' \<and> (case op of
     Sending \<Rightarrow> ch_tail c' = ch_tail c \<and> ch_buffer c' = ch_buffer c \<and> fill_count c' \<le> fill_count c
   | Receiving \<Rightarrow> (channel_unbuffered c \<longrightarrow> ch_tail c' = ch_tail c) \<and>
       (\<not> channel_unbuffered c \<longrightarrow> ch_head c' = ch_head c) \<and> length (ch_buffer c') = length (ch_buffer c) \<and>
       fill_count c \<le> fill_count c' \<and> (0 < fill_count c \<longrightarrow> (\<forall>i < unat (ch_itemsize c).
         ch_buffer c' ! (slot_of c Receiving * unat (ch_itemsize c) + i) =
         ch_buffer c ! (slot_of c Receiving * unat (ch_itemsize c) + i))))"

lemma static_eqD:
  assumes "static_eq c c'"
  shows "ch_impl c' = ch_impl c" "ch_size c' = ch_size c" "ch_itemsize c' = ch_itemsize c"
    "channel_unbuffered c' = channel_unbuffered c" "uses_lock c' op = uses_lock c op"
    "chan_cap c' = chan_cap c" "head_locked c' op = head_locked c op" "conflict c' op op' = conflict c op op'"
  using assms by (auto simp: static_eq_def unbuffered_size uses_lock_def chan_cap_def head_locked_def conflict_def split: chan_op.splits)

lemma seen_simps [simp]:
  "channel_unbuffered (seen c rh rt) = channel_unbuffered c" "chan_cap (seen c rh rt) = chan_cap c"
  "seen c None None = c"
  by (simp_all add: seen_def unbuffered_size chan_cap_def)

lemma seen_fields [simp]:
  "ch_size (seen c rh rt) = ch_size c" "ch_impl (seen c rh rt) = ch_impl c" "ch_itemsize (seen c rh rt) = ch_itemsize c"
  "ch_buffer (seen c rh rt) = ch_buffer c"
  by (simp_all add: seen_def)

lemma same_indices:
  assumes "static_eq c c'" "ch_head c' = ch_head c" "ch_tail c' = ch_tail c" "length (ch_buffer c') = length (ch_buffer c)"
  shows "fill_count c' = fill_count c" "ring_ok c' = ring_ok c" "available op c' = available op c"
  using assms static_eqD [OF assms(1)]
  by (simp_all add: fill_count_def ring_ok_def chan_inv_def available_def split: chan_op.splits)

lemma view_ok_stable:
  assumes "relies op c c'" "view_ok s op c rh rt" "s \<longrightarrow> available op c"
  shows "view_ok s op c' rh rt"
proof -
  have r: "static_eq c c'" "ring_ok c'" "length (ch_buffer c') = length (ch_buffer c)"
    using assms(1) by (auto simp: relies_def split: chan_op.splits)
  have un: "channel_unbuffered c' = channel_unbuffered c" "chan_cap c' = chan_cap c" using static_eqD [OF r(1)] by simp_all
  have av: "available op c'" if "available op c"
    using assms(1) that un by (auto simp: relies_def available_def split: chan_op.splits)
  have old: "fill_count (seen c' rh rt) = fill_count (seen c rh rt)" "ring_ok (seen c' rh rt) = ring_ok (seen c rh rt)"
    "available op (seen c' rh rt) = available op (seen c rh rt)"
    if "ch_head (seen c' rh rt) = ch_head (seen c rh rt)" "ch_tail (seen c' rh rt) = ch_tail (seen c rh rt)"
    using that same_indices [of "seen c rh rt" "seen c' rh rt"] r by (simp_all add: static_eq_def)
  have new: ?thesis if "seen c' rh rt = c'"
    using that assms av un r by (auto simp: view_ok_def relies_def split: chan_op.splits)
  have stale: ?thesis if "ch_head (seen c' rh rt) = ch_head (seen c rh rt)" "ch_tail (seen c' rh rt) = ch_tail (seen c rh rt)"
    using old [OF that] assms(1,2) un by (auto simp: view_ok_def relies_def split: chan_op.splits)
  show ?thesis
  proof (cases op)
    case Sending
    then show ?thesis
    proof (cases rh)
      case None
      have "seen c' rh rt = c'" using Sending None assms(1,2) by (cases rt) (auto simp: seen_def relies_def view_ok_def)
      then show ?thesis by (rule new)
    next
      case (Some h)
      then show ?thesis using Sending assms(1,2) by (intro stale) (cases rt; auto simp: seen_def relies_def view_ok_def)+
    qed
  next
    case Receiving
    show ?thesis
    proof (cases "(channel_unbuffered c \<and> rh \<noteq> None) \<or> rt \<noteq> None")
      case True
      then show ?thesis using Receiving assms(1,2)
        by (intro stale) (cases rt; cases rh; auto simp: seen_def relies_def view_ok_def)+
    next
      case False
      then have "seen c' rh rt = c'" using Receiving assms(1,2) by (cases rh) (auto simp: seen_def relies_def view_ok_def)
      then show ?thesis by (rule new)
    qed
  qed
qed

lemma index_stable:
  assumes "relies op c c'"
  shows "slot_of c' op = slot_of c op" "next_index c' op = next_index c op" "ch_itemsize c' = ch_itemsize c"
  using assms static_eqD [of c c']
  by (auto simp: relies_def slot_of_def next_index_def split: chan_op.splits)

lemma available_stable: "relies op c c' \<Longrightarrow> available op c \<Longrightarrow> available op c'"
  using static_eqD(6) [of c c'] by (auto simp: relies_def available_def split: chan_op.splits)

lemma copied_stable:
  "relies op c c' \<Longrightarrow> available op c \<Longrightarrow> k \<le> unat (ch_itemsize c) \<Longrightarrow> copied c op dat k \<Longrightarrow> copied c' op dat k"
  by (cases op) (simp_all add: copied_def index_stable, auto simp: relies_def available_def)

lemma pc_ok_stable:
  assumes "relies (th_op t) c c'" "pc_ok n c t" "n \<le> ch_itemsize c" "\<And>rh rt. th_pc t \<noteq> Check Final rh rt"
  shows "pc_ok n c' t"
proof -
  have n: "unat n \<le> unat (ch_itemsize c)" using assms(3) by (simp add: word_le_nat_alt)
  show ?thesis
  proof (cases "th_pc t")
    case (Check ph rh rt)
    then show ?thesis using assms view_ok_stable [OF assms(1)] available_stable [OF assms(1)]
      by (auto simp: pc_ok_def split: if_splits)
  next
    case (Copy off k)
    then show ?thesis
      using assms(2) n available_stable [OF assms(1)] copied_stable [OF assms(1)] by (auto simp: pc_ok_def index_stable [OF assms(1)])
  next
    case (Publish i)
    then show ?thesis
      using assms(2) n available_stable [OF assms(1)] copied_stable [OF assms(1)] by (auto simp: pc_ok_def index_stable [OF assms(1)])
  qed (simp_all add: pc_ok_def)
qed

text \<open>Steps that touch at most the locks.\<close>

lemma quietD:
  assumes "unlocked c' = unlocked c"
  shows "static_eq c c'" "ring_ok c' = ring_ok c" "chan_slots c' = chan_slots c" "ch_head c' = ch_head c" "ch_tail c' = ch_tail c"
    "ch_buffer c' = ch_buffer c" "fill_count c' = fill_count c" "ring_ok c \<Longrightarrow> relies op c c'"
proof -
  show e: "static_eq c c'" "ch_head c' = ch_head c" "ch_tail c' = ch_tail c" "ch_buffer c' = ch_buffer c"
    using assms unlocked_simps(1-6) by (metis static_eq_def)+
  show "ring_ok c' = ring_ok c" using assms by (simp add: ring_ok_def)
  show "chan_slots c' = chan_slots c" using assms unlocked_obs(1) by metis
  show o: "fill_count c' = fill_count c" by (rule same_indices) (simp_all add: e)
  show "relies op c c'" if "ring_ok c"
    using that e o assms by (cases op) (auto simp: relies_def ring_ok_def)
qed

lemma pc_ok_quiet:
  assumes "unlocked c' = unlocked c" "pc_ok n c t" "n \<le> ch_itemsize c" "ring_ok c"
  shows "pc_ok n c' t"
proof (cases "\<exists>rh rt. th_pc t = Check Final rh rt")
  case True
  then show ?thesis using assms(2) quietD(7) [OF assms(1)] by (auto simp: pc_ok_def)
next
  case False
  then show ?thesis using pc_ok_stable [OF quietD(8) [OF assms(1,4)] assms(2,3)] by blast
qed

lemma unlocked_set_lock [simp]: "unlocked (set_lock c op b) = unlocked c"
  by (cases c) (simp add: set_lock_def unlocked_def)

section \<open>Steps of one thread\<close>

text \<open>Tests read the memory and decide; what they decide on is out of date on the safe side.\<close>

lemma decide_wf:
  assumes "ring_ok c" "th_size t = n" "n \<le> ch_itemsize c" "unat n \<le> length (th_data t)" "ch_size c \<noteq> 0"
    "thread_wf n c t" "th_pc t = Check ph rh rt" "region c t \<longrightarrow> pc_ok n c t"
  shows "thread_wf n c (t\<lparr>th_pc := decide ph c (seen c rh rt) t\<rparr>)" (is ?A)
    "region c (t\<lparr>th_pc := decide ph c (seen c rh rt) t\<rparr>) \<longrightarrow> pc_ok n c (t\<lparr>th_pc := decide ph c (seen c rh rt) t\<rparr>)" (is ?B)
proof -
  have ref: "\<exists>b. refused (th_op t) (seen c rh rt) = Some b"
    using assms(5) by (cases "th_op t") (auto simp: refused_def IS_FULL_def NUM_ITEMS_def)
  have view: "ring_ok (seen c rh rt)" "available (th_op t) (seen c rh rt) \<longrightarrow> available (th_op t) c"
    if "view_ok s (th_op t) c rh rt" for s
    using that by (auto simp: view_ok_def available_def split: chan_op.splits)
  have refv: "refused (th_op t) (seen c rh rt) = Some (\<not> available (th_op t) (seen c rh rt))"
    "asserted (th_op t) (seen c rh rt) = Some (available (th_op t) (seen c rh rt))"
    if "ring_ok (seen c rh rt)"
    using refused_ring [OF that] by (cases "th_op t"; simp add: available_def)+
  have start: "view_ok s (th_op t) c None None" if "s \<longrightarrow> available (th_op t) c" for s
    using that assms(1) by (simp add: view_ok_def split: chan_op.splits)
  have go: "copied c op dat 0" for op dat by (simp add: copied_def)
  show ?A ?B
  proof (atomize(full), cases ph)
    case First
    then show "?A \<and> ?B"
    proof (cases "uses_lock c (th_op t)")
      case True
      with First ref assms show ?thesis
        by (auto simp: decide_def thread_wf_def active_def region_def split: if_splits)
    next
      case False
      then have "view_ok False (th_op t) c rh rt" using assms First by (auto simp: region_def active_def pc_ok_def)
      then show ?thesis using First False ref refv [OF view(1)] view(2) assms start
        by (auto simp: decide_def thread_wf_def active_def region_def pc_ok_def)
    qed
  next
    case Second
    then have "view_ok False (th_op t) c rh rt" using assms by (auto simp: region_def active_def pc_ok_def)
    then show "?A \<and> ?B" using Second ref refv [OF view(1)] view(2) assms start
      by (auto simp: decide_def thread_wf_def active_def region_def pc_ok_def)
  next
    case Asserting
    then have "view_ok True (th_op t) c rh rt" "available (th_op t) c" using assms by (auto simp: region_def active_def pc_ok_def)
    moreover from this(1) have "available (th_op t) (seen c rh rt)" by (simp add: view_ok_def)
    ultimately show "?A \<and> ?B" using Asserting refv(2) [OF view(1)] assms go offset_ring(1) [OF assms(1)]
      by (auto simp: decide_def thread_wf_def active_def region_def pc_ok_def)
  next
    case Final
    then have "fill_count c = 0" "rh \<in> {None, Some 0}" "channel_unbuffered c" "uses_lock c (th_op t)"
      using assms by (auto simp: region_def active_def pc_ok_def thread_wf_def)
    moreover from this have "ch_head c = 0" using ring_okD(4) [OF assms(1)] by (auto simp: fill_count_def)
    ultimately show "?A \<and> ?B" using Final assms
      by (auto simp: decide_def thread_wf_def active_def region_def pc_ok_def IS_EMPTY_UNBUF_def seen_def)
  qed
qed

definition other :: "chan_op \<Rightarrow> chan_op" where
  "other op = (case op of Sending \<Rightarrow> Receiving | Receiving \<Rightarrow> Sending)"

text \<open>The effect of a step on the messages of the channel and on the other end.\<close>

definition step_ok :: "uint \<Rightarrow> channel \<Rightarrow> chan_thread \<Rightarrow> event list \<Rightarrow> channel \<Rightarrow> chan_thread \<Rightarrow> bool" where
  "step_ok n c t es c' t' \<longleftrightarrow> th_op t' = th_op t \<and> thread_wf n c' t' \<and> (region c' t' \<longrightarrow> pc_ok n c' t') \<and>
     chan_items n c @ sent es = received es @ chan_items n c' \<and> ring_ok c' \<and>
     (unlocked c' = unlocked c \<or> region c t \<and> relies (other (th_op t)) c c' \<and>
        ch_head_lock c' = ch_head_lock c \<and> ch_tail_lock c' = ch_tail_lock c)"

lemma quiet_step:
  assumes "unlocked c' = unlocked c" "ring_ok c" "th_op t' = th_op t" "thread_wf n c' t'" "region c' t' \<longrightarrow> pc_ok n c' t'"
  shows "step_ok n c t [] c' t'"
  using assms quietD [OF assms(1)] by (simp add: step_ok_def sent_def received_def chan_items_def)

lemma check_step:
  assumes "ring_ok c" "n \<le> ch_itemsize c" "thread_wf n c t" "region c t \<longrightarrow> pc_ok n c t" "th_pc t = Check ph rh rt"
    "thread_next b c t = Some (es, c', t')"
  shows "step_ok n c t es c' t'"
proof -
  have t: "th_size t = n" "unat n \<le> length (th_data t)" "channel_unbuffered c \<longrightarrow> rt = None"
    using assms(3,5) by (auto simp: thread_wf_def active_def)
  define p where "p = (if rh = None \<and> (b \<or> rt \<noteq> None \<or> channel_unbuffered c) then Check ph (Some (ch_head c)) rt
      else if rt = None \<and> \<not> channel_unbuffered c then Check ph rh (Some (ch_tail c)) else decide ph c (seen c rh rt) t)"
  have "thread_next b c t = Some ([], c, t\<lparr>th_pc := p\<rparr>)" by (simp add: thread_next_def assms(5) p_def)
  then have e: "es = []" "c' = c" "t' = t\<lparr>th_pc := p\<rparr>" using assms(6) by simp_all
  consider (head) "rh = None" "p = Check ph (Some (ch_head c)) rt"
    | (tail) "rt = None" "\<not> channel_unbuffered c" "p = Check ph rh (Some (ch_tail c))"
    | (decided) "p = decide ph c (seen c rh rt) t"
    unfolding p_def by (cases "rh = None \<and> (b \<or> rt \<noteq> None \<or> channel_unbuffered c)"; cases "rt = None \<and> \<not> channel_unbuffered c") auto
  then show ?thesis
  proof cases
    case head
    have v: "view_ok s (th_op t) c (Some (ch_head c)) rt" if "view_ok s (th_op t) c None rt" for s
    proof -
      have "seen c (Some (ch_head c)) rt = seen c None rt" by (simp add: seen_def)
      then show ?thesis using that by (auto simp: view_ok_def split: chan_op.splits)
    qed
    have "fill_count c = 0 \<Longrightarrow> channel_unbuffered c \<Longrightarrow> ch_head c = 0"
      using ring_okD(4) [OF assms(1)] by (auto simp: fill_count_def)
    then show ?thesis unfolding e(1,2) using head e(3) assms v
      by (intro quiet_step) (auto simp: thread_wf_def active_def region_def pc_ok_def)
  next
    case tail
    have v: "view_ok s (th_op t) c rh (Some (ch_tail c))" if "view_ok s (th_op t) c rh None" for s
    proof -
      have "seen c rh (Some (ch_tail c)) = seen c rh None" by (simp add: seen_def)
      then show ?thesis using that tail(2) by (auto simp: view_ok_def split: chan_op.splits)
    qed
    then show ?thesis unfolding e(1,2) using tail e(3) assms
      by (intro quiet_step) (auto simp: thread_wf_def active_def region_def pc_ok_def)
  next
    case decided
    then show ?thesis unfolding e(1,2)
      using decide_wf [OF assms(1) t(1) assms(2) t(2) ring_okD(1) [OF assms(1)] assms(3,5,4)] assms(1) e(3)
      by (intro quiet_step) auto
  qed
qed

lemma lock_step:
  assumes "ring_ok c" "n \<le> ch_itemsize c" "thread_wf n c t" "th_pc t = Lock \<or> th_pc t = Unlock r"
    "thread_next b c t = Some (es, c', t')"
  shows "step_ok n c t es c' t'"
proof -
  have e: "es = []" "unlocked c' = unlocked c" "th_op t' = th_op t"
    "th_pc t' = Check Second None None \<and> th_pc t = Lock \<or> th_pc t' = Done r" "th_size t' = th_size t" "th_data t' = th_data t"
    using assms(4,5) by (auto simp: thread_next_def split: if_splits)
  note q = quietD [OF e(2)] and st = static_eqD [OF quietD(1) [OF e(2)]]
  have "ring_ok c'" using q(2) assms(1) by simp
  then have v: "view_ok False op c' None None" for op by (simp add: view_ok_def split: chan_op.splits)
  have "thread_wf n c' t'" "region c' t' \<longrightarrow> pc_ok n c' t'"
    using e(3-) assms(3) st v by (auto simp: thread_wf_def active_def region_def pc_ok_def)
  then show ?thesis using e assms(1) quiet_step [OF e(2) assms(1) e(3)] by simp
qed

lemma slot_index_inj:
  "i * w + k = j * w + l \<Longrightarrow> k < w \<Longrightarrow> l < w \<Longrightarrow> i = (j :: nat)"
  by (metis div_mult_self3 less_nat_zero_code div_less add.commute add.right_neutral)

lemma write_relies:
  assumes "ring_ok c" "available Sending c" "k < unat (ch_itemsize c)"
    and c': "c' = c\<lparr>ch_buffer := (ch_buffer c)[slot_of c Sending * unat (ch_itemsize c) + k := x]\<rparr>"
  shows "relies Receiving c c'"
proof -
  have a: "length (chan_slots c) < chan_cap c" using assms(2) by (simp add: available_def)
  note w = write_slots [OF assms(1) a assms(3), of x, folded c']
  have o: "fill_count c' = fill_count c" using w(2) length_slots by metis
  have "slot_of c Sending * unat (ch_itemsize c) + k \<noteq> slot_of c Receiving * unat (ch_itemsize c) + i"
    if "i < unat (ch_itemsize c)" "0 < fill_count c" for i
    using slots_other [OF assms(1) a] that slot_index_inj assms(3) by (metis slots_Nil less_numeral_extra(3))
  then show ?thesis using w(1) o by (simp add: relies_def static_eq_def c')
qed

lemma copy_step:
  assumes "ring_ok c" "n \<le> ch_itemsize c" "thread_wf n c t" "region c t \<longrightarrow> pc_ok n c t" "th_pc t = Copy off k"
    "thread_next b c t = Some (es, c', t')"
  shows "step_ok n c t es c' t'"
proof -
  have r: "region c t" "th_size t = n" "unat n \<le> length (th_data t)"
    using assms(3,5) by (auto simp: region_def active_def thread_wf_def)
  have p: "available (th_op t) c" "off = slot_of c (th_op t) * unat (ch_itemsize c)" "k \<le> unat n" "copied c (th_op t) (th_data t) k"
    using assms(4,5) r(1) by (auto simp: pc_ok_def)
  have n: "unat n \<le> unat (ch_itemsize c)" using assms(2) by (simp add: word_le_nat_alt)
  show ?thesis
  proof (cases "k < unat n")
    case False
    then obtain i where i: "next_index c (th_op t) = Some i" "es = []" "c' = c" "t' = t\<lparr>th_pc := Publish i\<rparr>"
      using assms(5,6) r(2) next_index_ring [OF assms(1), of "th_op t"] by (auto simp: thread_next_def)
    then show ?thesis using False p r assms(1)
      by (auto intro!: quiet_step simp: thread_wf_def active_def pc_ok_def)
  next
    case True
    have fits: "off + k < length (ch_buffer c)" "k < length (th_data t)"
      using True n r(3) offset_ring(2) [OF assms(1), of "th_op t"] p(2) by auto
    show ?thesis
    proof (cases "th_op t")
      case Receiving
      then have e: "es = []" "c' = c" "t' = t\<lparr>th_data := (th_data t)[k := ch_buffer c ! (off + k)], th_pc := Copy off (Suc k)\<rparr>"
        using assms(5,6) r(2) True fits by (auto simp: thread_next_def copy_byte_def)
      have "copied c Receiving (th_data t') (Suc k)"
        using p(2,4) fits(2) Receiving by (auto simp: copied_def e(3) less_Suc_eq nth_list_update)
      then show ?thesis using e p r True assms(1) Receiving
        by (auto intro!: quiet_step simp: thread_wf_def active_def pc_ok_def)
    next
      case Sending
      let ?c = "c\<lparr>ch_buffer := (ch_buffer c)[off + k := th_data t ! k]\<rparr>"
      have e: "es = []" "c' = ?c" "t' = t\<lparr>th_pc := Copy off (Suc k)\<rparr>"
        using assms(5,6) r(2) True fits Sending by (auto simp: thread_next_def copy_byte_def)
      have off: "off = slot_of c Sending * unat (ch_itemsize c)" and a: "length (chan_slots c) < chan_cap c"
        using p Sending by (auto simp: available_def)
      have k: "k < unat (ch_itemsize c)" using True n by simp
      note w = write_slots [OF assms(1) a k, of "th_data t ! k", folded off] and
        rel = write_relies [OF assms(1) _ k, of ?c "th_data t ! k"]
      have rel: "relies Receiving c ?c" using rel p Sending off by simp
      have s: "slot_of ?c Sending = slot_of c Sending" by (simp add: slot_of_def)
      have "available Sending ?c" using a w(2) length_slots [of ?c] by (auto simp: available_def chan_cap_def)
      moreover have "copied ?c Sending (th_data t) (Suc k)"
        using p(4) fits(1) Sending off s by (auto simp: copied_def less_Suc_eq nth_list_update)
      ultimately have "pc_ok n ?c t'" using e(3) True off s Sending by (simp add: pc_ok_def)
      then show ?thesis using e(1,3) r w rel Sending
        by (simp add: e(2) step_ok_def thread_wf_def active_def sent_def received_def chan_items_def other_def)
    qed
  qed
qed

lemma copied_message:
  assumes "ring_ok c" "copied c op dat (unat n)" "n \<le> ch_itemsize c" "unat n \<le> length dat"
  shows "take (unat n) (message c op) = take (unat n) dat"
proof (rule nth_equalityI)
  have n: "unat n \<le> unat (ch_itemsize c)" using assms(3) by (simp add: word_le_nat_alt)
  have l: "slot_of c op * unat (ch_itemsize c) + unat (ch_itemsize c) \<le> length (ch_buffer c)"
    using offset_ring(2) [OF assms(1), of op] by simp
  then show "length (take (unat n) (message c op)) = length (take (unat n) dat)" using n assms(4) by (simp add: block_def)
  fix i assume "i < length (take (unat n) (message c op))"
  then have "i < unat n" by simp
  then show "take (unat n) (message c op) ! i = take (unat n) dat ! i"
    using assms(2) n l by (simp add: block_def copied_def)
qed

lemma publish_step:
  assumes "ring_ok c" "n \<le> ch_itemsize c" "thread_wf n c t" "region c t \<longrightarrow> pc_ok n c t" "th_pc t = Publish i"
    "thread_next b c t = Some (es, c', t')"
  shows "step_ok n c t es c' t'"
proof -
  have r: "region c t" "th_size t = n" "unat n \<le> length (th_data t)"
    using assms(3,5) by (auto simp: region_def active_def thread_wf_def)
  have p: "available (th_op t) c" "next_index c (th_op t) = Some i" "copied c (th_op t) (th_data t) (unat n)"
    using assms(4,5) r(1) by (auto simp: pc_ok_def)
  note m = copied_message [OF assms(1) p(3) assms(2) r(3)]
  let ?m = "take (unat n) (th_data t)"
  have e: "es = [case th_op t of Sending \<Rightarrow> Sent ?m | Receiving \<Rightarrow> Received ?m]" "c' = set_index c (th_op t) i"
    "th_op t' = th_op t" "th_pc t' = (if \<not> uses_lock c (th_op t) then Done True
            else if th_op t = Receiving \<and> channel_unbuffered c then Check Final None None else Unlock True)"
    "th_size t' = n" "th_data t' = th_data t"
    using assms(5,6) r(2) by (auto simp: thread_next_def Let_def)
  have st: "static_eq c c'" "ch_head_lock c' = ch_head_lock c" "ch_tail_lock c' = ch_tail_lock c" "ch_buffer c' = ch_buffer c"
    by (auto simp: e(2) set_index_def static_eq_def)
  have wf: "thread_wf n c' t'" using e(3-6) r(3) static_eqD [OF st(1)] by (auto simp: thread_wf_def active_def)
  show ?thesis
  proof (cases "th_op t")
    case Sending
    note ps = publish_send [OF assms(1) _ p(2) [unfolded Sending]]
    have a: "length (chan_slots c) < chan_cap c" using p(1) Sending by (simp add: available_def)
    have i: "chan_items n c' = chan_items n c @ [?m]" using ps(2) [OF a] m Sending e(2) by (simp add: chan_items_def)
    have o: "fill_count c \<le> fill_count c'" using ps(2) [OF a] e(2) Sending length_slots by (metis append_is_Nil_conv length_append le_add1)
    have "relies Receiving c c'"
      using ps(1) [OF a] e(2) Sending st o by (auto simp: relies_def set_index_def)
    moreover have "region c' t' \<longrightarrow> pc_ok n c' t'" using e(3,4) Sending by (auto simp: pc_ok_def region_def)
    ultimately show ?thesis
      using i wf e(1,3) st r(1) ps(1) [OF a] Sending by (simp add: step_ok_def e(2) sent_def received_def other_def)
  next
    case Receiving
    note pr = publish_receive [OF assms(1) _ p(2) [unfolded Receiving]]
    have a: "chan_slots c \<noteq> []" using p(1) Receiving by (simp add: available_def)
    have i: "chan_items n c = ?m # chan_items n c'" using pr(2) [OF a] m Receiving e(2) by (simp add: chan_items_def)
    have o: "fill_count c = Suc (fill_count c')" using pr(2) [OF a] e(2) Receiving length_slots by (metis length_Cons)
    have "relies Sending c c'"
      using pr(1) [OF a] e(2) Receiving st o by (auto simp: relies_def set_index_def)
    moreover have "region c' t' \<longrightarrow> pc_ok n c' t'"
      using e(3,4) o Receiving slots_le [OF assms(1)] by (auto simp: pc_ok_def region_def chan_cap_def)
    ultimately show ?thesis
      using i wf e(1,3) st r(1) pr(1) [OF a] Receiving by (simp add: step_ok_def e(2) sent_def received_def other_def)
  qed
qed

lemma thread_step:
  assumes "ring_ok c" "n \<le> ch_itemsize c" "thread_wf n c t" "region c t \<longrightarrow> pc_ok n c t" "thread_next b c t = Some (es, c', t')"
  shows "step_ok n c t es c' t'"
proof (cases "th_pc t")
  case (Check ph rh rt)
  then show ?thesis by (rule check_step [OF assms(1-4) _ assms(5)])
next
  case Lock
  then show ?thesis using lock_step [OF assms(1-3) _ assms(5)] by blast
next
  case (Copy off k)
  then show ?thesis by (rule copy_step [OF assms(1-4) _ assms(5)])
next
  case (Publish i)
  then show ?thesis by (rule publish_step [OF assms(1-4) _ assms(5)])
next
  case (Unlock r)
  then show ?thesis using lock_step [OF assms(1-3) _ assms(5)] by blast
qed (use assms(5) in \<open>simp_all add: thread_next_def\<close>)

section \<open>Steps of the system\<close>

definition conc_inv :: "uint \<Rightarrow> conc \<Rightarrow> bool" where
  "conc_inv n z \<longleftrightarrow> ring_ok (cc z) \<and> n \<le> ch_itemsize (cc z) \<and>
     (\<forall>t \<in> set (threads z). thread_wf n (cc z) t \<and> (region (cc z) t \<longrightarrow> pc_ok n (cc z) t \<and>
        (uses_lock (cc z) (th_op t) \<longrightarrow> lock_held (cc z) (th_op t)))) \<and>
     (\<forall>i j. i < length (threads z) \<and> j < length (threads z) \<and> i \<noteq> j \<and> region (cc z) (threads z ! i) \<and>
        region (cc z) (threads z ! j) \<longrightarrow> \<not> conflict (cc z) (th_op (threads z ! i)) (th_op (threads z ! j)))"

lemma thread_next_lock:
  assumes "thread_next b c t = Some (es, c', t')"
  shows "c' = set_lock c (th_op t) True \<and> th_pc t = Lock \<and> \<not> lock_held c (th_op t) \<or>
    c' = set_lock c (th_op t) False \<and> (\<exists>r. th_pc t = Unlock r \<and> th_pc t' = Done r) \<or>
    ch_head_lock c' = ch_head_lock c \<and> ch_tail_lock c' = ch_tail_lock c \<and> th_pc t \<noteq> Lock"
  using assms
  by (auto simp: thread_next_def copy_byte_def set_index_def Let_def
      split: pc.splits if_splits option.splits chan_op.splits)

lemma thread_next_region:
  assumes "thread_next b c t = Some (es, c', t')" "region c t'" "thread_wf n c t" "step_ok n c t es c' t'"
  shows "region c t \<or> th_pc t = Lock"
proof (cases "th_pc t")
  case (Check ph rh rt)
  moreover have "th_op t' = th_op t" "th_pc t' \<noteq> Aborted" using assms(4) by (auto simp: step_ok_def thread_wf_def)
  ultimately show ?thesis
    using assms(1-3) by (cases ph) (auto simp: thread_next_def region_def active_def decide_def split: if_splits option.splits)
qed (use assms(1) in \<open>simp_all add: thread_next_def region_def active_def\<close>)

lemma same_region: "static_eq c c' \<Longrightarrow> region c' u = region c u" "static_eq c c' \<Longrightarrow> thread_wf n c' u = thread_wf n c u"
  using static_eqD [of c c'] by (auto simp: region_def thread_wf_def cong: pc.case_cong)

lemma lock_held_eq: "static_eq c c' \<Longrightarrow> ch_head_lock c' = ch_head_lock c \<Longrightarrow> ch_tail_lock c' = ch_tail_lock c \<Longrightarrow>
  lock_held c' op = lock_held c op"
  using static_eqD(7) [of c c' op] by (simp add: lock_held_def)

lemma same_lock_conflict:
  "head_locked c op = head_locked c op' \<Longrightarrow> uses_lock c op \<Longrightarrow> uses_lock c op' \<Longrightarrow> conflict c op op'"
  by (cases op; cases op') (auto simp: head_locked_def conflict_def)

lemma conflict_lock_held: "conflict c op op' \<Longrightarrow> uses_lock c op \<Longrightarrow> uses_lock c op' \<and> lock_held c op = lock_held c op'"
  by (cases op; cases op') (auto simp: head_locked_def lock_held_def conflict_def)

lemma set_lock_held: "lock_held (set_lock c op b) op' = (if head_locked c op' = head_locked c op then b else lock_held c op')"
  by (simp add: lock_held_def set_lock_def head_locked_def)

lemma step_static: "step_ok n c t es c' t' \<Longrightarrow> static_eq c c'"
  using quietD(1) by (auto simp: step_ok_def relies_def)

text \<open>The step of a thread does not disturb another one.\<close>

lemma step_others:
  assumes "step_ok n c t es c' t'" "thread_next b c t = Some (es, c', t')" "ring_ok c" "n \<le> ch_itemsize c"
    and u: "thread_wf n c u" "region c u" "pc_ok n c u" "uses_lock c (th_op u) \<longrightarrow> lock_held c (th_op u)"
    and t: "thread_wf n c t" "region c t \<longrightarrow> \<not> conflict c (th_op t) (th_op u)"
  shows "pc_ok n c' u \<and> (uses_lock c' (th_op u) \<longrightarrow> lock_held c' (th_op u))"
proof
  note st = step_static [OF assms(1)]
  show "pc_ok n c' u"
  proof (cases "unlocked c' = unlocked c")
    case True
    then show ?thesis by (rule pc_ok_quiet [OF _ u(3) assms(4,3)])
  next
    case False
    then have r: "region c t" "relies (other (th_op t)) c c'" using assms(1) by (auto simp: step_ok_def)
    then have nc: "\<not> conflict c (th_op t) (th_op u)" using t(2) by simp
    then have op: "th_op u = other (th_op t)" by (cases "th_op t"; cases "th_op u") (auto simp: conflict_def other_def)
    have "th_pc u \<noteq> Check Final rh rt" for rh rt
      using u(1) nc op by (auto simp: thread_wf_def conflict_def uses_lock_def other_def split: chan_op.splits)
    then show ?thesis using pc_ok_stable [of u c c' n] r(2) op u(3) assms(4) by simp
  qed
  show "uses_lock c' (th_op u) \<longrightarrow> lock_held c' (th_op u)"
  proof
    assume "uses_lock c' (th_op u)"
    then have ul: "uses_lock c (th_op u)" "lock_held c (th_op u)" using u(4) static_eqD(5) [OF st] by auto
    consider (lock) "c' = set_lock c (th_op t) True" | (unlock) r where "c' = set_lock c (th_op t) False" "th_pc t = Unlock r"
      | (same) "ch_head_lock c' = ch_head_lock c" "ch_tail_lock c' = ch_tail_lock c"
      using thread_next_lock [OF assms(2)] by blast
    then show "lock_held c' (th_op u)"
    proof cases
      case unlock
      then have "region c t" "uses_lock c (th_op t)" using t(1) by (auto simp: region_def active_def thread_wf_def)
      then show ?thesis using unlock t(2) ul same_lock_conflict [of c "th_op t" "th_op u"] by (auto simp: set_lock_held)
    next
      case same
      then show ?thesis using lock_held_eq [OF st] ul by simp
    qed (use ul in \<open>simp add: set_lock_held\<close>)
  qed
qed

lemma step_own_lock:
  assumes "step_ok n c t es c' t'" "thread_next b c t = Some (es, c', t')" "thread_wf n c t" "region c' t'" "uses_lock c' (th_op t)"
    and "region c t \<longrightarrow> uses_lock c (th_op t) \<longrightarrow> lock_held c (th_op t)"
  shows "lock_held c' (th_op t)"
proof -
  note st = step_static [OF assms(1)]
  have "region c t \<or> th_pc t = Lock"
    using thread_next_region [OF assms(2) _ assms(3,1)] assms(4) same_region(1) [OF st] by simp
  then show ?thesis
    using thread_next_lock [OF assms(2)] assms(4-) lock_held_eq [OF st] static_eqD(5) [OF st]
    by (auto simp: set_lock_held region_def active_def)
qed

lemma conc_step_inv:
  assumes "conc_inv n z" "conc_next (Step i b) z = Some (es, z')"
  shows "conc_inv n z' \<and> chan_items n (cc z) @ sent es = received es @ chan_items n (cc z') \<and>
    static_eq (cc z) (cc z')"
proof -
  obtain c' t' where i: "i < length (threads z)" and nx: "thread_next b (cc z) (threads z ! i) = Some (es, c', t')"
    and z': "z' = z\<lparr>cc := c', threads := (threads z)[i := t']\<rparr>"
    using assms(2) by (auto simp: conc_next_def bind_eq_Some_conv split: if_splits)
  let ?c = "cc z" and ?t = "threads z ! i"
  have I: "ring_ok ?c" "n \<le> ch_itemsize ?c"
    "\<And>j. j < length (threads z) \<Longrightarrow> thread_wf n ?c (threads z ! j)"
    "\<And>j. j < length (threads z) \<Longrightarrow> region ?c (threads z ! j) \<longrightarrow> pc_ok n ?c (threads z ! j) \<and>
      (uses_lock ?c (th_op (threads z ! j)) \<longrightarrow> lock_held ?c (th_op (threads z ! j)))"
    "\<And>j k. j < length (threads z) \<Longrightarrow> k < length (threads z) \<Longrightarrow> j \<noteq> k \<Longrightarrow> region ?c (threads z ! j) \<Longrightarrow>
      region ?c (threads z ! k) \<Longrightarrow> \<not> conflict ?c (th_op (threads z ! j)) (th_op (threads z ! k))"
    using assms(1) by (auto simp: conc_inv_def)
  have ok: "step_ok n ?c ?t es c' t'" by (rule thread_step [OF I(1,2) I(3) [OF i] _ nx]) (use I(4) [OF i] in simp)
  note st = step_static [OF ok] and reg = same_region(1) [OF step_static [OF ok]]
  have op: "th_op t' = th_op ?t" using ok by (simp add: step_ok_def)
  have sym: "conflict ?c op op' = conflict ?c op' op" for op op' by (auto simp: conflict_def)
  have org: "region ?c t' \<Longrightarrow> region ?c ?t \<or> th_pc ?t = Lock" by (rule thread_next_region [OF nx _ I(3) [OF i] ok])
  have oth: "pc_ok n c' (threads z ! j) \<and> (uses_lock c' (th_op (threads z ! j)) \<longrightarrow> lock_held c' (th_op (threads z ! j)))"
    if "j < length (threads z)" "j \<noteq> i" "region ?c (threads z ! j)" for j
    by (rule step_others [OF ok nx I(1,2) I(3) [OF that(1)] that(3)]) (use I(3-5) that i in auto)
  have own: "region c' t' \<Longrightarrow> uses_lock c' (th_op t') \<Longrightarrow> lock_held c' (th_op t')"
    using step_own_lock [OF ok nx I(3) [OF i]] I(4) [OF i] op by simp
  have free: "\<not> conflict ?c (th_op t') (th_op (threads z ! j))"
    if "j < length (threads z)" "j \<noteq> i" "region ?c (threads z ! j)" "region ?c t'" for j
  proof (cases "region ?c ?t")
    case True
    then show ?thesis using I(5) [OF i that(1)] that(2,3) op by auto
  next
    case False
    with org that(4) have l: "th_pc ?t = Lock" by blast
    then have "\<not> lock_held ?c (th_op ?t)" "uses_lock ?c (th_op ?t)"
      using nx I(3) [OF i] by (auto simp: thread_next_def thread_wf_def split: if_splits)
    then show ?thesis using conflict_lock_held [of ?c "th_op ?t" "th_op (threads z ! j)"] I(4) [OF that(1)] that(3) op by auto
  qed
  have "conc_inv n z'"
    unfolding conc_inv_def z'
  proof (simp, intro conjI allI impI ballI)
    show "ring_ok c'" using ok by (simp add: step_ok_def)
    show "n \<le> ch_itemsize c'" using I(2) static_eqD(3) [OF st] by simp
  next
    fix u assume "u \<in> set ((threads z)[i := t'])"
    then obtain j where j: "j < length (threads z)" "u = (threads z)[i := t'] ! j" by (auto simp: in_set_conv_nth)
    show "thread_wf n c' u" using j I(3) ok same_region(2) [OF st] by (cases "j = i") (auto simp: step_ok_def)
    show "pc_ok n c' u" if "region c' u" using j that ok oth reg by (cases "j = i") (auto simp: step_ok_def)
    show "lock_held c' (th_op u)" if "region c' u" "uses_lock c' (th_op u)"
      using j that own oth reg by (cases "j = i") auto
  next
    fix j k assume jk: "j < length (threads z) \<and> k < length (threads z) \<and> j \<noteq> k \<and>
      region c' ((threads z)[i := t'] ! j) \<and> region c' ((threads z)[i := t'] ! k)"
    show "\<not> conflict c' (th_op ((threads z)[i := t'] ! j)) (th_op ((threads z)[i := t'] ! k))"
      using jk free I(5) reg static_eqD(8) [OF st] sym by (cases "j = i"; cases "k = i") auto
  qed
  then show ?thesis using ok st z' by (simp add: step_ok_def)
qed

lemma conc_call_inv:
  assumes "conc_inv n z" "conc_next (Call i op dat m) z = Some (es, z')" "sized n (Call i op dat m)"
  shows "conc_inv n z' \<and> es = [] \<and> cc z' = cc z"
proof -
  let ?c = "cc z" and ?t = "\<lparr>th_op = op, th_data = dat, th_size = n, th_pc = Check First None None\<rparr>"
  have i: "i < length (threads z)" "may_call op z" and e: "es = []" "z' = z\<lparr>threads := (threads z)[i := ?t]\<rparr>"
    using assms(2,3) by (auto simp: conc_next_def sized_def split: if_splits)
  have ring: "ring_ok ?c" using assms(1) by (simp add: conc_inv_def)
  have t: "thread_wf n ?c ?t" "pc_ok n ?c ?t" "region ?c ?t = (\<not> uses_lock ?c op)"
    using assms(3) ring by (auto simp: thread_wf_def pc_ok_def region_def active_def sized_def view_ok_def split: chan_op.splits)
  have free: "\<not> conflict ?c op (th_op u)" "\<not> conflict ?c (th_op u) op" if "\<not> uses_lock ?c op" "u \<in> set (threads z)" "region ?c u" for u
    using that i(2) by (auto simp: may_call_def conflict_def region_def)
  have mut: "\<not> conflict ?c (th_op (threads z ! j)) (th_op (threads z ! k))"
    if "j < length (threads z)" "k < length (threads z)" "j \<noteq> k" "region ?c (threads z ! j)" "region ?c (threads z ! k)" for j k
    using that assms(1) unfolding conc_inv_def by blast
  have "conc_inv n z'"
    unfolding conc_inv_def e(2)
  proof (simp, intro conjI allI impI ballI)
    show "ring_ok ?c" "n \<le> ch_itemsize ?c" using assms(1) by (simp_all add: conc_inv_def)
  next
    fix u assume "u \<in> set ((threads z)[i := ?t])"
    then have u: "u = ?t \<or> u \<in> set (threads z)" using set_update_subset_insert [of "threads z" i ?t] by auto
    show "thread_wf n ?c u" using u t assms(1) by (auto simp: conc_inv_def)
    show "pc_ok n ?c u" if "region ?c u" using u that t assms(1) by (auto simp: conc_inv_def)
    show "lock_held ?c (th_op u)" if "region ?c u" "uses_lock ?c (th_op u)" using u that t assms(1) by (auto simp: conc_inv_def)
  next
    fix j k assume jk: "j < length (threads z) \<and> k < length (threads z) \<and> j \<noteq> k \<and>
      region ?c ((threads z)[i := ?t] ! j) \<and> region ?c ((threads z)[i := ?t] ! k)"
    show "\<not> conflict ?c (th_op ((threads z)[i := ?t] ! j)) (th_op ((threads z)[i := ?t] ! k))"
      using jk free t(3) mut by (cases "j = i"; cases "k = i") auto
  qed
  then show ?thesis using e by simp
qed

lemma sent_append [simp]: "sent (es @ es') = sent es @ sent es'"
  by (simp add: sent_def)

lemma received_append [simp]: "received (es @ es') = received es @ received es'"
  by (simp add: received_def)

lemma conc_run_inv:
  "conc_inv n z \<Longrightarrow> \<forall>m \<in> set ms. sized n m \<Longrightarrow> conc_run ms z = Some (es, z') \<Longrightarrow>
    conc_inv n z' \<and> chan_items n (cc z) @ sent es = received es @ chan_items n (cc z') \<and> static_eq (cc z) (cc z')"
proof (induction ms arbitrary: z es)
  case Nil
  then show ?case by (simp add: sent_def received_def static_eq_def)
next
  case (Cons m ms)
  obtain es1 z1 es2 where s: "conc_next m z = Some (es1, z1)" "conc_run ms z1 = Some (es2, z')" "es = es1 @ es2"
    using Cons.prems(3) by (auto simp: bind_eq_Some_conv)
  have "conc_inv n z1 \<and> chan_items n (cc z) @ sent es1 = received es1 @ chan_items n (cc z1) \<and> static_eq (cc z) (cc z1)"
  proof (cases m)
    case (Call i op dat k)
    then show ?thesis using conc_call_inv [of n z i op dat k es1 z1] Cons.prems(1,2) s(1)
      by (simp add: sent_def received_def static_eq_def)
  next
    case (Step i b)
    then show ?thesis using conc_step_inv [of n z i b es1 z1] Cons.prems(1) s(1) by simp
  qed
  moreover from this Cons.IH [of z1 es2] Cons.prems(2) s(2)
  have "conc_inv n z' \<and> chan_items n (cc z1) @ sent es2 = received es2 @ chan_items n (cc z') \<and> static_eq (cc z1) (cc z')" by simp
  ultimately show ?case using s(3) by (simp add: static_eq_def) (metis append_assoc)
qed

lemma conc_init_inv:
  assumes "chan_inv c" "n \<le> ch_itemsize c"
  shows "conc_inv n (conc_init k c)"
proof -
  have "unlocked c = c" using assms(1) by (cases c) (simp add: chan_inv_def unlocked_def)
  then show ?thesis using assms
    by (auto simp: conc_inv_def conc_init_def ring_ok_def thread_wf_def active_def region_def)
qed

section \<open>Progress\<close>

text \<open>A lock that is taken is held by a thread, which can go on.\<close>

definition lock_taken :: "channel \<Rightarrow> bool \<Rightarrow> bool" where
  "lock_taken c hl = (if hl then ch_head_lock c else ch_tail_lock c)"

definition holds :: "channel \<Rightarrow> bool \<Rightarrow> chan_thread \<Rightarrow> bool" where
  "holds c hl t \<longleftrightarrow> region c t \<and> uses_lock c (th_op t) \<and> head_locked c (th_op t) = hl"

definition locks_ok :: "conc \<Rightarrow> bool" where
  "locks_ok z \<longleftrightarrow> (\<forall>hl. lock_taken (cc z) hl \<longrightarrow> (\<exists>t \<in> set (threads z). holds (cc z) hl t))"

lemma region_leaves:
  assumes "thread_next b c t = Some (es, c', t')" "step_ok n c t es c' t'" "region c t" "uses_lock c (th_op t)"
  shows "region c t' \<or> (\<exists>r. th_pc t = Unlock r)"
proof -
  have w: "th_op t' = th_op t" "th_pc t' \<noteq> Aborted" using assms(2) by (auto simp: step_ok_def thread_wf_def)
  show ?thesis
  proof (cases "th_pc t")
    case (Check ph rh rt)
    then show ?thesis
      using assms(1,3,4) w by (cases ph) (auto simp: thread_next_def region_def active_def decide_def split: if_splits option.splits)
  next
    case (Copy off k)
    then show ?thesis using assms(1) w by (auto simp: thread_next_def region_def active_def split: if_splits option.splits)
  qed (use assms w in \<open>auto simp: thread_next_def region_def active_def Let_def\<close>)
qed

lemma region_steps: "region c t \<Longrightarrow> th_pc t \<noteq> Aborted \<Longrightarrow> thread_next b c t \<noteq> None"
  by (auto simp: thread_next_def region_def active_def Let_def split: pc.splits option.splits)

lemma taken_origin:
  assumes "thread_next b c t = Some (es, c', t')" "lock_taken c' hl"
  shows "th_pc t = Lock \<and> head_locked c (th_op t) = hl \<or>
    lock_taken c hl \<and> (\<forall>r. th_pc t = Unlock r \<longrightarrow> head_locked c (th_op t) \<noteq> hl)"
proof (cases "\<exists>r. th_pc t = Unlock r")
  case True
  then have "c' = set_lock c (th_op t) False" using assms(1) by (auto simp: thread_next_def)
  then show ?thesis using assms(2) by (auto simp: lock_taken_def set_lock_def split: if_splits)
next
  case False
  then show ?thesis using thread_next_lock [OF assms(1)] assms(2) by (auto simp: lock_taken_def set_lock_def split: if_splits)
qed

lemma conc_step_locks:
  assumes "conc_inv n z" "locks_ok z" "conc_next (Step i b) z = Some (es, z')"
  shows "locks_ok z'"
  unfolding locks_ok_def
proof (intro allI impI)
  fix hl
  obtain c' t' where i: "i < length (threads z)" and nx: "thread_next b (cc z) (threads z ! i) = Some (es, c', t')"
    and z': "z' = z\<lparr>cc := c', threads := (threads z)[i := t']\<rparr>"
    using assms(3) by (auto simp: conc_next_def bind_eq_Some_conv split: if_splits)
  let ?c = "cc z" and ?t = "threads z ! i"
  have I: "ring_ok ?c" "n \<le> ch_itemsize ?c" "thread_wf n ?c ?t" "region ?c ?t \<longrightarrow> pc_ok n ?c ?t"
    using assms(1) i by (auto simp: conc_inv_def)
  note ok = thread_step [OF I nx]
  note st = step_static [OF ok]
  have op: "th_op t' = th_op ?t" using ok by (simp add: step_ok_def)
  have h: "holds c' hl u = holds ?c hl u" for u using same_region(1) [OF st] static_eqD [OF st] by (simp add: holds_def)
  have in_t': "t' \<in> set (threads z')" using i z' by (simp add: set_update_memI)
  assume "lock_taken (cc z') hl"
  then have "lock_taken c' hl" using z' by simp
  from taken_origin [OF nx this] show "\<exists>t \<in> set (threads z'). holds (cc z') hl t"
  proof (elim disjE conjE)
    assume p: "th_pc ?t = Lock" "head_locked ?c (th_op ?t) = hl"
    then have "holds ?c hl t'"
      using nx I(3) op by (auto simp: holds_def thread_next_def region_def active_def thread_wf_def split: if_splits)
    then show ?thesis using in_t' h z' by auto
  next
    assume "lock_taken ?c hl" and n: "\<forall>r. th_pc ?t = Unlock r \<longrightarrow> head_locked ?c (th_op ?t) \<noteq> hl"
    then obtain j where j: "j < length (threads z)" "holds ?c hl (threads z ! j)"
      using assms(2) unfolding locks_ok_def by (metis in_set_conv_nth)
    show ?thesis
    proof (cases "j = i")
      case True
      then have "holds ?c hl t'" using region_leaves [OF nx ok] j n op by (auto simp: holds_def)
      then show ?thesis using in_t' h z' by auto
    next
      case False
      then have "threads z' ! j = threads z ! j" "j < length (threads z')" using j(1) z' by simp_all
      then show ?thesis using j(2) h z' by (metis conc.select_convs(1) conc.surjective conc.update_convs(1,2) nth_mem)
    qed
  qed
qed

lemma conc_call_locks:
  assumes "locks_ok z" "conc_next (Call i op dat m) z = Some (es, z')"
  shows "locks_ok z'"
  unfolding locks_ok_def
proof (intro allI impI)
  fix hl
  obtain t where i: "i < length (threads z)" "\<not> active (threads z ! i)" and z': "z' = z\<lparr>threads := (threads z)[i := t]\<rparr>"
    using assms(2) by (auto simp: conc_next_def split: if_splits)
  assume "lock_taken (cc z') hl"
  then have "lock_taken (cc z) hl" using z' by simp
  then obtain j where j: "j < length (threads z)" "holds (cc z) hl (threads z ! j)"
    using assms(1) unfolding locks_ok_def by (metis in_set_conv_nth)
  then have "j \<noteq> i" using i(2) by (auto simp: holds_def region_def)
  then have "threads z' ! j = threads z ! j" "j < length (threads z')" "cc z' = cc z" using j(1) z' by simp_all
  then show "\<exists>t \<in> set (threads z'). holds (cc z') hl t" using j(2) by (metis nth_mem)
qed

lemma conc_run_locks:
  "conc_inv n z \<Longrightarrow> locks_ok z \<Longrightarrow> \<forall>m \<in> set ms. sized n m \<Longrightarrow> conc_run ms z = Some (es, z') \<Longrightarrow> locks_ok z'"
proof (induction ms arbitrary: z es)
  case (Cons m ms)
  obtain es1 z1 es2 where s: "conc_next m z = Some (es1, z1)" "conc_run ms z1 = Some (es2, z')"
    using Cons.prems(4) by (auto simp: bind_eq_Some_conv)
  have "conc_inv n z1" using conc_run_inv [of n z "[m]" es1 z1] Cons.prems(1,3) s(1) by simp
  moreover have "locks_ok z1"
    using conc_step_locks [OF Cons.prems(1,2)] conc_call_locks [OF Cons.prems(2)] s(1) by (cases m) auto
  ultimately show ?case using Cons.IH Cons.prems(3) s(2) by simp
qed simp

lemma conc_progress:
  assumes "conc_inv n z" "locks_ok z" "t \<in> set (threads z)" "active t"
  shows "\<exists>i b. conc_next (Step i b) z \<noteq> None"
proof -
  have wf: "thread_wf n (cc z) u" if "u \<in> set (threads z)" for u using assms(1) that by (simp add: conc_inv_def)
  have run: "\<exists>i b. conc_next (Step i b) z \<noteq> None" if "u \<in> set (threads z)" "thread_next True (cc z) u \<noteq> None" for u
  proof -
    obtain i where "i < length (threads z)" "threads z ! i = u" using \<open>u \<in> set (threads z)\<close> by (auto simp: in_set_conv_nth)
    then have "conc_next (Step i True) z \<noteq> None" using that(2) by (auto simp: conc_next_def)
    then show ?thesis by blast
  qed
  show ?thesis
  proof (cases "thread_next True (cc z) t")
    case None
    have "th_pc t \<noteq> Aborted" using wf [OF assms(3)] by (simp add: thread_wf_def)
    then have "th_pc t = Lock" "lock_held (cc z) (th_op t)"
      using None assms(4) region_steps [of "cc z" t True] by (auto simp: thread_next_def region_def active_def split: pc.splits if_splits)
    then have "lock_taken (cc z) (head_locked (cc z) (th_op t))" by (simp add: lock_taken_def lock_held_def)
    then obtain u where u: "u \<in> set (threads z)" "region (cc z) u" using assms(2) by (auto simp: locks_ok_def holds_def)
    then show ?thesis using run [OF u(1)] region_steps [OF u(2)] wf [OF u(1)] by (auto simp: thread_wf_def)
  qed (use run [OF assms(3)] in auto)
qed

lemma conc_quiescent:
  assumes "conc_inv n z" "locks_ok z" "\<forall>t \<in> set (threads z). \<not> active t"
  shows "chan_inv (cc z)"
proof -
  have "\<not> lock_taken (cc z) hl" for hl using assms(2,3) by (auto simp: locks_ok_def holds_def region_def)
  from this [of True] this [of False] have "\<not> ch_head_lock (cc z)" "\<not> ch_tail_lock (cc z)" by (simp_all add: lock_taken_def)
  then have "unlocked (cc z) = cc z" by (cases "cc z") (simp add: unlocked_def)
  then show ?thesis using assms(1) by (simp add: conc_inv_def ring_ok_def)
qed

lemma conc_init_locks: "chan_inv c \<Longrightarrow> locks_ok (conc_init k c)"
  by (simp add: locks_ok_def conc_init_def lock_taken_def chan_inv_def)

section \<open>Exact answers\<close>

text \<open>
  Without a lock, the answer of a test is right: while a channel stays available throughout a call,
  the call succeeds.
\<close>

definition never_refused :: "chan_op \<Rightarrow> channel \<Rightarrow> chan_thread \<Rightarrow> bool" where
  "never_refused op c t \<longleftrightarrow> (th_op t = op \<longrightarrow> th_pc t \<noteq> Done False \<and>
     (\<forall>rh rt. th_pc t = Check First rh rt \<longrightarrow> view_ok True op c rh rt))"

lemma own_never_refused:
  assumes "thread_wf n c t" "available (th_op t) c" "\<not> uses_lock c (th_op t)" "never_refused (th_op t) c t"
    "thread_next b c t = Some (es, c', t')" "step_ok n c t es c' t'"
  shows "never_refused (th_op t) c' t'"
proof (cases "\<exists>rh rt. th_pc t = Check First rh rt")
  case True
  then obtain rh rt where p: "th_pc t = Check First rh rt" by blast
  have v: "view_ok True (th_op t) c rh rt" using assms(4) p by (simp add: never_refused_def)
  have h: "rh = None \<Longrightarrow> view_ok True (th_op t) c (Some (ch_head c)) rt"
    using v by (auto simp: view_ok_def seen_def split: chan_op.splits)
  have tl: "rt = None \<Longrightarrow> \<not> channel_unbuffered c \<Longrightarrow> view_ok True (th_op t) c rh (Some (ch_tail c))"
    using v by (auto simp: view_ok_def seen_def split: chan_op.splits)
  have "refused (th_op t) (seen c rh rt) = Some False"
    using v refused_ring [of "seen c rh rt"] by (cases "th_op t") (auto simp: view_ok_def available_def)
  then show ?thesis
    using assms(3,5) p h tl by (auto simp: never_refused_def thread_next_def decide_def split: if_splits)
next
  case False
  then show ?thesis
    using assms(1,3,5) by (auto simp: never_refused_def thread_next_def decide_def copy_byte_def thread_wf_def Let_def
        split: pc.splits phase.splits if_splits option.splits chan_op.splits)
qed

lemma other_never_refused:
  assumes "step_ok n c t es c' t'" "ring_ok c" "available op c" "never_refused op c u" "\<not> uses_lock c op"
    "region c t \<longrightarrow> region c u \<longrightarrow> \<not> conflict c (th_op t) (th_op u)"
  shows "never_refused op c' u"
  unfolding never_refused_def
proof (intro impI conjI allI)
  assume op: "th_op u = op"
  show "th_pc u \<noteq> Done False" using assms(4) op by (simp add: never_refused_def)
  fix rh rt assume p: "th_pc u = Check First rh rt"
  have v: "view_ok True op c rh rt" using assms(4) op p by (simp add: never_refused_def)
  have r: "region c u" using p op assms(5) by (simp add: region_def active_def)
  have "relies op c c'"
  proof (cases "unlocked c' = unlocked c")
    case True
    then show ?thesis using quietD(8) assms(2) by blast
  next
    case False
    then have "region c t" "relies (other (th_op t)) c c'" using assms(1) by (auto simp: step_ok_def)
    moreover from this(1) have "th_op t \<noteq> op" using assms(6) r op by (auto simp: conflict_def)
    ultimately show ?thesis by (cases op; cases "th_op t") (simp_all add: other_def)
  qed
  then show "view_ok True op c' rh rt" using view_ok_stable [OF _ v] assms(3) by blast
qed

lemma conc_next_never_refused:
  assumes "conc_inv n z" "\<not> uses_lock (cc z) op" "\<forall>t \<in> set (threads z). never_refused op (cc z) t" "available op (cc z)"
    "conc_next m z = Some (es, z')" "sized n m"
  shows "\<forall>t \<in> set (threads z'). never_refused op (cc z') t"
proof (cases m)
  case (Call i op' dat k)
  let ?t = "\<lparr>th_op = op', th_data = dat, th_size = k, th_pc = Check First None None\<rparr>"
  have z': "z' = z\<lparr>threads := (threads z)[i := ?t]\<rparr>" using assms(5) Call by (auto simp: conc_next_def split: if_splits)
  have "never_refused op (cc z) ?t"
    using assms(1,4) by (auto simp: never_refused_def view_ok_def conc_inv_def split: chan_op.splits)
  then show ?thesis using assms(3) z' set_update_subset_insert [of "threads z" i ?t] by auto
next
  case (Step i b)
  obtain c' t' where i: "i < length (threads z)" and nx: "thread_next b (cc z) (threads z ! i) = Some (es, c', t')"
    and z': "z' = z\<lparr>cc := c', threads := (threads z)[i := t']\<rparr>"
    using assms(5) Step by (auto simp: conc_next_def bind_eq_Some_conv split: if_splits)
  let ?c = "cc z" and ?t = "threads z ! i"
  have I: "ring_ok ?c" "n \<le> ch_itemsize ?c" "thread_wf n ?c ?t" "region ?c ?t \<longrightarrow> pc_ok n ?c ?t"
    using assms(1) i by (auto simp: conc_inv_def)
  note ok = thread_step [OF I nx]
  have "never_refused op c' ((threads z)[i := t'] ! j)" if j: "j < length (threads z)" for j
  proof (cases "j = i")
    case True
    have "th_op t' = th_op ?t" using ok by (simp add: step_ok_def)
    then show ?thesis
      using True i own_never_refused [OF I(3) _ _ _ nx ok] assms(2-4) by (cases "th_op ?t = op") (auto simp: never_refused_def)
  next
    case False
    have "region ?c ?t \<longrightarrow> region ?c (threads z ! j) \<longrightarrow> \<not> conflict ?c (th_op ?t) (th_op (threads z ! j))"
      using assms(1) i j False unfolding conc_inv_def by blast
    then show ?thesis using other_never_refused [OF ok I(1) assms(4)] False j assms(2,3) by simp
  qed
  then show ?thesis unfolding z' by (auto simp: in_set_conv_nth)
qed

lemma conc_run_never_refused:
  "conc_inv n z \<Longrightarrow> \<not> uses_lock (cc z) op \<Longrightarrow> \<forall>t \<in> set (threads z). never_refused op (cc z) t \<Longrightarrow>
   \<forall>m \<in> set ms. sized n m \<Longrightarrow> \<forall>y \<in> set (conc_states ms z). available op (cc y) \<Longrightarrow> conc_run ms z = Some (es, z') \<Longrightarrow>
   \<forall>t \<in> set (threads z'). never_refused op (cc z') t"
proof (induction ms arbitrary: z es)
  case (Cons m ms)
  obtain es1 z1 es2 where s: "conc_next m z = Some (es1, z1)" "conc_run ms z1 = Some (es2, z')"
    using Cons.prems(6) by (auto simp: bind_eq_Some_conv)
  have i: "conc_inv n z1" "static_eq (cc z) (cc z1)" using conc_run_inv [of n z "[m]" es1 z1] Cons.prems(1,4) s(1) by simp_all
  have "\<forall>t \<in> set (threads z1). never_refused op (cc z1) t"
    by (rule conc_next_never_refused [OF Cons.prems(1-3) _ s(1)]) (use Cons.prems(4,5) in auto)
  then show ?case
    using Cons.IH [OF i(1) _ _ _ _ s(2)] Cons.prems(2,4,5) static_eqD(5) [OF i(2), of op] s(1) by simp
qed simp

section \<open>Threads on their own\<close>

text \<open>Several steps of one thread while the others rest.\<close>

fun solo :: "nat \<Rightarrow> channel \<Rightarrow> chan_thread \<Rightarrow> (event list \<times> channel \<times> chan_thread) option" where
  "solo 0 c t = Some ([], c, t)"
| "solo (Suc k) c t = do {
     (es, c, t) \<leftarrow> thread_next True c t;
     (es', c, t) \<leftarrow> solo k c t;
     Some (es @ es', c, t)
   }"

definition steps_of :: "nat \<Rightarrow> nat \<Rightarrow> move list" where
  "steps_of i k = replicate k (Step i True)"

lemma solo_append:
  "solo k c t = Some (es, c', t') \<Longrightarrow> solo l c' t' = Some (es', c'', t'') \<Longrightarrow>
    solo (k + l) c t = Some (es @ es', c'', t'')"
  by (induction k arbitrary: c t es) (auto simp: bind_eq_Some_conv split: prod.splits)

lemma conc_run_append:
  "conc_run ms z = Some (es, z') \<Longrightarrow> conc_run ms' z' = Some (es', z'') \<Longrightarrow>
    conc_run (ms @ ms') z = Some (es @ es', z'')"
  by (induction ms arbitrary: z es) (auto simp: bind_eq_Some_conv split: prod.splits)

lemma conc_run_solo:
  assumes "solo k c t = Some (es, c', t')" "i < length (threads z)" "cc z = c" "threads z ! i = t"
  shows "conc_run (steps_of i k) z = Some (es, z\<lparr>cc := c', threads := (threads z)[i := t']\<rparr>)"
  using assms
proof (induction k arbitrary: c t es z)
  case 0
  then show ?case by (cases z) (auto simp: steps_of_def)
next
  case (Suc k)
  from Suc.prems(1) obtain es1 c1 t1 es2 where
    s: "thread_next True c t = Some (es1, c1, t1)" "solo k c1 t1 = Some (es2, c', t')" "es = es1 @ es2"
    by (auto simp: bind_eq_Some_conv)
  let ?z = "z\<lparr>cc := c1, threads := (threads z)[i := t1]\<rparr>"
  have "conc_run (steps_of i k) ?z = Some (es2, ?z\<lparr>cc := c', threads := (threads ?z)[i := t']\<rparr>)"
    using Suc.IH [OF s(2), of ?z] Suc.prems(2) by simp
  then show ?case using s Suc.prems(2-4) by (simp add: steps_of_def conc_next_def)
qed

text \<open>A test of a buffered channel that nobody else uses: two reads and the decision.\<close>

lemma solo_test:
  assumes "\<not> channel_unbuffered c" "th_pc t = Check ph None None"
  shows "solo 3 c t = Some ([], c, t\<lparr>th_pc := decide ph c c t\<rparr>)"
proof -
  have "seen c (Some (ch_head c)) (Some (ch_tail c)) = c" by (simp add: seen_def)
  then show ?thesis
    using assms by (simp add: numeral_3_eq_3 thread_next_def decide_def split: phase.split)
qed

lemma solo_copy:
  assumes "th_pc t = Copy off k" "unat (th_size t) = k + l" "off + (k + l) \<le> length (ch_buffer c)" "k + l \<le> length (th_data t)"
  shows "\<exists>buf dat. solo l c t = Some ([], c\<lparr>ch_buffer := buf\<rparr>, t\<lparr>th_data := dat, th_pc := Copy off (k + l)\<rparr>) \<and>
    length buf = length (ch_buffer c) \<and> length dat = length (th_data t) \<and> (th_op t = Sending \<longrightarrow> dat = th_data t)"
  using assms
proof (induction l arbitrary: k c t)
  case 0
  then have "t = t\<lparr>th_data := th_data t, th_pc := Copy off k\<rparr>" by simp
  then show ?case using 0 by (intro exI [of _ "ch_buffer c"] exI [of _ "th_data t"]) simp
next
  case (Suc l)
  define c1 where "c1 = (if th_op t = Sending then c\<lparr>ch_buffer := (ch_buffer c)[off + k := th_data t ! k]\<rparr> else c)"
  define t1 where "t1 = (if th_op t = Sending then t\<lparr>th_pc := Copy off (Suc k)\<rparr>
    else t\<lparr>th_data := (th_data t)[k := ch_buffer c ! (off + k)], th_pc := Copy off (Suc k)\<rparr>)"
  have s: "thread_next True c t = Some ([], c1, t1)"
    using Suc.prems by (cases "th_op t") (simp_all add: thread_next_def copy_byte_def c1_def t1_def)
  have "\<exists>buf dat. solo l c1 t1 = Some ([], c1\<lparr>ch_buffer := buf\<rparr>, t1\<lparr>th_data := dat, th_pc := Copy off (Suc k + l)\<rparr>) \<and>
      length buf = length (ch_buffer c1) \<and> length dat = length (th_data t1) \<and> (th_op t1 = Sending \<longrightarrow> dat = th_data t1)"
    by (rule Suc.IH) (use Suc.prems in \<open>auto simp: c1_def t1_def\<close>)
  then obtain buf dat where r: "solo l c1 t1 = Some ([], c1\<lparr>ch_buffer := buf\<rparr>, t1\<lparr>th_data := dat, th_pc := Copy off (Suc k + l)\<rparr>)"
    "length buf = length (ch_buffer c1)" "length dat = length (th_data t1)" "th_op t1 = Sending \<longrightarrow> dat = th_data t1" by blast
  have "c1\<lparr>ch_buffer := buf\<rparr> = c\<lparr>ch_buffer := buf\<rparr>"
    "t1\<lparr>th_data := dat, th_pc := Copy off (Suc k + l)\<rparr> = t\<lparr>th_data := dat, th_pc := Copy off (k + Suc l)\<rparr>"
    by (simp_all add: c1_def t1_def)
  then show ?case using s r by (intro exI [of _ buf] exI [of _ dat]) (auto simp: c1_def t1_def split: if_splits)
qed

text \<open>From the assertions to the end of a call that succeeds.\<close>

lemma solo_transfer:
  assumes c: "ring_ok c" "\<not> channel_unbuffered c" "available (th_op t) c"
    and t: "th_pc t = Check Asserting None None" "th_size t \<le> ch_itemsize c" "unat (th_size t) \<le> length (th_data t)"
  shows "\<exists>buf dat i. next_index c (th_op t) = Some i \<and>
    solo (5 + unat (th_size t)) c t =
      Some ([case th_op t of Sending \<Rightarrow> Sent (take (unat (th_size t)) dat) | Receiving \<Rightarrow> Received (take (unat (th_size t)) dat)],
        set_index (c\<lparr>ch_buffer := buf\<rparr>) (th_op t) i,
        t\<lparr>th_data := dat, th_pc := if uses_lock c (th_op t) then Unlock True else Done True\<rparr>) \<and>
    length buf = length (ch_buffer c) \<and> (th_op t = Sending \<longrightarrow> dat = th_data t)"
proof -
  let ?n = "unat (th_size t)" and ?op = "th_op t"
  have n: "?n \<le> unat (ch_itemsize c)" using t(2) by (simp add: word_le_nat_alt)
  have "asserted ?op c = Some True" using refused_ring(3,4) [OF c(1)] c(3) by (cases ?op) (simp_all add: available_def)
  then have s1: "solo 3 c t = Some ([], c, t\<lparr>th_pc := Copy (copy_offset c ?op) 0\<rparr>)"
    using solo_test [OF c(2) t(1)] t(2) by (simp add: decide_def)
  define t1 where "t1 = t\<lparr>th_pc := Copy (copy_offset c ?op) 0\<rparr>"
  have t1: "th_op t1 = ?op" "th_size t1 = th_size t" "th_data t1 = th_data t" by (simp_all add: t1_def)
  have "copy_offset c ?op + ?n \<le> length (ch_buffer c)"
    using offset_ring [OF c(1), of ?op] n by simp
  then have "\<exists>buf dat. solo ?n c t1 = Some ([], c\<lparr>ch_buffer := buf\<rparr>, t1\<lparr>th_data := dat, th_pc := Copy (copy_offset c ?op) (0 + ?n)\<rparr>) \<and>
      length buf = length (ch_buffer c) \<and> length dat = length (th_data t1) \<and> (th_op t1 = Sending \<longrightarrow> dat = th_data t1)"
    by (intro solo_copy) (use t in \<open>simp_all add: t1_def\<close>)
  then obtain buf dat where s2: "solo ?n c t1 = Some ([], c\<lparr>ch_buffer := buf\<rparr>, t1\<lparr>th_data := dat, th_pc := Copy (copy_offset c ?op) ?n\<rparr>)"
    and b: "length buf = length (ch_buffer c)" "?op = Sending \<longrightarrow> dat = th_data t" using t1 by auto
  obtain i where i: "next_index c ?op = Some i" using next_index_ring [OF c(1)] by blast
  let ?c = "c\<lparr>ch_buffer := buf\<rparr>" and ?t = "t1\<lparr>th_data := dat, th_pc := Copy (copy_offset c ?op) ?n\<rparr>"
  have "next_index ?c ?op = Some i" "uses_lock ?c ?op = uses_lock c ?op" "\<not> channel_unbuffered ?c"
    using i c(2) by (cases ?op; simp add: next_index_def uses_lock_def)+
  then have s3: "solo 2 ?c ?t = Some ([case ?op of Sending \<Rightarrow> Sent (take ?n dat) | Receiving \<Rightarrow> Received (take ?n dat)],
      set_index ?c ?op i, t\<lparr>th_data := dat, th_pc := if uses_lock c ?op then Unlock True else Done True\<rparr>)"
    by (simp add: numeral_2_eq_2 thread_next_def t1_def Let_def)
  have "solo (3 + (?n + 2)) c t = Some ([] @ [] @ [case ?op of Sending \<Rightarrow> Sent (take ?n dat) | Receiving \<Rightarrow> Received (take ?n dat)],
      set_index ?c ?op i, t\<lparr>th_data := dat, th_pc := if uses_lock c ?op then Unlock True else Done True\<rparr>)"
    by (rule solo_append [OF s1 [folded t1_def] solo_append [OF s2 s3]])
  moreover have "3 + (?n + 2) = 5 + ?n" by simp
  ultimately show ?thesis using b i by (intro exI [of _ buf] exI [of _ dat] exI [of _ i]) simp
qed

text \<open>A send and a receive on an MPSC channel without interference.\<close>

lemma solo_send:
  assumes c: "chan_inv c" "\<not> channel_unbuffered c" "ch_impl c = MPSC" "fill_count c < chan_cap c"
    and n: "n \<le> ch_itemsize c" "unat n \<le> length dat"
  shows "\<exists>buf t'. solo (13 + unat n) c \<lparr>th_op = Sending, th_data = dat, th_size = n, th_pc = Check First None None\<rparr> =
    Some ([Sent (take (unat n) dat)], c\<lparr>ch_buffer := buf, ch_tail := (ch_tail c + 1) mod ch_size c\<rparr>, t') \<and>
    length buf = length (ch_buffer c) \<and> th_op t' = Sending \<and> th_pc t' = Done True"
proof -
  define t where "t = \<lparr>th_op = Sending, th_data = dat, th_size = n, th_pc = Check First None None\<rparr>"
  have t: "th_op t = Sending" "th_data t = dat" "th_size t = n" "th_pc t = Check First None None" by (simp_all add: t_def)
  let ?c = "c\<lparr>ch_tail_lock := True\<rparr>"
  have l: "ch_tail_lock c = False" "ring_ok c" "ring_ok ?c"
    using c(1) by (simp_all add: chan_inv_def ring_ok_def unlocked_def unbuffered_size)
  have fill: "fill_count ?c = fill_count c" "chan_cap ?c = chan_cap c" by (simp_all add: fill_count_def chan_cap_def)
  have lk: "uses_lock c Sending" "uses_lock ?c Sending" "\<not> head_locked c Sending"
    using c(2,3) by (simp_all add: uses_lock_def head_locked_def)
  have s1: "solo 3 c t = Some ([], c, t\<lparr>th_pc := Lock\<rparr>)"
    using solo_test [OF c(2) t(4)] t(1) refused_ring(1) [OF l(2)] c(4) lk(1) by (simp add: decide_def)
  have s2: "solo 1 c (t\<lparr>th_pc := Lock\<rparr>) = Some ([], ?c, t\<lparr>th_pc := Check Second None None\<rparr>)"
    using l(1) lk(3) t(1) by (simp add: thread_next_def lock_held_def set_lock_def)
  have s3: "solo 3 ?c (t\<lparr>th_pc := Check Second None None\<rparr>) = Some ([], ?c, t\<lparr>th_pc := Check Asserting None None\<rparr>)"
    using solo_test [of ?c "t\<lparr>th_pc := Check Second None None\<rparr>" Second] c(2,4) t(1) refused_ring(1) [OF l(3)] fill
    by (simp add: decide_def)
  have "\<exists>buf dat' i. next_index ?c Sending = Some i \<and> solo (5 + unat n) ?c (t\<lparr>th_pc := Check Asserting None None\<rparr>) =
      Some ([Sent (take (unat n) dat')], set_index (?c\<lparr>ch_buffer := buf\<rparr>) Sending i, t\<lparr>th_data := dat', th_pc := Unlock True\<rparr>) \<and>
    length buf = length (ch_buffer c) \<and> dat' = dat"
    using solo_transfer [of ?c "t\<lparr>th_pc := Check Asserting None None\<rparr>"] l(3) c(2,4) n t lk(2) fill
    by (simp add: available_def)
  then obtain buf i where s4: "solo (5 + unat n) ?c (t\<lparr>th_pc := Check Asserting None None\<rparr>) =
      Some ([Sent (take (unat n) dat)], set_index (?c\<lparr>ch_buffer := buf\<rparr>) Sending i, t\<lparr>th_data := dat, th_pc := Unlock True\<rparr>)"
    and b: "length buf = length (ch_buffer c)" and i: "next_index ?c Sending = Some i" by blast
  have i': "i = (ch_tail c + 1) mod ch_size c" using next_index_ring [OF l(3), of Sending] i c(2) by simp
  have c': "set_lock (set_index (?c\<lparr>ch_buffer := buf\<rparr>) Sending i) Sending False =
      c\<lparr>ch_buffer := buf, ch_tail := (ch_tail c + 1) mod ch_size c\<rparr>"
    using c(2) i' l(1) by (cases c) (simp add: set_index_def set_lock_def head_locked_def unbuffered_size)
  have s5: "solo 1 (set_index (?c\<lparr>ch_buffer := buf\<rparr>) Sending i) (t\<lparr>th_data := dat, th_pc := Unlock True\<rparr>) =
      Some ([], c\<lparr>ch_buffer := buf, ch_tail := (ch_tail c + 1) mod ch_size c\<rparr>, t\<lparr>th_data := dat, th_pc := Done True\<rparr>)"
    using c' t(1) by (simp add: thread_next_def)
  have "solo (3 + (1 + (3 + ((5 + unat n) + 1)))) c t = Some ([] @ [] @ [] @ [Sent (take (unat n) dat)] @ [],
      c\<lparr>ch_buffer := buf, ch_tail := (ch_tail c + 1) mod ch_size c\<rparr>, t\<lparr>th_data := dat, th_pc := Done True\<rparr>)"
    by (rule solo_append [OF s1 solo_append [OF s2 solo_append [OF s3 solo_append [OF s4 s5]]]])
  moreover have "3 + (1 + (3 + ((5 + unat n) + 1))) = 13 + unat n" by simp
  ultimately show ?thesis unfolding t_def using b
    by (intro exI [of _ buf] exI [of _ "t\<lparr>th_data := dat, th_pc := Done True\<rparr>"]) (simp add: t_def)
qed

lemma solo_receive:
  assumes c: "chan_inv c" "\<not> channel_unbuffered c" "ch_impl c = MPSC" "0 < fill_count c"
    and n: "n \<le> ch_itemsize c" "unat n \<le> length dat"
  shows "\<exists>buf t' m. solo (8 + unat n) c \<lparr>th_op = Receiving, th_data = dat, th_size = n, th_pc = Check First None None\<rparr> =
    Some ([Received m], c\<lparr>ch_buffer := buf, ch_head := (ch_head c + 1) mod ch_size c\<rparr>, t') \<and>
    length buf = length (ch_buffer c) \<and> th_op t' = Receiving \<and> th_pc t' = Done True"
proof -
  define t where "t = \<lparr>th_op = Receiving, th_data = dat, th_size = n, th_pc = Check First None None\<rparr>"
  have t: "th_op t = Receiving" "th_data t = dat" "th_size t = n" "th_pc t = Check First None None" by (simp_all add: t_def)
  have l: "ring_ok c" using c(1) by (simp add: chan_inv_def ring_ok_def unlocked_def unbuffered_size)
  have lk: "\<not> uses_lock c Receiving" using c(3) by (simp add: uses_lock_def)
  have s1: "solo 3 c t = Some ([], c, t\<lparr>th_pc := Check Asserting None None\<rparr>)"
    using solo_test [OF c(2) t(4)] t(1) refused_ring(2) [OF l] c(4) lk by (simp add: decide_def)
  have "\<exists>buf dat' i. next_index c Receiving = Some i \<and> solo (5 + unat n) c (t\<lparr>th_pc := Check Asserting None None\<rparr>) =
      Some ([Received (take (unat n) dat')], set_index (c\<lparr>ch_buffer := buf\<rparr>) Receiving i, t\<lparr>th_data := dat', th_pc := Done True\<rparr>) \<and>
    length buf = length (ch_buffer c)"
    using solo_transfer [of c "t\<lparr>th_pc := Check Asserting None None\<rparr>"] l c(2,4) n t lk by (auto simp: available_def)
  then obtain buf dat' i where s2: "solo (5 + unat n) c (t\<lparr>th_pc := Check Asserting None None\<rparr>) =
      Some ([Received (take (unat n) dat')], set_index (c\<lparr>ch_buffer := buf\<rparr>) Receiving i, t\<lparr>th_data := dat', th_pc := Done True\<rparr>)"
    and b: "length buf = length (ch_buffer c)" and i: "next_index c Receiving = Some i" by blast
  have i': "i = (ch_head c + 1) mod ch_size c" using next_index_ring [OF l, of Receiving] i c(2) by simp
  have "set_index (c\<lparr>ch_buffer := buf\<rparr>) Receiving i = c\<lparr>ch_buffer := buf, ch_head := (ch_head c + 1) mod ch_size c\<rparr>"
    using i' by (simp add: set_index_def)
  with solo_append [OF s1 s2] have "solo (8 + unat n) c t = Some ([Received (take (unat n) dat')],
      c\<lparr>ch_buffer := buf, ch_head := (ch_head c + 1) mod ch_size c\<rparr>, t\<lparr>th_data := dat', th_pc := Done True\<rparr>)"
    by simp
  then show ?thesis unfolding t_def using b
    by (intro exI [of _ buf] exI [of _ "t\<lparr>th_data := dat', th_pc := Done True\<rparr>"] exI [of _ "take (unat n) dat'"]) (simp add: t_def)
qed

section \<open>Senders that are overtaken\<close>

text \<open>
  Sender 0 reads \<^verbatim>\<open>tail\<close>; sender 1 then sends a message and the receiver, thread 2, receives it;
  only then does sender 0 read \<^verbatim>\<open>head\<close> and decide.
\<close>

definition overtaken :: "uint \<Rightarrow> byte list \<Rightarrow> byte list \<Rightarrow> byte list \<Rightarrow> move list" where
  "overtaken n a b r = [Call 0 Sending a n, Step 0 False] @
     ([Call 1 Sending b n] @ steps_of 1 (13 + unat n)) @ ([Call 2 Receiving r n] @ steps_of 2 (8 + unat n)) @ steps_of 0 2"

definition at_rest :: "channel \<Rightarrow> conc \<Rightarrow> bool" where
  "at_rest c z \<longleftrightarrow> length (threads z) = 3 \<and> (\<forall>t \<in> set (threads z). \<not> active t) \<and> static_eq c (cc z) \<and>
     chan_inv (cc z) \<and> fill_count (cc z) = 0"

lemma ring_indices:
  assumes "chan_inv c" "\<not> channel_unbuffered c"
  shows "1 < unat (ch_size c)" "unat (ch_head c) < unat (ch_size c)" "unat (ch_tail c) < unat (ch_size c)"
    "unat ((ch_tail c + 1) mod ch_size c) = Suc (unat (ch_tail c)) mod unat (ch_size c)"
    "unat ((ch_head c + 1) mod ch_size c) = Suc (unat (ch_head c)) mod unat (ch_size c)"
proof -
  have s: "ch_size c \<noteq> 0" "ch_size c \<noteq> 1" "ch_head c < ch_size c" "ch_tail c < ch_size c"
    using assms by (auto simp: chan_inv_def unbuffered_size)
  have "unat (ch_size c) \<noteq> 0" "unat (ch_size c) \<noteq> 1" using s(1,2) by (metis unat_0_iff, metis unat_1 word_unat_eq_iff)
  then show "1 < unat (ch_size c)" by simp
  show "unat (ch_head c) < unat (ch_size c)" "unat (ch_tail c) < unat (ch_size c)"
    using s(3,4) by (simp_all add: word_less_nat_alt)
  show "unat ((ch_tail c + 1) mod ch_size c) = Suc (unat (ch_tail c)) mod unat (ch_size c)"
    "unat ((ch_head c + 1) mod ch_size c) = Suc (unat (ch_head c)) mod unat (ch_size c)"
    using unat_Suc_less [OF s(4)] unat_Suc_less [OF s(3)] by (simp_all add: unat_mod)
qed

text \<open>An empty channel that a message has passed through looks full to whoever still has the old tail.\<close>

lemma stale_tail:
  assumes "chan_inv c" "\<not> channel_unbuffered c" "fill_count c = 0"
    and that: "static_eq c c'" "length (ch_buffer c') = length (ch_buffer c)"
  shows "refused Sending (seen c' (Some ((ch_head c + 1) mod ch_size c)) (Some (ch_tail c))) = Some True"
proof -
  note i = ring_indices [OF assms(1,2)]
  let ?v = "seen c' (Some ((ch_head c + 1) mod ch_size c)) (Some (ch_tail c))"
  have ht: "unat (ch_head c) = unat (ch_tail c)"
    using assms(2,3) ring_len_0 [OF i(2,3)] by (simp add: fill_count_def)
  have ok: "ring_ok ?v"
    using that assms(1,2) i by (auto simp: ring_ok_def chan_inv_def static_eq_def unbuffered_size seen_def word_less_nat_alt)
  have "fill_count ?v = chan_cap ?v"
    using ring_full [of "Suc (unat (ch_tail c)) mod unat (ch_size c)" "unat (ch_size c)" "unat (ch_tail c)"]
      assms(2) that(1) i ht by (simp add: fill_count_def chan_cap_def static_eq_def seen_def unbuffered_size)
  then show ?thesis using refused_ring(1) [OF ok] by simp
qed

lemma conc_run_call:
  assumes "i < length (threads z)" "\<not> active (threads z ! i)" "may_call op z"
    and "solo k (cc z) \<lparr>th_op = op, th_data = dat, th_size = n, th_pc = Check First None None\<rparr> = Some (es, c', t')"
  shows "conc_run ([Call i op dat n] @ steps_of i k) z = Some (es, z\<lparr>cc := c', threads := (threads z)[i := t']\<rparr>)"
proof -
  let ?t = "\<lparr>th_op = op, th_data = dat, th_size = n, th_pc = Check First None None\<rparr>"
  let ?z = "z\<lparr>threads := (threads z)[i := ?t]\<rparr>"
  have "conc_run [Call i op dat n] z = Some ([], ?z)" using assms(1-3) by (simp add: conc_next_def)
  from conc_run_append [OF this conc_run_solo [OF assms(4), of i ?z]] assms(1) show ?thesis by simp
qed

lemma overtaken_round:
  assumes z: "at_rest c z" and c: "\<not> channel_unbuffered c" "ch_impl c = MPSC" "n \<le> ch_itemsize c"
    and d: "unat n \<le> length b" "unat n \<le> length r"
  shows "\<exists>m z'. conc_run (overtaken n a b r) z = Some ([Sent (take (unat n) b), Received m], z') \<and>
    at_rest c z' \<and> th_pc (threads z' ! 0) = Done False \<and> th_op (threads z' ! 0) = Sending"
proof -
  define c0 where "c0 = cc z"
  have st: "static_eq c c0" "chan_inv c0" "fill_count c0 = 0" "length (threads z) = 3" "\<forall>t \<in> set (threads z). \<not> active t"
    using z by (auto simp: at_rest_def c0_def)
  have c0: "\<not> channel_unbuffered c0" "ch_impl c0 = MPSC" "n \<le> ch_itemsize c0"
    using c static_eqD [OF st(1)] by auto
  note i = ring_indices [OF st(2) c0(1)]
  obtain x0 x1 x2 where th: "threads z = [x0, x1, x2]" "\<not> active x0" "\<not> active x1" "\<not> active x2"
    using st(4,5) by (auto simp: numeral_3_eq_3 length_Suc_conv)
  have ht: "unat (ch_head c0) = unat (ch_tail c0)"
    using c0(1) st(3) ring_len_0 [OF i(2,3)] by (simp add: fill_count_def)
  define t0 where "t0 = \<lparr>th_op = Sending, th_data = a, th_size = n, th_pc = Check First None (Some (ch_tail c0))\<rparr>"
  have r0: "conc_run [Call 0 Sending a n, Step 0 False] z = Some ([], z\<lparr>threads := [t0, x1, x2]\<rparr>)"
    using th c0 by (cases z) (simp add: conc_next_def may_call_def uses_lock_def thread_next_def t0_def c0_def)
  obtain buf t1 where s1: "solo (13 + unat n) c0 \<lparr>th_op = Sending, th_data = b, th_size = n, th_pc = Check First None None\<rparr> =
      Some ([Sent (take (unat n) b)], c0\<lparr>ch_buffer := buf, ch_tail := (ch_tail c0 + 1) mod ch_size c0\<rparr>, t1)"
    "length buf = length (ch_buffer c0)" "th_op t1 = Sending" "th_pc t1 = Done True"
    using solo_send [OF st(2) c0(1,2) _ c0(3) d(1)] st(3) i(1) c0(1) by (auto simp: chan_cap_def)
  define c1 where "c1 = c0\<lparr>ch_buffer := buf, ch_tail := (ch_tail c0 + 1) mod ch_size c0\<rparr>"
  have r1: "conc_run ([Call 1 Sending b n] @ steps_of 1 (13 + unat n)) (z\<lparr>threads := [t0, x1, x2]\<rparr>) =
      Some ([Sent (take (unat n) b)], z\<lparr>cc := c1, threads := [t0, t1, x2]\<rparr>)"
    using conc_run_call [of 1 "z\<lparr>threads := [t0, x1, x2]\<rparr>" Sending "13 + unat n" b n] s1(1) th c0
    by (simp add: c0_def c1_def may_call_def uses_lock_def)
  have c1: "chan_inv c1" "\<not> channel_unbuffered c1" "ch_impl c1 = MPSC" "n \<le> ch_itemsize c1" "0 < fill_count c1"
    using st(2) c0 s1(2) i ht
    by (auto simp: c1_def chan_inv_def unbuffered_size fill_count_def word_less_nat_alt ring_len_cases mod_if)
  obtain buf' t2 m where s2: "solo (8 + unat n) c1 \<lparr>th_op = Receiving, th_data = r, th_size = n, th_pc = Check First None None\<rparr> =
      Some ([Received m], c1\<lparr>ch_buffer := buf', ch_head := (ch_head c1 + 1) mod ch_size c1\<rparr>, t2)"
    "length buf' = length (ch_buffer c1)" "th_op t2 = Receiving" "th_pc t2 = Done True"
    using solo_receive [OF c1(1-3,5,4) d(2)] by blast
  define c2 where "c2 = c1\<lparr>ch_buffer := buf', ch_head := (ch_head c1 + 1) mod ch_size c1\<rparr>"
  have r2: "conc_run ([Call 2 Receiving r n] @ steps_of 2 (8 + unat n)) (z\<lparr>cc := c1, threads := [t0, t1, x2]\<rparr>) =
      Some ([Received m], z\<lparr>cc := c2, threads := [t0, t1, t2]\<rparr>)"
    using conc_run_call [of 2 "z\<lparr>cc := c1, threads := [t0, t1, x2]\<rparr>" Receiving "8 + unat n" r n] s2(1) s1(3,4) th
    by (simp add: c2_def may_call_def t0_def)
  have c2: "chan_inv c2" "static_eq c0 c2" "fill_count c2 = 0" "length (ch_buffer c2) = length (ch_buffer c0)"
      "ch_head c2 = (ch_head c0 + 1) mod ch_size c0" "\<not> channel_unbuffered c2"
    using st(2) c0 s1(2) s2(2) i ht
    by (auto simp: c2_def c1_def chan_inv_def unbuffered_size fill_count_def word_less_nat_alt static_eq_def ring_len_0)
  have "refused Sending (seen c2 (Some (ch_head c2)) (Some (ch_tail c0))) = Some True"
    using stale_tail [OF st(2) c0(1) st(3) c2(2,4)] c2(5) by simp
  then have s3: "solo 2 c2 t0 = Some ([], c2, t0\<lparr>th_pc := Done False\<rparr>)"
    using c2(6) by (simp add: numeral_2_eq_2 thread_next_def t0_def decide_def)
  have r3: "conc_run (steps_of 0 2) (z\<lparr>cc := c2, threads := [t0, t1, t2]\<rparr>) =
      Some ([], z\<lparr>cc := c2, threads := [t0\<lparr>th_pc := Done False\<rparr>, t1, t2]\<rparr>)"
    using conc_run_solo [OF s3, of 0 "z\<lparr>cc := c2, threads := [t0, t1, t2]\<rparr>"] by simp
  have "conc_run (overtaken n a b r) z = Some ([] @ [Sent (take (unat n) b)] @ [Received m] @ [],
      z\<lparr>cc := c2, threads := [t0\<lparr>th_pc := Done False\<rparr>, t1, t2]\<rparr>)"
    unfolding overtaken_def by (rule conc_run_append [OF r0 conc_run_append [OF r1 conc_run_append [OF r2 r3]]])
  moreover have "at_rest c (z\<lparr>cc := c2, threads := [t0\<lparr>th_pc := Done False\<rparr>, t1, t2]\<rparr>)"
    using c2 st(1) s1(4) s2(4) by (simp add: at_rest_def active_def static_eq_def)
  ultimately show ?thesis by (intro exI [of _ m] exI) (auto simp: t0_def)
qed

lemma overtaken_rounds:
  assumes "at_rest c z" "\<not> channel_unbuffered c" "ch_impl c = MPSC" "n \<le> ch_itemsize c" "unat n \<le> length b" "unat n \<le> length r"
  shows "\<exists>es z'. conc_run (concat (replicate k (overtaken n a b r))) z = Some (es, z') \<and> at_rest c z' \<and>
    sent es = replicate k (take (unat n) b) \<and> (0 < k \<longrightarrow> th_pc (threads z' ! 0) = Done False \<and> th_op (threads z' ! 0) = Sending)"
  using assms(1)
proof (induction k arbitrary: z)
  case 0
  then show ?case by (simp add: sent_def)
next
  case (Suc k)
  obtain m z1 where r: "conc_run (overtaken n a b r) z = Some ([Sent (take (unat n) b), Received m], z1)"
    "at_rest c z1" "th_pc (threads z1 ! 0) = Done False \<and> th_op (threads z1 ! 0) = Sending"
    using overtaken_round [OF Suc.prems assms(2-6)] by blast
  from Suc.IH [OF r(2)] obtain es z' where
    s: "conc_run (concat (replicate k (overtaken n a b r))) z1 = Some (es, z')" "at_rest c z'"
      "sent es = replicate k (take (unat n) b)" "0 < k \<longrightarrow> th_pc (threads z' ! 0) = Done False \<and> th_op (threads z' ! 0) = Sending" by blast
  have "k = 0 \<Longrightarrow> z' = z1" using s(1) by simp
  then have "th_pc (threads z' ! 0) = Done False \<and> th_op (threads z' ! 0) = Sending" using s(4) r(3) by (cases k) auto
  moreover have "sent ([Sent (take (unat n) b), Received m] @ es) = replicate (Suc k) (take (unat n) b)"
    using s(3) by (simp add: sent_def)
  ultimately show ?case using conc_run_append [OF r(1) s(1)] s(2) by auto
qed


section \<open>Properties\<close>

text \<open>A channel for three messages of one byte, used by two senders and one receiver, and schedules for it.\<close>

definition small_channel :: "int \<Rightarrow> channel" where
  "small_channel impl = the (channel_new True True (\<lambda>_. 0) 1 3 impl)"

definition send_receive :: "move list" where
  "send_receive = [Call 1 Sending [5] 1] @ steps_of 1 14 @ [Call 2 Receiving [0] 1] @ steps_of 2 9"

definition send_alone :: "move list" where
  "send_alone = [Call 1 Sending [5] 1] @ steps_of 1 9"

definition overlapping :: "move list" where
  "overlapping = [Call 0 Sending [7] 1, Call 1 Sending [5] 1] @ steps_of 0 4 @ steps_of 1 3 @ steps_of 0 6 @
     [Call 2 Receiving [0] 1] @ steps_of 2 1 @ steps_of 0 4 @ steps_of 2 8 @ steps_of 1 5"

lemma small_channel_inv:
  "chan_inv (small_channel MPSC)" "chan_inv (small_channel SPSC)" "chan_items 1 (small_channel MPSC) = []"
  "ch_itemsize (small_channel impl) = 1" "ch_impl (small_channel impl) = impl" "chan_cap (small_channel impl) = 3"
  by (simp_all add: small_channel_def channel_new_def chan_inv_def unbuffered_size chan_items_def chan_slots_def chan_cap_def
      ring_items_def ring_len_def)

text \<open>
  Property C10. Channels are linearizable: whatever threads call \<^verbatim>\<open>channel_send\<close> and \<^verbatim>\<open>channel_receive\<close> on a channel,
  and however their accesses to memory interleave, the messages that were in the channel followed
  by those sent are the messages received followed by those in the channel, in this order and byte
  for byte; and the channel never holds more than its capacity. Each implementation is used by as
  many threads at a time as its name says.
\<close>

theorem channel_linearizable:
  assumes "chan_inv c" "n \<le> ch_itemsize c" "\<forall>m \<in> set ms. sized n m" "conc_run ms (conc_init k c) = Some (es, z)"
  shows "chan_items n c @ sent es = received es @ chan_items n (cc z) \<and> length (chan_items n (cc z)) \<le> chan_cap c"
proof -
  note r = conc_run_inv [OF conc_init_inv [OF assms(1,2)] assms(3,4)]
  have "ring_ok (cc z)" using r by (simp add: conc_inv_def)
  moreover have "chan_cap (cc z) = chan_cap c" using r static_eqD(6) [of c "cc z"] by (simp add: conc_init_def)
  ultimately have "length (chan_items n (cc z)) \<le> chan_cap c" using slots_le [of "cc z"] by (simp add: chan_items_def)
  then show ?thesis using r by (simp add: conc_init_def)
qed

theorem channel_linearizable_witness:
  "\<exists>es z. conc_run overlapping (conc_init 3 (small_channel MPSC)) = Some (es, z) \<and>
    sent es = received es @ chan_items 1 (cc z) \<and> received es = [[7]]"
proof -
  have e: "map_option (\<lambda>(es, z). received es) (conc_run overlapping (conc_init 3 (small_channel MPSC))) = Some [[7]]" by code_simp
  then obtain es z where r: "conc_run overlapping (conc_init 3 (small_channel MPSC)) = Some (es, z)" by auto
  have m: "\<forall>m \<in> set overlapping. sized 1 m" by code_simp
  show ?thesis using channel_linearizable [OF small_channel_inv(1) _ m r] e r small_channel_inv by auto
qed

text \<open>
  Property C11. No thread that uses a channel fails an assertion or copies beyond a buffer, in any interleaving:
  what was tested before the lock is taken, or without a lock, still holds when it is asserted and
  until the message is published.
\<close>

theorem channel_no_abort:
  assumes "chan_inv c" "n \<le> ch_itemsize c" "\<forall>m \<in> set ms. sized n m" "conc_run ms (conc_init k c) = Some (es, z)"
  shows "\<forall>t \<in> set (threads z). th_pc t \<noteq> Aborted"
  using conc_run_inv [OF conc_init_inv [OF assms(1,2)] assms(3,4)] by (auto simp: conc_inv_def thread_wf_def)

theorem channel_no_abort_witness:
  "\<exists>es z. conc_run overlapping (conc_init 3 (small_channel MPSC)) = Some (es, z) \<and> th_pc (threads z ! 0) \<noteq> Aborted"
proof -
  have e: "map_option (\<lambda>(es, z). length (threads z)) (conc_run overlapping (conc_init 3 (small_channel MPSC))) = Some 3" by code_simp
  then obtain es z where r: "conc_run overlapping (conc_init 3 (small_channel MPSC)) = Some (es, z)" "length (threads z) = 3" by auto
  have m: "\<forall>m \<in> set overlapping. sized 1 m" by code_simp
  show ?thesis using channel_no_abort [OF small_channel_inv(1) _ m r(1)] r small_channel_inv by auto
qed

text \<open>
  Property C12. The locks of a channel do not deadlock: as long as a thread is in a call, some thread can
  move, and when none is, the locks are free and the channel is as one call after the other would leave it.
\<close>

theorem channel_progress:
  assumes "chan_inv c" "n \<le> ch_itemsize c" "\<forall>m \<in> set ms. sized n m" "conc_run ms (conc_init k c) = Some (es, z)"
  shows "if \<exists>t \<in> set (threads z). active t then \<exists>i b. conc_next (Step i b) z \<noteq> None else chan_inv (cc z)"
proof -
  note i = conc_init_inv [OF assms(1,2), of k]
  note r = conc_run_inv [OF i assms(3,4)] and l = conc_run_locks [OF i conc_init_locks [OF assms(1)] assms(3,4)]
  show ?thesis using r l conc_progress conc_quiescent by auto
qed

theorem channel_progress_witness:
  "\<exists>es z. conc_run send_receive (conc_init 3 (small_channel MPSC)) = Some (es, z) \<and> chan_inv (cc z)"
proof -
  have e: "map_option (\<lambda>(es, z). list_ex active (threads z)) (conc_run send_receive (conc_init 3 (small_channel MPSC))) = Some False"
    by code_simp
  then obtain es z where r: "conc_run send_receive (conc_init 3 (small_channel MPSC)) = Some (es, z)" "\<not> list_ex active (threads z)" by auto
  have m: "\<forall>m \<in> set send_receive. sized 1 m" by code_simp
  show ?thesis using channel_progress [OF small_channel_inv(1) _ m r(1)] r small_channel_inv by (auto simp: list_ex_iff)
qed

text \<open>
  Property C13. The side of a channel that takes no lock gets exact answers: a receiver of an MPSC or SPSC
  channel, or a sender of an SPSC channel, is refused only if the channel is empty, or full, at some
  moment during the run.
\<close>

theorem channel_answers_exact:
  assumes "chan_inv c" "n \<le> ch_itemsize c" "\<forall>m \<in> set ms. sized n m" "conc_run ms (conc_init k c) = Some (es, z)"
    and "\<not> uses_lock c op" "\<forall>y \<in> set (conc_states ms (conc_init k c)). available op (cc y)"
  shows "\<forall>t \<in> set (threads z). th_op t = op \<longrightarrow> th_pc t \<noteq> Done False"
proof -
  have u: "\<not> uses_lock (cc (conc_init k c)) op" "\<forall>t \<in> set (threads (conc_init k c)). never_refused op (cc (conc_init k c)) t"
    using assms(5) by (auto simp: conc_init_def never_refused_def)
  show ?thesis
    using conc_run_never_refused [OF conc_init_inv [OF assms(1,2)] u assms(3,6,4)] by (auto simp: never_refused_def)
qed

theorem channel_answers_exact_witness:
  "\<exists>es z. conc_run send_alone (conc_init 3 (small_channel SPSC)) = Some (es, z) \<and> th_pc (threads z ! 1) \<noteq> Done False"
proof -
  have e: "map_option (\<lambda>(es, z). (length (threads z), th_op (threads z ! 1)))
      (conc_run send_alone (conc_init 3 (small_channel SPSC))) = Some (3, Sending)" by code_simp
  then obtain es z where r: "conc_run send_alone (conc_init 3 (small_channel SPSC)) = Some (es, z)"
    and z: "length (threads z) = 3" "th_op (threads z ! 1) = Sending" by auto
  have m: "\<forall>m \<in> set send_alone. sized 1 m" by code_simp
  have a: "\<forall>y \<in> set (conc_states send_alone (conc_init 3 (small_channel SPSC))). available Sending (cc y)" by code_simp
  have "\<not> uses_lock (small_channel SPSC) Sending" by (simp add: uses_lock_def small_channel_inv)
  from channel_answers_exact [OF small_channel_inv(2) _ m r this a] r z small_channel_inv show ?thesis by auto
qed

text \<open>
  Property C14. A sender of an MPSC channel may be refused although the channel is empty, and as many times in a
  row as one likes: on every buffered channel, of any size and for messages of any length that fits,
  there is an interleaving in which \<open>k\<close> calls of \<^verbatim>\<open>channel_send\<close> by one thread all find the channel full,
  while the \<open>k\<close> messages another thread sends are received one by one, and the channel is
  empty after each of them. The refused sender compares the \<^verbatim>\<open>tail\<close> it has read before a message was sent and received with the
  \<^verbatim>\<open>head\<close> it reads afterwards. Three times are enough for \<^verbatim>\<open>SEND_REQ\<close> to fail its assertion.
\<close>

theorem send_fails_spuriously:
  assumes "chan_inv c" "\<not> channel_unbuffered c" "ch_impl c = MPSC" "chan_slots c = []"
    and "n \<le> ch_itemsize c" "unat n \<le> length a" "unat n \<le> length b" "unat n \<le> length r" "0 < k"
  shows "\<exists>es z. conc_run (concat (replicate k (overtaken n a b r))) (conc_init 3 c) = Some (es, z) \<and>
    th_pc (threads z ! 0) = Done False \<and> th_op (threads z ! 0) = Sending \<and>
    sent es = replicate k (take (unat n) b) \<and> received es = replicate k (take (unat n) b) \<and> chan_slots (cc z) = []"
proof -
  have "at_rest c (conc_init 3 c)"
    using assms(1,4) by (simp add: at_rest_def conc_init_def active_def static_eq_def)
  from overtaken_rounds [OF this assms(2,3,5,7,8), of k a] obtain es z where
    r: "conc_run (concat (replicate k (overtaken n a b r))) (conc_init 3 c) = Some (es, z)" "at_rest c z"
      "sent es = replicate k (take (unat n) b)" "th_pc (threads z ! 0) = Done False" "th_op (threads z ! 0) = Sending"
    using assms(9) by blast
  have "\<forall>m \<in> set (concat (replicate k (overtaken n a b r))). sized n m"
    using assms(6-8) by (auto simp: overtaken_def steps_of_def sized_def)
  from conc_run_inv [OF conc_init_inv [OF assms(1,5)] this r(1)]
  have "chan_items n c @ sent es = received es @ chan_items n (cc z)" by (simp add: conc_init_def)
  moreover have "chan_slots (cc z) = []" using r(2) by (simp add: at_rest_def)
  ultimately have "received es = sent es" using assms(4) by (simp add: chan_items_def)
  with r \<open>chan_slots (cc z) = []\<close> show ?thesis by auto
qed

theorem send_fails_spuriously_witness:
  "\<exists>es z. conc_run (concat (replicate 3 (overtaken 1 [7] [5] [0]))) (conc_init 3 (small_channel MPSC)) = Some (es, z) \<and>
    th_pc (threads z ! 0) = Done False \<and> received es = [[5], [5], [5]] \<and> chan_slots (cc z) = []"
proof -
  have "\<not> channel_unbuffered (small_channel MPSC)" "chan_slots (small_channel MPSC) = []"
    using small_channel_inv(3) by (simp_all add: small_channel_def channel_new_def unbuffered_size chan_items_def)
  from send_fails_spuriously [OF small_channel_inv(1) this(1) small_channel_inv(5) this(2), of 1 "[7]" "[5]" "[0]" 3]
  show ?thesis by (auto simp: small_channel_inv numeral_3_eq_3)
qed

end
