(* ===== verification/Bits.thy ===== *)
theory Bits
  imports Prelude
begin

text \<open>
  The bit utilities of \<^verbatim>\<open>src/bit.h\<close> on 32-bit unsigned integers: single bits and masks, the
  rightmost one and zero bits, the XOR swap and the branch-free minimum and maximum, counting
  and locating one bits, and rounding to powers of two. The victim sets of steal requests
  (\<^verbatim>\<open>src/runtime.c\<close>) are bit fields manipulated with these operations.
\<close>

unbundle bit_operations_syntax

section \<open>Definitions\<close>

text \<open>\<open>1u << n\<close> is defined for \<open>n < 32\<close> only; every use below is guarded or in that range.\<close>

definition BIT :: "nat \<Rightarrow> uint" where
  "BIT n = push_bit n 1"

definition BIT_MASK_32 :: "nat \<Rightarrow> uint" where
  "BIT_MASK_32 n = (if n \<ge> 32 then - 1 else BIT n - 1)"

definition BIT_MASK_64 :: "nat \<Rightarrow> uint" where
  "BIT_MASK_64 n = (if n \<ge> 64 then - 1 else BIT n - 1)"

definition IS_EVEN :: "uint \<Rightarrow> bool" where
  "IS_EVEN n = (n AND BIT 0 = 0)"

definition IS_ODD :: "uint \<Rightarrow> bool" where
  "IS_ODD n = (n AND BIT 0 = 1)"

definition ZERO_RIGHTMOST_ONE_BIT :: "uint \<Rightarrow> uint" where
  "ZERO_RIGHTMOST_ONE_BIT n = n AND (n - 1)"

definition ISOLATE_RIGHTMOST_ONE_BIT :: "uint \<Rightarrow> uint" where
  "ISOLATE_RIGHTMOST_ONE_BIT n = n AND NOT (n - 1)"

definition SET_RIGHTMOST_ZERO_BIT :: "uint \<Rightarrow> uint" where
  "SET_RIGHTMOST_ZERO_BIT n = n OR (n + 1)"

definition ISOLATE_RIGHTMOST_ZERO_BIT :: "uint \<Rightarrow> uint" where
  "ISOLATE_RIGHTMOST_ZERO_BIT n = NOT n AND (n + 1)"

definition SWAP :: "uint \<Rightarrow> uint \<Rightarrow> uint \<times> uint" where
  "SWAP x y =
     (let x = x XOR y;
          y = x XOR y;
          x = x XOR y
      in (x, y))"

definition MIN_bits :: "uint \<Rightarrow> uint \<Rightarrow> uint" where
  "MIN_bits x y = y XOR ((x XOR y) AND - of_bool (x < y))"

definition MAX_bits :: "uint \<Rightarrow> uint \<Rightarrow> uint" where
  "MAX_bits x y = y XOR ((x XOR y) AND - of_bool (x > y))"

lemma ZERO_RIGHTMOST_ONE_BIT_less:
  assumes "n \<noteq> 0"
  shows "ZERO_RIGHTMOST_ONE_BIT n < n"
proof -
  have "n AND (n - 1) \<le> n - 1"
    by (rule word_and_le1)
  also have "n - 1 < n"
    using assms by (simp add: word_less_nat_alt unat_minus_one unat_gt_0)
  finally show ?thesis by (simp add: ZERO_RIGHTMOST_ONE_BIT_def)
qed

text \<open>The loop of \<^verbatim>\<open>count_one_bits\<close>: \<open>i\<close> is the loop variable, \<open>count\<close> the counter.\<close>

function count_loop :: "uint \<Rightarrow> uint \<Rightarrow> uint" where
  "count_loop i count =
     (if i \<noteq> 0 then count_loop (ZERO_RIGHTMOST_ONE_BIT i) (count + 1) else count)"
  by pat_completeness auto
termination
  by (relation "measure (\<lambda>(i, count). unat i)")
    (auto simp: ZERO_RIGHTMOST_ONE_BIT_less unat_mono)

definition count_one_bits :: "uint \<Rightarrow> uint" where
  "count_one_bits n = count_loop n 0"

text \<open>The loop of \<^verbatim>\<open>rightmost_one_bit_pos\<close>: \<open>i >>= 1\<close> until it is zero.\<close>

lemma drop_bit_1_less: "(i :: 'a::len word) \<noteq> 0 \<Longrightarrow> drop_bit 1 i < i"
  by (simp add: word_less_nat_alt unat_div unat_gt_0 drop_bit_Suc)

function pos_loop :: "uint \<Rightarrow> int \<Rightarrow> int" where
  "pos_loop i pos = (if i \<noteq> 0 then pos_loop (drop_bit 1 i) (pos + 1) else pos)"
  by pat_completeness auto
termination
  by (relation "measure (\<lambda>(i, pos). unat i)") (use drop_bit_1_less in \<open>auto simp: word_less_nat_alt\<close>)

definition rightmost_one_bit_pos :: "uint \<Rightarrow> int" where
  "rightmost_one_bit_pos n = pos_loop (ISOLATE_RIGHTMOST_ONE_BIT n) (- 1)"

definition IS_POWER_OF_TWO :: "uint \<Rightarrow> bool" where
  "IS_POWER_OF_TWO n = (ZERO_RIGHTMOST_ONE_BIT n = 0)"

function round_down_loop :: "uint \<Rightarrow> uint" where
  "round_down_loop n =
     (if ZERO_RIGHTMOST_ONE_BIT n > 0 then round_down_loop (ZERO_RIGHTMOST_ONE_BIT n) else n)"
  by pat_completeness auto
termination
proof (relation "measure unat")
  fix n :: uint
  assume "ZERO_RIGHTMOST_ONE_BIT n > 0"
  then have "n \<noteq> 0" by (auto simp: ZERO_RIGHTMOST_ONE_BIT_def)
  then show "(ZERO_RIGHTMOST_ONE_BIT n, n) \<in> measure unat"
    by (simp add: ZERO_RIGHTMOST_ONE_BIT_less unat_mono)
qed simp

definition round_down_power_of_two :: "uint \<Rightarrow> uint" where
  "round_down_power_of_two n = (if IS_POWER_OF_TWO n then n else round_down_loop n)"

definition round_up_power_of_two :: "uint \<Rightarrow> uint" where
  "round_up_power_of_two n =
     (if IS_POWER_OF_TWO n then n else push_bit 1 (round_down_power_of_two n))"

definition round_up_power_of_two_2 :: "uint \<Rightarrow> uint" where
  "round_up_power_of_two_2 n =
     (let n = n - 1;
          n = n OR drop_bit 1 n;
          n = n OR drop_bit 2 n;
          n = n OR drop_bit 4 n;
          n = n OR drop_bit 8 n;
          n = n OR drop_bit 16 n
      in n + 1)"

declare count_loop.simps [simp del] pos_loop.simps [simp del] round_down_loop.simps [simp del]

section \<open>The bits of a word\<close>

text \<open>Reference notions: the set of one bits, the leftmost one bit, and smearing to the right.\<close>

definition one_bits :: "uint \<Rightarrow> nat set" where
  "one_bits n = {i. bit n i}"

definition leftmost :: "uint \<Rightarrow> nat" where
  "leftmost n = Max (one_bits n)"

definition smear :: "uint \<Rightarrow> uint" where
  "smear n =
     (let n = n OR drop_bit 1 n;
          n = n OR drop_bit 2 n;
          n = n OR drop_bit 4 n;
          n = n OR drop_bit 8 n
      in n OR drop_bit 16 n)"

lemma bit_uint_less: "bit (w :: uint) i \<Longrightarrow> i < 32"
  using bit_word_less [of w i] by simp

lemma bit_BIT: "n < 32 \<Longrightarrow> bit (BIT n) i \<longleftrightarrow> i = n"
  by (auto simp: BIT_def bit_exp_iff)

lemma BIT_eq_pow: "BIT n = 2 ^ n"
  by (simp add: BIT_def push_bit_eq_mult)

lemma BIT_MASK_32_mask: "BIT_MASK_32 n = mask n"
proof (cases "n \<ge> 32")
  case True
  then have "(mask n :: uint) = - 1"
    by (intro bit_word_eqI) (simp add: bit_mask_iff bit_minus_1_iff)
  with True show ?thesis by (simp add: BIT_MASK_32_def)
qed (simp add: BIT_MASK_32_def BIT_eq_pow mask_eq_exp_minus_1)

text \<open>A nonzero word has a rightmost one bit.\<close>
lemma rightmost_bit_exists:
  fixes n :: uint
  assumes "n \<noteq> 0"
  obtains k where "bit n k" "k < 32" "\<And>i. i < k \<Longrightarrow> \<not> bit n i"
proof -
  obtain j where "bit n j" using assms bit_word_eqI [of n 0] by auto
  define k where "k = (LEAST i. bit n i)"
  have "bit n k" unfolding k_def by (rule LeastI) (rule \<open>bit n j\<close>)
  moreover have "\<not> bit n i" if "i < k" for i using not_less_Least that unfolding k_def by blast
  moreover have "k < 32" using bit_word_less [OF \<open>bit n k\<close>] by simp
  ultimately show ?thesis using that by blast
qed

lemma minus_one_bits:
  fixes n :: uint
  assumes "bit n k" and low: "\<And>i. i < k \<Longrightarrow> \<not> bit n i"
  shows "n - 1 = unset_bit k n OR mask k"
proof -
  have k: "k < 32" using bit_word_less [OF assms(1)] by simp
  have "n = unset_bit k n + 2 ^ k"
    using assms(1) by (simp add: unset_bit_eq)
  then have "n - 1 = unset_bit k n + mask k"
    by (simp add: mask_eq_exp_minus_1 algebra_simps)
  also have "\<dots> = unset_bit k n OR mask k"
    by (rule disjunctive_add) (use low in \<open>auto simp: bit_unset_bit_iff bit_mask_iff\<close>)
  finally show ?thesis .
qed

lemma ZERO_RIGHTMOST_ONE_BIT_unset:
  assumes "bit n k" and low: "\<And>i. i < k \<Longrightarrow> \<not> bit n i"
  shows "ZERO_RIGHTMOST_ONE_BIT n = unset_bit k n"
proof (rule bit_word_eqI)
  fix i
  assume "i < LENGTH(32)"
  then show "bit (ZERO_RIGHTMOST_ONE_BIT n) i = bit (unset_bit k n) i"
    using low [of i] by (auto simp: ZERO_RIGHTMOST_ONE_BIT_def minus_one_bits [OF assms] bit_simps)
qed

lemma ISOLATE_RIGHTMOST_ONE_BIT_BIT:
  assumes "bit n k" and low: "\<And>i. i < k \<Longrightarrow> \<not> bit n i"
  shows "ISOLATE_RIGHTMOST_ONE_BIT n = BIT k"
proof (rule bit_word_eqI)
  fix i
  assume "i < LENGTH(32)"
  then show "bit (ISOLATE_RIGHTMOST_ONE_BIT n) i = bit (BIT k) i"
    using low [of i] assms(1) bit_word_less [OF assms(1)]
    by (auto simp: ISOLATE_RIGHTMOST_ONE_BIT_def minus_one_bits [OF assms] bit_simps bit_BIT)
qed

lemma one_bits_iff [simp]: "i \<in> one_bits n \<longleftrightarrow> bit n i"
  by (simp add: one_bits_def)

lemma one_bits_subset: "one_bits n \<subseteq> {..<32}"
  by (auto simp: one_bits_def dest: bit_word_less)

lemma finite_one_bits [simp]: "finite (one_bits n)"
  by (rule finite_subset [OF one_bits_subset]) simp

lemma card_one_bits_le: "card (one_bits n) \<le> 32"
  using card_mono [OF _ one_bits_subset, of n] by simp

lemma one_bits_empty [simp]: "one_bits n = {} \<longleftrightarrow> n = 0"
  by (auto simp: one_bits_def intro: bit_word_eqI)

lemma one_bits_0 [simp]: "one_bits 0 = {}"
  by simp

lemma one_bits_unset_bit: "one_bits (unset_bit k n) = one_bits n - {k}"
  by (auto simp: one_bits_def bit_unset_bit_iff)

lemma count_loop_card: "count_loop n c = c + of_nat (card (one_bits n))"
proof (induction n c rule: count_loop.induct)
  case (1 i c)
  show ?case
  proof (cases "i = 0")
    case False
    then obtain k where k: "bit i k" "\<And>j. j < k \<Longrightarrow> \<not> bit i j"
      by (rule rightmost_bit_exists) blast
    have z: "ZERO_RIGHTMOST_ONE_BIT i = unset_bit k i"
      using k by (rule ZERO_RIGHTMOST_ONE_BIT_unset)
    have "k \<in> one_bits i" using k(1) by (simp add: one_bits_def)
    then have "card (one_bits i) = Suc (card (one_bits (ZERO_RIGHTMOST_ONE_BIT i)))"
      unfolding z one_bits_unset_bit by (metis card_Suc_Diff1 finite_one_bits)
    then show ?thesis
      using "1.IH" False by (simp add: count_loop.simps [of i c])
  next
    case True
    then show ?thesis by (simp add: count_loop.simps [of 0 c])
  qed
qed

lemma unat_count_one_bits: "unat (count_one_bits n) = card (one_bits n)"
  using card_one_bits_le [of n]
  by (simp add: count_one_bits_def count_loop_card unat_of_nat)

lemma pos_loop_BIT: "k < 32 \<Longrightarrow> pos_loop (BIT k) p = p + int k + 1"
proof (induction k arbitrary: p)
  case 0
  then show ?case by (simp add: BIT_def pos_loop.simps [of 1] pos_loop.simps [of 0] drop_bit_Suc)
next
  case (Suc k)
  have "drop_bit 1 (BIT (Suc k)) = BIT k"
    by (rule bit_word_eqI) (use Suc.prems in \<open>auto simp: bit_drop_bit_eq bit_BIT\<close>)
  moreover have "BIT (Suc k) \<noteq> 0"
    using bit_BIT [OF Suc.prems, of "Suc k"] by auto
  ultimately show ?case
    using Suc by (simp add: pos_loop.simps [of "BIT (Suc k)"])
qed
lemma rightmost_one_bit_pos_eq:
  assumes "bit n k" and "\<And>i. i < k \<Longrightarrow> \<not> bit n i"
  shows "rightmost_one_bit_pos n = int k"
  using pos_loop_BIT [of k "-1"] bit_word_less [OF assms(1)]
  by (simp add: rightmost_one_bit_pos_def ISOLATE_RIGHTMOST_ONE_BIT_BIT [OF assms])

lemma rightmost_one_bit_pos_0: "rightmost_one_bit_pos 0 = - 1"
  by (simp add: rightmost_one_bit_pos_def ISOLATE_RIGHTMOST_ONE_BIT_def pos_loop.simps)

section \<open>Powers of two\<close>

lemma one_bits_BIT: "k < 32 \<Longrightarrow> one_bits (BIT k) = {k}"
  by (auto simp: one_bits_def bit_BIT)

lemma one_bits_inject: "one_bits m = one_bits n \<longleftrightarrow> m = n"
  by (auto simp: one_bits_def set_eq_iff intro: bit_word_eqI)

lemma rightmost_is_Min:
  assumes "n \<noteq> 0"
  shows "bit n (Min (one_bits n))" and "i < Min (one_bits n) \<Longrightarrow> \<not> bit n i"
proof -
  from assms show "bit n (Min (one_bits n))"
    using Min_in [of "one_bits n"] by simp
  show "\<not> bit n i" if "i < Min (one_bits n)"
    using that Min_le [of "one_bits n" i] by fastforce
qed

lemma one_bits_ZERO_RIGHTMOST:
  "n \<noteq> 0 \<Longrightarrow> one_bits (ZERO_RIGHTMOST_ONE_BIT n) = one_bits n - {Min (one_bits n)}"
  using ZERO_RIGHTMOST_ONE_BIT_unset rightmost_is_Min one_bits_unset_bit by metis

lemma leftmost_less: "n \<noteq> 0 \<Longrightarrow> leftmost n < 32"
  using one_bits_subset [of n] by (auto simp: leftmost_def)

lemma bit_leftmost: "n \<noteq> 0 \<Longrightarrow> bit n (leftmost n)"
  using Max_in [of "one_bits n"] by (simp add: leftmost_def)

lemma leftmost_ge: "bit n i \<Longrightarrow> i \<le> leftmost n"
  by (simp add: leftmost_def)

lemma leftmost_eqI: "bit n k \<Longrightarrow> (\<And>i. bit n i \<Longrightarrow> i \<le> k) \<Longrightarrow> leftmost n = k"
  by (metis bit_leftmost leftmost_ge order_antisym bit_0_eq bot_apply bot_bool_def)

lemma IS_POWER_OF_TWO_bits: "n \<noteq> 0 \<Longrightarrow> IS_POWER_OF_TWO n \<longleftrightarrow> n = BIT (leftmost n)"
proof -
  assume n: "n \<noteq> 0"
  have "IS_POWER_OF_TWO n \<longleftrightarrow> one_bits n - {Min (one_bits n)} = {}"
    by (simp add: IS_POWER_OF_TWO_def flip: one_bits_ZERO_RIGHTMOST [OF n])
  also have "\<dots> \<longleftrightarrow> one_bits n = {leftmost n}"
    using bit_leftmost [OF n] rightmost_is_Min(1) [OF n]
    by (metis Diff_eq_empty_iff Diff_insert_absorb insert_Diff_single insert_absorb one_bits_iff
        singleton_insert_inj_eq' insert_subset empty_subsetI subset_antisym singletonD)
  also have "\<dots> \<longleftrightarrow> n = BIT (leftmost n)"
    using n by (metis one_bits_BIT leftmost_less one_bits_inject)
  finally show ?thesis .
qed

lemma round_down_loop_leftmost: "n \<noteq> 0 \<Longrightarrow> round_down_loop n = BIT (leftmost n)"
proof (induction n rule: round_down_loop.induct)
  case (1 n)
  let ?z = "ZERO_RIGHTMOST_ONE_BIT n"
  show ?case
  proof (cases "?z = 0")
    case True
    then show ?thesis
      using IS_POWER_OF_TWO_bits [OF 1(2)]
      by (simp add: round_down_loop.simps [of n] IS_POWER_OF_TWO_def)
  next
    case False
    have "leftmost n = leftmost ?z"
    proof (rule leftmost_eqI)
      show "bit n (leftmost ?z)"
        using bit_leftmost [OF False] one_bits_ZERO_RIGHTMOST [OF 1(2)] by (auto simp: one_bits_def)
      fix i assume i: "bit n i"
      show "i \<le> leftmost ?z"
      proof (cases "i = Min (one_bits n)")
        case True
        have "leftmost ?z \<in> one_bits n"
          using bit_leftmost [OF False] one_bits_ZERO_RIGHTMOST [OF 1(2)] by (auto simp: one_bits_def)
        then show ?thesis using True by simp
      next
        case nm: False
        then have "bit ?z i" using i one_bits_ZERO_RIGHTMOST [OF 1(2)] by (auto simp: one_bits_def)
        then show ?thesis by (rule leftmost_ge)
      qed
    qed
    with False 1 show ?thesis
      by (simp add: round_down_loop.simps [of n] word_neq_0_conv)
  qed
qed

lemma round_down_power_of_two_leftmost:
  "n \<noteq> 0 \<Longrightarrow> round_down_power_of_two n = BIT (leftmost n)"
  by (simp add: round_down_power_of_two_def IS_POWER_OF_TWO_bits round_down_loop_leftmost)

lemma unat_leftmost_bounds:
  assumes "n \<noteq> 0"
  shows "2 ^ leftmost n \<le> unat n" and "unat n < 2 ^ Suc (leftmost n)"
proof -
  have "bit (unat n) (leftmost n)"
    using bit_leftmost [OF assms] by (simp add: bit_unsigned_iff)
  then have "unat n div 2 ^ leftmost n \<noteq> 0"
    by (metis bit_iff_odd dvd_0_right)
  then show "2 ^ leftmost n \<le> unat n"
    by (simp add: div_eq_0_iff not_less)
  have "take_bit (Suc (leftmost n)) (unat n) = unat n"
    by (rule bit_eqI) (use leftmost_ge [of n] in \<open>auto simp: bit_take_bit_iff bit_unsigned_iff le_imp_less_Suc\<close>)
  then show "unat n < 2 ^ Suc (leftmost n)"
    by (metis take_bit_nat_less_exp)
qed

lemma smear_step:
  assumes "\<And>i. bit x i \<longleftrightarrow> (\<exists>j. i \<le> j \<and> j < i + t \<and> bit (m :: uint) j)"
  shows "bit (x OR drop_bit t x) i \<longleftrightarrow> (\<exists>j. i \<le> j \<and> j < i + 2 * t \<and> bit m j)"
proof -
  have "bit (x OR drop_bit t x) i \<longleftrightarrow> bit x i \<or> bit x (i + t)"
    by (simp add: bit_or_iff bit_drop_bit_eq add.commute)
  also have "\<dots> \<longleftrightarrow> (\<exists>j. i \<le> j \<and> j < i + 2 * t \<and> bit m j)"
    unfolding assms mult_2 add.assoc [symmetric] by (meson le_add1 le_trans less_le_trans not_le)
  finally show ?thesis .
qed

lemma round_up_power_of_two_2_smear: "round_up_power_of_two_2 n = smear (n - 1) + 1"
  by (simp add: round_up_power_of_two_2_def smear_def Let_def)

lemma bit_smear: "bit (smear m) i \<longleftrightarrow> (\<exists>j \<ge> i. bit m j)"
proof -
  define a b c d where "a = m OR drop_bit 1 m" and "b = a OR drop_bit 2 a"
    and "c = b OR drop_bit 4 b" and "d = c OR drop_bit 8 c"
  have m: "bit m i \<longleftrightarrow> (\<exists>j. i \<le> j \<and> j < i + 1 \<and> bit m j)" for i
    by (metis Suc_eq_plus1 less_Suc_eq_le nle_le)
  have a: "bit a i \<longleftrightarrow> (\<exists>j. i \<le> j \<and> j < i + 2 \<and> bit m j)" for i
    unfolding a_def using smear_step [OF m] by simp
  have b: "bit b i \<longleftrightarrow> (\<exists>j. i \<le> j \<and> j < i + 4 \<and> bit m j)" for i
    unfolding b_def using smear_step [OF a] by simp
  have c: "bit c i \<longleftrightarrow> (\<exists>j. i \<le> j \<and> j < i + 8 \<and> bit m j)" for i
    unfolding c_def using smear_step [OF b] by simp
  have d: "bit d i \<longleftrightarrow> (\<exists>j. i \<le> j \<and> j < i + 16 \<and> bit m j)" for i
    unfolding d_def using smear_step [OF c] by simp
  have "bit (smear m) i \<longleftrightarrow> (\<exists>j. i \<le> j \<and> j < i + 32 \<and> bit m j)"
    unfolding smear_def Let_def
    using smear_step [OF d] by (simp add: a_def b_def c_def d_def)
  then show ?thesis
    using bit_uint_less [of m] by (meson trans_less_add2)
qed

lemma smear_0 [simp]: "smear 0 = 0"
  by (simp add: smear_def)

lemma smear_mask: "m \<noteq> 0 \<Longrightarrow> smear m = mask (Suc (leftmost m))"
  by (rule bit_word_eqI)
    (metis (no_types) bit_smear Word.bit_mask_iff min_less_iff_conj less_Suc_eq_le bit_leftmost leftmost_ge le_trans)

lemma mask_plus_1: "(mask k :: uint) + 1 = BIT k"
  by (simp add: mask_eq_exp_minus_1 BIT_eq_pow)

lemma BIT_nonzero: "k < 32 \<Longrightarrow> BIT k \<noteq> 0"
  using bit_BIT by force

lemma leftmost_BIT: "k < 32 \<Longrightarrow> leftmost (BIT k) = k"
  by (rule leftmost_eqI) (auto simp: bit_BIT)

lemma leftmost_minus_1:
  assumes "n \<noteq> 0" and "\<not> IS_POWER_OF_TWO n"
  shows "n - 1 \<noteq> 0" and "leftmost (n - 1) = leftmost n"
proof -
  let ?k = "Min (one_bits n)"
  have eq: "n - 1 = unset_bit ?k n OR mask ?k"
    by (rule minus_one_bits) (use rightmost_is_Min [OF assms(1)] in auto)
  have ne: "leftmost n \<noteq> ?k"
  proof
    assume "leftmost n = ?k"
    then have "one_bits n = {leftmost n}"
      using assms(1) leftmost_ge [of n] rightmost_is_Min [OF assms(1)]
      by (auto simp: bit_leftmost intro: order_antisym)
    then have "n = BIT (leftmost n)"
      using assms(1) by (metis one_bits_BIT leftmost_less one_bits_inject)
    with assms IS_POWER_OF_TWO_bits show False by blast
  qed
  have le: "?k \<le> leftmost n"
    using assms(1) by (simp add: bit_leftmost)
  have b: "bit (n - 1) (leftmost n)"
    using ne bit_leftmost [OF assms(1)] by (simp add: eq bit_or_iff bit_unset_bit_iff)
  then show "n - 1 \<noteq> 0" by auto
  show "leftmost (n - 1) = leftmost n"
  proof (rule leftmost_eqI [OF b])
    fix i assume "bit (n - 1) i"
    then have "bit n i \<or> i < ?k" by (auto simp: eq bit_simps)
    then show "i \<le> leftmost n" using le leftmost_ge [of n i] by auto
  qed
qed

lemma push_bit_BIT: "push_bit 1 (BIT k) = BIT (Suc k)"
  by (simp add: BIT_def)

lemma round_up_power_of_two_BIT:
  assumes "n \<noteq> 0" and "\<not> IS_POWER_OF_TWO n"
  shows "round_up_power_of_two n = BIT (Suc (leftmost n))"
  using assms by (metis push_bit_BIT round_down_power_of_two_leftmost round_up_power_of_two_def)

lemma round_up_power_of_two_eq: "round_up_power_of_two n = round_up_power_of_two_2 n"
proof -
  consider "n = 0" | "n \<noteq> 0" "IS_POWER_OF_TWO n" | "n \<noteq> 0" "\<not> IS_POWER_OF_TWO n" by blast
  then show ?thesis
  proof cases
    case 1
    moreover have "round_up_power_of_two 0 = round_up_power_of_two_2 0" by code_simp
    ultimately show ?thesis by simp
  next
    case 2
    define k where "k = leftmost n"
    have k: "k < 32" using leftmost_less [OF 2(1)] by (simp add: k_def)
    have n: "n = BIT k" using 2 IS_POWER_OF_TWO_bits by (simp add: k_def)
    have m: "n - 1 = mask k" by (simp add: n flip: mask_plus_1)
    have "smear (n - 1) = mask k"
    proof (cases "k = 0")
      case k0: False
      then have "bit (mask k :: uint) (k - 1)" using k by (simp add: Word.bit_mask_iff)
      then have "leftmost (mask k) = k - 1"
        by (rule leftmost_eqI) (use k k0 in \<open>auto simp: Word.bit_mask_iff\<close>)
      moreover have "(mask k :: uint) \<noteq> 0" using k k0 by (metis \<open>bit (mask k :: uint) (k - 1)\<close> bit_0_eq bot_apply bot_bool_def)
      ultimately show ?thesis using k0 m smear_mask by simp
    qed (simp add: m)
    then show ?thesis
      using 2(2) by (simp add: round_up_power_of_two_def round_up_power_of_two_2_smear mask_plus_1 n)
  next
    case 3
    then show ?thesis
      unfolding round_up_power_of_two_2_smear smear_mask [OF leftmost_minus_1(1) [OF 3]]
        leftmost_minus_1(2) [OF 3] mask_plus_1 by (rule round_up_power_of_two_BIT)
  qed
qed

lemma unat_BIT: "k < 32 \<Longrightarrow> unat (BIT k) = 2 ^ k"
  using power_strict_increasing [of k 32 "2 :: nat"] unat_of_nat [of "2 ^ k", where ?'a = 32]
  by (simp add: BIT_eq_pow)

lemma above_leftmost:
  assumes "n \<noteq> 0" and "\<not> IS_POWER_OF_TWO n"
  shows "2 ^ leftmost n < unat n"
proof -
  have "unat n \<noteq> unat (BIT (leftmost n))"
    using assms IS_POWER_OF_TWO_bits by (metis word_unat_eq_iff)
  then show ?thesis
    using unat_leftmost_bounds(1) [OF assms(1)] leftmost_less [OF assms(1)] by (simp add: unat_BIT)
qed

section \<open>Swapping and branch-free selection\<close>

lemma SWAP_eq: "SWAP x y = (y, x)"
  by (simp add: SWAP_def Let_def xor.assoc)

lemma MIN_bits_eq: "MIN_bits x y = min x y"
  by (simp add: MIN_bits_def min_def xor.commute [of y] xor.assoc less_imp_le)

lemma MAX_bits_eq: "MAX_bits x y = max x y"
  by (simp add: MAX_bits_def max_def xor.commute [of y] xor.assoc not_le [symmetric])

section \<open>Properties\<close>

text \<open>
  \<^verbatim>\<open>count_one_bits\<close> counts the one bits: its loop, which clears the rightmost one
  bit until nothing is left, returns the number of bit positions that are set.
\<close>

theorem count_one_bits_correct: "unat (count_one_bits n) = card {i. bit n i}"
  using unat_count_one_bits [of n] by (simp add: one_bits_def)

text \<open>
  \<^verbatim>\<open>rightmost_one_bit_pos\<close> returns the position of the least one bit, and -1 for a
  word without one bits.
\<close>

theorem rightmost_one_bit_pos_correct:
  "rightmost_one_bit_pos n = (if n = 0 then - 1 else int (LEAST i. bit n i))"
proof (cases "n = 0")
  case False
  then obtain k where k: "bit n k" "\<And>i. i < k \<Longrightarrow> \<not> bit n i"
    by (rule rightmost_bit_exists) blast
  moreover have "(LEAST i. bit n i) = k"
    using k by (intro Least_equality) (auto simp: not_less [symmetric])
  ultimately show ?thesis
    using False rightmost_one_bit_pos_eq by simp
qed (simp add: rightmost_one_bit_pos_0)

text \<open>
  The two ways of rounding up to a power of two agree on every 32-bit input: the
  loop over the one bits and the smearing of the leftmost bit, the inputs 0 and those above
  \<open>2 ^ 31\<close> (where both wrap to 0) included.
\<close>

theorem round_up_power_of_two_equiv: "round_up_power_of_two n = round_up_power_of_two_2 n"
  by (rule round_up_power_of_two_eq)

text \<open>
  For \<open>0 < n \<le> 2 ^ 31\<close> the result of rounding up is the least power of two that is
  at least \<open>n\<close>.
\<close>

theorem round_up_power_of_two_least:
  assumes "0 < n" and "n \<le> 2 ^ 31"
  shows "\<exists>k. unat (round_up_power_of_two n) = 2 ^ k \<and> unat n \<le> 2 ^ k \<and> 2 ^ k < 2 * unat n"
proof (cases "IS_POWER_OF_TWO n")
  case True
  then have "n = BIT (leftmost n)" and "leftmost n < 32"
    using assms(1) IS_POWER_OF_TWO_bits leftmost_less by (simp_all add: word_neq_0_conv)
  then have "unat n = 2 ^ leftmost n" by (metis unat_BIT)
  with True assms(1) show ?thesis
    by (intro exI [of _ "leftmost n"]) (simp add: round_up_power_of_two_def)
next
  case False
  have n: "n \<noteq> 0" using assms(1) by simp
  have "2 ^ leftmost n < (2 ^ 31 :: nat)"
    using above_leftmost [OF n False] assms(2) by (simp add: word_le_nat_alt)
  then have "Suc (leftmost n) < 32" by (subst (asm) power_strict_increasing_iff) simp_all
  then have "unat (round_up_power_of_two n) = 2 ^ Suc (leftmost n)"
    using round_up_power_of_two_BIT [OF n False] unat_BIT by metis
  then show ?thesis
    using unat_leftmost_bounds(2) [OF n] above_leftmost [OF n False]
    by (intro exI [of _ "Suc (leftmost n)"]) simp
qed

theorem round_up_power_of_two_least_witness:
  "\<exists>k. unat (round_up_power_of_two 42) = 2 ^ k \<and> unat (42 :: uint) \<le> 2 ^ k \<and> 2 ^ k < 2 * unat (42 :: uint)"
  by (rule round_up_power_of_two_least) simp_all

end
