(* ===== verification/Worker_Tree.thy ===== *)
theory Worker_Tree
  imports Prelude
begin

text \<open>
  The tree of workers of \<^verbatim>\<open>src/worker_tree.h\<close>: workers \<open>0, \<dots>, maxID\<close> form a complete binary
  tree with worker 0 at the root. Steal requests that fail travel up this tree and termination
  is detected at its root, so the runtime relies on parent and child links being inverse, on
  every worker being below the root, and on subtrees being what the traversals visit.
\<close>

section \<open>Definitions\<close>

record worker_tree =
  tree_left_child :: int
  tree_right_child :: int
  tree_parent :: int
  num_children :: int
  left_subtree_is_idle :: bool
  right_subtree_is_idle :: bool
  waiting_for_tasks :: bool

definition left_child :: "int \<Rightarrow> int \<Rightarrow> int option" where
  "left_child ID maxID = do {
     assertion (ID \<ge> 0 \<and> maxID \<ge> 0);
     assertion (ID \<le> maxID);
     let child = 2 * ID + 1;
     Some (if child \<le> maxID then child else - 1)
   }"

definition right_child :: "int \<Rightarrow> int \<Rightarrow> int option" where
  "right_child ID maxID = do {
     assertion (ID \<ge> 0 \<and> maxID \<ge> 0);
     assertion (ID \<le> maxID);
     let child = 2 * ID + 2;
     Some (if child \<le> maxID then child else - 1)
   }"

text \<open>C's \<open>%\<close> and \<open>/\<close> truncate towards zero: \<open>smod\<close> and \<open>sdiv\<close>.\<close>

definition parent :: "int \<Rightarrow> int option" where
  "parent ID = do {
     assertion (ID \<ge> 0);
     Some (if ID smod 2 \<noteq> 0 then (ID - 1) sdiv 2 else (ID - 2) sdiv 2)
   }"

definition worker_tree_init :: "int \<Rightarrow> int \<Rightarrow> worker_tree option" where
  "worker_tree_init ID maxID = do {
     assertion (ID \<ge> 0 \<and> maxID \<ge> 0);
     assertion (ID \<le> maxID);
     l \<leftarrow> left_child ID maxID;
     r \<leftarrow> right_child ID maxID;
     p \<leftarrow> parent ID;
     let tree = \<lparr>tree_left_child = l, tree_right_child = r, tree_parent = p, num_children = 0,
       left_subtree_is_idle = False, right_subtree_is_idle = False, waiting_for_tasks = False\<rparr>;
     let tree =
       (if tree_left_child tree \<noteq> - 1 then tree\<lparr>num_children := num_children tree + 1\<rparr>
        else tree\<lparr>left_subtree_is_idle := True\<rparr>);
     let tree =
       (if tree_right_child tree \<noteq> - 1 then tree\<lparr>num_children := num_children tree + 1\<rparr>
        else tree\<lparr>right_subtree_is_idle := True\<rparr>);
     assertion (tree_left_child tree \<noteq> ID \<and> tree_right_child tree \<noteq> ID);
     assertion (0 \<le> num_children tree \<and> num_children tree \<le> 2);
     assertion ((tree_parent tree = - 1 \<and> ID = 0) \<or> (tree_parent tree \<ge> 0 \<and> ID > 0));
     Some tree
   }"

section \<open>Child and parent links\<close>

text \<open>A worker ID of a runtime with workers \<open>0 .. maxID\<close>.\<close>

definition worker_id :: "int \<Rightarrow> int \<Rightarrow> bool" where
  "worker_id maxID i \<longleftrightarrow> 0 \<le> i \<and> i \<le> maxID"

lemma left_child_eq:
  "worker_id m i \<Longrightarrow> left_child i m = Some (if 2 * i + 1 \<le> m then 2 * i + 1 else - 1)"
  by (simp add: left_child_def worker_id_def)

lemma right_child_eq:
  "worker_id m i \<Longrightarrow> right_child i m = Some (if 2 * i + 2 \<le> m then 2 * i + 2 else - 1)"
  by (simp add: right_child_def worker_id_def)

lemma smod_2_nonneg: "0 \<le> (i :: int) \<Longrightarrow> i smod 2 = i mod 2"
  by (simp add: signed_modulo_int_def signed_divide_int_def minus_mult_div_eq_mod sgn_if)

lemma sdiv_2_nonneg: "0 \<le> (i :: int) \<Longrightarrow> i sdiv 2 = i div 2"
  by (simp add: signed_divide_int_def sgn_if)

lemma parent_eq: "0 < i \<Longrightarrow> parent i = Some ((i - 1) div 2)"
proof -
  assume i: "0 < i"
  show ?thesis
  proof (cases "i mod 2 = 0")
    case True
    with i have "2 \<le> i" by presburger
    moreover have "(i - 2) div 2 = (i - 1) div 2" using True by presburger
    ultimately show ?thesis
      using i True by (simp add: parent_def smod_2_nonneg sdiv_2_nonneg)
  qed (use i in \<open>simp add: parent_def smod_2_nonneg sdiv_2_nonneg\<close>)
qed

lemma parent_root: "parent 0 = Some (- 1)"
  by (simp add: parent_def signed_modulo_int_def signed_divide_int_def)

lemma worker_tree_init_eq:
  assumes "worker_id m i"
  shows "worker_tree_init i m = Some \<lparr>
    tree_left_child = (if 2 * i + 1 \<le> m then 2 * i + 1 else - 1),
    tree_right_child = (if 2 * i + 2 \<le> m then 2 * i + 2 else - 1),
    tree_parent = (if i = 0 then - 1 else (i - 1) div 2),
    num_children = of_bool (2 * i + 1 \<le> m) + of_bool (2 * i + 2 \<le> m),
    left_subtree_is_idle = (\<not> 2 * i + 1 \<le> m),
    right_subtree_is_idle = (\<not> 2 * i + 2 \<le> m),
    waiting_for_tasks = False\<rparr>"
proof -
  have p: "parent i = Some (if i = 0 then - 1 else (i - 1) div 2)"
    using assms parent_root parent_eq [of i] by (auto simp: worker_id_def)
  have ge: "i \<noteq> 0 \<Longrightarrow> 0 \<le> (i - 1) div 2" and "0 \<le> i" and "i \<le> m"
    using assms by (auto simp: worker_id_def)
  then show ?thesis
    unfolding worker_tree_init_def left_child_eq [OF assms] right_child_eq [OF assms] p
    by (cases "2 * i + 1 \<le> m"; cases "2 * i + 2 \<le> m"; cases "i = 0") (auto simp: Let_def)
qed

text \<open>The parent link a worker is initialised with.\<close>

definition tree_parent_of :: "int \<Rightarrow> int \<Rightarrow> int option" where
  "tree_parent_of m i = map_option tree_parent (worker_tree_init i m)"

section \<open>Ancestors\<close>

text \<open>\<open>climb\<close> follows parent links; it reaches the root from every worker.\<close>

fun climb :: "nat \<Rightarrow> int \<Rightarrow> int option" where
  "climb 0 i = Some i"
| "climb (Suc n) i = do { p \<leftarrow> parent i; climb n p }"

lemma parent_less: "0 < i \<Longrightarrow> parent i = Some p \<Longrightarrow> 0 \<le> p \<and> p < i"
  by (auto simp: parent_eq)

lemma climb_root: "0 \<le> i \<Longrightarrow> \<exists>n. 2 ^ n \<le> i + 1 \<and> climb n i = Some 0"
proof (induction "nat i" arbitrary: i rule: less_induct)
  case less
  show ?case
  proof (cases "i = 0")
    case True
    then show ?thesis by (intro exI [of _ 0]) simp
  next
    case False
    with less.prems have i: "0 < i" by simp
    let ?p = "(i - 1) div 2"
    have p: "parent i = Some ?p" using parent_eq [OF i] .
    have "0 \<le> ?p" "nat ?p < nat i" using parent_less [OF i p] by auto
    with less.hyps obtain n where n: "2 ^ n \<le> ?p + 1" "climb n ?p = Some 0" by blast
    have "2 * (?p + 1) \<le> i + 1" by presburger
    with n(1) have "2 ^ Suc n \<le> i + 1" by simp
    with n(2) p show ?thesis by (intro exI [of _ "Suc n"]) simp
  qed
qed

section \<open>Subtrees\<close>

text \<open>
  The workers at depth \<open>d\<close> below \<open>i\<close> are the IDs \<open>2 ^ d * (i + 1) - 1, \<dots>, 2 ^ d * (i + 2) - 2\<close>
  that exist; the subtree of \<open>i\<close> collects all depths.
\<close>

definition level :: "int \<Rightarrow> int \<Rightarrow> nat \<Rightarrow> int set" where
  "level m i d = {2 ^ d * (i + 1) - 1 ..< 2 ^ d * (i + 2) - 1} \<inter> {..m}"

definition subtree :: "int \<Rightarrow> int \<Rightarrow> int set" where
  "subtree m i = (\<Union>d. level m i d)"

lemma level_0: "worker_id m i \<Longrightarrow> level m i 0 = {i}"
  by (auto simp: level_def worker_id_def)

lemma level_Suc: "level m i (Suc d) = level m (2 * i + 1) d \<union> level m (2 * i + 2) d"
  by (auto simp: level_def algebra_simps)

lemma le_pow_mult: "0 \<le> (i :: int) \<Longrightarrow> i + 1 \<le> 2 ^ d * (i + 1)"
  using mult_right_mono [of 1 "2 ^ d" "i + 1"] by simp

lemma level_above: "0 \<le> i \<Longrightarrow> m < i \<Longrightarrow> level m i d = {}"
  unfolding level_def by (rule equals0I) (use le_pow_mult [of i d] in \<open>auto, linarith\<close>)

lemma subtree_above: "0 \<le> i \<Longrightarrow> m < i \<Longrightarrow> subtree m i = {}"
  by (simp add: subtree_def level_above)

lemma Union_nat_Suc: "(\<Union>d. f d) = f 0 \<union> (\<Union>d :: nat. f (Suc d))"
  by (auto, metis not0_implies_Suc)

lemma subtree_unfold:
  assumes "worker_id m i"
  shows "subtree m i = {i} \<union> subtree m (2 * i + 1) \<union> subtree m (2 * i + 2)"
  unfolding subtree_def
  by (subst Union_nat_Suc) (simp add: level_0 [OF assms] level_Suc UN_Un_distrib Un_assoc)

lemma subtree_root: "0 \<le> m \<Longrightarrow> subtree m 0 = {0..m}"
proof (rule equalityI)
  show "subtree m 0 \<subseteq> {0..m}"
    by (auto simp: subtree_def level_def)
next
  assume "0 \<le> m"
  show "{0..m} \<subseteq> subtree m 0"
  proof
    fix j assume j: "j \<in> {0..m}"
    define P where "P d \<longleftrightarrow> (j + 1 < 2 ^ d)" for d :: nat
    have "int (nat (j + 1)) < int (2 ^ nat (j + 1))"
      by (simp only: of_nat_less_iff less_exp)
    then have "j + 1 < 2 ^ nat (j + 1)" using j by simp
    then have ex: "P (nat (j + 1))" by (simp add: P_def)
    define d where "d = (LEAST d. P d)"
    have "P d" unfolding d_def by (rule LeastI [of P, OF ex])
    then have "d \<noteq> 0" using j by (auto simp: P_def intro: gr0I)
    then have "\<not> P (d - 1)" unfolding d_def by (metis Least_le diff_less less_one not_le not_gr_zero)
    then have "j \<in> level m 0 (d - 1)"
      using \<open>P d\<close> \<open>d \<noteq> 0\<close> j by (cases d) (auto simp: level_def P_def)
    then show "j \<in> subtree m 0" by (auto simp: subtree_def)
  qed
qed

lemma subtree_ge: "0 \<le> i \<Longrightarrow> j \<in> subtree m i \<Longrightarrow> i \<le> j \<and> j \<le> m"
proof -
  assume "0 \<le> i" and "j \<in> subtree m i"
  then obtain d where "2 ^ d * (i + 1) - 1 \<le> j" "j \<le> m"
    by (auto simp: subtree_def level_def)
  moreover have "i + 1 \<le> 2 ^ d * (i + 1)"
    using \<open>0 \<le> i\<close> by (rule le_pow_mult)
  ultimately show ?thesis by linarith
qed


section \<open>Properties\<close>

text \<open>
  Property C17. Initialising the tree of any worker passes all of the code's sanity checks; its
  child links point to existing workers whose own parent link points back, every worker but
  the root is one of the two children of its parent, and the missing children are exactly the
  subtrees that count as idle from the start.
\<close>

theorem worker_tree_links:
  assumes "worker_id m i"
  shows "\<exists>t. worker_tree_init i m = Some t \<and>
    (\<forall>c \<in> {tree_left_child t, tree_right_child t} - {- 1}. worker_id m c \<and>
      tree_parent_of m c = Some i) \<and>
    (i \<noteq> 0 \<longrightarrow> worker_id m (tree_parent t) \<and> (\<exists>p. worker_tree_init (tree_parent t) m = Some p \<and>
      i \<in> {tree_left_child p, tree_right_child p})) \<and>
    num_children t = of_bool (\<not> left_subtree_is_idle t) + of_bool (\<not> right_subtree_is_idle t)"
proof -
  have l: "worker_id m (2 * i + 1)" "tree_parent_of m (2 * i + 1) = Some i" if "2 * i + 1 \<le> m"
    using assms that worker_tree_init_eq [of m "2 * i + 1"]
    by (auto simp: worker_id_def tree_parent_of_def)
  have r: "worker_id m (2 * i + 2)" "tree_parent_of m (2 * i + 2) = Some i" if "2 * i + 2 \<le> m"
    using assms that worker_tree_init_eq [of m "2 * i + 2"]
    by (auto simp: worker_id_def tree_parent_of_def)
  let ?p = "(i - 1) div 2"
  have p: "worker_id m ?p" "i = 2 * ?p + 1 \<or> i = 2 * ?p + 2" if "i \<noteq> 0"
  proof -
    show "worker_id m ?p" using assms that by (auto simp: worker_id_def)
    show "i = 2 * ?p + 1 \<or> i = 2 * ?p + 2" by presburger
  qed
  have "i \<le> m" using assms by (simp add: worker_id_def)
  have q: "\<exists>p. worker_tree_init ?p m = Some p \<and> i \<in> {tree_left_child p, tree_right_child p}"
    if "i \<noteq> 0"
    using worker_tree_init_eq [OF p(1) [OF that]] p(2) [OF that] \<open>i \<le> m\<close> by auto
  show ?thesis
    unfolding worker_tree_init_eq [OF assms] tree_parent_of_def [symmetric]
    using l r p(1) q by auto
qed

theorem worker_tree_links_witness:
  "\<exists>t. worker_tree_init 1 4 = Some t \<and> tree_left_child t = 3 \<and> tree_right_child t = 4 \<and>
    tree_parent t = 0 \<and> tree_parent_of 4 3 = Some 1"
  using worker_tree_links [of 4 1] worker_tree_init_eq [of 4 1] by (auto simp: worker_id_def)

text \<open>
  Property C18. Following parent links from any worker reaches the root after at most
  logarithmically many steps, and the subtree of the root, the set of workers whose requests
  can arrive there, is the set of all workers.
\<close>

theorem workers_reach_root:
  assumes "worker_id m i"
  shows "(\<exists>n. 2 ^ n \<le> i + 1 \<and> climb n i = Some 0) \<and> i \<in> subtree m 0 \<and>
    subtree m 0 = {j. worker_id m j}"
proof (intro conjI)
  have i: "0 \<le> i" "i \<le> m" "0 \<le> m" using assms by (auto simp: worker_id_def)
  show "\<exists>n. 2 ^ n \<le> i + 1 \<and> climb n i = Some 0" by (rule climb_root [OF i(1)])
  show "i \<in> subtree m 0" using subtree_root [OF i(3)] i by simp
  show "subtree m 0 = {j. worker_id m j}"
    unfolding subtree_root [OF i(3)] worker_id_def atLeastAtMost_def atLeast_def atMost_def by blast
qed

theorem workers_reach_root_witness: "climb (Suc (Suc 0)) 5 = Some 0 \<and> 5 \<in> subtree 8 0"
proof -
  have "worker_id 8 5" by (simp add: worker_id_def)
  then have "5 \<in> subtree 8 0" using workers_reach_root by blast
  then show ?thesis by (simp add: parent_eq)
qed

end
