(* ===== verification/Victims.thy ===== *)
theory Victims
  imports Bits Worker_Tree
begin

text \<open>
  Victim selection in \<^verbatim>\<open>src/runtime.c\<close>. A steal request carries a bit field of the workers that may
  still have tasks. Workers that decline a request remove themselves and the subtrees they know
  to be idle, and pick the next victim among the rest. \<open>N\<close> is \<^verbatim>\<open>num_workers\<close>; worker IDs are
  \<open>int\<close>, the index of a bit is \<open>nat\<close>.
\<close>

section \<open>Definitions\<close>

definition INIT_VICTIMS :: "int \<Rightarrow> uint" where
  "INIT_VICTIMS N = 0xFFFFFFFF AND BIT_MASK_32 (nat N)"

text \<open>The C code recurses on the children, \<open>- 1\<close> where there is none.\<close>

function mark_as_idle :: "int \<Rightarrow> uint \<Rightarrow> int \<Rightarrow> uint option" where
  "mark_as_idle N victims n =
     (if n = - 1 \<or> n \<ge> N then Some victims
      else do {
        l \<leftarrow> left_child n (N - 1);
        victims \<leftarrow> mark_as_idle N victims l;
        r \<leftarrow> right_child n (N - 1);
        victims \<leftarrow> mark_as_idle N victims r;
        Some (victims AND NOT (BIT (nat n)))
      })"
  by pat_completeness auto

termination
  by (relation "measure (\<lambda>(N, v, n). if n = - 1 then 0 else Suc (nat (N - n)))")
    (auto simp: left_child_def right_child_def Let_def split: if_splits Option.bind_splits)

declare mark_as_idle.simps [simp del]

definition rightmost_victim :: "int \<Rightarrow> uint \<Rightarrow> int \<Rightarrow> int option" where
  "rightmost_victim N victims ID = do {
     let victim = rightmost_one_bit_pos victims;
     let victim = (if victim = ID then rightmost_one_bit_pos (ZERO_RIGHTMOST_ONE_BIT victims)
       else victim);
     assertion (0 \<le> victim \<and> victim < N \<and> victim \<noteq> ID \<or> victim = - 1);
     Some victim
   }"

text \<open>
  \<open>rand\<close> is \<^verbatim>\<open>rand_r\<close>: it maps a seed to a number and the next seed. The number is nonnegative and at
  most \<^verbatim>\<open>RAND_MAX\<close> by its documentation.
\<close>

type_synonym rand_fn = "uint \<Rightarrow> int \<times> uint"

definition rand_ok :: "rand_fn \<Rightarrow> bool" where
  "rand_ok rand \<longleftrightarrow> (\<forall>s. 0 \<le> fst (rand s) \<and> fst (rand s) < 2 ^ 31)"

definition POTENTIAL_VICTIM :: "uint \<Rightarrow> int \<Rightarrow> bool" where
  "POTENTIAL_VICTIM victims n = (victims AND BIT (nat n) \<noteq> 0)"

text \<open>The three random attempts: the victim, if any, and the seed afterwards.\<close>

fun random_tries :: "rand_fn \<Rightarrow> int \<Rightarrow> nat \<Rightarrow> uint \<Rightarrow> int \<Rightarrow> uint \<Rightarrow> int option \<times> uint" where
  "random_tries rand N 0 victims ID seed = (None, seed)"
| "random_tries rand N (Suc k) victims ID seed =
     (let (r, seed) = rand seed; victim = r mod N
      in if POTENTIAL_VICTIM victims victim \<and> victim \<noteq> ID then (Some victim, seed)
         else random_tries rand N k victims ID seed)"

text \<open>
  The loop that collects the IDs of the potential victims: \<open>i\<close> is the current ID, \<open>n\<close> the bits
  left, and the result the array filled so far followed by the new entries.
\<close>

function collect_victims :: "int \<Rightarrow> uint \<Rightarrow> int list \<Rightarrow> int list" where
  "collect_victims i n arr =
     (if n \<noteq> 0 then
        collect_victims (i + 1) (drop_bit 1 n) (if POTENTIAL_VICTIM n 0 then arr @ [i] else arr)
      else arr)"
  by pat_completeness auto

termination
  by (relation "measure (\<lambda>(i, n, arr). unat n)")
    (use drop_bit_1_less in \<open>auto simp: word_less_nat_alt\<close>)

declare collect_victims.simps [simp del]

text \<open>The results are the victim, the seed, and the two counters.\<close>

record victim_state =
  vs_seed :: uint
  random_receiver_calls :: uint
  random_receiver_early_exits :: uint

definition random_victim ::
  "rand_fn \<Rightarrow> int \<Rightarrow> uint \<Rightarrow> int \<Rightarrow> victim_state \<Rightarrow> (int \<times> victim_state) option"
where
  "random_victim rand N victims ID s = do {
     let s = s\<lparr>random_receiver_calls := random_receiver_calls s + 1,
       random_receiver_early_exits := random_receiver_early_exits s + 1\<rparr>;
     if victims = 0 then Some (- 1, s)
     else case random_tries rand N 3 victims ID (vs_seed s) of
       (Some victim, seed) \<Rightarrow> Some (victim, s\<lparr>vs_seed := seed\<rparr>)
     | (None, seed) \<Rightarrow> do {
         let s = s\<lparr>vs_seed := seed, random_receiver_early_exits := random_receiver_early_exits s - 1\<rparr>;
         let num_victims = count_one_bits victims;
         assertion (0 < num_victims \<and> num_victims < of_int N);
         let potential_victims = collect_victims 0 victims [];
         assertion (length potential_victims = unat num_victims);
         let (r, seed) = rand (vs_seed s);
         let s = s\<lparr>vs_seed := seed\<rparr>;
         victim \<leftarrow> read_at potential_victims (nat (r mod uint num_victims));
         assertion (POTENTIAL_VICTIM victims victim);
         assertion (0 \<le> victim \<and> victim < N \<and> victim \<noteq> ID \<or> victim = - 1);
         Some (victim, s)
       }
   }"

section \<open>Sets of workers\<close>

text \<open>The workers in a bit field.\<close>

definition members :: "uint \<Rightarrow> int set" where
  "members v = {i. 0 \<le> i \<and> bit v (nat i)}"

lemma members_less: "i \<in> members v \<Longrightarrow> 0 \<le> i \<and> i < 32"
  using bit_uint_less [of v "nat i"] by (simp add: members_def)

lemma and_BIT: "k < 32 \<Longrightarrow> v AND BIT k = (if bit v k then BIT k else 0)"
  by (rule bit_word_eqI) (auto simp: bit_and_iff bit_BIT)

lemma POTENTIAL_VICTIM_iff:
  assumes "0 \<le> n" "n < 32"
  shows "POTENTIAL_VICTIM v n \<longleftrightarrow> n \<in> members v"
  using assms by (simp add: POTENTIAL_VICTIM_def members_def and_BIT BIT_nonzero)

lemma members_clear:
  assumes "0 \<le> n" "n < 32"
  shows "members (v AND NOT (BIT (nat n))) = members v - {n}"
  using assms by (auto simp: members_def bit_and_iff bit_not_iff bit_BIT dest: bit_uint_less)

lemma members_INIT_VICTIMS:
  assumes "0 \<le> N" "N \<le> 32"
  shows "members (INIT_VICTIMS N) = {0..<N}"
proof -
  have "(0xFFFFFFFF :: uint) = - 1" by simp
  then have "INIT_VICTIMS N = mask (nat N)"
    by (simp only: INIT_VICTIMS_def BIT_MASK_32_mask and.left_neutral)
  then have "i \<in> members (INIT_VICTIMS N) \<longleftrightarrow> 0 \<le> i \<and> nat i < 32 \<and> nat i < nat N" for i
    by (simp add: members_def bit_mask_iff)
  then show ?thesis using assms by (simp add: set_eq_iff) linarith
qed

lemma members_empty: "members v = {} \<longleftrightarrow> v = 0"
proof
  assume "members v = {}"
  then have "\<not> bit v i" for i by (auto simp: members_def) (metis nat_int of_nat_0_le_iff)
  then show "v = 0" by (simp add: bit_eq_iff)
qed (simp add: members_def)

lemma members_one_bits: "members v = int ` one_bits v"
proof (rule set_eqI)
  fix i :: int
  show "i \<in> members v \<longleftrightarrow> i \<in> int ` one_bits v"
    by (cases i) (auto simp: members_def)
qed

lemma card_members: "card (members v) = unat (count_one_bits v)"
  by (simp add: members_one_bits unat_count_one_bits card_image)

section \<open>Marking subtrees\<close>

lemma mark_as_idle_above: "n = - 1 \<or> N \<le> n \<Longrightarrow> mark_as_idle N v n = Some v"
  by (subst mark_as_idle.simps) simp

lemma mark_as_idle_members:
  assumes "worker_id (N - 1) n" "N \<le> 32"
  shows "\<exists>v'. mark_as_idle N v n = Some v' \<and> members v' = members v - subtree (N - 1) n"
  using assms
proof (induction "nat (N - n)" arbitrary: n v rule: less_induct)
  case less
  have n: "0 \<le> n" "n < N" using less.prems by (auto simp: worker_id_def)
  have child: "\<exists>v'. mark_as_idle N v (if c \<le> N - 1 then c else - 1) = Some v' \<and>
      members v' = members v - subtree (N - 1) c" if "n < c" for c v
  proof (cases "c \<le> N - 1")
    case True
    then show ?thesis using less.hyps [of c v] less.prems(2) that n by (auto simp: worker_id_def)
  next
    case False
    then show ?thesis using that n by (simp add: mark_as_idle_above subtree_above)
  qed
  let ?l = "2 * n + 1" and ?r = "2 * n + 2"
  obtain v1 where v1: "mark_as_idle N v (if ?l \<le> N - 1 then ?l else - 1) = Some v1"
    "members v1 = members v - subtree (N - 1) ?l"
    using child [of ?l v] n by auto
  obtain v2 where v2: "mark_as_idle N v1 (if ?r \<le> N - 1 then ?r else - 1) = Some v2"
    "members v2 = members v1 - subtree (N - 1) ?r"
    using child [of ?r v1] n by auto
  have "mark_as_idle N v n = Some (v2 AND NOT (BIT (nat n)))"
    using n v1(1) v2(1) left_child_eq [OF less.prems(1)] right_child_eq [OF less.prems(1)]
    by (subst mark_as_idle.simps) simp
  moreover have "members (v2 AND NOT (BIT (nat n))) = members v - subtree (N - 1) n"
    using members_clear [of n v2] n less.prems(2) v1(2) v2(2) subtree_unfold [OF less.prems(1)] by auto
  ultimately show ?case by blast
qed

section \<open>Choosing a victim\<close>

lemma one_bits_drop_bit:
  "one_bits n = (if bit n 0 then {0} else {}) \<union> Suc ` one_bits (drop_bit 1 n)"
proof -
  have "i \<in> one_bits n \<longleftrightarrow> i \<in> (if bit n 0 then {0} else {}) \<union> Suc ` one_bits (drop_bit 1 n)" for i
    by (cases i) (auto simp: bit_drop_bit_eq)
  then show ?thesis by (rule set_eqI)
qed

lemma collect_victims_spec:
  "set (collect_victims i n arr) = set arr \<union> (\<lambda>k. i + int k) ` one_bits n \<and>
   length (collect_victims i n arr) = length arr + card (one_bits n)"
proof (induction i n arr rule: collect_victims.induct)
  case (1 i n arr)
  show ?case
  proof (cases "n = 0")
    case True
    then show ?thesis by (subst (1 2) collect_victims.simps) simp
  next
    case False
    let ?arr = "if POTENTIAL_VICTIM n 0 then arr @ [i] else arr"
    have pv: "POTENTIAL_VICTIM n 0 \<longleftrightarrow> bit n 0" by (simp add: POTENTIAL_VICTIM_iff members_def)
    note IH = "1.IH" [OF False]
    have step: "collect_victims i n arr = collect_victims (i + 1) (drop_bit 1 n) ?arr"
      using False by (subst collect_victims.simps) simp
    have img: "(\<lambda>k. i + int k) ` one_bits n =
        (if bit n 0 then {i} else {}) \<union> (\<lambda>k. i + 1 + int k) ` one_bits (drop_bit 1 n)"
      by (subst one_bits_drop_bit) (auto simp: image_Un image_image add.assoc)
    have "card (one_bits n) = (if bit n 0 then 1 else 0) + card (Suc ` one_bits (drop_bit 1 n))"
      by (subst one_bits_drop_bit) (auto simp: card_insert_if)
    then have crd: "card (one_bits n) = (if bit n 0 then 1 else 0) + card (one_bits (drop_bit 1 n))"
      by (simp add: card_image)
    show ?thesis unfolding step using IH pv img crd by auto
  qed
qed

lemma random_tries_Some:
  assumes "random_tries rand N k v ID seed = (Some victim, seed')" "rand_ok rand" "0 < N" "N \<le> 32"
  shows "victim \<in> members v \<and> victim < N \<and> victim \<noteq> ID"
  using assms(1)
proof (induction k arbitrary: seed)
  case (Suc k)
  let ?r = "fst (rand seed) mod N"
  have "0 \<le> ?r" "?r < N" using assms(3) by simp_all
  then show ?case
    using Suc assms(4) POTENTIAL_VICTIM_iff [of ?r v]
    by (auto simp: Let_def split: prod.splits if_splits)
qed simp

lemma random_victim_spec:
  assumes "rand_ok rand" "0 < N" "N \<le> 32" "members v \<subseteq> {0..<N} - {ID}" "0 \<le> ID" "ID < N"
  shows "\<exists>victim s'. random_victim rand N v ID s = Some (victim, s') \<and>
    (if v = 0 then victim = - 1 else victim \<in> members v)"
proof (cases "v = 0")
  case True
  then show ?thesis by (simp add: random_victim_def)
next
  case False
  let ?seed = "vs_seed s"
  show ?thesis
  proof (cases "random_tries rand N 3 v ID ?seed")
    case (Pair r seed)
    show ?thesis
    proof (cases r)
      case (Some victim)
      with Pair random_tries_Some [of rand N 3 v ID ?seed victim seed] assms False show ?thesis
        by (simp add: random_victim_def)
    next
      case None
      let ?n = "count_one_bits v" and ?vs = "collect_victims 0 v []"
      have ne: "members v \<noteq> {}" using False members_empty by blast
      have fin: "finite (members v)" using assms(4) finite_subset by blast
      have "members v \<subset> {0..<N}" using assms(4-6) by auto
      then have lt: "card (members v) < nat N"
        using psubset_card_mono [of "{0..<N}" "members v"] by simp
      have n: "unat ?n = card (members v)" by (simp add: card_members)
      have pos: "0 < unat ?n" using ne fin n by (simp add: card_gt_0_iff)
      have "unat (of_int N :: uint) = nat N"
        using assms(2,3) by (simp add: unat_eq_nat_uint uint_word_of_int)
      then have bounds: "0 < ?n" "?n < of_int N"
        using n pos lt by (simp_all add: word_less_nat_alt)
      have len: "length ?vs = unat ?n" and set: "set ?vs = members v"
        using conjunct1 [OF collect_victims_spec [of 0 v "[]"]]
          conjunct2 [OF collect_victims_spec [of 0 v "[]"]]
        by (simp_all add: members_one_bits unat_count_one_bits)
      obtain q sd where q: "rand seed = (q, sd)" by (cases "rand seed")
      let ?i = "nat (q mod uint ?n)"
      have u: "uint ?n = int (length ?vs)" using len uint_nat [of ?n] by simp
      have "0 < int (length ?vs)" using pos len by linarith
      then have i: "?i < length ?vs" unfolding u by (simp add: nat_less_iff)
      then have mem: "?vs ! ?i \<in> members v" using set nth_mem by blast
      then have "0 \<le> ?vs ! ?i" "?vs ! ?i < N" "?vs ! ?i \<noteq> ID" using assms(4) by auto
      moreover have "POTENTIAL_VICTIM v (?vs ! ?i)"
        using mem POTENTIAL_VICTIM_iff members_less by blast
      ultimately show ?thesis
        using Pair None False bounds len i mem q by (simp add: random_victim_def Let_def)
    qed
  qed
qed

lemma rightmost_member: "v \<noteq> 0 \<Longrightarrow> rightmost_one_bit_pos v \<in> members v"
proof -
  assume "v \<noteq> 0"
  then obtain k where k: "bit v k" "\<And>i. i < k \<Longrightarrow> \<not> bit v i" by (rule rightmost_bit_exists) blast
  then have "rightmost_one_bit_pos v = int k" by (rule rightmost_one_bit_pos_eq)
  then show ?thesis using k(1) by (simp add: members_def)
qed

lemma members_ZERO_RIGHTMOST:
  assumes "v \<noteq> 0"
  shows "members (ZERO_RIGHTMOST_ONE_BIT v) = members v - {rightmost_one_bit_pos v}"
proof -
  obtain k where k: "bit v k" "\<And>i. i < k \<Longrightarrow> \<not> bit v i"
    using assms by (rule rightmost_bit_exists) blast
  then have "rightmost_one_bit_pos v = int k" by (rule rightmost_one_bit_pos_eq)
  moreover have "one_bits (ZERO_RIGHTMOST_ONE_BIT v) = one_bits v - {k}"
    using ZERO_RIGHTMOST_ONE_BIT_unset [OF k] by (simp add: one_bits_unset_bit)
  ultimately show ?thesis by (simp add: members_one_bits image_set_diff inj_of_nat)
qed

lemma rightmost_victim_spec:
  assumes "members v \<subseteq> {0..<N}"
  shows "\<exists>victim. rightmost_victim N v ID = Some victim \<and>
    (if members v \<subseteq> {ID} then victim = - 1 else victim \<in> members v - {ID})"
proof (cases "v = 0")
  case True
  then show ?thesis
    by (simp add: rightmost_victim_def rightmost_one_bit_pos_0 members_def Let_def
        ZERO_RIGHTMOST_ONE_BIT_def)
next
  case False
  let ?p = "rightmost_one_bit_pos v" and ?v = "ZERO_RIGHTMOST_ONE_BIT v"
  have p: "?p \<in> members v" using rightmost_member [OF False] .
  note m = members_ZERO_RIGHTMOST [OF False]
  show ?thesis
  proof (cases "?p = ID")
    case eq: True
    show ?thesis
    proof (cases "?v = 0")
      case True
      then have "members v \<subseteq> {ID}" using m eq by (auto simp: members_def)
      then show ?thesis
        using eq True by (simp add: rightmost_victim_def rightmost_one_bit_pos_0 Let_def)
    next
      case False
      then have q: "rightmost_one_bit_pos ?v \<in> members v - {ID}"
        using rightmost_member [OF False] m eq by simp
      then have "\<not> members v \<subseteq> {ID}" by blast
      moreover have "0 \<le> rightmost_one_bit_pos ?v" "rightmost_one_bit_pos ?v < N" using q assms by auto
      then have "rightmost_victim N v ID = Some (rightmost_one_bit_pos ?v)"
        using q eq by (simp add: rightmost_victim_def)
      ultimately show ?thesis using q by simp
    qed
  next
    case False
    then have "0 \<le> ?p" "?p < N" "\<not> members v \<subseteq> {ID}" using p assms by auto
    moreover from this False have "rightmost_victim N v ID = Some ?p"
      by (simp add: rightmost_victim_def)
    ultimately show ?thesis using p False by simp
  qed
qed

section \<open>Properties\<close>

text \<open>
  Property C27. \<^verbatim>\<open>mark_as_idle\<close> terminates and removes exactly the workers in the subtree of the
  given worker from the set of potential victims.
\<close>

theorem mark_as_idle_subtree:
  assumes "worker_id (N - 1) n" "N \<le> 32"
  shows "\<exists>v'. mark_as_idle N v n = Some v' \<and>
    (\<forall>i. worker_id (N - 1) i \<longrightarrow> (bit v' (nat i) \<longleftrightarrow> bit v (nat i) \<and> i \<notin> subtree (N - 1) n))"
  using mark_as_idle_members [OF assms, of v] by (auto simp: members_def worker_id_def)

theorem mark_as_idle_subtree_witness:
  "\<exists>v'. mark_as_idle 8 0xFF 1 = Some v' \<and> bit v' 2 \<and> \<not> bit v' (nat 1)"
proof -
  have w: "worker_id (8 - 1) 1" "worker_id (8 - 1) 2" by (simp_all add: worker_id_def)
  obtain v' where v': "mark_as_idle 8 0xFF 1 = Some v'"
    "\<forall>i. worker_id 7 i \<longrightarrow> (bit v' (nat i) \<longleftrightarrow> bit (0xFF :: uint) (nat i) \<and> i \<notin> subtree 7 1)"
    using mark_as_idle_subtree [OF w(1), of "0xFF"] by auto
  have "1 \<in> subtree 7 1" using subtree_unfold [of 7 1] by (simp add: worker_id_def)
  moreover have "2 \<notin> subtree 7 1"
  proof -
    have "2 \<notin> subtree 7 3" "2 \<notin> subtree 7 4"
      using subtree_ge [of 3 2 7] subtree_ge [of 4 2 7] by auto
    then show ?thesis using subtree_unfold [of 7 1] by (simp add: worker_id_def)
  qed
  moreover have "bit (0xFF :: uint) 2" by simp
  ultimately show ?thesis using v' w by auto
qed

text \<open>
  With potential victims that exist and do not include the thief, random victim
  selection never fails an assertion, whatever numbers \<^verbatim>\<open>rand_r\<close> returns, and its result is \<open>- 1\<close>
  exactly when there is no potential victim, and otherwise one of them.
\<close>

theorem random_victim_potential:
  assumes "rand_ok rand" "0 < N" "N \<le> 32" "worker_id (N - 1) ID" "\<not> bit v (nat ID)"
    and "\<forall>i. bit v i \<longrightarrow> int i < N"
  shows "\<exists>victim s'. random_victim rand N v ID s = Some (victim, s') \<and>
    (if v = 0 then victim = - 1 else 0 \<le> victim \<and> victim < N \<and> victim \<noteq> ID \<and> bit v (nat victim))"
proof -
  have "members v \<subseteq> {0..<N} - {ID}" using assms(5,6) by (auto simp: members_def)
  with random_victim_spec [OF assms(1-3) this] assms(4) show ?thesis
    by (fastforce simp: members_def worker_id_def)
qed

theorem random_victim_potential_witness:
  "\<exists>victim s'. random_victim (\<lambda>s. (uint s div 2, s + 7)) 4 0xA 0
      \<lparr>vs_seed = 3, random_receiver_calls = 0, random_receiver_early_exits = 0\<rparr> = Some (victim, s') \<and>
    bit (0xA :: uint) (nat victim)"
proof -
  let ?rand = "\<lambda>s :: uint. (uint s div 2, s + 7)"
  have "uint s div 2 < 2 ^ 31" for s :: uint using uint_lt2p [of s] by simp
  then have r: "rand_ok ?rand" by (simp add: rand_ok_def)
  have "take_bit 4 (0xA :: uint) = 0xA" by simp
  then have "int i < 4" if "bit (0xA :: uint) i" for i
    using that bit_take_bit_iff [of 4 "0xA :: uint" i] by simp
  then have "\<forall>i. bit (0xA :: uint) i \<longrightarrow> int i < 4" by blast
  with random_victim_potential [OF r, of 4 0 "0xA"
      "\<lparr>vs_seed = 3, random_receiver_calls = 0, random_receiver_early_exits = 0\<rparr>"]
  show ?thesis by (auto simp: worker_id_def)
qed

text \<open>
  \<^verbatim>\<open>rightmost_victim\<close> never fails its assertion and returns a potential victim other
  than the given worker, or \<open>- 1\<close> when there is none.
\<close>

theorem rightmost_victim_potential:
  assumes "\<forall>i. bit v i \<longrightarrow> int i < N"
  shows "\<exists>victim. rightmost_victim N v ID = Some victim \<and>
    (victim = - 1 \<and> members v \<subseteq> {ID} \<or>
     0 \<le> victim \<and> victim < N \<and> victim \<noteq> ID \<and> bit v (nat victim))"
proof -
  have sub: "members v \<subseteq> {0..<N}" using assms by (auto simp: members_def)
  obtain victim where v: "rightmost_victim N v ID = Some victim"
    "if members v \<subseteq> {ID} then victim = - 1 else victim \<in> members v - {ID}"
    using rightmost_victim_spec [OF sub] by blast
  show ?thesis
  proof (cases "members v \<subseteq> {ID}")
    case True
    then show ?thesis using v by simp
  next
    case False
    then have m: "victim \<in> members v" "victim \<noteq> ID" using v(2) by auto
    then show ?thesis using v(1) sub by (auto simp: members_def)
  qed
qed

theorem rightmost_victim_potential_witness:
  "\<exists>victim. rightmost_victim 32 6 1 = Some victim \<and> victim \<noteq> 1 \<and> bit (6 :: uint) (nat victim)"
proof -
  have a: "\<forall>i. bit (6 :: uint) i \<longrightarrow> int i < 32" using bit_uint_less by fastforce
  have "2 \<in> members 6" by (simp add: members_def)
  then have "\<not> members 6 \<subseteq> {1}" by auto
  with rightmost_victim_potential [OF a, of 1] show ?thesis by blast
qed

end
