(* ===== verification/Bounded_Stack.thy ===== *)
theory Bounded_Stack
  imports Interfaces
begin

text \<open>
  The bounded stack of \<^verbatim>\<open>src/bounded_stack.h\<close>, in which every worker keeps the channels it may
  attach to its next steal requests. The flexible array of the struct is a list of slots, \<open>None\<close>
  for a slot that was never written. A failed \<^verbatim>\<open>assert\<close> or an access past the end of the
  allocation aborts.
\<close>

section \<open>Definitions\<close>

record 'a bounded_stack =
  bs_capacity :: uint
  bs_top :: uint
  bs_buffer :: "'a option list"

text \<open>
  \<open>malloc_ok\<close> is whether \<^verbatim>\<open>malloc\<close> succeeds and \<open>elem_size\<close> is \<^verbatim>\<open>sizeof\<close> of the element type. The
  size of the buffer is an \<^verbatim>\<open>unsigned int\<close> and wraps; the slots are those that fit.
\<close>

definition bounded_stack_alloc :: "bool \<Rightarrow> uint \<Rightarrow> uint \<Rightarrow> 'a bounded_stack option" where
  "bounded_stack_alloc malloc_ok elem_size capacity =
     (let buffer_size = capacity * elem_size
      in if \<not> malloc_ok then None
         else Some \<lparr>bs_capacity = capacity, bs_top = 0,
           bs_buffer = replicate (unat buffer_size div unat elem_size) None\<rparr>)"

definition bounded_stack_empty :: "'a bounded_stack \<Rightarrow> bool" where
  "bounded_stack_empty stack = (bs_top stack = 0)"

definition bounded_stack_full :: "'a bounded_stack \<Rightarrow> bool" where
  "bounded_stack_full stack = (bs_top stack = bs_capacity stack)"

definition bounded_stack_push :: "'a bounded_stack \<Rightarrow> 'a \<Rightarrow> 'a bounded_stack option" where
  "bounded_stack_push stack elem = do {
     assertion (\<not> bounded_stack_full stack);
     buffer \<leftarrow> write_at (bs_buffer stack) (unat (bs_top stack)) (Some elem);
     Some (stack\<lparr>bs_buffer := buffer, bs_top := bs_top stack + 1\<rparr>)
   }"

text \<open>The pointer \<^verbatim>\<open>pop\<close> returns is read at once by its callers: the model returns the slot.\<close>

definition bounded_stack_pop :: "'a bounded_stack \<Rightarrow> ('a option \<times> 'a bounded_stack) option" where
  "bounded_stack_pop stack = do {
     assertion (\<not> bounded_stack_empty stack);
     let stack = stack\<lparr>bs_top := bs_top stack - 1\<rparr>;
     elem \<leftarrow> read_at (bs_buffer stack) (unat (bs_top stack));
     Some (elem, stack)
   }"

section \<open>Invariant and abstraction\<close>

definition bs_inv :: "'a bounded_stack \<Rightarrow> bool" where
  "bs_inv s \<longleftrightarrow> bs_top s \<le> bs_capacity s \<and> length (bs_buffer s) = unat (bs_capacity s) \<and>
     (\<forall>i < unat (bs_top s). bs_buffer s ! i \<noteq> None)"

text \<open>The items, top of the stack first.\<close>

definition bs_items :: "'a bounded_stack \<Rightarrow> 'a list" where
  "bs_items s = rev (map the (take (unat (bs_top s)) (bs_buffer s)))"

definition bs_push :: "'a \<Rightarrow> 'a bounded_stack \<Rightarrow> 'a bounded_stack option" where
  "bs_push x s = bounded_stack_push s x"

definition bs_pop :: "'a bounded_stack \<Rightarrow> ('a \<times> 'a bounded_stack) option" where
  "bs_pop s = (case bounded_stack_pop s of Some (Some x, s') \<Rightarrow> Some (x, s') | _ \<Rightarrow> None)"

lemma bs_inv_alloc:
  assumes "bounded_stack_alloc True esz n = Some s" "esz \<noteq> 0" "unat n * unat esz < 2 ^ 32"
  shows "bs_inv s" "bs_items s = []" "bs_capacity s = n"
proof -
  have "unat (n * esz) = unat n * unat esz"
    using assms(3) by (simp add: unat_word_ariths)
  then have "unat (n * esz) div unat esz = unat n"
    using assms(2) by (simp add: unat_gt_0)
  then show "bs_inv s" "bs_items s = []" "bs_capacity s = n"
    using assms(1) by (auto simp: bounded_stack_alloc_def Let_def bs_inv_def bs_items_def)
qed

lemma length_bs_items: "bs_inv s \<Longrightarrow> length (bs_items s) = unat (bs_top s)"
  by (simp add: bs_items_def bs_inv_def word_le_nat_alt)

lemma bs_top_Suc:
  assumes "bs_inv s" "\<not> bounded_stack_full s"
  shows "unat (bs_top s + 1) = Suc (unat (bs_top s))" "unat (bs_top s) < unat (bs_capacity s)"
proof -
  have "bs_top s < bs_capacity s"
    using assms by (simp add: bs_inv_def bounded_stack_full_def order.strict_iff_order)
  then show "unat (bs_top s + 1) = Suc (unat (bs_top s))" "unat (bs_top s) < unat (bs_capacity s)"
    by (simp_all add: unat_Suc_less unat_mono)
qed

lemma bs_push_room:
  assumes "bs_inv s" "length (bs_items s) < unat (bs_capacity s)"
  shows "\<exists>s'. bs_push x s = Some s' \<and> bs_inv s' \<and> bs_items s' = x # bs_items s \<and>
    unat (bs_capacity s') = unat (bs_capacity s)"
proof -
  have nf: "\<not> bounded_stack_full s"
    using assms by (auto simp: length_bs_items bounded_stack_full_def)
  note top = bs_top_Suc [OF assms(1) nf]
  let ?s = "s\<lparr>bs_buffer := (bs_buffer s)[unat (bs_top s) := Some x], bs_top := bs_top s + 1\<rparr>"
  have "bs_push x s = Some ?s"
    using nf top assms(1) by (simp add: bs_push_def bounded_stack_push_def bs_inv_def)
  moreover have "bs_inv ?s"
    using assms(1) top by (auto simp: bs_inv_def word_le_nat_alt less_Suc_eq nth_list_update)
  moreover have "bs_items ?s = x # bs_items s"
    using assms(1) top by (simp add: bs_items_def bs_inv_def take_Suc_conv_app_nth)
  ultimately show ?thesis by simp
qed

lemma bs_push_full:
  "bs_inv s \<Longrightarrow> \<not> length (bs_items s) < unat (bs_capacity s) \<Longrightarrow> bs_push x s = None"
  by (auto simp: length_bs_items bs_inv_def bs_push_def bounded_stack_push_def
      bounded_stack_full_def word_le_nat_alt word_unat_eq_iff)

lemma bs_pop_item:
  assumes "bs_inv s" "bs_items s = x # xs"
  shows "\<exists>s'. bs_pop s = Some (x, s') \<and> bs_inv s' \<and> bs_items s' = xs \<and>
    unat (bs_capacity s') = unat (bs_capacity s)"
proof -
  have len: "unat (bs_top s) = Suc (length xs)"
    using assms by (metis length_Cons length_bs_items)
  then have nz: "bs_top s \<noteq> 0" by auto
  have top: "unat (bs_top s - 1) = length xs"
    using len nz by (simp add: unat_minus_one)
  have lt: "length xs < length (bs_buffer s)"
    using assms(1) len by (simp add: bs_inv_def word_le_nat_alt)
  then have snoc: "take (Suc (length xs)) (bs_buffer s) =
      take (length xs) (bs_buffer s) @ [bs_buffer s ! length xs]"
    by (simp add: take_Suc_conv_app_nth)
  then have x: "x = the (bs_buffer s ! length xs)" and xs: "xs = rev (map the (take (length xs) (bs_buffer s)))"
    using assms(2) len by (auto simp: bs_items_def)
  have "bs_buffer s ! length xs \<noteq> None"
    using assms(1) len by (simp add: bs_inv_def)
  with x have "bs_buffer s ! length xs = Some x" by auto
  then have "bs_pop s = Some (x, s\<lparr>bs_top := bs_top s - 1\<rparr>)"
    using top nz lt by (simp add: bs_pop_def bounded_stack_pop_def bounded_stack_empty_def)
  moreover have "bs_top s - 1 \<le> bs_capacity s"
    using assms(1) top len by (simp add: bs_inv_def word_le_nat_alt)
  ultimately show ?thesis
    using assms(1) top len xs by (simp add: bs_inv_def bs_items_def)
qed

lemma bs_pop_empty: "bs_inv s \<Longrightarrow> bs_items s = [] \<Longrightarrow> bs_pop s = None"
  using length_bs_items [of s]
  by (simp add: bs_pop_def bounded_stack_pop_def bounded_stack_empty_def unat_eq_zero)

interpretation bs: bounded_lifo bs_inv bs_items "\<lambda>s. unat (bs_capacity s)" bs_push bs_pop
  by unfold_locales (rule bs_push_room bs_push_full bs_pop_item bs_pop_empty; assumption)+


section \<open>Properties\<close>

text \<open>
  On an allocated stack any sequence of elements that fits is pushed without
  tripping an assertion and popped in reverse order, leaving the stack empty; one more push
  aborts, as does a pop of the empty stack.
\<close>

theorem bounded_stack_lifo:
  fixes x :: 'a
  assumes "esz \<noteq> 0" "unat n * unat esz < 2 ^ 32" "length xs \<le> unat n"
  shows "\<exists>s s' s''. bounded_stack_alloc True esz n = Some s \<and> put_all bs_push xs s = Some s' \<and>
    get_all bs_pop (length xs) s' = Some (rev xs, s'') \<and> bounded_stack_empty s'' \<and>
    bounded_stack_pop s'' = None \<and> (length xs = unat n \<longrightarrow> bounded_stack_push s' x = None)"
proof -
  obtain s :: "'a bounded_stack" where s: "bounded_stack_alloc True esz n = Some s"
    by (simp add: bounded_stack_alloc_def Let_def)
  note inv = bs_inv_alloc [OF s assms(1,2)]
  have room: "length (bs_items s) + length xs \<le> unat (bs_capacity s)" using inv assms(3) by simp
  obtain s' where s': "put_all bs_push xs s = Some s'" "bs_inv s'" "bs_items s' = rev xs"
      "unat (bs_capacity s') = unat n"
    using bs.push_all_room [OF inv(1) room] inv by auto
  obtain s'' where s'': "get_all bs_pop (length xs) s' = Some (rev xs, s'')" "bs_inv s''"
      "bs_items s'' = []"
    using bs.pop_all_items [of s' "rev xs" "[]"] s' by auto
  have "bounded_stack_empty s''"
    using length_bs_items [of s''] s'' by (simp add: bounded_stack_empty_def unat_eq_zero)
  moreover have "length xs = unat n \<Longrightarrow> bounded_stack_push s' x = None"
    using bs.push_full [of s' x] s' by (simp add: bs_push_def)
  ultimately show ?thesis using s s' s'' by (auto simp: bounded_stack_pop_def)
qed

theorem bounded_stack_lifo_witness:
  "\<exists>s s' s''. bounded_stack_alloc True 8 2 = Some s \<and> put_all bs_push ''ab'' s = Some s' \<and>
    get_all bs_pop (length ''ab'') s' = Some (''ba'', s'') \<and> bounded_stack_push s' CHR ''c'' = None"
proof -
  have "(8 :: uint) \<noteq> 0" "unat (2 :: uint) * unat (8 :: uint) < 2 ^ 32" "length ''ab'' = unat (2 :: uint)"
    by simp_all
  with bounded_stack_lifo [of 8 2 "''ab''" "CHR ''c''"] show ?thesis by auto
qed

end
