(* ===== verification/Bounded_Queue.thy ===== *)
theory Bounded_Queue
  imports Interfaces
begin

text \<open>
  The bounded queue of \<^verbatim>\<open>src/bounded_queue.h\<close>, in which every worker keeps the work-sharing
  requests of its children. One slot of the ring buffer stays free to tell a full queue from
  an empty one. \<open>None\<close> slots were never written; a failed \<^verbatim>\<open>assert\<close>, an access past the end of the
  allocation and a division by zero abort.
\<close>

section \<open>Definitions\<close>

record 'a bounded_queue =
  bq_capacity :: uint
  bq_head :: uint
  bq_tail :: uint
  bq_buffer :: "'a option list"

definition bounded_queue_alloc :: "bool \<Rightarrow> uint \<Rightarrow> uint \<Rightarrow> 'a bounded_queue option" where
  "bounded_queue_alloc malloc_ok elem_size capacity =
     (let buffer_size = (capacity + 1) * elem_size
      in if \<not> malloc_ok then None
         else Some \<lparr>bq_capacity = capacity + 1, bq_head = 0, bq_tail = 0,
           bq_buffer = replicate (unat buffer_size div unat elem_size) None\<rparr>)"

definition bounded_queue_empty :: "'a bounded_queue \<Rightarrow> bool" where
  "bounded_queue_empty queue = (bq_head queue = bq_tail queue)"

definition bounded_queue_full :: "'a bounded_queue \<Rightarrow> bool option" where
  "bounded_queue_full queue = do {
     next \<leftarrow> umod (bq_tail queue + 1) (bq_capacity queue);
     Some (next = bq_head queue)
   }"

definition bounded_queue_enqueue :: "'a bounded_queue \<Rightarrow> 'a \<Rightarrow> 'a bounded_queue option" where
  "bounded_queue_enqueue queue elem = do {
     full \<leftarrow> bounded_queue_full queue;
     assertion (\<not> full);
     buffer \<leftarrow> write_at (bq_buffer queue) (unat (bq_tail queue)) (Some elem);
     tail \<leftarrow> umod (bq_tail queue + 1) (bq_capacity queue);
     Some (queue\<lparr>bq_buffer := buffer, bq_tail := tail\<rparr>)
   }"

text \<open>The pointers \<^verbatim>\<open>dequeue\<close> and \<^verbatim>\<open>head\<close> return are modelled by the slot they point to.\<close>

definition bounded_queue_dequeue :: "'a bounded_queue \<Rightarrow> ('a option \<times> 'a bounded_queue) option" where
  "bounded_queue_dequeue queue = do {
     assertion (\<not> bounded_queue_empty queue);
     elem \<leftarrow> read_at (bq_buffer queue) (unat (bq_head queue));
     head \<leftarrow> umod (bq_head queue + 1) (bq_capacity queue);
     Some (elem, queue\<lparr>bq_head := head\<rparr>)
   }"

definition bounded_queue_head :: "'a bounded_queue \<Rightarrow> 'a option option" where
  "bounded_queue_head queue = do {
     assertion (\<not> bounded_queue_empty queue);
     read_at (bq_buffer queue) (unat (bq_head queue))
   }"

section \<open>Invariant and abstraction\<close>

abbreviation bq_cap :: "'a bounded_queue \<Rightarrow> nat" where
  "bq_cap q \<equiv> unat (bq_capacity q)"

definition bq_inv :: "'a bounded_queue \<Rightarrow> bool" where
  "bq_inv q \<longleftrightarrow> bq_head q < bq_capacity q \<and> bq_tail q < bq_capacity q \<and>
     length (bq_buffer q) = bq_cap q \<and>
     None \<notin> set (ring_items (\<lambda>i. bq_buffer q ! i) (bq_cap q) (unat (bq_head q)) (unat (bq_tail q)))"

definition bq_items :: "'a bounded_queue \<Rightarrow> 'a list" where
  "bq_items q =
     map the (ring_items (\<lambda>i. bq_buffer q ! i) (bq_cap q) (unat (bq_head q)) (unat (bq_tail q)))"

definition bq_put :: "'a \<Rightarrow> 'a bounded_queue \<Rightarrow> 'a bounded_queue option" where
  "bq_put x q = bounded_queue_enqueue q x"

definition bq_get :: "'a bounded_queue \<Rightarrow> ('a \<times> 'a bounded_queue) option" where
  "bq_get q = (case bounded_queue_dequeue q of Some (Some x, q') \<Rightarrow> Some (x, q') | _ \<Rightarrow> None)"

lemma bq_inv_alloc:
  assumes "bounded_queue_alloc True esz n = Some q" "esz \<noteq> 0" "(unat n + 1) * unat esz < 2 ^ 32"
  shows "bq_inv q" "bq_items q = []" "bq_cap q - 1 = unat n"
proof -
  have "unat n + 1 \<le> (unat n + 1) * unat esz"
    using mult_le_mono2 [of 1 "unat esz" "unat n + 1"] assms(2) by (simp add: unat_gt_0 Suc_leI)
  then have n: "unat (n + 1) = unat n + 1"
    using assms(3) by (simp add: unat_word_ariths)
  then have "unat ((n + 1) * esz) = (unat n + 1) * unat esz"
    using assms(3) by (simp add: unat_word_ariths)
  then have "unat ((n + 1) * esz) div unat esz = unat n + 1"
    using assms(2) by (simp add: unat_gt_0)
  then show "bq_inv q" "bq_items q = []" "bq_cap q - 1 = unat n"
    using assms(1) n
    by (auto simp: bounded_queue_alloc_def Let_def bq_inv_def bq_items_def ring_items_def
        ring_len_def word_less_nat_alt)
qed

text \<open>The word arithmetic of the indices is the arithmetic of \<^theory_text>\<open>Interfaces\<close>.\<close>

lemma unat_next:
  assumes "(i :: uint) < c"
  shows "unat ((i + 1) mod c) = Suc (unat i) mod unat c"
  using assms by (simp add: unat_mod unat_Suc_less)

lemma bq_inv_bounds:
  assumes "bq_inv q"
  shows "unat (bq_head q) < bq_cap q" "unat (bq_tail q) < bq_cap q" "bq_capacity q \<noteq> 0"
  using assms by (auto simp: bq_inv_def word_less_nat_alt)

lemma bounded_queue_full_items:
  assumes "bq_inv q"
  shows "bounded_queue_full q = Some (length (bq_items q) = bq_cap q - 1)"
proof -
  note b = bq_inv_bounds [OF assms]
  have "(bq_tail q + 1) mod bq_capacity q = bq_head q \<longleftrightarrow>
      Suc (unat (bq_tail q)) mod bq_cap q = unat (bq_head q)"
    using assms by (simp add: word_unat_eq_iff unat_next bq_inv_def)
  then show ?thesis
    using b ring_full [OF b(1,2)] by (simp add: bounded_queue_full_def bq_items_def)
qed

lemma bounded_queue_empty_items:
  "bq_inv q \<Longrightarrow> bounded_queue_empty q \<longleftrightarrow> bq_items q = []"
  using bq_inv_bounds [of q]
  by (simp add: bounded_queue_empty_def bq_items_def word_unat_eq_iff ring_items_Nil)

lemma bq_put_room:
  assumes "bq_inv q" "length (bq_items q) < bq_cap q - 1"
  shows "\<exists>q'. bq_put x q = Some q' \<and> bq_inv q' \<and> bq_items q' = bq_items q @ [x] \<and>
    bq_cap q' - 1 = bq_cap q - 1"
proof -
  note b = bq_inv_bounds [OF assms(1)]
  let ?h = "unat (bq_head q)" and ?t = "unat (bq_tail q)" and ?c = "bq_cap q"
  let ?q = "q\<lparr>bq_buffer := (bq_buffer q)[?t := Some x],
    bq_tail := (bq_tail q + 1) mod bq_capacity q\<rparr>"
  have len: "length (bq_buffer q) = ?c" using assms(1) by (simp add: bq_inv_def)
  have "bq_put x q = Some ?q"
    using b len assms by (simp add: bq_put_def bounded_queue_enqueue_def bounded_queue_full_items)
  moreover have tail: "unat (bq_tail ?q) = Suc ?t mod ?c"
    using assms(1) by (simp add: unat_next bq_inv_def)
  moreover have ring: "ring_items (\<lambda>i. bq_buffer ?q ! i) ?c ?h (Suc ?t mod ?c) =
      ring_items (\<lambda>i. bq_buffer q ! i) ?c ?h ?t @ [bq_buffer ?q ! ?t]"
    using b assms(2) len by (intro ring_items_put) (auto simp: bq_items_def)
  moreover have "bq_inv ?q"
    using assms(1) b len ring tail
    by (auto simp: bq_inv_def word_less_nat_alt)
  ultimately show ?thesis
    using b len by (intro exI [of _ ?q]) (simp add: bq_items_def)
qed

lemma bq_put_full:
  "bq_inv q \<Longrightarrow> \<not> length (bq_items q) < bq_cap q - 1 \<Longrightarrow> bq_put x q = None"
proof -
  assume q: "bq_inv q" "\<not> length (bq_items q) < bq_cap q - 1"
  have "length (bq_items q) < bq_cap q"
    using ring_len_less [of "bq_cap q" "unat (bq_head q)" "unat (bq_tail q)"] bq_inv_bounds [OF q(1)]
    by (simp add: bq_items_def)
  with q(2) have "length (bq_items q) = bq_cap q - 1" by linarith
  with q(1) show ?thesis
    by (simp add: bq_put_def bounded_queue_enqueue_def bounded_queue_full_items)
qed

lemma bq_get_item:
  assumes "bq_inv q" "bq_items q = x # xs"
  shows "\<exists>q'. bq_get q = Some (x, q') \<and> bq_inv q' \<and> bq_items q' = xs \<and>
    bq_cap q' - 1 = bq_cap q - 1"
proof -
  note b = bq_inv_bounds [OF assms(1)]
  let ?h = "unat (bq_head q)" and ?t = "unat (bq_tail q)" and ?c = "bq_cap q"
  let ?q = "q\<lparr>bq_head := (bq_head q + 1) mod bq_capacity q\<rparr>"
  let ?r = "ring_items (\<lambda>i. bq_buffer q ! i) ?c"
  have len: "length (bq_buffer q) = ?c" using assms(1) by (simp add: bq_inv_def)
  have ne: "\<not> bounded_queue_empty q"
    using assms by (simp add: bounded_queue_empty_items)
  then have ht: "?h \<noteq> ?t" by (simp add: bounded_queue_empty_def word_unat_eq_iff)
  have head: "unat (bq_head ?q) = Suc ?h mod ?c"
    using assms(1) by (simp add: unat_next bq_inv_def)
  have ring: "?r ?h ?t = bq_buffer q ! ?h # ?r (Suc ?h mod ?c) ?t"
    using b ht by (intro ring_items_get) auto
  then have x: "bq_buffer q ! ?h = Some x" and xs: "xs = map the (?r (Suc ?h mod ?c) ?t)"
    using assms by (auto simp: bq_items_def bq_inv_def)
  have "bq_get q = Some (x, ?q)"
    using b ne len x by (simp add: bq_get_def bounded_queue_dequeue_def)
  moreover have "bq_inv ?q"
    using assms(1) b ring head by (auto simp: bq_inv_def word_less_nat_alt)
  ultimately show ?thesis
    using xs head by (intro exI [of _ ?q]) (simp add: bq_items_def)
qed

lemma bq_get_empty: "bq_inv q \<Longrightarrow> bq_items q = [] \<Longrightarrow> bq_get q = None"
  by (simp add: bq_get_def bounded_queue_dequeue_def bounded_queue_empty_items)

lemma bounded_queue_head_item:
  "bq_inv q \<Longrightarrow> bq_items q = x # xs \<Longrightarrow> bounded_queue_head q = Some (Some x)"
  using bq_get_item [of q x xs]
  by (auto simp: bq_get_def bounded_queue_dequeue_def bounded_queue_head_def
      split: option.splits Option.bind_splits)

interpretation bq: bounded_fifo bq_inv bq_items "\<lambda>q. bq_cap q - 1" "\<lambda>_ _. True" bq_put bq_get
proof
  fix q :: "'a bounded_queue" and x :: 'a
  assume "bq_inv q" and "length (bq_items q) < bq_cap q - 1"
  then show "\<exists>q'. bq_put x q = Some q' \<and> bq_inv q' \<and> bq_items q' = bq_items q @ [x] \<and>
      bq_cap q' - 1 = bq_cap q - 1 \<and> (\<forall>y :: 'a. True = True)"
    using bq_put_room by simp
next
  fix q :: "'a bounded_queue" and x :: 'a and xs
  assume "bq_inv q" and "bq_items q = x # xs"
  then show "\<exists>q'. bq_get q = Some (x, q') \<and> bq_inv q' \<and> bq_items q' = xs \<and>
      bq_cap q' - 1 = bq_cap q - 1 \<and> (\<forall>y :: 'a. True = True)"
    using bq_get_item by simp
qed (rule bq_put_full bq_get_empty; assumption)+


section \<open>Properties\<close>



end
