(* ===== verification/Task.thy ===== *)
theory Task
  imports Prelude
begin

text \<open>
  Task objects (\<^verbatim>\<open>src/task.h\<close>) in a heap, and the two shapes in which the runtime links them:
  doubly linked segments (deques and the lists of stolen tasks that travel between workers) and
  singly linked free lists.
\<close>

section \<open>Tasks\<close>

text \<open>
  \<^verbatim>\<open>struct task\<close>. The bounds of a splittable loop task are \<^verbatim>\<open>long\<close>; the function pointer and the
  list of futures are addresses.
\<close>

record task =
  t_parent :: addr
  t_prev :: addr
  t_next :: addr
  t_fn :: addr
  t_start :: int
  t_cur :: int
  t_end :: int
  t_victim :: int
  t_splittable :: bool
  t_has_future :: bool
  t_futures :: addr
  t_data :: "byte list"

type_synonym task_heap = "task heap"

definition zeroed :: "task \<Rightarrow> task" where
  "zeroed t = t\<lparr>t_parent := NULL, t_prev := NULL, t_next := NULL, t_fn := NULL,
     t_start := 0, t_cur := 0, t_end := 0, t_victim := 0, t_splittable := False,
     t_has_future := False, t_futures := NULL\<rparr>"

definition task_zero :: "task_heap \<Rightarrow> addr \<Rightarrow> (addr \<times> task_heap) option" where
  "task_zero h task = do { h \<leftarrow> assign h task zeroed; Some (task, h) }"

text \<open>A zeroed task without data, for concrete runs.\<close>

definition blank_task :: task where
  "blank_task = \<lparr>t_parent = NULL, t_prev = NULL, t_next = NULL, t_fn = NULL, t_start = 0, t_cur = 0,
     t_end = 0, t_victim = 0, t_splittable = False, t_has_future = False, t_futures = NULL,
     t_data = []\<rparr>"

text \<open>\<open>p\<close> is what \<^verbatim>\<open>malloc\<close> returns, \<open>junk\<close> the contents of the fresh object.\<close>

definition task_new :: "addr \<Rightarrow> task \<Rightarrow> task_heap \<Rightarrow> (addr \<times> task_heap) option" where
  "task_new p junk h = (if p = NULL then Some (NULL, h) else task_zero (h(p \<mapsto> junk)) p)"

definition task_delete :: "task_heap \<Rightarrow> addr \<Rightarrow> task_heap option" where
  "task_delete h task = c_free h task"

definition task_data :: "task_heap \<Rightarrow> addr \<Rightarrow> byte list option" where
  "task_data h task = map_option t_data (deref h task)"

section \<open>Doubly linked segments\<close>

text \<open>
  \<open>dll h p xs n\<close>: the live, nonnull nodes \<open>xs\<close> are linked in both directions, the first node
  points back to \<open>p\<close> and the last one forward to \<open>n\<close>.
\<close>

fun dll :: "task_heap \<Rightarrow> addr \<Rightarrow> addr list \<Rightarrow> addr \<Rightarrow> bool" where
  "dll h p [] n \<longleftrightarrow> True"
| "dll h p (x # xs) n \<longleftrightarrow>
     (\<exists>t. deref h x = Some t \<and> t_prev t = p \<and> t_next t = hd (xs @ [n])) \<and> dll h x xs n"

lemma dll_append:
  "dll h p (xs @ ys) n \<longleftrightarrow> dll h p xs (hd (ys @ [n])) \<and> dll h (last (p # xs)) ys n"
  by (induction xs arbitrary: p) (auto simp: hd_append)

lemma dll_frame [simp]: "a \<notin> set xs \<Longrightarrow> dll (h(a := v)) p xs n \<longleftrightarrow> dll h p xs n"
  by (induction xs arbitrary: p) auto

lemma dll_cong: "\<forall>a \<in> set xs. h' a = h a \<Longrightarrow> dll h' p xs n \<longleftrightarrow> dll h p xs n"
  by (induction xs arbitrary: p) (auto simp: deref_def)

lemma dll_live: "dll h p xs n \<Longrightarrow> x \<in> set xs \<Longrightarrow> \<exists>t. deref h x = Some t"
  by (induction xs arbitrary: p) auto

lemma dll_not_NULL: "dll h p xs n \<Longrightarrow> NULL \<notin> set xs"
  by (induction xs arbitrary: p) auto

text \<open>The two ends of a segment can be relinked without touching its inner nodes.\<close>

lemma dll_set_first_prev:
  assumes "dll h p (x # xs) n" "distinct (x # xs)" "deref h x = Some t"
  shows "dll (h(x \<mapsto> t\<lparr>t_prev := q\<rparr>)) q (x # xs) n"
  using assms by (auto simp: abort_splits)

lemma dll_set_last_next:
  assumes "dll h p (xs @ [x]) n" "distinct (xs @ [x])" "deref h x = Some t"
  shows "dll (h(x \<mapsto> t\<lparr>t_next := m\<rparr>)) p (xs @ [x]) m"
  using assms by (auto simp: dll_append abort_splits)

text \<open>Walking back from the end of a segment.\<close>

fun walk_back :: "task_heap \<Rightarrow> nat \<Rightarrow> addr \<Rightarrow> addr option" where
  "walk_back h 0 task = Some task"
| "walk_back h (Suc i) task = do { t \<leftarrow> deref h task; walk_back h i (t_prev t) }"

lemma walk_back_dll:
  assumes "dll h p (xs @ ys @ [x]) n"
  shows "walk_back h (length ys) x = Some (hd (ys @ [x]))"
  using assms
proof (induction ys arbitrary: x n rule: rev_induct)
  case (snoc y ys)
  from snoc.prems obtain t where "deref h x = Some t" "t_prev t = y" "dll h p (xs @ ys @ [y]) x"
    by (cases "ys = []") (auto simp: dll_append hd_append)
  with snoc.IH show ?case by (auto simp: hd_append)
qed simp

section \<open>Free lists\<close>

text \<open>A free task object is zeroed but for its link to the next one.\<close>

definition free_task :: "task \<Rightarrow> bool" where
  "free_task t \<longleftrightarrow> t\<lparr>t_next := NULL\<rparr> = zeroed t"

fun chain :: "task_heap \<Rightarrow> addr \<Rightarrow> addr list \<Rightarrow> bool" where
  "chain h a [] \<longleftrightarrow> a = NULL"
| "chain h a (x # xs) \<longleftrightarrow> a = x \<and> (\<exists>t. deref h x = Some t \<and> free_task t \<and> chain h (t_next t) xs)"

lemma chain_frame [simp]: "a \<notin> set xs \<Longrightarrow> chain (h(a := v)) b xs \<longleftrightarrow> chain h b xs"
  by (induction xs arbitrary: b) auto

lemma chain_cong: "\<forall>a \<in> set xs. h' a = h a \<Longrightarrow> chain h' b xs \<longleftrightarrow> chain h b xs"
  by (induction xs arbitrary: b) (auto simp: deref_def)

lemma chain_not_NULL: "chain h a xs \<Longrightarrow> NULL \<notin> set xs"
  by (induction xs arbitrary: a) auto

lemma chain_live: "chain h a xs \<Longrightarrow> x \<in> set xs \<Longrightarrow> \<exists>t. deref h x = Some t"
  by (induction xs arbitrary: a) auto

section \<open>Payloads\<close>

text \<open>Everything of a task but its links: what moving tasks between containers must preserve.\<close>

definition payload :: "task \<Rightarrow> task" where
  "payload t = t\<lparr>t_prev := NULL, t_next := NULL\<rparr>"

definition same_payloads :: "task_heap \<Rightarrow> task_heap \<Rightarrow> bool" where
  "same_payloads h h' \<longleftrightarrow> (\<forall>a. map_option payload (h' a) = map_option payload (h a))"

lemma payload_links [simp]:
  "payload (t\<lparr>t_prev := p\<rparr>) = payload t" "payload (t\<lparr>t_next := n\<rparr>) = payload t"
  by (simp_all add: payload_def)

lemma same_payloads_refl [simp]: "same_payloads h h"
  by (simp add: same_payloads_def)

lemma same_payloads_trans: "same_payloads h h' \<Longrightarrow> same_payloads h' h'' \<Longrightarrow> same_payloads h h''"
  by (simp add: same_payloads_def)

lemma same_payloads_upd:
  "deref h a = Some t \<Longrightarrow> payload t' = payload t \<Longrightarrow> same_payloads h (h(a \<mapsto> t'))"
  by (simp add: same_payloads_def deref_def split: if_splits)

lemma same_payloads_live: "same_payloads h h' \<Longrightarrow> deref h a = Some t \<Longrightarrow> \<exists>t'. deref h' a = Some t'"
  by (auto simp: same_payloads_def deref_def split: if_splits)
    (metis map_option_is_None not_Some_eq option.simps(9))

lemma same_payloads_dom: "same_payloads h h' \<Longrightarrow> dom h' = dom h"
  by (rule set_eqI) (metis domIff map_option_is_None same_payloads_def)

text \<open>Link updates through a pointer to a live task.\<close>

lemma same_payloads_assign_prev: "assign h a (\<lambda>t. t\<lparr>t_prev := p\<rparr>) = Some h' \<Longrightarrow> same_payloads h h'"
  by (auto simp: assign_Some same_payloads_upd)

lemma same_payloads_assign_next: "assign h a (\<lambda>t. t\<lparr>t_next := p\<rparr>) = Some h' \<Longrightarrow> same_payloads h h'"
  by (auto simp: assign_Some same_payloads_upd)

end
