(* ===== verification/Deque.thy ===== *)
theory Deque
  imports Task Interfaces
begin

text \<open>
  The thread-local deques of \<^verbatim>\<open>src/deque.c\<close>: a doubly linked list of tasks that ends in a dummy
  node, accessed by its worker at the head and stolen from at the tail, with a free list of task
  objects. Every operation takes the heap of tasks and the deque and returns both; \<open>None\<close> is a
  failed assertion or an access through a null or dangling pointer.
\<close>

section \<open>Definitions\<close>

record deque =
  dq_head :: addr
  dq_tail :: addr
  num_tasks :: uint
  num_steals :: uint
  freelist :: addr

abbreviation dummy_fn :: addr where "dummy_fn \<equiv> 0xCAFE"

definition freelist_push :: "task_heap \<Rightarrow> deque \<Rightarrow> addr \<Rightarrow> (deque \<times> task_heap) option" where
  "freelist_push h dq task = do {
     h \<leftarrow> assign h task (\<lambda>t. t\<lparr>t_next := freelist dq\<rparr>);
     Some (dq\<lparr>freelist := task\<rparr>, h)
   }"

definition freelist_pop :: "task_heap \<Rightarrow> deque \<Rightarrow> (addr \<times> deque \<times> task_heap) option" where
  "freelist_pop h dq =
     (if freelist dq = NULL then Some (NULL, dq, h)
      else do {
        let task = freelist dq;
        t \<leftarrow> deref h (freelist dq);
        let dq = dq\<lparr>freelist := t_next t\<rparr>;
        h \<leftarrow> assign h task (\<lambda>t. t\<lparr>t_next := NULL\<rparr>);
        Some (task, dq, h)
      })"

text \<open>
  \<open>dq_ok\<close> is whether \<^verbatim>\<open>malloc\<close> of the deque succeeds, \<open>p\<close> and \<open>junk\<close> are those of \<open>task_new\<close>. The result
  of \<^verbatim>\<open>task_new\<close> is dereferenced unchecked: the call aborts when it is null.
\<close>

definition deque_new :: "bool \<Rightarrow> addr \<Rightarrow> task \<Rightarrow> task_heap \<Rightarrow> (deque option \<times> task_heap) option" where
  "deque_new dq_ok p junk h =
     (if \<not> dq_ok then Some (None, h)
      else do {
        (dummy, h) \<leftarrow> task_new p junk h;
        h \<leftarrow> assign h dummy (\<lambda>t. t\<lparr>t_fn := dummy_fn\<rparr>);
        Some (Some \<lparr>dq_head = dummy, dq_tail = dummy, num_tasks = 0, num_steals = 0,
          freelist = NULL\<rparr>, h)
      })"

definition deque_empty :: "deque \<Rightarrow> bool" where
  "deque_empty dq = (dq_head dq = dq_tail dq \<and> num_tasks dq = 0)"

definition deque_num_tasks :: "deque \<Rightarrow> uint" where
  "deque_num_tasks dq = num_tasks dq"

definition deque_task_new ::
  "addr \<Rightarrow> task \<Rightarrow> task_heap \<Rightarrow> deque \<Rightarrow> (addr \<times> deque \<times> task_heap) option"
where
  "deque_task_new p junk h dq =
     (if freelist dq = NULL then do { (t, h) \<leftarrow> task_new p junk h; Some (t, dq, h) }
      else freelist_pop h dq)"

definition deque_task_cache :: "task_heap \<Rightarrow> deque \<Rightarrow> addr \<Rightarrow> (deque \<times> task_heap) option" where
  "deque_task_cache h dq task = do {
     assertion (task \<noteq> NULL);
     (task, h) \<leftarrow> task_zero h task;
     freelist_push h dq task
   }"

definition deque_prepend ::
  "task_heap \<Rightarrow> deque \<Rightarrow> addr \<Rightarrow> addr \<Rightarrow> uint \<Rightarrow> (deque \<times> task_heap) option"
where
  "deque_prepend h dq head tail len = do {
     assertion (head \<noteq> NULL \<and> tail \<noteq> NULL);
     assertion (len > 0);
     t \<leftarrow> deref h tail;
     assertion (t_next t = NULL);
     h \<leftarrow> assign h tail (\<lambda>t. t\<lparr>t_next := dq_head dq\<rparr>);
     h \<leftarrow> assign h (dq_head dq) (\<lambda>t. t\<lparr>t_prev := tail\<rparr>);
     Some (dq\<lparr>dq_head := head, num_tasks := num_tasks dq + len\<rparr>, h)
   }"

text \<open>
  The search for the tail of a list, which counts the tasks; it diverges on a cyclic list. The
  other two versions of \<^verbatim>\<open>deque_prepend\<close> start with it and end as the first one does.
\<close>

partial_function (option) find_tail :: "task_heap \<Rightarrow> addr \<Rightarrow> uint \<Rightarrow> (addr \<times> uint) option" where
  "find_tail h tail n = do {
     t \<leftarrow> deref h tail;
     if t_next t \<noteq> NULL then find_tail h (t_next t) (n + 1) else Some (tail, n)
   }"

definition deque_prepend_len ::
  "task_heap \<Rightarrow> deque \<Rightarrow> addr \<Rightarrow> uint \<Rightarrow> (deque \<times> task_heap) option"
where
  "deque_prepend_len h dq head len = do {
     assertion (head \<noteq> NULL);
     assertion (len > 0);
     (tail, _) \<leftarrow> find_tail h head 1;
     t \<leftarrow> deref h tail;
     assertion (t_next t = NULL);
     h \<leftarrow> assign h tail (\<lambda>t. t\<lparr>t_next := dq_head dq\<rparr>);
     h \<leftarrow> assign h (dq_head dq) (\<lambda>t. t\<lparr>t_prev := tail\<rparr>);
     Some (dq\<lparr>dq_head := head, num_tasks := num_tasks dq + len\<rparr>, h)
   }"

definition deque_prepend_list :: "task_heap \<Rightarrow> deque \<Rightarrow> addr \<Rightarrow> (deque \<times> task_heap) option" where
  "deque_prepend_list h dq head = do {
     assertion (head \<noteq> NULL);
     (tail, n) \<leftarrow> find_tail h head 1;
     t \<leftarrow> deref h tail;
     assertion (t_next t = NULL);
     h \<leftarrow> assign h tail (\<lambda>t. t\<lparr>t_next := dq_head dq\<rparr>);
     h \<leftarrow> assign h (dq_head dq) (\<lambda>t. t\<lparr>t_prev := tail\<rparr>);
     Some (dq\<lparr>dq_head := head, num_tasks := num_tasks dq + n\<rparr>, h)
   }"

definition deque_push :: "task_heap \<Rightarrow> deque \<Rightarrow> addr \<Rightarrow> (deque \<times> task_heap) option" where
  "deque_push h dq task = do {
     assertion (task \<noteq> NULL);
     h \<leftarrow> assign h task (\<lambda>t. t\<lparr>t_next := dq_head dq\<rparr>);
     h \<leftarrow> assign h (dq_head dq) (\<lambda>t. t\<lparr>t_prev := task\<rparr>);
     Some (dq\<lparr>dq_head := task, num_tasks := num_tasks dq + 1\<rparr>, h)
   }"

definition deque_pop :: "task_heap \<Rightarrow> deque \<Rightarrow> (addr \<times> deque \<times> task_heap) option" where
  "deque_pop h dq =
     (if deque_empty dq then Some (NULL, dq, h)
      else do {
        let task = dq_head dq;
        t \<leftarrow> deref h (dq_head dq);
        let dq = dq\<lparr>dq_head := t_next t\<rparr>;
        h \<leftarrow> assign h (dq_head dq) (\<lambda>t. t\<lparr>t_prev := NULL\<rparr>);
        h \<leftarrow> assign h task (\<lambda>t. t\<lparr>t_next := NULL\<rparr>);
        Some (task, dq\<lparr>num_tasks := num_tasks dq - 1\<rparr>, h)
      })"

definition deque_pop_child :: "task_heap \<Rightarrow> deque \<Rightarrow> addr \<Rightarrow> (addr \<times> deque \<times> task_heap) option" where
  "deque_pop_child h dq parent = do {
     assertion (parent \<noteq> NULL);
     if deque_empty dq then Some (NULL, dq, h)
     else do {
       let task = dq_head dq;
       t \<leftarrow> deref h task;
       if t_parent t \<noteq> parent then Some (NULL, dq, h)
       else do {
         t \<leftarrow> deref h (dq_head dq);
         let dq = dq\<lparr>dq_head := t_next t\<rparr>;
         h \<leftarrow> assign h (dq_head dq) (\<lambda>t. t\<lparr>t_prev := NULL\<rparr>);
         h \<leftarrow> assign h task (\<lambda>t. t\<lparr>t_next := NULL\<rparr>);
         Some (task, dq\<lparr>num_tasks := num_tasks dq - 1\<rparr>, h)
       }
     }
   }"

text \<open>
  The end of every steal operation: the dummy node is linked to what precedes the stolen tasks,
  of which \<open>task\<close> is the first.
\<close>

definition close_gap :: "task_heap \<Rightarrow> deque \<Rightarrow> addr \<Rightarrow> (deque \<times> task_heap) option" where
  "close_gap h dq task = do {
     t \<leftarrow> deref h task;
     h \<leftarrow> assign h (dq_tail dq) (\<lambda>d. d\<lparr>t_prev := t_prev t\<rparr>);
     h \<leftarrow> assign h task (\<lambda>t. t\<lparr>t_prev := NULL\<rparr>);
     d \<leftarrow> deref h (dq_tail dq);
     if t_prev d = NULL then do {
       assertion (dq_head dq = task);
       Some (dq\<lparr>dq_head := dq_tail dq\<rparr>, h)
     } else do {
       h \<leftarrow> assign h (t_prev d) (\<lambda>t. t\<lparr>t_next := dq_tail dq\<rparr>);
       Some (dq, h)
     }
   }"

definition deque_steal :: "task_heap \<Rightarrow> deque \<Rightarrow> (addr \<times> deque \<times> task_heap) option" where
  "deque_steal h dq =
     (if deque_empty dq then Some (NULL, dq, h)
      else do {
        let task = dq_tail dq;
        d \<leftarrow> deref h task;
        assertion (t_fn d = dummy_fn);
        let task = t_prev d;
        h \<leftarrow> assign h task (\<lambda>t. t\<lparr>t_next := NULL\<rparr>);
        (dq, h) \<leftarrow> close_gap h dq task;
        Some (task, dq\<lparr>num_tasks := num_tasks dq - 1, num_steals := num_steals dq + 1\<rparr>, h)
      })"

text \<open>
  What the four bulk steals share once the number \<open>n\<close> of tasks is known: walk back from the
  dummy node, terminate the list of stolen tasks and close the gap. The results are the first
  and the last stolen task.
\<close>

definition steal_n ::
  "task_heap \<Rightarrow> deque \<Rightarrow> int \<Rightarrow> (addr \<times> addr \<times> deque \<times> task_heap) option"
where
  "steal_n h dq n = do {
     let task = dq_tail dq;
     d \<leftarrow> deref h task;
     let tail = t_prev d;
     assertion (t_fn d = dummy_fn);
     task \<leftarrow> walk_back h (nat n) task;
     d \<leftarrow> deref h (dq_tail dq);
     h \<leftarrow> assign h (t_prev d) (\<lambda>t. t\<lparr>t_next := NULL\<rparr>);
     (dq, h) \<leftarrow> close_gap h dq task;
     Some (task, tail, dq\<lparr>num_tasks := num_tasks dq - of_int n, num_steals := num_steals dq + 1\<rparr>, h)
   }"

definition half_of :: "deque \<Rightarrow> int" where
  "half_of dq = (let n = uint (num_tasks dq) div 2 in if n = 0 then 1 else n)"

text \<open>
  The results are the first task, the last task (through the parameter \<^verbatim>\<open>tail\<close>) and the number
  of tasks (through \<^verbatim>\<open>stolen\<close>). An empty deque gives \<open>NULL\<close> and leaves the other two alone: they are
  \<open>None\<close>.
\<close>

definition deque_steal_many ::
  "task_heap \<Rightarrow> deque \<Rightarrow> int \<Rightarrow> (addr \<times> (addr \<times> int) option \<times> deque \<times> task_heap) option"
where
  "deque_steal_many h dq maxn =
     (if deque_empty dq then Some (NULL, None, dq, h)
      else do {
        let n = half_of dq;
        let n = (if n > maxn then maxn else n);
        (task, tail, dq, h) \<leftarrow> steal_n h dq n;
        Some (task, Some (tail, n), dq, h)
      })"

definition deque_steal_many_2 ::
  "task_heap \<Rightarrow> deque \<Rightarrow> int \<Rightarrow> (addr \<times> int option \<times> deque \<times> task_heap) option"
where
  "deque_steal_many_2 h dq maxn =
     (if deque_empty dq then Some (NULL, None, dq, h)
      else do {
        let n = half_of dq;
        let n = (if n > maxn then maxn else n);
        (task, _, dq, h) \<leftarrow> steal_n h dq n;
        Some (task, Some n, dq, h)
      })"

definition deque_steal_half ::
  "task_heap \<Rightarrow> deque \<Rightarrow> (addr \<times> (addr \<times> int) option \<times> deque \<times> task_heap) option"
where
  "deque_steal_half h dq =
     (if deque_empty dq then Some (NULL, None, dq, h)
      else do {
        let n = half_of dq;
        (task, tail, dq, h) \<leftarrow> steal_n h dq n;
        Some (task, Some (tail, n), dq, h)
      })"

definition deque_steal_half_2 ::
  "task_heap \<Rightarrow> deque \<Rightarrow> (addr \<times> int option \<times> deque \<times> task_heap) option"
where
  "deque_steal_half_2 h dq =
     (if deque_empty dq then Some (NULL, None, dq, h)
      else do {
        let n = half_of dq;
        (task, _, dq, h) \<leftarrow> steal_n h dq n;
        Some (task, Some n, dq, h)
      })"

text \<open>The two loops of \<^verbatim>\<open>deque_delete\<close>. The result is the heap left behind.\<close>

partial_function (option) delete_tasks :: "task_heap \<Rightarrow> deque \<Rightarrow> (deque \<times> task_heap) option" where
  "delete_tasks h dq = do {
     (task, dq, h) \<leftarrow> deque_pop h dq;
     if task \<noteq> NULL then do { h \<leftarrow> task_delete h task; delete_tasks h dq } else Some (dq, h)
   }"

partial_function (option) delete_freelist :: "task_heap \<Rightarrow> deque \<Rightarrow> task_heap option" where
  "delete_freelist h dq = do {
     (task, dq, h) \<leftarrow> freelist_pop h dq;
     if task \<noteq> NULL then do { h \<leftarrow> c_free h task; delete_freelist h dq } else Some h
   }"

definition deque_delete :: "task_heap \<Rightarrow> deque \<Rightarrow> task_heap option" where
  "deque_delete h dq = do {
     (dq, h) \<leftarrow> delete_tasks h dq;
     assertion (deque_num_tasks dq = 0);
     assertion (deque_empty dq);
     h \<leftarrow> task_delete h (dq_head dq);
     delete_freelist h dq
   }"

section \<open>Abstraction\<close>

text \<open>
  \<open>deque_rel h dq ts fs\<close>: the deque holds the tasks \<open>ts\<close>, head first, and its free list the objects
  \<open>fs\<close>. The dummy node ends the list of tasks; no node occurs twice.
\<close>

definition deque_rel :: "task_heap \<Rightarrow> deque \<Rightarrow> addr list \<Rightarrow> addr list \<Rightarrow> bool" where
  "deque_rel h dq ts fs \<longleftrightarrow>
     (\<exists>n. dll h NULL (ts @ [dq_tail dq]) n) \<and> chain h (freelist dq) fs \<and>
     (\<exists>d. deref h (dq_tail dq) = Some d \<and> t_fn d = dummy_fn) \<and>
     dq_head dq = hd (ts @ [dq_tail dq]) \<and> distinct (ts @ [dq_tail dq] @ fs) \<and>
     num_tasks dq = of_nat (length ts) \<and> length ts < 2 ^ 32"

text \<open>The nodes a deque owns.\<close>

definition nodes :: "deque \<Rightarrow> addr list \<Rightarrow> addr list \<Rightarrow> addr set" where
  "nodes dq ts fs = set (ts @ [dq_tail dq] @ fs)"

text \<open>A task that may be pushed: live, of no deque, without a predecessor.\<close>

definition loose :: "task_heap \<Rightarrow> addr \<Rightarrow> bool" where
  "loose h a \<longleftrightarrow> (\<exists>t. deref h a = Some t \<and> t_prev t = NULL)"

lemma deque_rel_D:
  assumes "deque_rel h dq ts fs"
  shows "\<exists>n. dll h NULL (ts @ [dq_tail dq]) n" "chain h (freelist dq) fs"
    "\<exists>d. deref h (dq_tail dq) = Some d \<and> t_fn d = dummy_fn"
    "dq_head dq = hd (ts @ [dq_tail dq])" "distinct (ts @ [dq_tail dq] @ fs)"
    "num_tasks dq = of_nat (length ts)" "length ts < 2 ^ 32"
  using assms by (simp_all add: deque_rel_def)

lemma deque_rel_NULL: "deque_rel h dq ts fs \<Longrightarrow> NULL \<notin> nodes dq ts fs"
  by (auto simp: deque_rel_def nodes_def dest: dll_not_NULL chain_not_NULL)

lemma deque_rel_live: "deque_rel h dq ts fs \<Longrightarrow> a \<in> nodes dq ts fs \<Longrightarrow> \<exists>t. deref h a = Some t"
  by (auto simp: deque_rel_def nodes_def dest: dll_live chain_live)

lemma deque_rel_frame:
  assumes "deque_rel h dq ts fs" "\<forall>a \<in> nodes dq ts fs. h' a = h a"
  shows "deque_rel h' dq ts fs"
proof -
  have "dll h' NULL (ts @ [dq_tail dq]) n \<longleftrightarrow> dll h NULL (ts @ [dq_tail dq]) n" for n
    using assms(2) by (intro dll_cong) (auto simp: nodes_def)
  moreover have "chain h' (freelist dq) fs \<longleftrightarrow> chain h (freelist dq) fs"
    using assms(2) by (intro chain_cong) (auto simp: nodes_def)
  moreover have "deref h' (dq_tail dq) = deref h (dq_tail dq)"
    using assms(2) by (simp add: deref_def nodes_def)
  ultimately show ?thesis using assms(1) by (simp add: deque_rel_def)
qed

lemma deque_empty_rel:
  assumes "deque_rel h dq ts fs"
  shows "deque_empty dq \<longleftrightarrow> ts = []"
proof (cases ts)
  case (Cons x xs)
  then have "dq_head dq \<noteq> dq_tail dq" using assms by (auto simp: deque_rel_def)
  with Cons show ?thesis by (simp add: deque_empty_def)
qed (use assms in \<open>simp add: deque_rel_def deque_empty_def\<close>)

lemma deque_num_tasks_rel: "deque_rel h dq ts fs \<Longrightarrow> unat (deque_num_tasks dq) = length ts"
  by (simp add: deque_rel_def deque_num_tasks_def unat_of_nat take_bit_eq_mod)

section \<open>Pushing and popping\<close>

text \<open>Frame of an operation on the nodes \<open>A\<close>: links elsewhere and all payloads are kept.\<close>

definition only_links :: "addr set \<Rightarrow> task_heap \<Rightarrow> task_heap \<Rightarrow> bool" where
  "only_links A h h' \<longleftrightarrow> same_payloads h h' \<and> (\<forall>a. a \<notin> A \<longrightarrow> h' a = h a)"

lemma only_links_refl [simp]: "only_links A h h"
  by (simp add: only_links_def)

lemma only_links_trans: "only_links A h h' \<Longrightarrow> only_links A h' h'' \<Longrightarrow> only_links A h h''"
  by (auto simp: only_links_def intro: same_payloads_trans)

lemma only_links_upd:
  "a \<in> A \<Longrightarrow> deref h a = Some t \<Longrightarrow> payload t' = payload t \<Longrightarrow> only_links A h (h(a \<mapsto> t'))"
  by (simp add: only_links_def same_payloads_upd)

lemma only_links_step:
  "only_links A h\<^sub>0 h \<Longrightarrow> deref h a = Some t \<Longrightarrow> a \<in> A \<Longrightarrow> payload t' = payload t \<Longrightarrow>
   only_links A h\<^sub>0 (h(a \<mapsto> t'))"
  by (rule only_links_trans [OF _ only_links_upd])

lemma deque_rel_head:
  assumes "deque_rel h dq ts fs"
  obtains y ys n u where "ts @ [dq_tail dq] = y # ys" "dq_head dq = y" "dll h NULL (y # ys) n"
    "deref h y = Some u" "distinct (y # ys)" "set (y # ys) \<inter> set fs = {}"
    "set (y # ys) \<union> set fs = nodes dq ts fs"
proof -
  note r = deque_rel_D [OF assms]
  obtain y ys where ys: "ts @ [dq_tail dq] = y # ys" by (cases "ts @ [dq_tail dq]") auto
  obtain n where n: "dll h NULL (y # ys) n" using r(1) ys by auto
  then obtain u where "deref h y = Some u" by auto
  moreover have "distinct ((y # ys) @ fs)" using r(5) ys by (metis append_assoc)
  moreover have "nodes dq ts fs = set ((y # ys) @ fs)" using ys by (metis append_assoc nodes_def)
  moreover have "dq_head dq = y" using r(4) ys by simp
  ultimately show ?thesis using that [OF ys _ n] by auto
qed

lemma deque_push_rel:
  assumes rel: "deque_rel h dq ts fs" and x: "loose h x" "x \<notin> nodes dq ts fs"
    and room: "Suc (length ts) < 2 ^ 32"
  shows "\<exists>dq' h'. deque_push h dq x = Some (dq', h') \<and> deque_rel h' dq' (x # ts) fs \<and>
    dq_tail dq' = dq_tail dq \<and> num_steals dq' = num_steals dq \<and>
    only_links (insert x (nodes dq ts fs)) h h'"
proof -
  note r = deque_rel_D [OF rel]
  obtain y ys n u where y: "ts @ [dq_tail dq] = y # ys" "dq_head dq = y" "dll h NULL (y # ys) n"
    "deref h y = Some u" "distinct (y # ys)" "set (y # ys) \<inter> set fs = {}"
    "set (y # ys) \<union> set fs = nodes dq ts fs"
    by (rule deque_rel_head [OF rel])
  obtain t where t: "deref h x = Some t" "t_prev t = NULL" using x(1) by (auto simp: loose_def)
  have xn: "x \<noteq> NULL" using t(1) by auto
  have xy: "x \<notin> set (y # ys)" "x \<notin> set fs" using x(2) y(7) by auto
  let ?h1 = "h(x \<mapsto> t\<lparr>t_next := y\<rparr>)"
  let ?h2 = "?h1(y \<mapsto> u\<lparr>t_prev := x\<rparr>)"
  let ?dq = "dq\<lparr>dq_head := x, num_tasks := num_tasks dq + 1\<rparr>"
  have u1: "deref ?h1 y = Some u" using y(4) xy(1) by auto
  have push: "deque_push h dq x = Some (?dq, ?h2)"
    using t(1) u1 xn y(2) by (simp add: deque_push_def heap_simps)
  have "dll ?h1 NULL (y # ys) n" using dll_frame [OF xy(1)] y(3) by blast
  from dll_set_first_prev [OF this y(5) u1] have "dll ?h2 x (y # ys) n" .
  moreover have "deref ?h2 x = Some (t\<lparr>t_next := y\<rparr>)" using xn xy by (simp add: deref_def)
  ultimately have d: "dll ?h2 NULL (x # ts @ [dq_tail dq]) n"
    using t(2) by (simp add: y(1))
  have c: "chain ?h2 (freelist dq) fs" using r(2) xy(2) y(6) by simp
  obtain e where e: "deref h (dq_tail dq) = Some e" "t_fn e = dummy_fn" using r(3) by blast
  have "dq_tail dq \<noteq> x" using x(2) by (auto simp: nodes_def)
  with e y(4) have f: "\<exists>e. deref ?h2 (dq_tail dq) = Some e \<and> t_fn e = dummy_fn"
    by (cases "dq_tail dq = y") (auto simp: deref_def split: if_splits)
  have "distinct (x # ts @ [dq_tail dq] @ fs)" using r(5) x(2) by (simp add: nodes_def)
  with d c f r room have "deque_rel ?h2 ?dq (x # ts) fs" by (auto simp: deque_rel_def)
  moreover have "only_links (insert x (nodes dq ts fs)) h ?h2"
    by (rule only_links_step [OF only_links_step [OF only_links_refl t(1)] u1]) (use y(7) in auto)
  ultimately show ?thesis using push by auto
qed

lemma deque_pop_rel:
  assumes rel: "deque_rel h dq (x # ts) fs"
  shows "\<exists>dq' h'. deque_pop h dq = Some (x, dq', h') \<and> deque_rel h' dq' ts fs \<and>
    dq_tail dq' = dq_tail dq \<and> num_steals dq' = num_steals dq \<and> loose h' x \<and>
    only_links (nodes dq (x # ts) fs) h h'"
proof -
  note r = deque_rel_D [OF rel]
  obtain y ys where y: "ts @ [dq_tail dq] = y # ys" by (cases "ts @ [dq_tail dq]") auto
  obtain n where "dll h NULL (x # y # ys) n" using r(1) y by auto
  then obtain t u where t: "deref h x = Some t" "t_prev t = NULL" "t_next t = y"
    and u: "deref h y = Some u" and d: "dll h x (y # ys) n"
    by auto
  have dist: "distinct (x # (y # ys) @ fs)" using r(5) y by (metis append_Cons append_assoc)
  let ?h1 = "h(y \<mapsto> u\<lparr>t_prev := NULL\<rparr>)"
  let ?h2 = "?h1(x \<mapsto> t\<lparr>t_next := NULL\<rparr>)"
  let ?dq = "dq\<lparr>dq_head := y, num_tasks := num_tasks dq - 1\<rparr>"
  have t1: "deref ?h1 x = Some t" using t(1) dist by auto
  have pop: "deque_pop h dq = Some (x, ?dq, ?h2)"
    using deque_empty_rel [OF rel] r(4) t u t1 by (simp add: deque_pop_def heap_simps)
  have "dll ?h1 NULL (y # ys) n" using dll_set_first_prev [OF d _ u] dist by simp
  then have d2: "dll ?h2 NULL (ts @ [dq_tail dq]) n" unfolding y using dist by auto
  have c: "chain ?h2 (freelist dq) fs" using r(2) dist by simp
  obtain e where e: "deref h (dq_tail dq) = Some e" "t_fn e = dummy_fn" using r(3) by blast
  have "dq_tail dq \<noteq> x" using r(5) by auto
  with e u have f: "\<exists>e. deref ?h2 (dq_tail dq) = Some e \<and> t_fn e = dummy_fn"
    by (cases "dq_tail dq = y") (auto simp: deref_def split: if_splits)
  have "dq_head ?dq = hd (ts @ [dq_tail dq])" using y by simp
  with d2 c f r have "deque_rel ?h2 ?dq ts fs" by (auto simp: deque_rel_def)
  moreover have "nodes dq (x # ts) fs = set (x # (y # ys) @ fs)"
    using y by (metis append_Cons append_assoc nodes_def)
  then have "only_links (nodes dq (x # ts) fs) h ?h2"
    by (intro only_links_step [OF only_links_step [OF only_links_refl u] t1]) auto
  moreover have "loose ?h2 x" using t(1,2) by (auto simp: loose_def deref_def split: if_splits)
  ultimately show ?thesis using pop by auto
qed

lemma deque_pop_empty: "deque_rel h dq [] fs \<Longrightarrow> deque_pop h dq = Some (NULL, dq, h)"
  using deque_empty_rel [of h dq "[]" fs] by (simp add: deque_pop_def)

lemma deque_pop_child_eq:
  assumes "deque_rel h dq ts fs" "parent \<noteq> NULL"
  shows "deque_pop_child h dq parent =
    (if ts \<noteq> [] \<and> map_option t_parent (deref h (hd ts)) = Some parent then deque_pop h dq
     else Some (NULL, dq, h))"
proof (cases ts)
  case Nil
  then show ?thesis
    using assms deque_empty_rel [OF assms(1)] by (simp add: deque_pop_child_def)
next
  case (Cons x xs)
  then have "\<not> deque_empty dq" "dq_head dq = x"
    using assms deque_empty_rel [OF assms(1)] by (auto simp: deque_rel_def)
  moreover obtain t where "deref h x = Some t"
    using deque_rel_live [OF assms(1), of x] Cons by (auto simp: nodes_def)
  ultimately show ?thesis
    using assms Cons by (simp add: deque_pop_child_def deque_pop_def)
qed

section \<open>Stealing\<close>

lemma close_gap_rel:
  assumes d: "dll h NULL (ts @ x # us) NULL" "x # us \<noteq> []"
    and tail: "deref h (dq_tail dq) = Some e" "t_fn e = dummy_fn"
    and head: "dq_head dq = hd (ts @ [x])" and dist: "distinct (ts @ x # us @ dq_tail dq # fs)"
    and fl: "chain h (freelist dq) fs"
  shows "\<exists>h'. close_gap h dq x = Some (dq\<lparr>dq_head := hd (ts @ [dq_tail dq])\<rparr>, h') \<and>
    (\<exists>n. dll h' NULL (ts @ [dq_tail dq]) n) \<and> dll h' NULL (x # us) NULL \<and>
    chain h' (freelist dq) fs \<and> (\<exists>e. deref h' (dq_tail dq) = Some e \<and> t_fn e = dummy_fn) \<and>
    only_links (set (ts @ x # us @ [dq_tail dq])) h h'"
proof -
  let ?d = "dq_tail dq"
  let ?p = "last (NULL # ts)"
  obtain t where t: "deref h x = Some t" "t_prev t = ?p" using d by (auto simp: dll_append)
  let ?h1 = "h(?d \<mapsto> e\<lparr>t_prev := ?p\<rparr>)"
  let ?h2 = "?h1(x \<mapsto> t\<lparr>t_prev := NULL\<rparr>)"
  have t1: "deref ?h1 x = Some t" using t(1) dist by auto
  have e2: "deref ?h2 ?d = Some (e\<lparr>t_prev := ?p\<rparr>)" using tail(1) dist by (auto simp: deref_def)
  have dxu: "dll h ?p (x # us) NULL" and dts: "dll h NULL ts x" using d(1) by (auto simp: dll_append)
  have "dll ?h1 ?p (x # us) NULL" using dxu dist by (subst dll_frame) auto
  from dll_set_first_prev [OF this _ t1, of NULL] have xu: "dll ?h2 NULL (x # us) NULL"
    using dist by simp
  have c: "chain ?h2 (freelist dq) fs" using fl dist by simp
  have o2: "only_links (set (ts @ x # us @ [?d])) h ?h2"
    by (rule only_links_step [OF only_links_step [OF only_links_refl tail(1)] t1]) auto
  show ?thesis
  proof (cases ts rule: rev_cases)
    case Nil
    then have "close_gap h dq x = Some (dq\<lparr>dq_head := ?d\<rparr>, ?h2)"
      using t tail(1) t1 e2 head by (simp add: close_gap_def heap_simps)
    moreover have "dll ?h2 NULL [?d] (t_next e)" using e2 Nil by auto
    ultimately show ?thesis using Nil xu c e2 tail(2) o2 by auto
  next
    case (snoc rs z)
    have zr: "z \<notin> set (x # us @ ?d # fs)" "z \<notin> set rs" using dist snoc by auto
    obtain w where w: "deref h z = Some w" using dts snoc by (auto simp: dll_append)
    have zn: "z \<noteq> NULL" using w by auto
    have w2: "deref ?h2 z = Some w" using w zr by (auto simp: deref_def)
    let ?h3 = "?h2(z \<mapsto> w\<lparr>t_next := ?d\<rparr>)"
    have p: "?p = z" using snoc by simp
    have "close_gap h dq x = Some (dq, ?h3)"
      using t tail(1) t1 e2 w2 zn unfolding p by (simp add: close_gap_def heap_simps)
    moreover have "dll ?h2 NULL (rs @ [z]) x"
      using dts dist by (subst dll_frame, use snoc in force)+ (simp add: snoc)
    then have "dll ?h3 NULL (rs @ [z]) ?d"
      by (rule dll_set_last_next [OF _ _ w2]) (use dist snoc in simp)
    then have "dll ?h3 NULL ts ?d" using snoc by simp
    moreover have e3: "deref ?h3 ?d = Some (e\<lparr>t_prev := z\<rparr>)" using e2 zr p by auto
    ultimately have "dll ?h3 NULL (ts @ [?d]) (t_next e)"
      using p by (simp add: dll_append)
    moreover have "dll ?h3 NULL (x # us) NULL" using xu zr by (subst dll_frame) auto
    moreover have "chain ?h3 (freelist dq) fs" using c zr by (subst chain_frame) auto
    moreover have "only_links (set (ts @ x # us @ [?d])) h ?h3"
      by (rule only_links_step [OF o2 w2]) (use snoc in auto)
    moreover have "dq\<lparr>dq_head := hd (ts @ [?d])\<rparr> = dq"
      using head snoc by (cases rs) auto
    ultimately show ?thesis using \<open>close_gap h dq x = _\<close> e3 tail(2) by auto
  qed
qed

lemma steal_n_rel:
  assumes rel: "deque_rel h dq (ts @ us) fs" and us: "us \<noteq> []"
  shows "\<exists>dq' h'. steal_n h dq (int (length us)) = Some (hd us, last us, dq', h') \<and>
    deque_rel h' dq' ts fs \<and> dll h' NULL us NULL \<and> dq_tail dq' = dq_tail dq \<and>
    num_steals dq' = num_steals dq + 1 \<and> only_links (nodes dq (ts @ us) fs) h h'"
proof -
  note r = deque_rel_D [OF rel]
  let ?d = "dq_tail dq"
  obtain x xs where x: "us = x # xs" using us by (cases us) auto
  obtain vs v where v: "us = vs @ [v]" using us by (cases us rule: rev_cases) auto
  obtain n where n: "dll h NULL (ts @ us @ [?d]) n" using r(1) by auto
  obtain e where e: "deref h ?d = Some e" "t_fn e = dummy_fn" using r(3) by blast
  have prev: "t_prev e = v" using n e(1) v by (auto simp: dll_append)
  obtain w where w: "deref h v = Some w" using n v by (auto simp: dll_append)
  have dist: "distinct (ts @ us @ ?d # fs)" using r(5) by simp
  let ?h1 = "h(v \<mapsto> w\<lparr>t_next := NULL\<rparr>)"
  have "dll h NULL ((ts @ vs) @ [v]) ?d"
    using n v dll_append [of h NULL "(ts @ vs) @ [v]" "[?d]" n] by simp
  from dll_set_last_next [OF this _ w, of NULL] have d1: "dll ?h1 NULL (ts @ x # xs) NULL"
    using dist v x by (metis append_assoc distinct_append)
  have e1: "deref ?h1 ?d = Some e" using e(1) dist v by auto
  have c1: "chain ?h1 (freelist dq) fs" using r(2) dist v by (subst chain_frame) auto
  have hd1: "dq_head dq = hd (ts @ [x])" using r(4) x by (cases ts) auto
  have dist': "distinct (ts @ x # xs @ ?d # fs)" using dist x by simp
  obtain h' where h': "close_gap ?h1 dq x = Some (dq\<lparr>dq_head := hd (ts @ [?d])\<rparr>, h')"
    "\<exists>n. dll h' NULL (ts @ [?d]) n" "dll h' NULL (x # xs) NULL" "chain h' (freelist dq) fs"
    "\<exists>e. deref h' ?d = Some e \<and> t_fn e = dummy_fn"
    "only_links (set (ts @ x # xs @ [?d])) ?h1 h'"
    using close_gap_rel [OF d1 _ e1 e(2) hd1 dist' c1] by blast
  let ?dq = "dq\<lparr>dq_head := hd (ts @ [?d]), num_tasks := num_tasks dq - of_nat (length us),
    num_steals := num_steals dq + 1\<rparr>"
  have "walk_back h (length us) ?d = Some x" "hd us = x"
    using walk_back_dll [of h NULL ts us ?d n] n x by simp_all
  moreover have "last us = v" using v by simp
  ultimately have st: "steal_n h dq (int (length us)) = Some (hd us, last us, ?dq, h')"
    using e prev w h'(1) by (simp add: steal_n_def heap_simps)
  have "distinct (ts @ [?d] @ fs)" using dist by auto
  moreover have "num_tasks dq - of_nat (length us) = of_nat (length ts)" using r(6) by simp
  ultimately have "deque_rel h' ?dq ts fs" using h' r(7) by (simp add: deque_rel_def)
  moreover have "only_links (nodes dq (ts @ us) fs) h ?h1"
    by (rule only_links_step [OF only_links_refl w]) (use v in \<open>auto simp: nodes_def\<close>)
  moreover have "only_links (nodes dq (ts @ us) fs) ?h1 h'"
    using h'(6) x by (auto simp: only_links_def nodes_def)
  ultimately show ?thesis using st h'(3) x only_links_trans by auto
qed

lemma deque_steal_eq:
  "deque_steal h dq = (if deque_empty dq then Some (NULL, dq, h)
     else map_option (\<lambda>(task, tail, dq, h). (task, dq, h)) (steal_n h dq 1))"
proof (cases "deref h (dq_tail dq)")
  case (Some d)
  then show ?thesis
    by (auto simp: deque_steal_def steal_n_def Let_def split: Option.bind_splits)
qed (simp add: deque_steal_def steal_n_def Let_def)

lemma deque_steal_rel:
  assumes "deque_rel h dq (ts @ [x]) fs"
  shows "\<exists>dq' h'. deque_steal h dq = Some (x, dq', h') \<and> deque_rel h' dq' ts fs \<and>
    dq_tail dq' = dq_tail dq \<and> num_steals dq' = num_steals dq + 1 \<and> loose h' x \<and>
    only_links (nodes dq (ts @ [x]) fs) h h'"
  using steal_n_rel [OF assms] deque_empty_rel [OF assms] by (auto simp: deque_steal_eq loose_def)

lemma deque_steal_empty: "deque_rel h dq [] fs \<Longrightarrow> deque_steal h dq = Some (NULL, dq, h)"
  using deque_empty_rel [of h dq "[]" fs] by (simp add: deque_steal_def)

lemma half_of_rel:
  assumes "deque_rel h dq ts fs"
  shows "half_of dq = int (max 1 (length ts div 2))"
proof -
  have "uint (num_tasks dq) = int (length ts)"
    using deque_num_tasks_rel [OF assms] by (simp add: deque_num_tasks_def uint_nat)
  then show ?thesis by (auto simp: half_of_def Let_def max_def zdiv_int)
qed

text \<open>The number of tasks a bulk steal takes: half of them, at least one, at most \<open>maxn\<close>.\<close>

definition steal_count :: "nat \<Rightarrow> nat \<Rightarrow> nat" where
  "steal_count maxn len = min maxn (max 1 (len div 2))"

lemma steal_count_bounds: "0 < maxn \<Longrightarrow> 0 < len \<Longrightarrow> 0 < steal_count maxn len \<and> steal_count maxn len \<le> len"
  by (auto simp: steal_count_def)

lemma bulk_steal_rel:
  assumes rel: "deque_rel h dq ts fs" and k: "0 < k" "k \<le> length ts"
  shows "\<exists>dq' h'. steal_n h dq (int k) = Some (ts ! (length ts - k), last ts, dq', h') \<and>
    deque_rel h' dq' (take (length ts - k) ts) fs \<and> dll h' NULL (drop (length ts - k) ts) NULL \<and>
    dq_tail dq' = dq_tail dq \<and> num_steals dq' = num_steals dq + 1 \<and>
    only_links (nodes dq ts fs) h h'"
proof -
  let ?us = "drop (length ts - k) ts"
  have ne: "?us \<noteq> []" using k by simp
  then have "hd ?us = ts ! (length ts - k)" "last ?us = last ts"
    using k by (simp_all add: hd_drop_conv_nth)
  moreover have "length ?us = k" using k by simp
  ultimately show ?thesis
    using steal_n_rel [of h dq "take (length ts - k) ts" ?us fs] rel ne by simp
qed

lemma deque_steal_many_rel:
  assumes rel: "deque_rel h dq ts fs" and "ts \<noteq> []" "0 < maxn"
  defines "k \<equiv> steal_count maxn (length ts)"
  shows "\<exists>dq' h'. deque_steal_many h dq (int maxn) =
      Some (ts ! (length ts - k), Some (last ts, int k), dq', h') \<and>
    deque_rel h' dq' (take (length ts - k) ts) fs \<and> dll h' NULL (drop (length ts - k) ts) NULL \<and>
    dq_tail dq' = dq_tail dq \<and> num_steals dq' = num_steals dq + 1 \<and>
    only_links (nodes dq ts fs) h h'"
proof -
  have "0 < k" "k \<le> length ts"
    using assms(2,3) steal_count_bounds [of maxn "length ts"] by (auto simp: k_def)
  moreover have "(if half_of dq > int maxn then int maxn else half_of dq) = int k"
    by (auto simp: half_of_rel [OF rel] k_def steal_count_def)
  ultimately show ?thesis
    using bulk_steal_rel [OF rel, of k] deque_empty_rel [OF rel] assms(2)
    by (auto simp: deque_steal_many_def Let_def)
qed

lemma deque_steal_half_rel:
  assumes rel: "deque_rel h dq ts fs" and "ts \<noteq> []"
  defines "k \<equiv> max 1 (length ts div 2)"
  shows "\<exists>dq' h'. deque_steal_half h dq = Some (ts ! (length ts - k), Some (last ts, int k), dq', h') \<and>
    deque_rel h' dq' (take (length ts - k) ts) fs \<and> dll h' NULL (drop (length ts - k) ts) NULL \<and>
    dq_tail dq' = dq_tail dq \<and> num_steals dq' = num_steals dq + 1 \<and>
    only_links (nodes dq ts fs) h h'"
proof -
  have "0 < k" "k \<le> length ts" using assms(2) by (auto simp: k_def Suc_leI)
  then show ?thesis
    using bulk_steal_rel [OF rel, of k] deque_empty_rel [OF rel] assms(2)
    by (auto simp: deque_steal_half_def Let_def half_of_rel [OF rel] k_def)
qed

text \<open>The versions that do not report the last task compute the same.\<close>

lemma steal_2_eq:
  "deque_steal_many_2 h dq maxn =
     map_option (\<lambda>(t, r, dq, h). (t, map_option snd r, dq, h)) (deque_steal_many h dq maxn)"
  "deque_steal_half_2 h dq =
     map_option (\<lambda>(t, r, dq, h). (t, map_option snd r, dq, h)) (deque_steal_half h dq)"
  by (auto simp: deque_steal_many_2_def deque_steal_many_def deque_steal_half_2_def
      deque_steal_half_def Let_def split: Option.bind_splits)

section \<open>Receiving tasks\<close>

lemma deque_prepend_rel:
  assumes rel: "deque_rel h dq ts fs" and us: "dll h NULL us NULL" "us \<noteq> []" "distinct us"
    and disj: "set us \<inter> nodes dq ts fs = {}" and len: "length us + length ts < 2 ^ 32"
  shows "\<exists>dq' h'. deque_prepend h dq (hd us) (last us) (of_nat (length us)) = Some (dq', h') \<and>
    deque_rel h' dq' (us @ ts) fs \<and> dq_tail dq' = dq_tail dq \<and> num_steals dq' = num_steals dq \<and>
    only_links (set us \<union> nodes dq ts fs) h h'"
proof -
  note r = deque_rel_D [OF rel]
  let ?d = "dq_tail dq"
  obtain y ys n u where y: "ts @ [?d] = y # ys" "dq_head dq = y" "dll h NULL (y # ys) n"
    "deref h y = Some u" "distinct (y # ys)" "set (y # ys) \<inter> set fs = {}"
    "set (y # ys) \<union> set fs = nodes dq ts fs"
    by (rule deque_rel_head [OF rel])
  obtain vs v where v: "us = vs @ [v]" using us(2) by (cases us rule: rev_cases) auto
  obtain w where w: "deref h v = Some w" "t_next w = NULL" using us(1) v by (auto simp: dll_append)
  have vy: "v \<notin> set (y # ys)" "v \<notin> set fs" using disj v y(7) by auto
  have yu: "y \<notin> set us" using disj y(7) by auto
  let ?h1 = "h(v \<mapsto> w\<lparr>t_next := y\<rparr>)"
  let ?h2 = "?h1(y \<mapsto> u\<lparr>t_prev := v\<rparr>)"
  let ?dq = "dq\<lparr>dq_head := hd us, num_tasks := num_tasks dq + of_nat (length us)\<rparr>"
  have u1: "deref ?h1 y = Some u" using y(4) vy(1) by auto
  have "(of_nat (length us) :: uint) \<noteq> 0"
    using len us(2) by (simp add: word_unat_eq_iff unat_of_nat take_bit_eq_mod)
  then have pos: "(of_nat (length us) :: uint) > 0" by (simp add: word_neq_0_conv)
  have nn: "hd us \<noteq> NULL" "v \<noteq> NULL" using dll_not_NULL [OF us(1)] hd_in_set [OF us(2)] v by auto
  have pre: "deque_prepend h dq (hd us) (last us) (of_nat (length us)) = Some (?dq, ?h2)"
    using w u1 y(2) pos nn v by (simp add: deque_prepend_def heap_simps)
  have "dll ?h1 NULL us y"
    unfolding v by (rule dll_set_last_next [OF _ _ w(1)]) (use us v in simp_all)
  then have a: "dll ?h2 NULL us y" using yu by (subst dll_frame)
  have "dll ?h1 NULL (y # ys) n" using y(3) vy(1) by (subst dll_frame)
  from dll_set_first_prev [OF this y(5) u1] have b: "dll ?h2 v (y # ys) n" .
  have d: "dll ?h2 NULL ((us @ ts) @ [?d]) n"
    using a b v by (simp add: y(1) dll_append)
  have c: "chain ?h2 (freelist dq) fs" using r(2) vy(2) y(6) by simp
  obtain e where e: "deref h ?d = Some e" "t_fn e = dummy_fn" using r(3) by blast
  have dv: "?d \<noteq> v" using disj v by (auto simp: nodes_def)
  with e y(4) have f: "\<exists>e. deref ?h2 ?d = Some e \<and> t_fn e = dummy_fn"
    by (cases "?d = y") (auto simp: deref_def split: if_splits)
  have "distinct ((us @ ts) @ [?d] @ fs)" using r(5) us(3) disj by (auto simp: nodes_def)
  moreover have "hd us = hd ((us @ ts) @ [?d])" using us(2) by simp
  ultimately have "deque_rel ?h2 ?dq (us @ ts) fs" using d c f r(6) len by (auto simp: deque_rel_def)
  moreover have "only_links (set us \<union> nodes dq ts fs) h ?h2"
    by (rule only_links_step [OF only_links_step [OF only_links_refl w(1)] u1]) (use v y(7) in auto)
  ultimately show ?thesis using pre by auto
qed

lemma find_tail_dll:
  assumes "dll h p us NULL" "us \<noteq> []"
  shows "find_tail h (hd us) n = Some (last us, n + of_nat (length us - 1))"
  using assms
proof (induction us arbitrary: p n)
  case (Cons x xs)
  show ?case
  proof (cases xs)
    case Nil
    with Cons.prems show ?thesis by (subst find_tail.simps) auto
  next
    case (Cons y ys)
    with Cons.prems obtain t where t: "deref h x = Some t" "t_next t = y" "dll h x xs NULL" by auto
    have "y \<noteq> NULL" using dll_not_NULL [OF t(3)] Cons by auto
    then have "find_tail h x n = find_tail h (hd xs) (n + 1)"
      using t Cons by (subst find_tail.simps) simp
    also have "\<dots> = Some (last xs, n + 1 + of_nat (length xs - 1))"
      using Cons.IH [OF t(3)] Cons by simp
    finally show ?thesis using Cons by simp
  qed
qed simp

lemma deque_prepend_eq:
  assumes "dll h NULL us NULL" "us \<noteq> []" "length us < 2 ^ 32"
  shows "deque_prepend_list h dq (hd us) = deque_prepend h dq (hd us) (last us) (of_nat (length us))"
    "deque_prepend_len h dq (hd us) len = deque_prepend h dq (hd us) (last us) len"
proof -
  have nn: "hd us \<noteq> NULL" "last us \<noteq> NULL"
    using dll_not_NULL [OF assms(1)] assms(2) by (metis hd_in_set last_in_set)+
  have "(of_nat (length us) :: uint) \<noteq> 0"
    using assms by (simp add: word_unat_eq_iff unat_of_nat take_bit_eq_mod)
  then have pos: "(of_nat (length us) :: uint) > 0" by (simp add: word_neq_0_conv)
  have "1 + (of_nat (length us - 1) :: uint) = of_nat (length us)"
    using assms(2) by (cases us) auto
  then have f: "find_tail h (hd us) 1 = Some (last us, of_nat (length us))"
    using find_tail_dll [OF assms(1,2), of 1] by simp
  show "deque_prepend_list h dq (hd us) = deque_prepend h dq (hd us) (last us) (of_nat (length us))"
    using nn pos f by (simp add: deque_prepend_list_def deque_prepend_def)
  show "deque_prepend_len h dq (hd us) len = deque_prepend h dq (hd us) (last us) len"
    using nn f by (simp add: deque_prepend_len_def deque_prepend_def)
qed

section \<open>Creation, recycling and deletion\<close>

lemma zeroed_fields [simp]:
  "t_prev (zeroed t) = NULL" "t_next (zeroed t) = NULL" "t_data (zeroed t) = t_data t"
  "zeroed (zeroed t) = zeroed t" "zeroed (t\<lparr>t_next := n\<rparr>) = zeroed t"
  by (simp_all add: zeroed_def)

lemma task_new_eq: "p \<noteq> NULL \<Longrightarrow> task_new p junk h = Some (p, h(p \<mapsto> zeroed junk))"
  by (simp add: task_new_def task_zero_def heap_simps)

lemma deque_new_rel:
  assumes "p \<noteq> NULL"
  shows "\<exists>dq h'. deque_new True p junk h = Some (Some dq, h') \<and> deque_rel h' dq [] [] \<and>
    dq_tail dq = p \<and> (\<forall>a. a \<noteq> p \<longrightarrow> h' a = h a)"
  using assms by (simp add: deque_new_def task_new_eq heap_simps deque_rel_def)

lemma deque_new_null: "deque_new True NULL junk h = None"
  by (simp add: deque_new_def task_new_def)

lemma deque_task_new_cached:
  assumes rel: "deque_rel h dq ts (x # fs)"
  shows "\<exists>dq' h' t. deque_task_new p junk h dq = Some (x, dq', h') \<and> deque_rel h' dq' ts fs \<and>
    dq_tail dq' = dq_tail dq \<and> deref h' x = Some t \<and> t = zeroed t \<and> (\<forall>a. a \<noteq> x \<longrightarrow> h' a = h a)"
proof -
  note r = deque_rel_D [OF rel]
  obtain t where t: "freelist dq = x" "deref h x = Some t" "free_task t" "chain h (t_next t) fs"
    using r(2) by auto
  let ?h = "h(x \<mapsto> t\<lparr>t_next := NULL\<rparr>)"
  have xn: "x \<noteq> NULL" using t(2) by auto
  have x: "x \<notin> set (ts @ [dq_tail dq])" "x \<notin> set fs" using r(5) by auto
  have "deque_task_new p junk h dq = Some (x, dq\<lparr>freelist := t_next t\<rparr>, ?h)"
    using t xn by (simp add: deque_task_new_def freelist_pop_def heap_simps)
  moreover obtain n where "dll ?h NULL (ts @ [dq_tail dq]) n"
    using r(1) dll_frame [OF x(1)] by blast
  moreover have "chain ?h (t_next t) fs" using t(4) x(2) by simp
  moreover have "deref ?h (dq_tail dq) = deref h (dq_tail dq)" using x(1) by auto
  ultimately show ?thesis
    using r t(3) xn by (auto simp: deque_rel_def free_task_def)
qed

lemma deque_task_cache_rel:
  assumes rel: "deque_rel h dq ts fs" and x: "deref h x = Some t" "x \<notin> nodes dq ts fs"
  shows "\<exists>dq' h'. deque_task_cache h dq x = Some (dq', h') \<and> deque_rel h' dq' ts (x # fs) \<and>
    dq_tail dq' = dq_tail dq \<and> (\<forall>a. a \<noteq> x \<longrightarrow> h' a = h a)"
proof -
  note r = deque_rel_D [OF rel]
  have xn: "x \<noteq> NULL" using x(1) by auto
  have x': "x \<notin> set (ts @ [dq_tail dq])" "x \<notin> set fs" using x(2) by (auto simp: nodes_def)
  let ?h = "h(x \<mapsto> (zeroed t)\<lparr>t_next := freelist dq\<rparr>)"
  have "deque_task_cache h dq x = Some (dq\<lparr>freelist := x\<rparr>, ?h)"
    using x(1) xn by (simp add: deque_task_cache_def task_zero_def freelist_push_def heap_simps)
  moreover obtain n where "dll ?h NULL (ts @ [dq_tail dq]) n"
    using r(1) dll_frame [OF x'(1)] by blast
  moreover have "deref ?h (dq_tail dq) = deref h (dq_tail dq)" using x'(1) by auto
  moreover have "chain ?h x (x # fs)" using r(2) x' xn by (auto simp: free_task_def zeroed_def)
  ultimately show ?thesis using r x' by (auto simp: deque_rel_def)
qed

lemma delete_tasks_rel:
  assumes "deque_rel h dq ts fs"
  shows "\<exists>dq' h'. delete_tasks h dq = Some (dq', h') \<and> deque_rel h' dq' [] fs \<and>
    dq_tail dq' = dq_tail dq \<and> dom h' = dom h - set ts \<and>
    (\<forall>a. a \<notin> nodes dq ts fs \<longrightarrow> h' a = h a)"
  using assms
proof (induction ts arbitrary: h dq)
  case Nil
  then show ?case
    using deque_pop_empty [OF Nil] by (subst delete_tasks.simps) simp
next
  case (Cons x ts)
  obtain dq1 h1 where p: "deque_pop h dq = Some (x, dq1, h1)" "deque_rel h1 dq1 ts fs"
      "dq_tail dq1 = dq_tail dq" "only_links (nodes dq (x # ts) fs) h h1"
    using deque_pop_rel [OF Cons.prems] by blast
  obtain t where t: "deref h x = Some t" using deque_rel_live [OF Cons.prems, of x] by (auto simp: nodes_def)
  have xn: "x \<noteq> NULL" using t by auto
  obtain t1 where t1: "deref h1 x = Some t1"
    using p(4) t same_payloads_live by (metis only_links_def)
  have xd: "x \<notin> nodes dq1 ts fs" using deque_rel_D(5) [OF Cons.prems] p(3) by (auto simp: nodes_def)
  let ?h2 = "h1(x := None)"
  have "deque_rel ?h2 dq1 ts fs"
    by (rule deque_rel_frame [OF p(2)]) (use xd in auto)
  from Cons.IH [OF this] obtain dq' h' where r: "delete_tasks ?h2 dq1 = Some (dq', h')"
    "deque_rel h' dq' [] fs" "dq_tail dq' = dq_tail dq1" "dom h' = dom ?h2 - set ts"
    "\<forall>a. a \<notin> nodes dq1 ts fs \<longrightarrow> h' a = ?h2 a" by blast
  have "delete_tasks h dq = Some (dq', h')"
    using p(1) xn t1 r(1) by (subst delete_tasks.simps) (simp add: task_delete_def heap_simps)
  moreover have "dom h1 = dom h"
    using p(4) by (intro same_payloads_dom) (simp add: only_links_def)
  moreover have "h' a = h a" if "a \<notin> nodes dq (x # ts) fs" for a
    using that r(5) p(3,4) by (auto simp: nodes_def only_links_def)
  ultimately show ?case using r p(3) by auto
qed

lemma delete_freelist_chain:
  assumes "chain h (freelist dq) fs" "distinct fs"
  shows "delete_freelist h dq = Some (h |` (- set fs))"
  using assms
proof (induction fs arbitrary: h dq)
  case Nil
  then show ?case by (subst delete_freelist.simps) (simp add: freelist_pop_def restrict_map_def)
next
  case (Cons x fs)
  then obtain t where t: "freelist dq = x" "deref h x = Some t" "chain h (t_next t) fs" by auto
  have xn: "x \<noteq> NULL" using t by auto
  let ?h = "h(x := None)"
  let ?dq = "dq\<lparr>freelist := t_next t\<rparr>"
  have c: "chain ?h (freelist ?dq) fs" using t(3) Cons.prems by (subst chain_frame) auto
  have "distinct fs" using Cons.prems by simp
  from Cons.IH [OF c this] have "delete_freelist ?h ?dq = Some (?h |` (- set fs))" .
  moreover have "?h |` (- set fs) = h |` (- set (x # fs))"
    by (auto simp: restrict_map_def fun_eq_iff)
  ultimately show ?case
    using t xn by (subst delete_freelist.simps) (simp add: freelist_pop_def heap_simps)
qed

lemma deque_delete_rel:
  assumes "deque_rel h dq ts fs"
  shows "\<exists>h'. deque_delete h dq = Some h' \<and> dom h' = dom h - nodes dq ts fs \<and>
    (\<forall>a. a \<notin> nodes dq ts fs \<longrightarrow> h' a = h a)"
proof -
  obtain dq1 h1 where d: "delete_tasks h dq = Some (dq1, h1)" "deque_rel h1 dq1 [] fs"
    "dq_tail dq1 = dq_tail dq" "dom h1 = dom h - set ts" "\<forall>a. a \<notin> nodes dq ts fs \<longrightarrow> h1 a = h a"
    using delete_tasks_rel [OF assms] by blast
  note r = deque_rel_D [OF d(2)]
  let ?d = "dq_tail dq"
  obtain e where e: "deref h1 ?d = Some e" using r(3) d(3) by auto
  have "chain (h1(?d := None)) (freelist dq1) fs" using r(2,5) d(3) by simp
  then have f: "delete_freelist (h1(?d := None)) dq1 = Some ((h1(?d := None)) |` (- set fs))"
    using r(5) by (intro delete_freelist_chain) auto
  have hd1: "dq_head dq1 = ?d" using r(4) d(3) by simp
  have "deque_delete h dq = Some ((h1(?d := None)) |` (- set fs))"
    using d(1) f e hd1 deque_empty_rel [OF d(2)] deque_num_tasks_rel [OF d(2)]
    by (simp add: deque_delete_def task_delete_def heap_simps unat_eq_zero)
  moreover have "dom ((h1(?d := None)) |` (- set fs)) = dom h - nodes dq ts fs"
    using d(4) by (auto simp: nodes_def)
  ultimately show ?thesis using d(5) by (auto simp: nodes_def restrict_map_def)
qed

section \<open>The deque as a work-stealing deque\<close>

definition dq_push :: "addr \<Rightarrow> task_heap \<times> deque \<Rightarrow> (task_heap \<times> deque) option" where
  "dq_push x s = do { (dq, h) \<leftarrow> deque_push (fst s) (snd s) x; Some (h, dq) }"

definition dq_pop :: "task_heap \<times> deque \<Rightarrow> (addr option \<times> task_heap \<times> deque) option" where
  "dq_pop s = do {
     (x, dq, h) \<leftarrow> deque_pop (fst s) (snd s);
     Some (if x = NULL then None else Some x, h, dq)
   }"

definition dq_steal :: "task_heap \<times> deque \<Rightarrow> (addr option \<times> task_heap \<times> deque) option" where
  "dq_steal s = do {
     (x, dq, h) \<leftarrow> deque_steal (fst s) (snd s);
     Some (if x = NULL then None else Some x, h, dq)
   }"

definition pushable :: "addr list \<Rightarrow> addr \<Rightarrow> task_heap \<times> deque \<Rightarrow> addr list \<Rightarrow> bool" where
  "pushable fs x s ts \<longleftrightarrow> loose (fst s) x \<and> x \<notin> nodes (snd s) ts fs"

lemma loose_frame: "only_links A h h' \<Longrightarrow> y \<notin> A \<Longrightarrow> loose h y \<Longrightarrow> loose h' y"
  by (auto simp: only_links_def loose_def deref_def split: if_splits)

interpretation dq: work_deque "\<lambda>s ts. deque_rel (fst s) (snd s) ts fs" "pushable fs" "2 ^ 32 - 1"
  dq_push dq_pop dq_steal for fs
proof
  fix s :: "task_heap \<times> deque" and ts x
  obtain h dq where s: "s = (h, dq)" by (cases s)
  show "\<exists>s'. dq_push x s = Some s' \<and> deque_rel (fst s') (snd s') (x # ts) fs \<and>
      (\<forall>y. y \<noteq> x \<longrightarrow> pushable fs y s ts \<longrightarrow> pushable fs y s' (x # ts))"
    if "deque_rel (fst s) (snd s) ts fs" "pushable fs x s ts" "length ts < 2 ^ 32 - 1"
  proof -
    have a: "deque_rel h dq ts fs" "loose h x" "x \<notin> nodes dq ts fs" "Suc (length ts) < 2 ^ 32"
      using that s by (auto simp: pushable_def)
    obtain dq' h' where r: "deque_push h dq x = Some (dq', h')" "deque_rel h' dq' (x # ts) fs"
      "dq_tail dq' = dq_tail dq" "only_links (insert x (nodes dq ts fs)) h h'"
      using deque_push_rel [OF a] by blast
    have "\<forall>y. y \<noteq> x \<longrightarrow> pushable fs y s ts \<longrightarrow> pushable fs y (h', dq') (x # ts)"
      using r(3) s loose_frame [OF r(4)] by (auto simp: pushable_def nodes_def)
    then show ?thesis using r(1,2) s by (simp add: dq_push_def)
  qed
  show "\<exists>s'. dq_pop s = Some (Some x, s') \<and> deque_rel (fst s') (snd s') ts fs \<and> pushable fs x s' ts \<and>
      (\<forall>y. pushable fs y s (x # ts) \<longrightarrow> pushable fs y s' ts)"
    if "deque_rel (fst s) (snd s) (x # ts) fs"
  proof -
    have rel: "deque_rel h dq (x # ts) fs" using that s by simp
    obtain dq' h' where r: "deque_pop h dq = Some (x, dq', h')" "deque_rel h' dq' ts fs"
      "dq_tail dq' = dq_tail dq" "loose h' x" "only_links (nodes dq (x # ts) fs) h h'"
      using deque_pop_rel [OF rel] by blast
    have "x \<noteq> NULL" "x \<notin> nodes dq' ts fs"
      using deque_rel_NULL [OF rel] deque_rel_D(5) [OF rel] r(3) by (auto simp: nodes_def)
    moreover have "\<forall>y. pushable fs y s (x # ts) \<longrightarrow> pushable fs y (h', dq') ts"
      using r(3) s loose_frame [OF r(5)] by (auto simp: pushable_def nodes_def)
    ultimately show ?thesis using r s by (auto simp: dq_pop_def pushable_def)
  qed
  show "\<exists>s'. dq_steal s = Some (Some x, s') \<and> deque_rel (fst s') (snd s') ts fs \<and> pushable fs x s' ts \<and>
      (\<forall>y. pushable fs y s (ts @ [x]) \<longrightarrow> pushable fs y s' ts)"
    if "deque_rel (fst s) (snd s) (ts @ [x]) fs"
  proof -
    have rel: "deque_rel h dq (ts @ [x]) fs" using that s by simp
    obtain dq' h' where r: "deque_steal h dq = Some (x, dq', h')" "deque_rel h' dq' ts fs"
      "dq_tail dq' = dq_tail dq" "loose h' x" "only_links (nodes dq (ts @ [x]) fs) h h'"
      using deque_steal_rel [OF rel] by blast
    have "x \<noteq> NULL" "x \<notin> nodes dq' ts fs"
      using deque_rel_NULL [OF rel] deque_rel_D(5) [OF rel] r(3) by (auto simp: nodes_def)
    moreover have "\<forall>y. pushable fs y s (ts @ [x]) \<longrightarrow> pushable fs y (h', dq') ts"
      using r(3) s loose_frame [OF r(5)] by (auto simp: pushable_def nodes_def)
    ultimately show ?thesis using r s by (auto simp: dq_steal_def pushable_def)
  qed
next
  fix s :: "task_heap \<times> deque"
  assume "deque_rel (fst s) (snd s) [] fs"
  then show "dq_pop s = Some (None, s)" "dq_steal s = Some (None, s)"
    by (simp_all add: dq_pop_def dq_steal_def deque_pop_empty deque_steal_empty)
qed

section \<open>Properties\<close>

text \<open>
  Property C24. A new deque answers every sequence of pushes, pops and steals as a list does whose
  owner works at its head and whose thieves take from its end; nothing aborts. Every task that
  was pushed was popped or stolen exactly once or is still in the deque: no task is lost or
  runs twice.
\<close>

theorem deque_session:
  assumes "p \<noteq> NULL" "h p = None" "\<forall>x \<in> set (pushed ops). loose h x" "distinct (pushed ops)"
    and "length (pushed ops) < 2 ^ 32"
  shows "\<exists>dq h' as s'. deque_new True p junk h = Some (Some dq, h') \<and>
    run_dops dq_push dq_pop dq_steal ops (h', dq) = Some (as, s') \<and>
    (as, snd (ref_dops ops [])) = ref_dops ops [] \<and>
    deque_rel (fst s') (snd s') (snd (ref_dops ops [])) [] \<and>
    mset (taken as) + mset (snd (ref_dops ops [])) = mset (pushed ops)"
proof -
  obtain dq h' where d: "deque_new True p junk h = Some (Some dq, h')" "deque_rel h' dq [] []"
    "dq_tail dq = p" "\<forall>a. a \<noteq> p \<longrightarrow> h' a = h a"
    using deque_new_rel [OF assms(1)] by blast
  have "\<forall>x \<in> set (pushed ops). pushable [] x (h', dq) []"
  proof
    fix x assume "x \<in> set (pushed ops)"
    then obtain t where "deref h x = Some t" "t_prev t = NULL" using assms(3) by (auto simp: loose_def)
    moreover from this have "x \<noteq> p" using assms(1,2) by (auto simp: deref_def)
    ultimately show "pushable [] x (h', dq) []"
      using d(3,4) by (auto simp: pushable_def loose_def nodes_def deref_def split: if_splits)
  qed
  then have "\<exists>s'. run_dops dq_push dq_pop dq_steal ops (h', dq) = Some (fst (ref_dops ops []), s') \<and>
      deque_rel (fst s') (snd s') (snd (ref_dops ops [])) []"
    using d(2) assms(4,5) dq.run_dops_refines [where fs = "[]" and s = "(h', dq)" and ts = "[]"] by simp
  then show ?thesis using d(1) ref_dops_conserves [of ops "[]"] by auto
qed

theorem deque_session_witness:
  "\<exists>dq h' s'. deque_new True 8 blank_task [16 \<mapsto> blank_task, 24 \<mapsto> blank_task, 32 \<mapsto> blank_task] =
      Some (Some dq, h') \<and>
    run_dops dq_push dq_pop dq_steal
      [DPush 16, DPush 24, DPush 32, DSteal, DPop, DPop, DPop] (h', dq) =
    Some ([Pushed, Pushed, Pushed, Stolen (Some 16), Popped (Some 32), Popped (Some 24), Popped None], s')"
proof -
  let ?ops = "[DPush 16, DPush 24, DPush 32, DSteal, DPop, DPop, DPop] :: addr dop list"
  let ?h = "[16 \<mapsto> blank_task, 24 \<mapsto> blank_task, 32 \<mapsto> blank_task] :: task_heap"
  have "(8 :: addr) \<noteq> NULL" "?h 8 = None" "\<forall>x \<in> set (pushed ?ops). loose ?h x"
      "distinct (pushed ?ops)" "length (pushed ?ops) < 2 ^ 32"
    by (simp_all add: loose_def blank_task_def deref_def)
  moreover have "ref_dops ?ops [] = ([Pushed, Pushed, Pushed, Stolen (Some 16), Popped (Some 32),
      Popped (Some 24), Popped None], [])"
    by (simp add: list_pop_def list_steal_def)
  ultimately show ?thesis using deque_session [of 8 ?h ?ops blank_task] by auto
qed

text \<open>
  Property C25. A bulk steal takes half of the victim's tasks, at least one and at most \<open>maxn\<close>,
  from the end that thieves use, in order; prepending what it returned to the thief's deque
  puts those tasks, in the same order, in front of the thief's own. Payloads of all tasks
  are untouched and no other node changes.
\<close>

theorem deque_steal_transfer:
  assumes v: "deque_rel h v ts fs" "ts \<noteq> []" and w: "deque_rel h w us gs"
    and disj: "nodes v ts fs \<inter> nodes w us gs = {}" and "0 < maxn" "length ts + length us < 2 ^ 32"
  shows "\<exists>first last n v' w' h' h''. n = min maxn (max 1 (length ts div 2)) \<and>
    deque_steal_many h v (int maxn) = Some (first, Some (last, int n), v', h') \<and>
    deque_prepend h' w first last (of_nat n) = Some (w', h'') \<and>
    deque_rel h'' v' (take (length ts - n) ts) fs \<and>
    deque_rel h'' w' (drop (length ts - n) ts @ us) gs \<and>
    only_links (nodes v ts fs \<union> nodes w us gs) h h''"
proof -
  define k where "k = steal_count maxn (length ts)"
  let ?us = "drop (length ts - k) ts"
  have k: "0 < k" "k \<le> length ts"
    using steal_count_bounds [of maxn "length ts"] assms by (auto simp: k_def)
  obtain v' h' where st: "deque_steal_many h v (int maxn) =
      Some (ts ! (length ts - k), Some (last ts, int k), v', h')"
    "deque_rel h' v' (take (length ts - k) ts) fs" "dll h' NULL ?us NULL"
    "dq_tail v' = dq_tail v" "only_links (nodes v ts fs) h h'"
    using deque_steal_many_rel [OF v assms(5)] unfolding k_def by blast
  have ends: "hd ?us = ts ! (length ts - k)" "last ?us = last ts" "?us \<noteq> []" "length ?us = k"
    using k v(2) by (simp_all add: hd_drop_conv_nth)
  have sub: "set ?us \<subseteq> nodes v ts fs" by (auto simp: nodes_def dest: in_set_dropD)
  have w': "deque_rel h' w us gs"
    by (rule deque_rel_frame [OF w]) (use st(5) disj in \<open>auto simp: only_links_def\<close>)
  have dus: "distinct ?us" using deque_rel_D(5) [OF v(1)] by simp
  have dj: "set ?us \<inter> nodes w us gs = {}" using sub disj by auto
  have len: "length ?us + length us < 2 ^ 32" using assms(6) k by simp
  obtain w' h'' where pre: "deque_prepend h' w (hd ?us) (last ?us) (of_nat (length ?us)) = Some (w', h'')"
    "deque_rel h'' w' (?us @ us) gs" "only_links (set ?us \<union> nodes w us gs) h' h''"
    using deque_prepend_rel [OF w' st(3) ends(3) dus dj len] by blast
  have "distinct (take (length ts - k) ts @ ?us)" using deque_rel_D(5) [OF v(1)] by simp
  then have "set (take (length ts - k) ts) \<inter> set ?us = {}" by (simp only: distinct_append)
  then have "nodes v' (take (length ts - k) ts) fs \<inter> (set ?us \<union> nodes w us gs) = {}"
    using deque_rel_D(5) [OF v(1)] disj st(4) set_take_subset [of "length ts - k" ts] sub
    by (auto simp: nodes_def dest: in_set_takeD in_set_dropD)
  then have "deque_rel h'' v' (take (length ts - k) ts) fs"
    by (intro deque_rel_frame [OF st(2)]) (use pre(3) in \<open>auto simp: only_links_def\<close>)
  moreover have "only_links (nodes v ts fs \<union> nodes w us gs) h h''"
    using st(5) pre(3) sub same_payloads_trans by (auto simp: only_links_def)
  moreover have "deque_prepend h' w (ts ! (length ts - k)) (last ts) (of_nat k) = Some (w', h'')"
    using pre(1) unfolding ends .
  moreover have "k = min maxn (max 1 (length ts div 2))" by (simp add: k_def steal_count_def)
  ultimately show ?thesis using st(1) pre(2) by blast
qed

text \<open>Two deques side by side: the victim's tasks at 16 and 24, the thief's at 40.\<close>

definition two_deques :: "task_heap \<times> deque \<times> deque" where
  "two_deques =
     ([8 \<mapsto> blank_task\<lparr>t_fn := dummy_fn, t_prev := 24\<rparr>, 16 \<mapsto> blank_task\<lparr>t_next := 24\<rparr>,
       24 \<mapsto> blank_task\<lparr>t_prev := 16, t_next := 8\<rparr>, 32 \<mapsto> blank_task\<lparr>t_fn := dummy_fn, t_prev := 40\<rparr>,
       40 \<mapsto> blank_task\<lparr>t_next := 32\<rparr>],
      \<lparr>dq_head = 16, dq_tail = 8, num_tasks = 2, num_steals = 0, freelist = NULL\<rparr>,
      \<lparr>dq_head = 40, dq_tail = 32, num_tasks = 1, num_steals = 0, freelist = NULL\<rparr>)"

lemma two_deques_rel:
  "two_deques = (h, v, w) \<Longrightarrow> deque_rel h v [16, 24] [] \<and> deque_rel h w [40] [] \<and>
   nodes v [16, 24] [] \<inter> nodes w [40] [] = {}"
  by (auto simp: two_deques_def deque_rel_def deref_def blank_task_def nodes_def)

theorem deque_steal_transfer_witness:
  "\<exists>h v w first last v' w' h' h''. two_deques = (h, v, w) \<and>
    deque_steal_many h v 1 = Some (first, Some (last, 1), v', h') \<and>
    deque_prepend h' w first last 1 = Some (w', h'') \<and>
    deque_rel h'' v' [16] [] \<and> deque_rel h'' w' [24, 40] []"
proof -
  obtain h v w where t: "two_deques = (h, v, w)" by (cases two_deques)
  from two_deques_rel [OF t] have "deque_rel h v [16, 24] []" "deque_rel h w [40] []"
      "nodes v [16, 24] [] \<inter> nodes w [40] [] = {}"
    by blast+
  from deque_steal_transfer [OF this(1) _ this(2,3), of 1]
  have "\<exists>first last v' w' h' h''. deque_steal_many h v 1 = Some (first, Some (last, 1), v', h') \<and>
      deque_prepend h' w first last 1 = Some (w', h'') \<and> deque_rel h'' v' [16] [] \<and>
      deque_rel h'' w' [24, 40] []"
    by auto
  with t show ?thesis by blast
qed

text \<open>
  Property C26. The three versions of \<^verbatim>\<open>deque_prepend\<close> agree on a well-formed list: looking up its
  last task, and counting its length, gives what callers pass explicitly, and the search
  terminates.
\<close>

theorem deque_prepend_versions:
  assumes "dll h NULL us NULL" "us \<noteq> []" "length us < 2 ^ 32"
  shows "deque_prepend_list h dq (hd us) =
      deque_prepend h dq (hd us) (last us) (of_nat (length us)) \<and>
    deque_prepend_len h dq (hd us) (of_nat (length us)) = deque_prepend_list h dq (hd us)"
  using deque_prepend_eq [OF assms] by simp

theorem deque_prepend_versions_witness:
  "\<forall>dq. deque_prepend_list [16 \<mapsto> blank_task\<lparr>t_next := 24\<rparr>, 24 \<mapsto> blank_task\<lparr>t_prev := 16\<rparr>] dq 16 =
   deque_prepend [16 \<mapsto> blank_task\<lparr>t_next := 24\<rparr>, 24 \<mapsto> blank_task\<lparr>t_prev := 16\<rparr>] dq 16 24 2"
proof
  fix dq
  let ?h = "[16 \<mapsto> blank_task\<lparr>t_next := 24\<rparr>, 24 \<mapsto> blank_task\<lparr>t_prev := 16\<rparr>] :: task_heap"
  have "dll ?h NULL [16, 24] NULL" by (simp add: deref_def blank_task_def)
  from deque_prepend_versions [OF this, of dq]
  show "deque_prepend_list ?h dq 16 = deque_prepend ?h dq 16 24 2" by simp
qed

text \<open>
  Popping on behalf of a parent task takes the head task only when it is a child
  of that parent, as an ordinary pop would, and otherwise changes nothing.
\<close>

theorem deque_pop_child_spec:
  assumes "deque_rel h dq ts fs" "parent \<noteq> NULL"
  shows "deque_pop_child h dq parent =
    (case ts of [] \<Rightarrow> Some (NULL, dq, h)
     | x # _ \<Rightarrow> if map_option t_parent (deref h x) = Some parent then deque_pop h dq
               else Some (NULL, dq, h))"
  using deque_pop_child_eq [OF assms] by (auto split: list.splits)

theorem deque_pop_child_spec_witness:
  "\<exists>h v w. two_deques = (h, v, w) \<and> deque_pop_child h v 99 = Some (NULL, v, h)"
proof -
  obtain h v w where t: "two_deques = (h, v, w)" by (cases two_deques)
  then have "deque_rel h v [16, 24] []" "(99 :: addr) \<noteq> NULL" using two_deques_rel by auto
  from deque_pop_child_spec [OF this] t show ?thesis
    by (auto simp: two_deques_def blank_task_def deref_def)
qed

text \<open>
  A task object returned to a deque's free list is handed out again by the next
  allocation, zeroed as a new object is, and the deque's tasks are not disturbed.
\<close>

theorem deque_task_recycled:
  assumes "deque_rel h dq ts fs" "deref h x = Some t" "x \<notin> nodes dq ts fs"
  shows "\<exists>dq' h' dq'' h'' t'. deque_task_cache h dq x = Some (dq', h') \<and>
    deque_task_new p junk h' dq' = Some (x, dq'', h'') \<and> deque_rel h'' dq'' ts fs \<and>
    deref h'' x = Some t' \<and> zeroed t' = t' \<and> loose h'' x \<and> (\<forall>a. a \<noteq> x \<longrightarrow> h'' a = h a)"
proof -
  obtain dq' h' where c: "deque_task_cache h dq x = Some (dq', h')" "deque_rel h' dq' ts (x # fs)"
    "\<forall>a. a \<noteq> x \<longrightarrow> h' a = h a"
    using deque_task_cache_rel [OF assms] by blast
  from deque_task_new_cached [OF c(2), of p junk] obtain dq'' h'' t'
    where n: "deque_task_new p junk h' dq' = Some (x, dq'', h'')"
      "deque_rel h'' dq'' ts fs" "dq_tail dq'' = dq_tail dq'" "deref h'' x = Some t'"
      "t' = zeroed t'" "\<forall>a. a \<noteq> x \<longrightarrow> h'' a = h' a"
    by (elim exE conjE)
  have "t_prev t' = NULL" by (subst n(5)) simp
  then have "loose h'' x" using n(4) by (simp add: loose_def)
  moreover have "\<forall>a. a \<noteq> x \<longrightarrow> h'' a = h a" using n(6) c(3) by simp
  ultimately show ?thesis using c(1) n(1,2,4) n(5) [symmetric] by (intro exI conjI)
qed

theorem deque_task_recycled_witness:
  "\<exists>h v w dq' h' dq'' h''. two_deques = (h, v, w) \<and> deque_task_cache h v 40 = Some (dq', h') \<and>
    deque_task_new 0 blank_task h' dq' = Some (40, dq'', h'') \<and> deque_rel h'' dq'' [16, 24] []"
proof -
  obtain h v w where t: "two_deques = (h, v, w)" by (cases two_deques)
  then have "deque_rel h v [16, 24] []" "\<exists>u. deref h 40 = Some u" "40 \<notin> nodes v [16, 24] []"
    using two_deques_rel by (auto simp: two_deques_def deref_def nodes_def)
  then have "\<exists>dq' h' dq'' h''. deque_task_cache h v 40 = Some (dq', h') \<and>
      deque_task_new 0 blank_task h' dq' = Some (40, dq'', h'') \<and> deque_rel h'' dq'' [16, 24] []"
    using deque_task_recycled [of h v "[16, 24]" "[]" 40 _ 0 blank_task] by blast
  with t show ?thesis by blast
qed

text \<open>
  Deleting a deque terminates, passes its assertions, and frees exactly the nodes
  it owns: its remaining tasks, the dummy node and the cached task objects, each once.
\<close>

theorem deque_delete_frees:
  assumes "deque_rel h dq ts fs"
  shows "\<exists>h'. deque_delete h dq = Some h' \<and> dom h' = dom h - nodes dq ts fs \<and>
    (\<forall>a \<in> dom h'. h' a = h a)"
  using deque_delete_rel [OF assms] by fastforce

theorem deque_delete_frees_witness:
  "\<exists>h v w h'. two_deques = (h, v, w) \<and> deque_delete h v = Some h' \<and> dom h' = {32, 40}"
proof -
  obtain h v w where t: "two_deques = (h, v, w)" by (cases two_deques)
  then have r: "deque_rel h v [16, 24] []" using two_deques_rel by blast
  have "dom h - nodes v [16, 24] [] = {32, 40}"
    using t by (auto simp: two_deques_def nodes_def split: if_splits)
  with deque_delete_frees [OF r] t show ?thesis by auto
qed

end
