(* ===== verification/Futures.thy ===== *)
theory Futures
  imports Channel_Cache Task
begin

text \<open>
  Lazily allocated futures (\<^verbatim>\<open>include/future_internal.h\<close> with \<^verbatim>\<open>LAZY_FUTURES\<close>). A future starts as a
  buffer in the frame of its creator; when its task is sent to another worker the buffer
  is replaced by a channel (\<^verbatim>\<open>FUTURE_CONVERT\<close>), over which the thief returns the result.
\<close>

section \<open>Definitions\<close>

text \<open>
  The union of \<^verbatim>\<open>lazy_future\<close> holds either the pointer to the channel or up to eight bytes of result.
\<close>

datatype fut_union = FChan addr | FBuf "byte list"

record lazy_future =
  lf_val :: fut_union
  has_channel :: bool
  fut_set :: bool

text \<open>The memory futures live in: the futures themselves and the channels of converted ones.\<close>

record fut_mem =
  fm_futures :: "lazy_future heap"
  fm_channels :: "channel heap"

definition FUTURE_ALLOC :: "addr \<Rightarrow> fut_mem \<Rightarrow> fut_mem" where
  "FUTURE_ALLOC f m = m\<lparr>fm_futures := (fm_futures m)(f \<mapsto>
     \<lparr>lf_val = FChan NULL, has_channel = False, fut_set = False\<rparr>)\<rparr>"

text \<open>
  Storing a result into the buffer makes it the active member of the union; the part of the
  eight bytes that is not overwritten keeps unspecified contents, here zeros.
\<close>

definition FUTURE_SET :: "addr \<Rightarrow> byte list \<Rightarrow> fut_mem \<Rightarrow> fut_mem option" where
  "FUTURE_SET f res m = do {
     fut \<leftarrow> deref (fm_futures m) f;
     if \<not> has_channel fut then do {
       buf \<leftarrow> memcpy_in (replicate 8 0) 0 res (length res);
       futures \<leftarrow> assign (fm_futures m) f (\<lambda>fut. fut\<lparr>lf_val := FBuf buf, fut_set := True\<rparr>);
       Some (m\<lparr>fm_futures := futures\<rparr>)
     } else case lf_val fut of
       FBuf _ \<Rightarrow> None
     | FChan chan \<Rightarrow> do {
         assertion (chan \<noteq> NULL);
         c \<leftarrow> deref (fm_channels m) chan;
         (_, c) \<leftarrow> channel_send c res (of_nat (length res));
         channels \<leftarrow> assign (fm_channels m) chan (\<lambda>_. c);
         Some (m\<lparr>fm_channels := channels\<rparr>)
       }
   }"

text \<open>
  Pointers in the data of a task: eight bytes, least significant first. \<open>p\<close> is the address
  \<^verbatim>\<open>channel_alloc\<close> returns.
\<close>

fun ptr_of_bytes :: "byte list \<Rightarrow> addr" where
  "ptr_of_bytes [] = 0"
| "ptr_of_bytes (b # bs) = ucast b OR push_bit 8 (ptr_of_bytes bs)"

definition bytes_of_ptr :: "addr \<Rightarrow> byte list" where
  "bytes_of_ptr p = map (\<lambda>i. ucast (drop_bit (8 * i) p)) [0..<8]"

definition future_of_task :: "task \<Rightarrow> addr" where
  "future_of_task t = ptr_of_bytes (take 8 (t_data t))"

text \<open>
  The channel has item size \<^verbatim>\<open>sizeof(f->buf)\<close> and is unbuffered. The result of
  \<^verbatim>\<open>channel_alloc\<close> is stored without a check; \<open>junk\<close> is what fresh memory holds.
\<close>

definition FUTURE_CONVERT :: "addr \<Rightarrow> (nat \<Rightarrow> byte) \<Rightarrow> task \<Rightarrow> fut_mem \<Rightarrow> fut_mem option" where
  "FUTURE_CONVERT p junk t m = do {
     let f = future_of_task t;
     fut \<leftarrow> deref (fm_futures m) f;
     if \<not> has_channel fut then do {
       let channels = (case channel_new (p \<noteq> NULL) True junk 8 0 SPSC of
           Some c \<Rightarrow> (fm_channels m)(p \<mapsto> c) | None \<Rightarrow> fm_channels m);
       futures \<leftarrow> assign (fm_futures m) f (\<lambda>fut. fut\<lparr>lf_val := FChan p, has_channel := True\<rparr>);
       Some (m\<lparr>fm_futures := futures, fm_channels := channels\<rparr>)
     } else Some m
   }"

text \<open>
  The macro \<^verbatim>\<open>READY\<close> of \<^verbatim>\<open>RT_force_future\<close>: a converted future receives from its channel, any other
  is ready once it is set. The received bytes, if any, go to the buffer of the caller.
\<close>

definition future_ready :: "addr \<Rightarrow> nat \<Rightarrow> fut_mem \<Rightarrow> (bool \<times> byte list option \<times> fut_mem) option" where
  "future_ready f n m = do {
     fut \<leftarrow> deref (fm_futures m) f;
     if has_channel fut then
       (case lf_val fut of
          FBuf _ \<Rightarrow> None
        | FChan chan \<Rightarrow> do {
            c \<leftarrow> deref (fm_channels m) chan;
            (r, c) \<leftarrow> channel_receive c (of_nat n);
            channels \<leftarrow> assign (fm_channels m) chan (\<lambda>_. c);
            Some (r \<noteq> None \<or> fut_set fut, r, m\<lparr>fm_channels := channels\<rparr>)
          })
     else Some (fut_set fut, None, m)
   }"

text \<open>
  The end of \<^verbatim>\<open>RT_force_future\<close>: copy the result out of the buffer, or free the channel. The channel goes back to the
  allocator here, as in the build without \<^verbatim>\<open>CHANNEL_CACHE\<close>; what the build with the cache does with freed channels is in \<^theory_text>\<open>Channel_Cache\<close>.
\<close>

definition force_future_return ::
  "addr \<Rightarrow> nat \<Rightarrow> byte list option \<Rightarrow> fut_mem \<Rightarrow> (byte list \<times> fut_mem) option"
where
  "force_future_return f n received m = do {
     fut \<leftarrow> deref (fm_futures m) f;
     if \<not> has_channel fut then do {
       assertion (fut_set fut);
       case lf_val fut of
         FChan _ \<Rightarrow> None
       | FBuf buf \<Rightarrow> do { data \<leftarrow> memcpy_out buf 0 n; Some (data, m) }
     } else case lf_val fut of
       FBuf _ \<Rightarrow> None
     | FChan chan \<Rightarrow> do {
         assertion (chan \<noteq> NULL);
         c \<leftarrow> deref (fm_channels m) chan;
         assertion (channel_impl c = SPSC);
         channels \<leftarrow> c_free (fm_channels m) chan;
         data \<leftarrow> received;
         Some (data, m\<lparr>fm_channels := channels\<rparr>)
       }
   }"

text \<open>One poll of a future: its result once it is ready.\<close>

definition future_get :: "addr \<Rightarrow> nat \<Rightarrow> fut_mem \<Rightarrow> (byte list option \<times> fut_mem) option" where
  "future_get f n m = do {
     (ready, r, m) \<leftarrow> future_ready f n m;
     if ready then do { (data, m) \<leftarrow> force_future_return f n r m; Some (Some data, m) }
     else Some (None, m)
   }"

text \<open>
  Scoped futures are collected in a list of nodes; \<open>await\<close> stands for the function pointers
  stored in them.
\<close>

record future_node =
  fn_f :: addr
  fn_r :: addr
  fn_await :: addr
  fn_next :: addr

partial_function (option) await_future_nodes ::
  "(addr \<Rightarrow> addr \<Rightarrow> 's \<Rightarrow> 's option) \<Rightarrow> ('s \<Rightarrow> future_node heap) \<Rightarrow> addr \<Rightarrow> 's \<Rightarrow> 's option"
where
  "await_future_nodes await nodes_of n s =
     (if n \<noteq> NULL then do {
        node \<leftarrow> deref (nodes_of s) n;
        s \<leftarrow> await (fn_await node) n s;
        node \<leftarrow> deref (nodes_of s) n;
        await_future_nodes await nodes_of (fn_next node) s
      } else Some s)"

section \<open>Pointers as bytes\<close>

lemma bit_ptr_of_bytes:
  "bit (ptr_of_bytes bs) i \<longleftrightarrow> i < 64 \<and> i div 8 < length bs \<and> bit (bs ! (i div 8)) (i mod 8)"
proof (induction bs arbitrary: i)
  case (Cons b bs)
  show ?case
  proof (cases "i < 8")
    case True
    then show ?thesis
      by (auto simp: bit_or_iff bit_ucast_iff bit_push_bit_iff)
  next
    case False
    then obtain j where j: "i = j + 8" by (metis le_add_diff_inverse2 not_less)
    have "\<not> bit b i" using False bit_word_less [of b i] by auto
    moreover have "i div 8 = Suc (j div 8)" "i mod 8 = j mod 8" using j by simp_all
    ultimately show ?thesis
      using Cons.IH [of j] j by (auto simp: bit_or_iff bit_ucast_iff bit_push_bit_iff)
  qed
qed simp

lemma ptr_bytes_roundtrip: "ptr_of_bytes (bytes_of_ptr p) = p"
proof (rule bit_word_eqI)
  fix i assume "i < LENGTH(64)"
  moreover have "bit (ucast (drop_bit (8 * (i div 8)) p) :: byte) (i mod 8) \<longleftrightarrow> bit p i"
    by (simp add: bit_ucast_iff bit_drop_bit_eq)
  moreover have "i div 8 < 8" using \<open>i < LENGTH(64)\<close> by simp
  ultimately show "bit (ptr_of_bytes (bytes_of_ptr p)) i \<longleftrightarrow> bit p i"
    by (simp add: bit_ptr_of_bytes bytes_of_ptr_def nth_upt del: upt_Suc)
qed

lemma length_bytes_of_ptr [simp]: "length (bytes_of_ptr p) = 8"
  by (simp add: bytes_of_ptr_def)

section \<open>Results\<close>

definition new_future :: lazy_future where
  "new_future = \<lparr>lf_val = FChan NULL, has_channel = False, fut_set = False\<rparr>"

lemma future_alloc_deref:
  "f \<noteq> NULL \<Longrightarrow> deref (fm_futures (FUTURE_ALLOC f m)) f = Some new_future"
  by (simp add: FUTURE_ALLOC_def new_future_def)

lemma lazy_roundtrip:
  assumes f: "deref (fm_futures m) f = Some new_future" and n: "length res \<le> 8"
  shows "\<exists>m'. FUTURE_SET f res m = Some m' \<and> future_get f (length res) m = Some (None, m) \<and>
    future_get f (length res) m' = Some (Some res, m') \<and> fm_channels m' = fm_channels m"
proof -
  let ?buf = "res @ drop (length res) (replicate 8 0)"
  let ?fut = "new_future\<lparr>lf_val := FBuf ?buf, fut_set := True\<rparr>"
  let ?m = "m\<lparr>fm_futures := (fm_futures m)(f \<mapsto> ?fut)\<rparr>"
  have np: "f \<noteq> NULL" using f by auto
  have set: "FUTURE_SET f res m = Some ?m"
    using f n by (simp add: FUTURE_SET_def new_future_def memcpy_in_def heap_simps)
  moreover have "future_get f (length res) m = Some (None, m)"
    using f by (simp add: future_get_def future_ready_def new_future_def)
  moreover have "future_get f (length res) ?m = Some (Some res, ?m)"
    using np n by (simp add: future_get_def future_ready_def force_future_return_def new_future_def
        memcpy_out_def)
  ultimately show ?thesis by auto
qed

text \<open>A converted future is one whose union points to a live channel.\<close>

definition converted :: "addr \<Rightarrow> addr \<Rightarrow> channel \<Rightarrow> fut_mem \<Rightarrow> bool" where
  "converted f p c m \<longleftrightarrow> deref (fm_futures m) f =
     Some (new_future\<lparr>lf_val := FChan p, has_channel := True\<rparr>) \<and> deref (fm_channels m) p = Some c"

lemma FUTURE_CONVERT_new:
  assumes f: "deref (fm_futures m) (future_of_task t) = Some new_future" and p: "p \<noteq> NULL"
  shows "\<exists>m' c. FUTURE_CONVERT p junk t m = Some m' \<and> converted (future_of_task t) p c m' \<and>
    fm_futures m' = (fm_futures m)(future_of_task t \<mapsto> new_future\<lparr>lf_val := FChan p, has_channel := True\<rparr>) \<and>
    fm_channels m' = (fm_channels m)(p \<mapsto> c) \<and>
    chan_inv c \<and> chan_slots c = [] \<and> ch_itemsize c = 8 \<and> chan_cap c = 1 \<and> ch_impl c = SPSC"
proof -
  obtain c where c: "channel_new True True junk 8 0 SPSC = Some c" by (simp add: channel_new_def Let_def)
  have "chan_inv c \<and> chan_slots c = [] \<and> \<not> channel_closed c \<and> ch_itemsize c = 8 \<and> chan_cap c = 1"
    using channel_new_inv [OF c] by simp
  moreover have "ch_impl c = SPSC" using c by (auto simp: channel_new_def Let_def)
  moreover have "\<not> has_channel new_future" by (simp add: new_future_def)
  moreover have "future_of_task t \<noteq> NULL" using f by auto
  ultimately show ?thesis
    using f p c by (simp add: FUTURE_CONVERT_def heap_simps converted_def)
qed

lemma FUTURE_CONVERT_again:
  "converted (future_of_task t) p c m \<Longrightarrow> FUTURE_CONVERT q junk t m = Some m"
  by (simp add: converted_def FUTURE_CONVERT_def)

text \<open>One message over an unbuffered channel, which arrives as it was sent.\<close>

lemma message_roundtrip:
  assumes c: "chan_inv c" "chan_slots c = []" "chan_cap c = 1" "ch_impl c = SPSC"
    and n: "length res < 2 ^ 32" "length res \<le> unat (ch_itemsize c)"
  shows "\<exists>c1 c2. channel_send c res (of_nat (length res)) = Some (True, c1) \<and>
    channel_receive c1 (of_nat (length res)) = Some (Some res, c2) \<and> ch_impl c1 = SPSC \<and> ch_impl c2 = SPSC"
proof -
  let ?sz = "of_nat (length res) :: uint"
  have sz: "unat ?sz = length res" "?sz \<le> ch_itemsize c"
    using n by (simp_all add: word_le_nat_alt unat_of_nat take_bit_eq_mod)
  have room: "length (chan_items ?sz c) < chan_cap c" using c by (simp add: chan_items_def)
  obtain c1 where c1: "chan_put ?sz res c = Some c1" "chan_inv c1" "?sz \<le> ch_itemsize c1"
    "chan_items ?sz c1 = [res]"
    using chan_put_room [OF c(1) sz(2) sz(1) [symmetric] room] c(2) by (auto simp: chan_items_def)
  have send: "channel_send c res ?sz = Some (True, c1)"
    using channel_send_put [OF c(1) sz(2) sz(1) [symmetric]] c1(1) by simp
  obtain c2 where c2: "chan_get ?sz c1 = Some (res, c2)"
    using chan_get_item [OF c1(2,3,4)] by blast
  have recv: "channel_receive c1 ?sz = Some (Some res, c2)"
    using channel_receive_get [OF c1(2,3)] c2 by simp
  have i1: "ch_impl c1 = SPSC"
    using send c(4) channel_send_spsc [OF c(1)]
    by (auto simp: channel_send_spsc_def channel_send_unbuffered_spsc_def split: Option.bind_splits if_splits)
  have "ch_impl c2 = SPSC"
    using recv i1 channel_receive_mpsc [OF c1(2)]
    by (auto simp: channel_recv_mpsc_def channel_recv_unbuffered_mpsc_def split: Option.bind_splits if_splits)
  then show ?thesis using send recv i1 by blast
qed

lemma converted_roundtrip:
  assumes cv: "converted f p c m" and c: "chan_inv c" "chan_slots c = []" "ch_itemsize c = 8"
    "chan_cap c = 1" "ch_impl c = SPSC" and n: "length res \<le> 8"
  shows "\<exists>m' m''. FUTURE_SET f res m = Some m' \<and> future_get f (length res) m = Some (None, m) \<and>
    future_get f (length res) m' = Some (Some res, m'') \<and> fm_channels m'' = (fm_channels m)(p := None)"
proof -
  let ?sz = "of_nat (length res) :: uint"
  have f: "deref (fm_futures m) f = Some (new_future\<lparr>lf_val := FChan p, has_channel := True\<rparr>)"
    and d: "deref (fm_channels m) p = Some c" using cv by (auto simp: converted_def)
  have np: "p \<noteq> NULL" using d by auto
  obtain c1 c2 where m: "channel_send c res ?sz = Some (True, c1)" "channel_receive c1 ?sz = Some (Some res, c2)" "ch_impl c2 = SPSC"
    using message_roundtrip [OF c(1,2,4,5), of res] n c(3) by auto
  let ?m1 = "m\<lparr>fm_channels := (fm_channels m)(p \<mapsto> c1)\<rparr>"
  have "FUTURE_SET f res m = Some ?m1"
    using f d m(1) np by (simp add: FUTURE_SET_def heap_simps)
  moreover have "(fm_channels m)(p \<mapsto> c) = fm_channels m" using d by (auto simp: deref_def split: if_splits)
  then have "future_get f (length res) m = Some (None, m)"
    using f d channel_receive_empty [OF c(1,2)]
    by (simp add: future_get_def future_ready_def new_future_def heap_simps)
  moreover have "future_get f (length res) ?m1 = Some (Some res, m\<lparr>fm_channels := (fm_channels m)(p := None)\<rparr>)"
    using f m(2,3) np
    by (simp add: future_get_def future_ready_def force_future_return_def heap_simps channel_impl_def)
  ultimately show ?thesis by auto
qed

section \<open>Properties\<close>

text \<open>
  A result of more than eight bytes does not fit the buffer of a future that was
  not converted: storing it writes past the end of \<^verbatim>\<open>buf\<close>, although every shorter result is accepted.
\<close>

theorem future_set_bound:
  assumes "f \<noteq> NULL"
  shows "FUTURE_SET f res (FUTURE_ALLOC f m) = None \<longleftrightarrow> 8 < length res"
proof (cases "length res \<le> 8")
  case True
  then show ?thesis
    using lazy_roundtrip [of "FUTURE_ALLOC f m" f res] future_alloc_deref [OF assms] by auto
next
  case False
  then show ?thesis
    using future_alloc_deref [OF assms, of m]
    by (simp add: FUTURE_SET_def new_future_def memcpy_in_def)
qed

theorem future_set_bound_witness:
  "FUTURE_SET 16 (replicate 9 0) (FUTURE_ALLOC 16 \<lparr>fm_futures = (\<lambda>_. None), fm_channels = (\<lambda>_. None)\<rparr>) = None"
  using future_set_bound [of 16 "replicate 9 0"] by simp

text \<open>
  The pointer to its future that a task carries in its first eight bytes of data
  is recovered exactly.
\<close>

theorem future_pointer_roundtrip:
  "future_of_task (t\<lparr>t_data := bytes_of_ptr f @ rest\<rparr>) = f"
  by (simp add: future_of_task_def ptr_bytes_roundtrip)

end
