(* ===== verification/Worker_State.thy ===== *)
theory Worker_State
  imports Victims Bounded_Stack Bounded_Queue Deque Futures
begin

text \<open>
  The state of the runtime (\<^verbatim>\<open>src/runtime.c\<close>, \<^verbatim>\<open>src/tasking.c\<close>): what every worker keeps in its
  thread-private variables, what the workers share, and the options the runtime is built with.
  The channels between workers are the bounded queues that \<^theory_text>\<open>Channel\<close> shows the C channels to
  be: lists with a capacity. An operation runs on a pair of the state of the worker that calls it
  and the shared state; \<open>None\<close> is a failed assertion or an invalid memory access.
\<close>

section \<open>Build options\<close>

text \<open>\<^verbatim>\<open>STEAL\<close>, \<^verbatim>\<open>SPLIT\<close> and \<^verbatim>\<open>BACKOFF\<close> of \<^verbatim>\<open>src/platform.h\<close>, and the choice of victims.\<close>

datatype steal_strategy = Steal_One | Steal_Half | Steal_Adaptive
datatype split_strategy = Split_Half | Split_Guided | Split_Adaptive
datatype backoff_strategy = No_Backoff | Sleep_Exp | Wait_Cond
datatype victim_policy = Random_Victim | Last_Victim | Last_Thief

record config =
  MAXSTEAL :: int
  STEAL :: steal_strategy
  SPLIT :: split_strategy
  BACKOFF :: backoff_strategy
  VICTIM :: victim_policy
  STEAL_EARLY_THRESHOLD :: "uint option"
  STEAL_ADAPTIVE_INTERVAL :: int

text \<open>The options of the default build (\<^verbatim>\<open>Makefile\<close>).\<close>

definition default_config :: config where
  "default_config = \<lparr>MAXSTEAL = 1, STEAL = Steal_Adaptive, SPLIT = Split_Adaptive,
     BACKOFF = Wait_Cond, VICTIM = Random_Victim, STEAL_EARLY_THRESHOLD = Some 0,
     STEAL_ADAPTIVE_INTERVAL = 25\<rparr>"

definition MAX_STEAL_ATTEMPTS :: "int \<Rightarrow> int" where
  "MAX_STEAL_ATTEMPTS num_workers = num_workers - 1"

abbreviation (input) MASTER_ID :: int where "MASTER_ID \<equiv> 0"

section \<open>Steal requests\<close>

datatype req_state = STATE_WORKING | STATE_IDLE | STATE_FAILED

text \<open>A task channel is the element \<^verbatim>\<open>chan_tasks[i][j]\<close>, here \<open>(i, j)\<close>.\<close>

type_synonym chan_ref = "int \<times> nat"

record steal_request =
  req_chan :: chan_ref
  req_ID :: int
  req_try :: int
  req_victims :: uint
  req_state :: req_state
  req_stealhalf :: bool

section \<open>Workers\<close>

text \<open>The \<^verbatim>\<open>PRIVATE\<close> variables. \<open>blocked\<close> says that the worker sleeps in the macro \<^verbatim>\<open>WAIT\<close>.\<close>

record worker =
  ID :: int
  deque :: deque
  channel_stack :: "chan_ref bounded_stack"
  work_sharing_requests :: "steal_request bounded_queue"
  requested :: int
  dropped_steal_requests :: int
  tree :: worker_tree
  last_victim :: int
  last_thief :: int
  victim_sel :: victim_state
  quiescent :: bool
  num_recent_steals :: int
  stealhalf :: bool
  checkpoint :: int
  num_tasks_exec :: int
  tasking_finished :: bool
  current_task :: addr
  requests_sent :: uint
  requests_handled :: uint
  requests_declined :: uint
  tasks_sent :: uint
  tasks_split :: uint
  futures_converted :: uint
  requests_steal_one :: uint
  requests_steal_half :: uint
  blocked :: bool

text \<open>
  Shared state. \<open>mallocs\<close> are the addresses that \<^verbatim>\<open>malloc\<close> will return, \<open>NULL\<close> for a failure and
  once the list is used up; \<open>signals\<close> says which workers have been signalled
  (\<^verbatim>\<open>pthread_cond_signal\<close>) since they last started to wait.
\<close>

record shared =
  num_workers :: int
  chan_requests :: "steal_request list list"
  chan_tasks :: "addr list list list"
  task_mem :: task_heap
  fut_mem :: fut_mem
  fut_nodes :: "future_node heap"
  mallocs :: "addr list"
  signals :: "bool list"
  refusals :: "nat list"

type_synonym wst = "worker \<times> shared"

definition malloc :: "shared \<Rightarrow> addr \<times> shared" where
  "malloc sh = (case mallocs sh of [] \<Rightarrow> (NULL, sh) | p # ps \<Rightarrow> (p, sh\<lparr>mallocs := ps\<rparr>))"

section \<open>Small macros\<close>

definition CHANNEL_PUSH :: "chan_ref \<Rightarrow> worker \<Rightarrow> worker option" where
  "CHANNEL_PUSH chan w = do {
     st \<leftarrow> bounded_stack_push (channel_stack w) chan;
     Some (w\<lparr>channel_stack := st\<rparr>)
   }"

definition CHANNEL_POP :: "worker \<Rightarrow> (chan_ref \<times> worker) option" where
  "CHANNEL_POP w = do {
     (slot, st) \<leftarrow> bounded_stack_pop (channel_stack w);
     chan \<leftarrow> slot;
     Some (chan, w\<lparr>channel_stack := st\<rparr>)
   }"

definition ENQUEUE_WORK_SHARING_REQUEST :: "steal_request \<Rightarrow> worker \<Rightarrow> worker option" where
  "ENQUEUE_WORK_SHARING_REQUEST req w = do {
     q \<leftarrow> bounded_queue_enqueue (work_sharing_requests w) req;
     Some (w\<lparr>work_sharing_requests := q\<rparr>)
   }"

definition DEQUEUE_WORK_SHARING_REQUEST :: "worker \<Rightarrow> worker option" where
  "DEQUEUE_WORK_SHARING_REQUEST w = do {
     (_, q) \<leftarrow> bounded_queue_dequeue (work_sharing_requests w);
     Some (w\<lparr>work_sharing_requests := q\<rparr>)
   }"

definition NEXT_WORK_SHARING_REQUEST :: "worker \<Rightarrow> steal_request option" where
  "NEXT_WORK_SHARING_REQUEST w = do {
     slot \<leftarrow> bounded_queue_head (work_sharing_requests w);
     slot
   }"

definition SIGNAL :: "int \<Rightarrow> shared \<Rightarrow> shared option" where
  "SIGNAL i sh = do {
     s \<leftarrow> write_at (signals sh) (nat i) True;
     Some (sh\<lparr>signals := s\<rparr>)
   }"

text \<open>\<^verbatim>\<open>peek\<close> over the task channels of one worker.\<close>

definition peek :: "addr list list \<Rightarrow> bool" where
  "peek chans = list_ex (\<lambda>q. q \<noteq> []) chans"

definition get_current_task :: "worker \<Rightarrow> addr" where
  "get_current_task w = current_task w"

definition set_current_task :: "addr \<Rightarrow> worker \<Rightarrow> worker" where
  "set_current_task task w = w\<lparr>current_task := task\<rparr>"

definition is_root_task :: "task \<Rightarrow> bool" where
  "is_root_task t = (t_parent t = NULL)"

definition RT_task_alloc :: "task \<Rightarrow> wst \<Rightarrow> (addr \<times> wst) option" where
  "RT_task_alloc junk s = (let (w, sh) = s in
     if freelist (deque w) = NULL then do {
       let (p, sh) = malloc sh;
       (t, dq, h) \<leftarrow> deque_task_new p junk (task_mem sh) (deque w);
       Some (t, w\<lparr>deque := dq\<rparr>, sh\<lparr>task_mem := h\<rparr>)
     } else do {
       (t, dq, h) \<leftarrow> deque_task_new NULL junk (task_mem sh) (deque w);
       Some (t, w\<lparr>deque := dq\<rparr>, sh\<lparr>task_mem := h\<rparr>)
     })"

text \<open>\<^verbatim>\<open>SPLITTABLE\<close>: a loop task with iterations left for splitting.\<close>

definition SPLITTABLE :: "task_heap \<Rightarrow> addr \<Rightarrow> bool option" where
  "SPLITTABLE h t =
     (if t = NULL then Some False
      else do { x \<leftarrow> deref h t; Some (t_splittable x \<and> \<bar>t_end x - t_cur x\<bar> > 1) })"

definition FORGET_REQ :: "steal_request \<Rightarrow> worker \<Rightarrow> worker option" where
  "FORGET_REQ req w = do {
     assertion (req_ID req = ID w);
     assertion (requested w \<noteq> 0);
     CHANNEL_PUSH (req_chan req) (w\<lparr>requested := requested w - 1\<rparr>)
   }"

definition detect_termination :: "worker \<Rightarrow> worker option" where
  "detect_termination w = do {
     assertion (ID w = MASTER_ID);
     assertion (left_subtree_is_idle (tree w) \<and> right_subtree_is_idle (tree w));
     assertion (\<not> quiescent w);
     Some (w\<lparr>quiescent := True\<rparr>)
   }"

definition STEAL_REQUEST_INIT :: "int \<Rightarrow> worker \<Rightarrow> (steal_request \<times> worker) option" where
  "STEAL_REQUEST_INIT N w = do {
     (chan, w) \<leftarrow> CHANNEL_POP w;
     Some (\<lparr>req_chan = chan, req_ID = ID w, req_try = 0, req_victims = INIT_VICTIMS N,
       req_state = STATE_WORKING, req_stealhalf = stealhalf w\<rparr>, w)
   }"

section \<open>Requests to and from other workers\<close>

text \<open>
  A channel with several senders may refuse a message although it is not full. The list \<^const>\<open>refusals\<close>, which is arbitrary, tells how often in a row
  that happens to each of the sends to come; it never happens after the end of the list.
\<close>

definition next_refusals :: "shared \<Rightarrow> nat \<times> shared" where
  "next_refusals sh = (case refusals sh of [] \<Rightarrow> (0, sh) | k # ks \<Rightarrow> (k, sh\<lparr>refusals := ks\<rparr>))"

text \<open>
  A request channel holds up to \<^verbatim>\<open>MAXSTEAL * num_workers\<close> requests. \<^verbatim>\<open>SEND_REQ\<close> retries when the channel
  refuses the request and aborts at the third failure; if tasking has finished it drops the request at the first. A full channel refuses every time,
  with nothing draining it in between.
\<close>

definition SEND_REQ_WORKER :: "config \<Rightarrow> int \<Rightarrow> steal_request \<Rightarrow> wst \<Rightarrow> wst option" where
  "SEND_REQ_WORKER cfg i req s = (let (w, sh) = s; (k, sh) = next_refusals sh in do {
     assertion (0 \<le> i);
     q \<leftarrow> read_at (chan_requests sh) (nat i);
     if tasking_finished w \<and> 0 < k then Some (w, sh)
     else do {
       assertion (k < 3);
       case list_put (nat (MAXSTEAL cfg * num_workers sh)) req q of
         Some q \<Rightarrow> Some (w, sh\<lparr>chan_requests := (chan_requests sh)[nat i := q]\<rparr>)
       | None \<Rightarrow> do { assertion (tasking_finished w); Some (w, sh) }
     }
   })"

lemma next_refusals_memory: "next_refusals sh = (k, sh') \<Longrightarrow> sh' = sh\<lparr>refusals := refusals sh'\<rparr>"
  by (auto simp: next_refusals_def split: list.splits)

lemma next_refusals_fields:
  "next_refusals sh = (k, sh') \<Longrightarrow> num_workers sh' = num_workers sh \<and> chan_requests sh' = chan_requests sh \<and> chan_tasks sh' = chan_tasks sh \<and>
     task_mem sh' = task_mem sh \<and> mallocs sh' = mallocs sh \<and> signals sh' = signals sh"
  by (auto simp: next_refusals_def split: list.splits)

text \<open>
  The traversals of idle subtrees. A level of the subtree of \<open>worker\<close> is a range of IDs, of which
  the loops visit the existing ones; the next level starts at the left child.
\<close>

function recv_range ::
  "int \<Rightarrow> int \<Rightarrow> 'a list list \<Rightarrow> ('a option \<times> 'a list list) option"
where
  "recv_range i hi chans =
     (if i < hi then do {
        q \<leftarrow> read_at chans (nat i);
        case list_get q of
          Some (req, q) \<Rightarrow> Some (Some req, chans[nat i := q])
        | None \<Rightarrow> recv_range (i + 1) hi chans
      } else Some (None, chans))"
  by pat_completeness auto
termination
  by (relation "measure (\<lambda>(i, hi, chans). nat (hi - i))") auto

function RECV_REQ_lvl ::
  "int \<Rightarrow> 'a list list \<Rightarrow> int \<Rightarrow> nat \<Rightarrow> ('a option \<times> 'a list list) option"
where
  "RECV_REQ_lvl N chans worker lvl = do {
     assertion (- 1 \<le> worker \<and> worker < N);
     if worker = - 1 then Some (None, chans)
     else do {
       (r, chans) \<leftarrow> recv_range worker (min (worker + 2 ^ lvl) N) chans;
       case r of
         Some req \<Rightarrow> Some (Some req, chans)
       | None \<Rightarrow> do { l \<leftarrow> left_child worker (N - 1); RECV_REQ_lvl N chans l (lvl + 1) }
     }
   }"
  by pat_completeness auto
termination
  by (relation "measure (\<lambda>(N, chans, n, lvl). if n = - 1 then 0 else Suc (nat (N - n)))")
    (auto simp: left_child_def Let_def split: if_splits Option.bind_splits)

function peek_range :: "int \<Rightarrow> int \<Rightarrow> 'a list list \<Rightarrow> bool option" where
  "peek_range i hi chans =
     (if i < hi then do {
        q \<leftarrow> read_at chans (nat i);
        if length q \<noteq> 0 then Some True else peek_range (i + 1) hi chans
      } else Some False)"
  by pat_completeness auto
termination
  by (relation "measure (\<lambda>(i, hi, chans). nat (hi - i))") auto

function PEEK_REQ :: "config \<Rightarrow> int \<Rightarrow> 'a list list \<Rightarrow> int \<Rightarrow> nat \<Rightarrow> bool option" where
  "PEEK_REQ cfg N chans worker lvl = do {
     assertion (- 1 \<le> worker \<and> worker < N);
     assertion (BACKOFF cfg = No_Backoff \<longrightarrow> lvl = 0);
     if worker = - 1 then Some False
     else do {
       r \<leftarrow> peek_range worker (min (worker + 2 ^ lvl) N) chans;
       if r then Some True
       else if BACKOFF cfg = No_Backoff then Some r
       else do { l \<leftarrow> left_child worker (N - 1); PEEK_REQ cfg N chans l (lvl + 1) }
     }
   }"
  by pat_completeness auto
termination
  by (relation "measure (\<lambda>(cfg, N, chans, n, lvl). if n = - 1 then 0 else Suc (nat (N - n)))")
    (auto simp: left_child_def Let_def split: if_splits Option.bind_splits)

function count_range :: "int \<Rightarrow> int \<Rightarrow> 'a list list \<Rightarrow> uint \<Rightarrow> uint option" where
  "count_range i hi chans ret =
     (if i < hi then do {
        q \<leftarrow> read_at chans (nat i);
        count_range (i + 1) hi chans (ret + of_nat (length q))
      } else Some ret)"
  by pat_completeness auto
termination
  by (relation "measure (\<lambda>(i, hi, chans, ret). nat (hi - i))") auto

text \<open>\<^verbatim>\<open>COUNT_REQ\<close> as it is written: the count of the current level is not part of the result.\<close>

function COUNT_REQ :: "int \<Rightarrow> 'a list list \<Rightarrow> int \<Rightarrow> nat \<Rightarrow> uint option" where
  "COUNT_REQ N chans worker lvl = do {
     assertion (- 1 \<le> worker \<and> worker < N);
     if worker = - 1 then Some 0
     else do {
       ret \<leftarrow> count_range worker (min (worker + 2 ^ lvl) N) chans 0;
       l \<leftarrow> left_child worker (N - 1);
       COUNT_REQ N chans l (lvl + 1)
     }
   }"
  by pat_completeness auto
termination
  by (relation "measure (\<lambda>(N, chans, n, lvl). if n = - 1 then 0 else Suc (nat (N - n)))")
    (auto simp: left_child_def Let_def split: if_splits Option.bind_splits)

declare recv_range.simps [simp del] RECV_REQ_lvl.simps [simp del] peek_range.simps [simp del]
  PEEK_REQ.simps [simp del] count_range.simps [simp del] COUNT_REQ.simps [simp del]

section \<open>The traversals visit subtrees\<close>

text \<open>The workers at depth \<open>d\<close> or more below \<open>i\<close>, and the first ID of a level.\<close>

definition deeper :: "int \<Rightarrow> int \<Rightarrow> nat \<Rightarrow> int set" where
  "deeper m i d = (\<Union>e \<in> {d..}. level m i e)"

definition level_start :: "int \<Rightarrow> nat \<Rightarrow> int" where
  "level_start i d = 2 ^ d * (i + 1) - 1"

lemma deeper_0: "deeper m i 0 = subtree m i"
  by (simp add: deeper_def subtree_def atLeast_0)

lemma deeper_unfold: "deeper m i d = level m i d \<union> deeper m i (Suc d)"
proof -
  have "{d..} = insert d {Suc d..}" by auto
  then show ?thesis by (simp add: deeper_def)
qed

lemma level_range:
  "0 \<le> i \<Longrightarrow> level m i d = {level_start i d..<min (level_start i d + 2 ^ d) (m + 1)}"
  by (auto simp: level_def level_start_def algebra_simps)

lemma level_start_Suc: "level_start i (Suc d) = 2 * level_start i d + 1"
  by (simp add: level_start_def)

lemma level_start_mono: "0 \<le> i \<Longrightarrow> level_start i d \<le> level_start i (d + k)"
proof -
  assume "0 \<le> i"
  then have "2 ^ d * (i + 1) \<le> 2 ^ (d + k) * (i + 1)"
    by (intro mult_right_mono power_increasing) simp_all
  then show ?thesis by (simp only: level_start_def)
qed

lemma level_start_nonneg: "0 \<le> i \<Longrightarrow> 0 \<le> level_start i d"
  using le_pow_mult [of i d] by (simp add: level_start_def)

lemma deeper_empty:
  assumes "0 \<le> i" "m < level_start i d"
  shows "deeper m i d = {}"
proof -
  have "level m i e = {}" if "d \<le> e" for e
    using level_start_mono [OF assms(1), of d "e - d"] assms that by (auto simp: level_range)
  then show ?thesis by (auto simp: deeper_def)
qed

lemma left_child_level:
  assumes "0 \<le> i" "level_start i d < N"
  shows "left_child (level_start i d) (N - 1) =
    Some (if level_start i (Suc d) < N then level_start i (Suc d) else - 1)"
  using assms level_start_nonneg [OF assms(1), of d] left_child_eq [of "N - 1" "level_start i d"]
  by (simp add: worker_id_def level_start_Suc)

lemma peek_range_spec:
  assumes "0 \<le> i" "hi \<le> int (length chans)"
  shows "peek_range i hi chans = Some (\<exists>j \<in> {i..<hi}. chans ! nat j \<noteq> [])"
  using assms
proof (induction i hi chans rule: peek_range.induct)
  case (1 i hi chans)
  have split: "{i..<hi} = insert i {i + 1..<hi}" if "i < hi" using that by auto
  show ?case
    using "1.IH" "1.prems" split by (subst peek_range.simps) (auto simp: nat_less_iff)
qed

lemma PEEK_REQ_spec:
  assumes "0 \<le> i" "N \<le> int (length chans)" "BACKOFF cfg \<noteq> No_Backoff"
    and "worker = level_start i lvl" "worker < N"
  shows "PEEK_REQ cfg N chans worker lvl = Some (\<exists>j \<in> deeper (N - 1) i lvl. chans ! nat j \<noteq> [])"
  using assms(2-)
proof (induction cfg N chans worker lvl rule: PEEK_REQ.induct)
  case (1 cfg N chans worker lvl)
  let ?hi = "min (worker + 2 ^ lvl) N"
  have w: "0 \<le> worker" using level_start_nonneg [OF assms(1)] "1.prems" by simp
  have lv: "level (N - 1) i lvl = {worker..<?hi}" using level_range [OF assms(1)] "1.prems" by simp
  have pk: "peek_range worker ?hi chans = Some (\<exists>j \<in> level (N - 1) i lvl. chans ! nat j \<noteq> [])"
    using peek_range_spec [of worker ?hi chans] w "1.prems" lv by simp
  show ?case
  proof (cases "\<exists>j \<in> level (N - 1) i lvl. chans ! nat j \<noteq> []")
    case True
    then show ?thesis
      using pk w "1.prems" by (subst PEEK_REQ.simps) (auto simp: deeper_unfold [of _ _ lvl])
  next
    case False
    let ?l = "if level_start i (Suc lvl) < N then level_start i (Suc lvl) else - 1"
    have l: "left_child worker (N - 1) = Some ?l"
      using left_child_level [OF assms(1)] "1.prems" by simp
    have "PEEK_REQ cfg N chans worker lvl = PEEK_REQ cfg N chans ?l (lvl + 1)"
      using pk False w "1.prems" l by (subst PEEK_REQ.simps) simp
    also have "\<dots> = Some (\<exists>j \<in> deeper (N - 1) i (Suc lvl). chans ! nat j \<noteq> [])"
    proof (cases "level_start i (Suc lvl) < N")
      case True
      then show ?thesis
        using "1.IH" [of "()" "()" False ?l] pk False w "1.prems" l by simp
    next
      case False
      then have "deeper (N - 1) i (Suc lvl) = {}" using deeper_empty [OF assms(1)] by simp
      then show ?thesis using False w "1.prems" by (subst PEEK_REQ.simps) simp
    qed
    finally show ?thesis using False by (auto simp: deeper_unfold [of _ _ lvl])
  qed
qed

lemma recv_range_spec:
  assumes "0 \<le> i" "hi \<le> int (length chans)"
  shows "\<exists>r chans'. recv_range i hi chans = Some (r, chans') \<and>
    (case r of None \<Rightarrow> chans' = chans \<and> (\<forall>j \<in> {i..<hi}. chans ! nat j = [])
     | Some x \<Rightarrow> \<exists>j \<in> {i..<hi}. \<exists>q. chans ! nat j = x # q \<and> chans' = chans[nat j := q])"
  using assms
proof (induction i hi chans rule: recv_range.induct)
  case (1 i hi chans)
  show ?case
  proof (cases "i < hi")
    case True
    then have rd: "read_at chans (nat i) = Some (chans ! nat i)" using "1.prems" by (simp add: nat_less_iff)
    show ?thesis
    proof (cases "chans ! nat i")
      case Nil
      have split: "{i..<hi} = insert i {i + 1..<hi}" using True by auto
      obtain r chans' where "recv_range (i + 1) hi chans = Some (r, chans')"
        "case r of None \<Rightarrow> chans' = chans \<and> (\<forall>j \<in> {i + 1..<hi}. chans ! nat j = [])
          | Some x \<Rightarrow> \<exists>j \<in> {i + 1..<hi}. \<exists>q. chans ! nat j = x # q \<and> chans' = chans[nat j := q]"
        using "1.IH" [OF True rd] "1.prems" Nil by (auto simp: list_get_def)
      then show ?thesis
        using True rd Nil split by (subst recv_range.simps) (auto simp: list_get_def split: option.splits)
    next
      case (Cons x q)
      then show ?thesis
        using True rd by (subst recv_range.simps) (auto simp: list_get_def)
    qed
  next
    case False
    then show ?thesis by (subst recv_range.simps) simp
  qed
qed

lemma RECV_REQ_lvl_spec:
  assumes "0 \<le> i" "N \<le> int (length chans)" "worker = level_start i lvl" "worker < N"
  shows "\<exists>r chans'. RECV_REQ_lvl N chans worker lvl = Some (r, chans') \<and>
    (case r of None \<Rightarrow> chans' = chans \<and> (\<forall>j \<in> deeper (N - 1) i lvl. chans ! nat j = [])
     | Some x \<Rightarrow> \<exists>j \<in> deeper (N - 1) i lvl. \<exists>q. chans ! nat j = x # q \<and> chans' = chans[nat j := q])"
  using assms(2-)
proof (induction N chans worker lvl rule: RECV_REQ_lvl.induct)
  case (1 N chans worker lvl)
  let ?hi = "min (worker + 2 ^ lvl) N"
  have w: "0 \<le> worker" using level_start_nonneg [OF assms(1)] "1.prems" by simp
  have lv: "level (N - 1) i lvl = {worker..<?hi}" using level_range [OF assms(1)] "1.prems" by simp
  have hi: "?hi \<le> int (length chans)" using "1.prems" by linarith
  obtain r chans' where r: "recv_range worker ?hi chans = Some (r, chans')"
    "case r of None \<Rightarrow> chans' = chans \<and> (\<forall>j \<in> level (N - 1) i lvl. chans ! nat j = [])
     | Some x \<Rightarrow> \<exists>j \<in> level (N - 1) i lvl. \<exists>q. chans ! nat j = x # q \<and> chans' = chans[nat j := q]"
    using recv_range_spec [OF w hi] unfolding lv by blast
  show ?case
  proof (cases r)
    case (Some x)
    then show ?thesis
      using r w "1.prems" by (subst RECV_REQ_lvl.simps) (auto simp: deeper_unfold [of _ _ lvl])
  next
    case None
    let ?l = "if level_start i (Suc lvl) < N then level_start i (Suc lvl) else - 1"
    have l: "left_child worker (N - 1) = Some ?l"
      using left_child_level [OF assms(1)] "1.prems" by simp
    have step: "RECV_REQ_lvl N chans worker lvl = RECV_REQ_lvl N chans ?l (lvl + 1)"
      using r None w "1.prems" l by (subst RECV_REQ_lvl.simps) simp
    have "\<exists>r chans'. RECV_REQ_lvl N chans ?l (lvl + 1) = Some (r, chans') \<and>
      (case r of None \<Rightarrow> chans' = chans \<and> (\<forall>j \<in> deeper (N - 1) i (Suc lvl). chans ! nat j = [])
       | Some x \<Rightarrow> \<exists>j \<in> deeper (N - 1) i (Suc lvl). \<exists>q. chans ! nat j = x # q \<and> chans' = chans[nat j := q])"
    proof (cases "level_start i (Suc lvl) < N")
      case True
      have "worker \<noteq> - 1" using w by simp
      moreover have "recv_range worker ?hi chans = Some (None, chans)" using r None by simp
      ultimately show ?thesis
        using "1.IH" [of "()" "(None, chans)" None chans ?l] True w "1.prems" l
        unfolding Suc_eq_plus1 by simp
    next
      case False
      then have "deeper (N - 1) i (Suc lvl) = {}" using deeper_empty [OF assms(1)] by simp
      then show ?thesis using False w "1.prems" by (subst RECV_REQ_lvl.simps) simp
    qed
    then obtain r2 chans2 where e: "RECV_REQ_lvl N chans worker lvl = Some (r2, chans2)"
      and c: "case r2 of None \<Rightarrow> chans2 = chans \<and> (\<forall>j \<in> deeper (N - 1) i (Suc lvl). chans ! nat j = [])
       | Some x \<Rightarrow> \<exists>j \<in> deeper (N - 1) i (Suc lvl). \<exists>q. chans ! nat j = x # q \<and> chans2 = chans[nat j := q]"
      unfolding step by blast
    have "case r2 of None \<Rightarrow> chans2 = chans \<and> (\<forall>j \<in> deeper (N - 1) i lvl. chans ! nat j = [])
       | Some x \<Rightarrow> \<exists>j \<in> deeper (N - 1) i lvl. \<exists>q. chans ! nat j = x # q \<and> chans2 = chans[nat j := q]"
      using c r None by (cases r2) (auto simp: deeper_unfold [of _ _ lvl])
    with e show ?thesis by blast
  qed
qed

lemma count_range_returns:
  assumes "0 \<le> i" "hi \<le> int (length chans)"
  shows "\<exists>n. count_range i hi chans ret = Some n"
  using assms
proof (induction i hi chans ret rule: count_range.induct)
  case (1 i hi chans ret)
  then show ?case by (subst count_range.simps) (auto simp: nat_less_iff)
qed

lemma COUNT_REQ_zero:
  assumes "0 \<le> i" "N \<le> int (length chans)" "worker = level_start i lvl" "worker < N"
  shows "COUNT_REQ N chans worker lvl = Some 0"
  using assms(2-)
proof (induction N chans worker lvl rule: COUNT_REQ.induct)
  case (1 N chans worker lvl)
  let ?hi = "min (worker + 2 ^ lvl) N"
  have w: "0 \<le> worker" using level_start_nonneg [OF assms(1)] "1.prems" by simp
  have hi: "?hi \<le> int (length chans)" using "1.prems" by linarith
  obtain n where n: "count_range worker ?hi chans 0 = Some n"
    using count_range_returns [OF w hi] by blast
  let ?l = "if level_start i (Suc lvl) < N then level_start i (Suc lvl) else - 1"
  have l: "left_child worker (N - 1) = Some ?l"
    using left_child_level [OF assms(1)] "1.prems" by simp
  have "COUNT_REQ N chans worker lvl = COUNT_REQ N chans ?l (lvl + 1)"
    using n w "1.prems" l by (subst COUNT_REQ.simps) simp
  also have "\<dots> = Some 0"
  proof (cases "level_start i (Suc lvl) < N")
    case True
    have "worker \<noteq> - 1" using w by simp
    from "1.IH" [of "()" n ?l] this True n w "1.prems" l show ?thesis by simp
  next
    case False
    then show ?thesis using w "1.prems" by (subst COUNT_REQ.simps) simp
  qed
  finally show ?case .
qed

lemma level_start_0 [simp]: "level_start i 0 = i"
  by (simp add: level_start_def)

section \<open>Properties\<close>

text \<open>
  Property C30. Peeking for steal requests on behalf of a worker's subtree terminates without
  failing an assertion and answers whether any worker in that subtree has a request
  waiting; receiving on its behalf takes the first request of one of those
  channels, if any, and leaves all others alone.
\<close>

theorem subtree_requests:
  assumes "worker_id (N - 1) i" "N \<le> int (length chans)" "BACKOFF cfg \<noteq> No_Backoff"
  shows "PEEK_REQ cfg N chans i 0 = Some (\<exists>j \<in> subtree (N - 1) i. chans ! nat j \<noteq> []) \<and>
    (\<exists>r chans'. RECV_REQ_lvl N chans i 0 = Some (r, chans') \<and>
      (case r of None \<Rightarrow> chans' = chans \<and> (\<forall>j \<in> subtree (N - 1) i. chans ! nat j = [])
       | Some x \<Rightarrow> \<exists>j \<in> subtree (N - 1) i. \<exists>q. chans ! nat j = x # q \<and> chans' = chans[nat j := q]))"
proof -
  have i: "0 \<le> i" "i < N" using assms(1) by (auto simp: worker_id_def)
  show ?thesis
    using PEEK_REQ_spec [OF i(1) assms(2,3), of i 0] RECV_REQ_lvl_spec [OF i(1) assms(2), of i 0] i
    unfolding deeper_0 level_start_0 by blast
qed

theorem subtree_requests_witness:
  "PEEK_REQ default_config 4 [[], [], [], [True]] 1 0 =
     Some (\<exists>j \<in> subtree 3 1. [[], [], [], [True]] ! nat j \<noteq> [])"
proof -
  have "worker_id (4 - 1) 1" "4 \<le> int (length [[], [], [], [True]])" "BACKOFF default_config \<noteq> No_Backoff"
    by (simp_all add: worker_id_def default_config_def)
  from conjunct1 [OF subtree_requests [OF this]] show ?thesis by simp
qed

text \<open>
  \<^verbatim>\<open>COUNT_REQ\<close> returns 0 on every subtree, however many requests wait there: the count
  of each level is dropped when the traversal descends.
\<close>

theorem COUNT_REQ_counts_nothing:
  assumes "worker_id (N - 1) i" "N \<le> int (length chans)"
  shows "COUNT_REQ N chans i 0 = Some 0"
  using COUNT_REQ_zero [of i N chans i 0] assms by (auto simp: worker_id_def)

end
