(* ===== verification/Stealing.thy ===== *)
theory Stealing
  imports Worker_State
begin

text \<open>
  How steal requests travel between workers (\<^verbatim>\<open>src/runtime.c\<close>): choosing the next victim, sending,
  receiving and declining requests, and receiving tasks. A request is created by
  \<^verbatim>\<open>try_send_steal_request\<close>, wanders from victim to victim, and is answered with tasks, returned to
  its sender, or kept by the parent of its sender as a work-sharing request.
\<close>

section \<open>Definitions\<close>

text \<open>
  The results are the victim, the request with its updated set of potential victims, and the
  worker, whose random seed may have advanced.
\<close>

definition potential_victim ::
  "rand_fn \<Rightarrow> config \<Rightarrow> int \<Rightarrow> steal_request \<Rightarrow> worker \<Rightarrow> (int \<times> worker) option"
where
  "potential_victim rand cfg N req w =
     (let fallback = do {
        (victim, vs) \<leftarrow> random_victim rand N (req_victims req) (req_ID req) (victim_sel w);
        Some (victim, w\<lparr>victim_sel := vs\<rparr>)
      } in
      case VICTIM cfg of
        Last_Victim \<Rightarrow>
          if last_victim w \<noteq> - 1 \<and> POTENTIAL_VICTIM (req_victims req) (last_victim w)
          then Some (last_victim w, w) else fallback
      | Last_Thief \<Rightarrow>
          if last_thief w \<noteq> - 1 \<and> POTENTIAL_VICTIM (req_victims req) (last_thief w)
          then Some (last_thief w, w) else fallback
      | Random_Victim \<Rightarrow> fallback)"

definition next_victim ::
  "rand_fn \<Rightarrow> config \<Rightarrow> int \<Rightarrow> steal_request \<Rightarrow> worker \<Rightarrow> (int \<times> steal_request \<times> worker) option"
where
  "next_victim rand cfg N req w = do {
     let req = req\<lparr>req_victims := req_victims req AND NOT (BIT (nat (ID w)))\<rparr>;
     (victim, req, w) \<leftarrow>
       (if req_try req = MAX_STEAL_ATTEMPTS N then Some (req_ID req, req, w)
        else do {
          assertion (req_try req = 0 \<and> req_ID req = ID w \<or> req_try req > 0 \<and> req_ID req \<noteq> ID w);
          victims \<leftarrow>
            (if left_subtree_is_idle (tree w) \<and> right_subtree_is_idle (tree w)
             then mark_as_idle N (req_victims req) (ID w)
             else if left_subtree_is_idle (tree w)
             then mark_as_idle N (req_victims req) (tree_left_child (tree w))
             else if right_subtree_is_idle (tree w)
             then mark_as_idle N (req_victims req) (tree_right_child (tree w))
             else Some (req_victims req));
          let req = req\<lparr>req_victims := victims\<rparr>;
          assertion (\<not> POTENTIAL_VICTIM (req_victims req) (ID w));
          (victim, w) \<leftarrow> potential_victim rand cfg N req w;
          Some (victim, req, w)
        });
     victim \<leftarrow>
       (if victim = - 1 then do {
          assertion (req_victims req = 0);
          let victim = req_ID req;
          assertion (victim \<noteq> ID w \<or> victim = ID w \<and> ID w = MASTER_ID);
          Some victim
        } else Some victim);
     assertion (0 \<le> victim \<and> victim < N);
     assertion (0 \<le> req_try req \<and> req_try req \<le> MAX_STEAL_ATTEMPTS N);
     Some (victim, req, w)
   }"

text \<open>
  Receiving from one's own channel. A failed request comes from a child, whose subtree is idle
  from now on; it is put aside as a work-sharing request and the next request is received.
\<close>

definition hold_failed :: "steal_request \<Rightarrow> worker \<Rightarrow> worker option" where
  "hold_failed req w = do {
     assertion (req_ID req = tree_left_child (tree w) \<or> req_ID req = tree_right_child (tree w));
     w \<leftarrow>
       (if req_ID req = tree_left_child (tree w) then do {
          assertion (\<not> left_subtree_is_idle (tree w));
          Some (w\<lparr>tree := (tree w)\<lparr>left_subtree_is_idle := True\<rparr>\<rparr>)
        } else do {
          assertion (\<not> right_subtree_is_idle (tree w));
          Some (w\<lparr>tree := (tree w)\<lparr>right_subtree_is_idle := True\<rparr>\<rparr>)
        });
     ENQUEUE_WORK_SHARING_REQUEST req w
   }"

fun recv_own ::
  "steal_request list \<Rightarrow> worker \<Rightarrow> (steal_request option \<times> steal_request list \<times> worker) option"
where
  "recv_own [] w = Some (None, [], w)"
| "recv_own (req # q) w =
     (if req_state req = STATE_FAILED then do { w \<leftarrow> hold_failed req w; recv_own q w }
      else Some (Some req, q, w))"

definition RECV_REQ :: "config \<Rightarrow> wst \<Rightarrow> (steal_request option \<times> wst) option" where
  "RECV_REQ cfg s = (let (w, sh) = s; N = num_workers sh in do {
     q \<leftarrow> read_at (chan_requests sh) (nat (ID w));
     (r, q, w) \<leftarrow> recv_own q w;
     let sh = sh\<lparr>chan_requests := (chan_requests sh)[nat (ID w) := q]\<rparr>;
     assertion (r \<noteq> None \<and> req_state (the r) \<noteq> STATE_FAILED \<or> r = None);
     if BACKOFF cfg = No_Backoff then Some (r, w, sh)
     else do {
       (r, sh) \<leftarrow>
         (if r = None \<and> left_subtree_is_idle (tree w) then do {
            l \<leftarrow> left_child (ID w) (N - 1);
            (r, chans) \<leftarrow> RECV_REQ_lvl N (chan_requests sh) l 0;
            Some (r, sh\<lparr>chan_requests := chans\<rparr>)
          } else Some (r, sh));
       (r, sh) \<leftarrow>
         (if r = None \<and> right_subtree_is_idle (tree w) then do {
            l \<leftarrow> right_child (ID w) (N - 1);
            (r, chans) \<leftarrow> RECV_REQ_lvl N (chan_requests sh) l 0;
            Some (r, sh\<lparr>chan_requests := chans\<rparr>)
          } else Some (r, sh));
       Some (r, w, sh)
     }
   })"

text \<open>
  The adaptive strategy: after an interval of steals, compare the tasks executed per steal with
  the thresholds of the code. The C code divides doubles; the comparisons are those of
  the integers involved.
\<close>

definition adapt_stealhalf :: "config \<Rightarrow> worker \<Rightarrow> worker" where
  "adapt_stealhalf cfg w =
     (if STEAL cfg = Steal_Adaptive \<and> num_recent_steals w = STEAL_ADAPTIVE_INTERVAL cfg then
        let n = num_tasks_exec w - checkpoint w; k = STEAL_ADAPTIVE_INTERVAL cfg;
            half = (if stealhalf w \<and> n < 2 * k then False
                    else if \<not> stealhalf w \<and> n = k then True else stealhalf w)
        in w\<lparr>stealhalf := half, num_recent_steals := 0, checkpoint := num_tasks_exec w\<rparr>
      else w)"

definition try_send_steal_request :: "rand_fn \<Rightarrow> config \<Rightarrow> bool \<Rightarrow> wst \<Rightarrow> wst option" where
  "try_send_steal_request rand cfg idle s = (let (w, sh) = s in
     if requested w < MAXSTEAL cfg then do {
       let w = adapt_stealhalf cfg w;
       (req, w) \<leftarrow> STEAL_REQUEST_INIT (num_workers sh) w;
       let req = req\<lparr>req_state := (if idle then STATE_IDLE else STATE_WORKING)\<rparr>;
       assertion (req_try req = 0);
       (victim, req, w) \<leftarrow> next_victim rand cfg (num_workers sh) req w;
       (w, sh) \<leftarrow> SEND_REQ_WORKER cfg victim req (w, sh);
       let w = w\<lparr>requested := requested w + 1, requests_sent := requests_sent w + 1\<rparr>;
       let w = (if STEAL cfg = Steal_Adaptive
         then if stealhalf w then w\<lparr>requests_steal_half := requests_steal_half w + 1\<rparr>
              else w\<lparr>requests_steal_one := requests_steal_one w + 1\<rparr>
         else w);
       Some (w, sh)
     } else Some (w, sh))"

text \<open>
  What a worker does with the last of its own requests when it and its subtrees are idle: the
  master detects termination; any other worker hands the request to its parent and backs off
  until it has tasks to receive.
\<close>

definition become_quiescent :: "config \<Rightarrow> steal_request \<Rightarrow> wst \<Rightarrow> wst option" where
  "become_quiescent cfg req s = (let (w, sh) = s in
     if ID w = MASTER_ID then do {
       w \<leftarrow> detect_termination w;
       w \<leftarrow> FORGET_REQ req w;
       Some (w, sh)
     } else do {
       let req = req\<lparr>req_state := STATE_FAILED\<rparr>;
       (w, sh) \<leftarrow> SEND_REQ_WORKER cfg (tree_parent (tree w)) req (w, sh);
       assertion (\<not> waiting_for_tasks (tree w));
       let w = w\<lparr>tree := (tree w)\<lparr>waiting_for_tasks := True\<rparr>\<rparr>;
       if BACKOFF cfg = Wait_Cond then do {
         chans \<leftarrow> read_at (chan_tasks sh) (nat (ID w));
         s \<leftarrow> write_at (signals sh) (nat (ID w)) False;
         Some (w\<lparr>blocked := \<not> peek chans\<rparr>, sh\<lparr>signals := s\<rparr>)
       } else Some (w, sh)
     })"

definition decline_steal_request :: "rand_fn \<Rightarrow> config \<Rightarrow> steal_request \<Rightarrow> wst \<Rightarrow> wst option" where
  "decline_steal_request rand cfg req s = (let (w, sh) = s; N = num_workers sh in do {
     assertion (req_try req < MAX_STEAL_ATTEMPTS N + 1);
     let req = req\<lparr>req_try := req_try req + 1\<rparr>;
     let w = w\<lparr>requests_declined := requests_declined w + 1\<rparr>;
     if req_ID req = ID w then
       if req_state req = STATE_IDLE \<and> left_subtree_is_idle (tree w) \<and> right_subtree_is_idle (tree w)
       then
         if MAXSTEAL cfg > 1 then
           if requested w = MAXSTEAL cfg \<and> uint (bs_top (channel_stack w)) = MAXSTEAL cfg - 1 then do {
             assertion (dropped_steal_requests w = MAXSTEAL cfg - 1);
             become_quiescent cfg req (w, sh)
           } else do {
             assertion (\<not> waiting_for_tasks (tree w));
             w \<leftarrow> CHANNEL_PUSH (req_chan req) w;
             Some (w\<lparr>dropped_steal_requests := dropped_steal_requests w + 1\<rparr>, sh)
           }
         else become_quiescent cfg req (w, sh)
       else do {
         let req = req\<lparr>req_try := 0, req_victims := INIT_VICTIMS N\<rparr>;
         (victim, req, w) \<leftarrow> next_victim rand cfg N req w;
         if victim \<noteq> ID w then SEND_REQ_WORKER cfg victim req (w, sh)
         else do {
           assertion (req_state req = STATE_WORKING);
           w \<leftarrow> FORGET_REQ req w;
           Some (w, sh)
         }
       }
     else do {
       (victim, req, w) \<leftarrow> next_victim rand cfg N req w;
       SEND_REQ_WORKER cfg victim req (w, sh)
     }
   })"

definition decline_all_steal_requests :: "rand_fn \<Rightarrow> config \<Rightarrow> wst \<Rightarrow> wst option" where
  "decline_all_steal_requests rand cfg s = do {
     (r, w, sh) \<leftarrow> RECV_REQ cfg s;
     case r of
       None \<Rightarrow> Some (w, sh)
     | Some req \<Rightarrow>
         let req = (if req_ID req = ID w \<and> req_state req = STATE_WORKING
           then req\<lparr>req_state := STATE_IDLE\<rparr> else req)
         in decline_steal_request rand cfg req (w, sh)
   }"

text \<open>
  Receiving tasks: the first task channel with a task gives it up and returns to the stack of
  channels for future requests.
\<close>

function recv_task_loop :: "nat \<Rightarrow> nat \<Rightarrow> wst \<Rightarrow> (addr option \<times> wst) option" where
  "recv_task_loop i n s = (let (w, sh) = s in
     if i < n then do {
       chans \<leftarrow> read_at (chan_tasks sh) (nat (ID w));
       q \<leftarrow> read_at chans i;
       case list_get q of
         Some (task, q) \<Rightarrow> do {
           w \<leftarrow> CHANNEL_PUSH (ID w, i) w;
           Some (Some task, w, sh\<lparr>chan_tasks := (chan_tasks sh)[nat (ID w) := chans[i := q]]\<rparr>)
         }
       | None \<Rightarrow> recv_task_loop (i + 1) n (w, sh)
     } else Some (None, w, sh))"
  by pat_completeness auto
termination
  by (relation "measure (\<lambda>(i, n, s). n - i)") auto

declare recv_task_loop.simps [simp del]

definition RECV_TASK :: "rand_fn \<Rightarrow> config \<Rightarrow> bool \<Rightarrow> wst \<Rightarrow> (addr option \<times> wst) option" where
  "RECV_TASK rand cfg idle s = do {
     (r, w, sh) \<leftarrow> recv_task_loop 0 (nat (MAXSTEAL cfg)) s;
     case r of
       None \<Rightarrow> do { s \<leftarrow> try_send_steal_request rand cfg idle (w, sh); Some (None, s) }
     | Some task \<Rightarrow> do {
         w \<leftarrow>
           (if waiting_for_tasks (tree w) then do {
              assertion (requested w = MAXSTEAL cfg);
              assertion (uint (bs_top (channel_stack w)) = MAXSTEAL cfg);
              Some (w\<lparr>requested := 1, tree := (tree w)\<lparr>waiting_for_tasks := False\<rparr>,
                dropped_steal_requests := 0\<rparr>)
            } else if MAXSTEAL cfg > 1 \<and> dropped_steal_requests w > 0 then do {
              assertion (requested w > dropped_steal_requests w);
              Some (w\<lparr>requested := requested w - dropped_steal_requests w,
                dropped_steal_requests := 0\<rparr>)
            } else Some w);
         let w = w\<lparr>requested := requested w - 1\<rparr>;
         assertion (0 \<le> requested w \<and> requested w < MAXSTEAL cfg);
         assertion (dropped_steal_requests w = 0);
         Some (Some task, w, sh)
       }
   }"

section \<open>Choosing the next victim\<close>

text \<open>The tree of a worker has the links \<open>worker_tree_init\<close> gives it.\<close>

definition tree_ok :: "int \<Rightarrow> worker \<Rightarrow> bool" where
  "tree_ok N w \<longleftrightarrow> worker_id (N - 1) (ID w) \<and> (\<exists>t. worker_tree_init (ID w) (N - 1) = Some t \<and>
     tree_left_child (tree w) = tree_left_child t \<and> tree_right_child (tree w) = tree_right_child t \<and>
     tree_parent (tree w) = tree_parent t)"

lemma tree_ok_links:
  assumes "tree_ok N w"
  shows "tree_left_child (tree w) = (if 2 * ID w + 1 \<le> N - 1 then 2 * ID w + 1 else - 1)"
    "tree_right_child (tree w) = (if 2 * ID w + 2 \<le> N - 1 then 2 * ID w + 2 else - 1)"
    "tree_parent (tree w) = (if ID w = 0 then - 1 else (ID w - 1) div 2)"
    "0 \<le> ID w" "ID w < N"
  using assms worker_tree_init_eq [of "N - 1" "ID w"] by (auto simp: tree_ok_def worker_id_def)

text \<open>The workers a worker knows to be idle.\<close>

definition known_idle :: "int \<Rightarrow> worker \<Rightarrow> int set" where
  "known_idle N w =
     (if left_subtree_is_idle (tree w) \<and> right_subtree_is_idle (tree w) then subtree (N - 1) (ID w)
      else if left_subtree_is_idle (tree w) then subtree (N - 1) (2 * ID w + 1)
      else if right_subtree_is_idle (tree w) then subtree (N - 1) (2 * ID w + 2) else {})"

lemma mark_child:
  assumes "0 \<le> c" "N \<le> 32"
  shows "\<exists>v'. mark_as_idle N v (if c \<le> N - 1 then c else - 1) = Some v' \<and>
    members v' = members v - subtree (N - 1) c"
  using mark_as_idle_members [of N c v] assms subtree_above [of c "N - 1"]
  by (auto simp: worker_id_def mark_as_idle_above)

lemma mark_known_idle:
  assumes "tree_ok N w" "N \<le> 32"
  shows "\<exists>v'. (if left_subtree_is_idle (tree w) \<and> right_subtree_is_idle (tree w)
       then mark_as_idle N v (ID w)
       else if left_subtree_is_idle (tree w) then mark_as_idle N v (tree_left_child (tree w))
       else if right_subtree_is_idle (tree w) then mark_as_idle N v (tree_right_child (tree w))
       else Some v) = Some v' \<and> members v' = members v - known_idle N w"
proof -
  note l = tree_ok_links [OF assms(1)]
  have "\<exists>v'. mark_as_idle N v (ID w) = Some v' \<and> members v' = members v - subtree (N - 1) (ID w)"
    using mark_child [of "ID w" N v] l(4,5) assms(2) by simp
  moreover have "\<exists>v'. mark_as_idle N v (tree_left_child (tree w)) = Some v' \<and>
      members v' = members v - subtree (N - 1) (2 * ID w + 1)"
    unfolding l(1) using l(4) assms(2) by (intro mark_child) simp_all
  moreover have "\<exists>v'. mark_as_idle N v (tree_right_child (tree w)) = Some v' \<and>
      members v' = members v - subtree (N - 1) (2 * ID w + 2)"
    unfolding l(2) using l(4) assms(2) by (intro mark_child) simp_all
  ultimately show ?thesis by (simp add: known_idle_def)
qed

text \<open>
  The requests a worker may pass on: its own fresh ones, which still name every worker as a
  potential victim, and those of others, which no longer name their sender.
\<close>

definition req_ok :: "int \<Rightarrow> worker \<Rightarrow> steal_request \<Rightarrow> bool" where
  "req_ok N w req \<longleftrightarrow> 0 \<le> req_ID req \<and> req_ID req < N \<and> members (req_victims req) \<subseteq> {0..<N} \<and>
     (req_ID req = ID w \<and> req_try req = 0 \<and> members (req_victims req) = {0..<N} \<or>
      req_ID req \<noteq> ID w \<and> 0 < req_try req \<and> req_try req \<le> MAX_STEAL_ATTEMPTS N \<and>
      req_ID req \<notin> members (req_victims req))"

text \<open>
  The worker a policy prefers, if any: the last victim or the last thief, of which nothing
  more is known than that they are workers.
\<close>

definition last_ok :: "int \<Rightarrow> worker \<Rightarrow> bool" where
  "last_ok N w \<longleftrightarrow> - 1 \<le> last_victim w \<and> last_victim w < N \<and> - 1 \<le> last_thief w \<and> last_thief w < N"

lemma potential_victim_spec:
  assumes rand: "rand_ok rand" and N: "0 < N" "N \<le> 32" and w: "last_ok N w"
    and v: "members (req_victims req) \<subseteq> {0..<N} - {req_ID req}" "0 \<le> req_ID req" "req_ID req < N"
  shows "\<exists>victim vs. potential_victim rand cfg N req w = Some (victim, w\<lparr>victim_sel := vs\<rparr>) \<and>
    (if req_victims req = 0 then victim = - 1 else victim \<in> members (req_victims req))"
proof -
  obtain victim vs where rv: "random_victim rand N (req_victims req) (req_ID req) (victim_sel w) = Some (victim, vs)"
    "if req_victims req = 0 then victim = - 1 else victim \<in> members (req_victims req)"
    using random_victim_spec [OF rand N v, of "victim_sel w"] by blast
  have pv: "x \<in> members (req_victims req) \<and> req_victims req \<noteq> 0"
    if "x \<noteq> - 1" "- 1 \<le> x" "x < N" "POTENTIAL_VICTIM (req_victims req) x" for x
    using that N(2) POTENTIAL_VICTIM_iff [of x "req_victims req"] by (auto simp: POTENTIAL_VICTIM_def)
  have same: "w = w\<lparr>victim_sel := victim_sel w\<rparr>" by simp
  have "potential_victim rand cfg N req w = Some (victim, w\<lparr>victim_sel := vs\<rparr>) \<or>
      (\<exists>x. (x \<in> members (req_victims req) \<and> req_victims req \<noteq> 0) \<and> potential_victim rand cfg N req w = Some (x, w))"
    using pv [of "last_victim w"] pv [of "last_thief w"] w rv(1)
    by (cases "VICTIM cfg") (auto simp: potential_victim_def Let_def last_ok_def)
  then consider (last) x where "x \<in> members (req_victims req) \<and> req_victims req \<noteq> 0" "potential_victim rand cfg N req w = Some (x, w)"
    | (random) "potential_victim rand cfg N req w = Some (victim, w\<lparr>victim_sel := vs\<rparr>)" by blast
  then show ?thesis
  proof cases
    case last
    then show ?thesis using same by (intro exI [of _ x] exI [of _ "victim_sel w"]) simp
  next
    case random
    then show ?thesis using rv(2) by blast
  qed
qed

lemma next_victim_spec:
  assumes rand: "rand_ok rand" and N: "1 < N" "N \<le> 32" and w: "tree_ok N w" "last_ok N w"
    and req: "req_ok N w req"
  shows "\<exists>victim v' vs. next_victim rand cfg N req w =
      Some (victim, req\<lparr>req_victims := v'\<rparr>, w\<lparr>victim_sel := vs\<rparr>) \<and>
    0 \<le> victim \<and> victim < N \<and> members v' \<subseteq> members (req_victims req) - {ID w} \<and>
    (victim = req_ID req \<or> victim \<in> members v' \<and> req_try req < MAX_STEAL_ATTEMPTS N \<and>
      members v' \<inter> known_idle N w = {} \<and> members v' \<subseteq> {0..<N} - {req_ID req}) \<and>
    (victim = ID w \<longrightarrow> ID w = MASTER_ID \<and> {1..<N} \<subseteq> known_idle N w)"
proof -
  note l = tree_ok_links [OF w(1)]
  let ?req = "req\<lparr>req_victims := req_victims req AND NOT (BIT (nat (ID w)))\<rparr>"
  have m: "members (req_victims ?req) = members (req_victims req) - {ID w}"
    using members_clear [of "ID w"] l(4,5) N by simp
  have r: "0 \<le> req_ID req" "req_ID req < N" "0 \<le> req_try req" "req_try req \<le> MAX_STEAL_ATTEMPTS N"
    using req N by (auto simp: req_ok_def MAX_STEAL_ATTEMPTS_def)
  show ?thesis
  proof (cases "req_try req = MAX_STEAL_ATTEMPTS N")
    case True
    then have "req_ID req \<noteq> ID w" using req N by (auto simp: req_ok_def MAX_STEAL_ATTEMPTS_def)
    moreover have "next_victim rand cfg N req w =
        Some (req_ID req, ?req, w\<lparr>victim_sel := victim_sel w\<rparr>)"
      using True r by (simp add: next_victim_def)
    ultimately show ?thesis using r m
      by (intro exI [of _ "req_ID req"] exI [of _ "req_victims ?req"] exI [of _ "victim_sel w"]) simp
  next
    case False
    obtain v' where v': "(if left_subtree_is_idle (tree w) \<and> right_subtree_is_idle (tree w)
         then mark_as_idle N (req_victims ?req) (ID w)
         else if left_subtree_is_idle (tree w) then mark_as_idle N (req_victims ?req) (tree_left_child (tree w))
         else if right_subtree_is_idle (tree w) then mark_as_idle N (req_victims ?req) (tree_right_child (tree w))
         else Some (req_victims ?req)) = Some v'" "members v' = members (req_victims ?req) - known_idle N w"
      using mark_known_idle [OF w(1) N(2)] by blast
    have sub: "members v' \<subseteq> {0..<N} - {req_ID req}"
      using v'(2) m req by (auto simp: req_ok_def)
    have npv: "\<not> POTENTIAL_VICTIM v' (ID w)"
      using POTENTIAL_VICTIM_iff [of "ID w" v'] l(4,5) N v'(2) m by auto
    have e: "req_victims (req\<lparr>req_victims := v'\<rparr>) = v'" "req_ID (req\<lparr>req_victims := v'\<rparr>) = req_ID req" by simp_all
    obtain victim vs where pv: "potential_victim rand cfg N (req\<lparr>req_victims := v'\<rparr>) w = Some (victim, w\<lparr>victim_sel := vs\<rparr>)"
      and rv: "if v' = 0 then victim = - 1 else victim \<in> members v'"
      using potential_victim_spec [OF rand _ N(2) w(2), of "req\<lparr>req_victims := v'\<rparr>" cfg, unfolded e] sub r(1,2) N(1)
      by auto
    have att: "req_try req = 0 \<and> req_ID req = ID w \<or> req_try req > 0 \<and> req_ID req \<noteq> ID w"
      using req by (auto simp: req_ok_def)
    have sub': "members v' \<subseteq> members (req_victims req) - {ID w}" using v'(2) m by auto
    show ?thesis
    proof (cases "v' = 0")
      case True
      then have vic: "victim = - 1" using rv by simp
      have ms: "ID w = MASTER_ID \<and> {1..<N} \<subseteq> known_idle N w" if own: "req_ID req = ID w"
      proof -
        have all: "{0..<N} - {ID w} \<subseteq> known_idle N w"
          using v'(2) m True req own members_empty [of v'] by (auto simp: req_ok_def)
        have ge: "ID w \<le> j" if "j \<in> known_idle N w" for j
          using that l(4) subtree_ge [of "ID w" j "N - 1"] subtree_ge [of "2 * ID w + 1" j "N - 1"]
            subtree_ge [of "2 * ID w + 2" j "N - 1"]
          by (auto simp: known_idle_def split: if_splits)
        have "ID w = 0"
        proof (rule ccontr)
          assume "ID w \<noteq> 0"
          then have "0 \<in> {0..<N} - {ID w}" using N(1) by simp
          then show False using ge [of 0] all \<open>ID w \<noteq> 0\<close> l(4) by auto
        qed
        with all show ?thesis by auto
      qed
      have "next_victim rand cfg N req w = Some (req_ID req, req\<lparr>req_victims := v'\<rparr>, w\<lparr>victim_sel := vs\<rparr>)"
        using False r att v'(1) npv pv vic True ms by (simp add: next_victim_def)
      then show ?thesis using r sub' ms by blast
    next
      case nz: False
      then have vic: "victim \<in> members v'" using rv by simp
      then have b: "0 \<le> victim" "victim < N" "victim \<noteq> ID w" "victim \<notin> known_idle N w"
        using sub sub' v'(2) by auto
      have "next_victim rand cfg N req w = Some (victim, req\<lparr>req_victims := v'\<rparr>, w\<lparr>victim_sel := vs\<rparr>)"
        using False r att v'(1) npv pv b by (simp add: next_victim_def)
      then show ?thesis using b vic sub sub' v'(2) False r(4) by fastforce
    qed
  qed
qed

section \<open>The journey of a request\<close>

text \<open>
  A request from worker to worker, as \<open>decline_steal_request\<close> passes it on: each worker it comes to
  counts the attempt and chooses the next victim, until the request is back at its sender. The
  list gives the states the workers have at each step, which may change in between in any way;
  the result is the list of the workers that passed the request on. \<open>None\<close> stands for a failed
  assertion as well as for a request that is still under way after all of the steps.
\<close>

fun journey :: "rand_fn \<Rightarrow> config \<Rightarrow> int \<Rightarrow> (int \<Rightarrow> worker) list \<Rightarrow> int \<Rightarrow> steal_request \<Rightarrow> int list option" where
  "journey rand cfg N [] v req = None"
| "journey rand cfg N (f # fs) v req = do {
     (victim, req, _) \<leftarrow> next_victim rand cfg N req (f v);
     if victim = req_ID req then Some [v]
     else do {
       vs \<leftarrow> journey rand cfg N fs victim (req\<lparr>req_try := req_try req + 1\<rparr>);
       Some (v # vs)
     }
   }"

text \<open>The states of the workers at one step.\<close>

definition workers_ok :: "int \<Rightarrow> (int \<Rightarrow> worker) \<Rightarrow> bool" where
  "workers_ok N f \<longleftrightarrow> (\<forall>v \<in> {0..<N}. ID (f v) = v \<and> tree_ok N (f v) \<and> last_ok N (f v))"

lemma journey_returns:
  assumes "rand_ok rand" "1 < N" "N \<le> 32" "\<forall>f \<in> set fs. workers_ok N f"
    and "0 \<le> v" "v < N" "\<And>f. f \<in> set fs \<Longrightarrow> req_ok N (f v) req" "fs \<noteq> []"
    and "MAX_STEAL_ATTEMPTS N - req_try req < int (length fs)"
  shows "\<exists>vs. journey rand cfg N fs v req = Some (v # vs) \<and> distinct vs \<and>
    set vs \<subseteq> members (req_victims req) - {v, req_ID req} \<and>
    int (length vs) \<le> MAX_STEAL_ATTEMPTS N - req_try req \<and>
    (\<forall>k < length vs. \<forall>j \<le> k. vs ! k \<notin> known_idle N ((fs ! j) ((v # vs) ! j))) \<and>
    (vs = [] \<and> v = req_ID req \<longrightarrow> v = MASTER_ID \<and> {1..<N} \<subseteq> known_idle N ((fs ! 0) v))"
  using assms(4-9)
proof (induction fs arbitrary: v req)
  case Nil
  then show ?case by simp
next
  case (Cons f fs)
  have f: "ID (f v) = v" "tree_ok N (f v)" "last_ok N (f v)" "req_ok N (f v) req"
    using Cons.prems by (auto simp: workers_ok_def)
  from next_victim_spec [OF assms(1-3) f(2,3,4), of cfg] obtain victim v' sel where
    nv: "next_victim rand cfg N req (f v) = Some (victim, req\<lparr>req_victims := v'\<rparr>, (f v)\<lparr>victim_sel := sel\<rparr>)"
      "0 \<le> victim" "victim < N" "members v' \<subseteq> members (req_victims req) - {v}"
    and go: "victim = req_ID req \<or> victim \<in> members v' \<and> req_try req < MAX_STEAL_ATTEMPTS N \<and>
      members v' \<inter> known_idle N (f v) = {} \<and> members v' \<subseteq> {0..<N} - {req_ID req}"
    and own: "victim = v \<longrightarrow> v = MASTER_ID \<and> {1..<N} \<subseteq> known_idle N (f v)"
    unfolding f(1) by blast
  have tr: "0 \<le> req_try req" "req_try req \<le> MAX_STEAL_ATTEMPTS N"
    using f(4) assms(2) by (auto simp: req_ok_def MAX_STEAL_ATTEMPTS_def)
  show ?case
  proof (cases "victim = req_ID req")
    case True
    then show ?thesis using nv(1) own tr by (intro exI [of _ "[]"]) auto
  next
    case False
    let ?req = "req\<lparr>req_victims := v', req_try := req_try req + 1\<rparr>"
    from go False have g: "victim \<in> members v'" "req_try req < MAX_STEAL_ATTEMPTS N"
      "members v' \<inter> known_idle N (f v) = {}" "members v' \<subseteq> {0..<N} - {req_ID req}" by auto
    have id: "ID (f' victim) = victim" if "f' \<in> set fs" for f'
      using Cons.prems(1) that nv(2,3) by (auto simp: workers_ok_def)
    have ok: "req_ok N (f' victim) ?req" if "f' \<in> set fs" for f'
      using id [OF that] g False tr f(4) by (auto simp: req_ok_def)
    have "fs \<noteq> []" using Cons.prems(6) g(2) by auto
    with Cons.IH [of victim ?req] Cons.prems nv(2,3) ok obtain vs where
      vs: "journey rand cfg N fs victim ?req = Some (victim # vs)" "distinct vs"
        "set vs \<subseteq> members v' - {victim, req_ID req}" "int (length vs) \<le> MAX_STEAL_ATTEMPTS N - req_try req - 1"
        "\<forall>k < length vs. \<forall>j \<le> k. vs ! k \<notin> known_idle N ((fs ! j) ((victim # vs) ! j))" by auto
    have "journey rand cfg N (f # fs) v req = Some (v # victim # vs)" using nv(1) vs(1) False by simp
    moreover have "distinct (victim # vs)" "int (length (victim # vs)) \<le> MAX_STEAL_ATTEMPTS N - req_try req"
      "set (victim # vs) \<subseteq> members (req_victims req) - {v, req_ID req}"
      using vs(2-4) g(1) nv(4) False by auto
    moreover have "(victim # vs) ! k \<notin> known_idle N (((f # fs) ! j) ((v # victim # vs) ! j))"
      if "k < length (victim # vs)" "j \<le> k" for j k
    proof (cases j)
      case 0
      have "(victim # vs) ! k \<in> members v'" using that(1) g(1) vs(3) nth_mem [OF that(1)] by auto
      then show ?thesis using g(3) 0 by auto
    next
      case (Suc j')
      then show ?thesis using vs(5) that by (cases k) auto
    qed
    ultimately show ?thesis by (intro exI [of _ "victim # vs"]) blast
  qed
qed

section \<open>Properties\<close>


text \<open>A worker of a runtime with \<open>N\<close> workers before it has done anything.\<close>

definition idle_worker :: "int \<Rightarrow> int \<Rightarrow> worker" where
  "idle_worker N i = \<lparr>ID = i,
     deque = \<lparr>dq_head = NULL, dq_tail = NULL, num_tasks = 0, num_steals = 0, freelist = NULL\<rparr>,
     channel_stack = \<lparr>bs_capacity = 1, bs_top = 1, bs_buffer = [Some (i, 0)]\<rparr>,
     work_sharing_requests = \<lparr>bq_capacity = 3, bq_head = 0, bq_tail = 0, bq_buffer = [None, None, None]\<rparr>,
     requested = 0, dropped_steal_requests = 0, tree = the (worker_tree_init i (N - 1)),
     last_victim = - 1, last_thief = - 1,
     victim_sel = \<lparr>vs_seed = of_int i, random_receiver_calls = 0, random_receiver_early_exits = 0\<rparr>,
     quiescent = False, num_recent_steals = 0, stealhalf = False, checkpoint = 0,
     num_tasks_exec = 0, tasking_finished = False, current_task = NULL, requests_sent = 0,
     requests_handled = 0, requests_declined = 0, tasks_sent = 0, tasks_split = 0,
     futures_converted = 0, requests_steal_one = 0, requests_steal_half = 0, blocked = False\<rparr>"

lemma idle_worker_tree: "worker_id (N - 1) i \<Longrightarrow> tree_ok N (idle_worker N i)"
  using worker_tree_init_eq [of "N - 1" i] by (simp add: tree_ok_def idle_worker_def)

definition fresh_request :: "int \<Rightarrow> int \<Rightarrow> steal_request" where
  "fresh_request N i = \<lparr>req_chan = (i, 0), req_ID = i, req_try = 0, req_victims = INIT_VICTIMS N,
     req_state = STATE_WORKING, req_stealhalf = False\<rparr>"


end
