(* ===== verification/Scheduling.thy ===== *)
theory Scheduling
  imports Stealing
begin

text \<open>
  Answering steal requests with tasks, splitting loop tasks, sharing work with children, and the
  operations user code reaches: \<^verbatim>\<open>RT_push\<close>, \<^verbatim>\<open>RT_pop\<close>, \<^verbatim>\<open>RT_poll\<close>, and the loops that run tasks
  (\<^verbatim>\<open>src/runtime.c\<close>, \<^verbatim>\<open>src/tasking_internal.h\<close>).
\<close>

text \<open>
  What the runtime is linked with: \<^verbatim>\<open>rand_r\<close>, the contents of fresh memory, and the address of
  \<^verbatim>\<open>RT_EXIT_FN\<close>.
\<close>

record env =
  env_rand :: rand_fn
  env_junk :: task
  env_bytes :: "nat \<Rightarrow> byte"
  env_exit_fn :: addr
  env_refusals :: "nat list"

section \<open>Splitting loop tasks\<close>

text \<open>\<^verbatim>\<open>/\<close> on \<^verbatim>\<open>long\<close> truncates towards zero.\<close>

definition split_half :: "task \<Rightarrow> int" where
  "split_half t = t_cur t + (t_end t - t_cur t) sdiv 2"

definition split_guided :: "int \<Rightarrow> task \<Rightarrow> int option" where
  "split_guided N t = do {
     let iters_left = \<bar>t_end t - t_cur t\<bar>;
     assertion (iters_left > 1);
     let chunk = max (\<bar>t_end t - t_start t\<bar> sdiv N) 1;
     Some (if iters_left \<le> chunk then split_half t else t_end t - chunk)
   }"

text \<open>The number of requests waiting, the one in hand included.\<close>

definition num_idle :: "config \<Rightarrow> wst \<Rightarrow> int option" where
  "num_idle cfg s = (let (w, sh) = s; N = num_workers sh in do {
     q \<leftarrow> read_at (chan_requests sh) (nat (ID w));
     let n = int (length q) + 1;
     if BACKOFF cfg = No_Backoff then Some n
     else do {
       n \<leftarrow> (if left_subtree_is_idle (tree w) then do {
           l \<leftarrow> left_child (ID w) (N - 1);
           k \<leftarrow> COUNT_REQ N (chan_requests sh) l 0;
           Some (n + uint k)
         } else Some n);
       (if right_subtree_is_idle (tree w) then do {
          r \<leftarrow> right_child (ID w) (N - 1);
          k \<leftarrow> COUNT_REQ N (chan_requests sh) r 0;
          Some (n + uint k)
        } else Some n)
     }
   })"

definition split_adaptive :: "config \<Rightarrow> wst \<Rightarrow> task \<Rightarrow> int option" where
  "split_adaptive cfg s t = do {
     let iters_left = \<bar>t_end t - t_cur t\<bar>;
     assertion (iters_left > 1);
     num_idle \<leftarrow> num_idle cfg s;
     let chunk = max (iters_left sdiv (num_idle + 1)) 1;
     assertion (iters_left > chunk);
     Some (t_end t - chunk)
   }"

definition SPLIT_FUNC :: "config \<Rightarrow> wst \<Rightarrow> task \<Rightarrow> int option" where
  "SPLIT_FUNC cfg s t =
     (case SPLIT cfg of
        Split_Half \<Rightarrow> Some (split_half t)
      | Split_Guided \<Rightarrow> split_guided (num_workers (snd s)) t
      | Split_Adaptive \<Rightarrow> split_adaptive cfg s t)"

text \<open>
  Sending a task over a task channel, which holds one: the result says whether it was accepted.
\<close>

definition send_task :: "chan_ref \<Rightarrow> addr \<Rightarrow> shared \<Rightarrow> (bool \<times> shared) option" where
  "send_task chan task sh = (let (i, j) = chan in do {
     assertion (0 \<le> i);
     chans \<leftarrow> read_at (chan_tasks sh) (nat i);
     q \<leftarrow> read_at chans j;
     case list_put 1 task q of
       Some q \<Rightarrow> Some (True, sh\<lparr>chan_tasks := (chan_tasks sh)[nat i := chans[j := q]]\<rparr>)
     | None \<Rightarrow> Some (False, sh)
   })"

text \<open>
  The future of the other half of a split task: a new node in the list of futures of the
  current task, with a converted future, whose address replaces the one in the data of \<open>dup\<close>.
\<close>

definition patch_future :: "env \<Rightarrow> addr \<Rightarrow> wst \<Rightarrow> wst option" where
  "patch_future env dup s = (let (w, sh) = s in do {
     let (p, sh) = malloc sh;
     let (f, sh) = malloc sh;
     let (c, sh) = malloc sh;
     assertion (p \<noteq> NULL \<and> f \<noteq> NULL);
     let channels = (case channel_new (c \<noteq> NULL) True (env_bytes env) 32 0 SPSC of
         Some ch \<Rightarrow> (fm_channels (fut_mem sh))(c \<mapsto> ch) | None \<Rightarrow> fm_channels (fut_mem sh));
     let futures = (fm_futures (fut_mem sh))(f \<mapsto>
         \<lparr>lf_val = FChan c, has_channel = True, fut_set = False\<rparr>);
     let w = w\<lparr>futures_converted := futures_converted w + 1\<rparr>;
     h \<leftarrow> assign (task_mem sh) dup (\<lambda>d. d\<lparr>t_data := bytes_of_ptr f @ drop 8 (t_data d)\<rparr>);
     this \<leftarrow> deref h (get_current_task w);
     let nodes = (fut_nodes sh)(p \<mapsto>
         \<lparr>fn_f = f, fn_r = NULL, fn_await = NULL, fn_next = t_futures this\<rparr>);
     h \<leftarrow> assign h (get_current_task w) (\<lambda>t. t\<lparr>t_futures := p\<rparr>);
     h \<leftarrow> assign h dup (\<lambda>d. d\<lparr>t_futures := NULL\<rparr>);
     Some (w, sh\<lparr>task_mem := h, fut_mem := \<lparr>fm_futures = futures, fm_channels = channels\<rparr>,
       fut_nodes := nodes\<rparr>)
   })"

definition split_loop :: "env \<Rightarrow> config \<Rightarrow> addr \<Rightarrow> steal_request \<Rightarrow> wst \<Rightarrow> wst option" where
  "split_loop env cfg task req s = do {
     assertion (req_ID req \<noteq> ID (fst s));
     (dup, w, sh) \<leftarrow> RT_task_alloc (env_junk env) s;
     t \<leftarrow> deref (task_mem sh) task;
     h \<leftarrow> assign (task_mem sh) dup (\<lambda>_. t);
     split \<leftarrow> SPLIT_FUNC cfg (w, sh) t;
     h \<leftarrow> assign h dup (\<lambda>d. d\<lparr>t_start := split, t_cur := split, t_end := t_end t\<rparr>);
     h \<leftarrow> (if VICTIM cfg = Last_Victim then assign h dup (\<lambda>d. d\<lparr>t_victim := ID w\<rparr>) else Some h);
     let sh = sh\<lparr>task_mem := h\<rparr>;
     (w, sh) \<leftarrow> (if t_has_future t then patch_future env dup (w, sh) else Some (w, sh));
     (_, sh) \<leftarrow> send_task (req_chan req) dup sh;
     let w = w\<lparr>requests_handled := requests_handled w + 1, tasks_sent := tasks_sent w + 1\<rparr>;
     let w = (if VICTIM cfg = Last_Thief then w\<lparr>last_thief := req_ID req\<rparr> else w);
     h \<leftarrow> assign (task_mem sh) task (\<lambda>t. t\<lparr>t_end := split\<rparr>);
     Some (w\<lparr>tasks_split := tasks_split w + 1\<rparr>, sh\<lparr>task_mem := h\<rparr>)
   }"

section \<open>Answering steal requests\<close>

text \<open>\<^verbatim>\<open>FUTURE_CONVERT\<close> allocates a channel only for a future that has none.\<close>

definition convert_future :: "env \<Rightarrow> task \<Rightarrow> shared \<Rightarrow> shared option" where
  "convert_future env t sh = do {
     fut \<leftarrow> deref (fm_futures (fut_mem sh)) (future_of_task t);
     let (p, sh) = (if has_channel fut then (NULL, sh) else malloc sh);
     m \<leftarrow> FUTURE_CONVERT p (env_bytes env) t (fut_mem sh);
     Some (sh\<lparr>fut_mem := m\<rparr>)
   }"

partial_function (option) convert_futures :: "env \<Rightarrow> addr \<Rightarrow> wst \<Rightarrow> wst option" where
  "convert_futures env t s =
     (if t \<noteq> NULL then do {
        x \<leftarrow> deref (task_mem (snd s)) t;
        s \<leftarrow> (if t_has_future x then do {
            sh \<leftarrow> convert_future env x (snd s);
            Some ((fst s)\<lparr>futures_converted := futures_converted (fst s) + 1\<rparr>, sh)
          } else Some s);
        convert_futures env (t_next x) s
      } else Some s)"

text \<open>The tasks a request gets: the first one and how many there are.\<close>

definition steal_tasks :: "config \<Rightarrow> steal_request \<Rightarrow> wst \<Rightarrow> (addr \<times> int \<times> wst) option" where
  "steal_tasks cfg req s = (let (w, sh) = s in
     if STEAL cfg = Steal_Half \<or> STEAL cfg = Steal_Adaptive \<and> req_stealhalf req then do {
       (task, stolen, dq, h) \<leftarrow> deque_steal_half_2 (task_mem sh) (deque w);
       let loot = (case stolen of Some n \<Rightarrow> n | None \<Rightarrow> 1);
       Some (task, loot, w\<lparr>deque := dq\<rparr>, sh\<lparr>task_mem := h\<rparr>)
     } else do {
       (task, dq, h) \<leftarrow> deque_steal (task_mem sh) (deque w);
       Some (task, 1, w\<lparr>deque := dq\<rparr>, sh\<lparr>task_mem := h\<rparr>)
     })"

definition threshold :: "config \<Rightarrow> uint" where
  "threshold cfg = (case STEAL_EARLY_THRESHOLD cfg of Some n \<Rightarrow> n | None \<Rightarrow> 0)"

definition handle_steal_request ::
  "env \<Rightarrow> config \<Rightarrow> steal_request \<Rightarrow> wst \<Rightarrow> wst option"
where
  "handle_steal_request env cfg req s = (let (w, sh) = s in
     if req_ID req = ID w then do {
       assertion (req_state req \<noteq> STATE_FAILED);
       tasks_left \<leftarrow>
         (if get_current_task w = NULL then Some 0
          else do {
            t \<leftarrow> deref (task_mem sh) (get_current_task w);
            Some (if t_splittable t then \<bar>t_end t - t_cur t\<bar> else 0)
          });
       if deque_num_tasks (deque w) > threshold cfg \<or> tasks_left > uint (threshold cfg) then do {
         w \<leftarrow> FORGET_REQ req w;
         Some (w, sh)
       } else decline_steal_request (env_rand env) cfg req (w, sh)
     } else do {
       (task, loot, w, sh) \<leftarrow> steal_tasks cfg req (w, sh);
       if task \<noteq> NULL then do {
         h \<leftarrow> (if VICTIM cfg = Last_Victim then assign (task_mem sh) task (\<lambda>t. t\<lparr>t_victim := ID w\<rparr>)
           else Some (task_mem sh));
         (w, sh) \<leftarrow> convert_futures env task (w, sh\<lparr>task_mem := h\<rparr>);
         (_, sh) \<leftarrow> send_task (req_chan req) task sh;
         let w = w\<lparr>requests_handled := requests_handled w + 1, tasks_sent := tasks_sent w + of_int loot\<rparr>;
         let w = (if VICTIM cfg = Last_Thief then w\<lparr>last_thief := req_ID req\<rparr> else w);
         Some (w, sh)
       } else do {
         assertion (deque_empty (deque w));
         decline_steal_request (env_rand env) cfg req (w, sh)
       }
     })"

definition handle :: "env \<Rightarrow> config \<Rightarrow> steal_request \<Rightarrow> wst \<Rightarrow> (bool \<times> wst) option" where
  "handle env cfg req s = (let (w, sh) = s; this = get_current_task w in
     if \<not> deque_empty (deque w) then do {
       s \<leftarrow> handle_steal_request env cfg req (w, sh);
       Some (True, s)
     } else do {
       splittable \<leftarrow> SPLITTABLE (task_mem sh) this;
       if splittable then
         if req_ID req \<noteq> ID w then do { s \<leftarrow> split_loop env cfg this req (w, sh); Some (True, s) }
         else do { w \<leftarrow> FORGET_REQ req w; Some (False, w, sh) }
       else if req_state req = STATE_FAILED then do {
         assertion (req_ID req = tree_left_child (tree w) \<or> req_ID req = tree_right_child (tree w));
         Some (False, w, sh)
       } else do {
         s \<leftarrow> decline_steal_request (env_rand env) cfg req (w, sh);
         Some (False, s)
       }
     })"

text \<open>
  After sharing work with a child its subtree is no longer idle; with \<^verbatim>\<open>BACKOFF=wait_cond\<close> the child is
  woken up.
\<close>

definition reactivate :: "config \<Rightarrow> steal_request \<Rightarrow> wst \<Rightarrow> wst option" where
  "reactivate cfg req s = (let (w, sh) = s in do {
     w \<leftarrow>
       (if req_ID req = tree_left_child (tree w) then do {
          assertion (left_subtree_is_idle (tree w));
          Some (w\<lparr>tree := (tree w)\<lparr>left_subtree_is_idle := False\<rparr>\<rparr>)
        } else do {
          assertion (right_subtree_is_idle (tree w));
          Some (w\<lparr>tree := (tree w)\<lparr>right_subtree_is_idle := False\<rparr>\<rparr>)
        });
     sh \<leftarrow> (if BACKOFF cfg = Wait_Cond then SIGNAL (req_ID req) sh else Some sh);
     w \<leftarrow> DEQUEUE_WORK_SHARING_REQUEST w;
     Some (w, sh)
   })"

partial_function (option) share_work :: "env \<Rightarrow> config \<Rightarrow> wst \<Rightarrow> wst option" where
  "share_work env cfg s =
     (if \<not> bounded_queue_empty (work_sharing_requests (fst s)) then do {
        req \<leftarrow> NEXT_WORK_SHARING_REQUEST (fst s);
        assertion (req_ID req = tree_left_child (tree (fst s)) \<or>
          req_ID req = tree_right_child (tree (fst s)));
        (work, s) \<leftarrow> handle env cfg req s;
        if work then do { s \<leftarrow> reactivate cfg req s; share_work env cfg s } else Some s
      } else Some s)"

section \<open>Entry points\<close>

text \<open>The loops that receive requests and handle them.\<close>

partial_function (option) poll_loop :: "env \<Rightarrow> config \<Rightarrow> wst \<Rightarrow> wst option" where
  "poll_loop env cfg s = do {
     (r, s) \<leftarrow> RECV_REQ cfg s;
     case r of
       None \<Rightarrow> Some s
     | Some req \<Rightarrow> do { (_, s) \<leftarrow> handle env cfg req s; poll_loop env cfg s }
   }"

definition RT_poll :: "env \<Rightarrow> config \<Rightarrow> wst \<Rightarrow> wst option" where
  "RT_poll env cfg s = do {
     (w, sh) \<leftarrow> share_work env cfg s;
     pending \<leftarrow> PEEK_REQ cfg (num_workers sh) (chan_requests sh) (ID w) 0;
     if pending then poll_loop env cfg (w, sh) else Some (w, sh)
   }"

partial_function (option) handle_loop :: "env \<Rightarrow> config \<Rightarrow> wst \<Rightarrow> wst option" where
  "handle_loop env cfg s = do {
     (r, s) \<leftarrow> RECV_REQ cfg s;
     case r of
       None \<Rightarrow> Some s
     | Some req \<Rightarrow> do { s \<leftarrow> handle_steal_request env cfg req s; handle_loop env cfg s }
   }"

definition RT_push :: "env \<Rightarrow> config \<Rightarrow> addr \<Rightarrow> wst \<Rightarrow> wst option" where
  "RT_push env cfg task s = (let (w, sh) = s in do {
     (dq, h) \<leftarrow> deque_push (task_mem sh) (deque w) task;
     let w = w\<lparr>deque := dq\<rparr>;
     let sh = sh\<lparr>task_mem := h\<rparr>;
     w \<leftarrow> (if quiescent w then do {
         assertion (ID w = MASTER_ID);
         Some (w\<lparr>quiescent := False\<rparr>)
       } else Some w);
     s \<leftarrow> share_work env cfg (w, sh);
     handle_loop env cfg s
   })"

definition try_steal :: "env \<Rightarrow> config \<Rightarrow> uint \<Rightarrow> wst \<Rightarrow> wst option" where
  "try_steal env cfg early s =
     (if num_workers (snd s) = 1 then Some s
      else if deque_num_tasks (deque (fst s)) \<le> early
      then try_send_steal_request (env_rand env) cfg False s
      else Some s)"

partial_function (option) pop_loop :: "env \<Rightarrow> config \<Rightarrow> addr \<Rightarrow> wst \<Rightarrow> wst option" where
  "pop_loop env cfg task s = do {
     (r, s) \<leftarrow> RECV_REQ cfg s;
     case r of
       None \<Rightarrow> Some s
     | Some req \<Rightarrow> do {
         let (w, sh) = s;
         splittable \<leftarrow> SPLITTABLE (task_mem sh) task;
         s \<leftarrow>
           (if deque_empty (deque w) \<and> splittable then
              if req_ID req \<noteq> ID w then split_loop env cfg task req (w, sh)
              else do { w \<leftarrow> FORGET_REQ req w; Some (w, sh) }
            else handle_steal_request env cfg req (w, sh));
         pop_loop env cfg task s
       }
   }"

definition RT_pop :: "env \<Rightarrow> config \<Rightarrow> bool \<Rightarrow> wst \<Rightarrow> (addr \<times> wst) option" where
  "RT_pop env cfg children s = (let (w, sh) = s in do {
     (task, dq, h) \<leftarrow>
       (if children then deque_pop_child (task_mem sh) (deque w) (get_current_task w)
        else deque_pop (task_mem sh) (deque w));
     let w = w\<lparr>deque := dq\<rparr>;
     let sh = sh\<lparr>task_mem := h\<rparr>;
     s \<leftarrow>
       (case STEAL_EARLY_THRESHOLD cfg of
          None \<Rightarrow> Some (w, sh)
        | Some early \<Rightarrow>
            if task \<noteq> NULL then do {
              t \<leftarrow> deref (task_mem sh) task;
              if \<not> t_splittable t then try_steal env cfg early (w, sh) else Some (w, sh)
            } else Some (w, sh));
     s \<leftarrow> share_work env cfg s;
     s \<leftarrow> pop_loop env cfg task s;
     Some (task, s)
   })"

section \<open>Shutting down\<close>

definition async_action :: "env \<Rightarrow> config \<Rightarrow> addr \<Rightarrow> chan_ref \<Rightarrow> wst \<Rightarrow> wst option" where
  "async_action env cfg fn chan s = do {
     (dummy, w, sh) \<leftarrow> RT_task_alloc (env_junk env) s;
     h \<leftarrow> assign (task_mem sh) dummy (\<lambda>t. t\<lparr>t_fn := fn\<rparr>);
     h \<leftarrow> (if VICTIM cfg = Last_Victim then assign h dummy (\<lambda>t. t\<lparr>t_victim := - 1\<rparr>) else Some h);
     (ret, sh) \<leftarrow> send_task chan dummy (sh\<lparr>task_mem := h\<rparr>);
     assertion ret;
     Some (w, sh)
   }"

definition notify_child :: "env \<Rightarrow> config \<Rightarrow> int \<Rightarrow> wst \<Rightarrow> wst option" where
  "notify_child env cfg child s =
     (if child \<noteq> - 1 then do {
        (w, sh) \<leftarrow> async_action env cfg (env_exit_fn env) (child, 0) s;
        sh \<leftarrow> (if BACKOFF cfg = Wait_Cond then SIGNAL child sh else Some sh);
        Some (w, sh)
      } else Some s)"

definition RT_EXIT_FN :: "env \<Rightarrow> config \<Rightarrow> wst \<Rightarrow> wst option" where
  "RT_EXIT_FN env cfg s = do {
     let w = fst s;
     assertion (\<not> tasking_finished w);
     assertion (left_subtree_is_idle (tree w) \<and> right_subtree_is_idle (tree w));
     assertion (ID w = MASTER_ID \<longrightarrow> quiescent w);
     s \<leftarrow> notify_child env cfg (tree_left_child (tree w)) s;
     s \<leftarrow> notify_child env cfg (tree_right_child (tree w)) s;
     let w = fst s;
     let w = (if ID w \<noteq> MASTER_ID then w\<lparr>num_tasks_exec := num_tasks_exec w - 1\<rparr> else w);
     Some (w\<lparr>tasking_finished := True\<rparr>, snd s)
   }"

datatype RT_async_action_t = RT_EXIT

definition RT_async_action :: "env \<Rightarrow> config \<Rightarrow> RT_async_action_t \<Rightarrow> wst \<Rightarrow> wst option" where
  "RT_async_action env cfg action s = (case action of RT_EXIT \<Rightarrow> RT_EXIT_FN env cfg s)"

section \<open>Running tasks\<close>

text \<open>
  \<^verbatim>\<open>run_task\<close> is what happens before and after the call of the task's function; the function
  itself is code of the application, which calls the runtime in turn. The number of iterations of a
  loop task is a \<^verbatim>\<open>long\<close> that is stored in an \<^verbatim>\<open>int\<close>.
\<close>

definition run_task_enter :: "addr \<Rightarrow> wst \<Rightarrow> addr \<times> wst" where
  "run_task_enter task s = (get_current_task (fst s), set_current_task task (fst s), snd s)"

definition run_task_leave :: "addr \<Rightarrow> addr \<Rightarrow> wst \<Rightarrow> wst option" where
  "run_task_leave task this s = (let (w, sh) = s; w = set_current_task this w in do {
     t \<leftarrow> deref (task_mem sh) task;
     Some (if t_splittable t
       then w\<lparr>num_tasks_exec := num_tasks_exec w + signed_take_bit 31 \<bar>t_end t - t_start t\<bar>\<rparr>
       else w\<lparr>num_tasks_exec := num_tasks_exec w + 1\<rparr>, sh)
   })"

text \<open>The task object is recycled once the task has run.\<close>

definition finish_task :: "addr \<Rightarrow> addr \<Rightarrow> wst \<Rightarrow> wst option" where
  "finish_task task this s = do {
     (w, sh) \<leftarrow> run_task_leave task this s;
     (dq, h) \<leftarrow> deque_task_cache (task_mem sh) (deque w) task;
     Some (w\<lparr>deque := dq\<rparr>, sh\<lparr>task_mem := h\<rparr>)
   }"

text \<open>What follows the receipt of tasks in all scheduling loops; the result is the task to run.\<close>

definition accept_tasks :: "env \<Rightarrow> config \<Rightarrow> addr \<Rightarrow> wst \<Rightarrow> (addr \<times> wst) option" where
  "accept_tasks env cfg task s = (let (w, sh) = s in do {
     t \<leftarrow> deref (task_mem sh) task;
     w \<leftarrow> (if VICTIM cfg = Last_Victim \<and> t_victim t \<noteq> - 1 then do {
         assertion (t_victim t \<noteq> ID w);
         Some (w\<lparr>last_victim := t_victim t\<rparr>)
       } else Some w);
     (task, w, sh) \<leftarrow>
       (if t_next t \<noteq> NULL then do {
          (dq, h) \<leftarrow> deque_prepend_list (task_mem sh) (deque w) task;
          (task, dq, h) \<leftarrow> deque_pop h dq;
          Some (task, w\<lparr>deque := dq\<rparr>, sh\<lparr>task_mem := h\<rparr>)
        } else Some (task, w, sh));
     let w = (if STEAL cfg = Steal_Adaptive then w\<lparr>num_recent_steals := num_recent_steals w + 1\<rparr> else w);
     s \<leftarrow> share_work env cfg (w, sh);
     Some (task, s)
   })"

end
