(* ===== verification/Splitting.thy ===== *)
theory Splitting
  imports Scheduling
begin

text \<open>
  Loop tasks: the split functions cut an iteration range into two nonempty parts, splitting a task
  hands one of them to the thief, and a loop that is split while it runs still has every
  iteration executed once (\<^verbatim>\<open>src/runtime.c\<close>, \<^verbatim>\<open>ASYNC_FOR\<close> of \<^verbatim>\<open>include/async_internal.h\<close>).
\<close>

section \<open>Where ranges are split\<close>

text \<open>The parts of the state that handlers rely on whatever the workers are doing.\<close>

definition wst_ok :: "wst \<Rightarrow> bool" where
  "wst_ok s \<longleftrightarrow> (let (w, sh) = s; N = num_workers sh in
     1 \<le> N \<and> N \<le> 32 \<and> tree_ok N w \<and> length (chan_requests sh) = nat N \<and>
     length (chan_tasks sh) = nat N)"

lemma sdiv_nonneg: "0 \<le> a \<Longrightarrow> 0 < b \<Longrightarrow> (a :: int) sdiv b = a div b"
  by (simp add: signed_divide_int_def sgn_if)

lemma split_half_between:
  assumes "t_end t - t_cur t > 1"
  shows "t_cur t < split_half t \<and> split_half t < t_end t"
proof -
  let ?n = "t_end t - t_cur t"
  have "split_half t = t_cur t + ?n div 2" using assms by (simp add: split_half_def sdiv_nonneg)
  moreover have "0 < ?n div 2" "?n div 2 < ?n" using assms by auto
  ultimately show ?thesis by linarith
qed

lemma split_guided_between:
  assumes "t_end t - t_cur t > 1"
  shows "\<exists>split. split_guided N t = Some split \<and> t_cur t < split \<and> split < t_end t"
  using assms split_half_between [OF assms]
  by (auto simp: split_guided_def Let_def)

lemma idle_child_count:
  assumes "wst_ok (w, sh)" "c = 2 * ID w + 1 \<or> c = 2 * ID w + 2"
  shows "COUNT_REQ (num_workers sh) (chan_requests sh)
    (if c \<le> num_workers sh - 1 then c else - 1) 0 = Some 0"
proof -
  let ?N = "num_workers sh"
  have ok: "1 \<le> ?N" "0 \<le> ID w" "?N \<le> int (length (chan_requests sh))"
    using assms(1) tree_ok_links(4) [of ?N w] by (auto simp: wst_ok_def Let_def)
  show ?thesis
  proof (cases "c \<le> ?N - 1")
    case True
    then show ?thesis using ok assms(2) COUNT_REQ_zero [of c ?N "chan_requests sh" c 0] by auto
  next
    case False
    then show ?thesis using ok by (subst COUNT_REQ.simps) simp
  qed
qed

text \<open>Because \<open>COUNT_REQ\<close> counts nothing, only requests in the worker's own channel matter.\<close>

lemma num_idle_eq:
  assumes "wst_ok (w, sh)"
  shows "num_idle cfg (w, sh) = Some (int (length (chan_requests sh ! nat (ID w))) + 1)"
proof -
  let ?N = "num_workers sh"
  have ok: "worker_id (?N - 1) (ID w)" "nat (ID w) < length (chan_requests sh)"
    using assms tree_ok_links(4,5) [of ?N w] by (auto simp: wst_ok_def Let_def worker_id_def)
  show ?thesis
    using idle_child_count [OF assms, of "2 * ID w + 1"] idle_child_count [OF assms, of "2 * ID w + 2"]
      ok(2) left_child_eq [OF ok(1)] right_child_eq [OF ok(1)]
    by (simp add: num_idle_def Let_def)
qed

lemma split_adaptive_chunk:
  assumes "wst_ok s" "\<bar>t_end t - t_cur t\<bar> > 1"
  shows "\<exists>chunk. split_adaptive cfg s t = Some (t_end t - chunk) \<and> 0 < chunk \<and> chunk < \<bar>t_end t - t_cur t\<bar>"
proof -
  obtain w sh where s: "s = (w, sh)" by (cases s)
  let ?left = "\<bar>t_end t - t_cur t\<bar>" and ?k = "int (length (chan_requests sh ! nat (ID w))) + 1"
  have "?left div (?k + 1) \<le> ?left div 2" by (rule zdiv_mono2) auto
  also have "\<dots> < ?left" using assms(2) by simp
  finally have lt: "max (?left div (?k + 1)) 1 < ?left" using assms(2) by simp
  have "split_adaptive cfg s t = Some (t_end t - max (?left div (?k + 1)) 1)"
    using num_idle_eq [of w sh cfg] assms s lt
    by (simp add: split_adaptive_def Let_def sdiv_nonneg)
  with lt show ?thesis by (intro exI [of _ "max (?left div (?k + 1)) 1"]) simp
qed

lemma SPLIT_FUNC_between:
  assumes "wst_ok s" "t_end t - t_cur t > 1"
  shows "\<exists>split. SPLIT_FUNC cfg s t = Some split \<and> t_cur t < split \<and> split < t_end t"
proof (cases "SPLIT cfg")
  case Split_Half
  then show ?thesis using split_half_between [OF assms(2)] by (simp add: SPLIT_FUNC_def)
next
  case Split_Guided
  then show ?thesis using split_guided_between [OF assms(2)] by (simp add: SPLIT_FUNC_def)
next
  case Split_Adaptive
  then show ?thesis
    using split_adaptive_chunk [of s t cfg] assms by (auto simp: SPLIT_FUNC_def)
qed

section \<open>Splitting a task\<close>

text \<open>Allocation succeeds when the free list has a task object or \<^verbatim>\<open>malloc\<close> returns a fresh one.\<close>

definition can_alloc :: "shared \<Rightarrow> addr list \<Rightarrow> bool" where
  "can_alloc sh fs \<longleftrightarrow> fs \<noteq> [] \<or>
     (\<exists>p ps. mallocs sh = p # ps \<and> p \<noteq> NULL \<and> task_mem sh p = None)"

definition mallocs_left :: "shared \<Rightarrow> addr list \<Rightarrow> addr list" where
  "mallocs_left sh fs = (if fs = [] then tl (mallocs sh) else mallocs sh)"

lemma RT_task_alloc_rel:
  assumes rel: "deque_rel (task_mem sh) (deque w) ts fs" and ok: "can_alloc sh fs"
  shows "\<exists>x dq h fs'. RT_task_alloc junk (w, sh) =
      Some (x, w\<lparr>deque := dq\<rparr>, sh\<lparr>task_mem := h, mallocs := mallocs_left sh fs\<rparr>) \<and>
    deque_rel h dq ts fs' \<and> x \<notin> nodes dq ts fs' \<and> dq_tail dq = dq_tail (deque w) \<and>
    (\<exists>t. deref h x = Some t \<and> t = zeroed t) \<and> (\<forall>a. a \<noteq> x \<longrightarrow> h a = task_mem sh a) \<and>
    (x \<in> set fs \<or> task_mem sh x = None) \<and> set fs' \<subseteq> set fs"
proof (cases fs)
  case Nil
  then obtain p ps where p: "mallocs sh = p # ps" "p \<noteq> NULL" "task_mem sh p = None"
    using ok by (auto simp: can_alloc_def)
  have fl: "freelist (deque w) = NULL" using deque_rel_D(2) [OF rel] Nil by simp
  let ?h = "(task_mem sh)(p \<mapsto> zeroed junk)"
  have pn: "p \<notin> nodes (deque w) ts fs"
    using deque_rel_live [OF rel, of p] p by (auto simp: deref_def)
  have "RT_task_alloc junk (w, sh) = Some (p, w\<lparr>deque := deque w\<rparr>, sh\<lparr>task_mem := ?h, mallocs := ps\<rparr>)"
    using fl p by (simp add: RT_task_alloc_def malloc_def deque_task_new_def task_new_eq)
  moreover have "mallocs_left sh fs = ps" using p(1) Nil by (simp add: mallocs_left_def)
  moreover have "deque_rel ?h (deque w) ts fs"
    using deque_rel_frame [OF rel, of ?h] pn by auto
  ultimately show ?thesis using pn p by (intro exI conjI) (auto simp: zeroed_def)
next
  case (Cons x fs')
  from deque_task_new_cached [OF rel [unfolded Cons], of NULL junk] obtain dq h t where
    d: "deque_task_new NULL junk (task_mem sh) (deque w) = Some (x, dq, h)" "deque_rel h dq ts fs'"
      "dq_tail dq = dq_tail (deque w)" "deref h x = Some t" "t = zeroed t" "\<forall>a. a \<noteq> x \<longrightarrow> h a = task_mem sh a"
    by blast
  have "freelist (deque w) \<noteq> NULL"
    using deque_rel_D(2) [OF rel] Cons by auto
  then have "RT_task_alloc junk (w, sh) = Some (x, w\<lparr>deque := dq\<rparr>, sh\<lparr>task_mem := h, mallocs := mallocs sh\<rparr>)"
    using d(1) by (simp add: RT_task_alloc_def)
  moreover have "mallocs_left sh fs = mallocs sh" using Cons by (simp add: mallocs_left_def)
  moreover have "x \<notin> nodes dq ts fs'"
    using deque_rel_D(5) [OF rel] Cons d(3) by (auto simp: nodes_def)
  ultimately show ?thesis using d Cons by fastforce
qed

lemma send_task_empty:
  assumes "0 \<le> i" "nat i < length (chan_tasks sh)" "j < length (chan_tasks sh ! nat i)"
    and "chan_tasks sh ! nat i ! j = []"
  shows "send_task (i, j) task sh =
    Some (True, sh\<lparr>chan_tasks := (chan_tasks sh)[nat i := (chan_tasks sh ! nat i)[j := [task]]]\<rparr>)"
  using assms by (simp add: send_task_def list_put_def)

lemma SPLIT_FUNC_cong:
  assumes "num_workers sh' = num_workers sh" "chan_requests sh' = chan_requests sh"
  shows "SPLIT_FUNC cfg (w\<lparr>deque := dq\<rparr>, sh') t = SPLIT_FUNC cfg (w, sh) t"
  using assms by (simp add: SPLIT_FUNC_def split_adaptive_def num_idle_def Let_def split: split_strategy.split cong: if_cong)

text \<open>
  A descending range \<open>end + 1 < cur\<close>, which has no iterations but passes the test of
  \<open>SPLITTABLE\<close>, is cut strictly inside its bounds by \<open>split_half\<close>, and below them by
  \<open>split_adaptive\<close>; \<open>split_guided\<close> does either.
\<close>

lemma split_half_descending:
  assumes "t_end t + 1 < t_cur t"
  shows "t_end t < split_half t \<and> split_half t < t_cur t"
proof -
  let ?n = "t_cur t - t_end t"
  have "(t_end t - t_cur t) sdiv 2 = - (?n div 2)" using assms by (simp add: signed_divide_int_def sgn_if)
  then have "split_half t = t_cur t - ?n div 2" by (simp add: split_half_def)
  moreover have "0 < ?n div 2" "?n div 2 < ?n" using assms by auto
  ultimately show ?thesis by linarith
qed

lemma SPLIT_FUNC_total:
  assumes "wst_ok s" "\<bar>t_end t - t_cur t\<bar> > 1"
  shows "\<exists>split. SPLIT_FUNC cfg s t = Some split \<and>
    (t_cur t < t_end t \<longrightarrow> t_cur t < split \<and> split < t_end t) \<and>
    (t_end t < t_cur t \<longrightarrow> split < t_cur t \<and> (SPLIT cfg = Split_Half \<longrightarrow> t_end t < split) \<and>
      (SPLIT cfg = Split_Adaptive \<longrightarrow> split < t_end t))"
proof (cases "t_cur t < t_end t")
  case True
  then show ?thesis using SPLIT_FUNC_between [OF assms(1), of t cfg] assms(2) by auto
next
  case False
  then have lt: "t_end t + 1 < t_cur t" using assms(2) by linarith
  then have half: "t_end t < split_half t" "split_half t < t_cur t"
    using split_half_descending by auto
  show ?thesis
  proof (cases "SPLIT cfg")
    case Split_Half
    then show ?thesis using half lt by (auto simp: SPLIT_FUNC_def)
  next
    case Split_Guided
    then show ?thesis using half lt by (auto simp: SPLIT_FUNC_def split_guided_def Let_def)
  next
    case Split_Adaptive
    then show ?thesis using split_adaptive_chunk [OF assms, of cfg] lt by (auto simp: SPLIT_FUNC_def)
  qed
qed

section \<open>The future of the other half\<close>

text \<open>
  What \<open>patch_future\<close> allocates: a node, a future and its channel, and what it relies on: the
  current task is alive. It is the task that is split, when it is split while it runs, or
  another one, when it has just been popped.
\<close>

definition can_patch :: "worker \<Rightarrow> shared \<Rightarrow> addr list \<Rightarrow> addr \<Rightarrow> addr \<Rightarrow> addr \<Rightarrow> bool" where
  "can_patch w sh ms p f c \<longleftrightarrow> take 3 ms = [p, f, c] \<and> p \<noteq> NULL \<and> f \<noteq> NULL \<and> c \<noteq> NULL \<and>
     fut_nodes sh p = None \<and> fm_futures (fut_mem sh) f = None \<and> fm_channels (fut_mem sh) c = None \<and>
     deref (task_mem sh) (current_task w) \<noteq> None"

text \<open>The memory after patching: the new future is a converted one with an empty channel.\<close>

definition patched :: "addr \<Rightarrow> addr \<Rightarrow> addr \<Rightarrow> addr \<Rightarrow> shared \<Rightarrow> shared \<Rightarrow> bool" where
  "patched p f c next sh sh' \<longleftrightarrow>
     fut_nodes sh' = (fut_nodes sh)(p \<mapsto> \<lparr>fn_f = f, fn_r = NULL, fn_await = NULL, fn_next = next\<rparr>) \<and>
     (\<exists>ch. converted f c ch (fut_mem sh') \<and> chan_inv ch \<and> chan_slots ch = [] \<and> ch_itemsize ch = 32) \<and>
     fm_futures (fut_mem sh) \<subseteq>\<^sub>m fm_futures (fut_mem sh') \<and>
     fm_channels (fut_mem sh) \<subseteq>\<^sub>m fm_channels (fut_mem sh')"

lemma take_3_eq: "take 3 xs = [a, b, c] \<Longrightarrow> \<exists>ys. xs = a # b # c # ys"
  by (cases xs; cases "tl xs"; cases "tl (tl xs)") (auto simp: numeral_3_eq_3)

lemma patch_future_ok:
  assumes can: "can_patch w sh (mallocs sh) p f c" and dup: "deref (task_mem sh) dup = Some d"
    and cur: "deref (task_mem sh) (current_task w) = Some u" "current_task w \<noteq> dup"
  shows "\<exists>w' sh'. patch_future env dup (w, sh) = Some (w', sh') \<and> deque w' = deque w \<and> ID w' = ID w \<and>
    task_mem sh' = (task_mem sh)(dup \<mapsto> d\<lparr>t_data := bytes_of_ptr f @ drop 8 (t_data d), t_futures := NULL\<rparr>,
      current_task w \<mapsto> u\<lparr>t_futures := p\<rparr>) \<and>
    chan_tasks sh' = chan_tasks sh \<and> patched p f c (t_futures u) sh sh'"
proof -
  have can': "take 3 (mallocs sh) = [p, f, c]" "p \<noteq> NULL" "f \<noteq> NULL" "c \<noteq> NULL"
    "fm_futures (fut_mem sh) f = None" "fm_channels (fut_mem sh) c = None"
    using can by (auto simp: can_patch_def)
  obtain ms where ms: "mallocs sh = p # f # c # ms" using take_3_eq [OF can'(1)] by blast
  obtain ch where ch: "channel_new True True (env_bytes env) 32 0 SPSC = Some ch"
    by (simp add: channel_new_def Let_def)
  have inv: "chan_inv ch \<and> chan_slots ch = [] \<and> ch_itemsize ch = 32"
    using channel_new_inv [OF ch] by simp
  define fut where "fut = \<lparr>lf_val = FChan c, has_channel = True, fut_set = False\<rparr>"
  define mm where "mm = \<lparr>fm_futures = (fm_futures (fut_mem sh))(f \<mapsto> fut), fm_channels = (fm_channels (fut_mem sh))(c \<mapsto> ch)\<rparr>"
  define nm where "nm = (fut_nodes sh)(p \<mapsto> \<lparr>fn_f = f, fn_r = NULL, fn_await = NULL, fn_next = t_futures u\<rparr>)"
  let ?h = "(task_mem sh)(dup \<mapsto> d\<lparr>t_data := bytes_of_ptr f @ drop 8 (t_data d), t_futures := NULL\<rparr>,
      current_task w \<mapsto> u\<lparr>t_futures := p\<rparr>)"
  have live: "dup \<noteq> NULL" "current_task w \<noteq> NULL" "task_mem sh dup = Some d" "task_mem sh (current_task w) = Some u"
    using dup cur by (auto simp: deref_def split: if_splits)
  have m1: "malloc sh = (p, sh\<lparr>mallocs := f # c # ms\<rparr>)"
    "malloc (sh\<lparr>mallocs := f # c # ms\<rparr>) = (f, sh\<lparr>mallocs := c # ms\<rparr>)"
    "malloc (sh\<lparr>mallocs := c # ms\<rparr>) = (c, sh\<lparr>mallocs := ms\<rparr>)"
    using ms by (simp_all add: malloc_def)
  have "patch_future env dup (w, sh) = Some (w\<lparr>futures_converted := futures_converted w + 1\<rparr>,
      sh\<lparr>mallocs := ms, task_mem := ?h, fut_mem := mm, fut_nodes := nm\<rparr>)"
    using live cur(2) can'(2-4) ch
    by (simp add: patch_future_def m1 Let_def get_current_task_def assign_def deref_def mm_def nm_def fut_def
        fun_upd_twist)
  moreover have "converted f c ch mm"
    using can'(3,4) by (simp add: converted_def mm_def fut_def new_future_def deref_def)
  moreover have "fm_futures (fut_mem sh) \<subseteq>\<^sub>m fm_futures mm" "fm_channels (fut_mem sh) \<subseteq>\<^sub>m fm_channels mm"
    using can'(5,6) by (auto simp: mm_def map_le_def)
  ultimately show ?thesis using inv by (auto simp: patched_def nm_def)
qed

text \<open>Both cases of the branch on \<open>has_future\<close> in \<open>split_loop\<close>.\<close>

lemma split_loop_patch:
  assumes dup: "deref (task_mem sh) dup = Some d" and task: "deref (task_mem sh) task = Some t" "dup \<noteq> task"
    and fut: "b \<Longrightarrow> can_patch w sh (mallocs sh) p f c \<and> current_task w \<noteq> dup"
  shows "\<exists>w' sh'. (if b then patch_future env dup (w, sh) else Some (w, sh)) = Some (w', sh') \<and>
    deque w' = deque w \<and> ID w' = ID w \<and> chan_tasks sh' = chan_tasks sh \<and>
    deref (task_mem sh') dup =
      Some (if b then d\<lparr>t_data := bytes_of_ptr f @ drop 8 (t_data d), t_futures := NULL\<rparr> else d) \<and>
    deref (task_mem sh') task = Some (if b \<and> current_task w = task then t\<lparr>t_futures := p\<rparr> else t) \<and>
    (\<forall>a. a \<noteq> dup \<and> (b \<longrightarrow> a \<noteq> current_task w) \<longrightarrow> task_mem sh' a = task_mem sh a) \<and>
    (if b then map_option t_futures (deref (task_mem sh') (current_task w)) = Some p \<and>
        (\<exists>u. deref (task_mem sh) (current_task w) = Some u \<and> patched p f c (t_futures u) sh sh')
     else fut_mem sh' = fut_mem sh \<and> fut_nodes sh' = fut_nodes sh)"
proof (cases b)
  case False
  then show ?thesis using assms by simp
next
  case True
  with fut obtain u where u: "deref (task_mem sh) (current_task w) = Some u"
    by (auto simp: can_patch_def)
  from patch_future_ok [OF _ dup u] True fut obtain w' sh' where
    p: "patch_future env dup (w, sh) = Some (w', sh')" "deque w' = deque w" "ID w' = ID w"
      "chan_tasks sh' = chan_tasks sh" "patched p f c (t_futures u) sh sh'" and
    h: "task_mem sh' = (task_mem sh)(dup \<mapsto> d\<lparr>t_data := bytes_of_ptr f @ drop 8 (t_data d), t_futures := NULL\<rparr>,
      current_task w \<mapsto> u\<lparr>t_futures := p\<rparr>)" by blast
  have "current_task w \<noteq> dup" using True fut by simp
  then have "deref (task_mem sh') dup = Some (d\<lparr>t_data := bytes_of_ptr f @ drop 8 (t_data d), t_futures := NULL\<rparr>)"
    "map_option t_futures (deref (task_mem sh') (current_task w)) = Some p"
    "deref (task_mem sh') task = Some (if current_task w = task then t\<lparr>t_futures := p\<rparr> else t)"
    using h dup u task by (auto simp: deref_def split: if_splits)
  with True p u h show ?thesis by simp
qed

text \<open>The steps of \<open>split_loop\<close> one after another.\<close>

definition upper_half :: "config \<Rightarrow> int \<Rightarrow> int \<Rightarrow> task \<Rightarrow> task" where
  "upper_half cfg i split t = (let d = t\<lparr>t_start := split, t_cur := split, t_end := t_end t\<rparr>
     in if VICTIM cfg = Last_Victim then d\<lparr>t_victim := i\<rparr> else d)"

lemma split_loop_steps:
  assumes "req_ID req \<noteq> ID w" "RT_task_alloc (env_junk env) (w, sh) = Some (dup, w1, sh0)"
    and "deref (task_mem sh0) task = Some t" "deref (task_mem sh0) dup \<noteq> None"
    and "SPLIT_FUNC cfg (w1, sh0) t = Some split"
    and "sh1 = sh0\<lparr>task_mem := (task_mem sh0)(dup \<mapsto> upper_half cfg (ID w1) split t)\<rparr>"
    and "(if t_has_future t then patch_future env dup (w1, sh1) else Some (w1, sh1)) = Some (w2, sh2)"
    and "send_task (req_chan req) dup sh2 = Some (b, sh3)"
    and "assign (task_mem sh3) task (\<lambda>t. t\<lparr>t_end := split\<rparr>) = Some h"
  shows "\<exists>w'. split_loop env cfg task req (w, sh) = Some (w', sh3\<lparr>task_mem := h\<rparr>) \<and> deque w' = deque w2"
proof -
  have dup: "dup \<noteq> NULL" using assms(4) by auto
  have a1: "assign (task_mem sh0) dup (\<lambda>_. t) = Some ((task_mem sh0)(dup \<mapsto> t))"
    using assms(4) by (auto simp: assign_def)
  define hv where "hv = (task_mem sh0)(dup \<mapsto> t, dup \<mapsto> t\<lparr>t_start := split, t_cur := split, t_end := t_end t\<rparr>)"
  have a2: "assign ((task_mem sh0)(dup \<mapsto> t)) dup (\<lambda>d. d\<lparr>t_start := split, t_cur := split, t_end := t_end t\<rparr>) = Some hv"
    using dup by (simp add: assign_def deref_def hv_def)
  have a3: "(if VICTIM cfg = Last_Victim then assign hv dup (\<lambda>d. d\<lparr>t_victim := ID w1\<rparr>) else Some hv) = Some (task_mem sh1)"
    using dup assms(6) by (simp add: assign_def deref_def hv_def upper_half_def Let_def)
  have a4: "sh0\<lparr>task_mem := task_mem sh1\<rparr> = sh1" using assms(6) by simp
  show ?thesis
    unfolding split_loop_def
    by (simp only: assms(1,2,3,5,7,8,9) a1 a2 a3 a4 assertion_def bind.bind_lunit Let_def prod.case fst_conv snd_conv
        simp_thms if_True)
      (simp split: if_split)
qed

lemma split_loop_outcome:
  assumes t: "deref (task_mem sh) task = Some t"
    and s: "SPLIT_FUNC cfg (w, sh) t = Some split"
    and fut: "t_has_future t \<Longrightarrow> can_patch w sh (mallocs_left sh fs) p f c \<and> current_task w \<notin> nodes (deque w) ts fs"
    and req: "req_ID req \<noteq> ID w" "req_chan req = (i, j)" "0 \<le> i" "nat i < length (chan_tasks sh)"
      "j < length (chan_tasks sh ! nat i)" "chan_tasks sh ! nat i ! j = []"
    and rel: "deque_rel (task_mem sh) (deque w) ts fs" and task: "task \<notin> nodes (deque w) ts fs"
    and alloc: "can_alloc sh fs"
  shows "\<exists>dup d w' sh'. split_loop env cfg task req (w, sh) = Some (w', sh') \<and>
    dup \<noteq> task \<and>
    deref (task_mem sh') task = Some (t\<lparr>t_end := split,
      t_futures := (if t_has_future t \<and> current_task w = task then p else t_futures t)\<rparr>) \<and>
    deref (task_mem sh') dup = Some d \<and> t_start d = split \<and> t_cur d = split \<and> t_end d = t_end t \<and>
    t_splittable d = t_splittable t \<and> t_has_future d = t_has_future t \<and> t_fn d = t_fn t \<and>
    t_data d = (if t_has_future t then bytes_of_ptr f @ drop 8 (t_data t) else t_data t) \<and>
    t_futures d = (if t_has_future t then NULL else t_futures t) \<and>
    (if t_has_future t then future_of_task d = f \<and>
        map_option t_futures (deref (task_mem sh') (current_task w)) = Some p \<and>
        (\<exists>u. deref (task_mem sh) (current_task w) = Some u \<and> patched p f c (t_futures u) sh sh')
     else fut_mem sh' = fut_mem sh \<and> fut_nodes sh' = fut_nodes sh) \<and>
    chan_tasks sh' = (chan_tasks sh)[nat i := (chan_tasks sh ! nat i)[j := [dup]]] \<and>
    (\<exists>fs'. deque_rel (task_mem sh') (deque w') ts fs')"
proof -
  define ms where "ms = mallocs_left sh fs"
  from RT_task_alloc_rel [OF rel alloc, of "env_junk env"] obtain dup dq h fs' where
    a: "RT_task_alloc (env_junk env) (w, sh) = Some (dup, w\<lparr>deque := dq\<rparr>, sh\<lparr>task_mem := h, mallocs := ms\<rparr>)"
    and r: "deque_rel h dq ts fs'" "dup \<notin> nodes dq ts fs'" "dq_tail dq = dq_tail (deque w)"
    and d: "\<exists>d. deref h dup = Some d \<and> d = zeroed d" "\<forall>a. a \<noteq> dup \<longrightarrow> h a = task_mem sh a"
    and f: "dup \<in> set fs \<or> task_mem sh dup = None" "set fs' \<subseteq> set fs" unfolding ms_def by blast
  have live: "x \<noteq> dup" if "deref (task_mem sh) x \<noteq> None" "x \<notin> nodes (deque w) ts fs" for x
    using f(1) that by (auto simp: nodes_def deref_def split: if_splits)
  have ne: "dup \<noteq> task" using live [of task] t task by auto
  obtain d0 where d0: "deref h dup = Some d0" using d(1) by blast
  then have dn: "dup \<noteq> NULL" by auto
  have t': "deref h task = Some t" using t d(2) ne by (auto simp: deref_def split: if_splits)
  have s': "SPLIT_FUNC cfg (w\<lparr>deque := dq\<rparr>, sh\<lparr>task_mem := h, mallocs := ms\<rparr>) t = Some split"
    using s SPLIT_FUNC_cong [of "sh\<lparr>task_mem := h, mallocs := ms\<rparr>" sh cfg dq w t] by simp
  define d1 where "d1 = upper_half cfg (ID w) split t"
  define sh1 where "sh1 = sh\<lparr>task_mem := h(dup \<mapsto> d1), mallocs := ms\<rparr>"
  have at1: "deref (task_mem sh1) dup = Some d1" "deref (task_mem sh1) task = Some t"
    using t' dn ne by (auto simp: sh1_def deref_def split: if_splits)
  have cur1: "can_patch (w\<lparr>deque := dq\<rparr>) sh1 (mallocs sh1) p f c \<and> current_task (w\<lparr>deque := dq\<rparr>) \<noteq> dup" if "t_has_future t"
  proof -
    have "deref (task_mem sh) (current_task w) \<noteq> None" using fut [OF that] by (auto simp: can_patch_def)
    then have "current_task w \<noteq> dup" using live fut [OF that] by auto
    then show ?thesis using fut [OF that] d(2) by (auto simp: can_patch_def sh1_def ms_def deref_def)
  qed
  define w1 where "w1 = w\<lparr>deque := dq\<rparr>"
  have cw: "current_task w1 = current_task w" "deque w1 = dq" by (simp_all add: w1_def)
  have "t_has_future t \<Longrightarrow> can_patch w1 sh1 (mallocs sh1) p f c \<and> current_task w1 \<noteq> dup"
    using cur1 by (simp add: w1_def)
  from split_loop_patch [where env = env, OF at1 ne this] obtain w2 sh2 where
    p2: "(if t_has_future t then patch_future env dup (w1, sh1) else Some (w1, sh1)) = Some (w2, sh2)"
      "deque w2 = dq" "chan_tasks sh2 = chan_tasks sh1"
    and at2: "deref (task_mem sh2) dup = Some (if t_has_future t
        then d1\<lparr>t_data := bytes_of_ptr f @ drop 8 (t_data d1), t_futures := NULL\<rparr> else d1)"
      "deref (task_mem sh2) task = Some (if t_has_future t \<and> current_task w = task then t\<lparr>t_futures := p\<rparr> else t)"
    and oth: "\<forall>a. a \<noteq> dup \<and> (t_has_future t \<longrightarrow> a \<noteq> current_task w) \<longrightarrow> task_mem sh2 a = task_mem sh1 a"
    and fut2: "if t_has_future t then map_option t_futures (deref (task_mem sh2) (current_task w)) = Some p \<and>
        (\<exists>u. deref (task_mem sh1) (current_task w) = Some u \<and> patched p f c (t_futures u) sh1 sh2)
     else fut_mem sh2 = fut_mem sh1 \<and> fut_nodes sh2 = fut_nodes sh1"
    unfolding cw by blast
  define d2 where "d2 = (if t_has_future t
        then d1\<lparr>t_data := bytes_of_ptr f @ drop 8 (t_data d1), t_futures := NULL\<rparr> else d1)"
  define t2 where "t2 = t\<lparr>t_end := split,
      t_futures := (if t_has_future t \<and> current_task w = task then p else t_futures t)\<rparr>"
  define chans where "chans = (chan_tasks sh)[nat i := (chan_tasks sh ! nat i)[j := [dup]]]"
  define h' where "h' = (task_mem sh2)(task \<mapsto> t2)"
  have send: "send_task (i, j) dup sh2 = Some (True, sh2\<lparr>chan_tasks := chans\<rparr>)"
    using send_task_empty [of i sh2 j dup] req(3-6) p2(3) by (simp add: chans_def sh1_def)
  have tn: "task \<noteq> NULL" using t by auto
  have heap2: "assign (task_mem sh2) task (\<lambda>t. t\<lparr>t_end := split\<rparr>) = Some h'"
    using at2(2) tn by (auto simp: assign_def h'_def t2_def)
  obtain w' where "split_loop env cfg task req (w, sh) = Some (w', sh2\<lparr>chan_tasks := chans, task_mem := h'\<rparr>)" "deque w' = dq"
    using split_loop_steps [OF req(1) a [folded w1_def], of task t cfg split sh1 w2 sh2 True "sh2\<lparr>chan_tasks := chans\<rparr>" h']
      t' d0 s' p2(1,2) send heap2 req(2) by (auto simp: sh1_def d1_def w1_def)
  then obtain sh' where w': "split_loop env cfg task req (w, sh) = Some (w', sh')" "deque w' = dq"
      "task_mem sh' = h'" "chan_tasks sh' = chans" "fut_mem sh' = fut_mem sh2" "fut_nodes sh' = fut_nodes sh2" by simp
  have "h' a = h a" if "a \<in> nodes dq ts fs'" for a
  proof -
    have "a \<in> nodes (deque w) ts fs" using that f(2) r(3) by (auto simp: nodes_def)
    then have "a \<noteq> task" "t_has_future t \<longrightarrow> a \<noteq> current_task w" using task fut by auto
    moreover have "a \<noteq> dup" using r(2) that by auto
    ultimately show ?thesis using oth by (simp add: h'_def sh1_def)
  qed
  then have rel': "deque_rel h' dq ts fs'" by (intro deque_rel_frame [OF r(1)]) auto
  have at': "deref h' dup = Some d2" "deref h' task = Some t2"
    using at2 ne tn by (auto simp: h'_def d2_def deref_def split: if_splits)
  have futures: "if t_has_future t then future_of_task d2 = f \<and>
        map_option t_futures (deref h' (current_task w)) = Some p \<and>
        (\<exists>u. deref (task_mem sh) (current_task w) = Some u \<and> patched p f c (t_futures u) sh sh')
     else fut_mem sh' = fut_mem sh \<and> fut_nodes sh' = fut_nodes sh"
  proof (cases "t_has_future t")
    case False
    then show ?thesis using fut2 w'(5,6) by (simp add: sh1_def)
  next
    case True
    from True fut2 obtain u where u: "deref (task_mem sh1) (current_task w) = Some u" "patched p f c (t_futures u) sh1 sh2"
      by auto
    have "deref (task_mem sh) (current_task w) = Some u"
      using u(1) cur1 [OF True] d(2) by (auto simp: sh1_def deref_def split: if_splits)
    moreover have "patched p f c (t_futures u) sh sh'" using u(2) w'(5,6) by (simp add: patched_def sh1_def)
    moreover have "map_option t_futures (deref h' (current_task w)) = Some p"
      using fut2 True by (auto simp: h'_def t2_def deref_def split: if_splits)
    moreover have "future_of_task d2 = f"
      using True by (simp add: d2_def future_of_task_def ptr_bytes_roundtrip)
    ultimately show ?thesis using True by simp
  qed
  have fields: "t_start d2 = split" "t_cur d2 = split" "t_end d2 = t_end t" "t_splittable d2 = t_splittable t"
    "t_has_future d2 = t_has_future t" "t_fn d2 = t_fn t"
    "t_data d2 = (if t_has_future t then bytes_of_ptr f @ drop 8 (t_data t) else t_data t)"
    "t_futures d2 = (if t_has_future t then NULL else t_futures t)"
    by (simp_all add: d2_def d1_def upper_half_def Let_def)
  have kept: "deref (task_mem sh') task = Some (t\<lparr>t_end := split,
      t_futures := (if t_has_future t \<and> current_task w = task then p else t_futures t)\<rparr>)"
    using at'(2) w'(3) by (simp add: t2_def)
  show ?thesis
    by (intro exI conjI) (rule w'(1) ne kept at'(1) [folded w'(3)] fields futures [folded w'(3)]
      w'(4) [unfolded chans_def] rel' [folded w'(2,3)])+
qed

section \<open>Properties\<close>

text \<open>
  Property C32. Splitting a loop task that the test of \<open>SPLITTABLE\<close> lets through, by any of the three
  strategies and with or without a future, fails no assertion. If it has iterations left, they
  are partitioned: the task keeps a nonempty lower part and a new task with the same function
  gets the nonempty rest and is sent to the thief. If the range descends, so that there are no
  iterations, halving creates none, but the adaptive strategy gives the thief a task with
  iterations below the range. A task without a future is copied with its data; the copy of one with a
  future gets a new future, converted to a channel that is still empty, whose node becomes the
  head of the list of futures of the current task and is not shared with the copy. The tasks in
  the deque stay as they are.
\<close>

theorem split_loop_partitions:
  assumes ok: "wst_ok (w, sh)" and t: "deref (task_mem sh) task = Some t"
    and iters: "\<bar>t_end t - t_cur t\<bar> > 1"
    and fut: "t_has_future t \<Longrightarrow> can_patch w sh (mallocs_left sh fs) p f c \<and> current_task w \<notin> nodes (deque w) ts fs"
    and req: "req_ID req \<noteq> ID w" "req_chan req = (i, j)" "0 \<le> i" "nat i < length (chan_tasks sh)"
      "j < length (chan_tasks sh ! nat i)" "chan_tasks sh ! nat i ! j = []"
    and rel: "deque_rel (task_mem sh) (deque w) ts fs" and task: "task \<notin> nodes (deque w) ts fs"
    and alloc: "can_alloc sh fs"
  shows "\<exists>split dup d w' sh'. SPLIT_FUNC cfg (w, sh) t = Some split \<and>
    split_loop env cfg task req (w, sh) = Some (w', sh') \<and>
    (t_cur t < t_end t \<longrightarrow> t_cur t < split \<and> split < t_end t) \<and>
    (t_end t < t_cur t \<longrightarrow> split < t_cur t \<and> (SPLIT cfg = Split_Half \<longrightarrow> t_end t < split) \<and>
      (SPLIT cfg = Split_Adaptive \<longrightarrow> split < t_end t)) \<and>
    dup \<noteq> task \<and>
    deref (task_mem sh') task = Some (t\<lparr>t_end := split,
      t_futures := (if t_has_future t \<and> current_task w = task then p else t_futures t)\<rparr>) \<and>
    deref (task_mem sh') dup = Some d \<and> t_start d = split \<and> t_cur d = split \<and> t_end d = t_end t \<and>
    t_splittable d = t_splittable t \<and> t_has_future d = t_has_future t \<and> t_fn d = t_fn t \<and>
    t_data d = (if t_has_future t then bytes_of_ptr f @ drop 8 (t_data t) else t_data t) \<and>
    t_futures d = (if t_has_future t then NULL else t_futures t) \<and>
    (if t_has_future t then future_of_task d = f \<and>
        map_option t_futures (deref (task_mem sh') (current_task w)) = Some p \<and>
        (\<exists>u. deref (task_mem sh) (current_task w) = Some u \<and> patched p f c (t_futures u) sh sh')
     else fut_mem sh' = fut_mem sh \<and> fut_nodes sh' = fut_nodes sh) \<and>
    chan_tasks sh' = (chan_tasks sh)[nat i := (chan_tasks sh ! nat i)[j := [dup]]] \<and>
    (\<exists>fs'. deque_rel (task_mem sh') (deque w') ts fs')"
proof -
  obtain split where s: "SPLIT_FUNC cfg (w, sh) t = Some split" "t_cur t < t_end t \<longrightarrow> t_cur t < split \<and> split < t_end t"
    "t_end t < t_cur t \<longrightarrow> split < t_cur t \<and> (SPLIT cfg = Split_Half \<longrightarrow> t_end t < split) \<and>
      (SPLIT cfg = Split_Adaptive \<longrightarrow> split < t_end t)"
    using SPLIT_FUNC_total [OF ok iters, of cfg] by blast
  from split_loop_outcome [OF t s(1) fut req rel task alloc, of env] s show ?thesis by (intro exI [of _ split]) simp
qed

text \<open>A worker that runs the loop task at address 80, \<open>[0, 10)\<close> with four iterations begun.\<close>

definition looping :: wst where
  "looping =
     (let w = (idle_worker 2 0)\<lparr>deque := \<lparr>dq_head = 16, dq_tail = 16, num_tasks = 0, num_steals = 0,
        freelist = NULL\<rparr>, current_task := 80\<rparr>
      in (w, \<lparr>num_workers = 2, chan_requests = [[], []], chan_tasks = [[[]], [[]]],
        task_mem = [16 \<mapsto> blank_task\<lparr>t_fn := dummy_fn\<rparr>,
          80 \<mapsto> blank_task\<lparr>t_splittable := True, t_cur := 4, t_end := 10\<rparr>],
        fut_mem = \<lparr>fm_futures = Map.empty, fm_channels = Map.empty\<rparr>, fut_nodes = Map.empty,
        mallocs = [96], signals = [False, False], refusals = []\<rparr>))"

lemma looping_ok: "wst_ok looping"
  using idle_worker_tree [of 2 0]
  by (simp add: wst_ok_def looping_def Let_def tree_ok_def idle_worker_def worker_id_def)

text \<open>The same worker when the task has a future, the one at address 200.\<close>

definition loop_with_future :: task where
  "loop_with_future = blank_task\<lparr>t_splittable := True, t_cur := 4, t_end := 10, t_has_future := True,
     t_data := bytes_of_ptr 200\<rparr>"

definition looping_future :: wst where
  "looping_future = (fst looping, (snd looping)\<lparr>task_mem := (task_mem (snd looping))(80 \<mapsto> loop_with_future),
     mallocs := [96, 104, 112, 120]\<rparr>)"

theorem split_loop_partitions_witness:
  "\<exists>split dup d w' sh'. split_loop \<lparr>env_rand = (\<lambda>s. (0, s)), env_junk = blank_task,
      env_bytes = (\<lambda>_. 0), env_exit_fn = 8, env_refusals = []\<rparr> default_config 80 (fresh_request 2 1) looping_future = Some (w', sh') \<and>
    4 < split \<and> split < 10 \<and> chan_tasks sh' = [[[]], [[dup]]] \<and>
    map_option t_end (deref (task_mem sh') 80) = Some split \<and>
    deref (task_mem sh') dup = Some d \<and> t_start d = split \<and> future_of_task d = 112"
proof -
  let ?env = "\<lparr>env_rand = (\<lambda>s. (0, s)), env_junk = blank_task,
      env_bytes = (\<lambda>_. 0), env_exit_fn = 8, env_refusals = []\<rparr> :: env"
  let ?w = "fst looping_future" and ?sh = "snd looping_future"
  have 1: "wst_ok (?w, ?sh)" using looping_ok by (simp add: wst_ok_def looping_future_def Let_def case_prod_beta)
  have 2: "deref (task_mem ?sh) 80 = Some loop_with_future" by (simp add: looping_future_def deref_def)
  have 3: "\<bar>t_end loop_with_future - t_cur loop_with_future\<bar> > 1" "t_has_future loop_with_future"
    by (simp_all add: loop_with_future_def)
  have 4: "deque_rel (task_mem ?sh) (deque ?w) [] []" "80 \<notin> nodes (deque ?w) [] []" "current_task ?w = 80"
    by (simp_all add: looping_future_def looping_def Let_def deque_rel_def nodes_def deref_def blank_task_def)
  have 5: "can_alloc ?sh []" by (simp add: can_alloc_def looping_future_def looping_def Let_def)
  have 6: "can_patch ?w ?sh (mallocs_left ?sh []) 104 112 120"
    by (simp add: can_patch_def mallocs_left_def looping_future_def looping_def Let_def deref_def)
  have 7: "req_ID (fresh_request 2 1) \<noteq> ID ?w" "req_chan (fresh_request 2 1) = (1, 0)" "chan_tasks ?sh = [[[]], [[]]]"
    by (simp_all add: fresh_request_def looping_future_def looping_def Let_def idle_worker_def)
  from split_loop_partitions [where fs = "[]" and ts = "[]" and p = 104 and f = 112 and c = 120 and env = ?env and cfg = default_config, OF 1 2 3(1) _ 7(1,2)] 3 4 5 6 7(3)
  have "\<exists>split dup d w' sh'. split_loop ?env default_config 80 (fresh_request 2 1) (?w, ?sh) = Some (w', sh') \<and>
    4 < split \<and> split < 10 \<and> chan_tasks sh' = [[[]], [[dup]]] \<and>
    map_option t_end (deref (task_mem sh') 80) = Some split \<and>
    deref (task_mem sh') dup = Some d \<and> t_start d = split \<and> future_of_task d = 112"
    by (auto simp: loop_with_future_def)
  then show ?thesis by simp
qed

text \<open>
  The split function of the default build takes absolute distances, so a loop
  task over an empty range whose bounds are given in descending order counts as splittable, and
  splitting it creates a task with iterations, all below the range: iterations that the loop
  does not have are executed.
\<close>

theorem empty_range_splits:
  assumes "wst_ok s" "deref (task_mem (snd s)) p = Some t" "t_splittable t" "t_end t + 1 < t_cur t"
    "SPLIT cfg = Split_Adaptive"
  shows "SPLITTABLE (task_mem (snd s)) p = Some True \<and>
    (\<exists>split. SPLIT_FUNC cfg s t = Some split \<and> {split..<t_end t} \<noteq> {} \<and> {t_cur t..<t_end t} = {})"
proof -
  have "p \<noteq> NULL" using assms(2) by auto
  then show ?thesis
    using assms split_adaptive_chunk [OF assms(1), of t cfg]
    by (auto simp: SPLITTABLE_def SPLIT_FUNC_def)
qed

theorem empty_range_splits_witness:
  "\<exists>split < 0. SPLIT_FUNC default_config looping (blank_task\<lparr>t_splittable := True, t_cur := 10, t_end := 0\<rparr>) =
    Some split"
proof -
  let ?t = "blank_task\<lparr>t_splittable := True, t_cur := 10, t_end := 0\<rparr>"
  let ?s = "(fst looping, (snd looping)\<lparr>task_mem := [80 \<mapsto> ?t]\<rparr>)"
  have "wst_ok ?s" using looping_ok by (simp add: wst_ok_def Let_def case_prod_beta)
  from empty_range_splits [OF this, of 80 ?t default_config] obtain split where
    "SPLIT_FUNC default_config ?s ?t = Some split" "{split..<t_end ?t} \<noteq> {}"
    by (auto simp: deref_def default_config_def)
  moreover have "SPLIT_FUNC default_config ?s ?t = SPLIT_FUNC default_config looping ?t"
    using SPLIT_FUNC_cong [of "snd ?s" "snd looping" default_config "deque (fst looping)" "fst looping" ?t] by simp
  ultimately show ?thesis by auto
qed

end
