(* ===== verification/Machine.thy ===== *)
theory Machine
  imports Splitting
begin

text \<open>
  The workers as interleaved machines. Every worker has a stack of activations: the scheduling
  loop (\<^verbatim>\<open>schedule\<close>, \<^verbatim>\<open>RT_barrier\<close>), the code of the tasks it runs, and waits for futures
  (\<^verbatim>\<open>RT_force_future\<close>), which run other tasks in turn. A step is one call into the runtime, or one
  pass from one such call of a loop to the next; steps of different workers interleave.
\<close>

section \<open>Scheduling loops\<close>

text \<open>
  The points of \<^verbatim>\<open>schedule\<close> and \<^verbatim>\<open>RT_barrier\<close> between calls into the runtime. \<open>Resume task this stolen\<close>
  is the point after the function of \<open>task\<close> returns; \<open>this\<close> is the task that was
  running before.
\<close>

datatype sched_pc =
  Pop | Send_Request | Receive | Decline | Accept addr | Resume addr addr bool | Leave

text \<open>
  The result of a step: where the loop goes on, the task whose function is called, if any,
  and the state.
\<close>

type_synonym 'pc outcome = "('pc \<times> addr option \<times> wst) option"

definition call_task :: "addr \<Rightarrow> (addr \<Rightarrow> 'pc) \<Rightarrow> wst \<Rightarrow> 'pc outcome" where
  "call_task task pc s = (let (this, s) = run_task_enter task s in Some (pc this, Some task, s))"

definition go :: "'pc \<Rightarrow> wst \<Rightarrow> 'pc outcome" where
  "go pc s = Some (pc, None, s)"

fun schedule_step :: "env \<Rightarrow> config \<Rightarrow> sched_pc \<Rightarrow> wst \<Rightarrow> sched_pc outcome" where
  "schedule_step env cfg Pop s = do {
     (task, s) \<leftarrow> RT_pop env cfg False s;
     if task \<noteq> NULL then call_task task (\<lambda>this. Resume task this False) s
     else go Send_Request s
   }"
| "schedule_step env cfg Send_Request s = do {
     s \<leftarrow> try_send_steal_request (env_rand env) cfg True s;
     assertion (requested (fst s) \<noteq> 0);
     go Receive s
   }"
| "schedule_step env cfg Receive s = do {
     (r, s) \<leftarrow> RECV_TASK (env_rand env) cfg True s;
     case r of
       Some task \<Rightarrow> go (Accept task) s
     | None \<Rightarrow> do {
         assertion (deque_empty (deque (fst s)));
         assertion (requested (fst s) \<noteq> 0);
         go Decline s
       }
   }"
| "schedule_step env cfg Decline s =
     (if BACKOFF cfg = Sleep_Exp \<and> waiting_for_tasks (tree (fst s)) then go Receive s
      else do {
        s \<leftarrow> decline_all_steal_requests (env_rand env) cfg s;
        go Receive s
      })"
| "schedule_step env cfg (Accept task) s = do {
     (task, s) \<leftarrow> accept_tasks env cfg task s;
     call_task task (\<lambda>this. Resume task this True) s
   }"
| "schedule_step env cfg (Resume task this stolen) s = do {
     s \<leftarrow> finish_task task this s;
     go (if stolen \<and> tasking_finished (fst s) then Leave else Pop) s
   }"
| "schedule_step env cfg Leave s = None"

text \<open>Only the master gets past the first line of \<^verbatim>\<open>RT_barrier\<close>; the root task calls it.\<close>

definition barrier_enter :: "wst \<Rightarrow> bool option" where
  "barrier_enter s =
     (if ID (fst s) \<noteq> MASTER_ID then Some False
      else do {
        t \<leftarrow> deref (task_mem (snd s)) (get_current_task (fst s));
        assertion (is_root_task t);
        Some True
      })"

fun barrier_step :: "env \<Rightarrow> config \<Rightarrow> sched_pc \<Rightarrow> wst \<Rightarrow> sched_pc outcome" where
  "barrier_step env cfg Pop s = do {
     (task, w, sh) \<leftarrow> RT_pop env cfg False s;
     if task \<noteq> NULL then call_task task (\<lambda>this. Resume task this False) (w, sh)
     else if num_workers sh = 1 then go Leave (w\<lparr>quiescent := True\<rparr>, sh)
     else if quiescent w then go Leave (w, sh)
     else go Send_Request (w, sh)
   }"
| "barrier_step env cfg Send_Request s = do {
     s \<leftarrow> try_send_steal_request (env_rand env) cfg True s;
     assertion (requested (fst s) \<noteq> 0);
     go Receive s
   }"
| "barrier_step env cfg Receive s = do {
     (r, s) \<leftarrow> RECV_TASK (env_rand env) cfg True s;
     case r of
       Some task \<Rightarrow> go (Accept task) s
     | None \<Rightarrow> do {
         assertion (deque_empty (deque (fst s)));
         assertion (requested (fst s) \<noteq> 0);
         go Decline s
       }
   }"
| "barrier_step env cfg Decline s = do {
     s \<leftarrow> decline_all_steal_requests (env_rand env) cfg s;
     go (if quiescent (fst s) then Leave else Receive) s
   }"
| "barrier_step env cfg (Accept task) s = do {
     (task, s) \<leftarrow> accept_tasks env cfg task s;
     call_task task (\<lambda>this. Resume task this True) s
   }"
| "barrier_step env cfg (Resume task this stolen) s = do {
     s \<leftarrow> finish_task task this s;
     go Pop s
   }"
| "barrier_step env cfg Leave s = None"

section \<open>Waiting for futures\<close>

text \<open>
  The points of \<^verbatim>\<open>RT_force_future\<close>. \<open>FReturn r\<close> is the label \<^verbatim>\<open>RT_force_future_return\<close> with the bytes
  received from the channel of the future, if any.
\<close>

datatype force_pc =
  FStart | FPop | FChild addr addr | FWhile | FReceive | FHandle | FAccept addr
| FStolen addr addr | FReturn "byte list option"

definition if_ready :: "addr \<Rightarrow> nat \<Rightarrow> (wst \<Rightarrow> force_pc outcome) \<Rightarrow> wst \<Rightarrow> force_pc outcome" where
  "if_ready f n cont s = do {
     (ready, r, m) \<leftarrow> future_ready f n (fut_mem (snd s));
     let s = (fst s, (snd s)\<lparr>fut_mem := m\<rparr>);
     if ready then go (FReturn r) s else cont s
   }"

fun force_step :: "env \<Rightarrow> config \<Rightarrow> addr \<Rightarrow> addr \<Rightarrow> nat \<Rightarrow> force_pc \<Rightarrow> wst \<Rightarrow> force_pc outcome" where
  "force_step env cfg this f n FStart s = if_ready f n (go FPop) s"
| "force_step env cfg this f n FPop s = do {
     (task, s) \<leftarrow> RT_pop env cfg True s;
     if task \<noteq> NULL then call_task task (FChild task) s
     else do {
       assertion (get_current_task (fst s) = this);
       go FWhile s
     }
   }"
| "force_step env cfg this f n (FChild task prev) s = do {
     s \<leftarrow> finish_task task prev s;
     if_ready f n (go FPop) s
   }"
| "force_step env cfg this f n FWhile s =
     if_ready f n (\<lambda>s. do {
       s \<leftarrow> try_send_steal_request (env_rand env) cfg False s;
       go FReceive s
     }) s"
| "force_step env cfg this f n FReceive s = do {
     (r, s) \<leftarrow> RECV_TASK (env_rand env) cfg False s;
     case r of
       Some task \<Rightarrow> go (FAccept task) s
     | None \<Rightarrow> do {
         s \<leftarrow> try_send_steal_request (env_rand env) cfg False s;
         go FHandle s
       }
   }"
| "force_step env cfg this f n FHandle s = do {
     s \<leftarrow> handle_loop env cfg s;
     if_ready f n (go FReceive) s
   }"
| "force_step env cfg this f n (FAccept task) s = do {
     (task, s) \<leftarrow> accept_tasks env cfg task s;
     call_task task (FStolen task) s
   }"
| "force_step env cfg this f n (FStolen task prev) s = do {
     s \<leftarrow> finish_task task prev s;
     go FWhile s
   }"
| "force_step env cfg this f n (FReturn r) s = None"

definition force_return :: "addr \<Rightarrow> nat \<Rightarrow> byte list option \<Rightarrow> wst \<Rightarrow> (byte list \<times> wst) option" where
  "force_return f n r s = do {
     (data, m) \<leftarrow> force_future_return f n r (fut_mem (snd s));
     Some (data, fst s, (snd s)\<lparr>fut_mem := m\<rparr>)
   }"

section \<open>Interleaving\<close>

text \<open>
  Activations: the loop of a worker thread, a barrier, a wait for a future (with the task that
  waits, the future and the size of its result), the code of a task, and the main program.
\<close>

datatype frame =
  Schedule sched_pc | Barrier sched_pc | Force addr addr nat force_pc | Code addr | Main_Program

record sys =
  stacks :: "frame list list"
  workers :: "worker list"
  mem :: shared

text \<open>
  What the code of a task or the main program does next. Its own memory accesses do not touch the
  state of the runtime: they may change task objects, futures and the memory that \<^verbatim>\<open>malloc\<close>
  hands out, but no channel.
\<close>

definition user_memory :: "shared \<Rightarrow> shared \<Rightarrow> bool" where
  "user_memory sh sh' \<longleftrightarrow> num_workers sh' = num_workers sh \<and> chan_requests sh' = chan_requests sh \<and>
     chan_tasks sh' = chan_tasks sh \<and> signals sh' = signals sh"

inductive user_step :: "env \<Rightarrow> config \<Rightarrow> frame list \<times> wst \<Rightarrow> frame list \<times> wst \<Rightarrow> bool"
  for env cfg
where
  User_Memory: "user_memory sh sh' \<Longrightarrow> user_step env cfg (fs, w, sh) (fs, w, sh')"
| User_Alloc: "RT_task_alloc (env_junk env) s = Some (task, s') \<Longrightarrow> user_step env cfg (fs, s) (fs, s')"
| User_Push: "RT_push env cfg task s = Some s' \<Longrightarrow> user_step env cfg (fs, s) (fs, s')"
| User_Poll: "RT_poll env cfg s = Some s' \<Longrightarrow> user_step env cfg (fs, s) (fs, s')"
| User_Force: "user_step env cfg (fs, s) (Force (get_current_task (fst s)) f n FStart # fs, s)"
| User_Barrier: "barrier_enter s = Some True \<Longrightarrow> user_step env cfg (fs, s) (Barrier Pop # fs, s)"

text \<open>What is pushed when a loop calls a task.\<close>

definition called :: "addr option \<Rightarrow> frame list \<Rightarrow> frame list" where
  "called c fs = (case c of None \<Rightarrow> fs | Some task \<Rightarrow> Code task # fs)"

text \<open>
  The steps of one worker until the program shuts down. The code of a task takes user steps until
  it returns.
\<close>

inductive worker_step :: "env \<Rightarrow> config \<Rightarrow> frame list \<times> wst \<Rightarrow> frame list \<times> wst \<Rightarrow> bool"
  for env cfg
where
  Step_Schedule: "schedule_step env cfg pc s = Some (pc', c, s') \<Longrightarrow>
     worker_step env cfg (Schedule pc # fs, s) (called c (Schedule pc' # fs), s')"
| Step_Barrier: "barrier_step env cfg pc s = Some (pc', c, s') \<Longrightarrow>
     worker_step env cfg (Barrier pc # fs, s) (called c (Barrier pc' # fs), s')"
| Step_Barrier_Return: "quiescent (fst s) \<Longrightarrow> worker_step env cfg (Barrier Leave # fs, s) (fs, s)"
| Step_Force: "force_step env cfg this f n pc s = Some (pc', c, s') \<Longrightarrow>
     worker_step env cfg (Force this f n pc # fs, s) (called c (Force this f n pc' # fs), s')"
| Step_Force_Return: "force_return f n r s = Some (data, s') \<Longrightarrow>
     worker_step env cfg (Force this f n (FReturn r) # fs, s) (fs, s')"
| Step_Code: "user_step env cfg (Code task # fs, s) c \<Longrightarrow> worker_step env cfg (Code task # fs, s) c"
| Step_Code_Return: "worker_step env cfg (Code task # fs, s) (fs, s)"
| Step_Main: "user_step env cfg (Main_Program # fs, s) c \<Longrightarrow> worker_step env cfg (Main_Program # fs, s) c"

text \<open>
  Shutting down: the main program starts the exit action, and a task whose function is
  \<^verbatim>\<open>RT_EXIT_FN\<close> runs it.
\<close>

inductive exit_step :: "env \<Rightarrow> config \<Rightarrow> frame list \<times> wst \<Rightarrow> frame list \<times> wst \<Rightarrow> bool"
  for env cfg
where
  Exit_Main: "RT_async_action env cfg RT_EXIT s = Some s' \<Longrightarrow>
     exit_step env cfg ([Main_Program], s) ([], s')"
| Exit_Task: "deref (task_mem (snd s)) task = Some t \<Longrightarrow> t_fn t = env_exit_fn env \<Longrightarrow>
     RT_EXIT_FN env cfg s = Some s' \<Longrightarrow> exit_step env cfg (Code task # fs, s) (fs, s')"

text \<open>
  A step of the system is a step of a worker that is not blocked. A blocked worker is woken up when
  it has been signalled and has a task to receive: the loop of the macro \<^verbatim>\<open>WAIT\<close>.
\<close>

inductive sys_step :: "env \<Rightarrow> config \<Rightarrow> sys \<Rightarrow> sys \<Rightarrow> bool" for env cfg where
  Run: "i < length (workers z) \<Longrightarrow> \<not> blocked (workers z ! i) \<Longrightarrow>
     worker_step env cfg (stacks z ! i, workers z ! i, mem z) (fs, w, sh) \<Longrightarrow>
     sys_step env cfg z \<lparr>stacks = (stacks z)[i := fs], workers = (workers z)[i := w], mem = sh\<rparr>"
| Wake: "i < length (workers z) \<Longrightarrow> blocked (workers z ! i) \<Longrightarrow> signals (mem z) ! i \<Longrightarrow>
     peek (chan_tasks (mem z) ! i) \<Longrightarrow>
     sys_step env cfg z (z\<lparr>workers := (workers z)[i := (workers z ! i)\<lparr>blocked := False\<rparr>]\<rparr>)"

end
