(* ===== verification/Tokens.thy ===== *)
theory Tokens
  imports Machine "HOL-Library.Multiset"
begin

text \<open>
  Steal requests as tokens. In the default configuration a worker has at most one request or
  answer under way. The abstract protocol below moves tokens between a pool of requests and the
  task channels; this theory shows that every operation of a busy worker in \<^theory_text>\<open>Scheduling\<close> is a
  sequence of steps of that protocol and keeps the invariants of channels, flags and queues.
\<close>

section \<open>The abstract protocol\<close>

text \<open>
  A token is the sender of a request with the state of the request. The state of the protocol: the
  pool of requests, the number of answers waiting at each worker, the number of requests the
  worker at hand believes to be under way, and which workers have been signalled.
\<close>

type_synonym token = "int \<times> req_state"
type_synonym protocol = "token multiset \<times> (int \<Rightarrow> nat) \<times> int \<times> (int \<Rightarrow> bool)"

text \<open>
  What worker \<open>me\<close> does while it is busy: answer the request of another worker (an answer to a
  failed request signals its sender), forget its own request, send one.
\<close>

inductive work_step :: "int \<Rightarrow> protocol \<Rightarrow> protocol \<Rightarrow> bool" for me where
  Answer: "i \<noteq> me \<Longrightarrow> st \<noteq> STATE_FAILED \<Longrightarrow>
     work_step me (add_mset (i, st) M, T, q, S) (M, T(i := Suc (T i)), q, S)"
| Share: "i \<noteq> me \<Longrightarrow>
     work_step me (add_mset (i, STATE_FAILED) M, T, q, S) (M, T(i := Suc (T i)), q, S(i := True))"
| Forget: "work_step me (add_mset (me, st) M, T, q, S) (M, T, q - 1, S)"
| Ask: "work_step me (M, T, q, S) (add_mset (me, STATE_WORKING) M, T, q + 1, S)"

abbreviation work_steps :: "int \<Rightarrow> protocol \<Rightarrow> protocol \<Rightarrow> bool" where
  "work_steps me \<equiv> (work_step me)\<^sup>*\<^sup>*"

text \<open>The requests and answers of a worker.\<close>

definition occupancy :: "token multiset \<Rightarrow> (int \<Rightarrow> nat) \<Rightarrow> int \<Rightarrow> nat" where
  "occupancy M T i = size (filter_mset (\<lambda>t. fst t = i) M) + T i"

lemma occupancy_add [simp]:
  "occupancy (add_mset t M) T i = occupancy M T i + of_bool (fst t = i)"
  "occupancy M (T(j := Suc (T j))) i = occupancy M T i + of_bool (j = i)"
  by (auto simp: occupancy_def)

text \<open>
  Busy workers conserve tokens: the requests and answers of every worker, less what the worker
  at hand believes of itself, do not change.
\<close>

lemma work_step_conserves:
  assumes "work_step me (M, T, q, S) (M', T', q', S')"
  shows "int (occupancy M' T' i) - of_bool (i = me) * q' = int (occupancy M T i) - of_bool (i = me) * q"
  using assms by cases auto

lemma work_steps_induct [consumes 1, case_names refl step]:
  assumes "work_steps me (M, T, q, S) (M', T', q', S')" "P M T q S"
    "\<And>M T q S M' T' q' S'. work_step me (M, T, q, S) (M', T', q', S') \<Longrightarrow> P M T q S \<Longrightarrow> P M' T' q' S'"
  shows "P M' T' q' S'"
proof -
  have "case c of (M, T, q, S) \<Rightarrow> P M T q S" if "work_steps me (M, T, q, S) c" for c
    using that assms(2) by (induction rule: rtranclp_induct) (auto intro: assms(3))
  from this [OF assms(1)] show ?thesis by simp
qed

lemma work_steps_conserve:
  assumes "work_steps me (M, T, q, S) (M', T', q', S')"
  shows "int (occupancy M' T' i) - of_bool (i = me) * q' = int (occupancy M T i) - of_bool (i = me) * q"
  using assms by (induction rule: work_steps_induct) (simp_all add: work_step_conserves)

text \<open>They create no requests of others, and none of their own but working ones.\<close>

lemma work_step_new:
  assumes "work_step me (M, T, q, S) (M', T', q', S')" "t \<in># M'"
  shows "t \<in># M \<or> t = (me, STATE_WORKING)"
  using assms by cases auto

lemma work_steps_new:
  assumes "work_steps me (M, T, q, S) (M', T', q', S')" "t \<in># M'"
  shows "t \<in># M \<or> t = (me, STATE_WORKING)"
  using assms(1,2)
proof (induction arbitrary: t rule: work_steps_induct)
  case (step M1 T1 q1 S1 M2 T2 q2 S2)
  then show ?case using work_step_new by blast
qed simp

text \<open>A worker that has been signalled, or whose failed request is gone, has been signalled.\<close>

lemma work_steps_signal:
  assumes "work_steps me (M, T, q, S) (M', T', q', S')" "S i \<or> i \<noteq> me \<and> (i, STATE_FAILED) \<in># M"
  shows "S' i \<or> i \<noteq> me \<and> (i, STATE_FAILED) \<in># M'"
  using assms
proof (induction rule: work_steps_induct)
  case (step M1 T1 q1 S1 M2 T2 q2 S2)
  from step.hyps step.IH [OF step.prems] show ?case by cases auto
qed simp

lemma work_steps_answers:
  assumes "work_steps me (M, T, q, S) (M', T', q', S')"
  shows "T i \<le> T' i \<and> (i = me \<longrightarrow> T' i = T i)"
  using assms
proof (induction rule: work_steps_induct)
  case (step M1 T1 q1 S1 M2 T2 q2 S2)
  from step.hyps step.IH show ?case by cases auto
qed simp

section \<open>Tokens of the runtime\<close>

definition tok :: "steal_request \<Rightarrow> token" where
  "tok r = (req_ID r, req_state r)"

definition toks :: "steal_request list \<Rightarrow> token multiset" where
  "toks rs = image_mset tok (mset rs)"

abbreviation held :: "worker \<Rightarrow> steal_request list" where
  "held w \<equiv> bq_items (work_sharing_requests w)"

text \<open>The requests in all channels and in the queue of the worker at hand.\<close>

definition view :: "wst \<Rightarrow> token multiset" where
  "view s = toks (concat (chan_requests (snd s))) + toks (held (fst s))"

definition answers :: "shared \<Rightarrow> int \<Rightarrow> nat" where
  "answers sh i = (if 0 \<le> i then length (concat (chan_tasks sh ! nat i)) else 0)"

definition signalled :: "config \<Rightarrow> shared \<Rightarrow> int \<Rightarrow> bool" where
  "signalled cfg sh i \<longleftrightarrow> BACKOFF cfg \<noteq> Wait_Cond \<or> 0 \<le> i \<and> signals sh ! nat i"

text \<open>The protocol state of a worker that holds the requests \<open>X\<close> in its hands.\<close>

definition pstate :: "config \<Rightarrow> token multiset \<Rightarrow> wst \<Rightarrow> protocol" where
  "pstate cfg X s = (view s + X, answers (snd s), requested (fst s), signalled cfg (snd s))"

lemma toks_simps [simp]:
  "toks [] = {#}" "toks (r # rs) = add_mset (tok r) (toks rs)" "toks (rs @ rs') = toks rs + toks rs'"
  by (simp_all add: toks_def)

lemma in_toks: "t \<in># toks rs \<longleftrightarrow> (\<exists>r \<in> set rs. t = tok r)"
  by (auto simp: toks_def)

lemma toks_concat_update:
  "j < length xs \<Longrightarrow> toks (concat (xs[j := ys])) + toks (xs ! j) = toks (concat xs) + toks ys"
proof (induction xs arbitrary: j)
  case (Cons x xs)
  show ?case
  proof (cases j)
    case (Suc k)
    then have "toks (concat (xs[k := ys])) + toks (xs ! k) = toks (concat xs) + toks ys"
      using Cons by simp
    then show ?thesis using Suc by (simp add: ac_simps)
  qed (simp add: ac_simps)
qed simp

lemma mset_exchange:
  fixes a b c d h p q :: "'a multiset"
  assumes "a + q = c + p" "b + h + p = d + q"
  shows "a + b + h = c + d"
proof -
  have "(a + b + h) + (q + p) = (a + q) + (b + h + p)" by (simp add: ac_simps)
  also have "\<dots> = (c + d) + (q + p)" unfolding assms by (simp add: ac_simps)
  finally show ?thesis by (simp only: add_right_cancel)
qed

section \<open>Invariants of a worker\<close>

definition good_req :: "int \<Rightarrow> steal_request \<Rightarrow> bool" where
  "good_req N r \<longleftrightarrow> 0 \<le> req_ID r \<and> req_ID r < N \<and> req_chan r = (req_ID r, 0)"

text \<open>A failed request is sent to the parent of its sender.\<close>

definition placed :: "nat \<Rightarrow> steal_request \<Rightarrow> bool" where
  "placed j r \<longleftrightarrow> (req_state r = STATE_FAILED \<longrightarrow> 0 < req_ID r \<and> (req_ID r - 1) div 2 = int j)"

definition chans_ok :: "shared \<Rightarrow> bool" where
  "chans_ok sh \<longleftrightarrow> (let N = num_workers sh in 1 \<le> N \<and>
     nat N \<le> length (chan_requests sh) \<and> nat N \<le> length (chan_tasks sh) \<and> nat N \<le> length (signals sh) \<and>
     (\<forall>j < nat N. length (chan_tasks sh ! j) = 1) \<and>
     (\<forall>j < length (chan_requests sh). \<forall>r \<in> set (chan_requests sh ! j). good_req N r \<and> placed j r))"

text \<open>
  A subtree counts as idle if there is none or its root has a failed request in the queue of
  work-sharing requests, which holds nothing else. The stack holds the worker's own channel.
\<close>

definition held_ok :: "int \<Rightarrow> worker \<Rightarrow> bool" where
  "held_ok N w \<longleftrightarrow> tree_ok N w \<and> bq_inv (work_sharing_requests w) \<and>
     (\<forall>r \<in> set (held w). req_state r = STATE_FAILED \<and> good_req N r \<and>
       (req_ID r = tree_left_child (tree w) \<or> req_ID r = tree_right_child (tree w))) \<and>
     (left_subtree_is_idle (tree w) \<longleftrightarrow>
       tree_left_child (tree w) = - 1 \<or> tree_left_child (tree w) \<in> req_ID ` set (held w)) \<and>
     (right_subtree_is_idle (tree w) \<longleftrightarrow>
       tree_right_child (tree w) = - 1 \<or> tree_right_child (tree w) \<in> req_ID ` set (held w)) \<and>
     (requested w = 0 \<or> requested w = 1) \<and>
     set (bs_buffer (channel_stack w)) \<subseteq> {None, Some (ID w, 0)}"

definition single :: "int \<Rightarrow> token multiset \<Rightarrow> (int \<Rightarrow> nat) \<Rightarrow> bool" where
  "single N M T \<longleftrightarrow> (\<forall>i \<in> {0..<N}. occupancy M T i \<le> 1)"

text \<open>Below a child with a failed request no failed request is waiting in a channel.\<close>

definition quiet :: "wst \<Rightarrow> bool" where
  "quiet s \<longleftrightarrow> (let (w, sh) = s in
     \<forall>c \<in> {tree_left_child (tree w), tree_right_child (tree w)} - {- 1}. (c, STATE_FAILED) \<in># view s \<longrightarrow>
       (\<forall>j \<in> subtree (num_workers sh - 1) c. \<forall>r \<in> set (chan_requests sh ! nat j).
         req_state r \<noteq> STATE_FAILED))"

definition linv :: "token multiset \<Rightarrow> wst \<Rightarrow> bool" where
  "linv X s \<longleftrightarrow> chans_ok (snd s) \<and> held_ok (num_workers (snd s)) (fst s) \<and>
     single (num_workers (snd s)) (view s + X) (answers (snd s)) \<and> quiet s \<and> \<not> tasking_finished (fst s)"

text \<open>What an operation of a busy worker leaves alone.\<close>

definition frame :: "wst \<Rightarrow> wst \<Rightarrow> bool" where
  "frame s s' \<longleftrightarrow> ID (fst s') = ID (fst s) \<and> num_workers (snd s') = num_workers (snd s) \<and>
     blocked (fst s') = blocked (fst s) \<and> tasking_finished (fst s') = tasking_finished (fst s) \<and>
     waiting_for_tasks (tree (fst s')) = waiting_for_tasks (tree (fst s))"

lemma frame_refl [simp]: "frame s s"
  by (simp add: frame_def)

lemma frame_trans: "frame s s' \<Longrightarrow> frame s' s'' \<Longrightarrow> frame s s''"
  by (simp add: frame_def)

section \<open>Receiving requests\<close>

lemma enqueue_items:
  assumes "bq_inv q" "bounded_queue_enqueue q x = Some q'"
  shows "bq_inv q' \<and> bq_items q' = bq_items q @ [x]"
  using assms bq_put_room [of q x] bq_put_full [of q x]
  by (cases "length (bq_items q) < bq_cap q - 1") (auto simp: bq_put_def)

lemma dequeue_items:
  assumes "bq_inv q" "bounded_queue_dequeue q = Some (y, q')"
  shows "bq_inv q' \<and> (\<exists>x. bq_items q = x # bq_items q')"
proof (cases "bq_items q")
  case Nil
  then show ?thesis using assms bounded_queue_empty_items [OF assms(1)]
    by (simp add: bounded_queue_dequeue_def)
next
  case (Cons x xs)
  with bq_get_item [OF assms(1)] obtain q'' where "bq_get q = Some (x, q'')" "bq_inv q''" "bq_items q'' = xs"
    by blast
  then show ?thesis using assms(2) Cons by (auto simp: bq_get_def split: option.splits Option.bind_splits)
qed

lemma hold_failed_ok:
  assumes "held_ok N w" "good_req N r" "req_state r = STATE_FAILED" "hold_failed r w = Some w'"
  shows "held_ok N w' \<and> held w' = held w @ [r] \<and> ID w' = ID w \<and>
    (\<exists>t q. w' = w\<lparr>tree := t, work_sharing_requests := q\<rparr> \<and>
      tree_left_child t = tree_left_child (tree w) \<and> tree_right_child t = tree_right_child (tree w) \<and>
      tree_parent t = tree_parent (tree w) \<and> waiting_for_tasks t = waiting_for_tasks (tree w))"
proof -
  note l = tree_ok_links [of N w]
  have t: "tree_ok N w" "bq_inv (work_sharing_requests w)" using assms(1) by (simp_all add: held_ok_def)
  let ?left = "req_ID r = tree_left_child (tree w)"
  let ?w = "if ?left then w\<lparr>tree := (tree w)\<lparr>left_subtree_is_idle := True\<rparr>\<rparr>
    else w\<lparr>tree := (tree w)\<lparr>right_subtree_is_idle := True\<rparr>\<rparr>"
  obtain q where child: "?left \<or> req_ID r = tree_right_child (tree w)"
    and q: "bounded_queue_enqueue (work_sharing_requests w) r = Some q"
    and w': "w' = ?w\<lparr>work_sharing_requests := q\<rparr>"
    using assms(4) by (auto simp: hold_failed_def ENQUEUE_WORK_SHARING_REQUEST_def
        split: if_splits Option.bind_splits)
  have q': "bq_inv q" "bq_items q = held w @ [r]" using enqueue_items [OF t(2) q] by auto
  have tw: "tree_ok N w'" using t(1) w' by (auto simp: tree_ok_def)
  have ne: "tree_left_child (tree w) = tree_right_child (tree w) \<longrightarrow> tree_left_child (tree w) = - 1"
    using l [OF t(1)] by auto
  have "0 \<le> req_ID r" using assms(2) by (simp add: good_req_def)
  then have "held_ok N w'"
    using assms(1-3) tw q' child ne unfolding held_ok_def w' by (cases ?left) auto
  then show ?thesis using q' w' by (cases ?left) fastforce+
qed

text \<open>Only the flags and the queue change when failed requests are put aside.\<close>

definition holds :: "worker \<Rightarrow> worker \<Rightarrow> bool" where
  "holds w w' \<longleftrightarrow> (\<exists>t q. w' = w\<lparr>tree := t, work_sharing_requests := q\<rparr> \<and>
     tree_left_child t = tree_left_child (tree w) \<and> tree_right_child t = tree_right_child (tree w) \<and>
     tree_parent t = tree_parent (tree w) \<and> waiting_for_tasks t = waiting_for_tasks (tree w))"

lemma holds_refl [simp]: "holds w w"
  unfolding holds_def by (rule exI [of _ "tree w"], rule exI [of _ "work_sharing_requests w"]) simp

lemma holds_trans: "holds w w' \<Longrightarrow> holds w' w'' \<Longrightarrow> holds w w''"
  by (force simp: holds_def)

lemma recv_own_ok:
  assumes "held_ok N w" "\<forall>r \<in> set q. good_req N r" "recv_own q w = Some (r, q', w')"
  shows "held_ok N w' \<and> holds w w' \<and> set q' \<subseteq> set q \<and> (\<forall>x. r = Some x \<longrightarrow> x \<in> set q \<and> req_state x \<noteq> STATE_FAILED) \<and>
    toks (held w') + (case r of None \<Rightarrow> {#} | Some x \<Rightarrow> {#tok x#}) + toks q' = toks (held w) + toks q"
  using assms
proof (induction q w rule: recv_own.induct)
  case (2 req q w)
  show ?case
  proof (cases "req_state req = STATE_FAILED")
    case True
    then obtain w1 where w1: "hold_failed req w = Some w1" "recv_own q w1 = Some (r, q', w')"
      using "2.prems"(3) by (auto split: Option.bind_splits)
    have h: "held_ok N w1" "held w1 = held w @ [req]" "holds w w1"
      using hold_failed_ok [OF "2.prems"(1) _ True w1(1)] "2.prems"(2) by (auto simp: holds_def)
    have "held_ok N w' \<and> holds w1 w' \<and> set q' \<subseteq> set q \<and> (\<forall>x. r = Some x \<longrightarrow> x \<in> set q \<and> req_state x \<noteq> STATE_FAILED) \<and>
      toks (held w') + (case r of None \<Rightarrow> {#} | Some x \<Rightarrow> {#tok x#}) + toks q' = toks (held w1) + toks q"
      using "2.IH" [OF True w1(1) h(1)] "2.prems"(2) w1(2) by simp
    then show ?thesis using h holds_trans [of w w1 w'] by auto
  next
    case False
    then show ?thesis using "2.prems" by auto
  qed
qed simp

lemma RECV_REQ_lvl_below:
  assumes "RECV_REQ_lvl N chans c 0 = Some (r, chans')" "nat N \<le> length chans" "1 \<le> N"
    "c = - 1 \<or> 0 \<le> c \<and> c < N"
  shows "r = None \<and> chans' = chans \<or>
    (\<exists>x j q. r = Some x \<and> c \<noteq> - 1 \<and> j \<in> subtree (N - 1) c \<and> chans ! nat j = x # q \<and> chans' = chans[nat j := q])"
proof (cases "c = - 1")
  case True
  then show ?thesis using assms(1,3) by (subst (asm) RECV_REQ_lvl.simps) simp
next
  case False
  then have c: "0 \<le> c" "c < N" and len: "N \<le> int (length chans)" using assms(2,4) by linarith+
  show ?thesis
    using RECV_REQ_lvl_spec [OF c(1) len _ c(2), of 0] assms(1) False unfolding deeper_0
    by (auto split: option.splits)
qed

lemma subtree_nth: "0 \<le> c \<Longrightarrow> j \<in> subtree (N - 1) c \<Longrightarrow> nat N \<le> length xs \<Longrightarrow> 1 \<le> N \<Longrightarrow> nat j < length xs"
  using subtree_ge [of c j "N - 1"] by linarith

lemma linvD:
  assumes "linv X (w, sh)"
  shows "chans_ok sh" "held_ok (num_workers sh) w"
    "single (num_workers sh) (view (w, sh) + X) (answers sh)" "quiet (w, sh)" "\<not> tasking_finished w"
  using assms by (simp_all add: linv_def)

lemma chans_okD:
  assumes "chans_ok sh"
  shows "1 \<le> num_workers sh" "nat (num_workers sh) \<le> length (chan_requests sh)"
    "nat (num_workers sh) \<le> length (chan_tasks sh)" "nat (num_workers sh) \<le> length (signals sh)"
    "\<And>j. j < nat (num_workers sh) \<Longrightarrow> length (chan_tasks sh ! j) = 1"
    "\<And>j r. j < length (chan_requests sh) \<Longrightarrow> r \<in> set (chan_requests sh ! j) \<Longrightarrow>
       good_req (num_workers sh) r \<and> placed j r"
  using assms by (auto simp: chans_ok_def Let_def)

text \<open>Removing requests from channels keeps the invariants of the channels.\<close>

lemma chans_ok_sub:
  assumes "chans_ok sh" "set q \<subseteq> set (chan_requests sh ! j)"
  shows "chans_ok (sh\<lparr>chan_requests := (chan_requests sh)[j := q]\<rparr>)"
proof -
  have "r \<in> set (chan_requests sh ! k)" if "r \<in> set ((chan_requests sh)[j := q] ! k)" "k < length (chan_requests sh)" for r k
    using that assms(2) by (cases "k = j") auto
  then show ?thesis using assms(1) by (auto simp: chans_ok_def Let_def)
qed

lemma quiet_sub:
  assumes "quiet (w, sh)" "num_workers sh' = num_workers sh"
    "tree_left_child (tree w') = tree_left_child (tree w)" "tree_right_child (tree w') = tree_right_child (tree w)"
    "\<And>c. (c, STATE_FAILED) \<in># view (w', sh') \<Longrightarrow> (c, STATE_FAILED) \<in># view (w, sh)"
    "\<And>j r. r \<in> set (chan_requests sh' ! j) \<Longrightarrow> req_state r = STATE_FAILED \<Longrightarrow> j < nat (num_workers sh) \<Longrightarrow>
      r \<in> set (chan_requests sh ! j)"
    "chans_ok sh" "tree_ok (num_workers sh) w"
  shows "quiet (w', sh')"
  unfolding quiet_def Let_def prod.case
proof (intro ballI impI)
  fix c j r
  assume c: "c \<in> {tree_left_child (tree w'), tree_right_child (tree w')} - {- 1}" "(c, STATE_FAILED) \<in># view (w', sh')"
    and j: "j \<in> subtree (num_workers sh' - 1) c" and r: "r \<in> set (chan_requests sh' ! nat j)"
  have "0 \<le> c" using c(1) tree_ok_links(1,2,4) [OF assms(8)] assms(3,4) by (auto split: if_splits)
  then have jN: "nat j < nat (num_workers sh)"
    using subtree_ge [of c j "num_workers sh - 1"] j assms(2) chans_okD(1) [OF assms(7)] by auto
  show "req_state r \<noteq> STATE_FAILED"
  proof
    assume f: "req_state r = STATE_FAILED"
    have "r \<in> set (chan_requests sh ! nat j)" using assms(6) [OF r f jN] .
    moreover have "c \<in> {tree_left_child (tree w), tree_right_child (tree w)} - {- 1}" "j \<in> subtree (num_workers sh - 1) c"
      using c(1) j assms(2-4) by auto
    ultimately show False using assms(1) assms(5) [OF c(2)] f by (auto simp: quiet_def Let_def)
  qed
qed

definition hand :: "steal_request option \<Rightarrow> token multiset" where
  "hand r = (case r of None \<Rightarrow> {#} | Some x \<Rightarrow> {#tok x#})"

lemma hand_simps [simp]: "hand None = {#}" "hand (Some x) = {#tok x#}"
  by (simp_all add: hand_def)

text \<open>
  Taking a request out of some channel of the idle subtree of a child. It is not a failed one, since
  the child has a failed request in the queue.
\<close>

lemma take_below:
  assumes inv: "linv X (w, sh)" and c: "c = tree_left_child (tree w) \<and> left_subtree_is_idle (tree w) \<or>
      c = tree_right_child (tree w) \<and> right_subtree_is_idle (tree w)"
    and recv: "RECV_REQ_lvl (num_workers sh) (chan_requests sh) c 0 = Some (r, chans)"
  shows "linv (X + hand r) (w, sh\<lparr>chan_requests := chans\<rparr>) \<and>
    view (w, sh\<lparr>chan_requests := chans\<rparr>) + hand r = view (w, sh) \<and>
    (\<forall>x. r = Some x \<longrightarrow> good_req (num_workers sh) x \<and> req_state x \<noteq> STATE_FAILED)"
proof -
  note i = linvD [OF inv] and ch = chans_okD [OF linvD(1) [OF inv]]
  have t: "tree_ok (num_workers sh) w" using i(2) by (simp add: held_ok_def)
  note l = tree_ok_links [OF t]
  have cN: "c = - 1 \<or> 0 \<le> c \<and> c < num_workers sh" using c l by (auto split: if_splits)
  consider "r = None" "chans = chan_requests sh" | x j q where "r = Some x" "c \<noteq> - 1"
    "j \<in> subtree (num_workers sh - 1) c" "chan_requests sh ! nat j = x # q" "chans = (chan_requests sh)[nat j := q]"
    using RECV_REQ_lvl_below [OF recv ch(2,1) cN] by blast
  then show ?thesis
  proof cases
    case 1
    then show ?thesis using inv by simp
  next
    case (2 x j q)
    have jl: "nat j < length (chan_requests sh)" using subtree_nth [OF _ 2(3) ch(2,1)] cN 2(2) by auto
    have x: "x \<in> set (chan_requests sh ! nat j)" using 2(4) by simp
    let ?sh = "sh\<lparr>chan_requests := chans\<rparr>"
    have v: "view (w, ?sh) + {#tok x#} = view (w, sh)"
      using toks_concat_update [OF jl, of q] 2(4,5) by (simp add: view_def)
    have "\<exists>y \<in> set (held w). c = req_ID y" using c 2(2) i(2) by (auto simp: held_ok_def)
    then have "(c, STATE_FAILED) \<in># view (w, sh)"
      using i(2) by (fastforce simp: held_ok_def view_def in_toks tok_def)
    then have nf: "req_state x \<noteq> STATE_FAILED"
      using i(4) c 2(2,3) x by (auto simp: quiet_def Let_def)
    have ok: "chans_ok ?sh" using chans_ok_sub [OF i(1), of q "nat j"] 2(4,5) by auto
    have fl: "t \<in># view (w, sh)" if "t \<in># view (w, ?sh)" for t using v that by (metis union_iff)
    have ch': "y \<in> set (chan_requests sh ! k)" if "y \<in> set (chans ! k)" "k < nat (num_workers sh)" for y k
    proof (cases "k = nat j")
      case True
      then show ?thesis using that 2(4,5) jl by auto
    next
      case False
      then show ?thesis using that 2(5) by simp
    qed
    have "quiet (w, ?sh)"
      by (rule quiet_sub [OF i(4) _ _ _ _ _ i(1) t]) (use fl ch' in simp_all)
    moreover have "answers ?sh = answers sh" by (simp add: answers_def fun_eq_iff)
    moreover have "single (num_workers sh) (view (w, ?sh) + (X + {#tok x#})) (answers sh)"
      using i(3) unfolding v [symmetric] by (simp add: ac_simps)
    ultimately show ?thesis
      using i(2,5) ok v nf ch(6) [OF jl x] 2(1) by (simp add: linv_def)
  qed
qed

lemma holds_fields:
  "holds w w' \<Longrightarrow> ID w' = ID w \<and> requested w' = requested w \<and> blocked w' = blocked w \<and>
     tasking_finished w' = tasking_finished w \<and> tree_left_child (tree w') = tree_left_child (tree w) \<and>
     tree_right_child (tree w') = tree_right_child (tree w) \<and> deque w' = deque w \<and>
     waiting_for_tasks (tree w') = waiting_for_tasks (tree w) \<and> quiescent w' = quiescent w"
  by (auto simp: holds_def)

text \<open>Receiving a request: it moves from a channel into the hands of the worker.\<close>

lemma RECV_REQ_ok:
  assumes inv: "linv X (w, sh)" and recv: "RECV_REQ cfg (w, sh) = Some (r, w', sh')"
  shows "linv (X + hand r) (w', sh') \<and> holds w w' \<and> (\<exists>chans. sh' = sh\<lparr>chan_requests := chans\<rparr>) \<and>
    view (w', sh') + hand r = view (w, sh) \<and>
    (\<forall>x. r = Some x \<longrightarrow> good_req (num_workers sh) x \<and> req_state x \<noteq> STATE_FAILED)"
proof -
  note i = linvD [OF inv] and ch = chans_okD [OF linvD(1) [OF inv]]
  have t: "tree_ok (num_workers sh) w" using i(2) by (simp add: held_ok_def)
  note l = tree_ok_links [OF t]
  let ?N = "num_workers sh" and ?q = "chan_requests sh ! nat (ID w)"
  have idl: "nat (ID w) < length (chan_requests sh)" using l(4,5) ch(2) by linarith
  obtain r1 q1 w1 where own: "recv_own ?q w = Some (r1, q1, w1)"
    using recv idl by (auto simp: RECV_REQ_def Let_def split: Option.bind_splits)
  have g: "\<forall>x \<in> set ?q. good_req ?N x" using ch(6) [OF idl] by blast
  note o = recv_own_ok [OF i(2) g own]
  let ?sh1 = "sh\<lparr>chan_requests := (chan_requests sh)[nat (ID w) := q1]\<rparr>"
  have w1: "holds w w1" and idw: "ID w1 = ID w" using o holds_fields by blast+
  have v1: "view (w1, ?sh1) + hand r1 = view (w, sh)"
  proof -
    have a: "toks (concat ((chan_requests sh)[nat (ID w) := q1])) + toks ?q = toks (concat (chan_requests sh)) + toks q1"
      by (rule toks_concat_update [OF idl])
    have b: "toks (held w1) + hand r1 + toks q1 = toks (held w) + toks ?q"
      using o by (simp add: hand_def)
    show ?thesis using mset_exchange [OF a b] by (simp add: view_def)
  qed
  have fl: "t \<in># view (w, sh)" if "t \<in># view (w1, ?sh1)" for t using v1 that by (metis union_iff)
  have ch1: "y \<in> set (chan_requests sh ! k)" if "y \<in> set (chan_requests ?sh1 ! k)" for y k
    using that o idl by (cases "k = nat (ID w)") auto
  have q1: "quiet (w1, ?sh1)"
    by (rule quiet_sub [OF i(4) _ _ _ _ _ i(1) t]) (use fl ch1 holds_fields [OF w1] in simp_all)
  have "answers ?sh1 = answers sh" by (simp add: answers_def fun_eq_iff)
  moreover have "single ?N (view (w1, ?sh1) + (X + hand r1)) (answers sh)"
    using i(3) unfolding v1 [symmetric] by (simp add: ac_simps)
  ultimately have inv1: "linv (X + hand r1) (w1, ?sh1)"
    using i o q1 chans_ok_sub [OF i(1)] holds_fields [OF w1] by (simp add: linv_def)
  have r1: "\<forall>x. r1 = Some x \<longrightarrow> good_req ?N x \<and> req_state x \<noteq> STATE_FAILED" using o g by blast
  have t1: "tree_ok ?N w1" using inv1 by (simp add: linv_def held_ok_def)
  have id1: "worker_id (?N - 1) (ID w1)" using l(4,5) idw by (simp add: worker_id_def)
  note l1 = tree_ok_links [OF t1]
  have kids: "left_child (ID w1) (?N - 1) = Some (tree_left_child (tree w1))"
    "right_child (ID w1) (?N - 1) = Some (tree_right_child (tree w1))"
    using left_child_eq [OF id1] right_child_eq [OF id1] l1(1,2) by simp_all
  show ?thesis
  proof (cases "BACKOFF cfg = No_Backoff")
    case True
    then have "(r, w', sh') = (r1, w1, ?sh1)"
      using recv own idl idw by (auto simp: RECV_REQ_def Let_def split: Option.bind_splits)
    then show ?thesis using inv1 w1 v1 r1 by auto
  next
    case False
    obtain r2 chans2 where two: "linv (X + hand r2) (w1, sh\<lparr>chan_requests := chans2\<rparr>)"
      "view (w1, sh\<lparr>chan_requests := chans2\<rparr>) + hand r2 = view (w, sh)"
      "\<forall>x. r2 = Some x \<longrightarrow> good_req ?N x \<and> req_state x \<noteq> STATE_FAILED"
      and three: "if r2 = None \<and> right_subtree_is_idle (tree w1)
        then \<exists>chans. RECV_REQ_lvl ?N chans2 (tree_right_child (tree w1)) 0 = Some (r, chans) \<and>
          w' = w1 \<and> sh' = sh\<lparr>chan_requests := chans\<rparr>
        else r = r2 \<and> w' = w1 \<and> sh' = sh\<lparr>chan_requests := chans2\<rparr>"
    proof (cases "r1 = None \<and> left_subtree_is_idle (tree w1)")
      case True
      then obtain r2 chans2 where
        lv: "RECV_REQ_lvl ?N (chan_requests ?sh1) (tree_left_child (tree w1)) 0 = Some (r2, chans2)"
        and th: "if r2 = None \<and> right_subtree_is_idle (tree w1)
        then \<exists>chans. RECV_REQ_lvl ?N chans2 (tree_right_child (tree w1)) 0 = Some (r, chans) \<and>
          w' = w1 \<and> sh' = sh\<lparr>chan_requests := chans\<rparr>
        else r = r2 \<and> w' = w1 \<and> sh' = sh\<lparr>chan_requests := chans2\<rparr>"
        using recv own idl False kids idw
        by (auto simp: RECV_REQ_def Let_def split: Option.bind_splits if_splits)
      have "linv (X + hand r2) (w1, ?sh1\<lparr>chan_requests := chans2\<rparr>) \<and>
        view (w1, ?sh1\<lparr>chan_requests := chans2\<rparr>) + hand r2 = view (w1, ?sh1) \<and>
        (\<forall>x. r2 = Some x \<longrightarrow> good_req ?N x \<and> req_state x \<noteq> STATE_FAILED)"
        using take_below [of X w1 ?sh1 "tree_left_child (tree w1)" r2 chans2] inv1 True lv by simp
      then show ?thesis using that [of r2 chans2] v1 True th by simp
    next
      case f: False
      then have "if r1 = None \<and> right_subtree_is_idle (tree w1)
        then \<exists>chans. RECV_REQ_lvl ?N ((chan_requests sh)[nat (ID w) := q1]) (tree_right_child (tree w1)) 0 =
            Some (r, chans) \<and> w' = w1 \<and> sh' = sh\<lparr>chan_requests := chans\<rparr>
        else r = r1 \<and> w' = w1 \<and> sh' = ?sh1"
        using recv own idl False kids idw
        by (auto simp: RECV_REQ_def Let_def split: Option.bind_splits if_splits)
      then show ?thesis using that [OF inv1 v1 r1] by blast
    qed
    show ?thesis
    proof (cases "r2 = None \<and> right_subtree_is_idle (tree w1)")
      case True
      then obtain chans where lv: "RECV_REQ_lvl ?N chans2 (tree_right_child (tree w1)) 0 = Some (r, chans)"
        and e: "w' = w1" "sh' = sh\<lparr>chan_requests := chans\<rparr>" using three by auto
      then show ?thesis
        using take_below [of X w1 "sh\<lparr>chan_requests := chans2\<rparr>" "tree_right_child (tree w1)" r chans]
          two True w1 by auto
    next
      case False
      then show ?thesis using two three w1 by auto
    qed
  qed
qed

section \<open>Operations of a busy worker\<close>

text \<open>
  The contract of an operation: it keeps the invariant and moves tokens by steps of the
  protocol; \<open>X\<close> and \<open>Y\<close> are the requests in the hands of the worker before and after.
\<close>

definition works :: "config \<Rightarrow> token multiset \<Rightarrow> wst \<Rightarrow> token multiset \<Rightarrow> wst \<Rightarrow> bool" where
  "works cfg X s Y s' \<longleftrightarrow> linv Y s' \<and> work_steps (ID (fst s)) (pstate cfg X s) (pstate cfg Y s') \<and> frame s s'"

lemma works_refl: "linv X s \<Longrightarrow> works cfg X s X s"
  by (simp add: works_def)

lemma works_trans: "works cfg X s Y s' \<Longrightarrow> works cfg Y s' Z s'' \<Longrightarrow> works cfg X s Z s''"
  unfolding works_def by (auto intro: frame_trans rtranclp_trans simp: frame_def)

lemma worksD:
  assumes "works cfg X s Y s'"
  shows "linv Y s'" "work_steps (ID (fst s)) (pstate cfg X s) (pstate cfg Y s')" "frame s s'"
  using assms by (simp_all add: works_def)

lemma linv_cong:
  assumes "ID w' = ID w" "tree w' = tree w" "work_sharing_requests w' = work_sharing_requests w"
    "requested w' = requested w" "channel_stack w' = channel_stack w" "tasking_finished w' = tasking_finished w"
  shows "linv X (w', sh) \<longleftrightarrow> linv X (w, sh)"
  using assms by (simp add: linv_def held_ok_def tree_ok_def quiet_def view_def Let_def)

lemma linv_requested:
  assumes "linv X (w, sh)" "ID w' = ID w" "tree w' = tree w"
    "work_sharing_requests w' = work_sharing_requests w" "requested w' = 0 \<or> requested w' = 1"
    "set (bs_buffer (channel_stack w')) \<subseteq> {None, Some (ID w, 0)}" "tasking_finished w' = tasking_finished w"
  shows "linv X (w', sh)"
  using assms by (simp add: linv_def held_ok_def tree_ok_def quiet_def view_def Let_def)

lemma linv_drop:
  assumes "linv (X + Y) s" shows "linv X s"
proof -
  have "single N M T" if "single N (M + K) T" for N M T and K :: "token multiset"
    using that by (fastforce simp: single_def occupancy_def)
  then show ?thesis using assms by (simp add: linv_def add.assoc [symmetric]) blast
qed

lemma view_cong: "work_sharing_requests w' = work_sharing_requests w \<Longrightarrow> view (w', sh) = view (w, sh)"
  by (simp add: view_def)

lemma RECV_REQ_works:
  assumes "linv X s" "RECV_REQ cfg s = Some (r, s')"
  shows "works cfg X s (X + hand r) s' \<and> deque (fst s') = deque (fst s) \<and> quiescent (fst s') = quiescent (fst s) \<and>
    (\<forall>x. r = Some x \<longrightarrow> good_req (num_workers (snd s)) x \<and> req_state x \<noteq> STATE_FAILED)"
proof -
  obtain w sh w' sh' where s: "s = (w, sh)" "s' = (w', sh')" by (cases s; cases s')
  from RECV_REQ_ok [of X w sh cfg r w' sh'] assms s obtain chans
    where o: "linv (X + hand r) (w', sh')" "holds w w'" "sh' = sh\<lparr>chan_requests := chans\<rparr>"
      "view (w', sh') + hand r = view (w, sh)"
      "\<forall>x. r = Some x \<longrightarrow> good_req (num_workers sh) x \<and> req_state x \<noteq> STATE_FAILED" by auto
  have "answers sh' = answers sh" "signalled cfg sh' = signalled cfg sh"
    using o(3) by (simp_all add: answers_def signalled_def fun_eq_iff)
  moreover have "view (w', sh') + (X + hand r) = view (w, sh) + X" by (simp add: o(4) [symmetric] ac_simps)
  ultimately have "pstate cfg (X + hand r) s' = pstate cfg X s"
    using s holds_fields [OF o(2)] by (simp add: pstate_def)
  then show ?thesis using o s holds_fields [OF o(2)] by (auto simp: works_def frame_def)
qed

text \<open>A channel has room for a request that is not under way elsewhere.\<close>

lemma count_fst: "count (image_mset fst M) k = size (filter_mset (\<lambda>t. fst t = k) M)"
  by (induction M) auto

lemma count_le_1_distinct: "(\<And>k. k \<in> set l \<Longrightarrow> count (mset l) k \<le> 1) \<Longrightarrow> distinct l"
proof (induction l)
  case (Cons x l)
  have "count (mset l) k \<le> 1" if "k \<in> set l" for k
    using Cons.prems [of k] that by (auto split: if_splits)
  moreover have "x \<notin> set l" using Cons.prems [of x] by (auto simp: count_eq_zero_iff)
  ultimately show ?case using Cons.IH by simp
qed simp

lemma request_room:
  assumes inv: "linv (X + {#tok r#}) (w, sh)" and r: "good_req (num_workers sh) r" and j: "j < length (chan_requests sh)"
  shows "length (chan_requests sh ! j) < nat (num_workers sh)"
proof -
  let ?N = "num_workers sh" and ?q = "chan_requests sh ! j"
  let ?l = "req_ID r # map req_ID ?q"
  have g: "set ?l \<subseteq> {0..<?N}" using r chans_okD(6) [OF linvD(1) [OF inv] j] by (auto simp: good_req_def)
  have "toks (concat (chan_requests sh)) = toks (concat ((chan_requests sh)[j := []])) + toks ?q"
    using toks_concat_update [OF j, of "[]"] by simp
  then have "view (w, sh) + (X + {#tok r#}) =
      (toks (concat ((chan_requests sh)[j := []])) + toks (held w) + X) + (toks ?q + {#tok r#})"
    by (simp add: view_def)
  moreover have "image_mset fst (toks ?q + {#tok r#}) = mset ?l"
    by (simp add: toks_def tok_def image_mset.compositionality comp_def)
  ultimately have "count (mset ?l) k \<le> count (image_mset fst (view (w, sh) + (X + {#tok r#}))) k" for k
    by (metis image_mset_union count_union le_add2)
  moreover have "count (image_mset fst (view (w, sh) + (X + {#tok r#}))) k \<le> 1" if "k \<in> {0..<?N}" for k
    using linvD(3) [OF inv] that unfolding single_def occupancy_def count_fst
    by (meson add_leD1)
  ultimately have "count (mset ?l) k \<le> 1" if "k \<in> set ?l" for k using g that by (meson order_trans subsetD)
  then have "distinct ?l" by (rule count_le_1_distinct)
  then have "length ?l = card (set ?l)" by (simp only: distinct_card)
  also have "\<dots> \<le> card {0..<?N}" by (rule card_mono) (use g in auto)
  finally show ?thesis by simp
qed

text \<open>Sending puts the request into the channel: it is never full.\<close>

lemma SEND_REQ_WORKER_ok:
  assumes inv: "linv (X + {#tok r#}) (w, sh)" and r: "good_req (num_workers sh) r" "placed (nat v) r"
    and v: "0 \<le> v" "v < num_workers sh" and cfg: "MAXSTEAL cfg = 1"
    and q: "req_state r = STATE_FAILED \<longrightarrow> quiet (w, sh\<lparr>chan_requests := (chan_requests sh)[nat v := chan_requests sh ! nat v @ [r]]\<rparr>)"
    and send: "SEND_REQ_WORKER cfg v r (w, sh) = Some s'"
  shows "\<exists>sh' ks. s' = (w, sh') \<and>
    sh' = sh\<lparr>chan_requests := (chan_requests sh)[nat v := chan_requests sh ! nat v @ [r]], refusals := ks\<rparr> \<and>
    linv X (w, sh') \<and> view (w, sh') = add_mset (tok r) (view (w, sh))"
proof -
  note i = linvD [OF inv] and ch = chans_okD [OF linvD(1) [OF inv]]
  have vl: "nat v < length (chan_requests sh)" using v ch(2) by linarith
  obtain k sh1 where k: "next_refusals sh = (k, sh1)" by (cases "next_refusals sh")
  note f = next_refusals_fields [OF k]
  define ks where "ks = refusals sh1"
  let ?sh = "sh\<lparr>chan_requests := (chan_requests sh)[nat v := chan_requests sh ! nat v @ [r]], refusals := ks\<rparr>"
  have e: "sh1 = sh\<lparr>refusals := ks\<rparr>" unfolding ks_def by (rule next_refusals_memory [OF k])
  have "s' = (w, ?sh)"
    using send v cfg vl request_room [OF inv r(1) vl] k i(5) e
    by (auto simp: SEND_REQ_WORKER_def list_put_def bind_eq_Some_conv)
  moreover have view: "view (w, ?sh) = add_mset (tok r) (view (w, sh))"
    using toks_concat_update [OF vl, of "chan_requests sh ! nat v @ [r]"] by (simp add: view_def)
  moreover have ok: "chans_ok ?sh"
    unfolding chans_ok_def Let_def
  proof (intro conjI allI impI ballI)
    fix k x assume k: "k < length (chan_requests ?sh)" and x: "x \<in> set (chan_requests ?sh ! k)"
    have "good_req (num_workers sh) x \<and> placed k x"
      using x k ch(6) [of k x] r vl by (cases "k = nat v") auto
    then show "good_req (num_workers ?sh) x" "placed k x" by simp_all
  qed (use ch in simp_all)
  moreover have "quiet (w, ?sh)"
  proof (cases "req_state r = STATE_FAILED")
    case False
    have "x \<in> set (chan_requests sh ! k)" if "x \<in> set (chan_requests ?sh ! k)" "req_state x = STATE_FAILED" for x k
      using that False vl by (cases "k = nat v") auto
    moreover have "tree_ok (num_workers sh) w" using i(2) by (simp add: held_ok_def)
    ultimately show ?thesis
      using False by (intro quiet_sub [OF i(4) _ _ _ _ _ i(1)]) (auto simp: view tok_def)
  qed (use q in \<open>simp add: quiet_def view_def Let_def\<close>)
  moreover have "answers ?sh = answers sh" by (simp add: answers_def fun_eq_iff)
  ultimately show ?thesis using i by (intro exI [of _ ?sh] exI [of _ ks]) (simp add: linv_def)
qed

text \<open>What choosing a victim changes.\<close>

lemma potential_victim_fields:
  "potential_victim rand cfg N req w = Some (v, w') \<Longrightarrow> w' = w\<lparr>victim_sel := victim_sel w'\<rparr>"
  by (auto simp: potential_victim_def Let_def split: victim_policy.splits if_splits Option.bind_splits)

lemma next_victim_fields:
  assumes "next_victim rand cfg N req w = Some (v, req', w')"
  shows "0 \<le> v \<and> v < N \<and> w' = w\<lparr>victim_sel := victim_sel w'\<rparr> \<and>
    req' = req\<lparr>req_victims := req_victims req'\<rparr>"
proof -
  let ?req = "req\<lparr>req_victims := req_victims req AND NOT (BIT (nat (ID w)))\<rparr>"
  show ?thesis
  proof (cases "req_try req = MAX_STEAL_ATTEMPTS N")
    case True
    then show ?thesis using assms by (auto simp: next_victim_def Let_def split: if_splits Option.bind_splits)
  next
    case False
    then obtain victims u where pv: "potential_victim rand cfg N (?req\<lparr>req_victims := victims\<rparr>) w = Some (u, w')"
      and req': "req' = ?req\<lparr>req_victims := victims\<rparr>" and v: "0 \<le> v" "v < N"
      using assms unfolding next_victim_def Let_def
      by (auto split: Option.bind_splits if_splits)
    then show ?thesis using potential_victim_fields [OF pv] by simp
  qed
qed

lemma FORGET_REQ_fields:
  assumes "FORGET_REQ req w = Some w'"
  shows "req_ID req = ID w \<and> requested w \<noteq> 0 \<and>
    w' = w\<lparr>requested := requested w - 1, channel_stack := channel_stack w'\<rparr>"
  using assms by (auto simp: FORGET_REQ_def CHANNEL_PUSH_def split: Option.bind_splits)

lemma held_ok_stack: "held_ok N w \<Longrightarrow> set (bs_buffer (channel_stack w)) \<subseteq> {None, Some (ID w, 0)}"
  by (simp add: held_ok_def)

lemma push_own:
  assumes "bounded_stack_push st (i, 0) = Some st'" "set (bs_buffer st) \<subseteq> {None, Some (i, 0)}"
  shows "set (bs_buffer st') \<subseteq> {None, Some (i, 0)}"
proof -
  have "bs_buffer st' = (bs_buffer st)[unat (bs_top st) := Some (i, 0)]"
    using assms(1) by (auto simp: bounded_stack_push_def Let_def write_at_Some bind_eq_Some_conv)
  then show ?thesis using assms(2) set_update_subset_insert [of "bs_buffer st" "unat (bs_top st)" "Some (i, 0)"] by auto
qed

lemma FORGET_REQ_works:
  assumes inv: "linv (X + {#tok req#}) (w, sh)" and g: "good_req (num_workers sh) req"
    and f: "FORGET_REQ req w = Some w'"
  shows "works cfg (X + {#tok req#}) (w, sh) X (w', sh) \<and> deque w' = deque w \<and> quiescent w' = quiescent w"
proof -
  note e = FORGET_REQ_fields [OF f]
  obtain st where st: "w' = w\<lparr>requested := requested w - 1, channel_stack := st\<rparr>" using e by blast
  have w: "ID w' = ID w" "tree w' = tree w" "work_sharing_requests w' = work_sharing_requests w"
    "requested w' = requested w - 1" "blocked w' = blocked w" "tasking_finished w' = tasking_finished w"
    "deque w' = deque w" "quiescent w' = quiescent w"
    using st by simp_all
  have "requested w = 1" using linvD(2) [OF inv] e by (auto simp: held_ok_def)
  moreover have "bounded_stack_push (channel_stack w) (ID w, 0) = Some (channel_stack w')"
    using f g e by (auto simp: FORGET_REQ_def CHANNEL_PUSH_def good_req_def bind_eq_Some_conv)
  then have "set (bs_buffer (channel_stack w')) \<subseteq> {None, Some (ID w, 0)}"
    by (rule push_own) (rule held_ok_stack [OF linvD(2) [OF inv]])
  ultimately have "linv X (w', sh)" using linv_requested [OF linv_drop [OF inv]] w by auto
  moreover have "tok req = (ID w, req_state req)" using e by (simp add: tok_def)
  then have "work_step (ID w) (pstate cfg (X + {#tok req#}) (w, sh)) (pstate cfg X (w', sh))"
    using Forget [of "ID w" "req_state req" "view (w, sh) + X" "answers sh" "requested w" "signalled cfg sh"]
      view_cong [OF w(3)] w(4) by (simp add: pstate_def)
  ultimately show ?thesis using w by (auto simp: works_def frame_def)
qed

text \<open>
  Sending a request that is in hand: the token returns to the pool. Only fields that are not part of
  the protocol may have changed before.
\<close>

definition same_protocol :: "worker \<Rightarrow> worker \<Rightarrow> bool" where
  "same_protocol w w' \<longleftrightarrow> ID w' = ID w \<and> tree w' = tree w \<and> requested w' = requested w \<and>
     work_sharing_requests w' = work_sharing_requests w \<and> blocked w' = blocked w \<and>
     tasking_finished w' = tasking_finished w \<and> channel_stack w' = channel_stack w \<and>
     dropped_steal_requests w' = dropped_steal_requests w \<and> requests_sent w' = requests_sent w \<and>
     requests_steal_one w' = requests_steal_one w \<and> requests_steal_half w' = requests_steal_half w"

lemma same_protocol_works:
  assumes "linv X (w, sh)" "same_protocol w w'"
  shows "works cfg X (w, sh) X (w', sh)"
proof -
  have "linv X (w', sh)" using linv_cong [of w' w X sh] assms by (simp add: same_protocol_def)
  moreover have "pstate cfg X (w', sh) = pstate cfg X (w, sh)"
    using assms(2) view_cong [of w' w sh] by (simp add: pstate_def same_protocol_def)
  ultimately show ?thesis using assms(2) by (simp add: works_def frame_def same_protocol_def)
qed

lemma send_works:
  assumes inv: "linv (X + {#tok r#}) (w, sh)" and r: "good_req (num_workers sh) r" "req_state r \<noteq> STATE_FAILED"
    and cfg: "MAXSTEAL cfg = 1" and v: "0 \<le> v" "v < num_workers sh"
    and send: "SEND_REQ_WORKER cfg v r (w, sh) = Some s'"
  shows "works cfg (X + {#tok r#}) (w, sh) X s' \<and> fst s' = w"
proof -
  obtain sh' ks where o: "s' = (w, sh')"
    "sh' = sh\<lparr>chan_requests := (chan_requests sh)[nat v := chan_requests sh ! nat v @ [r]], refusals := ks\<rparr>"
    "linv X (w, sh')" "view (w, sh') = add_mset (tok r) (view (w, sh))"
    using SEND_REQ_WORKER_ok [OF inv r(1) _ v cfg _ send] r(2) by (auto simp: placed_def)
  have "answers sh' = answers sh" "signalled cfg sh' = signalled cfg sh" "num_workers sh' = num_workers sh"
    using o(2) by (simp_all add: answers_def signalled_def fun_eq_iff)
  then have "pstate cfg X (w, sh') = pstate cfg (X + {#tok r#}) (w, sh)"
    using o(4) by (simp add: pstate_def)
  then show ?thesis using o(1,3) \<open>num_workers sh' = num_workers sh\<close> by (auto simp: works_def frame_def)
qed

text \<open>Passing a request on, whatever the worker and the request: choose a victim and send.\<close>

lemma pass_on_works:
  assumes inv: "linv (X + {#tok r#}) (w, sh)" and r: "good_req (num_workers sh) r" "req_state r \<noteq> STATE_FAILED"
    and cfg: "MAXSTEAL cfg = 1" and nv: "next_victim rand cfg (num_workers sh) r w = Some (v, r', w')"
    and send: "SEND_REQ_WORKER cfg v r' (w', sh) = Some s'"
  shows "works cfg (X + {#tok r#}) (w, sh) X s' \<and> deque (fst s') = deque w \<and> quiescent (fst s') = quiescent w"
proof -
  note n = next_victim_fields [OF nv]
  obtain vs vi where e: "w' = w\<lparr>victim_sel := vs\<rparr>" "r' = r\<lparr>req_victims := vi\<rparr>" using n by blast
  have "works cfg (X + {#tok r#}) (w, sh) (X + {#tok r#}) (w', sh)"
    using same_protocol_works [OF inv, of w'] e by (simp add: same_protocol_def)
  moreover have t: "tok r' = tok r" using e by (simp add: tok_def)
  moreover have "good_req (num_workers sh) r'" "req_state r' \<noteq> STATE_FAILED" using r e by (simp_all add: good_req_def)
  then have "works cfg (X + {#tok r'#}) (w', sh) X s' \<and> fst s' = w'"
    using send_works [of X r' w' sh cfg v s'] worksD(1) [OF calculation(1)] t cfg n send by simp
  ultimately show ?thesis using works_trans e by auto
qed

lemma decline_works:
  assumes inv: "linv (X + {#tok r#}) (w, sh)" and r: "good_req (num_workers sh) r" "req_state r \<noteq> STATE_FAILED"
    and own: "req_ID r = ID w \<Longrightarrow> req_state r \<noteq> STATE_IDLE" and cfg: "MAXSTEAL cfg = 1"
    and dec: "decline_steal_request rand cfg r (w, sh) = Some s'"
  shows "works cfg (X + {#tok r#}) (w, sh) X s' \<and> deque (fst s') = deque w \<and> quiescent (fst s') = quiescent w"
proof -
  let ?w = "w\<lparr>requests_declined := requests_declined w + 1\<rparr>"
  let ?r = "r\<lparr>req_try := req_try r + 1\<rparr>"
  let ?own = "?r\<lparr>req_try := 0, req_victims := INIT_VICTIMS (num_workers sh)\<rparr>"
  have w: "works cfg (X + {#tok r#}) (w, sh) (X + {#tok r#}) (?w, sh)"
    using same_protocol_works [OF inv, of ?w] by (simp add: same_protocol_def)
  note inv' = worksD(1) [OF w]
  show ?thesis
  proof (cases "req_ID r = ID w")
    case False
    then obtain v r' w' where "next_victim rand cfg (num_workers sh) ?r ?w = Some (v, r', w')"
      "SEND_REQ_WORKER cfg v r' (w', sh) = Some s'"
      using dec by (auto simp: decline_steal_request_def Let_def split: Option.bind_splits)
    then show ?thesis
      using pass_on_works [of X ?r ?w sh cfg rand v r' w' s'] inv' r cfg works_trans [OF w]
      by (simp add: tok_def good_req_def)
  next
    case True
    with own dec obtain v r' w' where nv: "next_victim rand cfg (num_workers sh) ?own ?w = Some (v, r', w')"
      and rest: "if v \<noteq> ID w' then SEND_REQ_WORKER cfg v r' (w', sh) = Some s'
        else \<exists>w''. FORGET_REQ r' w' = Some w'' \<and> s' = (w'', sh)"
      by (auto simp: decline_steal_request_def Let_def split: Option.bind_splits if_splits)
    note n = next_victim_fields [OF nv]
    obtain vs vi where e: "w' = ?w\<lparr>victim_sel := vs\<rparr>" "r' = ?own\<lparr>req_victims := vi\<rparr>" using n by blast
    have t: "tok r' = tok r" "tok ?own = tok r" using e by (simp_all add: tok_def)
    show ?thesis
    proof (cases "v = ID w'")
      case False
      then show ?thesis
        using pass_on_works [of X ?own ?w sh cfg rand v r' w' s'] nv rest inv' r cfg works_trans [OF w] t
        by (simp add: good_req_def)
    next
      case True
      then obtain w'' where f: "FORGET_REQ r' w' = Some w''" "s' = (w'', sh)" using rest by auto
      have "works cfg (X + {#tok r#}) (?w, sh) (X + {#tok r#}) (w', sh)"
        using same_protocol_works [OF inv', of w'] e by (simp add: same_protocol_def)
      from works_trans [OF w this] have w2: "works cfg (X + {#tok r#}) (w, sh) (X + {#tok r#}) (w', sh)" .
      from FORGET_REQ_works [of X r' w' sh w'' cfg] f worksD(1) [OF w2] t r(1) e(2)
      have "works cfg (X + {#tok r#}) (w', sh) X s' \<and> deque (fst s') = deque w' \<and> quiescent (fst s') = quiescent w'"
        by (simp add: good_req_def)
      then show ?thesis using works_trans [OF w2] e by auto
    qed
  qed
qed

end
