(* ===== verification/Busy.thy ===== *)
theory Busy
  imports Tokens
begin

text \<open>
  Every entry point a busy worker goes through (\<^verbatim>\<open>RT_push\<close>, \<^verbatim>\<open>RT_pop\<close>, \<^verbatim>\<open>RT_poll\<close>, the receipt of tasks)
  keeps the token invariant: requests are answered, forwarded or forgotten, never lost or
  duplicated.
\<close>

section \<open>Answering with tasks\<close>

text \<open>A task has been put into the empty channel of a request.\<close>

definition sent :: "steal_request \<Rightarrow> shared \<Rightarrow> shared \<Rightarrow> bool" where
  "sent r sh sh' \<longleftrightarrow> num_workers sh' = num_workers sh \<and> chan_requests sh' = chan_requests sh \<and>
     signals sh' = signals sh \<and> (\<exists>task. chan_tasks sh' = (chan_tasks sh)[nat (req_ID r) := [[task]]])"

lemma user_memory_refl [simp]: "user_memory sh sh"
  by (simp add: user_memory_def)

lemma user_memory_trans: "user_memory sh sh' \<Longrightarrow> user_memory sh' sh'' \<Longrightarrow> user_memory sh sh''"
  by (simp add: user_memory_def)

lemma sent_memory: "user_memory sh sh1 \<Longrightarrow> sent r sh1 sh2 \<Longrightarrow> user_memory sh2 sh3 \<Longrightarrow> sent r sh sh3"
  by (simp add: user_memory_def sent_def)

lemma user_memory_facts:
  assumes "user_memory sh sh'"
  shows "chans_ok sh' \<longleftrightarrow> chans_ok sh" "answers sh' = answers sh" "signalled cfg sh' = signalled cfg sh"
    "view (w, sh') = view (w, sh)" "linv X (w, sh') \<longleftrightarrow> linv X (w, sh)"
proof -
  have m: "num_workers sh' = num_workers sh" "chan_requests sh' = chan_requests sh"
    "chan_tasks sh' = chan_tasks sh" "signals sh' = signals sh" using assms by (simp_all add: user_memory_def)
  then show c: "chans_ok sh' \<longleftrightarrow> chans_ok sh" and a: "answers sh' = answers sh"
    and "signalled cfg sh' = signalled cfg sh" and v: "view (w, sh') = view (w, sh)"
    by (simp_all add: chans_ok_def answers_def signalled_def view_def fun_eq_iff)
  show "linv X (w, sh') \<longleftrightarrow> linv X (w, sh)"
    using m c a v by (simp add: linv_def quiet_def)
qed

lemma memory_works:
  assumes "linv X (w, sh)" "same_protocol w w'" "user_memory sh sh'"
  shows "works cfg X (w, sh) X (w', sh')"
proof -
  have "works cfg X (w, sh) X (w', sh)" by (rule same_protocol_works [OF assms(1,2)])
  then show ?thesis
    using user_memory_facts [OF assms(3)] assms(3)
    by (simp add: works_def pstate_def frame_def user_memory_def)
qed

lemma answers_0:
  assumes "chans_ok sh" "0 \<le> i" "i < num_workers sh" "answers sh i = 0"
  shows "chan_tasks sh ! nat i = [[]]"
proof -
  have "length (chan_tasks sh ! nat i) = 1" using chans_okD(5) [OF assms(1)] assms(2,3) by simp
  then obtain q where "chan_tasks sh ! nat i = [q]" by (metis One_nat_def length_0_conv length_Suc_conv)
  then show ?thesis using assms(2,4) by (simp add: answers_def)
qed

lemma send_task_sent:
  assumes "chans_ok sh" "good_req (num_workers sh) r" "answers sh (req_ID r) = 0"
    "send_task (req_chan r) task sh = Some (b, sh')"
  shows "b \<and> sent r sh sh'"
proof -
  have c: "req_chan r = (req_ID r, 0)" "0 \<le> req_ID r" "req_ID r < num_workers sh"
    using assms(2) by (auto simp: good_req_def)
  have l: "nat (req_ID r) < length (chan_tasks sh)" using c chans_okD(3) [OF assms(1)] by linarith
  have e: "chan_tasks sh ! nat (req_ID r) = [[]]" by (rule answers_0) (use assms c in auto)
  show ?thesis
    using assms(4) send_task_empty [of "req_ID r" sh 0 task] c l e by (auto simp: sent_def)
qed

lemma sent_answers:
  assumes "chans_ok sh" "0 \<le> req_ID r" "req_ID r < num_workers sh" "answers sh (req_ID r) = 0" "sent r sh sh'"
  shows "answers sh' = (answers sh)(req_ID r := Suc 0)" "chans_ok sh'"
proof -
  obtain task where t: "chan_tasks sh' = (chan_tasks sh)[nat (req_ID r) := [[task]]]"
    using assms(5) by (auto simp: sent_def)
  have l: "nat (req_ID r) < length (chan_tasks sh)" using assms(1-3) chans_okD(3) by fastforce
  show "answers sh' = (answers sh)(req_ID r := Suc 0)"
    using t l assms(2) by (auto simp: answers_def fun_eq_iff nth_list_update)
  have "length (chan_tasks sh' ! j) = 1" if "j < nat (num_workers sh)" for j
    using t l chans_okD(5) [OF assms(1) that] by (simp add: nth_list_update)
  then show "chans_ok sh'"
    using assms(1,5) by (auto simp: chans_ok_def sent_def Let_def)
qed

lemma sent_same:
  assumes "sent r sh sh'"
  shows "view (w, sh') = view (w, sh)" "signalled cfg sh' = signalled cfg sh" "quiet (w, sh') \<longleftrightarrow> quiet (w, sh)"
    "num_workers sh' = num_workers sh"
  using assms by (simp_all add: sent_def view_def signalled_def quiet_def fun_eq_iff Let_def)

lemma occupancy_in:
  assumes "single N M T" "(i, st) \<in># M" "0 \<le> i" "i < N"
  shows "T i = 0" "size (filter_mset (\<lambda>t. fst t = i) M) = 1"
proof -
  have "0 < size (filter_mset (\<lambda>t. fst t = i) M)"
    using assms(2) by (intro gr0I) (auto simp: filter_mset_eq_mempty_iff)
  moreover have "size (filter_mset (\<lambda>t. fst t = i) M) + T i \<le> 1"
    using assms(1,3,4) by (simp add: single_def occupancy_def)
  ultimately show "T i = 0" "size (filter_mset (\<lambda>t. fst t = i) M) = 1" by linarith+
qed

lemma single_answer:
  assumes "single N (add_mset (i, st) M) T" "0 \<le> i" "i < N"
  shows "single N M (T(i := Suc 0))"
proof -
  have "T i = 0" using occupancy_in [of N "add_mset (i, st) M" T i st] assms by simp
  then show ?thesis using assms(1) by (auto simp: single_def occupancy_def split: if_splits)
qed

lemma sent_works:
  assumes inv: "linv (X + {#tok r#}) (w, sh)" and r: "good_req (num_workers sh) r" "req_state r \<noteq> STATE_FAILED"
    "req_ID r \<noteq> ID w" and s: "sent r sh sh'"
  shows "works cfg (X + {#tok r#}) (w, sh) X (w, sh')"
proof -
  note i = linvD [OF inv]
  have b: "0 \<le> req_ID r" "req_ID r < num_workers sh" using r(1) by (auto simp: good_req_def)
  have si: "single (num_workers sh) (add_mset (req_ID r, req_state r) (view (w, sh) + X)) (answers sh)"
    using i(3) by (simp add: tok_def)
  have z: "answers sh (req_ID r) = 0" using occupancy_in(1) [OF si, of "req_ID r" "req_state r"] b by simp
  note a = sent_answers [OF i(1) b z s] and e = sent_same [OF s]
  have "linv X (w, sh')"
    using i(2,4,5) a e single_answer [OF si b] by (simp add: linv_def)
  moreover have "work_step (ID w) (pstate cfg (X + {#tok r#}) (w, sh)) (pstate cfg X (w, sh'))"
    using Answer [of "req_ID r" "ID w" "req_state r" "view (w, sh) + X" "answers sh" "requested w" "signalled cfg sh"]
      r a(1) e z by (simp add: pstate_def tok_def)
  ultimately show ?thesis using e(4) by (auto simp: works_def frame_def)
qed

section \<open>Stealing from a worker\<close>

lemma close_gap_live: "close_gap h dq task = Some r \<Longrightarrow> task \<noteq> NULL"
  by (auto simp: close_gap_def)

text \<open>A steal changes the deque only, and takes something if there is something.\<close>

lemma steal_tasks_fields:
  assumes "steal_tasks cfg req (w, sh) = Some (task, loot, w', sh')"
  shows "(\<exists>dq. w' = w\<lparr>deque := dq\<rparr>) \<and> (\<exists>h. sh' = sh\<lparr>task_mem := h\<rparr>) \<and>
    (task = NULL \<longrightarrow> deque_empty (deque w) \<and> deque w' = deque w)"
proof (cases "STEAL cfg = Steal_Half \<or> STEAL cfg = Steal_Adaptive \<and> req_stealhalf req")
  case True
  then obtain st dq h where "deque_steal_half_2 (task_mem sh) (deque w) = Some (task, st, dq, h)"
    and e: "w' = w\<lparr>deque := dq\<rparr>" "sh' = sh\<lparr>task_mem := h\<rparr>"
    using assms by (auto simp: steal_tasks_def Let_def split: Option.bind_splits)
  then have "task = NULL \<longrightarrow> deque_empty (deque w) \<and> dq = deque w"
    by (auto simp: deque_steal_half_2_def steal_n_def Let_def split: if_splits Option.bind_splits
        dest: close_gap_live)
  with e show ?thesis by auto
next
  case False
  then obtain dq h where "deque_steal (task_mem sh) (deque w) = Some (task, dq, h)"
    and e: "w' = w\<lparr>deque := dq\<rparr>" "sh' = sh\<lparr>task_mem := h\<rparr>"
    using assms by (auto simp: steal_tasks_def Let_def split: Option.bind_splits)
  then have "task = NULL \<longrightarrow> deque_empty (deque w) \<and> dq = deque w"
    by (auto simp: deque_steal_def Let_def split: if_splits Option.bind_splits dest: close_gap_live)
  with e show ?thesis by auto
qed

lemma malloc_memory: "malloc sh = (p, sh') \<Longrightarrow> user_memory sh sh'"
  by (auto simp: malloc_def user_memory_def split: list.splits)

lemma convert_future_memory: "convert_future env t sh = Some sh' \<Longrightarrow> user_memory sh sh'"
  by (auto simp: convert_future_def user_memory_def Let_def malloc_def
      split: if_splits list.splits prod.splits Option.bind_splits)

text \<open>The fields of a worker that the runtime itself does not look at while it answers requests.\<close>

definition same_control :: "worker \<Rightarrow> worker \<Rightarrow> bool" where
  "same_control w w' \<longleftrightarrow> same_protocol w w' \<and> quiescent w' = quiescent w"

lemma same_control_refl [simp]: "same_control w w"
  by (simp add: same_control_def same_protocol_def)

lemma same_control_trans: "same_control w w' \<Longrightarrow> same_control w' w'' \<Longrightarrow> same_control w w''"
  by (simp add: same_control_def same_protocol_def)

lemma convert_futures_fields:
  assumes "convert_futures env t s = Some s'"
  shows "same_control (fst s) (fst s') \<and> deque (fst s') = deque (fst s) \<and> user_memory (snd s) (snd s')"
proof (rule convert_futures.raw_induct [OF _ assms])
  fix cf :: "env \<Rightarrow> addr \<Rightarrow> wst \<Rightarrow> wst option" and env t s s'
  assume IH: "\<And>env t s s'. cf env t s = Some s' \<Longrightarrow>
      same_control (fst s) (fst s') \<and> deque (fst s') = deque (fst s) \<and> user_memory (snd s) (snd s')"
    and step: "(if t \<noteq> NULL then do {
        x \<leftarrow> deref (task_mem (snd s)) t;
        s \<leftarrow> (if t_has_future x then do {
            sh \<leftarrow> convert_future env x (snd s);
            Some ((fst s)\<lparr>futures_converted := futures_converted (fst s) + 1\<rparr>, sh)
          } else Some s);
        cf env (t_next x) s
      } else Some s) = Some s'"
  show "same_control (fst s) (fst s') \<and> deque (fst s') = deque (fst s) \<and> user_memory (snd s) (snd s')"
  proof (cases "t = NULL")
    case True
    then show ?thesis using step by simp
  next
    case False
    then obtain x s1 where "deref (task_mem (snd s)) t = Some x"
      and s1: "(if t_has_future x then do {
            sh \<leftarrow> convert_future env x (snd s);
            Some ((fst s)\<lparr>futures_converted := futures_converted (fst s) + 1\<rparr>, sh)
          } else Some s) = Some s1" and r: "cf env (t_next x) s1 = Some s'"
      using step by (auto split: Option.bind_splits)
    have "same_control (fst s) (fst s1) \<and> deque (fst s1) = deque (fst s) \<and> user_memory (snd s) (snd s1)"
      using s1 by (auto simp: same_control_def same_protocol_def dest: convert_future_memory
          split: if_splits Option.bind_splits)
    with IH [OF r] show ?thesis using same_control_trans user_memory_trans by metis
  qed
qed

lemma handle_other:
  assumes ch: "chans_ok sh" and r: "good_req (num_workers sh) r" "answers sh (req_ID r) = 0" "req_ID r \<noteq> ID w"
    and h: "handle_steal_request env cfg r (w, sh) = Some (w', sh')"
  shows "same_control w w' \<and> sent r sh sh' \<or>
    deque_empty (deque w) \<and> (\<exists>dq h. decline_steal_request (env_rand env) cfg r (w\<lparr>deque := dq\<rparr>, sh\<lparr>task_mem := h\<rparr>) = Some (w', sh'))"
proof -
  obtain task loot w1 sh1 where st: "steal_tasks cfg r (w, sh) = Some (task, loot, w1, sh1)"
    using h r(3) by (auto simp: handle_steal_request_def split: Option.bind_splits)
  note f = steal_tasks_fields [OF st]
  obtain dq hp where e: "w1 = w\<lparr>deque := dq\<rparr>" "sh1 = sh\<lparr>task_mem := hp\<rparr>" using f by blast
  show ?thesis
  proof (cases "task = NULL")
    case True
    then have "deque_empty (deque w)" "decline_steal_request (env_rand env) cfg r (w1, sh1) = Some (w', sh')"
      using h r(3) st f by (auto simp: handle_steal_request_def split: Option.bind_splits)
    then show ?thesis using e by blast
  next
    case False
    then obtain sh1' w2 sh2 b sh3 where
      c: "convert_futures env task (w1, sh1') = Some (w2, sh2)" "user_memory sh1 sh1'"
      and snd: "send_task (req_chan r) task sh2 = Some (b, sh3)" "sh' = sh3" and w': "same_control w2 w'"
      using h r(3) st by (fastforce simp: handle_steal_request_def same_control_def same_protocol_def
          user_memory_def Let_def split: Option.bind_splits if_splits)
    have m: "user_memory sh sh2" "same_control w w2"
      using convert_futures_fields [OF c(1)] c(2) e by (auto simp: user_memory_def same_control_def same_protocol_def)
    have "sent r sh2 sh3"
      using send_task_sent [OF _ _ _ snd(1)] ch r m(1) user_memory_facts(1,2) [OF m(1)]
      by (simp add: user_memory_def)
    then have "sent r sh sh'" using sent_memory [OF m(1) _ user_memory_refl] snd(2) by simp
    then show ?thesis using m(2) w' same_control_trans by blast
  qed
qed

section \<open>Splitting\<close>

lemma RT_task_alloc_fields:
  assumes "RT_task_alloc junk (w, sh) = Some (t, w', sh')"
  shows "(\<exists>dq. w' = w\<lparr>deque := dq\<rparr>) \<and> user_memory sh sh'"
  using assms
  by (auto simp: RT_task_alloc_def Let_def user_memory_def malloc_def
      split: if_splits list.splits Option.bind_splits)

lemma patch_future_fields:
  assumes "patch_future env dup (w, sh) = Some (w', sh')"
  shows "same_control w w' \<and> deque w' = deque w \<and> user_memory sh sh'"
  using assms
  by (auto simp: patch_future_def Let_def user_memory_def malloc_def same_control_def same_protocol_def
      split: list.splits Option.bind_splits)

lemma split_loop_sent:
  assumes ch: "chans_ok sh" and r: "good_req (num_workers sh) r" "answers sh (req_ID r) = 0"
    and sp: "split_loop env cfg task r (w, sh) = Some (w', sh')"
  shows "same_control w w' \<and> sent r sh sh' \<and> req_ID r \<noteq> ID w"
proof -
  obtain dup w1 sh1 where al: "RT_task_alloc (env_junk env) (w, sh) = Some (dup, w1, sh1)"
    and ne: "req_ID r \<noteq> ID w" using sp by (auto simp: split_loop_def split: Option.bind_splits)
  obtain t h1 split h2 h3 where h3: "deref (task_mem sh1) task = Some t"
      "assign (task_mem sh1) dup (\<lambda>_. t) = Some h1" "SPLIT_FUNC cfg (w1, sh1) t = Some split"
      "assign h1 dup (\<lambda>d. d\<lparr>t_start := split, t_cur := split, t_end := t_end t\<rparr>) = Some h2"
      "(if VICTIM cfg = Last_Victim then assign h2 dup (\<lambda>d. d\<lparr>t_victim := ID w1\<rparr>) else Some h2) = Some h3"
    using sp al ne by (auto simp: split_loop_def Let_def bind_eq_Some_conv)
  obtain w2 sh2 where
    pf: "(if t_has_future t then patch_future env dup (w1, sh1\<lparr>task_mem := h3\<rparr>)
      else Some (w1, sh1\<lparr>task_mem := h3\<rparr>)) = Some (w2, sh2)"
    using sp al ne h3 by (auto simp: split_loop_def Let_def bind_eq_Some_conv)
  obtain b sh3 h where sd: "send_task (req_chan r) dup sh2 = Some (b, sh3)" "sh' = sh3\<lparr>task_mem := h\<rparr>"
    and w3: "same_control w2 w'"
    using sp al ne h3 pf
    by (auto simp: split_loop_def Let_def bind_eq_Some_conv same_control_def same_protocol_def)
  let ?sh2 = "sh1\<lparr>task_mem := h3\<rparr>"
  have m: "same_control w w1" "user_memory sh sh1"
    using RT_task_alloc_fields [OF al] by (auto simp: same_control_def same_protocol_def)
  have m2: "same_control w1 w2" "user_memory ?sh2 sh2"
    using pf patch_future_fields [of env dup w1 ?sh2 w2 sh2] by (auto split: if_splits)
  have "user_memory sh ?sh2" using m(2) by (simp add: user_memory_def)
  then have mm: "user_memory sh sh2" using m2(2) user_memory_trans by blast
  have "sent r sh2 sh3"
    using send_task_sent [OF _ _ _ sd(1)] ch r mm user_memory_facts(1,2) [OF mm]
    by (simp add: user_memory_def)
  moreover have "user_memory sh3 sh'" using sd(2) by (simp add: user_memory_def)
  ultimately have "sent r sh sh'" using sent_memory [OF mm] by blast
  then show ?thesis using ne m(1) m2(1) w3 same_control_trans by blast
qed

section \<open>Handling requests\<close>

text \<open>A request in the hands of a busy worker: not a failed one, and not an idle one of its own.\<close>

definition in_hand :: "wst \<Rightarrow> steal_request \<Rightarrow> bool" where
  "in_hand s r \<longleftrightarrow> good_req (num_workers (snd s)) r \<and> req_state r \<noteq> STATE_FAILED \<and>
     (req_ID r = ID (fst s) \<longrightarrow> req_state r \<noteq> STATE_IDLE)"

lemma hand_unanswered:
  assumes "linv (X + {#tok r#}) (w, sh)" "good_req (num_workers sh) r"
  shows "answers sh (req_ID r) = 0"
  using occupancy_in(1) [OF linvD(3) [OF assms(1)], of "req_ID r" "req_state r"] assms(2)
  by (simp add: tok_def good_req_def)

text \<open>The contract of handlers, with what else they leave alone.\<close>

definition handles :: "config \<Rightarrow> token multiset \<Rightarrow> wst \<Rightarrow> token multiset \<Rightarrow> wst \<Rightarrow> bool" where
  "handles cfg X s Y s' \<longleftrightarrow> works cfg X s Y s' \<and> quiescent (fst s') = quiescent (fst s)"

lemma handles_refl: "linv X s \<Longrightarrow> handles cfg X s X s"
  by (simp add: handles_def works_refl)

lemma handles_trans: "handles cfg X s Y s' \<Longrightarrow> handles cfg Y s' Z s'' \<Longrightarrow> handles cfg X s Z s''"
  unfolding handles_def by (metis works_trans)

lemma handles_inv: "handles cfg X s Y s' \<Longrightarrow> linv Y s'"
  by (simp add: handles_def works_def)

lemma control_handles:
  "linv X (w, sh) \<Longrightarrow> same_control w w' \<Longrightarrow> user_memory sh sh' \<Longrightarrow> handles cfg X (w, sh) X (w', sh')"
  by (simp add: handles_def same_control_def memory_works)

lemma sent_handles:
  assumes "linv (X + {#tok r#}) (w, sh)" "in_hand (w, sh) r" "req_ID r \<noteq> ID w" "same_control w w'" "sent r sh sh'"
  shows "handles cfg (X + {#tok r#}) (w, sh) X (w', sh')"
proof -
  have "works cfg (X + {#tok r#}) (w, sh) X (w, sh')"
    using sent_works [of X r w sh sh'] assms by (simp add: in_hand_def)
  then have "handles cfg (X + {#tok r#}) (w, sh) X (w, sh')" by (simp add: handles_def)
  moreover from handles_inv [OF this] have "handles cfg X (w, sh') X (w', sh')"
    using assms(4) control_handles by simp
  ultimately show ?thesis by (rule handles_trans)
qed

lemma decline_handles:
  assumes "linv (X + {#tok r#}) (w, sh)" "in_hand (w, sh) r" "MAXSTEAL cfg = 1"
    "decline_steal_request rand cfg r (w, sh) = Some s'"
  shows "handles cfg (X + {#tok r#}) (w, sh) X s'"
  using decline_works [OF assms(1) _ _ _ assms(3,4)] assms(2) by (simp add: in_hand_def handles_def)

lemma FORGET_REQ_handles:
  assumes "linv (X + {#tok r#}) (w, sh)" "good_req (num_workers sh) r" "FORGET_REQ r w = Some w'"
  shows "handles cfg (X + {#tok r#}) (w, sh) X (w', sh)"
  using FORGET_REQ_works [OF assms] by (simp add: handles_def)

lemma handle_steal_request_handles:
  assumes inv: "linv (X + {#tok r#}) (w, sh)" and r: "in_hand (w, sh) r" and cfg: "MAXSTEAL cfg = 1"
    and h: "handle_steal_request env cfg r (w, sh) = Some s'"
  shows "handles cfg (X + {#tok r#}) (w, sh) X s'"
proof (cases "req_ID r = ID w")
  case True
  then consider w' where "FORGET_REQ r w = Some w'" "s' = (w', sh)" |
      "decline_steal_request (env_rand env) cfg r (w, sh) = Some s'"
    using h by (auto simp: handle_steal_request_def Let_def bind_eq_Some_conv split: if_splits)
  then show ?thesis
    using FORGET_REQ_handles [OF inv] r decline_handles [OF inv r cfg] by cases (auto simp: in_hand_def)
next
  case False
  obtain w' sh' where s': "s' = (w', sh')" by (cases s')
  have g: "good_req (num_workers sh) r" using r by (simp add: in_hand_def)
  from handle_other [OF linvD(1) [OF inv] g hand_unanswered [OF inv g] False] h s'
  consider "same_control w w'" "sent r sh sh'" | dq h where
    "decline_steal_request (env_rand env) cfg r (w\<lparr>deque := dq\<rparr>, sh\<lparr>task_mem := h\<rparr>) = Some (w', sh')" by blast
  then show ?thesis
  proof cases
    case 1
    then show ?thesis using sent_handles [OF inv r False] s' by simp
  next
    case (2 dq h)
    have a: "handles cfg (X + {#tok r#}) (w, sh) (X + {#tok r#}) (w\<lparr>deque := dq\<rparr>, sh\<lparr>task_mem := h\<rparr>)"
      by (rule control_handles [OF inv]) (simp_all add: same_control_def same_protocol_def user_memory_def)
    have "handles cfg (X + {#tok r#}) (w\<lparr>deque := dq\<rparr>, sh\<lparr>task_mem := h\<rparr>) X s'"
      by (rule decline_handles [OF handles_inv [OF a] _ cfg]) (use r 2 s' in \<open>simp_all add: in_hand_def\<close>)
    with a show ?thesis by (rule handles_trans)
  qed
qed

lemma handle_handles:
  assumes inv: "linv (X + {#tok r#}) (w, sh)" and r: "in_hand (w, sh) r" and cfg: "MAXSTEAL cfg = 1"
    and h: "handle env cfg r (w, sh) = Some (b, s')"
  shows "handles cfg (X + {#tok r#}) (w, sh) X s'"
proof -
  have g: "good_req (num_workers sh) r" and nf: "req_state r \<noteq> STATE_FAILED" using r by (simp_all add: in_hand_def)
  consider "handle_steal_request env cfg r (w, sh) = Some s'" |
      "split_loop env cfg (get_current_task w) r (w, sh) = Some s'" |
      w' where "FORGET_REQ r w = Some w'" "s' = (w', sh)" |
      "decline_steal_request (env_rand env) cfg r (w, sh) = Some s'"
    using h nf by (auto simp: handle_def Let_def split: Option.bind_splits if_splits)
  then show ?thesis
  proof cases
    case 2
    obtain w' sh' where s': "s' = (w', sh')" by (cases s')
    show ?thesis
      using split_loop_sent [OF linvD(1) [OF inv] g hand_unanswered [OF inv g]] 2 s'
        sent_handles [OF inv r] by blast
  qed (use handle_steal_request_handles [OF inv r cfg] FORGET_REQ_handles [OF inv g]
      decline_handles [OF inv r cfg] in auto)
qed

section \<open>Sharing work\<close>

lemma reactivate_fields:
  assumes "reactivate cfg r (w, sh) = Some (w', sh')"
  shows "\<exists>t q. w' = w\<lparr>tree := t, work_sharing_requests := q\<rparr> \<and>
    t = (if req_ID r = tree_left_child (tree w) then (tree w)\<lparr>left_subtree_is_idle := False\<rparr>
      else (tree w)\<lparr>right_subtree_is_idle := False\<rparr>) \<and>
    (\<exists>x. bounded_queue_dequeue (work_sharing_requests w) = Some (x, q)) \<and>
    sh' = (if BACKOFF cfg = Wait_Cond then sh\<lparr>signals := (signals sh)[nat (req_ID r) := True]\<rparr> else sh)"
  using assms
  by (auto simp: reactivate_def SIGNAL_def DEQUEUE_WORK_SHARING_REQUEST_def write_at_Some bind_eq_Some_conv
      split: if_splits)

lemma held_token:
  assumes inv: "linv X (w, sh)" and r: "r \<in> set (held w)"
  shows "(req_ID r, STATE_FAILED) \<in># view (w, sh) + X" "good_req (num_workers sh) r" "req_state r = STATE_FAILED"
    "req_ID r \<noteq> ID w" "answers sh (req_ID r) = 0" "req_ID r = tree_left_child (tree w) \<or> req_ID r = tree_right_child (tree w)"
proof -
  note i = linvD [OF inv]
  show g: "good_req (num_workers sh) r" and st: "req_state r = STATE_FAILED"
    and c: "req_ID r = tree_left_child (tree w) \<or> req_ID r = tree_right_child (tree w)"
    using i(2) r by (auto simp: held_ok_def)
  show m: "(req_ID r, STATE_FAILED) \<in># view (w, sh) + X" using r st by (auto simp: view_def in_toks tok_def)
  have "tree_ok (num_workers sh) w" using i(2) by (simp add: held_ok_def)
  then show "req_ID r \<noteq> ID w" using c g tree_ok_links [of "num_workers sh" w]
    by (auto simp: good_req_def split: if_splits)
  show "answers sh (req_ID r) = 0"
    by (rule occupancy_in(1) [OF i(3) m]) (use g in \<open>auto simp: good_req_def\<close>)
qed

lemma share_step_handles:
  assumes inv: "linv X (w, sh)" and q: "held w = r # rs" and s: "sent r sh sh1" "same_control w w1"
    and re: "reactivate cfg r (w1, sh1) = Some (w2, sh2)"
  shows "handles cfg X (w, sh) X (w2, sh2)"
proof -
  note i = linvD [OF inv] and h = held_token [OF inv, of r, unfolded q, simplified]
  let ?N = "num_workers sh"
  have b: "0 \<le> req_ID r" "req_ID r < ?N" using h(2) by (auto simp: good_req_def)
  have w1: "ID w1 = ID w" "tree w1 = tree w" "requested w1 = requested w" "blocked w1 = blocked w"
    "work_sharing_requests w1 = work_sharing_requests w" "tasking_finished w1 = tasking_finished w"
    "quiescent w1 = quiescent w" "channel_stack w1 = channel_stack w" using s(2) by (simp_all add: same_control_def same_protocol_def)
  let ?t = "if req_ID r = tree_left_child (tree w) then (tree w)\<lparr>left_subtree_is_idle := False\<rparr>
      else (tree w)\<lparr>right_subtree_is_idle := False\<rparr>"
  obtain qu where w2: "w2 = w1\<lparr>tree := ?t, work_sharing_requests := qu\<rparr>"
    and dq: "\<exists>x. bounded_queue_dequeue (work_sharing_requests w) = Some (x, qu)"
    and sh2: "sh2 = (if BACKOFF cfg = Wait_Cond then sh1\<lparr>signals := (signals sh1)[nat (req_ID r) := True]\<rparr> else sh1)"
    using reactivate_fields [OF re] w1 by auto
  have bq: "bq_inv (work_sharing_requests w)" using i(2) by (simp add: held_ok_def)
  have qu: "bq_inv qu" "bq_items qu = rs" using dq dequeue_items [OF bq] q by auto
  note sa = sent_answers [OF i(1) b h(5) s(1)] and ss = sent_same [OF s(1)]
  have e2: "num_workers sh2 = ?N" "chan_requests sh2 = chan_requests sh" "answers sh2 = answers sh1" "chans_ok sh2"
    using sh2 s(1) sa(2) by (auto simp: sent_def answers_def fun_eq_iff chans_ok_def Let_def)
  have v: "view (w, sh) = add_mset (req_ID r, STATE_FAILED) (view (w2, sh2))"
    using q qu w2 e2(2) h(3) by (simp add: view_def tok_def)
  have si: "single ?N (add_mset (req_ID r, STATE_FAILED) (view (w2, sh2) + X)) (answers sh)" using i(3) v by simp
  have nr: "req_ID r \<notin> req_ID ` set rs"
  proof
    assume "req_ID r \<in> req_ID ` set rs"
    then obtain x where x: "x \<in> set rs" "req_ID x = req_ID r" by auto
    have "tok x \<in># toks (held w2)" using x(1) w2 qu by (auto simp: in_toks)
    then have "(req_ID r, req_state x) \<in># view (w2, sh2)" using x(2) by (simp add: view_def tok_def)
    then obtain M where "view (w2, sh2) = add_mset (req_ID r, req_state x) M" by (metis insert_DiffM)
    then show False using occupancy_in(2) [OF si, of "req_ID r" STATE_FAILED] b by simp
  qed
  have t: "tree_ok ?N w" using i(2) by (simp add: held_ok_def)
  have lr: "tree_left_child (tree w) = tree_right_child (tree w) \<longrightarrow> tree_left_child (tree w) = - 1"
    using tree_ok_links [OF t] by auto
  have fl: "left_subtree_is_idle (tree w) \<longleftrightarrow> tree_left_child (tree w) = - 1 \<or>
      tree_left_child (tree w) = req_ID r \<or> tree_left_child (tree w) \<in> req_ID ` set rs"
    "right_subtree_is_idle (tree w) \<longleftrightarrow> tree_right_child (tree w) = - 1 \<or>
      tree_right_child (tree w) = req_ID r \<or> tree_right_child (tree w) \<in> req_ID ` set rs"
    using i(2) q by (simp_all add: held_ok_def)
  have ho: "held_ok ?N w2"
  proof -
    have "tree_ok ?N w2" using t w1 w2 by (auto simp: tree_ok_def)
    moreover have "\<forall>x \<in> set rs. req_state x = STATE_FAILED \<and> good_req ?N x \<and>
        (req_ID x = tree_left_child (tree w) \<or> req_ID x = tree_right_child (tree w))"
      using i(2) q by (simp add: held_ok_def)
    moreover have "requested w2 = 0 \<or> requested w2 = 1" "set (bs_buffer (channel_stack w2)) \<subseteq> {None, Some (ID w2, 0)}"
      using i(2) w1 w2 by (simp_all add: held_ok_def)
    moreover have "left_subtree_is_idle ?t \<longleftrightarrow>
        tree_left_child (tree w) = - 1 \<or> tree_left_child (tree w) \<in> req_ID ` set rs"
    proof (cases "req_ID r = tree_left_child (tree w)")
      case True
      then show ?thesis using nr b(1) by simp
    next
      case False
      then show ?thesis using fl(1) [unfolded eq_commute [of _ "req_ID r"]] by simp
    qed
    moreover have "right_subtree_is_idle ?t \<longleftrightarrow>
        tree_right_child (tree w) = - 1 \<or> tree_right_child (tree w) \<in> req_ID ` set rs"
    proof (cases "req_ID r = tree_left_child (tree w)")
      case True
      then have "req_ID r \<noteq> tree_right_child (tree w)" using lr b(1) by auto
      then show ?thesis using True fl(2) [unfolded eq_commute [of _ "req_ID r"]] by simp
    next
      case False
      then have "req_ID r = tree_right_child (tree w)" using h(6) by simp
      then show ?thesis using False nr b(1) by simp
    qed
    moreover have "tree w2 = ?t" "work_sharing_requests w2 = qu" "tree_left_child ?t = tree_left_child (tree w)"
      "tree_right_child ?t = tree_right_child (tree w)" using w2 by simp_all
    ultimately show ?thesis using qu by (simp add: held_ok_def)
  qed
  have qt: "quiet (w2, sh2)"
    by (rule quiet_sub [OF i(4) _ _ _ _ _ i(1) t]) (use v w1 w2 e2 in auto)
  have si2: "single ?N (view (w2, sh2) + X) (answers sh2)"
    using single_answer [OF si b] sa(1) e2(3) by simp
  have inv2: "linv X (w2, sh2)" using ho qt si2 e2 i(5) s(2) w2 by (simp add: linv_def same_control_def same_protocol_def)
  have sg: "signalled cfg sh2 = (signalled cfg sh)(req_ID r := True)"
  proof -
    have "nat (req_ID r) < length (signals sh1)"
      using b chans_okD(4) [OF sa(2)] ss(4) by simp
    then show ?thesis
      using sh2 s(1) b by (auto simp: signalled_def fun_eq_iff sent_def nth_list_update)
  qed
  have "work_step (ID w) (pstate cfg X (w, sh)) (pstate cfg X (w2, sh2))"
    using Share [of "req_ID r" "ID w" "view (w2, sh2) + X" "answers sh" "requested w" "signalled cfg sh"]
      h(4) v sa(1) e2(3) sg w1 w2 h(5) by (simp add: pstate_def)
  then show ?thesis using inv2 w1 w2 e2(1) by (auto simp: handles_def works_def frame_def)
qed

lemma handle_shared:
  assumes inv: "linv X (w, sh)" and q: "r \<in> set (held w)"
    and h: "handle env cfg r (w, sh) = Some (b, w1, sh1)"
  shows "if b then same_control w w1 \<and> sent r sh sh1 else w1 = w \<and> sh1 = sh"
proof -
  note t = held_token [OF inv q]
  consider "b" "\<not> deque_empty (deque w)" "handle_steal_request env cfg r (w, sh) = Some (w1, sh1)" |
      "b" "split_loop env cfg (get_current_task w) r (w, sh) = Some (w1, sh1)" | "\<not> b" "w1 = w" "sh1 = sh"
    using h t(3,4) by (auto simp: handle_def Let_def bind_eq_Some_conv split: if_splits)
  then show ?thesis
    using handle_other [OF linvD(1) [OF inv] t(2,5,4)] split_loop_sent [OF linvD(1) [OF inv] t(2,5)]
    by cases auto
qed

lemma share_work_handles:
  assumes "share_work env cfg s = Some s'" "linv X s"
  shows "handles cfg X s X s'"
proof -
  have "linv X s \<longrightarrow> handles cfg X s X s'"
  proof (rule share_work.raw_induct [OF _ assms(1)])
    fix sw :: "env \<Rightarrow> config \<Rightarrow> wst \<Rightarrow> wst option" and env cfg s s'
    assume IH: "\<And>env cfg s s'. sw env cfg s = Some s' \<Longrightarrow> linv X s \<longrightarrow> handles cfg X s X s'"
      and step: "(if \<not> bounded_queue_empty (work_sharing_requests (fst s)) then do {
          req \<leftarrow> NEXT_WORK_SHARING_REQUEST (fst s);
          assertion (req_ID req = tree_left_child (tree (fst s)) \<or> req_ID req = tree_right_child (tree (fst s)));
          (work, s) \<leftarrow> handle env cfg req s;
          if work then do { s \<leftarrow> reactivate cfg req s; sw env cfg s } else Some s
        } else Some s) = Some s'"
    show "linv X s \<longrightarrow> handles cfg X s X s'"
    proof
      assume inv: "linv X s"
      obtain w sh where s: "s = (w, sh)" by (cases s)
      have bq: "bq_inv (work_sharing_requests w)" using inv s by (simp add: linv_def held_ok_def)
      show "handles cfg X s X s'"
      proof (cases "held w")
        case Nil
        then show ?thesis
          using step s bounded_queue_empty_items [OF bq] handles_refl [OF inv] by simp
      next
        case (Cons r rs)
        have r: "NEXT_WORK_SHARING_REQUEST w = Some r"
          using bounded_queue_head_item [OF bq Cons] by (simp add: NEXT_WORK_SHARING_REQUEST_def)
        obtain b w1 sh1 where h: "handle env cfg r (w, sh) = Some (b, w1, sh1)"
          and rest: "if b then \<exists>s2. reactivate cfg r (w1, sh1) = Some s2 \<and> sw env cfg s2 = Some s' else s' = (w1, sh1)"
          using step s r Cons bounded_queue_empty_items [OF bq]
          by (auto simp: bind_eq_Some_conv split: if_splits)
        note hs = handle_shared [OF inv [unfolded s] _ h, unfolded Cons, simplified]
        show ?thesis
        proof (cases b)
          case True
          then obtain s2 where re: "reactivate cfg r (w1, sh1) = Some s2" "sw env cfg s2 = Some s'"
            using rest by auto
          have a: "handles cfg X s X s2"
            using share_step_handles [OF inv [unfolded s] Cons] hs True re(1) s by (cases s2) auto
          then show ?thesis using IH [OF re(2)] handles_inv [OF a] handles_trans by blast
        next
          case False
          then show ?thesis using rest hs s handles_refl [OF inv] by simp
        qed
      qed
    qed
  qed
  with assms(2) show ?thesis by blast
qed

section \<open>Loops and entry points\<close>

text \<open>The own requests of a busy worker are neither idle nor failed.\<close>

definition busy :: "token multiset \<Rightarrow> wst \<Rightarrow> bool" where
  "busy X s \<longleftrightarrow> (\<forall>st. (ID (fst s), st) \<in># view s + X \<longrightarrow> st = STATE_WORKING)"

lemma busy_handles:
  assumes "busy X s" "handles cfg X s Y s'"
  shows "busy Y s'"
  unfolding busy_def
proof (intro allI impI)
  fix st assume "(ID (fst s'), st) \<in># view s' + Y"
  moreover have "ID (fst s') = ID (fst s)" using assms(2) by (simp add: handles_def works_def frame_def)
  moreover have "work_steps (ID (fst s)) (pstate cfg X s) (pstate cfg Y s')"
    using assms(2) by (simp add: handles_def works_def)
  ultimately have "(ID (fst s), st) \<in># view s + X \<or> st = STATE_WORKING"
    unfolding pstate_def by (auto dest: work_steps_new)
  then show "st = STATE_WORKING" using assms(1) by (auto simp: busy_def)
qed

text \<open>The body of a loop that receives requests: each of them is handled.\<close>

lemma recv_in_hand:
  assumes inv: "linv X s" "busy X s" and recv: "RECV_REQ cfg s = Some (Some r, s1)"
  shows "handles cfg X s (X + {#tok r#}) s1 \<and> in_hand s1 r"
proof -
  note R = RECV_REQ_works [OF inv(1) recv]
  have a: "handles cfg X s (X + {#tok r#}) s1" using R by (simp add: handles_def)
  have fr: "num_workers (snd s1) = num_workers (snd s)" using R by (simp add: works_def frame_def)
  have "busy (X + {#tok r#}) s1" by (rule busy_handles [OF inv(2) a])
  then show ?thesis using a R fr by (auto simp: in_hand_def busy_def tok_def)
qed

lemma recv_handle:
  assumes inv: "linv X s" "busy X s" and recv: "RECV_REQ cfg s = Some (Some r, s1)"
    and h: "\<And>w sh. s1 = (w, sh) \<Longrightarrow> linv (X + {#tok r#}) (w, sh) \<Longrightarrow> in_hand (w, sh) r \<Longrightarrow>
      handles cfg (X + {#tok r#}) (w, sh) X s2"
  shows "handles cfg X s X s2"
proof -
  obtain w1 sh1 where s1: "s1 = (w1, sh1)" by (cases s1)
  note a = recv_in_hand [OF inv recv]
  show ?thesis using handles_trans [OF conjunct1 [OF a]] h [OF s1] handles_inv [OF conjunct1 [OF a]] a s1 by simp
qed

text \<open>The three loops differ in how they handle a request.\<close>

lemma recv_loop_handles:
  assumes body: "\<And>X w sh r s2. linv (X + {#tok r#}) (w, sh) \<Longrightarrow> in_hand (w, sh) r \<Longrightarrow> hdl r (w, sh) = Some s2 \<Longrightarrow>
      handles cfg (X + {#tok r#}) (w, sh) X s2"
    and IH: "\<And>s s'. lp s = Some s' \<Longrightarrow> linv X s \<and> busy X s \<longrightarrow> handles cfg X s X s'"
    and step: "RECV_REQ cfg s \<bind> (\<lambda>(r, s). case r of None \<Rightarrow> Some s | Some req \<Rightarrow> hdl req s \<bind> lp) = Some s'"
    and inv: "linv X s" "busy X s"
  shows "handles cfg X s X s'"
proof -
  obtain r s1 where recv: "RECV_REQ cfg s = Some (r, s1)"
    and rest: "(case r of None \<Rightarrow> Some s1 | Some req \<Rightarrow> hdl req s1 \<bind> lp) = Some s'"
    using step by (auto simp: bind_eq_Some_conv)
  show ?thesis
  proof (cases r)
    case None
    then show ?thesis using RECV_REQ_works [OF inv(1) recv] rest by (simp add: handles_def)
  next
    case (Some req)
    then obtain s2 where s2: "hdl req s1 = Some s2" "lp s2 = Some s'" using rest by (auto simp: bind_eq_Some_conv)
    have a: "handles cfg X s X s2"
      by (rule recv_handle [OF inv recv [unfolded Some]]) (use body s2(1) in auto)
    then show ?thesis using IH [OF s2(2)] handles_inv [OF a] busy_handles [OF inv(2) a] handles_trans by blast
  qed
qed

lemma handle_loop_handles:
  assumes cfg: "MAXSTEAL cfg = 1" and l: "handle_loop env cfg s = Some s'" and inv: "linv X s" "busy X s"
  shows "handles cfg X s X s'"
proof -
  have "MAXSTEAL cfg = 1 \<longrightarrow> linv X s \<and> busy X s \<longrightarrow> handles cfg X s X s'"
  proof (rule handle_loop.raw_induct [OF _ l])
    fix lp :: "env \<Rightarrow> config \<Rightarrow> wst \<Rightarrow> wst option" and env cfg s s'
    assume IH: "\<And>env cfg s s'. lp env cfg s = Some s' \<Longrightarrow>
        MAXSTEAL cfg = 1 \<longrightarrow> linv X s \<and> busy X s \<longrightarrow> handles cfg X s X s'"
      and step: "RECV_REQ cfg s \<bind> (\<lambda>(r, s). case r of None \<Rightarrow> Some s
        | Some req \<Rightarrow> handle_steal_request env cfg req s \<bind> lp env cfg) = Some s'"
    show "MAXSTEAL cfg = 1 \<longrightarrow> linv X s \<and> busy X s \<longrightarrow> handles cfg X s X s'"
      using recv_loop_handles [OF _ _ step] handle_steal_request_handles IH by blast
  qed
  then show ?thesis using cfg inv by blast
qed

lemma bind_snd: "m \<bind> (\<lambda>(_, s). f s) = map_option snd m \<bind> f"
  by (cases m) auto

lemma poll_loop_handles:
  assumes cfg: "MAXSTEAL cfg = 1" and l: "poll_loop env cfg s = Some s'" and inv: "linv X s" "busy X s"
  shows "handles cfg X s X s'"
proof -
  have "MAXSTEAL cfg = 1 \<longrightarrow> linv X s \<and> busy X s \<longrightarrow> handles cfg X s X s'"
  proof (rule poll_loop.raw_induct [OF _ l])
    fix lp :: "env \<Rightarrow> config \<Rightarrow> wst \<Rightarrow> wst option" and env cfg s s'
    assume IH: "\<And>env cfg s s'. lp env cfg s = Some s' \<Longrightarrow>
        MAXSTEAL cfg = 1 \<longrightarrow> linv X s \<and> busy X s \<longrightarrow> handles cfg X s X s'"
      and step: "RECV_REQ cfg s \<bind> (\<lambda>(r, s). case r of None \<Rightarrow> Some s
        | Some req \<Rightarrow> handle env cfg req s \<bind> (\<lambda>(_, s). lp env cfg s)) = Some s'"
    have "RECV_REQ cfg s \<bind> (\<lambda>(r, s). case r of None \<Rightarrow> Some s
        | Some req \<Rightarrow> map_option snd (handle env cfg req s) \<bind> lp env cfg) = Some s'"
      using step unfolding bind_snd .
    from recv_loop_handles [OF _ _ this] handle_handles IH
    show "MAXSTEAL cfg = 1 \<longrightarrow> linv X s \<and> busy X s \<longrightarrow> handles cfg X s X s'"
      by (fastforce simp: map_option_case split: option.splits)
  qed
  then show ?thesis using cfg inv by blast
qed

section \<open>Sending requests\<close>

text \<open>A worker has no more requests and answers under way than it believes.\<close>

definition owns :: "token multiset \<Rightarrow> wst \<Rightarrow> bool" where
  "owns X s \<longleftrightarrow> int (occupancy (view s + X) (answers (snd s)) (ID (fst s))) \<le> requested (fst s)"

lemma owns_works:
  assumes "owns X s" "works cfg X s Y s'"
  shows "owns Y s'"
proof -
  have "work_steps (ID (fst s)) (pstate cfg X s) (pstate cfg Y s')" "ID (fst s') = ID (fst s)"
    using assms(2) by (simp_all add: works_def frame_def)
  then show ?thesis
    using assms(1) work_steps_conserve [of "ID (fst s)" _ _ _ _ _ _ _ _ "ID (fst s)"]
    unfolding pstate_def owns_def by fastforce
qed

lemma owns_handles: "owns X s \<Longrightarrow> handles cfg X s Y s' \<Longrightarrow> owns Y s'"
  unfolding handles_def by (blast intro: owns_works)

lemma STEAL_REQUEST_INIT_fields:
  assumes "STEAL_REQUEST_INIT N w = Some (r, w')" "held_ok N w"
  shows "req_ID r = ID w \<and> req_chan r = (ID w, 0) \<and> (\<exists>st. w' = w\<lparr>channel_stack := st\<rparr> \<and>
    set (bs_buffer st) \<subseteq> {None, Some (ID w, 0)})"
proof -
  obtain chan st where p: "bounded_stack_pop (channel_stack w) = Some (Some chan, st)"
    and r: "req_ID r = ID w" "req_chan r = chan" "w' = w\<lparr>channel_stack := st\<rparr>"
    using assms(1) by (auto simp: STEAL_REQUEST_INIT_def CHANNEL_POP_def bind_eq_Some_conv)
  have "bs_buffer (channel_stack w) ! unat (bs_top (channel_stack w) - 1) = Some chan"
    "unat (bs_top (channel_stack w) - 1) < length (bs_buffer (channel_stack w))" and st: "bs_buffer st = bs_buffer (channel_stack w)"
    using p by (auto simp: bounded_stack_pop_def Let_def read_at_Some bind_eq_Some_conv)
  then have "Some chan \<in> set (bs_buffer (channel_stack w))" by (metis nth_mem)
  then have "chan = (ID w, 0)" using held_ok_stack [OF assms(2)] by auto
  then show ?thesis using r st held_ok_stack [OF assms(2)] by (intro conjI exI [of _ st]) simp_all
qed

text \<open>What only sending and forgetting requests may change beyond statistics.\<close>

definition keeps :: "worker \<Rightarrow> worker \<Rightarrow> bool" where
  "keeps w w' \<longleftrightarrow> ID w' = ID w \<and> tree w' = tree w \<and> work_sharing_requests w' = work_sharing_requests w \<and>
     blocked w' = blocked w \<and> tasking_finished w' = tasking_finished w \<and> deque w' = deque w \<and>
     quiescent w' = quiescent w"

lemma keeps_trans: "keeps w w' \<Longrightarrow> keeps w' w'' \<Longrightarrow> keeps w w''"
  by (simp add: keeps_def)

lemma adapt_fields:
  "keeps w (adapt_stealhalf cfg w) \<and> requested (adapt_stealhalf cfg w) = requested w \<and>
   channel_stack (adapt_stealhalf cfg w) = channel_stack w"
  by (simp add: adapt_stealhalf_def keeps_def Let_def)

lemma try_send_ok:
  assumes inv: "linv X (w, sh)" "owns X (w, sh)" and cfg: "MAXSTEAL cfg = 1"
    and ts: "try_send_steal_request rand cfg idle (w, sh) = Some (w', sh')"
  shows "w' = w \<and> sh' = sh \<and> requested w = 1 \<or>
    requested w = 0 \<and> requested w' = 1 \<and> linv X (w', sh') \<and> frame (w, sh) (w', sh') \<and> tree w' = tree w \<and>
    view (w', sh') = add_mset (ID w, if idle then STATE_IDLE else STATE_WORKING) (view (w, sh)) \<and>
    answers sh' = answers sh \<and> signalled cfg sh' = signalled cfg sh \<and>
    deque w' = deque w \<and> quiescent w' = quiescent w \<and> work_sharing_requests w' = work_sharing_requests w"
proof (cases "requested w < MAXSTEAL cfg")
  case False
  then have "requested w = 1" using linvD(2) [OF inv(1)] cfg by (auto simp: held_ok_def)
  then show ?thesis using ts False by (simp add: try_send_steal_request_def)
next
  case True
  note i = linvD [OF inv(1)]
  have z: "requested w = 0" using i(2) cfg True by (auto simp: held_ok_def)
  let ?N = "num_workers sh"
  have t: "tree_ok ?N w" using i(2) by (simp add: held_ok_def)
  note l = tree_ok_links [OF t]
  let ?w0 = "adapt_stealhalf cfg w" and ?st = "if idle then STATE_IDLE else STATE_WORKING"
  obtain r w1 v r' w2 w3 where rq: "STEAL_REQUEST_INIT ?N ?w0 = Some (r, w1)"
    and nv: "next_victim rand cfg ?N (r\<lparr>req_state := ?st\<rparr>) w1 = Some (v, r', w2)"
    and sd: "SEND_REQ_WORKER cfg v r' (w2, sh) = Some (w3, sh')"
    and w': "keeps w3 w'" "requested w' = requested w3 + 1" "channel_stack w' = channel_stack w3"
    using ts True by (auto simp: try_send_steal_request_def Let_def bind_eq_Some_conv keeps_def)
  have h0: "held_ok ?N ?w0" using i(2) adapt_fields [of w cfg] by (simp add: held_ok_def tree_ok_def keeps_def)
  obtain st where r: "req_ID r = ID w" "req_chan r = (ID w, 0)" "w1 = ?w0\<lparr>channel_stack := st\<rparr>"
    "set (bs_buffer st) \<subseteq> {None, Some (ID w, 0)}"
    using STEAL_REQUEST_INIT_fields [OF rq h0] adapt_fields [of w cfg] by (auto simp: keeps_def)
  note n = next_victim_fields [OF nv]
  obtain vs vi where e: "w2 = w1\<lparr>victim_sel := vs\<rparr>" "r' = r\<lparr>req_state := ?st, req_victims := vi\<rparr>" using n by auto
  have k2: "keeps w w2" "requested w2 = 0" "channel_stack w2 = st"
    using adapt_fields [of w cfg] r(3) e(1) z by (auto simp: keeps_def)
  have tk: "tok r' = (ID w, ?st)" and g: "good_req ?N r'" using r e l(4,5) by (auto simp: tok_def good_req_def)
  have v2: "view (w2, sh) = view (w, sh)" using k2(1) by (simp add: view_def keeps_def)
  have "occupancy (view (w, sh) + X) (answers sh) (ID w) = 0" using inv(2) z by (simp add: owns_def)
  then have si: "single ?N (view (w2, sh) + (X + {#tok r'#})) (answers sh)"
    using i(3) v2 tk by (auto simp: single_def)
  have "linv X (w2, sh)" by (rule linv_requested [OF inv(1)]) (use k2 r(4) in \<open>simp_all add: keeps_def\<close>)
  then have inv2: "linv (X + {#tok r'#}) (w2, sh)" using si by (simp add: linv_def)
  have "placed (nat v) r'" using e(2) by (simp add: placed_def)
  moreover have "req_state r' \<noteq> STATE_FAILED" using e(2) by simp
  ultimately obtain sh2 ks where o: "(w3, sh') = (w2, sh2)"
    "sh2 = sh\<lparr>chan_requests := (chan_requests sh)[nat v := chan_requests sh ! nat v @ [r']], refusals := ks\<rparr>"
    "linv X (w2, sh2)" "view (w2, sh2) = add_mset (tok r') (view (w2, sh))"
    using SEND_REQ_WORKER_ok [OF inv2 g _ _ _ cfg _ sd] n by auto
  have w3: "w3 = w2" "sh' = sh2" using o(1) by auto
  have "requested w' = 1" "keeps w w'" "channel_stack w' = st" using w' w3 k2 keeps_trans by auto
  moreover have "linv X (w', sh')"
    unfolding w3(2) by (rule linv_requested [OF o(3)])
      (use calculation k2 r(4) in \<open>simp_all add: keeps_def\<close>)
  moreover have "view (w', sh') = add_mset (ID w, ?st) (view (w, sh))"
    using o(4) w3 v2 tk w'(1) by (simp add: view_def keeps_def)
  moreover have "answers sh' = answers sh" "signalled cfg sh' = signalled cfg sh" "num_workers sh' = ?N"
    using o(2) w3(2) by (simp_all add: answers_def signalled_def fun_eq_iff)
  ultimately show ?thesis using z by (simp add: frame_def keeps_def)
qed

lemma try_send_handles:
  assumes "linv X s" "owns X s" "MAXSTEAL cfg = 1" "try_send_steal_request rand cfg False s = Some s'"
  shows "handles cfg X s X s'"
proof -
  obtain w sh w' sh' where s: "s = (w, sh)" "s' = (w', sh')" by (cases s; cases s')
  from try_send_ok [of X w sh cfg rand False w' sh'] assms s
  consider "s' = s" | "requested w = 0" "requested w' = 1" "linv X (w', sh')" "frame (w, sh) (w', sh')"
    "view (w', sh') = add_mset (ID w, STATE_WORKING) (view (w, sh))" "answers sh' = answers sh"
    "signalled cfg sh' = signalled cfg sh" "quiescent w' = quiescent w" by auto
  then show ?thesis
  proof cases
    case 1
    then show ?thesis using handles_refl [OF assms(1)] by simp
  next
    case 2
    then have "work_step (ID w) (pstate cfg X s) (pstate cfg X s')"
      using Ask [of "ID w" "view (w, sh) + X" "answers sh" 0 "signalled cfg sh"] s by (simp add: pstate_def)
    then show ?thesis using 2 s by (auto simp: handles_def works_def)
  qed
qed

section \<open>Entry points\<close>

text \<open>How \<^verbatim>\<open>RT_pop\<close> handles a request: it may split the task it has just popped.\<close>

definition pop_handle :: "env \<Rightarrow> config \<Rightarrow> addr \<Rightarrow> steal_request \<Rightarrow> wst \<Rightarrow> wst option" where
  "pop_handle env cfg task req s = (let (w, sh) = s in do {
     splittable \<leftarrow> SPLITTABLE (task_mem sh) task;
     if deque_empty (deque w) \<and> splittable then
       if req_ID req \<noteq> ID w then split_loop env cfg task req (w, sh)
       else do { w \<leftarrow> FORGET_REQ req w; Some (w, sh) }
     else handle_steal_request env cfg req (w, sh)
   })"

lemma pop_handle_handles:
  assumes inv: "linv (X + {#tok r#}) (w, sh)" and r: "in_hand (w, sh) r" and cfg: "MAXSTEAL cfg = 1"
    and h: "pop_handle env cfg task r (w, sh) = Some s'"
  shows "handles cfg (X + {#tok r#}) (w, sh) X s'"
proof -
  have g: "good_req (num_workers sh) r" using r by (simp add: in_hand_def)
  obtain w' sh' where s': "s' = (w', sh')" by (cases s')
  consider "split_loop env cfg task r (w, sh) = Some s'" | w' where "FORGET_REQ r w = Some w'" "s' = (w', sh)" |
      "handle_steal_request env cfg r (w, sh) = Some s'"
    using h by (auto simp: pop_handle_def bind_eq_Some_conv split: if_splits)
  then show ?thesis
  proof cases
    case 1
    then show ?thesis
      using split_loop_sent [OF linvD(1) [OF inv] g hand_unanswered [OF inv g]] s' sent_handles [OF inv r] by blast
  qed (use FORGET_REQ_handles [OF inv g] handle_steal_request_handles [OF inv r cfg] in auto)
qed

lemma pop_loop_handles:
  assumes cfg: "MAXSTEAL cfg = 1" and l: "pop_loop env cfg task s = Some s'" and inv: "linv X s" "busy X s"
  shows "handles cfg X s X s'"
proof -
  have "MAXSTEAL cfg = 1 \<longrightarrow> linv X s \<and> busy X s \<longrightarrow> handles cfg X s X s'"
  proof (rule pop_loop.raw_induct [OF _ l])
    fix lp :: "env \<Rightarrow> config \<Rightarrow> addr \<Rightarrow> wst \<Rightarrow> wst option" and env cfg task s s'
    assume IH: "\<And>env cfg task s s'. lp env cfg task s = Some s' \<Longrightarrow>
        MAXSTEAL cfg = 1 \<longrightarrow> linv X s \<and> busy X s \<longrightarrow> handles cfg X s X s'"
      and step: "RECV_REQ cfg s \<bind> (\<lambda>(r, s). case r of None \<Rightarrow> Some s
        | Some req \<Rightarrow> let (w, sh) = s in SPLITTABLE (task_mem sh) task \<bind> (\<lambda>splittable.
            (if deque_empty (deque w) \<and> splittable then
               if req_ID req \<noteq> ID w then split_loop env cfg task req (w, sh)
               else FORGET_REQ req w \<bind> (\<lambda>w. Some (w, sh))
             else handle_steal_request env cfg req (w, sh)) \<bind> lp env cfg task)) = Some s'"
    have "(case r of None \<Rightarrow> Some s
        | Some req \<Rightarrow> let (w, sh) = s in SPLITTABLE (task_mem sh) task \<bind> (\<lambda>splittable.
            (if deque_empty (deque w) \<and> splittable then
               if req_ID req \<noteq> ID w then split_loop env cfg task req (w, sh)
               else FORGET_REQ req w \<bind> (\<lambda>w. Some (w, sh))
             else handle_steal_request env cfg req (w, sh)) \<bind> lp env cfg task)) =
      (case r of None \<Rightarrow> Some s | Some req \<Rightarrow> pop_handle env cfg task req s \<bind> lp env cfg task)" for r s
      by (cases s) (simp add: pop_handle_def split: option.split)
    from step [unfolded this] have step': "RECV_REQ cfg s \<bind> (\<lambda>(r, s). case r of None \<Rightarrow> Some s
        | Some req \<Rightarrow> pop_handle env cfg task req s \<bind> lp env cfg task) = Some s'" .
    show "MAXSTEAL cfg = 1 \<longrightarrow> linv X s \<and> busy X s \<longrightarrow> handles cfg X s X s'"
      using recv_loop_handles [OF _ _ step'] pop_handle_handles IH by blast
  qed
  then show ?thesis using cfg inv by blast
qed

text \<open>
  What a busy worker may rely on between calls, and the contract of the entry points: they keep
  it, whatever the worker at hand believes of its subtrees and whoever asks for tasks.
\<close>

definition ready :: "wst \<Rightarrow> bool" where
  "ready s \<longleftrightarrow> linv {#} s \<and> busy {#} s \<and> owns {#} s"

definition runs :: "config \<Rightarrow> wst \<Rightarrow> wst \<Rightarrow> bool" where
  "runs cfg s s' \<longleftrightarrow> handles cfg {#} s {#} s'"

lemma runs_ready: "ready s \<Longrightarrow> runs cfg s s' \<Longrightarrow> ready s'"
  unfolding ready_def runs_def by (blast intro: handles_inv busy_handles owns_handles)

lemma runs_trans: "runs cfg s s' \<Longrightarrow> runs cfg s' s'' \<Longrightarrow> runs cfg s s''"
  unfolding runs_def by (rule handles_trans)

lemma runs_refl: "ready s \<Longrightarrow> runs cfg s s"
  by (simp add: ready_def runs_def handles_refl)

lemma runs_control: "ready (w, sh) \<Longrightarrow> same_control w w' \<Longrightarrow> user_memory sh sh' \<Longrightarrow> runs cfg (w, sh) (w', sh')"
  by (simp add: ready_def runs_def control_handles)

lemma share_work_runs: "share_work env cfg s = Some s' \<Longrightarrow> ready s \<Longrightarrow> runs cfg s s'"
  by (simp add: ready_def runs_def share_work_handles)

lemma handle_loop_runs: "MAXSTEAL cfg = 1 \<Longrightarrow> handle_loop env cfg s = Some s' \<Longrightarrow> ready s \<Longrightarrow> runs cfg s s'"
  by (simp add: ready_def runs_def handle_loop_handles)

lemma try_send_runs:
  "MAXSTEAL cfg = 1 \<Longrightarrow> try_send_steal_request rand cfg False s = Some s' \<Longrightarrow> ready s \<Longrightarrow> runs cfg s s'"
  by (simp add: ready_def runs_def try_send_handles)

lemma RT_poll_runs:
  assumes "MAXSTEAL cfg = 1" "RT_poll env cfg s = Some s'" "ready s"
  shows "runs cfg s s'"
proof -
  obtain s1 where s1: "share_work env cfg s = Some s1" "poll_loop env cfg s1 = Some s' \<or> s' = s1"
    using assms(2) by (auto simp: RT_poll_def bind_eq_Some_conv split: if_splits)
  have a: "runs cfg s s1" by (rule share_work_runs [OF s1(1) assms(3)])
  note r = runs_ready [OF assms(3) a]
  show ?thesis
  proof (rule runs_trans [OF a])
    show "runs cfg s1 s'"
      using s1(2) runs_refl [OF r] poll_loop_handles [OF assms(1), of env s1 s' "{#}"] r
      by (auto simp: ready_def runs_def)
  qed
qed

lemma deque_pop_any:
  "(if children then deque_pop_child h dq p else deque_pop h dq) = Some (task, dq', h') \<Longrightarrow>
    task = NULL \<longrightarrow> dq' = dq \<and> h' = h"
  by (auto simp: deque_pop_child_def deque_pop_def Let_def deref_Some bind_eq_Some_conv split: if_splits)

lemma RT_pop_runs:
  assumes cfg: "MAXSTEAL cfg = 1" and p: "RT_pop env cfg children s = Some (task, s')" and r: "ready s"
  shows "runs cfg s s'"
proof -
  obtain w sh where s: "s = (w, sh)" by (cases s)
  obtain dq h s1 s2 where
    e: "(case STEAL_EARLY_THRESHOLD cfg of
          None \<Rightarrow> Some (w\<lparr>deque := dq\<rparr>, sh\<lparr>task_mem := h\<rparr>)
        | Some early \<Rightarrow>
            if task \<noteq> NULL then do {
              t \<leftarrow> deref (task_mem (sh\<lparr>task_mem := h\<rparr>)) task;
              if \<not> t_splittable t then try_steal env cfg early (w\<lparr>deque := dq\<rparr>, sh\<lparr>task_mem := h\<rparr>)
              else Some (w\<lparr>deque := dq\<rparr>, sh\<lparr>task_mem := h\<rparr>)
            } else Some (w\<lparr>deque := dq\<rparr>, sh\<lparr>task_mem := h\<rparr>)) = Some s1"
    and sw: "share_work env cfg s1 = Some s2" and pl: "pop_loop env cfg task s2 = Some s'"
    using p s by (auto simp: RT_pop_def Let_def bind_eq_Some_conv)
  let ?s0 = "(w\<lparr>deque := dq\<rparr>, sh\<lparr>task_mem := h\<rparr>)"
  have a0: "runs cfg s ?s0"
    unfolding s by (rule runs_control [OF r [unfolded s]]) (simp_all add: same_control_def same_protocol_def user_memory_def)
  note r0 = runs_ready [OF r a0]
  have "s1 = ?s0 \<or> try_send_steal_request (env_rand env) cfg False ?s0 = Some s1"
    using e by (auto simp: try_steal_def bind_eq_Some_conv split: option.splits if_splits)
  then have a1: "runs cfg ?s0 s1" using runs_refl [OF r0] try_send_runs [OF cfg _ r0] by blast
  note r1 = runs_ready [OF r0 a1]
  note a2 = share_work_runs [OF sw r1] and r2 = runs_ready [OF r1 share_work_runs [OF sw r1]]
  have a3: "runs cfg s2 s'" using pop_loop_handles [OF cfg pl, of "{#}"] r2 by (simp add: ready_def runs_def)
  show ?thesis using a0 a1 a2 a3 runs_trans by blast
qed

lemma RT_push_works:
  assumes cfg: "MAXSTEAL cfg = 1" and p: "RT_push env cfg task s = Some s'" and r: "ready s"
  shows "works cfg {#} s {#} s' \<and> ready s' \<and> \<not> quiescent (fst s')"
proof -
  obtain w sh where s: "s = (w, sh)" by (cases s)
  obtain w0 h s2 where sw: "share_work env cfg (w0, sh\<lparr>task_mem := h\<rparr>) = Some s2"
    and w0: "same_protocol w w0" "\<not> quiescent w0" and hl: "handle_loop env cfg s2 = Some s'"
    using p s by (auto simp: RT_push_def Let_def bind_eq_Some_conv same_protocol_def split: if_splits)
  let ?s0 = "(w0, sh\<lparr>task_mem := h\<rparr>)"
  have li: "linv {#} s" "busy {#} s" "owns {#} s" using r by (simp_all add: ready_def)
  have a0: "works cfg {#} s {#} ?s0"
    unfolding s by (rule memory_works [OF li(1) [unfolded s] w0(1)]) (simp add: user_memory_def)
  have r0: "ready ?s0"
    using worksD(1) [OF a0] owns_works [OF li(3) a0] li(2) s w0(1)
    by (simp add: ready_def busy_def view_def same_protocol_def)
  note a1 = share_work_runs [OF sw r0] and r1 = runs_ready [OF r0 share_work_runs [OF sw r0]]
  note a2 = handle_loop_runs [OF cfg hl r1] and r2 = runs_ready [OF r1 handle_loop_runs [OF cfg hl r1]]
  have "works cfg {#} s {#} s'"
    using works_trans [OF works_trans [OF a0]] a1 a2 unfolding runs_def handles_def by blast
  then show ?thesis using r2 a1 a2 w0(2) by (simp add: runs_def handles_def)
qed

lemma RT_task_alloc_runs:
  assumes "RT_task_alloc junk s = Some (t, s')" "ready s" shows "runs cfg s s'"
proof -
  obtain w sh w' sh' where s: "s = (w, sh)" "s' = (w', sh')" by (cases s; cases s')
  then show ?thesis
    using RT_task_alloc_fields [of junk w sh t w' sh'] assms runs_control [of w sh w' sh' cfg]
    by (auto simp: same_control_def same_protocol_def)
qed

lemma run_task_leave_fields:
  assumes "run_task_leave task this (w, sh) = Some (w', sh')"
  shows "same_control w w' \<and> deque w' = deque w \<and> sh' = sh"
proof -
  obtain t where "deref (task_mem sh) task = Some t"
    and w': "w' = (if t_splittable t
       then (set_current_task this w)\<lparr>num_tasks_exec := num_tasks_exec w + signed_take_bit 31 \<bar>t_end t - t_start t\<bar>\<rparr>
       else (set_current_task this w)\<lparr>num_tasks_exec := num_tasks_exec w + 1\<rparr>)" and "sh' = sh"
    using assms by (auto simp: run_task_leave_def set_current_task_def Let_def bind_eq_Some_conv)
  then show ?thesis by (simp add: same_control_def same_protocol_def set_current_task_def)
qed

lemma finish_task_fields:
  assumes "finish_task task this (w, sh) = Some (w', sh')"
  shows "same_control w w' \<and> user_memory sh sh'"
proof -
  obtain w1 sh1 dq h where l: "run_task_leave task this (w, sh) = Some (w1, sh1)"
    and e: "w' = w1\<lparr>deque := dq\<rparr>" "sh' = sh1\<lparr>task_mem := h\<rparr>"
    using assms by (auto simp: finish_task_def bind_eq_Some_conv)
  show ?thesis
    using run_task_leave_fields [OF l] e by (simp add: same_control_def same_protocol_def user_memory_def)
qed

lemma finish_task_runs:
  assumes "finish_task task this s = Some s'" "ready s" shows "runs cfg s s'"
  using finish_task_fields [of task this "fst s" "snd s" "fst s'" "snd s'"] assms
    runs_control [of "fst s" "snd s" "fst s'" "snd s'" cfg] by simp

lemma accept_tasks_runs:
  assumes "accept_tasks env cfg task s = Some (task', s')" "ready s" shows "runs cfg s s'"
proof -
  obtain w sh where s: "s = (w, sh)" by (cases s)
  obtain t w0 where t: "deref (task_mem sh) task = Some t" and
    v: "(if VICTIM cfg = Last_Victim \<and> t_victim t \<noteq> - 1 then do {
         assertion (t_victim t \<noteq> ID w);
         Some (w\<lparr>last_victim := t_victim t\<rparr>)
       } else Some w) = Some w0"
    using assms(1) s by (auto simp: accept_tasks_def Let_def bind_eq_Some_conv)
  obtain task1 w1 sh1 where
    d: "(if t_next t \<noteq> NULL then do {
          (dq, h) \<leftarrow> deque_prepend_list (task_mem sh) (deque w0) task;
          (task, dq, h) \<leftarrow> deque_pop h dq;
          Some (task, w0\<lparr>deque := dq\<rparr>, sh\<lparr>task_mem := h\<rparr>)
        } else Some (task, w0, sh)) = Some (task1, w1, sh1)"
    and sw': "share_work env cfg (if STEAL cfg = Steal_Adaptive then w1\<lparr>num_recent_steals := num_recent_steals w1 + 1\<rparr>
      else w1, sh1) = Some s'"
    using assms(1) s t v by (auto simp: accept_tasks_def Let_def bind_eq_Some_conv)
  have "same_control w w0" using v by (auto simp: same_control_def same_protocol_def split: if_splits Option.bind_splits)
  moreover have "same_control w0 w1" "user_memory sh sh1"
    using d by (auto simp: same_control_def same_protocol_def user_memory_def bind_eq_Some_conv split: if_splits)
  ultimately obtain w2 where sw: "share_work env cfg (w2, sh1) = Some s'" and k: "same_control w w2" "user_memory sh sh1"
    using sw' by (auto simp: same_control_def same_protocol_def)
  have a: "runs cfg s (w2, sh1)" using runs_control [OF _ k] assms(2) s by simp
  show ?thesis using runs_trans [OF a] share_work_runs [OF sw runs_ready [OF assms(2) a]] by simp
qed

end
