(* ===== verification/Spawn.thy ===== *)
theory Spawn
  imports Busy
begin

text \<open>
  What user code is written with (\<^verbatim>\<open>include/async_internal.h\<close>, \<^verbatim>\<open>include/future_internal.h\<close>): the macros
  that create tasks, the functions they define for tasks to run, the loop \<^verbatim>\<open>ASYNC_FOR\<close> and the block
  \<^verbatim>\<open>AWAIT_ALL\<close>.
\<close>

declare share_work.simps [code] pop_loop.simps [code] handle_loop.simps [code]
  convert_futures.simps [code] find_tail.simps [code]

section \<open>Creating tasks\<close>

definition TASK_DATA_SIZE :: nat where
  "TASK_DATA_SIZE = 192 - 72"

text \<open>\<^verbatim>\<open>memcpy(task->data, ...)\<close>: the size of the arguments is not checked by the macros.\<close>

definition write_data :: "byte list \<Rightarrow> task \<Rightarrow> task option" where
  "write_data d t = do {
     assertion (length d \<le> TASK_DATA_SIZE);
     Some (t\<lparr>t_data := d @ drop (length d) (t_data t)\<rparr>)
   }"

text \<open>The data of a task: its future, if it has one, and its arguments.\<close>

definition pack_args :: "addr option \<Rightarrow> byte list \<Rightarrow> byte list" where
  "pack_args fut args = (case fut of None \<Rightarrow> args | Some f \<Rightarrow> bytes_of_ptr f @ args)"

definition alloc_future :: "addr option \<Rightarrow> fut_mem \<Rightarrow> fut_mem" where
  "alloc_future fut m = (case fut of None \<Rightarrow> m | Some f \<Rightarrow> FUTURE_ALLOC f m)"

text \<open>
  The common part of the macros: allocate a task object, set its fields, allocate the future, if there
  is one (at the address \<^verbatim>\<open>alloca\<close> returns), and store the arguments, the future first.
\<close>

definition create_task ::
  "env \<Rightarrow> (task \<Rightarrow> task) \<Rightarrow> addr option \<Rightarrow> byte list \<Rightarrow> wst \<Rightarrow> (addr \<times> wst) option"
where
  "create_task env upd fut args s = do {
     (task, w, sh) \<leftarrow> RT_task_alloc (env_junk env) s;
     h \<leftarrow> assign (task_mem sh) task (\<lambda>t. upd (t\<lparr>t_parent := get_current_task w\<rparr>));
     let m = alloc_future fut (fut_mem sh);
     t \<leftarrow> deref h task;
     t \<leftarrow> write_data (pack_args fut args) t;
     h \<leftarrow> assign h task (\<lambda>_. t);
     Some (task, w, sh\<lparr>task_mem := h, fut_mem := m\<rparr>)
   }"

definition spawn ::
  "env \<Rightarrow> config \<Rightarrow> (task \<Rightarrow> task) \<Rightarrow> addr option \<Rightarrow> byte list \<Rightarrow> wst \<Rightarrow> wst option"
where
  "spawn env cfg upd fut args s = do {
     (task, s) \<leftarrow> create_task env upd fut args s;
     RT_push env cfg task s
   }"

definition plain_fields :: "addr \<Rightarrow> task \<Rightarrow> task" where
  "plain_fields fn t = t\<lparr>t_fn := fn\<rparr>"

definition loop_fields :: "addr \<Rightarrow> int \<Rightarrow> int \<Rightarrow> task \<Rightarrow> task" where
  "loop_fields fn lo hi t =
     t\<lparr>t_fn := fn, t_splittable := True, t_start := lo, t_cur := lo, t_end := hi\<rparr>"

definition future_field :: "task \<Rightarrow> task" where
  "future_field t = t\<lparr>t_has_future := True\<rparr>"

definition ASYNC_2_CALL :: "env \<Rightarrow> config \<Rightarrow> addr \<Rightarrow> byte list \<Rightarrow> wst \<Rightarrow> wst option" where
  "ASYNC_2_CALL env cfg fn args s = spawn env cfg (plain_fields fn) None args s"

definition ASYNC_3_CALL :: "env \<Rightarrow> config \<Rightarrow> addr \<Rightarrow> int \<Rightarrow> int \<Rightarrow> byte list \<Rightarrow> wst \<Rightarrow> wst option" where
  "ASYNC_3_CALL env cfg fn lo hi args s = spawn env cfg (loop_fields fn lo hi) None args s"

definition ASYNC0_2_CALL :: "env \<Rightarrow> config \<Rightarrow> addr \<Rightarrow> wst \<Rightarrow> wst option" where
  "ASYNC0_2_CALL env cfg fn s = spawn env cfg (plain_fields fn) None [] s"

definition ASYNC0_3_CALL :: "env \<Rightarrow> config \<Rightarrow> addr \<Rightarrow> int \<Rightarrow> int \<Rightarrow> wst \<Rightarrow> wst option" where
  "ASYNC0_3_CALL env cfg fn lo hi s = spawn env cfg (loop_fields fn lo hi) None [] s"

text \<open>The value of the macros for futures is the future.\<close>

definition FUTURE_2_CALL :: "env \<Rightarrow> config \<Rightarrow> addr \<Rightarrow> addr \<Rightarrow> byte list \<Rightarrow> wst \<Rightarrow> (addr \<times> wst) option" where
  "FUTURE_2_CALL env cfg fn f args s = do {
     s \<leftarrow> spawn env cfg (\<lambda>t. future_field (plain_fields fn t)) (Some f) args s;
     Some (f, s)
   }"

definition FUTURE_4_CALL ::
  "env \<Rightarrow> config \<Rightarrow> addr \<Rightarrow> addr \<Rightarrow> int \<Rightarrow> int \<Rightarrow> byte list \<Rightarrow> wst \<Rightarrow> (addr \<times> wst) option"
where
  "FUTURE_4_CALL env cfg fn f lo hi args s = do {
     s \<leftarrow> spawn env cfg (\<lambda>t. future_field (loop_fields fn lo hi t)) (Some f) args s;
     Some (f, s)
   }"

definition FUTURE0_2_CALL :: "env \<Rightarrow> config \<Rightarrow> addr \<Rightarrow> addr \<Rightarrow> wst \<Rightarrow> (addr \<times> wst) option" where
  "FUTURE0_2_CALL env cfg fn f s = do {
     s \<leftarrow> spawn env cfg (\<lambda>t. future_field (plain_fields fn t)) (Some f) [] s;
     Some (f, s)
   }"

definition FUTURE0_4_CALL :: "env \<Rightarrow> config \<Rightarrow> addr \<Rightarrow> addr \<Rightarrow> int \<Rightarrow> int \<Rightarrow> wst \<Rightarrow> (addr \<times> wst) option" where
  "FUTURE0_4_CALL env cfg fn f lo hi s = do {
     s \<leftarrow> spawn env cfg (\<lambda>t. future_field (loop_fields fn lo hi t)) (Some f) [] s;
     Some (f, s)
   }"

text \<open>
  The function of a task: unpack the arguments (the first eight bytes are the future, if there is
  one), call the user's function and store its result. \<open>n\<close> is the size of the arguments.
\<close>

definition async_task_func :: "(byte list \<Rightarrow> 'r) \<Rightarrow> nat \<Rightarrow> task \<Rightarrow> 'r option" where
  "async_task_func user n this = do {
     assertion (\<not> is_root_task this);
     Some (user (take n (t_data this)))
   }"

definition future_task_func :: "(byte list \<Rightarrow> byte list) \<Rightarrow> nat \<Rightarrow> task \<Rightarrow> fut_mem \<Rightarrow> fut_mem option" where
  "future_task_func user n this m = do {
     assertion (\<not> is_root_task this);
     FUTURE_SET (future_of_task this) (user (take n (drop 8 (t_data this)))) m
   }"

section \<open>Blocks that wait for their futures\<close>

text \<open>
  The futures of a block are collected in a list: the variable \<^verbatim>\<open>hd\<close> in scope, the nodes, which are
  allocated in the stack frame (at \<open>node\<close>), and the worker with the shared memory.
\<close>

type_synonym 's block_state = "addr \<times> future_node heap \<times> 's"

definition add_node :: "addr \<Rightarrow> addr \<Rightarrow> addr \<Rightarrow> addr \<Rightarrow> 's block_state \<Rightarrow> 's block_state" where
  "add_node node f r aw c = (case c of (hdn, nm, s) \<Rightarrow>
     (node, nm(node \<mapsto> \<lparr>fn_f = f, fn_r = r, fn_await = aw, fn_next = hdn\<rparr>), s))"

definition FUTURE_3_CALL ::
  "env \<Rightarrow> config \<Rightarrow> addr \<Rightarrow> addr \<Rightarrow> byte list \<Rightarrow> addr \<Rightarrow> addr \<Rightarrow> addr \<Rightarrow> wst block_state \<Rightarrow> wst block_state option"
where
  "FUTURE_3_CALL env cfg fn f args r aw node c = (case c of (hdn, nm, s) \<Rightarrow> do {
     (f, s) \<leftarrow> FUTURE_2_CALL env cfg fn f args s;
     Some (add_node node f r aw (hdn, nm, s))
   })"

definition FUTURE0_3_CALL ::
  "env \<Rightarrow> config \<Rightarrow> addr \<Rightarrow> addr \<Rightarrow> addr \<Rightarrow> addr \<Rightarrow> addr \<Rightarrow> wst block_state \<Rightarrow> wst block_state option"
where
  "FUTURE0_3_CALL env cfg fn f r aw node c = (case c of (hdn, nm, s) \<Rightarrow> do {
     (f, s) \<leftarrow> FUTURE0_2_CALL env cfg fn f s;
     Some (add_node node f r aw (hdn, nm, s))
   })"

text \<open>
  The functions \<^verbatim>\<open>await_fun\<close> force the future of a node and store its value; \<open>get\<close> is \<^verbatim>\<open>FUTURE_GET\<close> for the
  result type of the function the pointer \<open>aw\<close> stands for.
\<close>

definition await_fun ::
  "(addr \<Rightarrow> addr \<Rightarrow> addr \<Rightarrow> 's \<Rightarrow> 's option) \<Rightarrow> addr \<Rightarrow> addr \<Rightarrow> (future_node heap \<times> 's) \<Rightarrow> (future_node heap \<times> 's) option"
where
  "await_fun get aw n c = (case c of (nm, s) \<Rightarrow> do {
     nd \<leftarrow> deref nm n;
     s \<leftarrow> get aw (fn_f nd) (fn_r nd) s;
     Some (nm, s)
   })"

text \<open>
  \<^verbatim>\<open>AWAIT_ALL\<close> is a \<^verbatim>\<open>for\<close> loop whose body runs with an empty list, to which the futures created in it are
  added, and which ends after they have been awaited.
\<close>

partial_function (option) AWAIT_ALL_loop ::
  "('s block_state \<Rightarrow> 's block_state option) \<Rightarrow> (addr \<Rightarrow> addr \<Rightarrow> addr \<Rightarrow> 's \<Rightarrow> 's option) \<Rightarrow> 's block_state \<Rightarrow> 's option"
where
  "AWAIT_ALL_loop body get c = (case c of (hdn, nm, s) \<Rightarrow>
     if hdn = NULL then do {
       c \<leftarrow> body c;
       AWAIT_ALL_loop body get c
     } else do {
       (nm, s) \<leftarrow> await_future_nodes (await_fun get) fst hdn (nm, s);
       Some s
     })"

definition AWAIT_ALL ::
  "('s block_state \<Rightarrow> 's block_state option) \<Rightarrow> (addr \<Rightarrow> addr \<Rightarrow> addr \<Rightarrow> 's \<Rightarrow> 's option) \<Rightarrow>
    future_node heap \<Rightarrow> 's \<Rightarrow> 's option"
where
  "AWAIT_ALL body get nm s = AWAIT_ALL_loop body get (NULL, nm, s)"

text \<open>A block that creates futures: the functions, futures, arguments, results, waiting functions and nodes.\<close>

type_synonym future_call = "addr \<times> addr \<times> byte list \<times> addr \<times> addr \<times> addr"

fun block_calls :: "env \<Rightarrow> config \<Rightarrow> future_call list \<Rightarrow> wst block_state \<Rightarrow> wst block_state option" where
  "block_calls env cfg [] c = Some c"
| "block_calls env cfg ((fn, f, args, r, aw, node) # cs) c = do {
     c \<leftarrow> FUTURE_3_CALL env cfg fn f args r aw node c;
     block_calls env cfg cs c
   }"

fun await_each :: "(addr \<Rightarrow> addr \<Rightarrow> addr \<Rightarrow> 's \<Rightarrow> 's option) \<Rightarrow> (addr \<times> addr \<times> addr) list \<Rightarrow> 's \<Rightarrow> 's option" where
  "await_each get [] s = Some s"
| "await_each get ((aw, f, r) # xs) s = do {
     s \<leftarrow> get aw f r s;
     await_each get xs s
   }"

definition awaited :: "future_call list \<Rightarrow> (addr \<times> addr \<times> addr) list" where
  "awaited cs = rev (map (\<lambda>(_, f, _, r, aw, _). (aw, f, r)) cs)"

definition call_node :: "future_call \<Rightarrow> addr" where
  "call_node c = (case c of (_, _, _, _, _, node) \<Rightarrow> node)"

section \<open>Loops\<close>

text \<open>
  What happens to a loop task while it runs: each time the runtime is called it may be split, any
  number of times. The results are the ranges that have been given away and the task.
\<close>

inductive splits :: "config \<Rightarrow> task \<Rightarrow> (int \<times> int) list \<Rightarrow> task \<Rightarrow> bool" for cfg where
  No_Split: "splits cfg t [] t"
| Split: "splits cfg t gs t' \<Longrightarrow> wst_ok s \<Longrightarrow> t_splittable t' \<Longrightarrow> \<bar>t_end t' - t_cur t'\<bar> > 1 \<Longrightarrow>
    SPLIT_FUNC cfg s t' = Some split \<Longrightarrow> splits cfg t ((split, t_end t') # gs) (t'\<lparr>t_end := split\<rparr>)"

text \<open>
  \<^verbatim>\<open>ASYNC_FOR(i)\<close>: the variable, the task, the iterations executed and the ranges given away. The task
  may be split during the body and in \<^verbatim>\<open>POLL\<close> after it.
\<close>

type_synonym loop_state = "int \<times> task \<times> int list \<times> (int \<times> int) list"

definition for_init :: "task \<Rightarrow> loop_state option" where
  "for_init this = do {
     assertion (t_splittable this);
     assertion (t_start this = t_cur this);
     Some (t_start this, this\<lparr>t_cur := t_cur this + 1\<rparr>, [], [])
   }"

inductive for_step :: "config \<Rightarrow> loop_state \<Rightarrow> loop_state \<Rightarrow> bool" for cfg where
  Iteration: "i < t_end t \<Longrightarrow> splits cfg t gs t' \<Longrightarrow> splits cfg (t'\<lparr>t_cur := t_cur t' + 1\<rparr>) gs' t'' \<Longrightarrow>
    for_step cfg (i, t, xs, given) (i + 1, t'', xs @ [i], gs' @ gs @ given)"

definition for_done :: "loop_state \<Rightarrow> bool" where
  "for_done c = (case c of (i, t, _) \<Rightarrow> \<not> i < t_end t)"

text \<open>
  A loop over \<open>[lo, hi)\<close> together with the loops it is split into, executing the
  iterations \<open>M\<close>.
\<close>

inductive executes :: "config \<Rightarrow> int \<Rightarrow> int \<Rightarrow> int multiset \<Rightarrow> bool"
  and executes_all :: "config \<Rightarrow> (int \<times> int) list \<Rightarrow> int multiset \<Rightarrow> bool" for cfg
where
  Loop: "for_init t = Some c \<Longrightarrow> t_start t = lo \<Longrightarrow> t_end t = hi \<Longrightarrow>
    (for_step cfg)\<^sup>*\<^sup>* c (i, t', xs, given) \<Longrightarrow> for_done (i, t', xs, given) \<Longrightarrow>
    executes_all cfg given M \<Longrightarrow> executes cfg lo hi (mset xs + M)"
| No_Loop: "executes_all cfg [] {#}"
| More_Loops: "executes cfg lo hi M \<Longrightarrow> executes_all cfg given M' \<Longrightarrow>
    executes_all cfg ((lo, hi) # given) (M + M')"

section \<open>Every iteration once\<close>

definition ranges :: "(int \<times> int) list \<Rightarrow> int multiset" where
  "ranges gs = sum_list (map (\<lambda>(a, b). mset [a..b - 1]) gs)"

lemma ranges_simps [simp]:
  "ranges [] = {#}" "ranges ((a, b) # gs) = mset [a..b - 1] + ranges gs" "ranges (gs @ gs') = ranges gs + ranges gs'"
  by (simp_all add: ranges_def)

text \<open>A split gives away the end of what is left, and never the iteration at hand.\<close>

text \<open>
  The rule \<open>Split\<close> is what \<open>split_loop\<close> does: a run of it on a splittable task is a step of
  \<open>splits\<close>, and the range that is given away is that of the task it sends, which starts there.
\<close>

lemma split_loop_splits:
  assumes sp: "splits cfg t0 gs t" and ok: "wst_ok (w, sh)" and t: "deref (task_mem sh) task = Some t"
    and splittable: "SPLITTABLE (task_mem sh) task = Some True"
    and fut: "t_has_future t \<Longrightarrow> can_patch w sh (mallocs_left sh fs) p f c \<and> current_task w \<notin> nodes (deque w) ts fs"
    and req: "req_ID req \<noteq> ID w" "req_chan req = (i, j)" "0 \<le> i" "nat i < length (chan_tasks sh)"
      "j < length (chan_tasks sh ! nat i)" "chan_tasks sh ! nat i ! j = []"
    and rel: "deque_rel (task_mem sh) (deque w) ts fs" "task \<notin> nodes (deque w) ts fs" "can_alloc sh fs"
  shows "\<exists>w' sh' t' dup d. split_loop env cfg task req (w, sh) = Some (w', sh') \<and>
    deref (task_mem sh') task = Some t' \<and> chan_tasks sh' ! nat i ! j = [dup] \<and>
    deref (task_mem sh') dup = Some d \<and> t_cur d = t_start d \<and>
    splits cfg t0 ((t_start d, t_end d) # gs) (t'\<lparr>t_futures := t_futures t\<rparr>)"
proof -
  have iters: "t_splittable t" "\<bar>t_end t - t_cur t\<bar> > 1"
    using splittable t by (auto simp: SPLITTABLE_def split: if_splits)
  obtain split where s: "SPLIT_FUNC cfg (w, sh) t = Some split"
    using SPLIT_FUNC_total [OF ok iters(2)] by blast
  have st: "splits cfg t0 ((split, t_end t) # gs) (t\<lparr>t_end := split\<rparr>)" by (rule Split [OF sp ok iters s])
  from split_loop_outcome [OF t s fut req rel, of env] obtain dup d w' sh' where
    r: "split_loop env cfg task req (w, sh) = Some (w', sh')"
      "deref (task_mem sh') task = Some (t\<lparr>t_end := split,
        t_futures := (if t_has_future t \<and> current_task w = task then p else t_futures t)\<rparr>)"
      "deref (task_mem sh') dup = Some d" "t_start d = split" "t_cur d = split" "t_end d = t_end t"
      "chan_tasks sh' = (chan_tasks sh)[nat i := (chan_tasks sh ! nat i)[j := [dup]]]" by blast
  have "chan_tasks sh' ! nat i ! j = [dup]" using r(7) req(4,5) by simp
  moreover have "(t\<lparr>t_end := split, t_futures := (if t_has_future t \<and> current_task w = task then p else t_futures t)\<rparr>)
      \<lparr>t_futures := t_futures t\<rparr> = t\<lparr>t_end := split\<rparr>" by simp
  ultimately show ?thesis using r st by (metis (no_types, lifting))
qed

lemma splits_ranges:
  assumes "splits cfg t gs t'" "t_cur t = i + 1" "i \<le> t_end t"
  shows "t_cur t' = i + 1 \<and> t_splittable t' = t_splittable t \<and> i \<le> t_end t' \<and>
    (i < t_end t \<longrightarrow> i < t_end t') \<and> (\<forall>(a, b) \<in> set gs. a < b) \<and>
    ranges gs + mset [i..t_end t' - 1] = mset [i..t_end t - 1]"
  using assms
proof induction
  case (Split t gs t' s split)
  note IH = Split.IH [OF Split.prems]
  have "t_end t' - t_cur t' > 1" using IH Split.hyps by linarith
  from SPLIT_FUNC_between [OF Split.hyps(2) this, of cfg] Split.hyps
  have sp: "t_cur t' < split" "split < t_end t'" by auto
  have "[i..t_end t' - 1] = [i..split - 1] @ [split..t_end t' - 1]"
    by (rule upto_split1) (use sp IH in auto)
  then have "mset [i..t_end t' - 1] = mset [split..t_end t' - 1] + mset [i..split - 1]"
    by (simp only: mset_append add.commute)
  then show ?case using IH sp by (auto simp: ac_simps)
qed simp

definition for_inv :: "int \<Rightarrow> int \<Rightarrow> loop_state \<Rightarrow> bool" where
  "for_inv lo hi c \<longleftrightarrow> (case c of (i, t, xs, given) \<Rightarrow>
     t_cur t = i + 1 \<and> i \<le> t_end t \<and> (\<forall>(a, b) \<in> set given. a < b) \<and>
     mset xs + ranges given + mset [i..t_end t - 1] = mset [lo..hi - 1])"

lemma for_init_inv: "for_init t = Some c \<Longrightarrow> t_start t \<le> t_end t \<Longrightarrow> for_inv (t_start t) (t_end t) c"
  by (auto simp: for_init_def for_inv_def bind_eq_Some_conv)

lemma for_step_inv:
  assumes "for_step cfg c c'" "for_inv lo hi c"
  shows "for_inv lo hi c'"
  using assms
proof cases
  case (Iteration i t gs t' gs' t'' xs given)
  have inv: "t_cur t = i + 1" "\<forall>(a, b) \<in> set given. a < b"
    "mset xs + ranges given + mset [i..t_end t - 1] = mset [lo..hi - 1]"
    using assms(2) Iteration(1) by (auto simp: for_inv_def)
  note s1 = splits_ranges [OF Iteration(4) inv(1)]
  have s1': "t_cur t' = i + 1" "i < t_end t'" "\<forall>(a, b) \<in> set gs. a < b"
    "ranges gs + mset [i..t_end t' - 1] = mset [i..t_end t - 1]"
    using s1 Iteration(3) by auto
  have s2: "t_cur t'' = (i + 1) + 1" "i + 1 \<le> t_end t''" "\<forall>(a, b) \<in> set gs'. a < b"
    "ranges gs' + mset [i + 1..t_end t'' - 1] = mset [i + 1..t_end t' - 1]"
    using splits_ranges [OF Iteration(5), of "i + 1"] s1' by auto
  have "[i..t_end t' - 1] = i # [i + 1..t_end t' - 1]" by (rule upto_rec1) (use s1' in simp)
  then have "mset [i..t_end t - 1] = ranges gs + (ranges gs' + add_mset i (mset [i + 1..t_end t'' - 1]))"
    using s1'(4) s2(4) by (metis mset.simps(2) union_mset_add_mset_right)
  then have "mset (xs @ [i]) + ranges (gs' @ gs @ given) + mset [i + 1..t_end t'' - 1] = mset [lo..hi - 1]"
    unfolding inv(3) [symmetric] by (simp add: ac_simps)
  then show ?thesis using s2 s1'(3) inv(2) Iteration(2) by (auto simp: for_inv_def)
qed

lemma for_steps_inv: "(for_step cfg)\<^sup>*\<^sup>* c c' \<Longrightarrow> for_inv lo hi c \<Longrightarrow> for_inv lo hi c'"
  by (induction rule: rtranclp_induct) (auto intro: for_step_inv)

text \<open>A loop makes at most as many steps as it has iterations.\<close>

lemma for_step_count:
  assumes "(for_step cfg ^^ n) c c'" "for_inv lo hi c"
  shows "length (fst (snd (snd c'))) = n + length (fst (snd (snd c))) \<and> for_inv lo hi c'"
  using assms
proof (induction n arbitrary: c')
  case (Suc n)
  then obtain d where d: "(for_step cfg ^^ n) c d" "for_step cfg d c'" by auto
  note IH = Suc.IH [OF d(1) Suc.prems(2)]
  have "length (fst (snd (snd c'))) = Suc (length (fst (snd (snd d))))" using d(2) by cases auto
  then show ?case using IH for_step_inv [OF d(2)] by auto
qed simp

lemma for_terminates:
  assumes "for_init t = Some c" "t_start t \<le> t_end t" "(for_step cfg ^^ n) c c'"
  shows "n \<le> nat (t_end t - t_start t)"
proof -
  have inv: "for_inv (t_start t) (t_end t) c" by (rule for_init_inv [OF assms(1,2)])
  have "fst (snd (snd c)) = []" using assms(1) by (auto simp: for_init_def bind_eq_Some_conv)
  with for_step_count [OF assms(3) inv] obtain i t' xs given where
    c': "c' = (i, t', xs, given)" "length xs = n" "for_inv (t_start t) (t_end t) c'"
    by (cases c') auto
  then have "mset xs \<subseteq># mset [t_start t..t_end t - 1]"
    unfolding for_inv_def by (metis (mono_tags, lifting) add.assoc case_prod_conv mset_subset_eq_add_left)
  then show ?thesis using size_mset_mono c'(2) by fastforce
qed

lemma executes_ranges:
  "executes cfg lo hi M \<Longrightarrow> lo \<le> hi \<Longrightarrow> M = mset [lo..hi - 1]"
  "executes_all cfg gs M \<Longrightarrow> \<forall>(a, b) \<in> set gs. a < b \<Longrightarrow> M = ranges gs"
proof (induction rule: executes_executes_all.inducts)
  case (Loop t c lo hi i t' xs given M)
  have h: "for_init t = Some c" "t_start t = lo" "t_end t = hi" "(for_step cfg)\<^sup>*\<^sup>* c (i, t', xs, given)"
    "for_done (i, t', xs, given)" using Loop by simp_all
  have "for_inv lo hi c" using for_init_inv [OF h(1)] h(2,3) Loop.prems by simp
  then have inv: "for_inv lo hi (i, t', xs, given)" by (rule for_steps_inv [OF h(4)])
  have "[i..t_end t' - 1] = []" using h(5) by (simp add: for_done_def)
  then have "mset xs + ranges given = mset [lo..hi - 1]" "\<forall>(a, b) \<in> set given. a < b"
    using inv by (simp_all add: for_inv_def)
  then show ?case using Loop.IH by simp
qed auto

text \<open>A worker with memory for two tasks.\<close>

definition two_tasks :: "wst \<Rightarrow> wst" where
  "two_tasks s = (case s of (w, sh) \<Rightarrow> (w, sh\<lparr>mallocs := [96, 112]\<rparr>))"

section \<open>Spawning and waiting\<close>

text \<open>Creating a task is an allocation and an access to memory of the machine, spawning it a push.\<close>

lemma create_task_fields:
  assumes "create_task env upd fut args s = Some (task, w, sh)"
  shows "\<exists>sh0 t. RT_task_alloc (env_junk env) s = Some (task, w, sh0) \<and>
    deref (task_mem sh0) task = Some t \<and> length (pack_args fut args) \<le> TASK_DATA_SIZE \<and>
    sh = sh0\<lparr>task_mem := (task_mem sh0)(task \<mapsto> (upd (t\<lparr>t_parent := get_current_task w\<rparr>))\<lparr>t_data :=
        pack_args fut args @ drop (length (pack_args fut args)) (t_data (upd (t\<lparr>t_parent := get_current_task w\<rparr>)))\<rparr>),
      fut_mem := alloc_future fut (fut_mem sh0)\<rparr>"
proof -
  obtain sh0 where a: "RT_task_alloc (env_junk env) s = Some (task, w, sh0)"
    using assms by (auto simp: create_task_def bind_eq_Some_conv)
  then obtain t where t: "deref (task_mem sh0) task = Some t" "task \<noteq> NULL"
    using assms by (auto simp: create_task_def assign_def deref_def bind_eq_Some_conv split: if_splits option.splits)
  show ?thesis
    using assms a t by (auto simp: create_task_def write_data_def assign_live deref_live bind_eq_Some_conv Let_def)
qed

text \<open>The function of a task without a future receives the arguments.\<close>

lemma async_call_args:
  assumes "create_task env (plain_fields fn) None args s = Some (task, w, sh)" "get_current_task w \<noteq> NULL"
  shows "\<exists>t. deref (task_mem sh) task = Some t \<and> t_fn t = fn \<and>
    async_task_func user (length args) t = Some (user args)"
  using create_task_fields [OF assms(1)] assms(2)
  by (auto simp: deref_def plain_fields_def pack_args_def async_task_func_def is_root_task_def split: if_splits)

lemma create_task_bound: "TASK_DATA_SIZE < length args \<Longrightarrow> create_task env upd None args s = None"
  by (cases "create_task env upd None args s") (auto dest!: create_task_fields simp: pack_args_def)

lemma spawn_user_steps:
  assumes "spawn env cfg upd fut args s = Some s'"
  shows "(user_step env cfg)\<^sup>*\<^sup>* (fs, s) (fs, s')"
proof -
  obtain task w sh where c: "create_task env upd fut args s = Some (task, w, sh)"
    and p: "RT_push env cfg task (w, sh) = Some s'"
    using assms by (auto simp: spawn_def bind_eq_Some_conv)
  obtain sh0 where a: "RT_task_alloc (env_junk env) s = Some (task, w, sh0)" and m: "user_memory sh0 sh"
    using create_task_fields [OF c] by (auto simp: user_memory_def)
  have "user_step env cfg (fs, s) (fs, w, sh0)" by (rule User_Alloc [OF a])
  moreover have "user_step env cfg (fs, w, sh0) (fs, w, sh)" by (rule User_Memory [OF m])
  moreover have "user_step env cfg (fs, w, sh) (fs, s')" by (rule User_Push [OF p])
  ultimately show ?thesis by (meson converse_rtranclp_into_rtranclp rtranclp.rtrancl_refl)
qed

text \<open>The list of the nodes of a block, and waiting for it.\<close>

fun node_list :: "future_node heap \<Rightarrow> addr \<Rightarrow> (addr \<times> addr \<times> addr) list \<Rightarrow> addr set \<Rightarrow> bool" where
  "node_list nm hdn [] A \<longleftrightarrow> hdn = NULL"
| "node_list nm hdn ((aw, f, r) # xs) A \<longleftrightarrow> hdn \<noteq> NULL \<and> hdn \<in> A \<and>
     (\<exists>nd. nm hdn = Some nd \<and> fn_await nd = aw \<and> fn_f nd = f \<and> fn_r nd = r \<and> node_list nm (fn_next nd) xs A)"

lemma node_list_other:
  "node_list nm hdn xs A \<Longrightarrow> node \<notin> A \<Longrightarrow> A \<subseteq> B \<Longrightarrow> node_list (nm(node \<mapsto> nd)) hdn xs B"
  by (induction xs arbitrary: hdn) auto

lemma await_nodes_list:
  "node_list nm hdn xs A \<Longrightarrow>
    await_future_nodes (await_fun get) fst hdn (nm, s) = map_option (Pair nm) (await_each get xs s)"
proof (induction xs arbitrary: hdn s)
  case Nil
  then show ?case by (simp add: await_future_nodes.simps)
next
  case (Cons x xs)
  obtain aw f r where x: "x = (aw, f, r)" by (cases x)
  with Cons.prems obtain nd where "hdn \<noteq> NULL" "nm hdn = Some nd" "fn_await nd = aw" "fn_f nd = f" "fn_r nd = r"
    and rest: "node_list nm (fn_next nd) xs A" by auto
  then have "deref nm hdn = Some nd" "await_fun get (fn_await nd) hdn (nm, s) = map_option (Pair nm) (get aw f r s)"
    by (simp_all add: deref_def await_fun_def map_conv_bind_option o_def)
  then show ?case using Cons.IH [OF rest] \<open>hdn \<noteq> NULL\<close>
    by (subst await_future_nodes.simps) (cases "get aw f r s"; simp add: x)
qed

lemma block_calls_list:
  "block_calls env cfg cs (hdn, nm, s) = Some (hdn', nm', s') \<Longrightarrow> node_list nm hdn xs A \<Longrightarrow>
    distinct (map call_node cs) \<Longrightarrow> NULL \<notin> call_node ` set cs \<Longrightarrow> A \<inter> call_node ` set cs = {} \<Longrightarrow>
    node_list nm' hdn' (awaited cs @ xs) (A \<union> call_node ` set cs)"
proof (induction cs arbitrary: hdn nm s xs A)
  case (Cons c cs)
  obtain fn f args r aw node where c: "c = (fn, f, args, r, aw, node)" by (cases c)
  obtain s1 where rest: "block_calls env cfg cs (node, nm(node \<mapsto> \<lparr>fn_f = f, fn_r = r, fn_await = aw, fn_next = hdn\<rparr>), s1)
      = Some (hdn', nm', s')"
    using Cons.prems(1) by (auto simp: c FUTURE_3_CALL_def FUTURE_2_CALL_def add_node_def bind_eq_Some_conv)
  have "node_list (nm(node \<mapsto> \<lparr>fn_f = f, fn_r = r, fn_await = aw, fn_next = hdn\<rparr>)) node ((aw, f, r) # xs) (insert node A)"
    using Cons.prems(2,4,5) node_list_other [of nm hdn xs A node "insert node A"] by (auto simp: c call_node_def)
  from Cons.IH [OF rest this] Cons.prems(3-5) show ?case
    by (auto simp: c call_node_def awaited_def insert_commute)
qed (simp add: awaited_def)

lemma AWAIT_ALL_never:
  assumes "\<forall>nm s. \<exists>nm' s'. body (NULL, nm, s) = Some (NULL, nm', s')"
  shows "AWAIT_ALL_loop body get (NULL, nm, s) = None"
proof -
  have "fst c = NULL \<and> (\<forall>nm s. \<exists>nm' s'. body (NULL, nm, s) = Some (NULL, nm', s')) \<longrightarrow> False"
    if "AWAIT_ALL_loop body get c = Some y" for c y
  proof (rule AWAIT_ALL_loop.raw_induct [OF _ that])
    fix lp :: "('a block_state \<Rightarrow> 'a block_state option) \<Rightarrow> (addr \<Rightarrow> addr \<Rightarrow> addr \<Rightarrow> 'a \<Rightarrow> 'a option) \<Rightarrow> 'a block_state \<Rightarrow> 'a option"
      and body get c y
    assume IH: "\<And>body get c y. lp body get c = Some y \<Longrightarrow>
        fst c = NULL \<and> (\<forall>nm s. \<exists>nm' s'. body (NULL, nm, s) = Some (NULL, nm', s')) \<longrightarrow> False"
      and step: "(case c of (hdn, nm, s) \<Rightarrow> if hdn = NULL then body c \<bind> (\<lambda>c. lp body get c)
        else await_future_nodes (await_fun get) fst hdn (nm, s) \<bind> (\<lambda>(nm, s). Some s)) = Some y"
    show "fst c = NULL \<and> (\<forall>nm s. \<exists>nm' s'. body (NULL, nm, s) = Some (NULL, nm', s')) \<longrightarrow> False"
    proof (intro impI, elim conjE)
      assume n: "fst c = NULL" and b: "\<forall>nm s. \<exists>nm' s'. body (NULL, nm, s) = Some (NULL, nm', s')"
      then obtain nm s where c: "c = (NULL, nm, s)" by (cases c) auto
      obtain nm' s' where "body (NULL, nm, s) = Some (NULL, nm', s')" using b by blast
      then have "lp body get (NULL, nm', s') = Some y" using step c by simp
      with IH b show False by fastforce
    qed
  qed
  from this [of "(NULL, nm, s)"] assms show ?thesis by (cases "AWAIT_ALL_loop body get (NULL, nm, s)") auto
qed

lemma AWAIT_ALL_calls:
  assumes "block_calls env cfg cs (NULL, nm, s) = Some (hdn, nm', s')" "cs \<noteq> []"
    "distinct (map call_node cs)" "NULL \<notin> call_node ` set cs"
  shows "AWAIT_ALL (block_calls env cfg cs) get nm s = await_each get (awaited cs) s'"
proof -
  have l: "node_list nm' hdn (awaited cs) (call_node ` set cs)"
    using block_calls_list [OF assms(1), of "[]" "{}"] assms(3,4) by simp
  have "awaited cs \<noteq> []" using assms(2) by (simp add: awaited_def)
  then have "hdn \<noteq> NULL" using l by (cases "awaited cs") auto
  then have "AWAIT_ALL_loop (block_calls env cfg cs) get (NULL, nm, s) =
      await_future_nodes (await_fun get) fst hdn (nm', s') \<bind> (\<lambda>(nm, s). Some s)"
    by (subst AWAIT_ALL_loop.simps) (simp add: assms(1) AWAIT_ALL_loop.simps)
  then show ?thesis using await_nodes_list [OF l, of get s']
    by (cases "await_each get (awaited cs) s'") (simp_all add: AWAIT_ALL_def)
qed

section \<open>Properties\<close>



text \<open>
  Property C39. A task created for a future carries the future and the arguments, and the function it runs
  returns the result of the user's function to whoever waits for the future, whether the task
  is run by its creator or has been sent to another worker, for results that fit the buffer.
\<close>

theorem future_call_result:
  assumes "create_task env (\<lambda>t. future_field (plain_fields fn t)) (Some f) args s = Some (task, w, sh)"
    and "f \<noteq> NULL" "p \<noteq> NULL" "get_current_task w \<noteq> NULL" "length (user args) \<le> 8"
  shows "\<exists>t m\<^sub>1 m\<^sub>2 m\<^sub>3 m\<^sub>4. deref (task_mem sh) task = Some t \<and> t_fn t = fn \<and> t_parent t = get_current_task w \<and>
    future_task_func user (length args) t (fut_mem sh) = Some m\<^sub>1 \<and>
    future_get f (length (user args)) m\<^sub>1 = Some (Some (user args), m\<^sub>1) \<and>
    FUTURE_CONVERT p junk t (fut_mem sh) = Some m\<^sub>2 \<and>
    future_task_func user (length args) t m\<^sub>2 = Some m\<^sub>3 \<and>
    future_get f (length (user args)) m\<^sub>3 = Some (Some (user args), m\<^sub>4)"
proof -
  obtain sh0 t0 where a: "deref (task_mem sh0) task = Some t0" and
    sh: "sh = sh0\<lparr>task_mem := (task_mem sh0)(task \<mapsto> (future_field (plain_fields fn (t0\<lparr>t_parent := get_current_task w\<rparr>)))\<lparr>t_data :=
        pack_args (Some f) args @ drop (length (pack_args (Some f) args)) (t_data t0)\<rparr>),
      fut_mem := alloc_future (Some f) (fut_mem sh0)\<rparr>"
    using create_task_fields [OF assms(1)] by (auto simp: future_field_def plain_fields_def)
  define t where "t = (future_field (plain_fields fn (t0\<lparr>t_parent := get_current_task w\<rparr>)))\<lparr>t_data :=
        pack_args (Some f) args @ drop (length (pack_args (Some f) args)) (t_data t0)\<rparr>"
  have t: "deref (task_mem sh) task = Some t" "t_fn t = fn" "t_parent t = get_current_task w"
    "\<exists>rest. t_data t = bytes_of_ptr f @ args @ rest"
    using a sh by (auto simp: t_def deref_def future_field_def plain_fields_def pack_args_def split: if_splits)
  have m: "fut_mem sh = FUTURE_ALLOC f (fut_mem sh0)" using sh by (simp add: alloc_future_def)
  have ft: "future_of_task t = f" using t(4) by (auto simp: future_of_task_def ptr_bytes_roundtrip)
  have run: "future_task_func user (length args) t m = FUTURE_SET f (user args) m" for m
    using assms(4) ft t(3,4) by (auto simp: future_task_func_def is_root_task_def)
  have n: "deref (fm_futures (fut_mem sh)) f = Some new_future" unfolding m by (rule future_alloc_deref [OF assms(2)])
  obtain m1 where m1: "FUTURE_SET f (user args) (fut_mem sh) = Some m1"
    "future_get f (length (user args)) m1 = Some (Some (user args), m1)"
    using lazy_roundtrip [OF n assms(5)] by blast
  obtain m2 c where m2: "FUTURE_CONVERT p junk t (fut_mem sh) = Some m2" "converted f p c m2"
    "chan_inv c" "chan_slots c = []" "ch_itemsize c = 8" "chan_cap c = 1" "ch_impl c = SPSC"
    using FUTURE_CONVERT_new [of "fut_mem sh" t p junk] n ft assms(3) by auto
  obtain m3 m4 where "FUTURE_SET f (user args) m2 = Some m3" "future_get f (length (user args)) m3 = Some (Some (user args), m4)"
    using converted_roundtrip [OF m2(2-7) assms(5)] by blast
  then show ?thesis
    using t m1 m2(1) run by (intro exI [of _ t] exI [of _ m1] exI [of _ m2] exI [of _ m3] exI [of _ m4]) simp
qed

theorem future_call_result_witness:
  "\<exists>t m. t_data t = bytes_of_ptr 200 @ [1, 2] \<and>
    future_task_func rev 2 t (FUTURE_ALLOC 200 (fut_mem (snd looping))) = Some m \<and>
    future_get 200 2 m = Some (Some [2, 1], m)"
proof -
  let ?env = "\<lparr>env_rand = (\<lambda>s. (0, s)), env_junk = blank_task, env_bytes = (\<lambda>_. 0), env_exit_fn = 8, env_refusals = []\<rparr> :: env"
  let ?up = "\<lambda>t. future_field (plain_fields 64 t)"
  obtain w sh where c: "create_task ?env ?up (Some 200) [1, 2] looping = Some (96, w, sh)"
    and w: "get_current_task w = 80" and m: "fut_mem sh = FUTURE_ALLOC 200 (fut_mem (snd looping))"
    and d: "\<And>t. deref (task_mem sh) 96 = Some t \<Longrightarrow> t_data t = bytes_of_ptr 200 @ [1, 2]"
    by (auto simp: create_task_def pack_args_def alloc_future_def looping_def Let_def RT_task_alloc_def idle_worker_def malloc_def deque_task_new_def
        task_new_def task_zero_def assign_def deref_def write_data_def TASK_DATA_SIZE_def zeroed_def blank_task_def
        future_field_def plain_fields_def get_current_task_def)
  have "(200 :: addr) \<noteq> NULL" "(64 :: addr) \<noteq> NULL" "get_current_task w \<noteq> NULL" "length (rev [1, 2 :: byte]) \<le> 8"
    using w by simp_all
  from future_call_result [where user = rev and args = "[1, 2]" and f = 200 and p = 64, OF c this] obtain t m where
    "deref (task_mem sh) 96 = Some t" "future_task_func rev (length [1, 2 :: byte]) t (fut_mem sh) = Some m"
    "future_get 200 (length (rev [1, 2 :: byte])) m = Some (Some (rev [1, 2]), m)"
    by blast
  moreover have "length [1, 2 :: byte] = 2" "rev [1, 2 :: byte] = [2, 1]" "length [2, 1 :: byte] = 2" by simp_all
  ultimately have "deref (task_mem sh) 96 = Some t" "future_task_func rev 2 t (fut_mem sh) = Some m"
    "future_get 200 2 m = Some (Some [2, 1], m)" by (simp_all only: length_rev)
  with m d show ?thesis by auto
qed

text \<open>
  Property C40. A block \<^verbatim>\<open>AWAIT_ALL\<close> that creates futures runs once and then waits for each of them once, the last
  one first; a block that creates none never ends: its body is repeated.
\<close>

theorem await_all_each_once:
  "(block_calls env cfg cs (NULL, nm, s) = Some (hdn, nm', s') \<and> cs \<noteq> [] \<and> distinct (map call_node cs) \<and>
      NULL \<notin> call_node ` set cs \<longrightarrow>
    AWAIT_ALL (block_calls env cfg cs) get nm s = await_each get (awaited cs) s') \<and>
   AWAIT_ALL (block_calls env cfg []) get nm s = None"
  using AWAIT_ALL_calls AWAIT_ALL_never [of "block_calls env cfg []" get nm s] by (auto simp: AWAIT_ALL_def)

theorem await_all_each_once_witness:
  "\<exists>env s'. block_calls env default_config [(64, 200, [1], 300, 72, 400), (64, 216, [2], 308, 72, 432)]
      (NULL, Map.empty, (two_tasks looping)) \<noteq> None \<and>
    AWAIT_ALL (block_calls env default_config [(64, 200, [1], 300, 72, 400), (64, 216, [2], 308, 72, 432)])
      (\<lambda>aw f r s. Some s) Map.empty (two_tasks looping) = Some s'"
proof -
  let ?env = "\<lparr>env_rand = (\<lambda>s. (0, s)), env_junk = blank_task, env_bytes = (\<lambda>_. 0), env_exit_fn = 8, env_refusals = []\<rparr> :: env"
  let ?cs = "[(64, 200, [1], 300, 72, 400), (64, 216, [2], 308, 72, 432)] :: future_call list"
  have "block_calls ?env default_config ?cs (NULL, Map.empty, (two_tasks looping)) \<noteq> None" by code_simp
  then obtain hdn nm s' where b: "block_calls ?env default_config ?cs (NULL, Map.empty, (two_tasks looping)) = Some (hdn, nm, s')" by auto
  have "distinct (map call_node ?cs)" "NULL \<notin> call_node ` set ?cs" by (simp_all add: call_node_def)
  with b await_all_each_once [of ?env default_config ?cs Map.empty "two_tasks looping" hdn nm s' "\<lambda>aw f r s. Some s"]
  have "AWAIT_ALL (block_calls ?env default_config ?cs) (\<lambda>aw f r s. Some s) Map.empty (two_tasks looping) = Some s'"
    by (auto simp: awaited_def)
  with b show ?thesis by (intro exI [of _ ?env] exI [of _ s']) simp
qed

text \<open>
  The arguments of a task are copied into the task object without a check: arguments of more
  than 120 bytes run beyond its end.
\<close>

theorem spawn_data_bound:
  "TASK_DATA_SIZE < length args \<Longrightarrow> ASYNC_2_CALL env cfg fn args s = None \<and>
    ASYNC_3_CALL env cfg fn lo hi args s = None"
  by (simp add: ASYNC_2_CALL_def ASYNC_3_CALL_def spawn_def create_task_bound)

theorem spawn_data_bound_witness:
  "ASYNC_2_CALL \<lparr>env_rand = (\<lambda>s. (0, s)), env_junk = blank_task, env_bytes = (\<lambda>_. 0), env_exit_fn = 8, env_refusals = []\<rparr>
     default_config 64 (replicate 121 0) looping = None"
  using spawn_data_bound [of "replicate 121 0"] by (simp add: TASK_DATA_SIZE_def)

end
