(* ===== verification/Idle.thy ===== *)
theory Idle
  imports Busy
begin

text \<open>
  The steps of an idle worker: receiving tasks, and declining requests until the last own request
  is handed to the parent, or termination is detected. They move tokens by the steps of the protocol
  of \<^theory_text>\<open>Tokens\<close> and by four more.
\<close>

section \<open>The protocol of an idle worker\<close>

inductive idle_step :: "int \<Rightarrow> protocol \<Rightarrow> protocol \<Rightarrow> bool" for me where
  Work: "work_step me c c' \<Longrightarrow> idle_step me c c'"
| Ask_Idle: "idle_step me (M, T, q, S) (add_mset (me, STATE_IDLE) M, T, q + 1, S)"
| Tire: "idle_step me (add_mset (me, STATE_WORKING) M, T, q, S) (add_mset (me, STATE_IDLE) M, T, q, S)"
| Fail: "idle_step me (add_mset (me, STATE_IDLE) M, T, q, S) (add_mset (me, STATE_FAILED) M, T, q, S(me := b))"
| Take: "T me = Suc n \<Longrightarrow> idle_step me (M, T, q, S) (M, T(me := n), q - 1, S)"

abbreviation idle_steps :: "int \<Rightarrow> protocol \<Rightarrow> protocol \<Rightarrow> bool" where
  "idle_steps me \<equiv> (idle_step me)\<^sup>*\<^sup>*"

lemma work_idle_steps: "work_steps me c c' \<Longrightarrow> idle_steps me c c'"
  by (induction rule: rtranclp_induct) (auto intro: Work rtranclp.rtrancl_into_rtrancl)

lemma idle_steps_induct [consumes 1, case_names refl step]:
  assumes "idle_steps me (M, T, q, S) (M', T', q', S')" "P M T q S"
    "\<And>M T q S M' T' q' S'. idle_step me (M, T, q, S) (M', T', q', S') \<Longrightarrow> P M T q S \<Longrightarrow> P M' T' q' S'"
  shows "P M' T' q' S'"
proof -
  have "case c of (M, T, q, S) \<Rightarrow> P M T q S" if "idle_steps me (M, T, q, S) c" for c
    using that assms(2) by (induction rule: rtranclp_induct) (auto intro: assms(3))
  from this [OF assms(1)] show ?thesis by simp
qed

text \<open>Tokens are conserved, other workers gain none, and their signals are not lost.\<close>

lemma idle_step_conserves:
  assumes "idle_step me (M, T, q, S) (M', T', q', S')"
  shows "int (occupancy M' T' i) - of_bool (i = me) * q' = int (occupancy M T i) - of_bool (i = me) * q"
  using assms
proof cases
  case Work
  then show ?thesis by (rule work_step_conserves)
qed (auto simp: occupancy_def)

lemma idle_steps_conserve:
  assumes "idle_steps me (M, T, q, S) (M', T', q', S')"
  shows "int (occupancy M' T' i) - of_bool (i = me) * q' = int (occupancy M T i) - of_bool (i = me) * q"
  using assms by (induction rule: idle_steps_induct) (simp_all add: idle_step_conserves)

lemma idle_steps_new:
  assumes "idle_steps me (M, T, q, S) (M', T', q', S')" "(i, st) \<in># M'" "i \<noteq> me"
  shows "(i, st) \<in># M"
  using assms
proof (induction rule: idle_steps_induct)
  case (step M1 T1 q1 S1 M2 T2 q2 S2)
  from step.hyps step.prems have "(i, st) \<in># M1"
    by cases (auto dest: work_step_new)
  with step show ?case by blast
qed simp

lemma idle_steps_signal:
  assumes "idle_steps me (M, T, q, S) (M', T', q', S')" "i \<noteq> me" "S i \<or> (i, STATE_FAILED) \<in># M"
  shows "S' i \<or> (i, STATE_FAILED) \<in># M'"
  using assms(1)
proof (induction rule: idle_steps_induct)
  case (step M1 T1 q1 S1 M2 T2 q2 S2)
  from step.hyps step.IH assms(2) show ?case
  proof cases
    case Work
    then show ?thesis using work_steps_signal [of me M1 T1 q1 S1 M2 T2 q2 S2 i] step.IH assms(2) by auto
  qed auto
qed (use assms in simp)

section \<open>Receiving tasks\<close>

text \<open>What an operation of an idle worker leaves alone, and the contract of such an operation.\<close>

definition rests :: "config \<Rightarrow> token multiset \<Rightarrow> wst \<Rightarrow> token multiset \<Rightarrow> wst \<Rightarrow> bool" where
  "rests cfg X s Y s' \<longleftrightarrow> linv Y s' \<and> idle_steps (ID (fst s)) (pstate cfg X s) (pstate cfg Y s') \<and>
     ID (fst s') = ID (fst s) \<and> num_workers (snd s') = num_workers (snd s) \<and>
     tasking_finished (fst s') = tasking_finished (fst s) \<and> deque (fst s') = deque (fst s) \<and>
     (left_subtree_is_idle (tree (fst s)) \<longrightarrow> left_subtree_is_idle (tree (fst s'))) \<and>
     (right_subtree_is_idle (tree (fst s)) \<longrightarrow> right_subtree_is_idle (tree (fst s')))"

lemma rests_trans: "rests cfg X s Y s' \<Longrightarrow> rests cfg Y s' Z s'' \<Longrightarrow> rests cfg X s Z s''"
  unfolding rests_def by (auto intro: rtranclp_trans)

lemma linv_waiting:
  "linv X (w\<lparr>tree := (tree w)\<lparr>waiting_for_tasks := b\<rparr>\<rparr>, sh) \<longleftrightarrow> linv X (w, sh)"
  by (simp add: linv_def held_ok_def tree_ok_def quiet_def view_def Let_def)

lemma linv_blocked: "linv X (w\<lparr>blocked := b\<rparr>, sh) \<longleftrightarrow> linv X (w, sh)"
  by (simp add: linv_def held_ok_def tree_ok_def quiet_def view_def Let_def)

lemma linv_quiescent: "linv X (w\<lparr>quiescent := b\<rparr>, sh) \<longleftrightarrow> linv X (w, sh)"
  by (simp add: linv_def held_ok_def tree_ok_def quiet_def view_def Let_def)

lemma recv_task_loop_one:
  assumes "chans_ok sh" "0 \<le> ID w" "ID w < num_workers sh"
  shows "recv_task_loop 0 (Suc 0) (w, sh) =
    (case chan_tasks sh ! nat (ID w) ! 0 of
       [] \<Rightarrow> Some (None, w, sh)
     | task # q \<Rightarrow> do {
         w' \<leftarrow> CHANNEL_PUSH (ID w, 0) w;
         Some (Some task, w', sh\<lparr>chan_tasks := (chan_tasks sh)[nat (ID w) := [q]]\<rparr>)
       })"
proof -
  have l: "nat (ID w) < length (chan_tasks sh)" "length (chan_tasks sh ! nat (ID w)) = 1"
    using assms chans_okD(3,5) [OF assms(1)] by auto
  then obtain c where c: "chan_tasks sh ! nat (ID w) = [c]" by (metis One_nat_def length_0_conv length_Suc_conv)
  have "ID w' = ID w" if "CHANNEL_PUSH ch w = Some w'" for ch w'
    using that by (auto simp: CHANNEL_PUSH_def bind_eq_Some_conv)
  then have "CHANNEL_PUSH (ID w, 0) w \<bind> (\<lambda>w'. Some (Some t, w', sh\<lparr>chan_tasks := (chan_tasks sh)[nat (ID w') := [q]]\<rparr>)) =
      CHANNEL_PUSH (ID w, 0) w \<bind> (\<lambda>w'. Some (Some t, w', sh\<lparr>chan_tasks := (chan_tasks sh)[nat (ID w) := [q]]\<rparr>))" for t q
    by (cases "CHANNEL_PUSH (ID w, 0) w") auto
  then show ?thesis
    using l c by (subst recv_task_loop.simps) (auto simp: read_at_def recv_task_loop.simps [of "Suc 0"] list_get_def split: list.splits)
qed


lemma answers_own:
  assumes "chans_ok sh" "0 \<le> i" "i < num_workers sh"
  shows "answers sh i = length (chan_tasks sh ! nat i ! 0)" "chan_tasks sh ! nat i = [chan_tasks sh ! nat i ! 0]"
proof -
  have "length (chan_tasks sh ! nat i) = 1" using chans_okD(5) [OF assms(1)] assms(2,3) by simp
  then obtain c where "chan_tasks sh ! nat i = [c]" by (metis One_nat_def length_0_conv length_Suc_conv)
  then show "answers sh i = length (chan_tasks sh ! nat i ! 0)" "chan_tasks sh ! nat i = [chan_tasks sh ! nat i ! 0]"
    using assms(2) by (simp_all add: answers_def)
qed

lemma single_le: "single N M T \<Longrightarrow> (\<And>i. T' i \<le> T i) \<Longrightarrow> single N M T'"
  unfolding single_def occupancy_def by (meson add_left_mono order_trans)

text \<open>Taking the only task out of the channel of the worker.\<close>

lemma take_task:
  assumes inv: "linv {#} (w, sh)" "owns {#} (w, sh)" and c: "chan_tasks sh ! nat (ID w) ! 0 = task # q"
    and w': "ID w' = ID w" "work_sharing_requests w' = work_sharing_requests w" "requested w' = requested w - 1"
      "tree w' = tree w\<lparr>waiting_for_tasks := b\<rparr>" "requested w' = 0"
      "set (bs_buffer (channel_stack w')) \<subseteq> {None, Some (ID w, 0)}" "tasking_finished w' = tasking_finished w"
      "deque w' = deque w"
    and sh': "sh' = sh\<lparr>chan_tasks := (chan_tasks sh)[nat (ID w) := [q]]\<rparr>"
  shows "rests cfg {#} (w, sh) {#} (w', sh') \<and> view (w', sh') = view (w, sh)"
proof -
  note i = linvD [OF inv(1)]
  have t: "tree_ok (num_workers sh) w" using i(2) by (simp add: held_ok_def)
  note l = tree_ok_links(4,5) [OF t]
  note a = answers_own [OF i(1) l]
  have nl: "nat (ID w) < length (chan_tasks sh)" using l chans_okD(3) [OF i(1)] by linarith
  have an: "answers sh' = (answers sh)(ID w := length q)"
    using sh' l(1) nl by (auto simp: answers_def fun_eq_iff nth_list_update)
  have v: "view (w', sh') = view (w, sh)" using w'(2) sh' by (simp add: view_def)
  have ok: "chans_ok sh'" using i(1) sh' nl by (auto simp: chans_ok_def Let_def nth_list_update)
  have "single (num_workers sh) (view (w, sh)) (answers sh')"
    by (rule single_le [OF i(3) [simplified]]) (use an a(1) c in simp)
  moreover have "held_ok (num_workers sh) w'"
    using i(2) w' by (auto simp: held_ok_def tree_ok_def)
  moreover have "quiet (w', sh')" using i(4) w' v sh' by (simp add: quiet_def Let_def)
  ultimately have li: "linv {#} (w', sh')" using ok v sh' i(5) w'(7) by (simp add: linv_def)
  have "idle_step (ID w) (pstate cfg {#} (w, sh)) (pstate cfg {#} (w', sh'))"
    using Take [of "answers sh" "ID w" "length q" "view (w, sh)" "requested w" "signalled cfg sh"] a(1) c an v w'(3) sh'
    by (simp add: pstate_def signalled_def [abs_def])
  then show ?thesis using li v w' sh' by (auto simp: rests_def)
qed

lemma RECV_TASK_ok:
  assumes inv: "linv {#} (w, sh)" "owns {#} (w, sh)" and cfg: "MAXSTEAL cfg = 1"
    and rt: "RECV_TASK rand cfg idle (w, sh) = Some (r, w', sh')"
  shows "rests cfg {#} (w, sh) {#} (w', sh') \<and> blocked w' = blocked w \<and> quiescent w' = quiescent w \<and>
    (r \<noteq> None \<longrightarrow> requested w' = 0 \<and> view (w', sh') = view (w, sh)) \<and>
    (view (w', sh') = view (w, sh) \<or>
     view (w', sh') = add_mset (ID w, if idle then STATE_IDLE else STATE_WORKING) (view (w, sh)))"
proof -
  note i = linvD [OF inv(1)]
  have t: "tree_ok (num_workers sh) w" using i(2) by (simp add: held_ok_def)
  note loop = recv_task_loop_one [OF i(1) tree_ok_links(4,5) [OF t]]
  show ?thesis
  proof (cases "chan_tasks sh ! nat (ID w) ! 0")
    case Nil
    then have ts: "try_send_steal_request rand cfg idle (w, sh) = Some (w', sh')" and r: "r = None"
      using rt cfg loop by (auto simp: RECV_TASK_def bind_eq_Some_conv)
    let ?st = "if idle then STATE_IDLE else STATE_WORKING"
    from try_send_ok [OF inv cfg ts] consider "w' = w" "sh' = sh" |
      "requested w = 0" "requested w' = 1" "linv {#} (w', sh')" "frame (w, sh) (w', sh')" "tree w' = tree w"
      "view (w', sh') = add_mset (ID w, ?st) (view (w, sh))" "answers sh' = answers sh"
      "signalled cfg sh' = signalled cfg sh" "deque w' = deque w" "quiescent w' = quiescent w" by blast
    then show ?thesis
    proof cases
      case 1
      then show ?thesis using inv(1) r by (simp add: rests_def)
    next
      case 2
      have "idle_step (ID w) (view (w, sh), answers sh, 0, signalled cfg sh)
          (add_mset (ID w, ?st) (view (w, sh)), answers sh, 1, signalled cfg sh)"
        using Ask_Idle [of "ID w" "view (w, sh)" "answers sh" 0 "signalled cfg sh"]
          Work [OF Ask [of "ID w" "view (w, sh)" "answers sh" 0 "signalled cfg sh"]] by simp
      then have "idle_step (ID w) (pstate cfg {#} (w, sh)) (pstate cfg {#} (w', sh'))"
        using 2 by (simp add: pstate_def)
      then show ?thesis using 2 r by (auto simp: rests_def frame_def)
    qed
  next
    case (Cons task q)
    then obtain w1 where p: "CHANNEL_PUSH (ID w, 0) w = Some w1"
      and loop': "recv_task_loop 0 (nat (MAXSTEAL cfg)) (w, sh) =
        Some (Some task, w1, sh\<lparr>chan_tasks := (chan_tasks sh)[nat (ID w) := [q]]\<rparr>)"
      using rt cfg loop by (auto simp: RECV_TASK_def bind_eq_Some_conv)
    obtain st where st: "bounded_stack_push (channel_stack w) (ID w, 0) = Some st" and w1: "w1 = w\<lparr>channel_stack := st\<rparr>"
      using p by (auto simp: CHANNEL_PUSH_def bind_eq_Some_conv)
    obtain w2 where w2: "(if waiting_for_tasks (tree w1) then do {
              assertion (requested w1 = MAXSTEAL cfg);
              assertion (uint (bs_top (channel_stack w1)) = MAXSTEAL cfg);
              Some (w1\<lparr>requested := 1, tree := (tree w1)\<lparr>waiting_for_tasks := False\<rparr>,
                dropped_steal_requests := 0\<rparr>)
            } else Some w1) = Some w2"
      and r: "r = Some task" and w': "w' = w2\<lparr>requested := requested w2 - 1\<rparr>" "requested w2 = 1"
      and sh': "sh' = sh\<lparr>chan_tasks := (chan_tasks sh)[nat (ID w) := [q]]\<rparr>"
      using rt cfg unfolding RECV_TASK_def loop' Let_def by (cases "waiting_for_tasks (tree w1)") (auto simp: bind_eq_Some_conv)
    have bt: "\<exists>b. tree w2 = tree w1\<lparr>waiting_for_tasks := b\<rparr>" "requested w1 = 1"
      "ID w2 = ID w1" "work_sharing_requests w2 = work_sharing_requests w1" "channel_stack w2 = channel_stack w1"
      "tasking_finished w2 = tasking_finished w1" "deque w2 = deque w1" "blocked w2 = blocked w1" "quiescent w2 = quiescent w1"
      using w2 w'(2) cfg by (auto simp: bind_eq_Some_conv split: if_splits intro: exI [of _ False] exI [of _ "waiting_for_tasks (tree w1)"])
    then obtain b where b: "tree w' = tree w\<lparr>waiting_for_tasks := b\<rparr>" using w'(1) w1 by auto
    have "set (bs_buffer st) \<subseteq> {None, Some (ID w, 0)}"
      by (rule push_own [OF st]) (rule held_ok_stack [OF i(2)])
    then have "rests cfg {#} (w, sh) {#} (w', sh') \<and> view (w', sh') = view (w, sh)"
      by (intro take_task [OF inv Cons _ _ _ b _ _ _ _ sh']) (use bt w1 w' in simp_all)
    then show ?thesis using bt w1 w' by simp
  qed
qed

section \<open>Giving up\<close>

lemma works_rests:
  assumes "works cfg X s Y s'" "deque (fst s') = deque (fst s)"
    "left_subtree_is_idle (tree (fst s)) \<longrightarrow> left_subtree_is_idle (tree (fst s'))"
    "right_subtree_is_idle (tree (fst s)) \<longrightarrow> right_subtree_is_idle (tree (fst s'))"
  shows "rests cfg X s Y s'"
  using assms by (auto simp: works_def rests_def frame_def intro: work_idle_steps)

lemma linv_token: "linv (X + {#(i, a)#}) s \<longleftrightarrow> linv (X + {#(i, b)#}) s"
  by (simp add: linv_def single_def)

lemma linv_signals:
  assumes "length sg = length (signals sh)" shows "linv X (w, sh\<lparr>signals := sg\<rparr>) \<longleftrightarrow> linv X (w, sh)"
proof -
  have "answers (sh\<lparr>signals := sg\<rparr>) = answers sh" by (simp add: fun_eq_iff answers_def)
  then show ?thesis using assms by (simp add: linv_def chans_ok_def quiet_def view_def Let_def)
qed

text \<open>A worker whose subtrees are idle may tell its parent: below its children nothing has failed anew.\<close>

lemma quiet_parent:
  assumes inv: "linv X (w, sh)" and id: "0 < ID w" and r: "req_ID r = ID w"
    and v: "v = tree_parent (tree w)"
  shows "quiet (w, sh\<lparr>chan_requests := (chan_requests sh)[nat v := chan_requests sh ! nat v @ [r]]\<rparr>)"
proof -
  note i = linvD [OF inv] and ch = chans_okD [OF linvD(1) [OF inv]]
  let ?sh = "sh\<lparr>chan_requests := (chan_requests sh)[nat v := chan_requests sh ! nat v @ [r]]\<rparr>"
  have t: "tree_ok (num_workers sh) w" using i(2) by (simp add: held_ok_def)
  note l = tree_ok_links [OF t]
  have vb: "0 \<le> v" "v < ID w" "v < num_workers sh" using v l(3,5) id by auto
  have vl: "nat v < length (chan_requests sh)" using vb ch(2) by linarith
  have vw: "view (w, ?sh) = add_mset (tok r) (view (w, sh))"
    using toks_concat_update [OF vl, of "chan_requests sh ! nat v @ [r]"] by (simp add: view_def)
  have "req_state x \<noteq> STATE_FAILED"
    if c: "c \<in> {tree_left_child (tree w), tree_right_child (tree w)} - {- 1}" "(c, STATE_FAILED) \<in># view (w, ?sh)"
      and j: "j \<in> subtree (num_workers sh - 1) c" and x: "x \<in> set (chan_requests ?sh ! nat j)" for c j x
  proof -
    have cw: "ID w < c" using c(1) l id by (auto split: if_splits)
    then have "(c, STATE_FAILED) \<in># view (w, sh)" using c(2) vw r by (auto simp: tok_def)
    moreover have "c \<le> j" using subtree_ge [of c j "num_workers sh - 1"] j cw id by simp
    then have "nat j \<noteq> nat v" using vb cw by linarith
    then have "x \<in> set (chan_requests sh ! nat j)" using x by simp
    ultimately show ?thesis using i(4) c(1) j by (auto simp: quiet_def Let_def)
  qed
  then show ?thesis by (simp add: quiet_def Let_def)
qed

lemma fail_ok:
  assumes inv: "linv {#tok r#} (w, sh)" and g: "good_req (num_workers sh) r" and own: "req_ID r = ID w"
    and st: "req_state r = STATE_IDLE" and cfg: "MAXSTEAL cfg = 1" and id: "0 < ID w"
    and b: "become_quiescent cfg r (w, sh) = Some (w', sh')"
  shows "rests cfg {#tok r#} (w, sh) {#} (w', sh') \<and> quiescent w' = quiescent w \<and>
    view (w', sh') = add_mset (ID w, STATE_FAILED) (view (w, sh)) \<and> tree w' = (tree w)\<lparr>waiting_for_tasks := True\<rparr>"
proof -
  let ?r = "r\<lparr>req_state := STATE_FAILED\<rparr>" and ?v = "tree_parent (tree w)"
  note i = linvD [OF inv]
  have t: "tree_ok (num_workers sh) w" using i(2) by (simp add: held_ok_def)
  note l = tree_ok_links [OF t]
  have v: "0 \<le> ?v" "?v < num_workers sh" using l(3,5) id by auto
  have inv': "linv ({#} + {#tok ?r#}) (w, sh)"
    using inv linv_token [of "{#}" "ID w" STATE_IDLE _ STATE_FAILED] own st by (simp add: tok_def)
  obtain s1 where send: "SEND_REQ_WORKER cfg ?v ?r (w, sh) = Some s1" using b id by (auto simp: become_quiescent_def bind_eq_Some_conv)
  obtain sh1 ks where o1: "s1 = (w, sh1)"
    "sh1 = sh\<lparr>chan_requests := (chan_requests sh)[nat ?v := chan_requests sh ! nat ?v @ [?r]], refusals := ks\<rparr>"
    "linv {#} (w, sh1)" "view (w, sh1) = add_mset (tok ?r) (view (w, sh))"
    using SEND_REQ_WORKER_ok [OF inv' _ _ v cfg _ send] g own quiet_parent [OF inv' id, of ?r ?v] l(3) id
    by (auto simp: good_req_def placed_def)
  note o = send [unfolded o1(1)] o1(2-4)
  let ?w = "w\<lparr>tree := (tree w)\<lparr>waiting_for_tasks := True\<rparr>\<rparr>"
  obtain bl sg where e: "w' = ?w\<lparr>blocked := bl\<rparr>" "sh' = sh1\<lparr>signals := sg\<rparr>"
    "sg = (if BACKOFF cfg = Wait_Cond then (signals sh)[nat (ID w) := False] else signals sh)"
  proof (cases "BACKOFF cfg = Wait_Cond")
    case True
    have "w' = ?w\<lparr>blocked := blocked w'\<rparr>" "sh' = sh1\<lparr>signals := (signals sh)[nat (ID w) := False]\<rparr>"
      using b o(1,2) id True by (auto simp: become_quiescent_def bind_eq_Some_conv write_at_Some)
    then show ?thesis using that True by metis
  next
    case False
    have "w' = ?w\<lparr>blocked := blocked w\<rparr>" "sh' = sh1\<lparr>signals := signals sh\<rparr>"
      using b o(1,2) id False by (auto simp: become_quiescent_def bind_eq_Some_conv)
    then show ?thesis using that False by metis
  qed
  have v': "view (w', sh') = add_mset (ID w, STATE_FAILED) (view (w, sh))"
    using o(4) e own by (simp add: view_def tok_def)
  have li: "linv {#} (w', sh')"
    using o(2,3) e linv_signals [of sg sh1] by (simp add: linv_blocked linv_waiting)
  have sg: "signalled cfg sh' = (signalled cfg sh)(ID w := signalled cfg sh' (ID w))"
    using e(2,3) l(4) by (auto simp: signalled_def fun_eq_iff)
  have an: "answers sh' = answers sh" using e(2) o(2) by (simp add: answers_def fun_eq_iff)
  have tk: "tok r = (ID w, STATE_IDLE)" using own st by (simp add: tok_def)
  have "idle_step (ID w) (add_mset (ID w, STATE_IDLE) (view (w, sh)), answers sh, requested w, signalled cfg sh)
      (add_mset (ID w, STATE_FAILED) (view (w, sh)), answers sh, requested w, (signalled cfg sh)(ID w := signalled cfg sh' (ID w)))"
    by (rule Fail)
  then have "idle_step (ID w) (pstate cfg {#tok r#} (w, sh)) (pstate cfg {#} (w', sh'))"
    using v' an tk e(1) unfolding sg [symmetric] by (simp add: pstate_def)
  then show ?thesis using li v' e o(2) by (auto simp: rests_def)
qed

lemma detect_ok:
  assumes inv: "linv {#tok r#} (w, sh)" and g: "good_req (num_workers sh) r" and id: "ID w = 0"
    and b: "become_quiescent cfg r (w, sh) = Some (w', sh')"
  shows "rests cfg {#tok r#} (w, sh) {#} (w', sh') \<and> quiescent w' \<and> requested w' = requested w - 1 \<and>
    blocked w' = blocked w \<and> view (w', sh') = view (w, sh) \<and> tree w' = tree w \<and>
    left_subtree_is_idle (tree w) \<and> right_subtree_is_idle (tree w)"
proof -
  let ?w = "w\<lparr>quiescent := True\<rparr>"
  have f: "FORGET_REQ r ?w = Some w'" and e: "sh' = sh"
    and fl: "left_subtree_is_idle (tree w) \<and> right_subtree_is_idle (tree w)"
    using b id by (auto simp: become_quiescent_def detect_termination_def bind_eq_Some_conv)
  obtain cs where w': "w' = ?w\<lparr>requested := requested w - 1, channel_stack := cs\<rparr>"
    using FORGET_REQ_fields [OF f] by auto
  have inv': "linv ({#} + {#tok r#}) (?w, sh)" using inv by (simp add: linv_quiescent)
  have "works cfg {#tok r#} (?w, sh) {#} (w', sh)" using FORGET_REQ_works [OF inv' g f] by simp
  moreover have "pstate cfg {#tok r#} (?w, sh) = pstate cfg {#tok r#} (w, sh)" by (simp add: pstate_def view_def)
  ultimately have "works cfg {#tok r#} (w, sh) {#} (w', sh)" by (simp add: works_def frame_def)
  then have "rests cfg {#tok r#} (w, sh) {#} (w', sh)" by (rule works_rests) (simp_all add: w')
  then show ?thesis using w' e fl by (simp add: view_def)
qed

text \<open>Receiving requests only sets flags.\<close>

definition grows :: "worker \<Rightarrow> worker \<Rightarrow> bool" where
  "grows w w' \<longleftrightarrow> (left_subtree_is_idle (tree w) \<longrightarrow> left_subtree_is_idle (tree w')) \<and>
     (right_subtree_is_idle (tree w) \<longrightarrow> right_subtree_is_idle (tree w'))"

lemma hold_failed_grows: "hold_failed r w = Some w' \<Longrightarrow> grows w w'"
  by (auto simp: hold_failed_def ENQUEUE_WORK_SHARING_REQUEST_def grows_def split: if_splits Option.bind_splits)

lemma recv_own_grows: "recv_own q w = Some (r, q', w') \<Longrightarrow> grows w w'"
proof (induction q w rule: recv_own.induct)
  case (2 req q w)
  then show ?case
    by (auto simp: grows_def dest!: hold_failed_grows split: if_splits Option.bind_splits)
qed (simp add: grows_def)

lemma RECV_REQ_grows:
  assumes "RECV_REQ cfg (w, sh) = Some (r, w', sh')"
  shows "grows w w'"
proof -
  obtain q r1 q1 where "recv_own q w = Some (r1, q1, w')"
    using assms by (auto simp: RECV_REQ_def Let_def bind_eq_Some_conv split: if_splits)
  then show ?thesis by (rule recv_own_grows)
qed

lemma SEND_REQ_WORKER_fst: "SEND_REQ_WORKER cfg v r (w, sh) = Some s' \<Longrightarrow> fst s' = w"
  by (auto simp: SEND_REQ_WORKER_def bind_eq_Some_conv split: option.splits prod.splits if_splits)

text \<open>What happens to a request that is not the last hope of an idle worker.\<close>

lemma decline_passes:
  assumes inv: "linv {#tok r#} (w, sh)" and r: "good_req (num_workers sh) r" "req_state r \<noteq> STATE_FAILED"
    and cfg: "MAXSTEAL cfg = 1" and dec: "decline_steal_request rand cfg r (w, sh) = Some s'"
    and not: "req_ID r = ID w \<Longrightarrow> req_state r = STATE_IDLE \<and> \<not> (left_subtree_is_idle (tree w) \<and> right_subtree_is_idle (tree w))"
  shows "works cfg {#tok r#} (w, sh) {#} s' \<and> deque (fst s') = deque w \<and> quiescent (fst s') = quiescent w \<and>
    tree (fst s') = tree w"
proof -
  let ?w = "w\<lparr>requests_declined := requests_declined w + 1\<rparr>"
  let ?r = "r\<lparr>req_try := req_try r + 1\<rparr>"
  let ?own = "?r\<lparr>req_try := 0, req_victims := INIT_VICTIMS (num_workers sh)\<rparr>"
  obtain q v r' w' where q: "q = ?r \<or> q = ?own" and nv: "next_victim rand cfg (num_workers sh) q ?w = Some (v, r', w')"
    and sd: "SEND_REQ_WORKER cfg v r' (w', sh) = Some s'"
  proof (cases "req_ID r = ID w")
    case False
    then show ?thesis using that [of ?r] dec by (auto simp: decline_steal_request_def Let_def bind_eq_Some_conv)
  next
    case True
    then obtain v r' w' where nv: "next_victim rand cfg (num_workers sh) ?own ?w = Some (v, r', w')"
      and rest: "(if v \<noteq> ID w' then SEND_REQ_WORKER cfg v r' (w', sh)
        else do { assertion (req_state r' = STATE_WORKING); w \<leftarrow> FORGET_REQ r' w'; Some (w, sh) }) = Some s'"
      using dec not by (auto simp: decline_steal_request_def Let_def bind_eq_Some_conv)
    obtain vi where "r' = ?own\<lparr>req_victims := vi\<rparr>" using next_victim_fields [OF nv] by blast
    then have "req_state r' = STATE_IDLE" using not [OF True] by simp
    then show ?thesis using that [of ?own] nv rest by (auto split: if_splits)
  qed
  have w: "works cfg {#tok r#} (w, sh) {#tok r#} (?w, sh)"
    using same_protocol_works [OF inv, of ?w] by (simp add: same_protocol_def)
  have tk: "tok q = tok r" and g: "good_req (num_workers sh) q" "req_state q \<noteq> STATE_FAILED"
    using q r by (auto simp: tok_def good_req_def)
  have "works cfg ({#} + {#tok q#}) (?w, sh) {#} s' \<and> deque (fst s') = deque ?w \<and> quiescent (fst s') = quiescent ?w"
    by (rule pass_on_works [OF _ g cfg nv sd]) (use worksD(1) [OF w] tk in simp)
  moreover have "tree (fst s') = tree w"
  proof -
    obtain vs where "w' = ?w\<lparr>victim_sel := vs\<rparr>" using next_victim_fields [OF nv] by blast
    then show ?thesis using SEND_REQ_WORKER_fst [OF sd] by simp
  qed
  ultimately show ?thesis using works_trans [OF w] tk by simp
qed

lemma linv_one: "linv X (w, sh) \<Longrightarrow> requested w = 0 \<or> requested w = 1"
  by (simp add: linv_def held_ok_def)

text \<open>
  The contract of declining: only an idle worker with idle subtrees has its request fail and only
  then it blocks; only the master detects termination, and then it has no request under way.
\<close>

definition subtrees_idle :: "worker \<Rightarrow> bool" where
  "subtrees_idle w \<longleftrightarrow> left_subtree_is_idle (tree w) \<and> right_subtree_is_idle (tree w)"

text \<open>With condition variables, a worker that gives up blocks unless a task has arrived meanwhile.\<close>

definition sleeps :: "config \<Rightarrow> wst \<Rightarrow> bool" where
  "sleeps cfg s \<longleftrightarrow> (BACKOFF cfg = Wait_Cond \<longrightarrow> blocked (fst s) \<or> peek (chan_tasks (snd s) ! nat (ID (fst s))))"

lemma become_sleeps:
  assumes "become_quiescent cfg r (w, sh) = Some (w', sh')" "ID w \<noteq> 0"
  shows "sleeps cfg (w', sh')"
proof (cases "BACKOFF cfg = Wait_Cond")
  case True
  let ?r = "r\<lparr>req_state := STATE_FAILED\<rparr>"
  obtain w1 sh1 where s1: "SEND_REQ_WORKER cfg (tree_parent (tree w)) ?r (w, sh) = Some (w1, sh1)"
    and b: "(do { assertion (\<not> waiting_for_tasks (tree w1));
       let w = w1\<lparr>tree := (tree w1)\<lparr>waiting_for_tasks := True\<rparr>\<rparr>;
       chans \<leftarrow> read_at (chan_tasks sh1) (nat (ID w));
       s \<leftarrow> write_at (signals sh1) (nat (ID w)) False;
       Some (w\<lparr>blocked := \<not> peek chans\<rparr>, sh1\<lparr>signals := s\<rparr>) }) = Some (w', sh')"
    using assms True by (auto simp: become_quiescent_def bind_eq_Some_conv)
  then show ?thesis by (auto simp: sleeps_def bind_eq_Some_conv read_at_Some)
qed (simp add: sleeps_def)

definition gives_up :: "config \<Rightarrow> wst \<Rightarrow> wst \<Rightarrow> bool" where
  "gives_up cfg s s' \<longleftrightarrow> rests cfg {#} s {#} s' \<and>
     (quiescent (fst s) \<longrightarrow> quiescent (fst s')) \<and>
     (quiescent (fst s') \<longrightarrow> quiescent (fst s) \<or> ID (fst s) = 0 \<and> subtrees_idle (fst s') \<and> requested (fst s') = 0) \<and>
     (blocked (fst s') \<longrightarrow> blocked (fst s) \<or> (ID (fst s), STATE_FAILED) \<in># view s') \<and>
     ((ID (fst s), STATE_FAILED) \<in># view s' \<longrightarrow>
       (ID (fst s), STATE_FAILED) \<in># view s \<or> 0 < ID (fst s) \<and> subtrees_idle (fst s') \<and> sleeps cfg s')"

lemma works_gives_up:
  assumes "works cfg {#} s {#} s'" "deque (fst s') = deque (fst s)" "grows (fst s) (fst s')"
    "quiescent (fst s') = quiescent (fst s)"
  shows "gives_up cfg s s'"
proof -
  have "rests cfg {#} s {#} s'" using assms by (intro works_rests) (auto simp: grows_def)
  moreover have "(ID (fst s), STATE_FAILED) \<in># view s" if "(ID (fst s), STATE_FAILED) \<in># view s'"
    using work_steps_new [of "ID (fst s)" "view s" _ _ _ "view s'" _ _ _ "(ID (fst s), STATE_FAILED)"]
      worksD(2) [OF assms(1)] that by (auto simp: pstate_def)
  ultimately show ?thesis using assms worksD(3) [OF assms(1)] by (simp add: gives_up_def frame_def)
qed

lemma tire:
  assumes inv: "linv {#tok r#} (w, sh)" and own: "req_ID r = ID w" and st: "req_state r \<noteq> STATE_FAILED"
  shows "rests cfg {#tok r#} (w, sh) {#(ID w, STATE_IDLE)#} (w, sh)"
proof -
  have "linv {#(ID w, STATE_IDLE)#} (w, sh)"
    using inv linv_token [of "{#}" "ID w" "req_state r" _ STATE_IDLE] own by (simp add: tok_def)
  moreover have "idle_steps (ID w) (pstate cfg {#tok r#} (w, sh)) (pstate cfg {#(ID w, STATE_IDLE)#} (w, sh))"
    using Tire [of "ID w" "view (w, sh)" "answers sh" "requested w" "signalled cfg sh"] own st
    by (cases "req_state r") (auto simp: pstate_def tok_def)
  ultimately show ?thesis by (simp add: rests_def)
qed

lemma decline_own:
  assumes inv: "linv {#tok r#} (w, sh)" and g: "good_req (num_workers sh) r" and own: "req_ID r = ID w"
    and st: "req_state r = STATE_IDLE" and idle: "subtrees_idle w" and cfg: "MAXSTEAL cfg = 1"
    and dec: "decline_steal_request rand cfg r (w, sh) = Some (w', sh')"
  shows "rests cfg {#tok r#} (w, sh) {#} (w', sh') \<and> subtrees_idle w' \<and>
    (if ID w = 0 then quiescent w' \<and> requested w' = requested w - 1 \<and> blocked w' = blocked w \<and> view (w', sh') = view (w, sh)
     else quiescent w' = quiescent w \<and> (ID w, STATE_FAILED) \<in># view (w', sh') \<and> sleeps cfg (w', sh'))"
proof -
  let ?w = "w\<lparr>requests_declined := requests_declined w + 1\<rparr>"
  let ?r = "r\<lparr>req_try := req_try r + 1\<rparr>"
  have b: "become_quiescent cfg ?r (?w, sh) = Some (w', sh')"
    using dec own st idle cfg by (auto simp: decline_steal_request_def subtrees_idle_def Let_def bind_eq_Some_conv)
  have sp: "works cfg {#tok r#} (w, sh) {#tok r#} (?w, sh)"
    using same_protocol_works [OF inv, of ?w] by (simp add: same_protocol_def)
  then have w: "rests cfg {#tok r#} (w, sh) {#tok r#} (?w, sh)" by (rule works_rests) simp_all
  have tk: "tok ?r = tok r" by (simp add: tok_def)
  have inv': "linv {#tok ?r#} (?w, sh)" using worksD(1) [OF sp] tk by simp
  have g': "good_req (num_workers sh) ?r" using g by (simp add: good_req_def)
  have v: "view (?w, sh) = view (w, sh)" by (simp add: view_def)
  show ?thesis
  proof (cases "ID w = 0")
    case True
    then show ?thesis
      using detect_ok [OF inv' g' _ b] rests_trans [OF w, of "{#}" "(w', sh')"] tk idle v by (simp add: subtrees_idle_def)
  next
    case False
    have "0 < ID w" using g own False by (simp add: good_req_def)
    then show ?thesis
      using fail_ok [OF inv' g' _ _ cfg _ b] become_sleeps [OF b] own st rests_trans [OF w, of "{#}" "(w', sh')"] tk idle v False by (simp add: subtrees_idle_def)
  qed
qed

lemma decline_all_ok:
  assumes inv: "linv {#} s" and cfg: "MAXSTEAL cfg = 1"
    and d: "decline_all_steal_requests rand cfg s = Some s'"
  shows "gives_up cfg s s'"
proof -
  obtain w sh where s: "s = (w, sh)" by (cases s)
  obtain r w1 sh1 where rc: "RECV_REQ cfg (w, sh) = Some (r, w1, sh1)"
    using d s by (auto simp: decline_all_steal_requests_def bind_eq_Some_conv)
  note R = RECV_REQ_works [OF inv [unfolded s] rc, simplified]
  have gr: "grows w w1" by (rule RECV_REQ_grows [OF rc])
  have pre: "rests cfg {#} (w, sh) (hand r) (w1, sh1)"
    using works_rests [of cfg "{#}" "(w, sh)" "hand r" "(w1, sh1)"] R gr by (simp add: grows_def)
  have fr: "ID w1 = ID w" "blocked w1 = blocked w" "num_workers sh1 = num_workers sh" using R by (simp_all add: works_def frame_def)
  show ?thesis
  proof (cases r)
    case None
    then have "s' = (w1, sh1)" using d s rc by (simp add: decline_all_steal_requests_def)
    then show ?thesis using works_gives_up [of cfg s s'] R None gr s by simp
  next
    case (Some req)
    let ?req = "if req_ID req = ID w1 \<and> req_state req = STATE_WORKING then req\<lparr>req_state := STATE_IDLE\<rparr> else req"
    have dec: "decline_steal_request rand cfg ?req (w1, sh1) = Some s'"
      using d s rc Some by (simp add: decline_all_steal_requests_def Let_def)
    have g: "good_req (num_workers sh1) req" "req_state req \<noteq> STATE_FAILED" using R Some fr by auto
    have i1: "linv {#tok req#} (w1, sh1)" using R Some by (simp add: works_def)
    show ?thesis
    proof (cases "req_ID req = ID w1")
      case False
      have "works cfg {#tok req#} (w1, sh1) {#} s' \<and> deque (fst s') = deque w1 \<and> quiescent (fst s') = quiescent w1 \<and>
          tree (fst s') = tree w1"
        by (rule decline_passes [OF i1 g cfg]) (use dec False in simp_all)
      then show ?thesis
        using works_gives_up [of cfg s s'] R Some gr s works_trans [of cfg "{#}" "(w, sh)" "{#tok req#}" "(w1, sh1)" "{#}" s']
        by (simp add: grows_def)
    next
      case own: True
      define q where "q = ?req"
      have qid: "req_ID q = ID w1" "req_chan q = req_chan req" using own by (simp_all add: q_def)
      have dec: "decline_steal_request rand cfg q (w1, sh1) = Some s'" using dec by (simp only: q_def)
      have st: "req_state q = STATE_IDLE" using own g(2) by (cases "req_state req") (auto simp: q_def)
      have tk: "tok q = (ID w1, STATE_IDLE)" using st qid by (simp add: tok_def)
      have ti: "rests cfg {#} s {#tok q#} (w1, sh1)"
        using rests_trans [OF pre] tire [OF i1 own g(2), of cfg] tk Some s by simp
      have i2: "linv {#tok q#} (w1, sh1)" using ti by (simp add: rests_def)
      have g': "good_req (num_workers sh1) q" "req_state q \<noteq> STATE_FAILED" using g(1) st qid own by (auto simp: good_req_def)
      obtain w' sh' where s': "s' = (w', sh')" by (cases s')
      show ?thesis
      proof (cases "subtrees_idle w1")
        case False
        have *: "works cfg {#tok q#} (w1, sh1) {#} s' \<and> deque (fst s') = deque w1 \<and> quiescent (fst s') = quiescent w1 \<and>
            tree (fst s') = tree w1"
          by (rule decline_passes [OF i2 g' cfg dec]) (use st False in \<open>simp add: subtrees_idle_def\<close>)
        then have "rests cfg {#tok q#} (w1, sh1) {#} s'" by (intro works_rests) simp_all
        then have re: "rests cfg {#} s {#} s'" by (rule rests_trans [OF ti])
        have "(ID w, STATE_FAILED) \<in># view (w, sh)" if "(ID w, STATE_FAILED) \<in># view s'"
        proof -
          have "(ID w, STATE_FAILED) \<in># view (w1, sh1) + {#tok q#}"
            using work_steps_new [of "ID w1" _ _ _ _ "view s'" _ _ _ "(ID w, STATE_FAILED)"] * that
            by (fastforce simp: works_def pstate_def)
          then have "(ID w, STATE_FAILED) \<in># view (w1, sh1)" using tk by simp
          then show ?thesis using R Some work_steps_new [of "ID w" "view (w, sh)" _ _ _ _ _ _ _ "(ID w, STATE_FAILED)"]
            by (fastforce simp: works_def pstate_def)
        qed
        then show ?thesis using re * R fr s by (simp add: gives_up_def works_def frame_def)
      next
        case True
        note D = decline_own [OF i2 g'(1) qid(1) st True cfg dec [unfolded s']]
        have re: "rests cfg {#} s {#} s'" using rests_trans [OF ti] D s' by simp
        have i3: "linv {#} (w', sh')" using re s' by (simp add: rests_def)
        have rq: "requested w1 \<le> 1" "0 \<le> requested w'"
          using linv_one [OF i2] linv_one [OF i3] by auto
        have "(ID w, STATE_FAILED) \<notin># view (w1, sh1)"
        proof
          assume "(ID w, STATE_FAILED) \<in># view (w1, sh1)"
          then obtain M where "view (w1, sh1) = add_mset (ID w, STATE_FAILED) M" by (metis insert_DiffM)
          then show False
            using occupancy_in(2) [OF linvD(3) [OF i2], of "ID w" STATE_FAILED] tk g(1) own fr
            by (simp add: good_req_def)
        qed
        moreover have id: "0 \<le> ID w" using g(1) own fr by (simp add: good_req_def)
        ultimately show ?thesis
        proof (cases "ID w = 0")
          case True
          then have "quiescent w'" "requested w' = 0" "blocked w' = blocked w" "subtrees_idle w'"
            "(ID w, STATE_FAILED) \<notin># view (w', sh')"
            using D fr rq \<open>(ID w, STATE_FAILED) \<notin># view (w1, sh1)\<close> by auto
          then show ?thesis using re s s' True by (simp add: gives_up_def)
        next
          case False
          then have "quiescent w' = quiescent w" "(ID w, STATE_FAILED) \<in># view (w', sh')" "subtrees_idle w'" "0 < ID w"
            "sleeps cfg (w', sh')"
            using D fr R id by auto
          then show ?thesis using re s s' by (simp add: gives_up_def)
        qed
      qed
    qed
  qed
qed

end
