(* ===== verification/Activations.thy ===== *)
theory Activations
  imports Idle
begin

text \<open>
  The invariant of one worker among others: its stack of activations is well formed, and its requests
  tell what it does. A failed request means that the worker and its subtrees are idle, an idle
  request that it waits for tasks, and a worker that sleeps has been or will be signalled. Every step
  of \<^theory_text>\<open>Machine\<close> keeps it.
\<close>

section \<open>Stacks of activations\<close>

text \<open>
  Worker threads run their scheduling loop at the bottom of the stack, the master runs the main
  program; only the master enters barriers.
\<close>

definition base_frame :: "int \<Rightarrow> frame \<Rightarrow> bool" where
  "base_frame me f = (case f of Main_Program \<Rightarrow> me = 0 | Schedule _ \<Rightarrow> me \<noteq> 0 | _ \<Rightarrow> False)"

definition inner_frame :: "int \<Rightarrow> frame \<Rightarrow> bool" where
  "inner_frame me f = (case f of Code _ \<Rightarrow> True | Force _ _ _ _ \<Rightarrow> True | Barrier _ \<Rightarrow> me = 0 | _ \<Rightarrow> False)"

lemma base_frame_simps [simp]:
  "base_frame me (Schedule pc) \<longleftrightarrow> me \<noteq> 0" "base_frame me Main_Program \<longleftrightarrow> me = 0"
  by (simp_all add: base_frame_def)

text \<open>A loop below another activation is suspended at the call of a task.\<close>

fun suspended :: "frame \<Rightarrow> bool" where
  "suspended (Schedule (Resume task this stolen)) = True"
| "suspended (Barrier (Resume task this stolen)) = True"
| "suspended (Schedule pc) = False"
| "suspended (Barrier pc) = False"
| "suspended f = True"

fun stack_ok :: "int \<Rightarrow> frame list \<Rightarrow> bool" where
  "stack_ok me [] = False"
| "stack_ok me [f] = base_frame me f"
| "stack_ok me (f # g # fs) = (inner_frame me f \<and> suspended g \<and> stack_ok me (g # fs))"

text \<open>Workers that wait for tasks in a scheduling loop, and those about to decline requests.\<close>

fun waits :: "frame list \<Rightarrow> bool" where
  "waits (Schedule pc # fs) = (pc = Receive \<or> pc = Decline)"
| "waits (Barrier pc # fs) = (pc = Receive \<or> pc = Decline)"
| "waits fs = False"

fun declines :: "frame list \<Rightarrow> bool" where
  "declines (Schedule pc # fs) = (pc = Decline)"
| "declines (Barrier pc # fs) = (pc = Decline)"
| "declines fs = False"

fun leaves :: "frame list \<Rightarrow> bool" where
  "leaves (Barrier pc # fs) = (pc = Leave)"
| "leaves fs = False"

text \<open>A barrier that looks for tasks.\<close>

fun seeks :: "frame list \<Rightarrow> bool" where
  "seeks (Barrier pc # fs) = (pc = Send_Request \<or> pc = Receive \<or> pc = Decline)"
| "seeks fs = False"

lemma stack_ok_Cons: "inner_frame me f \<Longrightarrow> stack_ok me (f # fs) \<longleftrightarrow> stack_ok me fs \<and> suspended (hd fs)"
  by (cases fs) (auto simp: inner_frame_def base_frame_def split: frame.splits)

lemma stack_ok_code [simp]: "stack_ok me (Code t # fs) \<longleftrightarrow> stack_ok me fs \<and> suspended (hd fs)"
  "stack_ok me (Force this f n pc # fs) \<longleftrightarrow> stack_ok me fs \<and> suspended (hd fs)"
  by (simp_all add: stack_ok_Cons inner_frame_def)

lemma stack_ok_schedule: "stack_ok me (Schedule pc # fs) \<longleftrightarrow> me \<noteq> 0 \<and> fs = []"
  by (cases fs) (auto simp: inner_frame_def base_frame_def)

lemma stack_ok_barrier: "stack_ok me (Barrier pc # fs) \<longleftrightarrow> me = 0 \<and> stack_ok me fs \<and> suspended (hd fs)"
  by (cases fs) (auto simp: inner_frame_def base_frame_def)

lemma stack_ok_main: "stack_ok me (Main_Program # fs) \<longleftrightarrow> me = 0 \<and> fs = []"
  by (cases fs) (auto simp: inner_frame_def base_frame_def)

lemma stack_ok_called [simp]:
  "stack_ok me (called c fs) \<longleftrightarrow> stack_ok me fs \<and> (c \<noteq> None \<longrightarrow> suspended (hd fs))"
  by (auto simp: called_def split: option.split)

text \<open>A suspended activation neither waits nor declines, and is not about to leave a barrier.\<close>

lemma suspended_calm:
  "fs \<noteq> [] \<Longrightarrow> suspended (hd fs) \<Longrightarrow> \<not> waits fs \<and> \<not> declines fs \<and> \<not> leaves fs \<and> \<not> seeks fs"
  by (cases fs; cases "hd fs") (auto elim: suspended.elims)

section \<open>The invariant of a worker\<close>

text \<open>
  \<open>P\<close> is the pool of all requests, \<open>S\<close> says who has been signalled. A worker with a failed request has
  nothing to do and neither have its subtrees.
\<close>

definition worker_ok :: "token multiset \<Rightarrow> (int \<Rightarrow> bool) \<Rightarrow> frame list \<Rightarrow> worker \<Rightarrow> bool" where
  "worker_ok P S fs w \<longleftrightarrow> stack_ok (ID w) fs \<and>
     ((ID w, STATE_FAILED) \<in># P \<longrightarrow> deque_empty (deque w) \<and> subtrees_idle w \<and>
       (fs = [Schedule Receive] \<or> fs = [Schedule Decline])) \<and>
     ((ID w, STATE_IDLE) \<in># P \<longrightarrow> waits fs) \<and>
     (declines fs \<longrightarrow> deque_empty (deque w)) \<and>
     (leaves fs \<longrightarrow> quiescent w) \<and> (seeks fs \<longrightarrow> \<not> quiescent w) \<and>
     (blocked w \<longrightarrow> (ID w, STATE_FAILED) \<in># P \<or> S (ID w))"

text \<open>The steps of other workers keep it.\<close>

lemma worker_ok_others:
  assumes "worker_ok P S fs w" "\<And>st. (ID w, st) \<in># P' \<Longrightarrow> (ID w, st) \<in># P"
    "S (ID w) \<or> (ID w, STATE_FAILED) \<in># P \<Longrightarrow> S' (ID w) \<or> (ID w, STATE_FAILED) \<in># P'"
  shows "worker_ok P' S' fs w"
  using assms unfolding worker_ok_def by blast

text \<open>
  What a worker knows of itself, with \<open>X\<close> the requests that other workers hold in their queues, all of
  them failed ones.
\<close>

definition local_ok :: "config \<Rightarrow> token multiset \<Rightarrow> frame list \<Rightarrow> wst \<Rightarrow> bool" where
  "local_ok cfg X fs s \<longleftrightarrow> linv {#} s \<and> (\<forall>t \<in># X. snd t = STATE_FAILED) \<and>
     int (occupancy (view s + X) (answers (snd s)) (ID (fst s))) = requested (fst s) \<and>
     worker_ok (view s + X) (signalled cfg (snd s)) fs (fst s)"

definition moves :: "config \<Rightarrow> wst \<Rightarrow> wst \<Rightarrow> bool" where
  "moves cfg s s' \<longleftrightarrow> idle_steps (ID (fst s)) (pstate cfg {#} s) (pstate cfg {#} s') \<and>
     ID (fst s') = ID (fst s) \<and> num_workers (snd s') = num_workers (snd s)"

text \<open>
  Among several workers only the master finds the system quiescent, when its subtrees are idle, its
  deque is empty and it has no request under way.
\<close>

definition detects :: "wst \<Rightarrow> wst \<Rightarrow> bool" where
  "detects s s' \<longleftrightarrow> (1 < num_workers (snd s) \<and> quiescent (fst s') \<longrightarrow> quiescent (fst s) \<or>
     ID (fst s) = 0 \<and> subtrees_idle (fst s') \<and> deque_empty (deque (fst s')) \<and> requested (fst s') = 0)"

lemma occupancy_union: "occupancy (M + X) T i = occupancy M T i + size (filter_mset (\<lambda>t. fst t = i) X)"
  by (simp add: occupancy_def)

lemma local_owns: "local_ok cfg X fs s \<Longrightarrow> owns {#} s"
  unfolding local_ok_def owns_def occupancy_union by simp

lemma moves_occupancy:
  assumes "moves cfg s s'" "int (occupancy (view s + X) (answers (snd s)) (ID (fst s))) = requested (fst s)"
  shows "int (occupancy (view s' + X) (answers (snd s')) (ID (fst s'))) = requested (fst s')"
  using assms idle_steps_conserve [of "ID (fst s)" "view s" "answers (snd s)" "requested (fst s)" "signalled cfg (snd s)"
      "view s'" "answers (snd s')" "requested (fst s')" "signalled cfg (snd s')" "ID (fst s)"]
  unfolding moves_def pstate_def occupancy_union by simp

lemma no_tokens:
  assumes "int (occupancy P T i) = 0" shows "(i, st) \<notin># P"
proof -
  have "size (filter_mset (\<lambda>t. fst t = i) P) = 0" using assms unfolding occupancy_def by linarith
  then show ?thesis unfolding size_eq_0_iff_empty filter_mset_eq_mempty_iff by auto
qed

text \<open>A worker that does not wait for tasks has only working requests under way.\<close>

lemma local_busy:
  assumes "local_ok cfg X fs s" "\<not> waits fs"
  shows "ready s" "st \<noteq> STATE_WORKING \<Longrightarrow> (ID (fst s), st) \<notin># view s + X"
proof -
  have n: "(ID (fst s), st) \<notin># view s + X" if "st \<noteq> STATE_WORKING" for st
    using assms that by (cases st) (auto simp: local_ok_def worker_ok_def)
  then have "busy {#} s" by (auto simp: busy_def)
  then show "ready s" using assms(1) local_owns [OF assms(1)] by (simp add: ready_def local_ok_def)
  show "st \<noteq> STATE_WORKING \<Longrightarrow> (ID (fst s), st) \<notin># view s + X" by (rule n)
qed

text \<open>What operations of a busy worker do, as far as the invariant is concerned.\<close>

definition acts :: "config \<Rightarrow> wst \<Rightarrow> wst \<Rightarrow> bool" where
  "acts cfg s s' \<longleftrightarrow> linv {#} s' \<and> moves cfg s s' \<and> blocked (fst s') = blocked (fst s) \<and>
     (1 < num_workers (snd s) \<and> quiescent (fst s') \<longrightarrow> quiescent (fst s)) \<and>
     (\<forall>st. (ID (fst s), st) \<in># view s' \<longrightarrow> (ID (fst s), st) \<in># view s \<or> st = STATE_WORKING)"

lemma works_acts:
  assumes "works cfg {#} s {#} s'" "1 < num_workers (snd s) \<and> quiescent (fst s') \<longrightarrow> quiescent (fst s)"
  shows "acts cfg s s'"
proof -
  note W = worksD [OF assms(1)]
  have "(ID (fst s), st) \<in># view s \<or> st = STATE_WORKING" if "(ID (fst s), st) \<in># view s'" for st
    using work_steps_new [of "ID (fst s)" "view s" _ _ _ "view s'" _ _ _ "(ID (fst s), st)"] W(2) that
    by (auto simp: pstate_def)
  then show ?thesis using W work_idle_steps assms(2) by (auto simp: acts_def moves_def frame_def)
qed

lemma runs_acts: "runs cfg s s' \<Longrightarrow> acts cfg s s'"
  by (simp add: runs_def handles_def works_acts)

lemma acts_trans:
  assumes "acts cfg s s'" "acts cfg s' s''"
  shows "acts cfg s s''"
  using assms unfolding acts_def moves_def by (auto intro: rtranclp_trans)

lemma acts_local:
  assumes l: "local_ok cfg X fs s" "\<not> waits fs" and a: "acts cfg s s'" and nb: "\<not> blocked (fst s)"
    and fs': "stack_ok (ID (fst s)) fs'" "\<not> declines fs'" "leaves fs' \<longrightarrow> quiescent (fst s')"
      "seeks fs' \<longrightarrow> \<not> quiescent (fst s')"
  shows "local_ok cfg X fs' s' \<and> moves cfg s s' \<and> detects s s'"
proof -
  have m: "moves cfg s s'" and id: "ID (fst s') = ID (fst s)" using a by (auto simp: acts_def moves_def)
  have "(ID (fst s), st) \<notin># view s' + X" if "st \<noteq> STATE_WORKING" for st
    using local_busy(2) [OF l that] a that by (auto simp: acts_def)
  then have "worker_ok (view s' + X) (signalled cfg (snd s')) fs' (fst s')"
    using id nb fs' a by (auto simp: worker_ok_def acts_def)
  then show ?thesis
    using m moves_occupancy [OF m] l(1) a by (simp add: local_ok_def acts_def detects_def)
qed

section \<open>Steps of a busy worker\<close>

lemma call_task_acts:
  assumes "call_task task pc s = Some (pc', c, s')" "ready s"
  shows "acts cfg s s' \<and> pc' = pc (get_current_task (fst s)) \<and> quiescent (fst s') = quiescent (fst s)"
proof -
  have e: "s' = (set_current_task task (fst s), snd s)" "pc' = pc (get_current_task (fst s))"
    using assms(1) by (auto simp: call_task_def run_task_enter_def)
  have "runs cfg (fst s, snd s) (set_current_task task (fst s), snd s)"
    using assms(2) by (intro runs_control)
      (simp_all add: same_control_def same_protocol_def set_current_task_def user_memory_def)
  then show ?thesis using e by (auto intro: runs_acts simp: set_current_task_def)
qed

lemma go_Some [simp]: "go pc s = Some (pc', c, s') \<longleftrightarrow> pc' = pc \<and> c = None \<and> s' = s"
  by (auto simp: go_def)

lemma schedule_acts:
  assumes st: "schedule_step env cfg pc s = Some (pc', c, s')" and cfg: "MAXSTEAL cfg = 1" and r: "ready s"
    and pc: "pc \<noteq> Send_Request" "pc \<noteq> Receive" "pc \<noteq> Decline"
  shows "acts cfg s s' \<and> pc' \<noteq> Decline \<and> (c \<noteq> None \<longrightarrow> suspended (Schedule pc'))"
proof (cases pc)
  case Pop
  then obtain task s1 where p: "RT_pop env cfg False s = Some (task, s1)"
    and n: "(if task \<noteq> NULL then call_task task (\<lambda>this. Resume task this False) s1
      else go Send_Request s1) = Some (pc', c, s')"
    using st by (auto simp: bind_eq_Some_conv)
  note a = RT_pop_runs [OF cfg p r]
  show ?thesis
    using n call_task_acts [OF _ runs_ready [OF r a], of task "\<lambda>this. Resume task this False" pc' c s' cfg]
      runs_acts [OF a] acts_trans [OF runs_acts [OF a]]
    by (auto split: if_splits)
next
  case (Accept task)
  then obtain task' s1 where p: "accept_tasks env cfg task s = Some (task', s1)"
    and n: "call_task task' (\<lambda>this. Resume task' this True) s1 = Some (pc', c, s')"
    using st by (auto simp: bind_eq_Some_conv)
  note a = accept_tasks_runs [OF p r]
  show ?thesis using call_task_acts [OF n runs_ready [OF r a]] acts_trans [OF runs_acts [OF a]] by auto
next
  case (Resume task this stolen)
  then have "finish_task task this s = Some s'" "pc' \<noteq> Decline" "c = None"
    using st by (auto simp: bind_eq_Some_conv split: if_splits)
  then show ?thesis using finish_task_runs [OF _ r] runs_acts by blast
qed (use st pc in auto)

lemma quiescent_acts: "ready (w, sh) \<Longrightarrow> num_workers sh = 1 \<Longrightarrow> acts cfg (w, sh) (w\<lparr>quiescent := b\<rparr>, sh)"
  by (intro works_acts same_protocol_works) (simp_all add: ready_def same_protocol_def)

lemma barrier_acts:
  assumes st: "barrier_step env cfg pc s = Some (pc', c, s')" and cfg: "MAXSTEAL cfg = 1" and r: "ready s"
    and pc: "pc \<noteq> Send_Request" "pc \<noteq> Receive" "pc \<noteq> Decline"
  shows "acts cfg s s' \<and> pc' \<noteq> Decline \<and> pc' \<noteq> Receive \<and> (pc' = Leave \<longrightarrow> quiescent (fst s')) \<and>
    (pc' = Send_Request \<longrightarrow> \<not> quiescent (fst s')) \<and> (c \<noteq> None \<longrightarrow> suspended (Barrier pc'))"
proof (cases pc)
  case Pop
  then obtain task w sh where p: "RT_pop env cfg False s = Some (task, w, sh)"
    and n: "(if task \<noteq> NULL then call_task task (\<lambda>this. Resume task this False) (w, sh)
     else if num_workers sh = 1 then go Leave (w\<lparr>quiescent := True\<rparr>, sh)
     else if quiescent w then go Leave (w, sh)
     else go Send_Request (w, sh)) = Some (pc', c, s')"
    using st by (auto simp: bind_eq_Some_conv)
  note a = RT_pop_runs [OF cfg p r]
  note r1 = runs_ready [OF r a] and t = acts_trans [OF runs_acts [OF a]]
  show ?thesis
    using n call_task_acts [OF _ r1, of task "\<lambda>this. Resume task this False" pc' c s' cfg] runs_acts [OF a] t quiescent_acts [OF r1]
    by (auto split: if_splits)
next
  case (Accept task)
  then obtain task' s1 where p: "accept_tasks env cfg task s = Some (task', s1)"
    and n: "call_task task' (\<lambda>this. Resume task' this True) s1 = Some (pc', c, s')"
    using st by (auto simp: bind_eq_Some_conv)
  note a = accept_tasks_runs [OF p r]
  show ?thesis using call_task_acts [OF n runs_ready [OF r a]] acts_trans [OF runs_acts [OF a]] by auto
next
  case (Resume task this stolen)
  then have "finish_task task this s = Some s'" "pc' = Pop" "c = None"
    using st by (auto simp: bind_eq_Some_conv)
  then show ?thesis using finish_task_runs [OF _ r] runs_acts by blast
qed (use st pc in auto)

lemma if_ready_acts:
  assumes i: "if_ready f n cont s = Some (pc', c, s')" and r: "ready s"
    and cont: "\<And>s1. ready s1 \<Longrightarrow> cont s1 = Some (pc', c, s') \<Longrightarrow> acts cfg s1 s'"
  shows "acts cfg s s'"
proof -
  obtain w sh where s: "s = (w, sh)" by (cases s)
  obtain m where k: "s' = (w, sh\<lparr>fut_mem := m\<rparr>) \<or> cont (w, sh\<lparr>fut_mem := m\<rparr>) = Some (pc', c, s')"
    using i s by (auto simp: if_ready_def bind_eq_Some_conv Let_def split: if_splits)
  have a: "runs cfg s (w, sh\<lparr>fut_mem := m\<rparr>)"
    using runs_control [of w sh w "sh\<lparr>fut_mem := m\<rparr>" cfg] r s by (simp add: user_memory_def)
  show ?thesis
    using k runs_acts [OF a] acts_trans [OF runs_acts [OF a]] cont [OF runs_ready [OF r a]] by blast
qed

text \<open>Receiving a task in the middle of a wait for a future.\<close>

lemma RECV_TASK_busy:
  assumes rt: "RECV_TASK rand cfg False s = Some (r, s')" and cfg: "MAXSTEAL cfg = 1" and rd: "ready s"
  shows "acts cfg s s' \<and> ready s'"
proof -
  obtain w sh w' sh' where s: "s = (w, sh)" "s' = (w', sh')" by (cases s; cases s')
  have inv: "linv {#} (w, sh)" "owns {#} (w, sh)" "busy {#} (w, sh)" using rd s by (simp_all add: ready_def)
  note R = RECV_TASK_ok [OF inv(1,2) cfg, of rand False r w' sh', folded s, OF rt]
  have m: "moves cfg s s'" using R by (simp add: rests_def moves_def)
  have a: "acts cfg s s'" using R m s by (auto simp: acts_def rests_def)
  moreover have "busy {#} s'" using a inv(3) s m by (fastforce simp: acts_def busy_def moves_def)
  moreover have "owns {#} s'"
    using inv(2) s m idle_steps_conserve [of "ID w" "view s" "answers sh" "requested w" "signalled cfg sh"
        "view s'" "answers sh'" "requested w'" "signalled cfg sh'" "ID w"]
    by (simp add: owns_def moves_def pstate_def)
  ultimately show ?thesis by (simp add: ready_def acts_def)
qed

lemma force_acts:
  assumes st: "force_step env cfg this f n pc s = Some (pc', c, s')" and cfg: "MAXSTEAL cfg = 1" and r: "ready s"
  shows "acts cfg s s'"
proof (cases pc)
  case FStart
  then show ?thesis using if_ready_acts [of f n "go FPop" s pc' c s' cfg] st r runs_acts [OF runs_refl] by auto
next
  case FPop
  then obtain task s1 where p: "RT_pop env cfg True s = Some (task, s1)"
    and n: "call_task task (FChild task) s1 = Some (pc', c, s') \<or> s' = s1"
    using st by (auto simp: bind_eq_Some_conv split: if_splits)
  note a = RT_pop_runs [OF cfg p r]
  show ?thesis
    using n call_task_acts [OF _ runs_ready [OF r a], of task _ pc' c s' cfg] acts_trans [OF runs_acts [OF a]] runs_acts [OF a]
    by blast
next
  case (FChild task prev)
  then obtain s1 where p: "finish_task task prev s = Some s1" and i: "if_ready f n (go FPop) s1 = Some (pc', c, s')"
    using st by (auto simp: bind_eq_Some_conv)
  note a = finish_task_runs [OF p r, of cfg]
  show ?thesis
    using acts_trans [OF runs_acts [OF a]] if_ready_acts [OF i runs_ready [OF r a], of cfg] runs_acts [OF runs_refl] by auto
next
  case FWhile
  let ?cont = "\<lambda>s. try_send_steal_request (env_rand env) cfg False s \<bind> (\<lambda>s. go FReceive s)"
  have i: "if_ready f n ?cont s = Some (pc', c, s')" using st FWhile by simp
  show ?thesis
    by (rule if_ready_acts [OF i r]) (use try_send_runs [OF cfg] runs_acts in \<open>fastforce simp: bind_eq_Some_conv\<close>)
next
  case FReceive
  then obtain r1 s1 where p: "RECV_TASK (env_rand env) cfg False s = Some (r1, s1)"
    and n: "s' = s1 \<or> try_send_steal_request (env_rand env) cfg False s1 = Some s'"
    using st by (auto simp: bind_eq_Some_conv split: option.splits)
  note a = RECV_TASK_busy [OF p cfg r]
  show ?thesis using n a acts_trans try_send_runs [OF cfg] runs_acts by blast
next
  case FHandle
  then obtain s1 where p: "handle_loop env cfg s = Some s1" and i: "if_ready f n (go FReceive) s1 = Some (pc', c, s')"
    using st by (auto simp: bind_eq_Some_conv)
  note a = handle_loop_runs [OF cfg p r]
  show ?thesis
    using acts_trans [OF runs_acts [OF a]] if_ready_acts [OF i runs_ready [OF r a], of cfg] runs_acts [OF runs_refl] by auto
next
  case (FAccept task)
  then obtain task' s1 where p: "accept_tasks env cfg task s = Some (task', s1)"
    and n: "call_task task' (FStolen task') s1 = Some (pc', c, s')"
    using st by (auto simp: bind_eq_Some_conv)
  note a = accept_tasks_runs [OF p r]
  show ?thesis using call_task_acts [OF n runs_ready [OF r a]] acts_trans [OF runs_acts [OF a]] by blast
next
  case (FStolen task prev)
  then have "finish_task task prev s = Some s'" using st by (auto simp: bind_eq_Some_conv)
  then show ?thesis using finish_task_runs [OF _ r] runs_acts by blast
qed (use st in simp)

lemma force_return_acts:
  assumes "force_return f n res s = Some (data, s')" "ready s"
  shows "acts cfg s s'"
proof -
  obtain w sh where s: "s = (w, sh)" by (cases s)
  obtain m where "s' = (w, sh\<lparr>fut_mem := m\<rparr>)" using assms(1) s by (auto simp: force_return_def bind_eq_Some_conv)
  then show ?thesis
    using runs_acts [OF runs_control [of w sh w "sh\<lparr>fut_mem := m\<rparr>" cfg]] assms(2) s by (simp add: user_memory_def)
qed

lemma user_acts:
  assumes u: "user_step env cfg (fs, s) (fs', s')" and cfg: "MAXSTEAL cfg = 1" and r: "ready s"
  shows "acts cfg s s'"
  using u
proof cases
  case (User_Memory sh sh' w)
  then show ?thesis using runs_acts [OF runs_control [of w sh w sh']] r by simp
next
  case (User_Alloc task)
  then show ?thesis using RT_task_alloc_runs [OF _ r] runs_acts by blast
next
  case (User_Push task)
  then show ?thesis using RT_push_works [OF cfg _ r] works_acts by blast
next
  case User_Poll
  then show ?thesis using RT_poll_runs [OF cfg _ r] runs_acts by blast
qed (use runs_acts [OF runs_refl [OF r]] in auto)

section \<open>Steps of an idle worker\<close>

lemma local_okD:
  assumes "local_ok cfg X fs (w, sh)"
  shows "linv {#} (w, sh)" "owns {#} (w, sh)" "worker_ok (view (w, sh) + X) (signalled cfg sh) fs w"
    "0 \<le> ID w"
proof -
  show l: "linv {#} (w, sh)" and "worker_ok (view (w, sh) + X) (signalled cfg sh) fs w"
    using assms by (simp_all add: local_ok_def)
  show "owns {#} (w, sh)" by (rule local_owns [OF assms])
  have "tree_ok (num_workers sh) w" using l by (simp add: linv_def held_ok_def)
  then show "0 \<le> ID w" by (rule tree_ok_links)
qed

lemma moves_local:
  assumes "local_ok cfg X fs s" "moves cfg s s'" "linv {#} s'"
    "worker_ok (view s' + X) (signalled cfg (snd s')) fs' (fst s')"
  shows "local_ok cfg X fs' s'"
  using assms moves_occupancy [OF assms(2)] by (simp add: local_ok_def)

lemma send_local:
  assumes l: "local_ok cfg X fs (w, sh)" "\<not> waits fs" "\<not> blocked w" and cfg: "MAXSTEAL cfg = 1"
    and ts: "try_send_steal_request rand cfg True (w, sh) = Some (w', sh')"
    and fs': "stack_ok (ID w) fs'" "waits fs'" "\<not> declines fs'" "\<not> leaves fs'" "seeks fs' \<longrightarrow> \<not> quiescent w"
  shows "local_ok cfg X fs' (w', sh') \<and> moves cfg (w, sh) (w', sh') \<and> detects (w, sh) (w', sh')"
proof -
  note L = local_okD [OF l(1)]
  have nf: "(ID w, STATE_FAILED) \<notin># view (w, sh) + X" using local_busy(2) [OF l(1,2), of STATE_FAILED] by simp
  from try_send_ok [OF L(1,2) cfg ts] consider "w' = w" "sh' = sh" |
    "requested w = 0" "requested w' = 1" "linv {#} (w', sh')" "frame (w, sh) (w', sh')"
    "view (w', sh') = add_mset (ID w, STATE_IDLE) (view (w, sh))" "answers sh' = answers sh"
    "signalled cfg sh' = signalled cfg sh" "quiescent w' = quiescent w" by auto
  then show ?thesis
  proof cases
    case 1
    then show ?thesis
      using l nf fs' by (auto simp: local_ok_def worker_ok_def moves_def detects_def)
  next
    case 2
    have "idle_step (ID w) (pstate cfg {#} (w, sh)) (pstate cfg {#} (w', sh'))"
      using 2 Ask_Idle [of "ID w" "view (w, sh)" "answers sh" 0 "signalled cfg sh"] by (simp add: pstate_def)
    then have m: "moves cfg (w, sh) (w', sh')" using 2 by (auto simp: moves_def frame_def)
    have "worker_ok (view (w', sh') + X) (signalled cfg sh') fs' w'"
      using 2 nf fs' l(3) by (auto simp: worker_ok_def frame_def)
    then show ?thesis using moves_local [OF l(1) m 2(3)] m 2 by (simp add: detects_def)
  qed
qed

lemma receive_local:
  assumes l: "local_ok cfg X fs (w, sh)" "\<not> blocked w" and cfg: "MAXSTEAL cfg = 1"
    and rt: "RECV_TASK rand cfg True (w, sh) = Some (r, w', sh')"
    and fs': "stack_ok (ID w) fs'" "\<not> leaves fs'" "seeks fs' \<longrightarrow> \<not> quiescent w"
      "r \<noteq> None \<Longrightarrow> \<not> declines fs'" "r = None \<Longrightarrow> waits fs' \<and> deque_empty (deque w')"
      "fs = [Schedule Receive] \<or> fs = [Schedule Decline] \<Longrightarrow> r = None \<Longrightarrow> fs' = [Schedule Receive] \<or> fs' = [Schedule Decline]"
  shows "local_ok cfg X fs' (w', sh') \<and> moves cfg (w, sh) (w', sh') \<and> detects (w, sh) (w', sh')"
proof -
  note L = local_okD [OF l(1)]
  note R = RECV_TASK_ok [OF L(1,2) cfg rt]
  have m: "moves cfg (w, sh) (w', sh')" and li: "linv {#} (w', sh')" and id: "ID w' = ID w" and dq: "deque w' = deque w"
    using R by (simp_all add: rests_def moves_def)
  have "worker_ok (view (w', sh') + X) (signalled cfg sh') fs' w'"
  proof (cases r)
    case (Some task)
    have "int (occupancy (view (w', sh') + X) (answers sh') (ID w')) = requested w'"
      using moves_occupancy [OF m, of X] l(1) by (simp add: local_ok_def)
    then have "int (occupancy (view (w', sh') + X) (answers sh') (ID w)) = 0" using R Some id by simp
    then have "(ID w, st) \<notin># view (w', sh') + X" for st by (rule no_tokens)
    then show ?thesis using fs' id Some R l(2) by (auto simp: worker_ok_def)
  next
    case None
    have old: "(ID w, STATE_FAILED) \<in># view (w', sh') + X \<Longrightarrow> (ID w, STATE_FAILED) \<in># view (w, sh) + X" using R by auto
    have sub: "subtrees_idle w \<Longrightarrow> subtrees_idle w'" using R by (simp add: rests_def subtrees_idle_def)
    have f: "waits fs'" "deque_empty (deque w')" using fs'(5) [OF None] by simp_all
    have b: "blocked w' = blocked w" "quiescent w' = quiescent w" using R by simp_all
    have fl: "subtrees_idle w \<and> (fs = [Schedule Receive] \<or> fs = [Schedule Decline])" if "(ID w, STATE_FAILED) \<in># view (w', sh') + X"
      using L(3) old [OF that] unfolding worker_ok_def by blast
    show ?thesis unfolding worker_ok_def id
    proof (intro conjI impI)
      show "fs' = [Schedule Receive] \<or> fs' = [Schedule Decline]" if "(ID w, STATE_FAILED) \<in># view (w', sh') + X"
        using fl [OF that] fs'(6) [OF _ None] by blast
      show "subtrees_idle w'" if "(ID w, STATE_FAILED) \<in># view (w', sh') + X" using fl [OF that] sub by blast
    qed (use fs'(1-3) f b l(2) in simp_all)
  qed
  then show ?thesis using moves_local [OF l(1) m li] m R by (simp add: detects_def)
qed

lemma decline_local:
  assumes l: "local_ok cfg X fs (w, sh)" "\<not> blocked w" "declines fs" and cfg: "MAXSTEAL cfg = 1"
    and d: "decline_all_steal_requests rand cfg (w, sh) = Some (w', sh')"
    and nq: "ID w = 0 \<longrightarrow> \<not> quiescent w"
    and fs': "stack_ok (ID w) fs'" "leaves fs' \<or> waits fs'" "\<not> declines fs'" "leaves fs' \<longleftrightarrow> ID w = 0 \<and> quiescent w'"
      "ID w \<noteq> 0 \<Longrightarrow> fs' = [Schedule Receive]" "seeks fs' \<longrightarrow> \<not> quiescent w'"
  shows "local_ok cfg X fs' (w', sh') \<and> moves cfg (w, sh) (w', sh') \<and> detects (w, sh) (w', sh')"
proof -
  note L = local_okD [OF l(1)]
  note G = decline_all_ok [OF L(1) cfg d, unfolded gives_up_def, simplified]
  have m: "moves cfg (w, sh) (w', sh')" and li: "linv {#} (w', sh')" and id: "ID w' = ID w" and dq: "deque w' = deque w"
    using G by (simp_all add: rests_def moves_def)
  have e: "deque_empty (deque w')" using L(3) l(3) dq by (simp add: worker_ok_def)
  have ng: "\<not> leaves fs' \<or> (ID w, STATE_IDLE) \<notin># view (w', sh') + X"
  proof (cases "leaves fs'")
    case True
    then have "requested w' = 0" using G fs'(4) nq by auto
    then have "int (occupancy (view (w', sh') + X) (answers sh') (ID w')) = 0"
      using moves_occupancy [OF m, of X] l(1) by (simp add: local_ok_def)
    then have "(ID w', STATE_IDLE) \<notin># view (w', sh') + X" by (rule no_tokens)
    then show ?thesis using id by simp
  qed simp
  have fl: "subtrees_idle w' \<and> ID w \<noteq> 0" if "(ID w, STATE_FAILED) \<in># view (w', sh') + X"
  proof (cases "(ID w, STATE_FAILED) \<in># view (w, sh) + X")
    case True
    then have "subtrees_idle w" "fs = [Schedule Receive] \<or> fs = [Schedule Decline]" "stack_ok (ID w) fs"
      using L(3) by (auto simp: worker_ok_def)
    then show ?thesis using G by (auto simp: rests_def subtrees_idle_def stack_ok_schedule)
  next
    case False
    then show ?thesis using that G by auto
  qed
  have "worker_ok (view (w', sh') + X) (signalled cfg sh') fs' w'"
    unfolding worker_ok_def id
  proof (intro conjI impI)
    show "fs' = [Schedule Receive] \<or> fs' = [Schedule Decline]" if "(ID w, STATE_FAILED) \<in># view (w', sh') + X"
      using fl [OF that] fs'(5) by simp
    show "waits fs'" if "(ID w, STATE_IDLE) \<in># view (w', sh') + X" using ng that fs'(2) by blast
    show "(ID w, STATE_FAILED) \<in># view (w', sh') + X \<or> signalled cfg sh' (ID w)" if "blocked w'" using that G l(2) by auto
  qed (use fs' fl e in simp_all)
  moreover have "detects (w, sh) (w', sh')" using G e by (auto simp: detects_def)
  ultimately show ?thesis using moves_local [OF l(1) m li] m by simp
qed

section \<open>Steps of a worker\<close>

lemma called_simps [simp]:
  "declines (called c fs) \<longleftrightarrow> c = None \<and> declines fs" "leaves (called c fs) \<longleftrightarrow> c = None \<and> leaves fs"
  "seeks (called c fs) \<longleftrightarrow> c = None \<and> seeks fs" "called None fs = fs"
  by (simp_all add: called_def split: option.split)

lemma schedule_local:
  assumes st: "schedule_step env cfg pc s = Some (pc', c, s')" and cfg: "MAXSTEAL cfg = 1"
    and l: "local_ok cfg X (Schedule pc # fs) s" "\<not> blocked (fst s)"
  shows "local_ok cfg X (called c (Schedule pc' # fs)) s' \<and> moves cfg s s' \<and> detects s s'"
proof -
  obtain w sh w' sh' where s: "s = (w, sh)" "s' = (w', sh')" by (cases s; cases s')
  have sk: "ID w \<noteq> 0" "fs = []" using l(1) s by (auto simp: local_ok_def worker_ok_def stack_ok_schedule)
  have l': "local_ok cfg X (Schedule pc # fs) (w, sh)" "\<not> blocked w" using l s by simp_all
  consider "pc = Send_Request" | "pc = Receive" | "pc = Decline" | "pc \<noteq> Send_Request" "pc \<noteq> Receive" "pc \<noteq> Decline" by blast
  then show ?thesis
  proof cases
    case 1
    then have e: "pc' = Receive" "c = None" "try_send_steal_request (env_rand env) cfg True (w, sh) = Some (w', sh')"
      using st s by (auto simp: bind_eq_Some_conv)
    show ?thesis unfolding s e by (rule send_local [OF l'(1) _ l'(2) cfg e(3)]) (use 1 sk in \<open>simp_all add: base_frame_def\<close>)
  next
    case 2
    then obtain r where r: "RECV_TASK (env_rand env) cfg True (w, sh) = Some (r, w', sh')" "c = None"
      "r = None \<Longrightarrow> pc' = Decline \<and> deque_empty (deque w')" "r \<noteq> None \<Longrightarrow> \<exists>t. pc' = Accept t"
      using st s by (auto simp: bind_eq_Some_conv split: option.splits)
    show ?thesis unfolding s r(2) called_simps
      by (rule receive_local [OF l'(1) l'(2) cfg r(1)]) (use r(3,4) sk in \<open>auto simp: stack_ok_schedule\<close>)
  next
    case 3
    show ?thesis
    proof (cases "BACKOFF cfg = Sleep_Exp \<and> waiting_for_tasks (tree w)")
      case True
      then have "s' = s" "pc' = Receive" "c = None" using st s 3 by auto
      then show ?thesis using l(1) 3 sk by (auto simp: local_ok_def worker_ok_def stack_ok_schedule moves_def detects_def)
    next
      case False
      then have e: "pc' = Receive" "c = None" "decline_all_steal_requests (env_rand env) cfg (w, sh) = Some (w', sh')"
        using st s 3 by (auto simp: bind_eq_Some_conv split: if_splits)
      show ?thesis unfolding s e called_simps
        by (rule decline_local [OF l'(1) l'(2) _ cfg e(3)]) (use 3 sk in \<open>simp_all add: stack_ok_schedule\<close>)
    qed
  next
    case 4
    have nw: "\<not> waits (Schedule pc # fs)" using 4 by simp
    note a = schedule_acts [OF st cfg local_busy(1) [OF l(1) nw] 4]
    show ?thesis by (rule acts_local [OF l(1) nw _ l(2)]) (use a sk s in \<open>simp_all add: stack_ok_schedule\<close>)
  qed
qed

lemma barrier_local:
  assumes st: "barrier_step env cfg pc s = Some (pc', c, s')" and cfg: "MAXSTEAL cfg = 1"
    and l: "local_ok cfg X (Barrier pc # fs) s" "\<not> blocked (fst s)"
  shows "local_ok cfg X (called c (Barrier pc' # fs)) s' \<and> moves cfg s s' \<and> detects s s'"
proof -
  obtain w sh w' sh' where s: "s = (w, sh)" "s' = (w', sh')" by (cases s; cases s')
  have sk: "ID w = 0" "stack_ok 0 fs" "suspended (hd fs)" using l(1) s by (auto simp: local_ok_def worker_ok_def stack_ok_barrier)
  have l': "local_ok cfg X (Barrier pc # fs) (w, sh)" "\<not> blocked w" using l s by simp_all
  have nq: "pc = Send_Request \<or> pc = Receive \<or> pc = Decline \<Longrightarrow> \<not> quiescent w"
    using l' by (auto simp: local_ok_def worker_ok_def)
  consider "pc = Send_Request" | "pc = Receive" | "pc = Decline" | "pc \<noteq> Send_Request" "pc \<noteq> Receive" "pc \<noteq> Decline" by blast
  then show ?thesis
  proof cases
    case 1
    then have e: "pc' = Receive" "c = None" "try_send_steal_request (env_rand env) cfg True (w, sh) = Some (w', sh')"
      using st s by (auto simp: bind_eq_Some_conv)
    show ?thesis unfolding s e
      by (rule send_local [OF l'(1) _ l'(2) cfg e(3)]) (use 1 sk nq in \<open>simp_all add: stack_ok_barrier\<close>)
  next
    case 2
    then obtain r where r: "RECV_TASK (env_rand env) cfg True (w, sh) = Some (r, w', sh')" "c = None"
      "r = None \<Longrightarrow> pc' = Decline \<and> deque_empty (deque w')" "r \<noteq> None \<Longrightarrow> \<exists>t. pc' = Accept t"
      using st s by (auto simp: bind_eq_Some_conv split: option.splits)
    show ?thesis unfolding s r(2) called_simps
      by (rule receive_local [OF l'(1) l'(2) cfg r(1)]) (cases r; use r(3,4) sk nq 2 in \<open>auto simp: stack_ok_barrier\<close>)+
  next
    case 3
    then have e: "pc' = (if quiescent w' then Leave else Receive)" "c = None"
      "decline_all_steal_requests (env_rand env) cfg (w, sh) = Some (w', sh')"
      using st s by (auto simp: bind_eq_Some_conv)
    show ?thesis unfolding s e(2) called_simps
      by (rule decline_local [OF l'(1) l'(2) _ cfg e(3)]) (use 3 e(1) sk nq in \<open>simp_all add: stack_ok_barrier\<close>)
  next
    case 4
    have nw: "\<not> waits (Barrier pc # fs)" using 4 by simp
    note a = barrier_acts [OF st cfg local_busy(1) [OF l(1) nw] 4]
    show ?thesis by (rule acts_local [OF l(1) nw _ l(2)]) (use a sk s in \<open>auto simp: stack_ok_barrier\<close>)
  qed
qed

lemma user_local:
  assumes u: "user_step env cfg (fs, s) (fs', s')" and cfg: "MAXSTEAL cfg = 1"
    and l: "local_ok cfg X fs s" "\<not> blocked (fst s)" and top: "suspended (hd fs)" "\<not> waits fs" "fs \<noteq> []"
  shows "local_ok cfg X fs' s' \<and> moves cfg s s' \<and> detects s s'"
proof -
  have k: "stack_ok (ID (fst s)) fs" using l(1) by (simp add: local_ok_def worker_ok_def)
  have a: "acts cfg s s'" by (rule user_acts [OF u cfg local_busy(1) [OF l(1) top(2)]])
  have "fs' = fs \<or> (\<exists>f n. fs' = Force (get_current_task (fst s)) f n FStart # fs) \<or> fs' = Barrier Pop # fs \<and> ID (fst s) = 0"
    using u by cases (auto simp: barrier_enter_def split: if_splits)
  then have "stack_ok (ID (fst s)) fs' \<and> \<not> declines fs' \<and> \<not> leaves fs' \<and> \<not> seeks fs'"
    using k top suspended_calm [OF top(3,1)] by (auto simp: stack_ok_barrier)
  then show ?thesis using acts_local [OF l(1) top(2) a l(2)] by blast
qed

text \<open>Returning from a call resumes a loop that was suspended at the call: it does not wait.\<close>

lemma worker_step_local:
  assumes st: "worker_step env cfg (fs, s) (fs', s')" and cfg: "MAXSTEAL cfg = 1"
    and l: "local_ok cfg X fs s" "\<not> blocked (fst s)"
  shows "local_ok cfg X fs' s' \<and> moves cfg s s' \<and> detects s s'"
  using st
proof cases
  case (Step_Schedule pc pc' c gs)
  then show ?thesis using schedule_local [OF _ cfg] l by blast
next
  case (Step_Barrier pc pc' c gs)
  then show ?thesis using barrier_local [OF _ cfg] l by blast
next
  case Step_Barrier_Return
  have nw: "\<not> waits fs" and k: "stack_ok (ID (fst s)) fs'" "suspended (hd fs')"
    using l(1) Step_Barrier_Return by (auto simp: local_ok_def worker_ok_def stack_ok_barrier)
  then have "fs' \<noteq> []" by auto
  then show ?thesis
    using acts_local [OF l(1) nw _ l(2) k(1)] suspended_calm [OF _ k(2)] Step_Barrier_Return
      runs_acts [OF runs_refl [OF local_busy(1) [OF l(1) nw]]] by simp
next
  case (Step_Force this f n pc pc' c gs)
  then have r: "ready s" and nw: "\<not> waits fs" using local_busy(1) [OF l(1)] by simp_all
  have a: "acts cfg s s'" by (rule force_acts [OF Step_Force(3) cfg r])
  show ?thesis by (rule acts_local [OF l(1) nw a l(2)]) (use l(1) Step_Force in \<open>simp_all add: local_ok_def worker_ok_def\<close>)
next
  case (Step_Force_Return f n r data this)
  then have rd: "ready s" and nw: "\<not> waits fs" using local_busy(1) [OF l(1)] by simp_all
  have k: "stack_ok (ID (fst s)) fs'" "suspended (hd fs')" using l(1) Step_Force_Return by (auto simp: local_ok_def worker_ok_def)
  then have "fs' \<noteq> []" by auto
  then show ?thesis
    using acts_local [OF l(1) nw force_return_acts [OF Step_Force_Return(2) rd] l(2) k(1)] suspended_calm [OF _ k(2)] by simp
next
  case (Step_Code task gs)
  then have rd: "ready s" and nw: "\<not> waits fs" using local_busy(1) [OF l(1)] by simp_all
  have k: "stack_ok (ID (fst s)) fs" using l(1) by (simp add: local_ok_def worker_ok_def)
  have u: "user_step env cfg (fs, s) (fs', s')" using Step_Code by simp
  show ?thesis by (rule user_local [OF u cfg l]) (use Step_Code in simp_all)
next
  case (Step_Code_Return task)
  then have rd: "ready s" and nw: "\<not> waits fs" using local_busy(1) [OF l(1)] by simp_all
  have k: "stack_ok (ID (fst s)) fs'" "suspended (hd fs')" using l(1) Step_Code_Return by (auto simp: local_ok_def worker_ok_def)
  then have "fs' \<noteq> []" by auto
  then show ?thesis
    using acts_local [OF l(1) nw _ l(2) k(1)] suspended_calm [OF _ k(2)] Step_Code_Return runs_acts [OF runs_refl [OF rd]] by simp
next
  case (Step_Main gs)
  have u: "user_step env cfg (fs, s) (fs', s')" using Step_Main by simp
  show ?thesis by (rule user_local [OF u cfg l]) (use Step_Main in simp_all)
qed

end
