(* ===== verification/Quiescence.thy ===== *)
theory Quiescence
  imports Activations
begin

text \<open>
  The invariant of the running system: every worker has as many requests and answers under way
  as it believes, and every worker keeps its own invariant. From it follows what termination
  detection means: when the master finds the system quiescent, no task is left anywhere.
\<close>

section \<open>The invariant of the system\<close>

definition pool :: "sys \<Rightarrow> token multiset" where
  "pool z = toks (concat (chan_requests (mem z))) + toks (concat (map held (workers z)))"

definition others :: "nat \<Rightarrow> sys \<Rightarrow> token multiset" where
  "others i z = toks (concat ((map held (workers z))[i := []]))"

lemma pool_view:
  assumes "i < length (workers z)"
  shows "pool z = view (workers z ! i, mem z) + others i z"
proof -
  have "toks (concat ((map held (workers z))[i := []])) + toks (held (workers z ! i)) = toks (concat (map held (workers z)))"
    using toks_concat_update [of i "map held (workers z)" "[]"] assms by simp
  then show ?thesis by (simp add: pool_def view_def others_def ac_simps)
qed

lemma pool_update:
  assumes "i < length (workers z)"
  shows "pool \<lparr>stacks = ss, workers = (workers z)[i := w], mem = sh\<rparr> = view (w, sh) + others i z"
  using pool_view [of i "\<lparr>stacks = ss, workers = (workers z)[i := w], mem = sh\<rparr>"] assms
  by (simp add: others_def map_update)

definition sys_inv :: "config \<Rightarrow> sys \<Rightarrow> bool" where
  "sys_inv cfg z \<longleftrightarrow> (let N = num_workers (mem z) in
     length (stacks z) = nat N \<and> length (workers z) = nat N \<and> chans_ok (mem z) \<and>
     (\<forall>i < nat N. ID (workers z ! i) = int i \<and> \<not> tasking_finished (workers z ! i) \<and> held_ok N (workers z ! i) \<and>
       int (occupancy (pool z) (answers (mem z)) (int i)) = requested (workers z ! i) \<and>
       worker_ok (pool z) (signalled cfg (mem z)) (stacks z ! i) (workers z ! i)))"

lemma sys_invD:
  assumes "sys_inv cfg z"
  shows "length (stacks z) = nat (num_workers (mem z))" "length (workers z) = nat (num_workers (mem z))"
    "chans_ok (mem z)" "1 \<le> num_workers (mem z)"
    "\<And>i. i < nat (num_workers (mem z)) \<Longrightarrow> ID (workers z ! i) = int i"
    "\<And>i. i < nat (num_workers (mem z)) \<Longrightarrow> held_ok (num_workers (mem z)) (workers z ! i)"
    "\<And>i. i < nat (num_workers (mem z)) \<Longrightarrow>
      int (occupancy (pool z) (answers (mem z)) (int i)) = requested (workers z ! i)"
    "\<And>i. i < nat (num_workers (mem z)) \<Longrightarrow>
      worker_ok (pool z) (signalled cfg (mem z)) (stacks z ! i) (workers z ! i)"
    "\<And>i. i < nat (num_workers (mem z)) \<Longrightarrow> \<not> tasking_finished (workers z ! i)"
  using assms chans_okD(1) [of "mem z"] by (auto simp: sys_inv_def Let_def)

lemma sys_single:
  assumes "sys_inv cfg z" "0 \<le> i" "i < num_workers (mem z)"
  shows "occupancy (pool z) (answers (mem z)) i \<le> 1"
proof -
  have n: "nat i < nat (num_workers (mem z))" using assms by simp
  have "requested (workers z ! nat i) \<le> 1" using sys_invD(6) [OF assms(1) n] by (auto simp: held_ok_def)
  then show ?thesis using sys_invD(7) [OF assms(1) n] assms(2) by simp
qed

text \<open>A worker whose subtrees are idle, like one with a failed request, holds the failed requests of its children.\<close>

lemma idle_children:
  assumes inv: "sys_inv cfg z" and c: "0 \<le> c" "c < num_workers (mem z)" "subtrees_idle (workers z ! nat c)"
    and k: "k = 2 * c + 1 \<or> k = 2 * c + 2" "k < num_workers (mem z)"
  shows "(k, STATE_FAILED) \<in># toks (concat (map held (workers z)))"
proof -
  let ?w = "workers z ! nat c"
  have n: "nat c < nat (num_workers (mem z))" using c by simp
  note h = sys_invD(6) [OF inv n]
  have id: "ID ?w = c" using sys_invD(5) [OF inv n] c by simp
  have "tree_ok (num_workers (mem z)) ?w" using h by (simp add: held_ok_def)
  note l = tree_ok_links [OF this]
  have "k = tree_left_child (tree ?w) \<or> k = tree_right_child (tree ?w)" "k \<noteq> - 1" using l k c id by auto
  then obtain r where r: "r \<in> set (held ?w)" "k = req_ID r"
    using h c(3) by (auto simp: held_ok_def subtrees_idle_def)
  have "tok r = (k, STATE_FAILED)" using r h by (auto simp: held_ok_def tok_def)
  moreover have "r \<in> set (concat (map held (workers z)))"
    using r(1) n sys_invD(2) [OF inv] by (auto intro: bexI [of _ ?w])
  ultimately show ?thesis unfolding in_toks by metis
qed

lemma failed_held:
  assumes inv: "sys_inv cfg z" and c: "0 \<le> c" "c < num_workers (mem z)" "(c, STATE_FAILED) \<in># pool z"
    and k: "k = 2 * c + 1 \<or> k = 2 * c + 2" "k < num_workers (mem z)"
  shows "(k, STATE_FAILED) \<in># toks (concat (map held (workers z)))"
proof -
  have n: "nat c < nat (num_workers (mem z))" using c by simp
  have "subtrees_idle (workers z ! nat c)"
    using sys_invD(5,8) [OF inv n] c by (simp add: worker_ok_def)
  then show ?thesis by (rule idle_children [OF inv c(1,2) _ k])
qed

lemma failed_below:
  assumes inv: "sys_inv cfg z" and j: "j \<in> subtree (num_workers (mem z) - 1) c"
    and c: "0 \<le> c" "c < num_workers (mem z)" "(c, STATE_FAILED) \<in># pool z"
  shows "(j, STATE_FAILED) \<in># pool z"
  using j c
proof (induction "nat (num_workers (mem z) - c)" arbitrary: c rule: less_induct)
  case less
  let ?N = "num_workers (mem z)"
  have "worker_id (?N - 1) c" using less.prems by (simp add: worker_id_def)
  then consider "j = c" | k where "k = 2 * c + 1 \<or> k = 2 * c + 2" "j \<in> subtree (?N - 1) k"
    using less.prems(1) subtree_unfold [of "?N - 1" c] by auto
  then show ?case
  proof cases
    case (2 k)
    have kn: "k < ?N" using 2 less.prems(2) subtree_ge [of k j "?N - 1"] by auto
    have "(k, STATE_FAILED) \<in># pool z"
      using failed_held [OF inv less.prems(2-4) 2(1) kn] by (simp add: pool_def)
    then show ?thesis using less.hyps [of k] 2 kn less.prems(2) by auto
  qed (use less.prems in simp)
qed

lemma token_count: "(i, st) \<in># M \<Longrightarrow> 1 \<le> size (filter_mset (\<lambda>t. fst t = i) M)"
  by (metis (mono_tags, lifting) filter_mset_eq_mempty_iff fst_conv less_one not_le size_eq_0_iff_empty)

lemma sys_quiet:
  assumes inv: "sys_inv cfg z" and i: "i < nat (num_workers (mem z))"
  shows "quiet (workers z ! i, mem z)"
proof -
  let ?N = "num_workers (mem z)" and ?w = "workers z ! i"
  have t: "tree_ok ?N ?w" using sys_invD(6) [OF inv i] by (simp add: held_ok_def)
  note l = tree_ok_links [OF t] and ch = chans_okD [OF sys_invD(3) [OF inv]]
  have False if c: "c \<in> {tree_left_child (tree ?w), tree_right_child (tree ?w)} - {- 1}"
    "(c, STATE_FAILED) \<in># view (?w, mem z)" and j: "j \<in> subtree (?N - 1) c"
    and r: "r \<in> set (chan_requests (mem z) ! nat j)" "req_state r = STATE_FAILED" for c j r
  proof -
    have cN: "0 \<le> c" "c < ?N" using c(1) l by (auto split: if_splits)
    have "(c, STATE_FAILED) \<in># pool z" using c(2) pool_view [of i z] i sys_invD(2) [OF inv] by simp
    then have jf: "(j, STATE_FAILED) \<in># pool z" by (rule failed_below [OF inv j cN])
    have jN: "0 \<le> j" "j < ?N" using subtree_ge [OF cN(1) j] cN by auto
    then have jl: "nat j < length (chan_requests (mem z))" using ch(2) by linarith
    have g: "good_req ?N r" "placed (nat j) r" using ch(6) [OF jl r(1)] by auto
    then have k: "req_ID r = 2 * j + 1 \<or> req_ID r = 2 * j + 2" "0 \<le> req_ID r" "req_ID r < ?N"
      using r(2) jN by (auto simp: placed_def good_req_def)
    have "(req_ID r, STATE_FAILED) \<in># toks (concat (map held (workers z)))"
      by (rule failed_held [OF inv jN jf k(1,3)])
    moreover have "r \<in> set (concat (chan_requests (mem z)))" using r(1) jl by auto
    then have "(req_ID r, STATE_FAILED) \<in># toks (concat (chan_requests (mem z)))"
      unfolding in_toks using r(2) by (metis tok_def)
    ultimately show False
      using sys_single [OF inv k(2,3)]
        token_count [of "req_ID r" STATE_FAILED "toks (concat (chan_requests (mem z)))"]
        token_count [of "req_ID r" STATE_FAILED "toks (concat (map held (workers z)))"]
      unfolding occupancy_def pool_def filter_union_mset size_union by linarith
  qed
  then show ?thesis unfolding quiet_def Let_def prod.case by blast
qed

lemma others_failed:
  assumes inv: "sys_inv cfg z" and t: "t \<in># others i z"
  shows "snd t = STATE_FAILED"
proof -
  obtain r where r: "r \<in> set (concat ((map held (workers z))[i := []]))" "t = tok r"
    using t unfolding others_def in_toks by blast
  then obtain q where q: "q \<in> set ((map held (workers z))[i := []])" "r \<in> set q" by auto
  then have "q \<in> set (map held (workers z))" using set_update_subset_insert [of "map held (workers z)" i "[]"] by auto
  then obtain j where j: "j < length (workers z)" "q = held (workers z ! j)" by (auto simp: in_set_conv_nth)
  then have "held_ok (num_workers (mem z)) (workers z ! j)" using sys_invD(2,6) [OF inv] by simp
  then show ?thesis using q(2) j(2) r(2) by (auto simp: held_ok_def tok_def)
qed

lemma sys_local:
  assumes inv: "sys_inv cfg z" and i: "i < nat (num_workers (mem z))"
  shows "local_ok cfg (others i z) (stacks z ! i) (workers z ! i, mem z)"
proof -
  let ?N = "num_workers (mem z)" and ?s = "(workers z ! i, mem z)"
  have p: "pool z = view ?s + others i z" by (rule pool_view) (simp add: sys_invD(2) [OF inv] i)
  have "occupancy (view ?s) (answers (mem z)) k \<le> 1" if "0 \<le> k" "k < ?N" for k
    using sys_single [OF inv that] unfolding p occupancy_union by simp
  then have "single ?N (view ?s) (answers (mem z))" by (simp add: single_def)
  then have "linv {#} ?s" using sys_invD(3,6,9) [OF inv] sys_quiet [OF inv i] i by (simp add: linv_def)
  then show ?thesis
    using sys_invD(5,7,8) [OF inv i] others_failed [OF inv] by (simp add: local_ok_def p)
qed

lemma moves_others:
  assumes m: "moves cfg s s'" and k: "k \<noteq> ID (fst s)"
  shows "occupancy (view s' + X) (answers (snd s')) k = occupancy (view s + X) (answers (snd s)) k"
    "(k, st) \<in># view s' + X \<Longrightarrow> (k, st) \<in># view s + X"
    "signalled cfg (snd s) k \<or> (k, STATE_FAILED) \<in># view s + X \<Longrightarrow>
      signalled cfg (snd s') k \<or> (k, STATE_FAILED) \<in># view s' + X"
proof -
  have i: "idle_steps (ID (fst s)) (view s, answers (snd s), requested (fst s), signalled cfg (snd s))
      (view s', answers (snd s'), requested (fst s'), signalled cfg (snd s'))"
    using m by (simp add: moves_def pstate_def)
  show "occupancy (view s' + X) (answers (snd s')) k = occupancy (view s + X) (answers (snd s)) k"
    using idle_steps_conserve [OF i, of k] k by (simp add: occupancy_union)
  show "(k, st) \<in># view s' + X \<Longrightarrow> (k, st) \<in># view s + X" using idle_steps_new [OF i _ k] by auto
  show "signalled cfg (snd s) k \<or> (k, STATE_FAILED) \<in># view s + X \<Longrightarrow>
      signalled cfg (snd s') k \<or> (k, STATE_FAILED) \<in># view s' + X"
    using idle_steps_signal [OF i k] by auto
qed

text \<open>A step that keeps the invariant of one worker keeps that of all.\<close>

lemma local_sys:
  assumes inv: "sys_inv cfg z" and i: "i < nat (num_workers (mem z))"
    and l: "local_ok cfg (others i z) fs (w, sh)" and m: "moves cfg (workers z ! i, mem z) (w, sh)"
  shows "sys_inv cfg \<lparr>stacks = (stacks z)[i := fs], workers = (workers z)[i := w], mem = sh\<rparr>"
proof -
  let ?z = "\<lparr>stacks = (stacks z)[i := fs], workers = (workers z)[i := w], mem = sh\<rparr>"
  let ?N = "num_workers (mem z)"
  have N: "num_workers sh = ?N" and id: "ID w = int i"
    using m sys_invD(5) [OF inv i] by (auto simp: moves_def)
  have il: "i < length (workers z)" "i < length (stacks z)" using i sys_invD(1,2) [OF inv] by simp_all
  have p: "pool z = view (workers z ! i, mem z) + others i z" "pool ?z = view (w, sh) + others i z"
    by (rule pool_view [OF il(1)], rule pool_update [OF il(1)])
  have "ID (workers ?z ! k) = int k \<and> \<not> tasking_finished (workers ?z ! k) \<and> held_ok ?N (workers ?z ! k) \<and>
      int (occupancy (pool ?z) (answers sh) (int k)) = requested (workers ?z ! k) \<and>
      worker_ok (pool ?z) (signalled cfg sh) (stacks ?z ! k) (workers ?z ! k)" if k: "k < nat ?N" for k
  proof (cases "k = i")
    case True
    then show ?thesis using l N id il unfolding p by (simp add: local_ok_def linv_def)
  next
    case False
    then have ne: "int k \<noteq> ID (fst (workers z ! i, mem z))" using sys_invD(5) [OF inv i] by simp
    note o = moves_others [OF m ne, where X = "others i z", folded p(1)]
    have idk: "ID (workers z ! k) = int k" by (rule sys_invD(5) [OF inv k])
    have "worker_ok (pool ?z) (signalled cfg sh) (stacks z ! k) (workers z ! k)"
      by (rule worker_ok_others [OF sys_invD(8) [OF inv k]]) (use o p idk in auto)
    then show ?thesis using False idk sys_invD(6,7,9) [OF inv k] o(1) p by simp
  qed
  moreover have "chans_ok sh" using l by (simp add: local_ok_def linv_def)
  ultimately show ?thesis using N sys_invD(1,2) [OF inv] by (simp add: sys_inv_def Let_def)
qed

lemma sys_step_inv:
  assumes st: "sys_step env cfg z z'" and cfg: "MAXSTEAL cfg = 1" and inv: "sys_inv cfg z"
  shows "sys_inv cfg z'"
  using st
proof cases
  case (Run i fs w sh)
  have i: "i < nat (num_workers (mem z))" using Run sys_invD(2) [OF inv] by simp
  show ?thesis
    using worker_step_local [OF Run(4) cfg sys_local [OF inv i]] Run(1,3) local_sys [OF inv i] by simp
next
  case (Wake i)
  have i: "i < nat (num_workers (mem z))" using Wake sys_invD(2) [OF inv] by simp
  let ?w = "(workers z ! i)\<lparr>blocked := False\<rparr>"
  have z': "z' = \<lparr>stacks = (stacks z)[i := stacks z ! i], workers = (workers z)[i := ?w], mem = mem z\<rparr>"
    using Wake(1) by (cases z) simp
  have v: "view (?w, mem z) = view (workers z ! i, mem z)" by (simp add: view_def)
  have "local_ok cfg (others i z) (stacks z ! i) (?w, mem z)"
    using sys_local [OF inv i] by (simp add: local_ok_def linv_blocked v worker_ok_def subtrees_idle_def)
  moreover have "moves cfg (workers z ! i, mem z) (?w, mem z)" by (simp add: moves_def pstate_def v)
  ultimately show ?thesis unfolding z' by (rule local_sys [OF inv i])
qed

lemma sys_steps_inv:
  assumes "(sys_step env cfg)\<^sup>*\<^sup>* z z'" "MAXSTEAL cfg = 1" "sys_inv cfg z"
  shows "sys_inv cfg z'"
  using assms by (induction rule: rtranclp_induct) (auto intro: sys_step_inv)

section \<open>Consequences\<close>

text \<open>If the subtrees of the master are idle, every other worker has a failed request.\<close>

lemma all_failed:
  assumes inv: "sys_inv cfg z" and m: "subtrees_idle (workers z ! 0)" and i: "0 < i" "i < num_workers (mem z)"
  shows "(i, STATE_FAILED) \<in># pool z"
proof -
  let ?N = "num_workers (mem z)"
  have "worker_id (?N - 1) 0" using i by (simp add: worker_id_def)
  moreover have "i \<in> subtree (?N - 1) 0" using subtree_root [of "?N - 1"] i by simp
  ultimately obtain k where k: "k = 2 * 0 + 1 \<or> k = 2 * 0 + 2" "i \<in> subtree (?N - 1) k"
    using subtree_unfold [of "?N - 1" 0] i by auto
  have kN: "k < ?N" "0 \<le> k" using subtree_ge [of k i "?N - 1"] k i by auto
  have "(k, STATE_FAILED) \<in># pool z"
    using idle_children [OF inv, of 0 k] m k(1) kN i by (simp add: pool_def)
  then show ?thesis by (rule failed_below [OF inv k(2) kN(2,1)])
qed

lemma no_answers:
  assumes inv: "sys_inv cfg z" and i: "i < nat (num_workers (mem z))" and z: "answers (mem z) (int i) = 0"
  shows "chan_tasks (mem z) ! i = [[]]"
  using answers_0 [OF sys_invD(3) [OF inv], of "int i"] i z by simp

lemma failed_unanswered:
  assumes inv: "sys_inv cfg z" and i: "i < nat (num_workers (mem z))" and f: "(int i, st) \<in># pool z"
  shows "chan_tasks (mem z) ! i = [[]]"
proof (rule no_answers [OF inv i])
  have "occupancy (pool z) (answers (mem z)) (int i) \<le> 1" by (rule sys_single [OF inv]) (use i in auto)
  then show "answers (mem z) (int i) = 0" using token_count [OF f] unfolding occupancy_def by linarith
qed

text \<open>The step in which the master finds the system quiescent.\<close>

lemma sys_step_detects:
  assumes st: "sys_step env cfg z z'" and cfg: "MAXSTEAL cfg = 1" and inv: "sys_inv cfg z"
    and q: "\<not> quiescent (workers z ! 0)" "quiescent (workers z' ! 0)" and N: "1 < num_workers (mem z)"
  shows "subtrees_idle (workers z' ! 0) \<and> deque_empty (deque (workers z' ! 0)) \<and> requested (workers z' ! 0) = 0"
  using st
proof cases
  case (Run i fs w sh)
  have i: "i < nat (num_workers (mem z))" using Run sys_invD(2) [OF inv] by simp
  have w: "i = 0" "workers z' ! 0 = w" using Run(1,2) q by (auto simp: nth_list_update split: if_splits)
  have "detects (workers z ! i, mem z) (w, sh)"
    using worker_step_local [OF Run(4) cfg sys_local [OF inv i]] Run(3) by simp
  then show ?thesis using q N w by (simp add: detects_def)
next
  case (Wake i)
  then show ?thesis using q by (auto simp: nth_list_update split: if_splits)
qed

text \<open>Nothing is left to do: no task is queued, in transit or running on a worker thread.\<close>

definition all_idle :: "sys \<Rightarrow> bool" where
  "all_idle z \<longleftrightarrow> (\<forall>i < nat (num_workers (mem z)). deque_empty (deque (workers z ! i)) \<and>
     chan_tasks (mem z) ! i = [[]] \<and>
     (0 < i \<longrightarrow> stacks z ! i = [Schedule Receive] \<or> stacks z ! i = [Schedule Decline]))"

lemma detected_idle:
  assumes inv: "sys_inv cfg z" and m: "subtrees_idle (workers z ! 0)" "deque_empty (deque (workers z ! 0))"
    "requested (workers z ! 0) = 0"
  shows "all_idle z"
  unfolding all_idle_def
proof (intro allI impI)
  fix i assume i: "i < nat (num_workers (mem z))"
  show "deque_empty (deque (workers z ! i)) \<and> chan_tasks (mem z) ! i = [[]] \<and>
     (0 < i \<longrightarrow> stacks z ! i = [Schedule Receive] \<or> stacks z ! i = [Schedule Decline])"
  proof (cases "i = 0")
    case True
    have "int (occupancy (pool z) (answers (mem z)) (int 0)) = 0" using sys_invD(7) [OF inv i] True m(3) by simp
    then have "answers (mem z) (int 0) = 0" unfolding occupancy_def by linarith
    then show ?thesis using no_answers [OF inv i] True m(2) by simp
  next
    case False
    then have f: "(int i, STATE_FAILED) \<in># pool z" using all_failed [OF inv m(1), of "int i"] i by simp
    then show ?thesis
      using sys_invD(5,8) [OF inv i] failed_unanswered [OF inv i f] by (simp add: worker_ok_def)
  qed
qed

text \<open>
  What the main program can count on after a barrier of several workers: it is quiescent and has no task, its subtrees are idle and no request of its own is under way.
\<close>

definition rested :: "worker \<Rightarrow> bool" where
  "rested w \<longleftrightarrow> quiescent w \<and> subtrees_idle w \<and> deque_empty (deque w) \<and> requested w = 0"

text \<open>A worker that sleeps although it has got a task has been signalled.\<close>

lemma asleep_signalled:
  assumes inv: "sys_inv cfg z" and i: "i < nat (num_workers (mem z))" and b: "blocked (workers z ! i)"
    and t: "peek (chan_tasks (mem z) ! i)"
  shows "signalled cfg (mem z) (int i)"
proof (rule ccontr)
  assume "\<not> signalled cfg (mem z) (int i)"
  then have "(int i, STATE_FAILED) \<in># pool z"
    using sys_invD(5,8) [OF inv i] b by (simp add: worker_ok_def)
  from failed_unanswered [OF inv i this] show False using t by (simp add: peek_def)
qed

end
