(* ===== verification/Startup.thy ===== *)
theory Startup
  imports Quiescence
begin

text \<open>
  Starting the runtime (\<^verbatim>\<open>tasking_init\<close>, \<^verbatim>\<open>worker_entry_fn\<close>, \<^verbatim>\<open>RT_init\<close>) and what holds in every state the
  workers reach from there: no request is lost or duplicated, sleeping workers are woken up, and the
  barrier detects termination only when there is nothing left to do.
\<close>

section \<open>Definitions\<close>

definition MAXWORKERS :: int where
  "MAXWORKERS = 32"

text \<open>
  The thread-private variables as a thread finds them: zero, apart from \<^verbatim>\<open>last_victim\<close> and
  \<^verbatim>\<open>last_thief\<close>. The pointers among them are set by \<^verbatim>\<open>RT_init\<close> before they are used.
\<close>

definition thread_private :: worker where
  "thread_private = \<lparr>ID = 0,
     deque = \<lparr>dq_head = NULL, dq_tail = NULL, num_tasks = 0, num_steals = 0, freelist = NULL\<rparr>,
     channel_stack = \<lparr>bs_capacity = 0, bs_top = 0, bs_buffer = []\<rparr>,
     work_sharing_requests = \<lparr>bq_capacity = 0, bq_head = 0, bq_tail = 0, bq_buffer = []\<rparr>,
     requested = 0, dropped_steal_requests = 0,
     tree = \<lparr>tree_left_child = 0, tree_right_child = 0, tree_parent = 0, num_children = 0,
       left_subtree_is_idle = False, right_subtree_is_idle = False, waiting_for_tasks = False\<rparr>,
     last_victim = - 1, last_thief = - 1,
     victim_sel = \<lparr>vs_seed = 0, random_receiver_calls = 0, random_receiver_early_exits = 0\<rparr>,
     quiescent = False, num_recent_steals = 0, stealhalf = False, checkpoint = 0,
     num_tasks_exec = 0, tasking_finished = False, current_task = NULL, requests_sent = 0,
     requests_handled = 0, requests_declined = 0, tasks_sent = 0, tasks_split = 0,
     futures_converted = 0, requests_steal_one = 0, requests_steal_half = 0, blocked = False\<rparr>"

text \<open>The task channels of a worker; a new channel is empty.\<close>

function alloc_task_channels :: "nat \<Rightarrow> nat \<Rightarrow> wst \<Rightarrow> wst option" where
  "alloc_task_channels i n s = (let (w, sh) = s in
     if i < n then do {
       chans \<leftarrow> read_at (chan_tasks sh) (nat (ID w));
       chans \<leftarrow> write_at chans i [];
       let sh = sh\<lparr>chan_tasks := (chan_tasks sh)[nat (ID w) := chans]\<rparr>;
       w \<leftarrow> CHANNEL_PUSH (ID w, i) w;
       alloc_task_channels (i + 1) n (w, sh)
     } else Some (w, sh))"
  by pat_completeness auto
termination
  by (relation "measure (\<lambda>(i, n, s). n - i)") auto

declare alloc_task_channels.simps [simp del]

text \<open>
  An element of the stack of channels is a pointer, one of the queue of work-sharing requests has
  the 24 bytes of a steal request.
\<close>

definition RT_init :: "env \<Rightarrow> config \<Rightarrow> wst \<Rightarrow> wst option" where
  "RT_init env cfg s = (let (w, sh) = s; N = num_workers sh in do {
     let (p, sh) = malloc sh;
     let (q, sh) = malloc sh;
     (dq, h) \<leftarrow> deque_new (p \<noteq> NULL) q (env_junk env) (task_mem sh);
     dq \<leftarrow> dq;
     reqs \<leftarrow> write_at (chan_requests sh) (nat (ID w)) [];
     let sh = sh\<lparr>task_mem := h, chan_requests := reqs\<rparr>;
     let (p, sh) = malloc sh;
     st \<leftarrow> bounded_stack_alloc (p \<noteq> NULL) 8 (of_int (MAXSTEAL cfg));
     (w, sh) \<leftarrow> alloc_task_channels 0 (nat (MAXSTEAL cfg)) (w\<lparr>deque := dq, channel_stack := st\<rparr>, sh);
     assertion (uint (bs_top (channel_stack w)) = MAXSTEAL cfg);
     let (p, sh) = malloc sh;
     ws \<leftarrow> bounded_queue_alloc (p \<noteq> NULL) 24 2;
     t \<leftarrow> worker_tree_init (ID w) (N - 1);
     sg \<leftarrow> write_at (signals sh) (nat (ID w)) False;
     Some (w\<lparr>work_sharing_requests := ws, tree := t, requested := 0,
       victim_sel := (victim_sel w)\<lparr>vs_seed := of_int (ID w)\<rparr>\<rparr>, sh\<lparr>signals := sg\<rparr>)
   })"

text \<open>A thread up to the barrier that ends the initialisation.\<close>

definition worker_entry_fn :: "env \<Rightarrow> config \<Rightarrow> int \<Rightarrow> shared \<Rightarrow> wst option" where
  "worker_entry_fn env cfg i sh =
     RT_init env cfg (set_current_task NULL (thread_private\<lparr>ID := i, num_tasks_exec := 0,
       tasking_finished := False\<rparr>), sh)"

text \<open>
  The worker threads initialise themselves. They write to different elements of the shared
  arrays, so the order does not matter.
\<close>

fun start_workers :: "env \<Rightarrow> config \<Rightarrow> int list \<Rightarrow> shared \<Rightarrow> (worker list \<times> shared) option" where
  "start_workers env cfg [] sh = Some ([], sh)"
| "start_workers env cfg (i # is) sh = do {
     (w, sh) \<leftarrow> worker_entry_fn env cfg i sh;
     (ws, sh) \<leftarrow> start_workers env cfg is sh;
     Some (w # ws, sh)
   }"

text \<open>
  The number of workers is the value of the environment variable \<^verbatim>\<open>NUM_THREADS\<close>, if it is set, or the
  number of processors online. A number that is not positive ends the program.
\<close>

datatype startup_error = NUM_THREADS_not_positive

definition get_num_workers :: "int option \<Rightarrow> int \<Rightarrow> startup_error + int" where
  "get_num_workers envval nprocessors = (case envval of
     Some n \<Rightarrow> if n \<le> 0 then Inl NUM_THREADS_not_positive
       else if n > MAXWORKERS then Inr MAXWORKERS else Inr n
   | None \<Rightarrow> Inr nprocessors)"

text \<open>The root task is not zeroed: the fields that are not set keep what the memory held.\<close>

definition root_task :: "task \<Rightarrow> task" where
  "root_task t = t\<lparr>t_parent := NULL, t_fn := NULL, t_start := 0, t_cur := 0, t_end := 0, t_splittable := False\<rparr>"

definition boot :: "env \<Rightarrow> config \<Rightarrow> int \<Rightarrow> addr list \<Rightarrow> shared" where
  "boot env cfg N ms = \<lparr>num_workers = N, chan_requests = replicate (nat MAXWORKERS) [],
     chan_tasks = replicate (nat MAXWORKERS) (replicate (nat (MAXSTEAL cfg)) []),
     task_mem = Map.empty, fut_mem = \<lparr>fm_futures = Map.empty, fm_channels = Map.empty\<rparr>,
     fut_nodes = Map.empty, mallocs = ms, signals = replicate (nat MAXWORKERS) False, refusals = env_refusals env\<rparr>"

definition tasking_init ::
  "env \<Rightarrow> config \<Rightarrow> int option \<Rightarrow> int \<Rightarrow> addr list \<Rightarrow> (startup_error + sys) option"
where
  "tasking_init env cfg envval nprocessors ms = (case get_num_workers envval nprocessors of
     Inl e \<Rightarrow> Some (Inl e)
   | Inr N \<Rightarrow> do {
       (ws, sh) \<leftarrow> start_workers env cfg [1..N - 1] (boot env cfg N ms);
       let (root, sh) = malloc sh;
       assertion (root \<noteq> NULL);
       h \<leftarrow> assign ((task_mem sh)(root \<mapsto> env_junk env)) root root_task;
       (w, sh) \<leftarrow> RT_init env cfg (set_current_task root (thread_private\<lparr>ID := 0,
         num_tasks_exec := 0, tasking_finished := False\<rparr>), sh\<lparr>task_mem := h\<rparr>);
       Some (Inr \<lparr>stacks = [Main_Program] # replicate (length ws) [Schedule Pop], workers = w # ws,
         mem = sh\<rparr>)
     })"

section \<open>The state after initialisation\<close>

text \<open>All channels are empty, and there is one task channel per worker.\<close>

definition fresh :: "int \<Rightarrow> shared \<Rightarrow> bool" where
  "fresh N sh \<longleftrightarrow> num_workers sh = N \<and> length (chan_requests sh) = nat MAXWORKERS \<and>
     length (chan_tasks sh) = nat MAXWORKERS \<and> length (signals sh) = nat MAXWORKERS \<and>
     set (chan_requests sh) \<subseteq> {[]} \<and> set (chan_tasks sh) \<subseteq> {[[]]}"

text \<open>A worker that has been initialised and has not done anything yet.\<close>

definition newborn :: "int \<Rightarrow> int \<Rightarrow> worker \<Rightarrow> bool" where
  "newborn N i w \<longleftrightarrow> ID w = i \<and> held_ok N w \<and> requested w = 0 \<and> held w = [] \<and> \<not> blocked w \<and> \<not> quiescent w \<and>
     \<not> tasking_finished w \<and> i < MAXWORKERS"

lemma malloc_shared: "\<exists>ms. snd (malloc sh) = sh\<lparr>mallocs := ms\<rparr>"
  by (auto simp: malloc_def split: list.splits) (metis (full_types) shared.surjective shared.update_convs(7))+

lemma fresh_malloc: "fresh N sh \<Longrightarrow> malloc sh = (p, sh') \<Longrightarrow> fresh N sh'"
  using malloc_shared [of sh] by (auto simp: fresh_def)

lemma alloc_one:
  assumes "alloc_task_channels 0 (Suc 0) (w, sh) = Some (w', sh')" "fresh N sh" "bs_buffer (channel_stack w) = [None]"
  shows "fresh N sh' \<and> (\<exists>st. w' = w\<lparr>channel_stack := st\<rparr> \<and> set (bs_buffer st) \<subseteq> {None, Some (ID w, 0)})"
proof -
  obtain chans cs st where c: "read_at (chan_tasks sh) (nat (ID w)) = Some chans" "write_at chans 0 [] = Some cs"
    "bounded_stack_push (channel_stack w) (ID w, 0) = Some st" "w' = w\<lparr>channel_stack := st\<rparr>"
    "sh' = sh\<lparr>chan_tasks := (chan_tasks sh)[nat (ID w) := cs]\<rparr>"
    using assms(1) by (subst (asm) alloc_task_channels.simps, subst (asm) alloc_task_channels.simps)
      (auto simp: CHANNEL_PUSH_def bind_eq_Some_conv)
  have "chans \<in> set (chan_tasks sh)" using c(1) by (auto simp: read_at_Some)
  then have "chans = [[]]" using assms(2) by (auto simp: fresh_def)
  then have "cs = [[]]" using c(2) by (simp add: write_at_Some)
  then have "fresh N sh'"
    using assms(2) c(5) set_update_subset_insert [of "chan_tasks sh" "nat (ID w)" cs] by (auto simp: fresh_def)
  moreover have "set (bs_buffer st) \<subseteq> {None, Some (ID w, 0)}" by (rule push_own [OF c(3)]) (simp add: assms(3))
  ultimately show ?thesis using c(4) by blast
qed

lemma RT_init_ok:
  assumes rt: "RT_init env cfg (w, sh) = Some (w', sh')" and cfg: "MAXSTEAL cfg = 1" and f: "fresh N sh"
    and w: "\<not> blocked w" "\<not> quiescent w" "0 \<le> ID w" "\<not> tasking_finished w"
  shows "newborn N (ID w) w' \<and> fresh N sh'"
proof -
  obtain p1 sh1 where m1: "malloc sh = (p1, sh1)" by (cases "malloc sh")
  obtain p2 sh2 where m2: "malloc sh1 = (p2, sh2)" by (cases "malloc sh1")
  note f2 = fresh_malloc [OF fresh_malloc [OF f m1] m2]
  obtain dq h reqs where r: "write_at (chan_requests sh2) (nat (ID w)) [] = Some reqs"
    and rest: "(let (p, sh) = malloc (sh2\<lparr>task_mem := h, chan_requests := reqs\<rparr>) in do {
     st \<leftarrow> bounded_stack_alloc (p \<noteq> NULL) 8 (of_int (MAXSTEAL cfg));
     (w, sh) \<leftarrow> alloc_task_channels 0 (nat (MAXSTEAL cfg)) (w\<lparr>deque := dq, channel_stack := st\<rparr>, sh);
     assertion (uint (bs_top (channel_stack w)) = MAXSTEAL cfg);
     let (p, sh) = malloc sh;
     ws \<leftarrow> bounded_queue_alloc (p \<noteq> NULL) 24 2;
     t \<leftarrow> worker_tree_init (ID w) (N - 1);
     sg \<leftarrow> write_at (signals sh) (nat (ID w)) False;
     Some (w\<lparr>work_sharing_requests := ws, tree := t, requested := 0,
       victim_sel := (victim_sel w)\<lparr>vs_seed := of_int (ID w)\<rparr>\<rparr>, sh\<lparr>signals := sg\<rparr>)
     }) = Some (w', sh')"
    using rt m1 m2 f by (auto simp: RT_init_def fresh_def bind_eq_Some_conv)
  let ?sh3 = "sh2\<lparr>task_mem := h, chan_requests := reqs\<rparr>"
  obtain p4 sh4 where m4: "malloc ?sh3 = (p4, sh4)" by (cases "malloc ?sh3")
  have "set reqs \<subseteq> {[]}" "length reqs = nat MAXWORKERS" "nat (ID w) < nat MAXWORKERS"
    using r f2 set_update_subset_insert [of "chan_requests sh2" "nat (ID w)" "[]"] by (auto simp: fresh_def write_at_Some)
  then have "fresh N ?sh3" using f2 by (simp add: fresh_def)
  then have f4: "fresh N sh4" by (rule fresh_malloc [OF _ m4])
  obtain st w5 sh5 where st: "bounded_stack_alloc (p4 \<noteq> NULL) 8 1 = Some st"
    and al: "alloc_task_channels 0 (Suc 0) (w\<lparr>deque := dq, channel_stack := st\<rparr>, sh4) = Some (w5, sh5)"
    and rest': "(let (p, sh) = malloc sh5 in do {
     ws \<leftarrow> bounded_queue_alloc (p \<noteq> NULL) 24 2;
     t \<leftarrow> worker_tree_init (ID w5) (N - 1);
     sg \<leftarrow> write_at (signals sh) (nat (ID w5)) False;
     Some (w5\<lparr>work_sharing_requests := ws, tree := t, requested := 0,
       victim_sel := (victim_sel w5)\<lparr>vs_seed := of_int (ID w5)\<rparr>\<rparr>, sh\<lparr>signals := sg\<rparr>)
     }) = Some (w', sh')"
    using rest m4 cfg by (auto simp: Let_def bind_eq_Some_conv)
  have "bs_buffer st = [None]" using st by (auto simp: bounded_stack_alloc_def split: if_splits)
  then obtain st5 where f5: "fresh N sh5" and w5: "w5 = w\<lparr>deque := dq, channel_stack := st5\<rparr>"
    "set (bs_buffer st5) \<subseteq> {None, Some (ID w, 0)}"
    using alloc_one [OF al f4] by auto
  obtain p6 sh6 where m6: "malloc sh5 = (p6, sh6)" by (cases "malloc sh5")
  obtain ws t sg where q: "bounded_queue_alloc (p6 \<noteq> NULL) 24 2 = Some ws" "worker_tree_init (ID w) (N - 1) = Some t"
    "write_at (signals sh6) (nat (ID w)) False = Some sg"
    and e: "w' = w5\<lparr>work_sharing_requests := ws, tree := t, requested := 0,
       victim_sel := (victim_sel w5)\<lparr>vs_seed := of_int (ID w5)\<rparr>\<rparr>" "sh' = sh6\<lparr>signals := sg\<rparr>"
    using rest' m6 w5(1) by (auto simp: Let_def bind_eq_Some_conv)
  have "bounded_queue_alloc True 24 2 = Some ws" using q(1) by (simp add: bounded_queue_alloc_def split: if_splits)
  then have bq: "bq_inv ws" "bq_items ws = []" using bq_inv_alloc [of 24 2 ws] by simp_all
  have "0 \<le> ID w \<and> ID w \<le> N - 1" using q(2) by (auto simp: worker_tree_init_def bind_eq_Some_conv)
  then have wid: "worker_id (N - 1) (ID w)" by (simp add: worker_id_def)
  have "held_ok N w'"
    using wid q(2) bq w5 e w(3) worker_tree_init_eq [OF wid] by (auto simp: held_ok_def tree_ok_def)
  moreover have "fresh N sh'" using fresh_malloc [OF f5 m6] e(2) q(3) by (auto simp: fresh_def write_at_Some)
  ultimately show ?thesis
    using e(1) w5(1) bq w \<open>nat (ID w) < nat MAXWORKERS\<close> by (simp add: newborn_def)
qed

lemma start_workers_ok:
  assumes "start_workers env cfg is sh = Some (ws, sh')" "MAXSTEAL cfg = 1" "fresh N sh" "\<forall>i \<in> set is. 0 \<le> i"
  shows "fresh N sh' \<and> list_all2 (newborn N) is ws"
  using assms
proof (induction "is" arbitrary: sh ws)
  case (Cons i "is")
  obtain w sh1 where w: "worker_entry_fn env cfg i sh = Some (w, sh1)" and r: "\<exists>ws'. ws = w # ws' \<and> start_workers env cfg is sh1 = Some (ws', sh')"
    using Cons.prems(1) by (auto simp: bind_eq_Some_conv)
  obtain ws' where ws': "ws = w # ws'" "start_workers env cfg is sh1 = Some (ws', sh')" using r by blast
  have "newborn N i w \<and> fresh N sh1"
    using RT_init_ok [OF w [unfolded worker_entry_fn_def] Cons.prems(2,3)] Cons.prems(4)
    by (simp add: thread_private_def set_current_task_def)
  then show ?case using Cons.IH [OF ws'(2) Cons.prems(2)] Cons.prems(4) ws'(1) by simp
qed simp

lemma boot_fresh: "MAXSTEAL cfg = 1 \<Longrightarrow> fresh N (boot env cfg N ms)"
  by (auto simp: fresh_def boot_def)

lemma tasking_init_workers:
  assumes t: "tasking_init env cfg envval n ms = Some (Inr z)" and cfg: "MAXSTEAL cfg = 1"
  shows "\<exists>N. get_num_workers envval n = Inr N \<and> fresh N (mem z) \<and> 1 \<le> N \<and> N \<le> MAXWORKERS \<and>
    list_all2 (newborn N) [0..N - 1] (workers z) \<and>
    stacks z = [Main_Program] # replicate (nat N - 1) [Schedule Pop]"
proof -
  obtain N where N: "get_num_workers envval n = Inr N"
    using t by (auto simp: tasking_init_def split: sum.splits)
  obtain ws sh where ws: "start_workers env cfg [1..N - 1] (boot env cfg N ms) = Some (ws, sh)"
    using t N by (auto simp: tasking_init_def bind_eq_Some_conv)
  obtain root sh1 where m: "malloc sh = (root, sh1)" by (cases "malloc sh")
  obtain h w sh2 where w: "RT_init env cfg (set_current_task root (thread_private\<lparr>ID := 0,
         num_tasks_exec := 0, tasking_finished := False\<rparr>), sh1\<lparr>task_mem := h\<rparr>) = Some (w, sh2)"
    and z: "z = \<lparr>stacks = [Main_Program] # replicate (length ws) [Schedule Pop], workers = w # ws, mem = sh2\<rparr>"
    using t N ws m by (auto simp: tasking_init_def bind_eq_Some_conv)
  note s = start_workers_ok [OF ws cfg boot_fresh [OF cfg]]
  have f: "fresh N (sh1\<lparr>task_mem := h\<rparr>)" using fresh_malloc [OF _ m] s by (simp add: fresh_def)
  have nb: "newborn N 0 w" "fresh N sh2"
    using RT_init_ok [OF w cfg f] by (simp_all add: thread_private_def set_current_task_def)
  have "tree_ok N w" "ID w = 0" using nb(1) by (auto simp: newborn_def held_ok_def)
  then have N1: "1 \<le> N" using tree_ok_links(5) [of N w] by simp
  then have up: "[0..N - 1] = 0 # [1..N - 1]" using upto_rec1 [of 0 "N - 1"] by simp
  have all: "list_all2 (newborn N) [0..N - 1] (workers z)" using s nb up z by simp
  have "length ws = nat N - 1" using s N1 by (auto dest!: list_all2_lengthD)
  moreover have "N \<le> MAXWORKERS"
  proof -
    have "newborn N (N - 1) (workers z ! nat (N - 1))"
      using list_all2_nthD [OF all, of "nat (N - 1)"] N1 by simp
    then show ?thesis by (simp add: newborn_def)
  qed
  ultimately show ?thesis using N nb(2) N1 all z by auto
qed

lemma fresh_empty:
  assumes "fresh N sh" "N \<le> MAXWORKERS" "1 \<le> N"
  shows "chans_ok sh" "toks (concat (chan_requests sh)) = {#}" "\<And>i. i < N \<Longrightarrow> answers sh i = 0"
proof -
  have q: "q = []" if "q \<in> set (chan_requests sh)" for q using assms(1) that by (auto simp: fresh_def)
  have c: "c = [[]]" if "c \<in> set (chan_tasks sh)" for c using assms(1) that by (auto simp: fresh_def)
  have len: "nat N \<le> nat MAXWORKERS" using assms(2) by simp
  have "chan_tasks sh ! j = [[]]" if "j < nat N" for j
    using assms(1) c [OF nth_mem, of j] that len by (simp add: fresh_def)
  moreover have "chan_requests sh ! j = []" if "j < length (chan_requests sh)" for j using q [OF nth_mem [OF that]] .
  ultimately show "chans_ok sh" using assms len by (auto simp: chans_ok_def fresh_def Let_def)
  have "concat (chan_requests sh) = []" using q by simp
  then show "toks (concat (chan_requests sh)) = {#}" by (simp only: toks_simps)
  show "answers sh i = 0" if "i < N" for i
    using \<open>\<And>j. j < nat N \<Longrightarrow> chan_tasks sh ! j = [[]]\<close> [of "nat i"] that by (simp add: answers_def)
qed

text \<open>The invariant holds at the start.\<close>

lemma tasking_init_inv:
  assumes t: "tasking_init env cfg envval n ms = Some (Inr z)" and cfg: "MAXSTEAL cfg = 1"
  shows "sys_inv cfg z"
proof -
  obtain N where N: "fresh N (mem z)" "1 \<le> N" "N \<le> MAXWORKERS" "list_all2 (newborn N) [0..N - 1] (workers z)"
    "stacks z = [Main_Program] # replicate (nat N - 1) [Schedule Pop]"
    using tasking_init_workers [OF t cfg] by blast
  note f = fresh_empty [OF N(1,3,2)]
  have nw: "num_workers (mem z) = N" using N(1) by (simp add: fresh_def)
  have l: "length (workers z) = nat N" using N(4) by (auto dest!: list_all2_lengthD)
  have nb: "newborn N (int i) (workers z ! i)" if "i < nat N" for i
    using list_all2_nthD [OF N(4), of i] that by simp
  have "held w = []" if "w \<in> set (workers z)" for w
    using that nb l by (auto simp: in_set_conv_nth newborn_def)
  then have "concat (map held (workers z)) = []" by simp
  then have p: "pool z = {#}" using f(2) by (simp only: pool_def toks_simps add_0_right)
  have sk: "stack_ok (int i) (stacks z ! i) \<and> \<not> declines (stacks z ! i) \<and> \<not> leaves (stacks z ! i) \<and> \<not> seeks (stacks z ! i)"
    if "i < nat N" for i
    using N(5) that by (cases i) auto
  have "int (occupancy (pool z) (answers (mem z)) (int i)) = requested (workers z ! i) \<and>
      worker_ok (pool z) (signalled cfg (mem z)) (stacks z ! i) (workers z ! i)" if i: "i < nat N" for i
    using nb [OF i] sk [OF i] p f(3) [of "int i"] i by (auto simp: newborn_def occupancy_def worker_ok_def)
  then show ?thesis
    using nb f(1) l N(2,5) nw by (simp add: sys_inv_def newborn_def)
qed

section \<open>Initialisation succeeds\<close>

text \<open>Initialising a worker takes four blocks of memory: deque, dummy task, stack and queue.\<close>

lemma malloc_Cons: "mallocs sh = p # ps \<Longrightarrow> malloc sh = (p, sh\<lparr>mallocs := ps\<rparr>)"
  by (simp add: malloc_def)

lemma deque_new_returns: "p \<noteq> NULL \<Longrightarrow> \<exists>dq h'. deque_new True p junk h = Some (Some dq, h')"
  by (simp add: deque_new_def task_new_def task_zero_def assign_def deref_def)

lemma alloc_one_returns:
  assumes "fresh N sh" "0 \<le> ID w" "ID w < MAXWORKERS" "bs_capacity (channel_stack w) = 1" "bs_top (channel_stack w) = 0"
    "bs_buffer (channel_stack w) = [None]"
  shows "\<exists>w' sh'. alloc_task_channels 0 (Suc 0) (w, sh) = Some (w', sh') \<and> bs_top (channel_stack w') = 1 \<and>
    mallocs sh' = mallocs sh \<and> ID w' = ID w"
proof -
  have l: "nat (ID w) < length (chan_tasks sh)" using assms(1-3) by (simp add: fresh_def)
  then have "chan_tasks sh ! nat (ID w) \<in> set (chan_tasks sh)" by simp
  then have c: "chan_tasks sh ! nat (ID w) = [[]]" using assms(1) by (auto simp: fresh_def)
  obtain st where st: "bounded_stack_push (channel_stack w) (ID w, 0) = Some st" "bs_top st = 1"
    using assms(4-6) by (simp add: bounded_stack_push_def bounded_stack_full_def write_at_def Let_def)
  have "alloc_task_channels 0 (Suc 0) (w, sh) =
      Some (w\<lparr>channel_stack := st\<rparr>, sh\<lparr>chan_tasks := (chan_tasks sh)[nat (ID w) := [[]]]\<rparr>)"
    using l c st(1)
    by (subst alloc_task_channels.simps, subst alloc_task_channels.simps) (simp add: write_at_def CHANNEL_PUSH_def)
  then show ?thesis using st(2) by simp
qed

lemma RT_init_returns:
  assumes f: "fresh N sh" and cfg: "MAXSTEAL cfg = 1" and id: "0 \<le> ID w" "ID w < N" "N \<le> MAXWORKERS"
    and m: "mallocs sh = p1 # p2 # p3 # p4 # ms" "NULL \<notin> {p1, p2, p3, p4}"
  shows "\<exists>w' sh'. RT_init env cfg (w, sh) = Some (w', sh') \<and> mallocs sh' = ms"
proof -
  let ?sh2 = "sh\<lparr>mallocs := p3 # p4 # ms\<rparr>"
  have ma: "malloc sh = (p1, sh\<lparr>mallocs := p2 # p3 # p4 # ms\<rparr>)" "malloc (sh\<lparr>mallocs := p2 # p3 # p4 # ms\<rparr>) = (p2, ?sh2)"
    using m(1) by (simp_all add: malloc_def)
  obtain dq h where dq: "deque_new True p2 (env_junk env) (task_mem sh) = Some (Some dq, h)"
    using deque_new_returns [of p2 "env_junk env" "task_mem sh"] m(2) by auto
  have il: "nat (ID w) < nat MAXWORKERS" using id by simp
  have rq: "write_at (chan_requests sh) (nat (ID w)) [] = Some ((chan_requests sh)[nat (ID w) := []])"
    using f il by (simp add: write_at_def fresh_def)
  let ?sh3 = "?sh2\<lparr>task_mem := h, chan_requests := (chan_requests sh)[nat (ID w) := []], mallocs := p4 # ms\<rparr>"
  have f3: "fresh N ?sh3"
    using f set_update_subset_insert [of "chan_requests sh" "nat (ID w)" "[]"] by (auto simp: fresh_def)
  let ?st = "\<lparr>bs_capacity = 1, bs_top = 0, bs_buffer = [None]\<rparr>"
  let ?w = "w\<lparr>deque := dq, channel_stack := ?st\<rparr>"
  have st: "bounded_stack_alloc True 8 1 = Some (?st :: chan_ref bounded_stack)" by (simp add: bounded_stack_alloc_def)
  obtain w5 sh5 where al: "alloc_task_channels 0 (Suc 0) (?w, ?sh3) = Some (w5, sh5)"
    and a: "bs_top (channel_stack w5) = 1" "mallocs sh5 = p4 # ms" "ID w5 = ID w"
    using alloc_one_returns [OF f3, of ?w] id by auto
  have f5: "fresh N sh5" using alloc_one [OF al f3] by simp
  obtain ws :: "steal_request bounded_queue" where ws: "bounded_queue_alloc True 24 2 = Some ws"
    by (simp add: bounded_queue_alloc_def Let_def)
  obtain t where t: "worker_tree_init (ID w) (N - 1) = Some t"
    using worker_tree_init_eq [of "N - 1" "ID w"] id by (simp add: worker_id_def)
  have sg: "write_at (signals sh5) (nat (ID w)) False = Some ((signals sh5)[nat (ID w) := False])"
    using f5 il by (simp add: write_at_def fresh_def)
  have N: "num_workers sh = N" using f by (simp add: fresh_def)
  show ?thesis
    unfolding RT_init_def
    using ma dq rq m(2) cfg st al a ws t sg N by (simp add: malloc_def)
qed

lemma four_Cons: "4 \<le> length xs \<Longrightarrow> \<exists>a b c d ys. xs = a # b # c # d # ys"
  by (auto simp: numeral_eq_Suc Suc_le_length_iff)

lemma start_workers_returns:
  assumes "fresh N sh" "MAXSTEAL cfg = 1" "N \<le> MAXWORKERS" "\<forall>i \<in> set is. 0 \<le> i \<and> i < N"
    "4 * length is \<le> length (mallocs sh)" "NULL \<notin> set (mallocs sh)"
  shows "\<exists>ws sh'. start_workers env cfg is sh = Some (ws, sh') \<and> mallocs sh' = drop (4 * length is) (mallocs sh)"
  using assms
proof (induction "is" arbitrary: sh)
  case (Cons i "is")
  have "4 \<le> length (mallocs sh)" using Cons.prems(5) by simp
  then obtain p1 p2 p3 p4 ms where m: "mallocs sh = p1 # p2 # p3 # p4 # ms" using four_Cons by blast
  let ?w = "set_current_task NULL (thread_private\<lparr>ID := i, num_tasks_exec := 0, tasking_finished := False\<rparr>)"
  have id: "ID ?w = i" by (simp add: set_current_task_def)
  obtain w sh1 where w: "worker_entry_fn env cfg i sh = Some (w, sh1)" "mallocs sh1 = ms"
    using RT_init_returns [OF Cons.prems(1,2), of ?w, unfolded id, OF _ _ Cons.prems(3) m, of env] Cons.prems(4,6) m
    by (auto simp: worker_entry_fn_def)
  have "fresh N sh1"
    using RT_init_ok [OF w(1) [unfolded worker_entry_fn_def] Cons.prems(2,1)] Cons.prems(4)
    by (simp add: thread_private_def set_current_task_def)
  then have "\<exists>ws sh'. start_workers env cfg is sh1 = Some (ws, sh') \<and> mallocs sh' = drop (4 * length is) (mallocs sh1)"
    using Cons.IH [of sh1] Cons.prems(2-6) w(2) m by simp
  then show ?case using w m by (auto simp: numeral_eq_Suc)
qed simp

lemma tasking_init_returns:
  assumes N: "get_num_workers envval n = Inr N" "1 \<le> N" "N \<le> MAXWORKERS" and cfg: "MAXSTEAL cfg = 1"
    and m: "4 * nat N < length ms" "NULL \<notin> set ms"
  shows "\<exists>z. tasking_init env cfg envval n ms = Some (Inr z)"
proof -
  have b: "fresh N (boot env cfg N ms)" "mallocs (boot env cfg N ms) = ms" using boot_fresh [OF cfg] by (simp_all add: boot_def)
  have "4 * length [1..N - 1] \<le> length (mallocs (boot env cfg N ms))" using m(1) b(2) by simp
  then obtain ws sh where ws: "start_workers env cfg [1..N - 1] (boot env cfg N ms) = Some (ws, sh)"
    and ms: "mallocs sh = drop (4 * nat (N - 1)) ms"
    using start_workers_returns [OF b(1) cfg N(3), of "[1..N - 1]" env] b(2) m(2) by auto
  have f: "fresh N sh" using start_workers_ok [OF ws cfg b(1)] by simp
  have "5 \<le> length (mallocs sh)" using ms m(1) N(2) by simp
  then have "\<exists>root xs. mallocs sh = root # xs \<and> 4 \<le> length xs" by (cases "mallocs sh") auto
  then obtain root p1 p2 p3 p4 ms' where m': "mallocs sh = root # p1 # p2 # p3 # p4 # ms'" using four_Cons by blast
  have nn: "NULL \<notin> set (mallocs sh)" using ms m(2) by (metis in_set_dropD)
  let ?sh = "sh\<lparr>mallocs := p1 # p2 # p3 # p4 # ms', task_mem := (task_mem sh)(root \<mapsto> root_task (env_junk env))\<rparr>"
  let ?w = "set_current_task root (thread_private\<lparr>ID := 0, num_tasks_exec := 0, tasking_finished := False\<rparr>)"
  have "fresh N ?sh" using f by (simp add: fresh_def)
  then obtain w sh' where "RT_init env cfg (?w, ?sh) = Some (w, sh')"
    using RT_init_returns [of N ?sh cfg ?w p1 p2 p3 p4 ms' env] cfg N m' nn by (auto simp: set_current_task_def)
  moreover have "malloc sh = (root, sh\<lparr>mallocs := p1 # p2 # p3 # p4 # ms'\<rparr>)" using m' by (rule malloc_Cons)
  moreover have "assign ((task_mem sh)(root \<mapsto> env_junk env)) root root_task =
      Some ((task_mem sh)(root \<mapsto> root_task (env_junk env)))"
    using m' nn by (auto simp: assign_def deref_def)
  ultimately show ?thesis using N(1) ws m' nn by (auto simp: tasking_init_def)
qed

section \<open>Reachable states\<close>

inductive reachable :: "env \<Rightarrow> config \<Rightarrow> sys \<Rightarrow> bool" for env cfg where
  Start: "tasking_init env cfg envval n ms = Some (Inr z) \<Longrightarrow> reachable env cfg z"
| Step: "reachable env cfg z \<Longrightarrow> sys_step env cfg z z' \<Longrightarrow> reachable env cfg z'"

lemma reachable_inv: "reachable env cfg z \<Longrightarrow> MAXSTEAL cfg = 1 \<Longrightarrow> sys_inv cfg z"
  by (induction rule: reachable.induct) (auto intro: tasking_init_inv sys_step_inv)

lemma filter_toks: "size (filter_mset (\<lambda>t. fst t = i) (toks rs)) = length (filter (\<lambda>r. req_ID r = i) rs)"
  by (induction rs) (auto simp: tok_def)

text \<open>All requests there are: in the channels and in the queues of work-sharing requests.\<close>

definition pending :: "sys \<Rightarrow> steal_request list" where
  "pending z = concat (chan_requests (mem z)) @ concat (map held (workers z))"

lemma pool_pending: "pool z = toks (pending z)"
  by (simp add: pool_def pending_def)

lemma request_conservation:
  assumes inv: "sys_inv cfg z" and i: "i < nat (num_workers (mem z))"
  shows "int (length (filter (\<lambda>r. req_ID r = int i) (pending z)) + length (concat (chan_tasks (mem z) ! i))) =
    requested (workers z ! i) \<and> requested (workers z ! i) \<le> 1"
  using sys_invD(6,7) [OF inv i] unfolding occupancy_def pool_pending filter_toks
  by (auto simp: answers_def held_ok_def)

text \<open>A worker with no request under way may have one in its hands.\<close>

lemma spare_request:
  assumes inv: "sys_inv cfg z" and i: "i < nat (num_workers (mem z))" and r: "requested (workers z ! i) = 0" "req_ID r = int i"
  shows "linv ({#} + {#tok r#}) (workers z ! i, mem z)"
proof -
  let ?s = "(workers z ! i, mem z)"
  note l = sys_local [OF inv i]
  have "int (occupancy (view ?s + others i z) (answers (mem z)) (int i)) = 0"
    using l sys_invD(5) [OF inv i] r(1) by (simp add: local_ok_def)
  then have "occupancy (view ?s) (answers (mem z)) (int i) = 0" unfolding occupancy_union by simp
  moreover have "linv {#} ?s" using l by (simp add: local_ok_def)
  ultimately show ?thesis using r(2) by (auto simp: linv_def single_def tok_def)
qed

end
