(* ===== verification/Consumers.thy ===== *)
theory Consumers
  imports Startup
begin

text \<open>
  Who receives from which channel. A request channel has one receiver at a time, which is what its
  implementation (\<^verbatim>\<open>MPSC\<close>) requires: a worker receives on behalf of the workers in its idle subtrees,
  and those are asleep. This theory is for the default backoff, waiting for a condition variable.
\<close>

section \<open>Failed requests and sleep\<close>

definition failed_asleep :: "sys \<Rightarrow> bool" where
  "failed_asleep z \<longleftrightarrow> (\<forall>i < nat (num_workers (mem z)). (int i, STATE_FAILED) \<in># pool z \<longrightarrow> blocked (workers z ! i))"

text \<open>No step but declining one's own request makes a failed request.\<close>

lemma acts_no_failed:
  assumes "acts cfg s s'" "(ID (fst s), STATE_FAILED) \<in># view s'"
  shows "(ID (fst s), STATE_FAILED) \<in># view s"
  using assms by (auto simp: acts_def)

lemma decline_failed:
  assumes "linv {#} s" "MAXSTEAL cfg = 1" "decline_all_steal_requests rand cfg s = Some s'"
    "(ID (fst s), STATE_FAILED) \<in># view s'"
  shows "(ID (fst s), STATE_FAILED) \<in># view s \<or> sleeps cfg s'"
  using decline_all_ok [OF assms(1-3)] assms(4) by (auto simp: gives_up_def)

lemma send_failed:
  assumes "linv {#} s" "owns {#} s" "MAXSTEAL cfg = 1" "try_send_steal_request rand cfg True s = Some s'"
    "(ID (fst s), STATE_FAILED) \<in># view s'"
  shows "(ID (fst s), STATE_FAILED) \<in># view s"
proof -
  obtain w sh w' sh' where s: "s = (w, sh)" "s' = (w', sh')" by (cases s; cases s')
  show ?thesis using try_send_ok [OF assms(1-4) [unfolded s]] assms(5) s by auto
qed

lemma receive_failed:
  assumes "linv {#} s" "owns {#} s" "MAXSTEAL cfg = 1" "RECV_TASK rand cfg True s = Some (r, s')"
    "(ID (fst s), STATE_FAILED) \<in># view s'"
  shows "(ID (fst s), STATE_FAILED) \<in># view s"
proof -
  obtain w sh w' sh' where s: "s = (w, sh)" "s' = (w', sh')" by (cases s; cases s')
  show ?thesis using RECV_TASK_ok [OF assms(1-4) [unfolded s]] assms(5) s by auto
qed

lemma schedule_failed:
  assumes st: "schedule_step env cfg pc s = Some (pc', c, s')" and cfg: "MAXSTEAL cfg = 1"
    and l: "local_ok cfg X (Schedule pc # fs) s" and f: "(ID (fst s), STATE_FAILED) \<in># view s'"
  shows "(ID (fst s), STATE_FAILED) \<in># view s \<or> sleeps cfg s'"
proof -
  have i: "linv {#} s" "owns {#} s" using local_okD(1,2) [of cfg X "Schedule pc # fs" "fst s" "snd s"] l by simp_all
  consider "pc = Send_Request" | "pc = Receive" | "pc = Decline" | "pc \<noteq> Send_Request" "pc \<noteq> Receive" "pc \<noteq> Decline" by blast
  then show ?thesis
  proof cases
    case 1
    then show ?thesis using st send_failed [OF i cfg _ f] by (auto simp: bind_eq_Some_conv)
  next
    case 2
    then obtain r where "RECV_TASK (env_rand env) cfg True s = Some (r, s')"
      using st by (auto simp: bind_eq_Some_conv split: option.splits)
    then show ?thesis using receive_failed [OF i cfg _ f] by blast
  next
    case 3
    then show ?thesis using st f decline_failed [OF i(1) cfg _ f] by (auto simp: bind_eq_Some_conv split: if_splits)
  next
    case 4
    then have "\<not> waits (Schedule pc # fs)" by simp
    then show ?thesis using acts_no_failed [OF _ f] schedule_acts [OF st cfg local_busy(1) [OF l] 4] by blast
  qed
qed

lemma barrier_failed:
  assumes st: "barrier_step env cfg pc s = Some (pc', c, s')" and cfg: "MAXSTEAL cfg = 1"
    and l: "local_ok cfg X (Barrier pc # fs) s" and f: "(ID (fst s), STATE_FAILED) \<in># view s'"
  shows "(ID (fst s), STATE_FAILED) \<in># view s \<or> sleeps cfg s'"
proof -
  have i: "linv {#} s" "owns {#} s" using local_okD(1,2) [of cfg X "Barrier pc # fs" "fst s" "snd s"] l by simp_all
  consider "pc = Send_Request" | "pc = Receive" | "pc = Decline" | "pc \<noteq> Send_Request" "pc \<noteq> Receive" "pc \<noteq> Decline" by blast
  then show ?thesis
  proof cases
    case 1
    then show ?thesis using st send_failed [OF i cfg _ f] by (auto simp: bind_eq_Some_conv)
  next
    case 2
    then obtain r where "RECV_TASK (env_rand env) cfg True s = Some (r, s')"
      using st by (auto simp: bind_eq_Some_conv split: option.splits)
    then show ?thesis using receive_failed [OF i cfg _ f] by blast
  next
    case 3
    then show ?thesis using st decline_failed [OF i(1) cfg _ f] by (auto simp: bind_eq_Some_conv)
  next
    case 4
    then have "\<not> waits (Barrier pc # fs)" by simp
    then show ?thesis using acts_no_failed [OF _ f] barrier_acts [OF st cfg local_busy(1) [OF l] 4] by blast
  qed
qed

lemma worker_step_failed:
  assumes st: "worker_step env cfg (fs, s) (fs', s')" and cfg: "MAXSTEAL cfg = 1"
    and l: "local_ok cfg X fs s" and f: "(ID (fst s), STATE_FAILED) \<in># view s'"
  shows "(ID (fst s), STATE_FAILED) \<in># view s \<or> sleeps cfg s'"
  using st
proof cases
  case (Step_Schedule pc pc' c gs)
  then show ?thesis using schedule_failed [OF _ cfg _ f] l by blast
next
  case (Step_Barrier pc pc' c gs)
  then show ?thesis using barrier_failed [OF _ cfg _ f] l by blast
next
  case (Step_Force this f n pc pc' c gs)
  then have "ready s" using local_busy(1) [OF l] by simp
  then show ?thesis using acts_no_failed [OF force_acts [OF Step_Force(3) cfg] f] by blast
next
  case (Step_Force_Return g n r data this)
  then have "ready s" using local_busy(1) [OF l] by simp
  then show ?thesis using acts_no_failed [OF force_return_acts [OF Step_Force_Return(2)] f] by blast
next
  case (Step_Code task gs)
  then have "ready s" "user_step env cfg (fs, s) (fs', s')" using local_busy(1) [OF l] by simp_all
  then show ?thesis using acts_no_failed [OF user_acts [OF _ cfg] f] by blast
next
  case (Step_Main gs)
  then have "ready s" "user_step env cfg (fs, s) (fs', s')" using local_busy(1) [OF l] by simp_all
  then show ?thesis using acts_no_failed [OF user_acts [OF _ cfg] f] by blast
qed (use f in auto)

lemma sys_step_asleep:
  assumes st: "sys_step env cfg z z'" and cfg: "MAXSTEAL cfg = 1" "BACKOFF cfg = Wait_Cond" and inv: "sys_inv cfg z"
    and a: "failed_asleep z"
  shows "failed_asleep z'"
proof -
  note inv' = sys_step_inv [OF st cfg(1) inv]
  from st show ?thesis
  proof cases
    case (Run i fs w sh)
    have i: "i < nat (num_workers (mem z))" using Run sys_invD(2) [OF inv] by simp
    note loc = sys_local [OF inv i]
    note wl = worker_step_local [OF Run(4) cfg(1) loc]
    have m: "moves cfg (workers z ! i, mem z) (w, sh)" using wl Run(3) by simp
    have N: "num_workers (mem z') = num_workers (mem z)" using m Run(1) by (simp add: moves_def)
    have p: "pool z = view (workers z ! i, mem z) + others i z" by (rule pool_view) (rule Run(2))
    have p': "pool z' = view (w, sh) + others i z" unfolding Run(1) by (rule pool_update [OF Run(2)])
    show ?thesis unfolding failed_asleep_def N
    proof (intro allI impI)
      fix k assume k: "k < nat (num_workers (mem z))" and f: "(int k, STATE_FAILED) \<in># pool z'"
      show "blocked (workers z' ! k)"
      proof (cases "k = i")
        case True
        have id: "ID (workers z ! i) = int i" by (rule sys_invD(5) [OF inv i])
        have nf: "(int i, STATE_FAILED) \<notin># pool z" using a i Run(3) by (auto simp: failed_asleep_def)
        then have "(int i, STATE_FAILED) \<in># view (w, sh)" using f p p' True by auto
        then have "sleeps cfg (w, sh)" using worker_step_failed [OF Run(4) cfg(1) loc] nf p id by auto
        moreover have "ID w = int i" using m id by (simp add: moves_def)
        moreover have "chan_tasks sh ! i = [[]]" using failed_unanswered [OF inv', of i STATE_FAILED] f True i N Run(1) by simp
        ultimately have "blocked w" using cfg(2) by (simp add: sleeps_def peek_def)
        then show ?thesis using True Run(1,2) by simp
      next
        case False
        have "int k \<noteq> ID (fst (workers z ! i, mem z))" using False sys_invD(5) [OF inv i] by simp
        from moves_others(2) [OF m this, of STATE_FAILED "others i z"] f have "(int k, STATE_FAILED) \<in># pool z" unfolding p p' by simp
        then show ?thesis using a k False Run(1) by (simp add: failed_asleep_def)
      qed
    qed
  next
    case (Wake i)
    have i: "i < nat (num_workers (mem z))" using Wake sys_invD(2) [OF inv] by simp
    have "(int i, STATE_FAILED) \<notin># pool z" using failed_unanswered [OF inv i] Wake(5) by (auto simp: peek_def)
    moreover have "map held ((workers z)[i := (workers z ! i)\<lparr>blocked := False\<rparr>]) = map held (workers z)"
      using Wake(2) by (simp add: map_update list_update_same_conv)
    then have "pool z' = pool z" using Wake(1) by (simp add: pool_def)
    ultimately show ?thesis using a Wake(1,2) by (auto simp: failed_asleep_def nth_list_update)
  qed
qed


section \<open>Nested subtrees\<close>

lemma level_div: "c \<in> level m i d \<longleftrightarrow> (c + 1) div 2 ^ d = i + 1 \<and> c \<le> m"
proof -
  have "2 ^ d * (i + 1) \<le> c + 1 \<and> c + 1 < 2 ^ d * (i + 2) \<longleftrightarrow> (c + 1) div 2 ^ d = i + 1"
  proof
    assume "2 ^ d * (i + 1) \<le> c + 1 \<and> c + 1 < 2 ^ d * (i + 2)"
    then show "(c + 1) div 2 ^ d = i + 1"
      by (intro int_div_pos_eq [of _ _ _ "c + 1 - 2 ^ d * (i + 1)"]) (auto simp: algebra_simps)
  next
    assume q: "(c + 1) div 2 ^ d = i + 1"
    obtain r where r: "r = (c + 1) mod 2 ^ d" by simp
    have "c + 1 = 2 ^ d * (i + 1) + r" unfolding q [symmetric] r by simp
    moreover have "0 \<le> r" "r < 2 ^ d" unfolding r by simp_all
    moreover have "2 ^ d * (i + 2) = 2 ^ d * (i + 1) + 2 ^ d" by (simp add: algebra_simps)
    ultimately show "2 ^ d * (i + 1) \<le> c + 1 \<and> c + 1 < 2 ^ d * (i + 2)" by linarith
  qed
  then show ?thesis by (auto simp: level_def)
qed

lemma div_pow: "(x :: int) div 2 ^ (d + e) = x div 2 ^ d div 2 ^ e"
  by (simp add: power_add zdiv_zmult2_eq)

lemma subtree_nested:
  assumes "c \<in> subtree m a" "c \<in> subtree m b" "0 \<le> a" "a \<le> b"
  shows "b \<in> subtree m a"
proof -
  obtain d e where c: "(c + 1) div 2 ^ d = a + 1" "(c + 1) div 2 ^ e = b + 1" "c \<le> m"
    using assms(1,2) by (auto simp: subtree_def level_div)
  have bm: "b \<le> m" using subtree_ge [of b c m] assms by linarith
  show ?thesis
  proof (cases "e \<le> d")
    case True
    then have "(b + 1) div 2 ^ (d - e) = a + 1" using c div_pow [of "c + 1" e "d - e"] by simp
    then show ?thesis using bm by (auto simp: subtree_def level_div)
  next
    case False
    then have "b + 1 = (a + 1) div 2 ^ (e - d)" using c div_pow [of "c + 1" d "e - d"] by simp
    moreover have "(a + 1) div 2 ^ (e - d) \<le> (a + 1) div 2" 
    proof -
      have "(2 :: int) ^ 1 \<le> 2 ^ (e - d)" using False by (intro power_increasing) auto
      then show ?thesis using assms(3) by (intro zdiv_mono2) auto
    qed
    moreover have "(a + 1) div 2 < a + 1" using assms(3) by simp
    ultimately show ?thesis using assms(4) by linarith
  qed
qed

lemma subtree_parent:
  assumes "b \<in> subtree m a" "b \<noteq> a" "b = 2 * i + 1 \<or> b = 2 * i + 2" "0 \<le> i"
  shows "i \<in> subtree m a"
proof -
  obtain d where d: "(b + 1) div 2 ^ d = a + 1" "b \<le> m" using assms(1) by (auto simp: subtree_def level_div)
  have "d \<noteq> 0" using d assms(2) by (cases d) auto
  then obtain e where e: "d = 1 + e" by (cases d) auto
  have "(b + 1) div 2 = i + 1" using assms(3) by presburger
  then have "(i + 1) div 2 ^ e = a + 1" using d e div_pow [of "b + 1" 1 e] by simp
  then show ?thesis using d(2) assms(3,4) by (auto simp: subtree_def level_div)
qed

section \<open>One receiver at a time\<close>

text \<open>
  The request channels a worker may receive from: its own, and those of a subtree whose failed request is
  under way, as \<^verbatim>\<open>RECV_REQ\<close> goes through them.
\<close>

definition serves :: "sys \<Rightarrow> nat \<Rightarrow> int \<Rightarrow> bool" where
  "serves z i c \<longleftrightarrow> c = int i \<or>
     (\<exists>k. (k = 2 * int i + 1 \<or> k = 2 * int i + 2) \<and> (k, STATE_FAILED) \<in># pool z \<and> c \<in> subtree (num_workers (mem z) - 1) k)"

lemma served_once:
  assumes inv: "sys_inv cfg z" and a: "failed_asleep z"
    and i: "i < nat (num_workers (mem z))" "\<not> blocked (workers z ! i)"
    and j: "j < nat (num_workers (mem z))" "\<not> blocked (workers z ! j)"
    and s: "serves z i c" "serves z j c"
  shows "i = j"
proof (rule ccontr)
  let ?m = "num_workers (mem z) - 1"
  assume ij: "i \<noteq> j"
  have awake: "int x \<notin> subtree ?m k"
    if "(k, STATE_FAILED) \<in># pool z" "0 \<le> k" "x < nat (num_workers (mem z))" "\<not> blocked (workers z ! x)" for x k
  proof
    assume s: "int x \<in> subtree ?m k"
    then have "k < num_workers (mem z)" using subtree_ge [OF that(2) s] that(3) by linarith
    from failed_below [OF inv s that(2) this that(1)] show False using a that(3,4) by (simp add: failed_asleep_def)
  qed
  have apart: False if x: "x < nat (num_workers (mem z))" "\<not> blocked (workers z ! x)" "x \<noteq> y"
      "k = 2 * int x + 1 \<or> k = 2 * int x + 2" "k' = 2 * int y + 1 \<or> k' = 2 * int y + 2"
      "(k', STATE_FAILED) \<in># pool z" "c \<in> subtree ?m k" "c \<in> subtree ?m k'" "k' \<le> k" for x y k k'
  proof -
    have "k \<in> subtree ?m k'" using subtree_nested [OF x(8,7) _ x(9)] x(5) by linarith
    moreover have "k \<noteq> k'" using x(3-5) by presburger
    ultimately have "int x \<in> subtree ?m k'" using subtree_parent x(4) by simp
    moreover have "0 \<le> k'" using x(5) by linarith
    ultimately show False using awake [OF x(6) _ x(1,2)] by simp
  qed
  have own: False if "c = int x" "(k, STATE_FAILED) \<in># pool z" "k = 2 * int y + 1 \<or> k = 2 * int y + 2"
      "c \<in> subtree ?m k" "x < nat (num_workers (mem z))" "\<not> blocked (workers z ! x)" for x y k
    using awake [OF that(2) _ that(5,6)] that(1,3,4) by fastforce
  consider (same) "c = int i" "c = int j"
    | (left) k where "c = int i" "k = 2 * int j + 1 \<or> k = 2 * int j + 2" "(k, STATE_FAILED) \<in># pool z" "c \<in> subtree ?m k"
    | (right) k where "c = int j" "k = 2 * int i + 1 \<or> k = 2 * int i + 2" "(k, STATE_FAILED) \<in># pool z" "c \<in> subtree ?m k"
    | (both) k k' where "k = 2 * int i + 1 \<or> k = 2 * int i + 2" "(k, STATE_FAILED) \<in># pool z" "c \<in> subtree ?m k"
        "k' = 2 * int j + 1 \<or> k' = 2 * int j + 2" "(k', STATE_FAILED) \<in># pool z" "c \<in> subtree ?m k'"
    using s unfolding serves_def by blast
  then show False
  proof cases
    case same
    then show ?thesis using ij by simp
  next
    case left
    show ?thesis by (rule own [OF left(1,3,2,4) i])
  next
    case right
    show ?thesis by (rule own [OF right(1,3,2,4) j])
  next
    case both
    show ?thesis
    proof (cases "k' \<le> k")
      case True
      show ?thesis by (rule apart [OF i ij both(1,4,5,3,6) True])
    next
      case False
      then have "k \<le> k'" by simp
      show ?thesis by (rule apart [OF j ij [symmetric] both(4,1,2,6,3) \<open>k \<le> k'\<close>])
    qed
  qed
qed

lemma RECV_REQ_changes:
  assumes inv: "linv X (w, sh)" and recv: "RECV_REQ cfg (w, sh) = Some (r, w', sh')"
    and c: "0 \<le> c" "c < num_workers sh" "chan_requests sh' ! nat c \<noteq> chan_requests sh ! nat c"
  shows "c = ID w \<or>
    (\<exists>k. (k = 2 * ID w + 1 \<and> left_subtree_is_idle (tree w') \<or> k = 2 * ID w + 2 \<and> right_subtree_is_idle (tree w')) \<and>
      k < num_workers sh \<and> c \<in> subtree (num_workers sh - 1) k)"
proof (rule ccontr)
  note i = linvD [OF inv] and ch = chans_okD [OF linvD(1) [OF inv]]
  let ?N = "num_workers sh" and ?q = "chan_requests sh ! nat (ID w)"
  assume n: "\<not> ?thesis"
  have t: "tree_ok ?N w" using i(2) by (simp add: held_ok_def)
  note l = tree_ok_links [OF t]
  have idl: "nat (ID w) < length (chan_requests sh)" using l(4,5) ch(2) by linarith
  obtain r1 q1 w1 where own: "recv_own ?q w = Some (r1, q1, w1)"
    using recv idl by (auto simp: RECV_REQ_def Let_def split: Option.bind_splits)
  have g: "\<forall>x \<in> set ?q. good_req ?N x" using ch(6) [OF idl] by blast
  have idw: "ID w1 = ID w" using recv_own_ok [OF i(2) g own] holds_fields by blast
  define cs where "cs = (chan_requests sh)[nat (ID w) := q1]"
  have cs: "cs ! nat c = chan_requests sh ! nat c" "nat ?N \<le> length cs"
    using n c(1) l(4) ch(2) by (auto simp: cs_def nth_list_update)
  have id: "worker_id (?N - 1) (ID w1)" using l(4,5) idw by (simp add: worker_id_def)
  have kid: "chans' ! nat c = chans ! nat c \<and> nat ?N \<le> length chans'"
    if a: "RECV_REQ_lvl ?N chans (if k \<le> ?N - 1 then k else - 1) 0 = Some (r, chans')" "nat ?N \<le> length chans" "0 \<le> k"
      "c \<notin> subtree (?N - 1) k \<or> \<not> k < ?N" for k r chans chans'
  proof -
    consider "chans' = chans"
      | j q where "k < ?N" "j \<in> subtree (?N - 1) k" "chans' = chans[nat j := q]"
      using RECV_REQ_lvl_below [OF a(1,2) ch(1)] a(3) by (cases "k < ?N") auto
    then show ?thesis
    proof cases
      case 2
      have "nat j \<noteq> nat c" using 2(1,2) subtree_ge [OF a(3) 2(2)] a(3,4) c(1) eq_nat_nat_iff [of j c] by auto
      then show ?thesis using 2(3) a(2) by simp
    qed (use a(2) in simp)
  qed
  have rest: "(if BACKOFF cfg = No_Backoff then Some (r1, w1, sh\<lparr>chan_requests := cs\<rparr>) else do {
      (r, sh) \<leftarrow> (if r1 = None \<and> left_subtree_is_idle (tree w1) then do {
          l \<leftarrow> left_child (ID w1) (?N - 1);
          (r, chans) \<leftarrow> RECV_REQ_lvl ?N cs l 0;
          Some (r, sh\<lparr>chan_requests := cs, chan_requests := chans\<rparr>)
        } else Some (r1, sh\<lparr>chan_requests := cs\<rparr>));
      (r, sh) \<leftarrow> (if r = None \<and> right_subtree_is_idle (tree w1) then do {
          l \<leftarrow> right_child (ID w1) (?N - 1);
          (r, chans) \<leftarrow> RECV_REQ_lvl ?N (chan_requests sh) l 0;
          Some (r, sh\<lparr>chan_requests := chans\<rparr>)
        } else Some (r, sh));
      Some (r, w1, sh) }) = Some (r, w', sh')"
  proof -
    have "read_at (chan_requests sh) (nat (ID w)) = Some ?q" using idl by (simp add: read_at_def)
    moreover have "assertion (r1 \<noteq> None \<and> req_state (the r1) \<noteq> STATE_FAILED \<or> r1 = None) = Some ()"
      using recv_own_ok [OF i(2) g own] by (cases r1) (auto simp: assertion_def)
    ultimately show ?thesis
      unfolding recv [symmetric] cs_def by (simp add: RECV_REQ_def own idw Let_def cong: if_cong)
  qed
  then have w': "w' = w1" by (auto simp: bind_eq_Some_conv split: if_splits)
  have lft: "c \<notin> subtree (?N - 1) (2 * ID w + 1) \<or> \<not> 2 * ID w + 1 < ?N" if "left_subtree_is_idle (tree w1)"
    using n that w' by auto
  have rgt: "c \<notin> subtree (?N - 1) (2 * ID w + 2) \<or> \<not> 2 * ID w + 2 < ?N" if "right_subtree_is_idle (tree w1)"
    using n that w' by auto
  show False
  proof (cases "BACKOFF cfg = No_Backoff")
    case True
    then show False using rest c(3) cs by auto
  next
    case False
    obtain r2 sh2 where two: "(if r1 = None \<and> left_subtree_is_idle (tree w1) then do {
          l \<leftarrow> left_child (ID w1) (?N - 1);
          (r, chans) \<leftarrow> RECV_REQ_lvl ?N cs l 0;
          Some (r, sh\<lparr>chan_requests := cs, chan_requests := chans\<rparr>)
        } else Some (r1, sh\<lparr>chan_requests := cs\<rparr>)) = Some (r2, sh2)"
      "(if r2 = None \<and> right_subtree_is_idle (tree w1) then do {
          l \<leftarrow> right_child (ID w1) (?N - 1);
          (r, chans) \<leftarrow> RECV_REQ_lvl ?N (chan_requests sh2) l 0;
          Some (r, sh2\<lparr>chan_requests := chans\<rparr>)
        } else Some (r2, sh2)) = Some (r, sh')"
      using rest False by (auto simp: bind_eq_Some_conv)
    have "chan_requests sh2 ! nat c = chan_requests sh ! nat c \<and> nat ?N \<le> length (chan_requests sh2)"
      using two(1) kid [of cs "2 * ID w + 1" r2] cs lft l(4) left_child_eq [OF id] idw
      by (auto simp: bind_eq_Some_conv split: if_splits)
    then have "chan_requests sh' ! nat c = chan_requests sh ! nat c"
      using two(2) kid [of "chan_requests sh2" "2 * ID w + 2" r] rgt l(4) right_child_eq [OF id] idw
      by (auto simp: bind_eq_Some_conv split: if_splits)
    then show False using c(3) by simp
  qed
qed

lemma RECV_REQ_serves:
  assumes inv: "sys_inv cfg z" and i: "i < nat (num_workers (mem z))"
    and recv: "RECV_REQ cfg (workers z ! i, mem z) = Some (r, w', sh')"
    and c: "0 \<le> c" "c < num_workers (mem z)" "chan_requests sh' ! nat c \<noteq> chan_requests (mem z) ! nat c"
  shows "serves z i c"
proof -
  note id = sys_invD(5) [OF inv i]
  have l: "linv {#} (workers z ! i, mem z)" using local_okD(1) [OF sys_local [OF inv i]] by simp
  note ok = RECV_REQ_ok [OF l recv]
  obtain chans where sh: "sh' = (mem z)\<lparr>chan_requests := chans\<rparr>" using ok by blast
  have h: "held_ok (num_workers (mem z)) w'" using ok sh by (auto simp: linv_def)
  have idw: "ID w' = int i" using ok holds_fields id by metis
  have "tree_ok (num_workers (mem z)) w'" using h by (simp add: held_ok_def)
  note links = tree_ok_links [OF this]
  have failed: "(k, STATE_FAILED) \<in># pool z" if a: "k \<in> req_ID ` set (held w')" for k
  proof -
    obtain x where x: "x \<in> set (held w')" "k = req_ID x" using a by auto
    have "tok x = (k, STATE_FAILED)" using x h by (auto simp: held_ok_def tok_def)
    then have "(k, STATE_FAILED) \<in># toks (held w')" using x(1) unfolding in_toks by metis
    then have "(k, STATE_FAILED) \<in># view (w', sh') + hand r" by (simp add: view_def)
    then show ?thesis using ok pool_view [of i z] i sys_invD(2) [OF inv] by simp
  qed
  from RECV_REQ_changes [OF l recv c] show ?thesis
  proof
    assume "\<exists>k. (k = 2 * ID (workers z ! i) + 1 \<and> left_subtree_is_idle (tree w') \<or>
        k = 2 * ID (workers z ! i) + 2 \<and> right_subtree_is_idle (tree w')) \<and>
      k < num_workers (mem z) \<and> c \<in> subtree (num_workers (mem z) - 1) k"
    then obtain k where k: "k = 2 * int i + 1 \<and> left_subtree_is_idle (tree w') \<or> k = 2 * int i + 2 \<and> right_subtree_is_idle (tree w')"
      "k < num_workers (mem z)" "c \<in> subtree (num_workers (mem z) - 1) k" using id by auto
    have "left_subtree_is_idle (tree w') \<longleftrightarrow> tree_left_child (tree w') = - 1 \<or> tree_left_child (tree w') \<in> req_ID ` set (held w')"
      "right_subtree_is_idle (tree w') \<longleftrightarrow> tree_right_child (tree w') = - 1 \<or> tree_right_child (tree w') \<in> req_ID ` set (held w')"
      using h unfolding held_ok_def by blast+
    then have "k \<in> req_ID ` set (held w')" using k(1,2) links(1,2) idw by auto
    then show ?thesis using failed k by (auto simp: serves_def)
  qed (simp add: serves_def id)
qed

lemma reachable_asleep:
  "reachable env cfg z \<Longrightarrow> MAXSTEAL cfg = 1 \<Longrightarrow> BACKOFF cfg = Wait_Cond \<Longrightarrow> failed_asleep z"
proof (induction rule: reachable.induct)
  case (Start envval n ms z)
  note inv = tasking_init_inv [OF Start(1,2)]
  obtain N where N: "fresh N (mem z)" "list_all2 (newborn N) [0..N - 1] (workers z)"
    using tasking_init_workers [OF Start(1,2)] by blast
  have "requested (workers z ! i) = 0" if "i < nat (num_workers (mem z))" for i
    using list_all2_nthD [OF N(2), of i] that N(1) by (simp add: newborn_def fresh_def)
  then have "int (Tokens.occupancy (pool z) (answers (mem z)) (int i)) = 0" if "i < nat (num_workers (mem z))" for i
    using sys_invD(7) [OF inv that] that by simp
  then have "(int i, STATE_FAILED) \<notin># pool z" if "i < nat (num_workers (mem z))" for i
    using no_tokens that by blast
  then show ?case by (simp add: failed_asleep_def)
qed (auto intro: sys_step_asleep reachable_inv)

end
