(* ===== verification/Ownership.thy ===== *)
theory Ownership
  imports Activations
begin

text \<open>
  Where the task objects are. Every task object belongs to one place at a time: a deque, a free list, the
  message in a task channel, or the hands of a worker, which runs it or has just created it. The
  operations of the runtime move objects between these places and neither lose nor duplicate
  one. The theory is about the view of one worker; \<^theory_text>\<open>Conservation\<close> puts the views together.
\<close>

section \<open>Places\<close>

text \<open>A task object that is linked to no other, and the tasks that a message in a task channel carries.\<close>

definition lone :: "task_heap \<Rightarrow> addr \<Rightarrow> bool" where
  "lone h x \<longleftrightarrow> dll h NULL [x] NULL"

definition in_chan :: "task_heap \<Rightarrow> addr list list \<Rightarrow> addr list \<Rightarrow> bool" where
  "in_chan h c us \<longleftrightarrow> dll h NULL us NULL \<and> c = [if us = [] then [] else [hd us]]"

text \<open>
  The places a worker sees: its deque, its free list, the task channels of all workers, the tasks in its
  hands, the tasks it has received and not yet accepted, and the root task, if it is the master.
\<close>

record own =
  g_dq :: "addr list"
  g_free :: "addr list"
  g_chan :: "addr list list"
  g_hand :: "addr list"
  g_acc :: "addr list"
  g_root :: "addr list"

definition besides :: "own \<Rightarrow> addr list" where
  "besides g = concat (g_chan g) @ g_hand g @ g_acc g @ g_root g"

definition places :: "own \<Rightarrow> deque \<Rightarrow> addr list" where
  "places g dq = g_dq g @ dq_tail dq # g_free g @ besides g"

definition cells :: "own \<Rightarrow> wst \<Rightarrow> addr list" where
  "cells g s = places g (deque (fst s)) @ mallocs (snd s)"

definition outside :: "task_heap \<Rightarrow> own \<Rightarrow> addr list list list \<Rightarrow> bool" where
  "outside h g chans \<longleftrightarrow> (\<forall>i < length (g_chan g). in_chan h (chans ! i) (g_chan g ! i)) \<and>
     (\<forall>x \<in> set (g_hand g). lone h x) \<and> dll h NULL (g_acc g) NULL \<and>
     (\<forall>r \<in> set (g_root g). \<exists>t. deref h r = Some t \<and> \<not> t_splittable t)"

definition well_placed :: "task_heap \<Rightarrow> own \<Rightarrow> wst \<Rightarrow> bool" where
  "well_placed h g s \<longleftrightarrow> deque_rel h (deque (fst s)) (g_dq g) (g_free g) \<and> outside h g (chan_tasks (snd s))"

text \<open>
  The places are disjoint, and they are among the addresses \<open>B\<close> that no other worker has. There are fewer
  than $2^{32}$ objects, so that no counter of a deque overflows.
\<close>

definition owned :: "addr set \<Rightarrow> own \<Rightarrow> wst \<Rightarrow> bool" where
  "owned B g s \<longleftrightarrow> well_placed (task_mem (snd s)) g s \<and> length (g_chan g) = nat (num_workers (snd s)) \<and>
     (current_task (fst s) = NULL \<or> current_task (fst s) \<in> set (g_hand g @ g_root g)) \<and>
     distinct (cells g s) \<and> set (cells g s) \<subseteq> B \<and> NULL \<notin> B \<and> finite B \<and> card B < 2 ^ 32"

text \<open>The tasks that wait to be run.\<close>

definition queued :: "own \<Rightarrow> addr multiset" where
  "queued g = mset (g_dq g) + mset (concat (g_chan g)) + mset (g_acc g)"

lemma ownedD:
  assumes "owned B g (w, sh)"
  shows "deque_rel (task_mem sh) (deque w) (g_dq g) (g_free g)"
    "\<And>i. i < nat (num_workers sh) \<Longrightarrow> in_chan (task_mem sh) (chan_tasks sh ! i) (g_chan g ! i)"
    "\<And>x. x \<in> set (g_hand g) \<Longrightarrow> lone (task_mem sh) x" "dll (task_mem sh) NULL (g_acc g) NULL"
    "\<And>r. r \<in> set (g_root g) \<Longrightarrow> \<exists>t. deref (task_mem sh) r = Some t \<and> \<not> t_splittable t"
    "length (g_chan g) = nat (num_workers sh)"
    "current_task w = NULL \<or> current_task w \<in> set (g_hand g @ g_root g)"
    "distinct (cells g (w, sh))" "set (cells g (w, sh)) \<subseteq> B" "NULL \<notin> B" "finite B" "card B < 2 ^ 32"
  using assms by (auto simp: owned_def well_placed_def outside_def)

lemma lone_frame: "h' x = h x \<Longrightarrow> lone h' x \<longleftrightarrow> lone h x"
  by (simp add: lone_def deref_def)

lemma in_chan_frame: "\<forall>a \<in> set us. h' a = h a \<Longrightarrow> in_chan h' c us \<longleftrightarrow> in_chan h c us"
  unfolding in_chan_def by (metis dll_cong)

text \<open>What is written elsewhere does not matter.\<close>

lemma outside_frame:
  assumes "outside h g c" "\<forall>a \<in> set (besides g). h' a = h a"
  shows "outside h' g c"
  unfolding outside_def
proof (intro conjI allI ballI impI)
  have e: "\<forall>a \<in> set (concat (g_chan g)). h' a = h a" "\<forall>a \<in> set (g_hand g). h' a = h a" "\<forall>a \<in> set (g_acc g). h' a = h a"
    "\<forall>a \<in> set (g_root g). h' a = h a" using assms(2) by (simp_all add: besides_def)
  note p = assms(1) [unfolded outside_def]
  show "in_chan h' (c ! i) (g_chan g ! i)" if "i < length (g_chan g)" for i
  proof -
    have "set (g_chan g ! i) \<subseteq> set (concat (g_chan g))" using nth_mem [OF that] by auto
    then have "\<forall>a \<in> set (g_chan g ! i). h' a = h a" using e(1) by blast
    then show ?thesis using p that in_chan_frame [of "g_chan g ! i" h' h] by simp
  qed
  show "dll h' NULL (g_acc g) NULL" using p dll_cong [OF e(3)] by simp
  show "lone h' x" if "x \<in> set (g_hand g)" for x using p e(2) that lone_frame [of h' x h] by simp
  show "\<exists>t. deref h' r = Some t \<and> \<not> t_splittable t" if "r \<in> set (g_root g)" for r
  proof -
    have "deref h' r = deref h r" using e(4) that by (simp add: deref_def)
    then show ?thesis using p that by simp
  qed
qed

lemma well_placed_frame:
  assumes "well_placed h g s" "\<forall>a \<in> set (places g (deque (fst s))). h' a = h a"
  shows "well_placed h' g s"
  unfolding well_placed_def
proof
  show "deque_rel h' (deque (fst s)) (g_dq g) (g_free g)"
    by (rule deque_rel_frame [of h]) (use assms in \<open>auto simp: well_placed_def nodes_def places_def\<close>)
  show "outside h' g (chan_tasks (snd s))"
    by (rule outside_frame [of h]) (use assms in \<open>auto simp: well_placed_def places_def\<close>)
qed

lemma owned_distinct:
  assumes "owned B g (w, sh)"
  shows "nodes (deque w) (g_dq g) (g_free g) \<inter> set (concat (g_chan g) @ g_hand g @ g_acc g @ g_root g @ mallocs sh) = {}"
    "distinct (g_dq g)" "distinct (g_acc g)" "distinct (g_hand g)"
    "set (g_hand g) \<inter> set (concat (g_chan g) @ g_acc g @ g_root g @ mallocs sh) = {}"
    "nodes (deque w) (g_dq g) (g_free g) \<subseteq> B"
  using ownedD(8,9) [OF assms] by (auto simp: cells_def places_def besides_def nodes_def)

text \<open>Fewer than $2^{32}$ objects.\<close>

lemma few_objects:
  assumes "owned B g s" "distinct xs" "set xs \<subseteq> B"
  shows "length xs < 2 ^ 32"
proof -
  have "length xs = card (set xs)" using assms(2) by (simp add: distinct_card)
  also have "\<dots> \<le> card B" by (rule card_mono) (use assms in \<open>auto simp: owned_def\<close>)
  finally show ?thesis using assms(1) by (simp add: owned_def)
qed

section \<open>Conservation\<close>

text \<open>
  An operation that moves tasks between places and creates the tasks \<open>D\<close> by splitting loops, as many as
  the counter of the worker says. It leaves alone what the worker has in its hands, and the
  tasks in \<open>T\<close> are among those.
\<close>

definition moved :: "addr set \<Rightarrow> own \<Rightarrow> wst \<Rightarrow> own \<Rightarrow> wst \<Rightarrow> bool" where
  "moved B g s g' s' \<longleftrightarrow> owned B g' s' \<and> (\<forall>a. a \<notin> B \<longrightarrow> task_mem (snd s') a = task_mem (snd s) a) \<and>
     g_root g' = g_root g \<and> num_workers (snd s') = num_workers (snd s)"

definition conserves :: "addr set \<Rightarrow> wst \<Rightarrow> wst \<Rightarrow> bool" where
  "conserves T s s' \<longleftrightarrow> (\<forall>B g. owned B g s \<and> g_acc g = [] \<and> T \<subseteq> set (g_hand g) \<longrightarrow>
     (\<exists>g' D. moved B g s g' s' \<and> g_hand g' = g_hand g \<and> g_acc g' = [] \<and> queued g' = queued g + D \<and>
       tasks_split (fst s') = tasks_split (fst s) + of_nat (size D) \<and> current_task (fst s') = current_task (fst s)))"

lemma moved_refl: "owned B g s \<Longrightarrow> moved B g s g s"
  by (simp add: moved_def)

lemma moved_owned: "moved B g s g' s' \<Longrightarrow> owned B g' s'"
  by (simp add: moved_def)

lemma moved_trans: "moved B g s g' s' \<Longrightarrow> moved B g' s' g'' s'' \<Longrightarrow> moved B g s g'' s''"
  by (simp add: moved_def)

lemma conserves_trans:
  assumes "conserves T s s'" "conserves T s' s''"
  shows "conserves T s s''"
  unfolding conserves_def
proof (intro allI impI)
  fix B g assume g: "owned B g s \<and> g_acc g = [] \<and> T \<subseteq> set (g_hand g)"
  obtain g' D where a: "moved B g s g' s'" "g_hand g' = g_hand g" "g_acc g' = []" "queued g' = queued g + D"
    "tasks_split (fst s') = tasks_split (fst s) + of_nat (size D)" "current_task (fst s') = current_task (fst s)"
    using assms(1) g unfolding conserves_def by blast
  have "owned B g' s'" using a(1) by (simp add: moved_def)
  then obtain g'' D' where b: "moved B g' s' g'' s''" "g_hand g'' = g_hand g'" "g_acc g'' = []" "queued g'' = queued g' + D'"
    "tasks_split (fst s'') = tasks_split (fst s') + of_nat (size D')" "current_task (fst s'') = current_task (fst s')"
    using assms(2) g a(2,3) unfolding conserves_def by metis
  show "\<exists>g'' D. moved B g s g'' s'' \<and> g_hand g'' = g_hand g \<and> g_acc g'' = [] \<and> queued g'' = queued g + D \<and>
      tasks_split (fst s'') = tasks_split (fst s) + of_nat (size D) \<and> current_task (fst s'') = current_task (fst s)"
    using moved_trans [OF a(1) b(1)] a b by (intro exI [of _ g''] exI [of _ "D + D'"]) simp
qed

text \<open>Operations that have nothing to do with tasks.\<close>

definition aside :: "wst \<Rightarrow> wst \<Rightarrow> bool" where
  "aside s s' \<longleftrightarrow> deque (fst s') = deque (fst s) \<and> current_task (fst s') = current_task (fst s) \<and>
     tasks_split (fst s') = tasks_split (fst s) \<and> num_workers (snd s') = num_workers (snd s) \<and>
     chan_tasks (snd s') = chan_tasks (snd s) \<and> task_mem (snd s') = task_mem (snd s) \<and>
     (\<exists>ms. mallocs (snd s) = ms @ mallocs (snd s'))"

lemma aside_refl [simp]: "aside s s"
  by (simp add: aside_def)

lemma aside_trans: "aside s s' \<Longrightarrow> aside s' s'' \<Longrightarrow> aside s s''"
  by (auto simp: aside_def)

lemma well_placed_cong:
  assumes "deque (fst s') = deque (fst s)" "chan_tasks (snd s') = chan_tasks (snd s)"
  shows "well_placed h g s' \<longleftrightarrow> well_placed h g s"
  using assms by (simp add: well_placed_def)

lemma aside_moved:
  assumes "owned B g s" "aside s s'"
  shows "moved B g s g s'"
proof -
  obtain ms where m: "mallocs (snd s) = ms @ mallocs (snd s')" using assms(2) by (auto simp: aside_def)
  have e: "cells g s = places g (deque (fst s)) @ ms @ mallocs (snd s')"
    "cells g s' = places g (deque (fst s)) @ mallocs (snd s')"
    using assms(2) m by (simp_all add: cells_def aside_def)
  have "well_placed h g s' \<longleftrightarrow> well_placed h g s" for h
    using assms(2) by (intro well_placed_cong) (simp_all add: aside_def)
  moreover have "distinct (cells g s')" "set (cells g s') \<subseteq> B" using assms(1) unfolding e owned_def by auto
  ultimately show ?thesis using assms by (simp add: moved_def owned_def aside_def)
qed

lemma aside_conserves:
  assumes "aside s s'" shows "conserves T s s'"
  unfolding conserves_def
proof (intro allI impI)
  fix B g assume "owned B g s \<and> g_acc g = [] \<and> T \<subseteq> set (g_hand g)"
  then show "\<exists>g' D. moved B g s g' s' \<and> g_hand g' = g_hand g \<and> g_acc g' = [] \<and> queued g' = queued g + D \<and>
       tasks_split (fst s') = tasks_split (fst s) + of_nat (size D) \<and> current_task (fst s') = current_task (fst s)"
    using aside_moved [OF _ assms, of B g] assms
    by (intro exI [of _ g] exI [of _ "{#}"]) (simp add: aside_def)
qed

lemma conserves_refl: "conserves T s s"
  by (simp add: aside_conserves)

lemma conserves_present:
  assumes "conserves T s s'" "\<And>B g. owned B g s \<Longrightarrow> T \<subseteq> set (g_hand g)"
  shows "conserves U s s'"
  using assms unfolding conserves_def by blast

lemma conserves_mono: "conserves T s s' \<Longrightarrow> T \<subseteq> T' \<Longrightarrow> conserves T' s s'"
  unfolding conserves_def by (meson order_trans)


section \<open>Moving tasks\<close>

lemma distinct_sub:
  assumes "mset ys \<subseteq># mset xs" "distinct xs"
  shows "distinct ys" "set ys \<subseteq> set xs"
proof -
  show "distinct ys"
    unfolding distinct_count_atmost_1
  proof
    fix a
    have "count (mset ys) a \<le> count (mset xs) a" using assms(1) by (rule mset_subset_eq_count)
    also have "\<dots> \<le> 1" using assms(2) by (simp add: distinct_count_atmost_1)
    finally show "count (mset ys) a = (if a \<in> set ys then 1 else 0)"
      by (cases "a \<in> set ys") (auto simp: le_Suc_eq count_eq_zero_iff)
  qed
  show "set ys \<subseteq> set xs" using set_mset_mono [OF assms(1)] by simp
qed

lemma movedI:
  assumes "owned B g s" "well_placed (task_mem (snd s')) g' s'" "mset (cells g' s') \<subseteq># mset (cells g s)"
    "length (g_chan g') = length (g_chan g)" "num_workers (snd s') = num_workers (snd s)" "g_root g' = g_root g"
    "current_task (fst s') = NULL \<or> current_task (fst s') \<in> set (g_hand g' @ g_root g')"
    "\<And>a. a \<notin> set (cells g s) \<Longrightarrow> task_mem (snd s') a = task_mem (snd s) a"
  shows "moved B g s g' s'"
proof -
  have o: "distinct (cells g s)" "set (cells g s) \<subseteq> B" using assms(1) by (simp_all add: owned_def)
  note d = distinct_sub [OF assms(3) o(1)]
  have "owned B g' s'" using assms d o by (auto simp: owned_def)
  moreover have "task_mem (snd s') a = task_mem (snd s) a" if "a \<notin> B" for a using assms(8) [of a] o(2) that by blast
  ultimately show ?thesis using assms(5,6) by (simp add: moved_def)
qed

lemma mset_concat_update:
  "i < length xs \<Longrightarrow> mset (concat (xs[i := u])) + mset (xs ! i) = mset (concat xs) + mset u"
proof (induction xs arbitrary: i)
  case (Cons x xs)
  then show ?case by (cases i) (auto simp: ac_simps)
qed simp

text \<open>The contents of tasks in hand may change.\<close>

lemma write_moved:
  assumes o: "owned B g (w, sh)" and h: "\<And>a. a \<notin> set (g_hand g @ g_root g) \<Longrightarrow> h' a = task_mem sh a"
    "\<And>x. x \<in> set (g_hand g) \<Longrightarrow> lone h' x" "\<And>r. r \<in> set (g_root g) \<Longrightarrow> \<exists>t. deref h' r = Some t \<and> \<not> t_splittable t"
  shows "moved B g (w, sh) g (w, sh\<lparr>task_mem := h'\<rparr>)"
proof (rule movedI [OF o])
  let ?g = "g\<lparr>g_hand := [], g_root := []\<rparr>"
  have "well_placed (task_mem sh) ?g (w, sh)" using o by (simp add: owned_def well_placed_def outside_def)
  moreover have "set (places ?g (deque w)) \<inter> set (g_hand g @ g_root g) = {}"
    using ownedD(8) [OF o] by (auto simp: cells_def places_def besides_def)
  then have "\<forall>a \<in> set (places ?g (deque w)). h' a = task_mem sh a" using h(1) by blast
  ultimately have "well_placed h' ?g (w, sh)" using well_placed_frame [of "task_mem sh" ?g "(w, sh)" h'] by simp
  then show "well_placed (task_mem (snd (w, sh\<lparr>task_mem := h'\<rparr>))) g (w, sh\<lparr>task_mem := h'\<rparr>)"
    using h(2,3) by (simp add: well_placed_def outside_def)
  show "task_mem (snd (w, sh\<lparr>task_mem := h'\<rparr>)) a = task_mem (snd (w, sh)) a" if "a \<notin> set (cells g (w, sh))" for a
    using h(1) [of a] that by (simp add: cells_def places_def besides_def)
qed (use ownedD(7) [OF o] in \<open>simp_all add: cells_def\<close>)

text \<open>A chain of tasks goes into an empty channel.\<close>

lemma send_moved:
  assumes o: "owned B g (w, sh)" and us: "g_acc g \<noteq> []" and i: "i < nat (num_workers sh)" "i < length (chan_tasks sh)" "g_chan g ! i = []"
  defines "g' \<equiv> g\<lparr>g_acc := [], g_chan := (g_chan g)[i := g_acc g]\<rparr>"
  shows "moved B g (w, sh) g' (w, sh\<lparr>chan_tasks := (chan_tasks sh)[i := [[hd (g_acc g)]]]\<rparr>)" "queued g' = queued g"
proof -
  have l: "i < length (g_chan g)" using i(1) ownedD(6) [OF o] by simp
  have m: "mset (concat ((g_chan g)[i := g_acc g])) = mset (concat (g_chan g)) + mset (g_acc g)"
    using mset_concat_update [OF l, of "g_acc g"] i(3) by simp
  then show "queued g' = queued g" by (simp add: queued_def g'_def)
  show "moved B g (w, sh) g' (w, sh\<lparr>chan_tasks := (chan_tasks sh)[i := [[hd (g_acc g)]]]\<rparr>)"
  proof (rule movedI [OF o])
    have "in_chan (task_mem sh) ([[hd (g_acc g)]]) (g_acc g)" using us ownedD(4) [OF o] by (simp add: in_chan_def)
    then show "well_placed (task_mem (snd (w, sh\<lparr>chan_tasks := (chan_tasks sh)[i := [[hd (g_acc g)]]]\<rparr>))) g'
        (w, sh\<lparr>chan_tasks := (chan_tasks sh)[i := [[hd (g_acc g)]]]\<rparr>)"
      using o i(2) by (auto simp: owned_def well_placed_def outside_def g'_def nth_list_update)
    show "mset (cells g' (w, sh\<lparr>chan_tasks := (chan_tasks sh)[i := [[hd (g_acc g)]]]\<rparr>)) \<subseteq># mset (cells g (w, sh))"
      using m by (simp add: cells_def places_def besides_def g'_def)
  qed (use ownedD(7) [OF o] in \<open>simp_all add: g'_def\<close>)
qed

text \<open>A single task in hand is a chain.\<close>

lemma hand_chain:
  assumes o: "owned B g (w, sh)" and g: "g_hand g = x # H" "g_acc g = []"
    and c: "current_task w = NULL \<or> current_task w \<in> set (H @ g_root g)"
  shows "moved B g (w, sh) (g\<lparr>g_hand := H, g_acc := [x]\<rparr>) (w, sh)"
proof (rule movedI [OF o])
  show "well_placed (task_mem (snd (w, sh))) (g\<lparr>g_hand := H, g_acc := [x]\<rparr>) (w, sh)"
    using o g by (simp add: owned_def well_placed_def outside_def lone_def)
  show "mset (cells (g\<lparr>g_hand := H, g_acc := [x]\<rparr>) (w, sh)) \<subseteq># mset (cells g (w, sh))"
    using g by (simp add: cells_def places_def besides_def)
qed (use c in simp_all)

text \<open>A new task object.\<close>

lemma lone_zeroed: "deref h x = Some (zeroed t) \<Longrightarrow> lone h x"
  by (simp add: lone_def)

lemma alloc_moved:
  assumes o: "owned B g (w, sh)" and a: "RT_task_alloc junk (w, sh) = Some (x, w', sh')"
  shows "x = NULL \<and> w' = w \<and> sh' = sh \<or>
    x \<noteq> NULL \<and> (\<exists>fs. moved B g (w, sh) (g\<lparr>g_free := fs, g_hand := x # g_hand g\<rparr>) (w', sh')) \<and>
    (\<exists>dq. w' = w\<lparr>deque := dq\<rparr>) \<and> chan_tasks sh' = chan_tasks sh"
proof (cases "g_free g")
  case Nil
  then have f: "freelist (deque w) = NULL" using deque_rel_D(2) [OF ownedD(1) [OF o]] by simp
  show ?thesis
  proof (cases "mallocs sh")
    case Nil
    then show ?thesis using a f by (auto simp: RT_task_alloc_def malloc_def deque_task_new_def task_new_def bind_eq_Some_conv)
  next
    case (Cons p ms)
    have pB: "p \<in> B" "p \<noteq> NULL" "p \<notin> set (places g (deque w))" using ownedD(8,9,10) [OF o] Cons by (auto simp: cells_def)
    have e: "x = p" "w' = w" "sh' = sh\<lparr>mallocs := ms, task_mem := (task_mem sh)(p \<mapsto> zeroed junk)\<rparr>"
      using a f Cons pB(2) by (auto simp: RT_task_alloc_def malloc_def deque_task_new_def task_new_eq bind_eq_Some_conv)
    let ?g = "g\<lparr>g_free := g_free g, g_hand := x # g_hand g\<rparr>"
    have "moved B g (w, sh) ?g (w', sh')"
    proof (rule movedI [OF o])
      have "well_placed (task_mem sh) g (w, sh)" using o by (simp add: owned_def)
      then have "well_placed (task_mem sh') g (w, sh)"
        by (rule well_placed_frame) (use pB(3) e in auto)
      then show "well_placed (task_mem (snd (w', sh'))) ?g (w', sh')"
        using e pB(2) lone_zeroed [of "(task_mem sh)(p \<mapsto> zeroed junk)" p junk] by (simp add: well_placed_def outside_def)
      show "mset (cells ?g (w', sh')) \<subseteq># mset (cells g (w, sh))" using e Cons by (simp add: cells_def places_def besides_def)
      show "task_mem (snd (w', sh')) a = task_mem (snd (w, sh)) a" if "a \<notin> set (cells g (w, sh))" for a
        using that e Cons by (auto simp: cells_def)
    qed (use ownedD(7) [OF o] e in auto)
    then show ?thesis using e pB(2) by (intro disjI2 conjI exI [of _ "g_free g"] exI [of _ "deque w"]) simp_all
  qed
next
  case (Cons y fs)
  have r: "deque_rel (task_mem sh) (deque w) (g_dq g) (y # fs)" using ownedD(1) [OF o] Cons by simp
  have fr: "freelist (deque w) = y" "y \<noteq> NULL" using deque_rel_D(2) [OF r] by auto
  obtain dq h t where d: "deque_task_new NULL junk (task_mem sh) (deque w) = Some (y, dq, h)" "deque_rel h dq (g_dq g) fs"
    "dq_tail dq = dq_tail (deque w)" "deref h y = Some t" "t = zeroed t" "\<forall>a. a \<noteq> y \<longrightarrow> h a = task_mem sh a"
    using deque_task_new_cached [OF r, of NULL junk] by blast
  have e: "x = y" "w' = w\<lparr>deque := dq\<rparr>" "sh' = sh\<lparr>task_mem := h\<rparr>"
    using a d(1) fr by (auto simp: RT_task_alloc_def)
  let ?g = "g\<lparr>g_free := fs, g_hand := x # g_hand g\<rparr>"
  have yp: "y \<notin> set (besides g)" using ownedD(8) [OF o] Cons by (auto simp: cells_def places_def)
  have "moved B g (w, sh) ?g (w', sh')"
  proof (rule movedI [OF o])
    have "outside (task_mem sh) g (chan_tasks sh)" using o by (simp add: owned_def well_placed_def)
    then have "outside h g (chan_tasks sh)" by (rule outside_frame) (use yp d(6) in metis)
    moreover have "lone h y" using lone_zeroed d(4,5) by metis
    ultimately show "well_placed (task_mem (snd (w', sh'))) ?g (w', sh')"
      using d(2) e by (simp add: well_placed_def outside_def)
    show "mset (cells ?g (w', sh')) \<subseteq># mset (cells g (w, sh))" using e Cons d(3) by (simp add: cells_def places_def besides_def)
    show "task_mem (snd (w', sh')) a = task_mem (snd (w, sh)) a" if "a \<notin> set (cells g (w, sh))" for a
      using that e d(6) Cons by (auto simp: cells_def places_def)
  qed (use ownedD(7) [OF o] e in auto)
  then show ?thesis using e fr(2) by (intro disjI2 conjI exI [of _ fs] exI [of _ dq]) simp_all
qed


section \<open>Splitting\<close>

lemma lone_links: "lone h x \<longleftrightarrow> (\<exists>t. deref h x = Some t \<and> t_prev t = NULL \<and> t_next t = NULL)"
  by (simp add: lone_def)

text \<open>An update of a task in hand that leaves its links alone.\<close>

lemma update_moved:
  assumes o: "owned B g (w, sh)" and x: "x \<in> set (g_hand g @ g_root g)" and t: "deref (task_mem sh) x = Some t"
    and f: "t_prev t' = t_prev t" "t_next t' = t_next t" "t_splittable t' = t_splittable t"
  shows "moved B g (w, sh) g (w, sh\<lparr>task_mem := (task_mem sh)(x \<mapsto> t')\<rparr>)"
proof (rule write_moved [OF o])
  have xn: "x \<noteq> NULL" using t by auto
  show "lone ((task_mem sh)(x \<mapsto> t')) y" if "y \<in> set (g_hand g)" for y
    using ownedD(3) [OF o that] t f xn by (cases "y = x") (auto simp: lone_links)
  show "\<exists>t. deref ((task_mem sh)(x \<mapsto> t')) r = Some t \<and> \<not> t_splittable t" if "r \<in> set (g_root g)" for r
    using ownedD(5) [OF o that] t f xn by (cases "r = x") auto
qed (use x in auto)

lemma aside_malloc: "malloc sh = (p, sh') \<Longrightarrow> aside (w, sh) (w, sh')"
  by (auto simp: malloc_def aside_def split: list.splits)

lemma patch_future_moved:
  assumes o: "owned B g (w, sh)" and d: "dup \<in> set (g_hand g)" and p: "patch_future env dup (w, sh) = Some (w', sh')"
  shows "moved B g (w, sh) g (w', sh') \<and> deque w' = deque w \<and> current_task w' = current_task w \<and>
    tasks_split w' = tasks_split w \<and> chan_tasks sh' = chan_tasks sh"
proof -
  obtain p1 sh1 p2 sh2 p3 sh3 where m: "malloc sh = (p1, sh1)" "malloc sh1 = (p2, sh2)" "malloc sh2 = (p3, sh3)"
    by (cases "malloc sh", cases "malloc (snd (malloc sh))", cases "malloc (snd (malloc (snd (malloc sh))))") auto
  have a: "aside (w, sh) (w, sh3)"
    using aside_malloc [OF m(1)] aside_malloc [OF m(2)] aside_malloc [OF m(3)] aside_trans by blast
  let ?c = "get_current_task w"
  obtain x h1 y h2 h3 fm fn where h: "deref (task_mem sh3) dup = Some x" "h1 = (task_mem sh3)(dup \<mapsto> x\<lparr>t_data := bytes_of_ptr p2 @ drop 8 (t_data x)\<rparr>)"
    "deref h1 ?c = Some y" "h2 = h1(?c \<mapsto> y\<lparr>t_futures := p1\<rparr>)" "assign h2 dup (\<lambda>d. d\<lparr>t_futures := NULL\<rparr>) = Some h3"
    and e: "w' = w\<lparr>futures_converted := futures_converted w + 1\<rparr>" "sh' = sh3\<lparr>task_mem := h3, fut_mem := fm, fut_nodes := fn\<rparr>"
    using p m by (auto simp: patch_future_def Let_def bind_eq_Some_conv assign_Some get_current_task_def)
  obtain z where z: "deref h2 dup = Some z" "h3 = h2(dup \<mapsto> z\<lparr>t_futures := NULL\<rparr>)" using h(5) by (auto simp: assign_Some)
  have c: "?c \<in> set (g_hand g @ g_root g)" using ownedD(7) [OF o] h(3) by (auto simp: get_current_task_def)
  note m0 = aside_moved [OF o a]
  have m1: "moved B g (w, sh3) g (w, sh3\<lparr>task_mem := h1\<rparr>)"
    unfolding h(2) by (rule update_moved [OF _ _ h(1)]) (use m0 d in \<open>simp_all add: moved_def\<close>)
  have m2: "moved B g (w, sh3\<lparr>task_mem := h1\<rparr>) g (w, sh3\<lparr>task_mem := h1, task_mem := h2\<rparr>)"
    unfolding h(4) using update_moved [of B g w "sh3\<lparr>task_mem := h1\<rparr>" ?c y "y\<lparr>t_futures := p1\<rparr>"] m1 c h(3) by (simp add: moved_def)
  have m3: "moved B g (w, sh3\<lparr>task_mem := h2\<rparr>) g (w, sh3\<lparr>task_mem := h2, task_mem := h3\<rparr>)"
    unfolding z(2) using update_moved [of B g w "sh3\<lparr>task_mem := h2\<rparr>" dup z "z\<lparr>t_futures := NULL\<rparr>"] m2 d z(1) by (simp add: moved_def)
  have m4: "moved B g (w, sh) g (w, sh3\<lparr>task_mem := h3\<rparr>)"
    using moved_trans [OF moved_trans [OF moved_trans [OF m0 m1]]] m2 m3 by simp
  have "aside (w, sh3\<lparr>task_mem := h3\<rparr>) (w', sh')" using e by (simp add: aside_def)
  then have "moved B g (w, sh3\<lparr>task_mem := h3\<rparr>) g (w', sh')" using aside_moved m4 by (auto simp: moved_def)
  then show ?thesis using moved_trans [OF m4] e a by (simp add: aside_def)
qed

lemma control_moved:
  "owned B g (w, sh) \<Longrightarrow> deque w' = deque w \<Longrightarrow> current_task w' = current_task w \<Longrightarrow> moved B g (w, sh) g (w', sh)"
  by (simp add: moved_def owned_def well_placed_def cells_def)

text \<open>A request is answered with the chain of tasks in hand.\<close>

lemma answer_moved:
  assumes o: "owned B g (w, sh)" and us: "g_acc g \<noteq> []" and ch: "chans_ok sh"
    and r: "good_req (num_workers sh) r" "answers sh (req_ID r) = 0"
    and s: "send_task (req_chan r) (hd (g_acc g)) sh = Some (b, sh')"
  shows "\<exists>cs. moved B g (w, sh) (g\<lparr>g_acc := [], g_chan := cs\<rparr>) (w, sh') \<and> queued (g\<lparr>g_acc := [], g_chan := cs\<rparr>) = queued g"
proof -
  have rq: "req_chan r = (req_ID r, 0)" "0 \<le> req_ID r" "req_ID r < num_workers sh" using r(1) by (auto simp: good_req_def)
  have emp: "chan_tasks sh ! nat (req_ID r) = [[]]" by (rule answers_0 [OF ch rq(2,3) r(2)])
  have len: "nat (req_ID r) < length (chan_tasks sh)" using chans_okD(3) [OF ch] rq by simp
  have ce: "g_chan g ! nat (req_ID r) = []"
    using ownedD(2) [OF o, of "nat (req_ID r)"] emp rq by (auto simp: in_chan_def split: if_splits)
  have "sh' = sh\<lparr>chan_tasks := (chan_tasks sh)[nat (req_ID r) := [[hd (g_acc g)]]]\<rparr>"
    using s send_task_empty [of "req_ID r" sh 0 "hd (g_acc g)"] rq emp len by auto
  then show ?thesis using send_moved [OF o us _ len ce] rq by (intro exI) simp
qed

text \<open>The copy of a task that is split, before it is sent.\<close>

lemma dup_moved:
  assumes o: "owned B g (w, sh)" and d: "dup \<in> set (g_hand g)" "task \<in> set (g_hand g)" and t: "deref (task_mem sh) task = Some t"
    and h: "assign (task_mem sh) dup (\<lambda>_. t) = Some h1"
      "assign h1 dup (\<lambda>d. d\<lparr>t_start := i, t_cur := i, t_end := j\<rparr>) = Some h2"
      "(if b then assign h2 dup (\<lambda>d. d\<lparr>t_victim := v\<rparr>) else Some h2) = Some h3"
  shows "moved B g (w, sh) g (w, sh\<lparr>task_mem := h3\<rparr>)"
proof (rule write_moved [OF o])
  have dn: "dup \<noteq> NULL" using h(1) by auto
  have lt: "t_prev t = NULL" "t_next t = NULL" using ownedD(3) [OF o d(2)] t by (auto simp: lone_links)
  obtain t' where t': "h3 = (task_mem sh)(dup \<mapsto> t')" "t_prev t' = NULL" "t_next t' = NULL"
    using h lt dn by (auto simp: assign_Some split: if_splits)
  show "lone h3 x" if "x \<in> set (g_hand g)" for x
    using ownedD(3) [OF o that] t' dn by (cases "x = dup") (auto simp: lone_links)
  have "dup \<notin> set (g_root g)" using owned_distinct(5) [OF o] d(1) by auto
  then show "\<exists>t. deref h3 x = Some t \<and> \<not> t_splittable t" if "x \<in> set (g_root g)" for x
    using ownedD(5) [OF o that] t'(1) that by (cases "x = dup") auto
  show "h3 a = task_mem sh a" if "a \<notin> set (g_hand g @ g_root g)" for a using that d(1) t'(1) by auto
qed

lemma split_loop_conserves:
  assumes ch: "chans_ok sh" and r: "good_req (num_workers sh) r" "answers sh (req_ID r) = 0"
    and sp: "split_loop env cfg task r (w, sh) = Some s'"
  shows "conserves {task} (w, sh) s'"
  unfolding conserves_def
proof (intro allI impI)
  fix B g assume "owned B g (w, sh) \<and> g_acc g = [] \<and> {task} \<subseteq> set (g_hand g)"
  then have o: "owned B g (w, sh)" and ga: "g_acc g = []" and tk: "task \<in> set (g_hand g)" by auto
  obtain w' sh' where s': "s' = (w', sh')" by (cases s')
  obtain dup w1 sh1 where al: "RT_task_alloc (env_junk env) (w, sh) = Some (dup, w1, sh1)"
    and ne: "req_ID r \<noteq> ID w" using sp by (auto simp: split_loop_def split: Option.bind_splits)
  obtain t h1 split h2 h3 where h3: "deref (task_mem sh1) task = Some t"
      "assign (task_mem sh1) dup (\<lambda>_. t) = Some h1" "SPLIT_FUNC cfg (w1, sh1) t = Some split"
      "assign h1 dup (\<lambda>d. d\<lparr>t_start := split, t_cur := split, t_end := t_end t\<rparr>) = Some h2"
      "(if VICTIM cfg = Last_Victim then assign h2 dup (\<lambda>d. d\<lparr>t_victim := ID w1\<rparr>) else Some h2) = Some h3"
    using sp al ne by (auto simp: split_loop_def Let_def bind_eq_Some_conv)
  obtain w2 sh2 where
    pf: "(if t_has_future t then patch_future env dup (w1, sh1\<lparr>task_mem := h3\<rparr>)
      else Some (w1, sh1\<lparr>task_mem := h3\<rparr>)) = Some (w2, sh2)"
    using sp al ne h3 by (auto simp: split_loop_def Let_def bind_eq_Some_conv)
  obtain b sh3 h where sd: "send_task (req_chan r) dup sh2 = Some (b, sh3)" "sh' = sh3\<lparr>task_mem := h\<rparr>"
      "assign (task_mem sh3) task (\<lambda>t. t\<lparr>t_end := split\<rparr>) = Some h"
    and w3: "deque w' = deque w2" "current_task w' = current_task w2" "tasks_split w' = tasks_split w2 + 1"
    using sp al ne h3 pf s' by (auto simp: split_loop_def Let_def bind_eq_Some_conv)
  have "dup \<noteq> NULL" using h3(2) by auto
  then obtain fs where m1: "moved B g (w, sh) (g\<lparr>g_free := fs, g_hand := dup # g_hand g\<rparr>) (w1, sh1)"
    and e1: "current_task w1 = current_task w" "tasks_split w1 = tasks_split w" "chan_tasks sh1 = chan_tasks sh"
    using alloc_moved [OF o al] by auto
  let ?g1 = "g\<lparr>g_free := fs, g_hand := dup # g_hand g\<rparr>"
  have m2: "moved B ?g1 (w1, sh1) ?g1 (w1, sh1\<lparr>task_mem := h3\<rparr>)"
    by (rule dup_moved [OF _ _ _ h3(1,2,4,5)]) (use m1 tk in \<open>simp_all add: moved_def\<close>)
  have o2: "owned B ?g1 (w1, sh1\<lparr>task_mem := h3\<rparr>)" using m2 by (simp add: moved_def)
  have m3: "moved B ?g1 (w1, sh1\<lparr>task_mem := h3\<rparr>) ?g1 (w2, sh2) \<and> deque w2 = deque w1 \<and> current_task w2 = current_task w1 \<and>
    tasks_split w2 = tasks_split w1 \<and> chan_tasks sh2 = chan_tasks sh1"
    using pf patch_future_moved [OF o2, of dup env w2 sh2] moved_refl [OF o2] by (auto split: if_splits)
  have o3: "owned B ?g1 (w2, sh2)" using m3 by (simp add: moved_def)
  let ?g2 = "?g1\<lparr>g_hand := g_hand g, g_acc := [dup]\<rparr>"
  have m4: "moved B ?g1 (w2, sh2) ?g2 (w2, sh2)"
    by (rule hand_chain [OF o3]) (use ga m3 e1 ownedD(7) [OF o] in auto)
  have "user_memory sh sh2" using RT_task_alloc_fields [OF al] patch_future_fields [of env dup w1 "sh1\<lparr>task_mem := h3\<rparr>" w2 sh2] pf
    by (auto simp: user_memory_def split: if_splits)
  note um = user_memory_facts(1,2) [OF this] and N = this [unfolded user_memory_def]
  obtain cs where m5: "moved B ?g2 (w2, sh2) (?g2\<lparr>g_acc := [], g_chan := cs\<rparr>) (w2, sh3)"
    and q5: "queued (?g2\<lparr>g_acc := [], g_chan := cs\<rparr>) = queued ?g2"
    using answer_moved [of B ?g2 w2 sh2 r b sh3] m4 ch r um N sd(1) by (auto simp: moved_def)
  let ?g3 = "?g2\<lparr>g_acc := [], g_chan := cs\<rparr>"
  obtain u where u: "deref (task_mem sh3) task = Some u" "h = (task_mem sh3)(task \<mapsto> u\<lparr>t_end := split\<rparr>)" using sd(3) by (auto simp: assign_Some)
  have m6: "moved B ?g3 (w2, sh3) ?g3 (w2, sh')"
    unfolding sd(2) u(2) by (rule update_moved [OF _ _ u(1)]) (use tk m5 in \<open>simp_all add: moved_def\<close>)
  have m7: "moved B ?g3 (w2, sh') ?g3 s'"
    unfolding s' by (rule control_moved) (use m6 w3 in \<open>simp_all add: moved_def\<close>)
  show "\<exists>g' D. moved B g (w, sh) g' s' \<and> g_hand g' = g_hand g \<and> g_acc g' = [] \<and> queued g' = queued g + D \<and>
      tasks_split (fst s') = tasks_split (fst (w, sh)) + of_nat (size D) \<and> current_task (fst s') = current_task (fst (w, sh))"
    using moved_trans [OF m1 moved_trans [OF m2 moved_trans [OF conjunct1 [OF m3] moved_trans [OF m4 moved_trans [OF m5 moved_trans [OF m6 m7]]]]]] q5 m3 e1 w3 s' ga
    by (intro exI [of _ ?g3] exI [of _ "{#dup#}"]) (simp add: queued_def)
qed


section \<open>Stealing\<close>

lemma deque_moved:
  assumes o: "owned B g (w, sh)" and d: "deque_rel h dq (g_dq g') (g_free g')" "dq_tail dq = dq_tail (deque w)"
    and e: "g_chan g' = g_chan g" "g_root g' = g_root g"
    and h: "\<And>a. a \<notin> A \<Longrightarrow> h a = task_mem sh a" "A \<subseteq> set (cells g (w, sh))" "A \<inter> set (concat (g_chan g) @ g_root g) = {}"
    and l: "\<And>x. x \<in> set (g_hand g') \<Longrightarrow> lone h x" "dll h NULL (g_acc g') NULL"
    and m: "mset (g_dq g' @ g_free g' @ g_hand g' @ g_acc g') \<subseteq># mset (g_dq g @ g_free g @ g_hand g @ g_acc g)"
    and c: "current_task w = NULL \<or> current_task w \<in> set (g_hand g' @ g_root g)"
  shows "moved B g (w, sh) g' (w\<lparr>deque := dq\<rparr>, sh\<lparr>task_mem := h\<rparr>)"
proof (rule movedI [OF o])
  let ?g = "g\<lparr>g_hand := [], g_acc := []\<rparr>"
  have "outside (task_mem sh) ?g (chan_tasks sh)" using o by (simp add: owned_def well_placed_def outside_def)
  moreover have "\<forall>a \<in> set (besides ?g). h a = task_mem sh a" using h(1,3) by (auto simp: besides_def)
  ultimately have "outside h ?g (chan_tasks sh)" by (rule outside_frame)
  then show "well_placed (task_mem (snd (w\<lparr>deque := dq\<rparr>, sh\<lparr>task_mem := h\<rparr>))) g' (w\<lparr>deque := dq\<rparr>, sh\<lparr>task_mem := h\<rparr>)"
    using d(1) e l by (simp add: well_placed_def outside_def)
  have "cells g' (w\<lparr>deque := dq\<rparr>, sh\<lparr>task_mem := h\<rparr>) = places g' dq @ mallocs sh" by (simp add: cells_def)
  then have "mset (cells g' (w\<lparr>deque := dq\<rparr>, sh\<lparr>task_mem := h\<rparr>)) = mset (g_dq g' @ g_free g' @ g_hand g' @ g_acc g') +
      mset (dq_tail (deque w) # concat (g_chan g) @ g_root g @ mallocs sh)"
    using d(2) e by (simp add: places_def besides_def)
  moreover have "mset (cells g (w, sh)) = mset (g_dq g @ g_free g @ g_hand g @ g_acc g) +
      mset (dq_tail (deque w) # concat (g_chan g) @ g_root g @ mallocs sh)"
    by (simp add: cells_def places_def besides_def)
  ultimately show "mset (cells g' (w\<lparr>deque := dq\<rparr>, sh\<lparr>task_mem := h\<rparr>)) \<subseteq># mset (cells g (w, sh))"
    using m by (simp only: mset_subset_eq_mono_add_right_cancel)
  show "task_mem (snd (w\<lparr>deque := dq\<rparr>, sh\<lparr>task_mem := h\<rparr>)) a = task_mem (snd (w, sh)) a" if "a \<notin> set (cells g (w, sh))" for a
    using h(1,2) that by auto
qed (use c e in simp_all)

text \<open>Of the nodes of the deque only the links change.\<close>

lemma nodes_moved:
  assumes o: "owned B g (w, sh)" and d: "deque_rel h dq (g_dq g') (g_free g')" "dq_tail dq = dq_tail (deque w)"
    and e: "g_chan g' = g_chan g" "g_root g' = g_root g"
    and h: "only_links (nodes (deque w) (g_dq g) (g_free g)) (task_mem sh) h"
    and l: "\<And>x. x \<in> set (g_hand g') - set (g_hand g) \<Longrightarrow> lone h x" "dll h NULL (g_acc g') NULL"
    and m: "mset (g_dq g' @ g_free g' @ g_hand g' @ g_acc g') \<subseteq># mset (g_dq g @ g_free g @ g_hand g @ g_acc g)"
    and c: "set (g_hand g) \<subseteq> set (g_hand g')"
  shows "moved B g (w, sh) g' (w\<lparr>deque := dq\<rparr>, sh\<lparr>task_mem := h\<rparr>)"
proof (rule deque_moved [OF o d e])
  let ?A = "nodes (deque w) (g_dq g) (g_free g)"
  show f: "h a = task_mem sh a" if "a \<notin> ?A" for a using h that by (simp add: only_links_def)
  show "?A \<subseteq> set (cells g (w, sh))" by (auto simp: nodes_def cells_def places_def)
  show "?A \<inter> set (concat (g_chan g) @ g_root g) = {}" using owned_distinct(1) [OF o] by auto
  show "lone h x" if "x \<in> set (g_hand g')" for x
  proof (cases "x \<in> set (g_hand g)")
    case True
    then have "x \<notin> ?A" using owned_distinct(1) [OF o] by auto
    then show ?thesis using ownedD(3) [OF o True] lone_frame [of h x "task_mem sh"] f by simp
  qed (use l(1) that in simp)
  show "current_task w = NULL \<or> current_task w \<in> set (g_hand g' @ g_root g)" using ownedD(7) [OF o] c by auto
qed (use l m in simp_all)

lemma steal_tasks_moved:
  assumes o: "owned B g (w, sh)" "g_acc g = []" and st: "steal_tasks cfg req (w, sh) = Some (task, loot, w', sh')"
  shows "task = NULL \<and> w' = w \<and> sh' = sh \<or>
    (\<exists>ts us. g_dq g = ts @ us \<and> us \<noteq> [] \<and> task = hd us \<and> moved B g (w, sh) (g\<lparr>g_dq := ts, g_acc := us\<rparr>) (w', sh'))"
proof (cases "g_dq g = []")
  case True
  then have "deque_empty (deque w)" using deque_empty_rel [OF ownedD(1) [OF o(1)]] by simp
  then show ?thesis
    using st by (auto simp: steal_tasks_def Let_def deque_steal_def deque_steal_half_2_def split: if_splits)
next
  case False
  note rel = ownedD(1) [OF o(1)]
  obtain ts us dq h where s: "g_dq g = ts @ us" "us \<noteq> []" "task = hd us" "w' = w\<lparr>deque := dq\<rparr>" "sh' = sh\<lparr>task_mem := h\<rparr>"
    "deque_rel h dq ts (g_free g)" "dll h NULL us NULL" "dq_tail dq = dq_tail (deque w)"
    "only_links (nodes (deque w) (g_dq g) (g_free g)) (task_mem sh) h"
  proof (cases "STEAL cfg = Steal_Half \<or> STEAL cfg = Steal_Adaptive \<and> req_stealhalf req")
    case True
    define k where "k = max 1 (length (g_dq g) div 2)"
    have k: "0 < k" "k \<le> length (g_dq g)" using False by (auto simp: k_def Suc_leI)
    obtain dq h where d: "deque_steal_half (task_mem sh) (deque w) = Some (g_dq g ! (length (g_dq g) - k), Some (last (g_dq g), int k), dq, h)"
      "deque_rel h dq (take (length (g_dq g) - k) (g_dq g)) (g_free g)" "dll h NULL (drop (length (g_dq g) - k) (g_dq g)) NULL"
      "dq_tail dq = dq_tail (deque w)" "only_links (nodes (deque w) (g_dq g) (g_free g)) (task_mem sh) h"
      using deque_steal_half_rel [OF rel False] unfolding k_def by blast
    have "hd (drop (length (g_dq g) - k) (g_dq g)) = g_dq g ! (length (g_dq g) - k)" using k by (simp add: hd_drop_conv_nth)
    then show ?thesis
      using that [of "take (length (g_dq g) - k) (g_dq g)" "drop (length (g_dq g) - k) (g_dq g)" dq h] st d True k
      by (auto simp: steal_tasks_def steal_2_eq)
  next
    case one: False
    obtain ts x where x: "g_dq g = ts @ [x]" using False by (metis rev_exhaust)
    obtain dq h where d: "steal_n (task_mem sh) (deque w) (int (length [x])) = Some (x, x, dq, h)" "deque_rel h dq ts (g_free g)"
      "dll h NULL [x] NULL" "dq_tail dq = dq_tail (deque w)" "only_links (nodes (deque w) (ts @ [x]) (g_free g)) (task_mem sh) h"
      using steal_n_rel [of "task_mem sh" "deque w" ts "[x]" "g_free g"] rel x by auto
    have "deque_steal (task_mem sh) (deque w) = Some (x, dq, h)"
      unfolding deque_steal_eq using d(1) deque_empty_rel [OF rel] x by simp
    then show ?thesis using that [of ts "[x]" dq h] st d x one by (auto simp: steal_tasks_def)
  qed
  have "moved B g (w, sh) (g\<lparr>g_dq := ts, g_acc := us\<rparr>) (w\<lparr>deque := dq\<rparr>, sh\<lparr>task_mem := h\<rparr>)"
    by (rule nodes_moved [OF o(1)]) (use s o(2) in simp_all)
  then show ?thesis using s by blast
qed

section \<open>Operations that have nothing to do with tasks\<close>

lemma convert_future_aside: "convert_future env t sh = Some sh' \<Longrightarrow> aside (w, sh) (w, sh')"
  by (auto simp: convert_future_def aside_def Let_def malloc_def
      split: if_splits list.splits prod.splits Option.bind_splits)

lemma convert_futures_aside:
  assumes "convert_futures env t s = Some s'"
  shows "aside s s'"
proof (rule convert_futures.raw_induct [OF _ assms])
  fix cf :: "env \<Rightarrow> addr \<Rightarrow> wst \<Rightarrow> wst option" and env t s s'
  assume IH: "\<And>env t s s'. cf env t s = Some s' \<Longrightarrow> aside s s'"
    and step: "(if t \<noteq> NULL then do {
        x \<leftarrow> deref (task_mem (snd s)) t;
        s \<leftarrow> (if t_has_future x then do {
            sh \<leftarrow> convert_future env x (snd s);
            Some ((fst s)\<lparr>futures_converted := futures_converted (fst s) + 1\<rparr>, sh)
          } else Some s);
        cf env (t_next x) s
      } else Some s) = Some s'"
  show "aside s s'"
  proof (cases "t = NULL")
    case True
    then show ?thesis using step by simp
  next
    case False
    then obtain x s1 where s1: "(if t_has_future x then do {
            sh \<leftarrow> convert_future env x (snd s);
            Some ((fst s)\<lparr>futures_converted := futures_converted (fst s) + 1\<rparr>, sh)
          } else Some s) = Some s1" and r: "cf env (t_next x) s1 = Some s'"
      using step by (auto split: Option.bind_splits)
    have "aside s s1"
    proof (cases "t_has_future x")
      case True
      then obtain sh where c: "convert_future env x (snd s) = Some sh"
        "s1 = ((fst s)\<lparr>futures_converted := futures_converted (fst s) + 1\<rparr>, sh)" using s1 by (auto simp: bind_eq_Some_conv)
      then show ?thesis using convert_future_aside [OF c(1), of "fst s"] by (simp add: aside_def)
    qed (use s1 in simp)
    with IH [OF r] show ?thesis using aside_trans by blast
  qed
qed

lemma SEND_REQ_WORKER_aside:
  assumes "SEND_REQ_WORKER cfg i req (w, sh) = Some s'"
  shows "aside (w, sh) s'"
proof -
  obtain k sh1 where k: "next_refusals sh = (k, sh1)" by (cases "next_refusals sh")
  show ?thesis using assms next_refusals_fields [OF k] k
    by (auto simp: SEND_REQ_WORKER_def aside_def bind_eq_Some_conv split: option.splits if_splits)
qed

lemma FORGET_REQ_aside:
  assumes "FORGET_REQ req w = Some w'" shows "aside (w, sh) (w', sh)"
proof -
  obtain st where "w' = w\<lparr>requested := requested w - 1, channel_stack := st\<rparr>" using FORGET_REQ_fields [OF assms] by blast
  then show ?thesis by (simp add: aside_def)
qed

lemma next_victim_aside:
  assumes "next_victim rand cfg N req w = Some (v, req', w')" shows "aside (w, sh) (w', sh)"
proof -
  obtain vs where "w' = w\<lparr>victim_sel := vs\<rparr>" using next_victim_fields [OF assms] by blast
  then show ?thesis by (simp add: aside_def)
qed

lemma become_quiescent_aside:
  assumes q: "become_quiescent cfg req (w, sh) = Some s'"
  shows "aside (w, sh) s'"
proof (cases "ID w = MASTER_ID")
  case True
  then obtain w' where "FORGET_REQ req (w\<lparr>quiescent := True\<rparr>) = Some w'" "s' = (w', sh)"
    using q by (auto simp: become_quiescent_def detect_termination_def bind_eq_Some_conv)
  then show ?thesis using FORGET_REQ_aside [of req "w\<lparr>quiescent := True\<rparr>" w' sh] by (simp add: aside_def)
next
  case False
  then obtain w1 sh1 where s: "SEND_REQ_WORKER cfg (tree_parent (tree w)) (req\<lparr>req_state := STATE_FAILED\<rparr>) (w, sh) = Some (w1, sh1)"
    and e: "(let w = w1\<lparr>tree := (tree w1)\<lparr>waiting_for_tasks := True\<rparr>\<rparr> in
       if BACKOFF cfg = Wait_Cond then do {
         chans \<leftarrow> read_at (chan_tasks sh1) (nat (ID w));
         s \<leftarrow> write_at (signals sh1) (nat (ID w)) False;
         Some (w\<lparr>blocked := \<not> peek chans\<rparr>, sh1\<lparr>signals := s\<rparr>)
       } else Some (w, sh1)) = Some s'"
    using q by (auto simp: become_quiescent_def bind_eq_Some_conv)
  have "aside (w1, sh1) s'" using e by (cases "BACKOFF cfg = Wait_Cond") (auto simp: Let_def bind_eq_Some_conv aside_def)
  with SEND_REQ_WORKER_aside [OF s] show ?thesis by (rule aside_trans)
qed

lemma decline_aside:
  assumes d: "decline_steal_request rand cfg req (w, sh) = Some s'"
  shows "aside (w, sh) s'"
proof -
  let ?w = "w\<lparr>requests_declined := requests_declined w + 1\<rparr>" and ?r = "req\<lparr>req_try := req_try req + 1\<rparr>"
  let ?own = "?r\<lparr>req_try := 0, req_victims := INIT_VICTIMS (num_workers sh)\<rparr>"
  have a: "aside (w, sh) (?w, sh)" by (simp add: aside_def)
  have pass: "aside (?w, sh) s'" if "next_victim rand cfg (num_workers sh) r ?w = Some (v, r', w1)"
      "SEND_REQ_WORKER cfg v r' (w1, sh) = Some s' \<or> (\<exists>w2. FORGET_REQ r' w1 = Some w2 \<and> s' = (w2, sh))" for r v r' w1
    using aside_trans [OF next_victim_aside [OF that(1), of sh], of s'] SEND_REQ_WORKER_aside [of cfg v r' w1 sh s']
      FORGET_REQ_aside [of r' w1 _ sh] that(2) by auto
  have "aside (?w, sh) s'"
  proof (cases "req_ID req = ID w")
    case False
    then obtain v r' w1 where "next_victim rand cfg (num_workers sh) ?r ?w = Some (v, r', w1)" "SEND_REQ_WORKER cfg v r' (w1, sh) = Some s'"
      using d by (auto simp: decline_steal_request_def Let_def bind_eq_Some_conv)
    then show ?thesis using pass by blast
  next
    case own: True
    show ?thesis
    proof (cases "req_state req = STATE_IDLE \<and> left_subtree_is_idle (tree w) \<and> right_subtree_is_idle (tree w)")
      case True
      show ?thesis
      proof (cases "become_quiescent cfg ?r (?w, sh) = Some s'")
        case False
        then obtain w1 where "CHANNEL_PUSH (req_chan ?r) ?w = Some w1" "s' = (w1\<lparr>dropped_steal_requests := dropped_steal_requests w1 + 1\<rparr>, sh)"
          using d own True by (auto simp: decline_steal_request_def Let_def bind_eq_Some_conv split: if_splits)
        then show ?thesis by (auto simp: CHANNEL_PUSH_def aside_def bind_eq_Some_conv)
      qed (rule become_quiescent_aside)
    next
      case False
      then obtain v r' w1 where "next_victim rand cfg (num_workers sh) ?own ?w = Some (v, r', w1)"
        "SEND_REQ_WORKER cfg v r' (w1, sh) = Some s' \<or> (\<exists>w2. FORGET_REQ r' w1 = Some w2 \<and> s' = (w2, sh))"
        using d own by (auto simp: decline_steal_request_def Let_def bind_eq_Some_conv split: if_splits)
      then show ?thesis using pass by blast
    qed
  qed
  with a show ?thesis by (rule aside_trans)
qed

lemma try_send_aside:
  assumes "try_send_steal_request rand cfg idle (w, sh) = Some s'"
  shows "aside (w, sh) s'"
proof (cases "requested w < MAXSTEAL cfg")
  case True
  let ?w0 = "adapt_stealhalf cfg w"
  obtain r w1 v r' w2 w3 sh' w' where rq: "STEAL_REQUEST_INIT (num_workers sh) ?w0 = Some (r, w1)"
    and nv: "next_victim rand cfg (num_workers sh) (r\<lparr>req_state := if idle then STATE_IDLE else STATE_WORKING\<rparr>) w1 = Some (v, r', w2)"
    and sd: "SEND_REQ_WORKER cfg v r' (w2, sh) = Some (w3, sh')" and s': "s' = (w', sh')" "aside (w3, sh') (w', sh')"
    using assms True by (auto simp: try_send_steal_request_def Let_def bind_eq_Some_conv aside_def)
  have a: "aside (w, sh) (?w0, sh)" by (simp add: adapt_stealhalf_def aside_def Let_def)
  have b: "aside (?w0, sh) (w1, sh)" using rq by (auto simp: STEAL_REQUEST_INIT_def CHANNEL_POP_def aside_def bind_eq_Some_conv)
  show ?thesis
    using aside_trans [OF aside_trans [OF a b] aside_trans [OF next_victim_aside [OF nv] aside_trans [OF SEND_REQ_WORKER_aside [OF sd] s'(2)]]] s'(1)
    by simp
qed (use assms in \<open>simp add: try_send_steal_request_def\<close>)

lemma RECV_REQ_aside:
  assumes "linv X (w, sh)" "RECV_REQ cfg (w, sh) = Some (r, s')"
  shows "aside (w, sh) s'"
proof -
  obtain w' sh' where s': "s' = (w', sh')" by (cases s')
  have "holds w w' \<and> (\<exists>chans. sh' = sh\<lparr>chan_requests := chans\<rparr>)" using RECV_REQ_ok [OF assms(1), of cfg r w' sh'] assms(2) s' by blast
  then show ?thesis using s' by (auto simp: holds_def aside_def)
qed

lemma reactivate_aside:
  assumes "reactivate cfg r (w, sh) = Some s'" shows "aside (w, sh) s'"
proof -
  obtain w' sh' where s': "s' = (w', sh')" by (cases s')
  then show ?thesis using reactivate_fields [of cfg r w sh w' sh'] assms by (auto simp: aside_def)
qed

end
