(* ===== verification/Transfers.thy ===== *)
theory Transfers
  imports Ownership
begin

text \<open>
  The operations of the runtime on tasks move task objects between the places of \<^theory_text>\<open>Ownership\<close>: answering
  requests, sharing work, \<^verbatim>\<open>RT_poll\<close>, \<^verbatim>\<open>RT_push\<close>, \<^verbatim>\<open>RT_pop\<close>, receiving and accepting tasks, and putting away a task that has been run.
\<close>

section \<open>Handling requests\<close>

lemma dll_update:
  assumes "deref h x = Some t" "t_prev t' = t_prev t" "t_next t' = t_next t"
  shows "dll (h(x \<mapsto> t')) p xs n \<longleftrightarrow> dll h p xs n"
proof (induction xs arbitrary: p)
  case (Cons y ys)
  have "deref (h(x \<mapsto> t')) y = (if y = x then Some t' else deref h y)" using assms(1) by (auto simp: deref_def)
  then show ?case using Cons assms by (simp del: fun_upd_apply)
qed simp

lemma update_acc_moved:
  assumes o: "owned B g (w, sh)" and x: "x \<in> set (g_acc g)" and t: "deref (task_mem sh) x = Some t"
    and f: "t_prev t' = t_prev t" "t_next t' = t_next t"
  shows "moved B g (w, sh) g (w, sh\<lparr>task_mem := (task_mem sh)(x \<mapsto> t')\<rparr>)"
proof -
  let ?h = "(task_mem sh)(x \<mapsto> t')"
  have d: "x \<notin> nodes (deque w) (g_dq g) (g_free g)" "x \<notin> set (concat (g_chan g) @ g_hand g @ g_root g)"
    using ownedD(8) [OF o] x by (auto simp: cells_def places_def besides_def nodes_def)
  have "moved B g (w, sh) g (w\<lparr>deque := deque w\<rparr>, sh\<lparr>task_mem := ?h\<rparr>)"
  proof (rule deque_moved [OF o, where A = "{x}"])
    show "deque_rel ?h (deque w) (g_dq g) (g_free g)"
      by (rule deque_rel_frame [OF ownedD(1) [OF o]]) (use d(1) in auto)
    show "lone ?h y" if "y \<in> set (g_hand g)" for y
    proof -
      have "y \<noteq> x" using that d(2) by auto
      then show ?thesis using ownedD(3) [OF o that] lone_frame [of ?h y "task_mem sh"] by simp
    qed
    show "dll ?h NULL (g_acc g) NULL" using ownedD(4) [OF o] dll_update [OF t f] by simp
    show "{x} \<subseteq> set (cells g (w, sh))" using x by (simp add: cells_def places_def besides_def)
  qed (use ownedD(7) [OF o] d(2) in auto)
  then show ?thesis by simp
qed

lemma handle_other_conserves:
  assumes ch: "chans_ok sh" and r: "good_req (num_workers sh) r" "answers sh (req_ID r) = 0" "req_ID r \<noteq> ID w"
    and h: "handle_steal_request env cfg r (w, sh) = Some s'"
  shows "conserves {} (w, sh) s'"
  unfolding conserves_def
proof (intro allI impI)
  fix B g assume "owned B g (w, sh) \<and> g_acc g = [] \<and> {} \<subseteq> set (g_hand g)"
  then have o: "owned B g (w, sh)" and ga: "g_acc g = []" by auto
  obtain w' sh' where s': "s' = (w', sh')" by (cases s')
  obtain task loot w1 sh1 where st: "steal_tasks cfg r (w, sh) = Some (task, loot, w1, sh1)"
    using h r(3) by (auto simp: handle_steal_request_def split: Option.bind_splits)
  from steal_tasks_moved [OF o ga st] show "\<exists>g' D. moved B g (w, sh) g' s' \<and> g_hand g' = g_hand g \<and> g_acc g' = [] \<and> queued g' = queued g + D \<and>
      tasks_split (fst s') = tasks_split (fst (w, sh)) + of_nat (size D) \<and> current_task (fst s') = current_task (fst (w, sh))"
  proof
    assume n: "task = NULL \<and> w1 = w \<and> sh1 = sh"
    then have "decline_steal_request (env_rand env) cfg r (w, sh) = Some s'"
      using h r(3) st by (auto simp: handle_steal_request_def split: Option.bind_splits)
    then have "conserves {} (w, sh) s'" by (intro aside_conserves decline_aside)
    then show ?thesis using o ga by (simp add: conserves_def)
  next
    assume "\<exists>ts us. g_dq g = ts @ us \<and> us \<noteq> [] \<and> task = hd us \<and> moved B g (w, sh) (g\<lparr>g_dq := ts, g_acc := us\<rparr>) (w1, sh1)"
    then obtain ts us where u: "g_dq g = ts @ us" "us \<noteq> []" "task = hd us" and m1: "moved B g (w, sh) (g\<lparr>g_dq := ts, g_acc := us\<rparr>) (w1, sh1)"
      by blast
    let ?g1 = "g\<lparr>g_dq := ts, g_acc := us\<rparr>"
    have o1: "owned B ?g1 (w1, sh1)" using m1 by (simp add: moved_def)
    obtain x where x: "deref (task_mem sh1) task = Some x" using ownedD(4) [OF o1] u dll_live [of "task_mem sh1" NULL us NULL task] by auto
    then have tn: "task \<noteq> NULL" by auto
    note f = steal_tasks_fields [OF st]
    obtain dq where w1: "w1 = w\<lparr>deque := dq\<rparr>" using f by blast
    have u1: "user_memory sh sh1" using f by (auto simp: user_memory_def)
    obtain hp w2 sh2 b where hp: "(if VICTIM cfg = Last_Victim then assign (task_mem sh1) task (\<lambda>t. t\<lparr>t_victim := ID w1\<rparr>)
           else Some (task_mem sh1)) = Some hp"
      and c: "convert_futures env task (w1, sh1\<lparr>task_mem := hp\<rparr>) = Some (w2, sh2)"
      and sd: "send_task (req_chan r) task sh2 = Some (b, sh')"
      and e: "deque w' = deque w2" "current_task w' = current_task w2" "tasks_split w' = tasks_split w2"
      using h r(3) st tn s' by (auto simp: handle_steal_request_def Let_def bind_eq_Some_conv)
    have m2: "moved B ?g1 (w1, sh1) ?g1 (w1, sh1\<lparr>task_mem := hp\<rparr>)"
    proof (cases "VICTIM cfg = Last_Victim")
      case True
      then have "hp = (task_mem sh1)(task \<mapsto> x\<lparr>t_victim := ID w1\<rparr>)" using hp x by (simp add: heap_simps)
      then show ?thesis using update_acc_moved [OF o1 _ x] u by simp
    qed (use hp aside_moved [OF o1, of "(w1, sh1\<lparr>task_mem := hp\<rparr>)"] in \<open>simp add: aside_def\<close>)
    note a = convert_futures_aside [OF c]
    have m3: "moved B ?g1 (w1, sh1\<lparr>task_mem := hp\<rparr>) ?g1 (w2, sh2)"
      by (rule aside_moved [OF moved_owned [OF m2] a])
    have "user_memory sh sh2" using convert_futures_fields [OF c] u1 by (simp add: user_memory_def)
    note um = user_memory_facts(1,2) [OF this] and N = this [unfolded user_memory_def]
    obtain cs where m4: "moved B ?g1 (w2, sh2) (?g1\<lparr>g_acc := [], g_chan := cs\<rparr>) (w2, sh')"
      and q: "queued (?g1\<lparr>g_acc := [], g_chan := cs\<rparr>) = queued ?g1"
      using answer_moved [of B ?g1 w2 sh2 r b sh'] m3 ch r um N sd u by (auto simp: moved_def)
    let ?g2 = "?g1\<lparr>g_acc := [], g_chan := cs\<rparr>"
    have m5: "moved B ?g2 (w2, sh') ?g2 s'" unfolding s' by (rule control_moved) (use m4 e in \<open>simp_all add: moved_def\<close>)
    have "queued ?g1 = queued g" using u ga by (simp add: queued_def)
    then show ?thesis
      using moved_trans [OF m1 moved_trans [OF m2 moved_trans [OF m3 moved_trans [OF m4 m5]]]] q e a w1 s'
      by (intro exI [of _ ?g2] exI [of _ "{#}"]) (simp add: aside_def)
  qed
qed

lemma handle_steal_request_conserves:
  assumes "chans_ok sh" "good_req (num_workers sh) r" "answers sh (req_ID r) = 0"
    and h: "handle_steal_request env cfg r (w, sh) = Some s'"
  shows "conserves {} (w, sh) s'"
proof (cases "req_ID r = ID w")
  case True
  then consider w' where "FORGET_REQ r w = Some w'" "s' = (w', sh)" | "decline_steal_request (env_rand env) cfg r (w, sh) = Some s'"
    using h by (auto simp: handle_steal_request_def Let_def bind_eq_Some_conv split: if_splits)
  then show ?thesis by cases (auto intro: aside_conserves decline_aside FORGET_REQ_aside)
qed (use handle_other_conserves assms in blast)

text \<open>The task that is running may be split if it is splittable; the root task is not.\<close>

lemma handle_conserves:
  assumes c: "chans_ok sh" "good_req (num_workers sh) r" "answers sh (req_ID r) = 0"
    and h: "handle env cfg r (w, sh) = Some (b, s')"
  shows "conserves {} (w, sh) s'"
proof -
  consider "handle_steal_request env cfg r (w, sh) = Some s'" |
      "SPLITTABLE (task_mem sh) (get_current_task w) = Some True" "split_loop env cfg (get_current_task w) r (w, sh) = Some s'" |
      w' where "FORGET_REQ r w = Some w'" "s' = (w', sh)" |
      "decline_steal_request (env_rand env) cfg r (w, sh) = Some s'" | "s' = (w, sh)"
    using h by (auto simp: handle_def Let_def bind_eq_Some_conv split: if_splits)
  then show ?thesis
  proof cases
    case 1
    then show ?thesis using handle_steal_request_conserves [OF c] by simp
  next
    case 2
    have s: "conserves {get_current_task w} (w, sh) s'" by (rule split_loop_conserves [OF c 2(2)])
    obtain t where t: "deref (task_mem sh) (get_current_task w) = Some t" "t_splittable t"
      using 2(1) by (auto simp: SPLITTABLE_def bind_eq_Some_conv split: if_splits)
    have "get_current_task w \<in> set (g_hand g)" if "owned B g (w, sh)" for B g
      using ownedD(7) [OF that] ownedD(5) [OF that, of "get_current_task w"] t by (auto simp: get_current_task_def)
    then show ?thesis using conserves_present [OF s] by simp
  qed (auto intro: aside_conserves decline_aside FORGET_REQ_aside)
qed


section \<open>Loops\<close>

lemma share_work_conserves:
  assumes "share_work env cfg s = Some s'" "linv X s"
  shows "conserves {} s s'"
proof -
  have "linv X s \<longrightarrow> conserves {} s s'"
  proof (rule share_work.raw_induct [OF _ assms(1)])
    fix sw :: "env \<Rightarrow> config \<Rightarrow> wst \<Rightarrow> wst option" and env cfg s s'
    assume IH: "\<And>env cfg s s'. sw env cfg s = Some s' \<Longrightarrow> linv X s \<longrightarrow> conserves {} s s'"
      and step: "(if \<not> bounded_queue_empty (work_sharing_requests (fst s)) then do {
          req \<leftarrow> NEXT_WORK_SHARING_REQUEST (fst s);
          assertion (req_ID req = tree_left_child (tree (fst s)) \<or> req_ID req = tree_right_child (tree (fst s)));
          (work, s) \<leftarrow> handle env cfg req s;
          if work then do { s \<leftarrow> reactivate cfg req s; sw env cfg s } else Some s
        } else Some s) = Some s'"
    show "linv X s \<longrightarrow> conserves {} s s'"
    proof
      assume inv: "linv X s"
      obtain w sh where s: "s = (w, sh)" by (cases s)
      have bq: "bq_inv (work_sharing_requests w)" using inv s by (simp add: linv_def held_ok_def)
      show "conserves {} s s'"
      proof (cases "held w")
        case Nil
        then show ?thesis using step s bounded_queue_empty_items [OF bq] conserves_refl by simp
      next
        case (Cons r rs)
        have r: "NEXT_WORK_SHARING_REQUEST w = Some r"
          using bounded_queue_head_item [OF bq Cons] by (simp add: NEXT_WORK_SHARING_REQUEST_def)
        obtain b w1 sh1 where h: "handle env cfg r (w, sh) = Some (b, w1, sh1)"
          and rest: "if b then \<exists>s2. reactivate cfg r (w1, sh1) = Some s2 \<and> sw env cfg s2 = Some s' else s' = (w1, sh1)"
          using step s r Cons bounded_queue_empty_items [OF bq]
          by (auto simp: bind_eq_Some_conv split: if_splits)
        note t = held_token [OF inv [unfolded s], of r, unfolded Cons, simplified]
        have a: "conserves {} s (w1, sh1)"
          unfolding s by (rule handle_conserves [OF linvD(1) [OF inv [unfolded s]] t(2,5) h])
        show ?thesis
        proof (cases b)
          case True
          then obtain s2 where re: "reactivate cfg r (w1, sh1) = Some s2" "sw env cfg s2 = Some s'" using rest by auto
          note hs = handle_shared [OF inv [unfolded s] _ h, unfolded Cons, simplified]
          have "handles cfg X s X s2"
            using share_step_handles [OF inv [unfolded s] Cons] hs True re(1) s by (cases s2) auto
          then have "conserves {} s2 s'" using IH [OF re(2)] handles_inv by blast
          then show ?thesis using conserves_trans [OF a] conserves_trans aside_conserves [OF reactivate_aside [OF re(1)]] by blast
        qed (use a rest in simp)
      qed
    qed
  qed
  with assms(2) show ?thesis by blast
qed

text \<open>The loops that receive requests and handle them.\<close>

lemma recv_loop_conserves:
  assumes body: "\<And>w sh r s2. linv (X + {#tok r#}) (w, sh) \<Longrightarrow> in_hand (w, sh) r \<Longrightarrow> hdl r (w, sh) = Some s2 \<Longrightarrow>
      handles cfg (X + {#tok r#}) (w, sh) X s2 \<and> conserves T (w, sh) s2"
    and IH: "\<And>s s'. lp s = Some s' \<Longrightarrow> linv X s \<and> busy X s \<longrightarrow> conserves T s s'"
    and step: "RECV_REQ cfg s \<bind> (\<lambda>(r, s). case r of None \<Rightarrow> Some s | Some req \<Rightarrow> hdl req s \<bind> lp) = Some s'"
    and inv: "linv X s" "busy X s"
  shows "conserves T s s'"
proof -
  obtain r s1 where recv: "RECV_REQ cfg s = Some (r, s1)"
    and rest: "(case r of None \<Rightarrow> Some s1 | Some req \<Rightarrow> hdl req s1 \<bind> lp) = Some s'"
    using step by (auto simp: bind_eq_Some_conv)
  have a: "conserves T s s1"
    using aside_conserves [OF RECV_REQ_aside, of X "fst s" "snd s" cfg r s1 T] inv(1) recv by simp
  show ?thesis
  proof (cases r)
    case None
    then show ?thesis using a rest by simp
  next
    case (Some req)
    then obtain s2 where s2: "hdl req s1 = Some s2" "lp s2 = Some s'" using rest by (auto simp: bind_eq_Some_conv)
    obtain w1 sh1 where s1: "s1 = (w1, sh1)" by (cases s1)
    note h = recv_in_hand [OF inv recv [unfolded Some]]
    have b: "handles cfg (X + {#tok req#}) s1 X s2 \<and> conserves T s1 s2"
      using body [of req w1 sh1 s2] handles_inv [OF conjunct1 [OF h]] h s2(1) s1 by simp
    then have "handles cfg X s X s2" using handles_trans h by blast
    then have "conserves T s2 s'" using IH [OF s2(2)] handles_inv busy_handles [OF inv(2)] by blast
    then show ?thesis using conserves_trans [OF a conserves_trans [OF conjunct2 [OF b]]] by blast
  qed
qed

lemma hand_facts:
  assumes "linv (X + {#tok r#}) (w, sh)" "in_hand (w, sh) r"
  shows "chans_ok sh" "good_req (num_workers sh) r" "answers sh (req_ID r) = 0"
  using linvD(1) [OF assms(1)] hand_unanswered [OF assms(1)] assms(2) by (simp_all add: in_hand_def)

lemma handle_loop_conserves:
  assumes cfg: "MAXSTEAL cfg = 1" and l: "handle_loop env cfg s = Some s'" and inv: "linv X s" "busy X s"
  shows "conserves {} s s'"
proof -
  have "MAXSTEAL cfg = 1 \<longrightarrow> linv X s \<and> busy X s \<longrightarrow> conserves {} s s'"
  proof (rule handle_loop.raw_induct [OF _ l])
    fix lp :: "env \<Rightarrow> config \<Rightarrow> wst \<Rightarrow> wst option" and env cfg s s'
    assume IH: "\<And>env cfg s s'. lp env cfg s = Some s' \<Longrightarrow>
        MAXSTEAL cfg = 1 \<longrightarrow> linv X s \<and> busy X s \<longrightarrow> conserves {} s s'"
      and step: "RECV_REQ cfg s \<bind> (\<lambda>(r, s). case r of None \<Rightarrow> Some s
        | Some req \<Rightarrow> handle_steal_request env cfg req s \<bind> lp env cfg) = Some s'"
    show "MAXSTEAL cfg = 1 \<longrightarrow> linv X s \<and> busy X s \<longrightarrow> conserves {} s s'"
    proof (intro impI)
      assume c: "MAXSTEAL cfg = 1" and i: "linv X s \<and> busy X s"
      show "conserves {} s s'"
      proof (rule recv_loop_conserves [OF _ _ step])
        show "handles cfg (X + {#tok r#}) (w, sh) X s2 \<and> conserves {} (w, sh) s2"
          if "linv (X + {#tok r#}) (w, sh)" "in_hand (w, sh) r" "handle_steal_request env cfg r (w, sh) = Some s2" for w sh r s2
          using handle_steal_request_handles [OF that(1,2) c that(3)] handle_steal_request_conserves [OF hand_facts [OF that(1,2)] that(3)] by simp
      qed (use IH c i in blast)+
    qed
  qed
  then show ?thesis using cfg inv by blast
qed

lemma poll_loop_conserves:
  assumes cfg: "MAXSTEAL cfg = 1" and l: "poll_loop env cfg s = Some s'" and inv: "linv X s" "busy X s"
  shows "conserves {} s s'"
proof -
  have "MAXSTEAL cfg = 1 \<longrightarrow> linv X s \<and> busy X s \<longrightarrow> conserves {} s s'"
  proof (rule poll_loop.raw_induct [OF _ l])
    fix lp :: "env \<Rightarrow> config \<Rightarrow> wst \<Rightarrow> wst option" and env cfg s s'
    assume IH: "\<And>env cfg s s'. lp env cfg s = Some s' \<Longrightarrow>
        MAXSTEAL cfg = 1 \<longrightarrow> linv X s \<and> busy X s \<longrightarrow> conserves {} s s'"
      and step: "RECV_REQ cfg s \<bind> (\<lambda>(r, s). case r of None \<Rightarrow> Some s
        | Some req \<Rightarrow> handle env cfg req s \<bind> (\<lambda>(_, s). lp env cfg s)) = Some s'"
    have step': "RECV_REQ cfg s \<bind> (\<lambda>(r, s). case r of None \<Rightarrow> Some s
        | Some req \<Rightarrow> map_option snd (handle env cfg req s) \<bind> lp env cfg) = Some s'"
      using step unfolding bind_snd .
    show "MAXSTEAL cfg = 1 \<longrightarrow> linv X s \<and> busy X s \<longrightarrow> conserves {} s s'"
    proof (intro impI)
      assume c: "MAXSTEAL cfg = 1" and i: "linv X s \<and> busy X s"
      show "conserves {} s s'"
      proof (rule recv_loop_conserves [OF _ _ step'])
        show "handles cfg (X + {#tok r#}) (w, sh) X s2 \<and> conserves {} (w, sh) s2"
          if a: "linv (X + {#tok r#}) (w, sh)" "in_hand (w, sh) r" "map_option snd (handle env cfg r (w, sh)) = Some s2" for w sh r s2
        proof -
          obtain b where "handle env cfg r (w, sh) = Some (b, s2)" using a(3) by auto
          then show ?thesis using handle_handles [OF a(1,2) c] handle_conserves [OF hand_facts [OF a(1,2)]] by blast
        qed
      qed (use IH c i in blast)+
    qed
  qed
  then show ?thesis using cfg inv by blast
qed

lemma pop_handle_conserves:
  assumes c: "chans_ok sh" "good_req (num_workers sh) r" "answers sh (req_ID r) = 0"
    and h: "pop_handle env cfg task r (w, sh) = Some s'" and T: "task \<noteq> NULL \<Longrightarrow> task \<in> T"
  shows "conserves T (w, sh) s'"
proof -
  consider "SPLITTABLE (task_mem sh) task = Some True" "split_loop env cfg task r (w, sh) = Some s'" |
      w' where "FORGET_REQ r w = Some w'" "s' = (w', sh)" | "handle_steal_request env cfg r (w, sh) = Some s'"
    using h by (auto simp: pop_handle_def bind_eq_Some_conv split: if_splits)
  then show ?thesis
  proof cases
    case 1
    then have "task \<in> T" using T by (auto simp: SPLITTABLE_def split: if_splits)
    then show ?thesis using conserves_mono [OF split_loop_conserves [OF c 1(2)]] by simp
  next
    case 3
    then show ?thesis using conserves_mono [OF handle_steal_request_conserves [OF c]] by blast
  qed (auto intro: aside_conserves FORGET_REQ_aside)
qed

lemma pop_loop_conserves:
  assumes cfg: "MAXSTEAL cfg = 1" and l: "pop_loop env cfg task s = Some s'" and inv: "linv X s" "busy X s"
    and T: "task \<noteq> NULL \<Longrightarrow> task \<in> T"
  shows "conserves T s s'"
proof -
  have "MAXSTEAL cfg = 1 \<longrightarrow> (task \<noteq> NULL \<longrightarrow> task \<in> T) \<longrightarrow> linv X s \<and> busy X s \<longrightarrow> conserves T s s'"
  proof (rule pop_loop.raw_induct [OF _ l])
    fix lp :: "env \<Rightarrow> config \<Rightarrow> addr \<Rightarrow> wst \<Rightarrow> wst option" and env cfg task s s'
    assume IH: "\<And>env cfg task s s'. lp env cfg task s = Some s' \<Longrightarrow>
        MAXSTEAL cfg = 1 \<longrightarrow> (task \<noteq> NULL \<longrightarrow> task \<in> T) \<longrightarrow> linv X s \<and> busy X s \<longrightarrow> conserves T s s'"
      and step: "RECV_REQ cfg s \<bind> (\<lambda>(r, s). case r of None \<Rightarrow> Some s
        | Some req \<Rightarrow> let (w, sh) = s in SPLITTABLE (task_mem sh) task \<bind> (\<lambda>splittable.
            (if deque_empty (deque w) \<and> splittable then
               if req_ID req \<noteq> ID w then split_loop env cfg task req (w, sh)
               else FORGET_REQ req w \<bind> (\<lambda>w. Some (w, sh))
             else handle_steal_request env cfg req (w, sh)) \<bind> lp env cfg task)) = Some s'"
    have "(case r of None \<Rightarrow> Some s
        | Some req \<Rightarrow> let (w, sh) = s in SPLITTABLE (task_mem sh) task \<bind> (\<lambda>splittable.
            (if deque_empty (deque w) \<and> splittable then
               if req_ID req \<noteq> ID w then split_loop env cfg task req (w, sh)
               else FORGET_REQ req w \<bind> (\<lambda>w. Some (w, sh))
             else handle_steal_request env cfg req (w, sh)) \<bind> lp env cfg task)) =
      (case r of None \<Rightarrow> Some s | Some req \<Rightarrow> pop_handle env cfg task req s \<bind> lp env cfg task)" for r s
      by (cases s) (simp add: pop_handle_def split: option.split)
    from step [unfolded this] have step': "RECV_REQ cfg s \<bind> (\<lambda>(r, s). case r of None \<Rightarrow> Some s
        | Some req \<Rightarrow> pop_handle env cfg task req s \<bind> lp env cfg task) = Some s'" .
    show "MAXSTEAL cfg = 1 \<longrightarrow> (task \<noteq> NULL \<longrightarrow> task \<in> T) \<longrightarrow> linv X s \<and> busy X s \<longrightarrow> conserves T s s'"
    proof (intro impI)
      assume c: "MAXSTEAL cfg = 1" and t: "task \<noteq> NULL \<longrightarrow> task \<in> T" and i: "linv X s \<and> busy X s"
      show "conserves T s s'"
      proof (rule recv_loop_conserves [OF _ _ step'])
        show "handles cfg (X + {#tok r#}) (w, sh) X s2 \<and> conserves T (w, sh) s2"
          if "linv (X + {#tok r#}) (w, sh)" "in_hand (w, sh) r" "pop_handle env cfg task r (w, sh) = Some s2" for w sh r s2
          using pop_handle_handles [OF that(1,2) c that(3)] pop_handle_conserves [OF hand_facts [OF that(1,2)] that(3)] t by blast
      qed (use IH c t i in blast)+
    qed
  qed
  then show ?thesis using cfg inv T by blast
qed


section \<open>Entry points\<close>

lemma ready_linv: "ready s \<Longrightarrow> linv {#} s \<and> busy {#} s"
  by (simp add: ready_def)

lemma RT_poll_conserves:
  assumes "MAXSTEAL cfg = 1" "RT_poll env cfg s = Some s'" "ready s"
  shows "conserves {} s s'"
proof -
  obtain s1 where s1: "share_work env cfg s = Some s1" "poll_loop env cfg s1 = Some s' \<or> s' = s1"
    using assms(2) by (auto simp: RT_poll_def bind_eq_Some_conv split: if_splits)
  have "ready s1" by (rule runs_ready [OF assms(3) share_work_runs [OF s1(1) assms(3)]])
  then have "conserves {} s1 s'"
    using s1(2) poll_loop_conserves [OF assms(1), of env s1 s' "{#}"] conserves_refl [of "{}" s1] by (auto simp: ready_def)
  moreover have "conserves {} s s1" using share_work_conserves [OF s1(1)] assms(3) by (auto simp: ready_def)
  ultimately show ?thesis using conserves_trans by blast
qed

lemma conservesD:
  assumes "conserves T s s'" "owned B g s" "g_acc g = []" "T \<subseteq> set (g_hand g)"
  obtains g' D where "moved B g s g' s'" "g_hand g' = g_hand g" "g_acc g' = []" "queued g' = queued g + D"
    "tasks_split (fst s') = tasks_split (fst s) + of_nat (size D)" "current_task (fst s') = current_task (fst s)"
  using assms unfolding conserves_def by blast

text \<open>Pushing a task that the worker has created.\<close>

lemma push_moved:
  assumes o: "owned B g (w, sh)" and x: "x \<in> set (g_hand g)" "current_task w \<noteq> x"
    and p: "deque_push (task_mem sh) (deque w) x = Some (dq, h)"
  shows "moved B g (w, sh) (g\<lparr>g_dq := x # g_dq g, g_hand := remove1 x (g_hand g)\<rparr>) (w\<lparr>deque := dq\<rparr>, sh\<lparr>task_mem := h\<rparr>)"
proof -
  note rel = ownedD(1) [OF o]
  let ?n = "nodes (deque w) (g_dq g) (g_free g)"
  have l: "lone (task_mem sh) x" by (rule ownedD(3) [OF o x(1)])
  then have lx: "loose (task_mem sh) x" by (auto simp: lone_links loose_def)
  have xn: "x \<notin> ?n" using owned_distinct(1) [OF o] x(1) by auto
  have "distinct (x # g_dq g)" "set (x # g_dq g) \<subseteq> B"
    using owned_distinct(2,6) [OF o] xn x(1) ownedD(9) [OF o] by (auto simp: nodes_def cells_def places_def besides_def)
  from few_objects [OF o this] have "Suc (length (g_dq g)) < 2 ^ 32" by simp
  from deque_push_rel [OF rel lx xn this] p have d: "deque_rel h dq (x # g_dq g) (g_free g)" "dq_tail dq = dq_tail (deque w)"
    "only_links (insert x ?n) (task_mem sh) h" by auto
  have f: "h a = task_mem sh a" if "a \<notin> insert x ?n" for a using d(3) that by (simp add: only_links_def)
  show ?thesis
  proof (rule deque_moved [OF o, where A = "insert x ?n"])
    show "insert x ?n \<subseteq> set (cells g (w, sh))" using x(1) by (auto simp: nodes_def cells_def places_def besides_def)
    show "insert x ?n \<inter> set (concat (g_chan g) @ g_root g) = {}" using owned_distinct(1,5) [OF o] x(1) by auto
    show "lone h y" if "y \<in> set (g_hand (g\<lparr>g_dq := x # g_dq g, g_hand := remove1 x (g_hand g)\<rparr>))" for y
    proof -
      have y: "y \<in> set (g_hand g)" "y \<noteq> x" using that owned_distinct(4) [OF o] by auto
      then have "y \<notin> insert x ?n" using owned_distinct(1) [OF o] by auto
      then show ?thesis using lone_frame [of h y "task_mem sh"] f ownedD(3) [OF o y(1)] by simp
    qed
    show "dll h NULL (g_acc (g\<lparr>g_dq := x # g_dq g, g_hand := remove1 x (g_hand g)\<rparr>)) NULL"
    proof -
      have "a \<notin> insert x ?n" if "a \<in> set (g_acc g)" for a using that owned_distinct(1,5) [OF o] x(1) by auto
      then show ?thesis using ownedD(4) [OF o] dll_cong [of "g_acc g" h "task_mem sh"] f by simp
    qed
    show "current_task w = NULL \<or> current_task w \<in> set (g_hand (g\<lparr>g_dq := x # g_dq g, g_hand := remove1 x (g_hand g)\<rparr>) @ g_root g)"
      using ownedD(7) [OF o] x(2) by (auto simp: in_set_remove1)
  qed (use d f x(1) in \<open>simp_all add: subset_eq_diff_conv\<close>)
qed

lemma RT_push_conserves:
  assumes cfg: "MAXSTEAL cfg = 1" and p: "RT_push env cfg x s = Some s'" and r: "ready s"
    and o: "owned B g s" "g_acc g = []" and x: "x \<in> set (g_hand g)" "current_task (fst s) \<noteq> x"
  shows "\<exists>g' D. moved B g s g' s' \<and> g_hand g' = remove1 x (g_hand g) \<and> g_acc g' = [] \<and> queued g' = queued g + {#x#} + D \<and>
    tasks_split (fst s') = tasks_split (fst s) + of_nat (size D) \<and> current_task (fst s') = current_task (fst s)"
proof -
  obtain w sh where s: "s = (w, sh)" by (cases s)
  obtain dq h w0 s2 where d: "deque_push (task_mem sh) (deque w) x = Some (dq, h)"
    and sw: "share_work env cfg (w0, sh\<lparr>task_mem := h\<rparr>) = Some s2" and hl: "handle_loop env cfg s2 = Some s'"
    and w0: "deque w0 = dq" "current_task w0 = current_task w" "tasks_split w0 = tasks_split w" "same_protocol w w0"
    using p s by (auto simp: RT_push_def Let_def bind_eq_Some_conv same_protocol_def split: if_splits)
  let ?s0 = "(w0, sh\<lparr>task_mem := h\<rparr>)" and ?g0 = "g\<lparr>g_dq := x # g_dq g, g_hand := remove1 x (g_hand g)\<rparr>"
  have m0: "moved B g s ?g0 (w\<lparr>deque := dq\<rparr>, sh\<lparr>task_mem := h\<rparr>)"
    unfolding s by (rule push_moved [OF _ x(1) _ d]) (use o(1) x(2) s in simp_all)
  have m1: "moved B ?g0 (w\<lparr>deque := dq\<rparr>, sh\<lparr>task_mem := h\<rparr>) ?g0 ?s0"
    by (rule control_moved [OF moved_owned [OF m0]]) (use w0 in simp_all)
  have li: "linv {#} s" "busy {#} s" "owns {#} s" using r by (simp_all add: ready_def)
  have a0: "works cfg {#} s {#} ?s0"
    unfolding s by (rule memory_works [OF li(1) [unfolded s] w0(4)]) (simp add: user_memory_def)
  have r0: "ready ?s0"
    using worksD(1) [OF a0] owns_works [OF li(3) a0] li(2) s w0(4)
    by (simp add: ready_def busy_def view_def same_protocol_def)
  note r1 = runs_ready [OF r0 share_work_runs [OF sw r0]]
  have c: "conserves {} ?s0 s'"
    using conserves_trans [OF share_work_conserves [OF sw] handle_loop_conserves [OF cfg hl]] ready_linv [OF r0] ready_linv [OF r1] by blast
  obtain g' D where "moved B ?g0 ?s0 g' s'" "g_hand g' = remove1 x (g_hand g)" "g_acc g' = []" "queued g' = queued ?g0 + D"
    "tasks_split (fst s') = tasks_split w0 + of_nat (size D)" "current_task (fst s') = current_task w0"
    by (rule conservesD [OF c moved_owned [OF m1]]) (use o(2) in auto)
  then show ?thesis using moved_trans [OF m0 moved_trans [OF m1]] w0 s
    by (intro exI [of _ g'] exI [of _ D]) (simp add: queued_def)
qed


text \<open>Popping a task: it comes into the hands of the worker.\<close>

lemma deque_pop_lone:
  assumes "deque_pop h dq = Some (x, dq', h')" "x \<noteq> NULL" "loose h' x"
  shows "lone h' x"
proof -
  obtain h1 where "assign h1 x (\<lambda>t. t\<lparr>t_next := NULL\<rparr>) = Some h'"
    using assms(1,2) by (auto simp: deque_pop_def Let_def bind_eq_Some_conv split: if_splits)
  then show ?thesis using assms(2,3) by (auto simp: assign_Some lone_links loose_def)
qed

lemma pop_moved:
  assumes o: "owned B g (w, sh)"
    and p: "(if children then deque_pop_child (task_mem sh) (deque w) (get_current_task w) else deque_pop (task_mem sh) (deque w)) =
      Some (x, dq, h)"
  shows "x = NULL \<and> dq = deque w \<and> h = task_mem sh \<or>
    (\<exists>ts. g_dq g = x # ts \<and> x \<noteq> NULL \<and>
      moved B g (w, sh) (g\<lparr>g_dq := ts, g_hand := x # g_hand g\<rparr>) (w\<lparr>deque := dq\<rparr>, sh\<lparr>task_mem := h\<rparr>))"
proof (cases "x = NULL")
  case True
  then show ?thesis using deque_pop_any [OF p] by simp
next
  case False
  note rel = ownedD(1) [OF o]
  have p': "deque_pop (task_mem sh) (deque w) = Some (x, dq, h)"
  proof (cases children)
    case True
    then have "get_current_task w \<noteq> NULL" using p by (auto simp: deque_pop_child_def)
    then show ?thesis using deque_pop_child_eq [OF rel, of "get_current_task w"] p True False by (auto split: if_splits)
  qed (use p in simp)
  then obtain y ts where dq: "g_dq g = y # ts" using False deque_pop_empty [of "task_mem sh" "deque w" "g_free g"] rel by (cases "g_dq g") auto
  from deque_pop_rel [OF rel [unfolded dq]] p' have d: "y = x" "deque_rel h dq ts (g_free g)" "dq_tail dq = dq_tail (deque w)" "loose h x"
    "only_links (nodes (deque w) (g_dq g) (g_free g)) (task_mem sh) h" using dq by auto
  have l: "lone h x" by (rule deque_pop_lone [OF p' False d(4)])
  have "moved B g (w, sh) (g\<lparr>g_dq := ts, g_hand := x # g_hand g\<rparr>) (w\<lparr>deque := dq\<rparr>, sh\<lparr>task_mem := h\<rparr>)"
  proof (rule nodes_moved [OF o])
    have "a \<notin> nodes (deque w) (g_dq g) (g_free g)" if "a \<in> set (g_acc g)" for a using that owned_distinct(1) [OF o] by auto
    then have "\<forall>a \<in> set (g_acc g). h a = task_mem sh a" using d(5) by (simp add: only_links_def)
    then show "dll h NULL (g_acc (g\<lparr>g_dq := ts, g_hand := x # g_hand g\<rparr>)) NULL" using ownedD(4) [OF o] dll_cong [of "g_acc g" h "task_mem sh"] by simp
  qed (use d l dq in auto)
  then show ?thesis using dq d(1) False by blast
qed

lemma RT_pop_conserves:
  assumes cfg: "MAXSTEAL cfg = 1" and p: "RT_pop env cfg children s = Some (x, s')" and r: "ready s"
    and o: "owned B g s" "g_acc g = []"
  shows "\<exists>g' D. moved B g s g' s' \<and> g_hand g' = (if x = NULL then g_hand g else x # g_hand g) \<and> g_acc g' = [] \<and>
    queued g' + (if x = NULL then {#} else {#x#}) = queued g + D \<and>
    tasks_split (fst s') = tasks_split (fst s) + of_nat (size D) \<and> current_task (fst s') = current_task (fst s)"
proof -
  obtain w sh where s: "s = (w, sh)" by (cases s)
  obtain dq h s1 s2 where
    d: "(if children then deque_pop_child (task_mem sh) (deque w) (get_current_task w) else deque_pop (task_mem sh) (deque w)) = Some (x, dq, h)"
    and e: "(case STEAL_EARLY_THRESHOLD cfg of
          None \<Rightarrow> Some (w\<lparr>deque := dq\<rparr>, sh\<lparr>task_mem := h\<rparr>)
        | Some early \<Rightarrow>
            if x \<noteq> NULL then do {
              t \<leftarrow> deref (task_mem (sh\<lparr>task_mem := h\<rparr>)) x;
              if \<not> t_splittable t then try_steal env cfg early (w\<lparr>deque := dq\<rparr>, sh\<lparr>task_mem := h\<rparr>)
              else Some (w\<lparr>deque := dq\<rparr>, sh\<lparr>task_mem := h\<rparr>)
            } else Some (w\<lparr>deque := dq\<rparr>, sh\<lparr>task_mem := h\<rparr>)) = Some s1"
    and sw: "share_work env cfg s1 = Some s2" and pl: "pop_loop env cfg x s2 = Some s'"
    using p s by (auto simp: RT_pop_def Let_def bind_eq_Some_conv)
  let ?s0 = "(w\<lparr>deque := dq\<rparr>, sh\<lparr>task_mem := h\<rparr>)"
  obtain g0 where m0: "moved B g s g0 ?s0" and g0: "g_hand g0 = (if x = NULL then g_hand g else x # g_hand g)" "g_acc g0 = []"
      "queued g0 + (if x = NULL then {#} else {#x#}) = queued g"
    using pop_moved [OF o(1) [unfolded s] d]
  proof
    assume n: "x = NULL \<and> dq = deque w \<and> h = task_mem sh"
    then have "moved B g s g ?s0" unfolding s by (intro aside_moved) (use o(1) s in \<open>simp_all add: aside_def\<close>)
    then show ?thesis using that n o(2) by simp
  next
    assume "\<exists>ts. g_dq g = x # ts \<and> x \<noteq> NULL \<and> moved B g (w, sh) (g\<lparr>g_dq := ts, g_hand := x # g_hand g\<rparr>) ?s0"
    then show ?thesis using that s o(2) by (auto simp: queued_def)
  qed
  have a0: "runs cfg s ?s0"
    unfolding s by (rule runs_control [OF r [unfolded s]]) (simp_all add: same_control_def same_protocol_def user_memory_def)
  note r0 = runs_ready [OF r a0]
  have "s1 = ?s0 \<or> try_send_steal_request (env_rand env) cfg False ?s0 = Some s1"
    using e by (auto simp: try_steal_def bind_eq_Some_conv split: option.splits if_splits)
  then have a1: "runs cfg ?s0 s1" and c1: "aside ?s0 s1" using runs_refl [OF r0] try_send_runs [OF cfg _ r0, of _ s1] try_send_aside [of _ _ _ _ _ s1] by auto
  note r1 = runs_ready [OF r0 a1] and r2 = runs_ready [OF runs_ready [OF r0 a1] share_work_runs [OF sw runs_ready [OF r0 a1]]]
  let ?T = "if x = NULL then {} else {x}"
  have "conserves ?T s1 s2" using conserves_mono [OF share_work_conserves [OF sw]] ready_linv [OF r1] by blast
  moreover have "conserves ?T s2 s'" using pop_loop_conserves [OF cfg pl, of "{#}" ?T] ready_linv [OF r2] by simp
  ultimately have c: "conserves ?T ?s0 s'" using conserves_trans aside_conserves [OF c1] by blast
  obtain g' D where "moved B g0 ?s0 g' s'" "g_hand g' = g_hand g0" "g_acc g' = []" "queued g' = queued g0 + D"
    "tasks_split (fst s') = tasks_split (fst ?s0) + of_nat (size D)" "current_task (fst s') = current_task (fst ?s0)"
    by (rule conservesD [OF c moved_owned [OF m0]]) (use g0 in auto)
  then show ?thesis using moved_trans [OF m0] g0 s by (intro exI [of _ g'] exI [of _ D]) (auto simp: ac_simps)
qed


text \<open>Receiving tasks: the message comes into the hands of the worker.\<close>

lemma receive_moved:
  assumes o: "owned B g (w, sh)" "g_acc g = []" and i: "i < nat (num_workers sh)" "i < length (chan_tasks sh)"
    and c: "chan_tasks sh ! i = [task # q]"
  shows "\<exists>us. us \<noteq> [] \<and> hd us = task \<and> moved B g (w, sh) (g\<lparr>g_chan := (g_chan g)[i := []], g_acc := us\<rparr>)
      (w, sh\<lparr>chan_tasks := (chan_tasks sh)[i := [q]]\<rparr>) \<and> queued (g\<lparr>g_chan := (g_chan g)[i := []], g_acc := us\<rparr>) = queued g"
proof -
  define us where "us = g_chan g ! i"
  have l: "i < length (g_chan g)" using i(1) ownedD(6) [OF o(1)] by simp
  have u: "dll (task_mem sh) NULL us NULL" "us \<noteq> []" "hd us = task" "q = []"
    using ownedD(2) [OF o(1) i(1)] c by (auto simp: in_chan_def us_def split: if_splits)
  have m: "mset (concat ((g_chan g)[i := []])) + mset us = mset (concat (g_chan g))"
    using mset_concat_update [OF l, of "[]"] by (simp add: us_def)
  let ?g = "g\<lparr>g_chan := (g_chan g)[i := []], g_acc := us\<rparr>" and ?s = "(w, sh\<lparr>chan_tasks := (chan_tasks sh)[i := [q]]\<rparr>)"
  have "moved B g (w, sh) ?g ?s"
  proof (rule movedI [OF o(1)])
    have "in_chan (task_mem sh) [[]] []" by (simp add: in_chan_def)
    then show "well_placed (task_mem (snd ?s)) ?g ?s"
      using o(1) i(2) u by (auto simp: owned_def well_placed_def outside_def nth_list_update)
    have "cells ?g ?s = places ?g (deque w) @ mallocs sh" by (simp add: cells_def)
    then have "mset (cells ?g ?s) = mset (g_dq g @ dq_tail (deque w) # g_free g @ g_hand g @ g_root g @ mallocs sh) +
        (mset (concat ((g_chan g)[i := []])) + mset us)" by (simp add: places_def besides_def)
    then show "mset (cells ?g ?s) \<subseteq># mset (cells g (w, sh))"
      unfolding m using o(2) by (simp add: cells_def places_def besides_def)
  qed (use ownedD(7) [OF o(1)] in simp_all)
  moreover have "queued ?g = queued g" using m o(2) by (simp add: queued_def)
  ultimately show ?thesis using u by blast
qed

lemma RECV_TASK_conserves:
  assumes inv: "linv {#} s" and cfg: "MAXSTEAL cfg = 1" and rt: "RECV_TASK rand cfg idle s = Some (r, s')"
    and o: "owned B g s" "g_acc g = []"
  shows "\<exists>g'. moved B g s g' s' \<and> g_hand g' = g_hand g \<and> queued g' = queued g \<and>
    (case r of None \<Rightarrow> g_acc g' = [] | Some task \<Rightarrow> g_acc g' \<noteq> [] \<and> hd (g_acc g') = task) \<and>
    tasks_split (fst s') = tasks_split (fst s) \<and> current_task (fst s') = current_task (fst s)"
proof -
  obtain w sh w' sh' where s: "s = (w, sh)" "s' = (w', sh')" by (cases s; cases s')
  have ch: "chans_ok sh" and t: "tree_ok (num_workers sh) w" using inv s by (simp_all add: linv_def held_ok_def)
  note l = tree_ok_links(4,5) [OF t]
  note loop = recv_task_loop_one [OF ch l]
  have il: "nat (ID w) < nat (num_workers sh)" "nat (ID w) < length (chan_tasks sh)" using l chans_okD(3) [OF ch] by auto
  have "length (chan_tasks sh ! nat (ID w)) = 1" using chans_okD(5) [OF ch il(1)] .
  then obtain c where c: "chan_tasks sh ! nat (ID w) = [c]" by (metis One_nat_def length_0_conv length_Suc_conv)
  show ?thesis
  proof (cases c)
    case Nil
    then have "try_send_steal_request rand cfg idle (w, sh) = Some (w', sh')" "r = None"
      using rt cfg loop c s by (auto simp: RECV_TASK_def bind_eq_Some_conv)
    then have "aside s s'" using try_send_aside s by simp
    then show ?thesis using aside_moved [OF o(1)] o(2) \<open>r = None\<close> by (intro exI [of _ g]) (simp add: aside_def)
  next
    case (Cons task q)
    let ?sh = "sh\<lparr>chan_tasks := (chan_tasks sh)[nat (ID w) := [q]]\<rparr>"
    have rt': "(CHANNEL_PUSH (ID w, 0) w \<bind> (\<lambda>w. Some (Some task, w, ?sh))) \<bind> (\<lambda>(r, w, sh). case r of
       None \<Rightarrow> do { s \<leftarrow> try_send_steal_request rand cfg idle (w, sh); Some (None, s) }
     | Some task \<Rightarrow> do {
         w \<leftarrow>
           (if waiting_for_tasks (tree w) then do {
              assertion (requested w = MAXSTEAL cfg);
              assertion (uint (bs_top (channel_stack w)) = MAXSTEAL cfg);
              Some (w\<lparr>requested := 1, tree := (tree w)\<lparr>waiting_for_tasks := False\<rparr>,
                dropped_steal_requests := 0\<rparr>)
            } else if MAXSTEAL cfg > 1 \<and> dropped_steal_requests w > 0 then do {
              assertion (requested w > dropped_steal_requests w);
              Some (w\<lparr>requested := requested w - dropped_steal_requests w,
                dropped_steal_requests := 0\<rparr>)
            } else Some w);
         let w = w\<lparr>requested := requested w - 1\<rparr>;
         assertion (0 \<le> requested w \<and> requested w < MAXSTEAL cfg);
         assertion (dropped_steal_requests w = 0);
         Some (Some task, w, sh)
       }) = Some (r, s')"
      using rt cfg loop c Cons s by (simp add: RECV_TASK_def)
    then obtain w1 where w1: "CHANNEL_PUSH (ID w, 0) w = Some w1" by (auto simp: bind_eq_Some_conv)
    have r: "r = Some task" "sh' = ?sh" using rt' w1 s by (auto simp: Let_def bind_eq_Some_conv)
    have "deque w' = deque w1" "current_task w' = current_task w1" "tasks_split w' = tasks_split w1"
      using rt' w1 s by (auto simp: Let_def bind_eq_Some_conv split: if_splits)
    note w = w1 this
    have e: "deque w' = deque w" "current_task w' = current_task w" "tasks_split w' = tasks_split w"
      using w by (auto simp: CHANNEL_PUSH_def bind_eq_Some_conv)
    obtain us where us: "us \<noteq> []" "hd us = task" and m: "moved B g (w, sh) (g\<lparr>g_chan := (g_chan g)[nat (ID w) := []], g_acc := us\<rparr>) (w, sh')"
      "queued (g\<lparr>g_chan := (g_chan g)[nat (ID w) := []], g_acc := us\<rparr>) = queued g"
      using receive_moved [OF o(1) [unfolded s] o(2) il] c Cons r(2) by auto
    have "moved B (g\<lparr>g_chan := (g_chan g)[nat (ID w) := []], g_acc := us\<rparr>) (w, sh') (g\<lparr>g_chan := (g_chan g)[nat (ID w) := []], g_acc := us\<rparr>) (w', sh')"
      by (rule control_moved [OF moved_owned [OF m(1)]]) (use e in simp_all)
    then show ?thesis using moved_trans [OF m(1)] m(2) us r(1) e s
      by (intro exI [of _ "g\<lparr>g_chan := (g_chan g)[nat (ID w) := []], g_acc := us\<rparr>"]) simp
  qed
qed

text \<open>Accepting them: all but the first go to the deque.\<close>

lemma prepend_moved:
  assumes o: "owned B g (w, sh)" and us: "g_acc g \<noteq> []" and p: "deque_prepend_list (task_mem sh) (deque w) (hd (g_acc g)) = Some (dq, h)"
  shows "moved B g (w, sh) (g\<lparr>g_dq := g_acc g @ g_dq g, g_acc := []\<rparr>) (w\<lparr>deque := dq\<rparr>, sh\<lparr>task_mem := h\<rparr>)"
proof -
  note rel = ownedD(1) [OF o] and ch = ownedD(4) [OF o]
  let ?n = "nodes (deque w) (g_dq g) (g_free g)"
  have dis: "set (g_acc g) \<inter> ?n = {}" "distinct (g_acc g)" using owned_distinct(1,3) [OF o] by auto
  have "distinct (g_acc g @ g_dq g)" "set (g_acc g @ g_dq g) \<subseteq> B"
    using dis owned_distinct(2,6) [OF o] ownedD(9) [OF o] by (auto simp: nodes_def cells_def places_def besides_def)
  from few_objects [OF o this] have len: "length (g_acc g) + length (g_dq g) < 2 ^ 32" by simp
  then have "deque_prepend (task_mem sh) (deque w) (hd (g_acc g)) (last (g_acc g)) (of_nat (length (g_acc g))) = Some (dq, h)"
    using p deque_prepend_eq(1) [OF ch us, of "deque w"] by simp
  then have d: "deque_rel h dq (g_acc g @ g_dq g) (g_free g)" "dq_tail dq = dq_tail (deque w)" "only_links (set (g_acc g) \<union> ?n) (task_mem sh) h"
    using deque_prepend_rel [OF rel ch us dis(2,1) len] by auto
  have f: "h a = task_mem sh a" if "a \<notin> set (g_acc g) \<union> ?n" for a using d(3) that by (simp add: only_links_def)
  show ?thesis
  proof (rule deque_moved [OF o, where A = "set (g_acc g) \<union> ?n"])
    show "set (g_acc g) \<union> ?n \<subseteq> set (cells g (w, sh))" by (auto simp: nodes_def cells_def places_def besides_def)
    show "(set (g_acc g) \<union> ?n) \<inter> set (concat (g_chan g) @ g_root g) = {}"
      using owned_distinct(1) [OF o] ownedD(8) [OF o] by (auto simp: cells_def places_def besides_def)
    show "lone h y" if "y \<in> set (g_hand (g\<lparr>g_dq := g_acc g @ g_dq g, g_acc := []\<rparr>))" for y
    proof -
      have y: "y \<in> set (g_hand g)" using that by simp
      then have "y \<notin> set (g_acc g) \<union> ?n" using owned_distinct(1,5) [OF o] by auto
      then show ?thesis using lone_frame [of h y "task_mem sh"] f ownedD(3) [OF o y] by simp
    qed
  qed (use d f ownedD(7) [OF o] in auto)
qed


lemma acc_hand:
  assumes o: "owned B g (w, sh)" and a: "g_acc g = [x]"
  shows "moved B g (w, sh) (g\<lparr>g_acc := [], g_hand := x # g_hand g\<rparr>) (w, sh)"
proof (rule movedI [OF o])
  show "well_placed (task_mem (snd (w, sh))) (g\<lparr>g_acc := [], g_hand := x # g_hand g\<rparr>) (w, sh)"
    using o a by (simp add: owned_def well_placed_def outside_def lone_def)
  show "mset (cells (g\<lparr>g_acc := [], g_hand := x # g_hand g\<rparr>) (w, sh)) \<subseteq># mset (cells g (w, sh))"
    using a by (simp add: cells_def places_def besides_def)
qed (use ownedD(7) [OF o] in auto)

lemma accept_tasks_conserves:
  assumes acc: "accept_tasks env cfg task s = Some (task', s')" and r: "ready s"
    and o: "owned B g s" and a: "g_acc g = task # vs"
  shows "task' = task \<and> (\<exists>g' D. moved B g s g' s' \<and> g_hand g' = task # g_hand g \<and> g_acc g' = [] \<and>
    queued g' + {#task#} = queued g + D \<and>
    tasks_split (fst s') = tasks_split (fst s) + of_nat (size D) \<and> current_task (fst s') = current_task (fst s))"
proof -
  obtain w sh where s: "s = (w, sh)" by (cases s)
  obtain t w0 where t: "deref (task_mem sh) task = Some t" and
    v: "(if VICTIM cfg = Last_Victim \<and> t_victim t \<noteq> - 1 then do {
         assertion (t_victim t \<noteq> ID w);
         Some (w\<lparr>last_victim := t_victim t\<rparr>)
       } else Some w) = Some w0"
    using acc s by (auto simp: accept_tasks_def Let_def bind_eq_Some_conv)
  obtain task1 w1 sh1 where
    d: "(if t_next t \<noteq> NULL then do {
          (dq, h) \<leftarrow> deque_prepend_list (task_mem sh) (deque w0) task;
          (task, dq, h) \<leftarrow> deque_pop h dq;
          Some (task, w0\<lparr>deque := dq\<rparr>, sh\<lparr>task_mem := h\<rparr>)
        } else Some (task, w0, sh)) = Some (task1, w1, sh1)"
    and sw: "share_work env cfg (if STEAL cfg = Steal_Adaptive then w1\<lparr>num_recent_steals := num_recent_steals w1 + 1\<rparr>
      else w1, sh1) = Some s'" and t1: "task' = task1"
    using acc s t v by (auto simp: accept_tasks_def Let_def bind_eq_Some_conv)
  let ?w2 = "if STEAL cfg = Steal_Adaptive then w1\<lparr>num_recent_steals := num_recent_steals w1 + 1\<rparr> else w1"
  have as: "aside (w, sh) (w0, sh)" using v by (auto simp: aside_def bind_eq_Some_conv split: if_splits)
  have m0: "moved B g (w, sh) g (w0, sh)" by (rule aside_moved [OF o [unfolded s] as])
  have nx: "t_next t = hd (vs @ [NULL])" "NULL \<notin> set vs"
    using ownedD(4) [OF o [unfolded s]] a t dll_not_NULL [of "task_mem sh" NULL "task # vs" NULL] by auto
  obtain g1 where m1: "moved B g (w0, sh) g1 (w1, sh1)" and g1: "g_hand g1 = task # g_hand g" "g_acc g1 = []"
      "queued g1 + {#task#} = queued g" "task1 = task" "\<exists>dq. w1 = w0\<lparr>deque := dq\<rparr>" "user_memory sh sh1"
  proof (cases vs)
    case Nil
    then have e: "task1 = task" "w1 = w0" "sh1 = sh" using d nx by auto
    have m: "moved B g (w0, sh) (g\<lparr>g_acc := [], g_hand := task # g_hand g\<rparr>) (w1, sh1)"
      unfolding e by (rule acc_hand [OF moved_owned [OF m0]]) (use a Nil in simp)
    have "w1 = w0\<lparr>deque := deque w0\<rparr>" using e(2) by simp
    then have ex: "\<exists>dq. w1 = w0\<lparr>deque := dq\<rparr>" by (rule exI)
    show ?thesis by (rule that [OF m _ _ _ e(1) ex]) (use a Nil e in \<open>simp_all add: queued_def\<close>)
  next
    case (Cons v ws)
    then have "t_next t \<noteq> NULL" using nx by auto
    then obtain dq h dq' h' where p: "deque_prepend_list (task_mem sh) (deque w0) (hd (g_acc g)) = Some (dq, h)"
      "deque_pop h dq = Some (task1, dq', h')" "w1 = w0\<lparr>deque := dq'\<rparr>" "sh1 = sh\<lparr>task_mem := h'\<rparr>"
      using d a by (auto simp: bind_eq_Some_conv)
    let ?g = "g\<lparr>g_dq := g_acc g @ g_dq g, g_acc := []\<rparr>"
    have m2: "moved B g (w0, sh) ?g (w0\<lparr>deque := dq\<rparr>, sh\<lparr>task_mem := h\<rparr>)"
      by (rule prepend_moved [OF moved_owned [OF m0] _ p(1)]) (use a in simp)
    note o2 = moved_owned [OF m2]
    have "\<not> deque_empty dq" using deque_empty_rel [OF ownedD(1) [OF o2]] a by simp
    then have "task1 \<noteq> NULL" using p(2) by (auto simp: deque_pop_def Let_def deref_Some bind_eq_Some_conv)
    then obtain ts where ts: "g_dq ?g = task1 # ts" and
      m3: "moved B ?g (w0\<lparr>deque := dq\<rparr>, sh\<lparr>task_mem := h\<rparr>) (?g\<lparr>g_dq := ts, g_hand := task1 # g_hand ?g\<rparr>) (w1, sh1)"
      using pop_moved [OF o2, of False task1 dq' h'] p by auto
    have e: "task1 = task" "ts = vs @ g_dq g" using ts a by simp_all
    show ?thesis
      by (rule that [OF moved_trans [OF m2 m3] _ _ _ e(1) exI [of _ dq']]) (use e p a in \<open>simp_all add: queued_def user_memory_def\<close>)
  qed
  have m2: "moved B g1 (w1, sh1) g1 (?w2, sh1)" by (rule control_moved [OF moved_owned [OF m1]]) simp_all
  have k: "same_control w ?w2" using v g1(5) by (auto simp: same_control_def same_protocol_def bind_eq_Some_conv split: if_splits)
  have r2: "ready (?w2, sh1)" using runs_ready [OF r runs_control [of w sh ?w2 sh1, folded s]] r k g1(6) by simp
  obtain g' D where g': "moved B g1 (?w2, sh1) g' s'" "g_hand g' = g_hand g1" "g_acc g' = []" "queued g' = queued g1 + D"
    "tasks_split (fst s') = tasks_split (fst (?w2, sh1)) + of_nat (size D)" "current_task (fst s') = current_task (fst (?w2, sh1))"
    by (rule conservesD [OF share_work_conserves [OF sw] moved_owned [OF m2]]) (use r2 g1 in \<open>auto simp: ready_def\<close>)
  have w2: "tasks_split ?w2 = tasks_split w" "current_task ?w2 = current_task w" using g1(5) as by (auto simp: aside_def)
  have q: "queued g' + {#task#} = queued g + D" using g'(4) g1(3) by (simp add: union_assoc)
  show ?thesis
    using moved_trans [OF m0 moved_trans [OF m1 moved_trans [OF m2 g'(1)]]] g' g1 w2 q t1 s
    by (intro conjI exI [of _ g'] exI [of _ D]) simp_all
qed

text \<open>A task that has returned: its object goes to the free list.\<close>

lemma finish_task_conserves:
  assumes f: "finish_task x this s = Some s'" and o: "owned B g s" and x: "x \<in> set (g_hand g)"
    and t: "this = NULL \<or> this \<in> set (remove1 x (g_hand g) @ g_root g)"
  shows "moved B g s (g\<lparr>g_free := x # g_free g, g_hand := remove1 x (g_hand g)\<rparr>) s' \<and>
    tasks_split (fst s') = tasks_split (fst s) \<and> current_task (fst s') = this"
proof -
  obtain w sh w' sh' where s: "s = (w, sh)" "s' = (w', sh')" by (cases s; cases s')
  obtain w1 dq h where l: "run_task_leave x this (w, sh) = Some (w1, sh)" and
    c: "deque_task_cache (task_mem sh) (deque w1) x = Some (dq, h)" and e: "w' = w1\<lparr>deque := dq\<rparr>" "sh' = sh\<lparr>task_mem := h\<rparr>"
    using f s by (auto simp: finish_task_def run_task_leave_def Let_def bind_eq_Some_conv)
  have w1: "deque w1 = deque w" "tasks_split w1 = tasks_split w" "current_task w1 = this"
    using l by (auto simp: run_task_leave_def set_current_task_def Let_def bind_eq_Some_conv)
  have "owned B g (w1, sh)"
    using o s w1 t by (auto simp: owned_def well_placed_def cells_def dest: notin_set_remove1)
  then have m0: "moved B g (w, sh) g (w1, sh)" by (simp add: moved_def)
  note o1 = moved_owned [OF m0]
  obtain tx where tx: "deref (task_mem sh) x = Some tx" using ownedD(3) [OF o1 x] by (auto simp: lone_links)
  have xn: "x \<notin> nodes (deque w1) (g_dq g) (g_free g)" using owned_distinct(1) [OF o1] x by auto
  have d: "deque_rel h dq (g_dq g) (x # g_free g)" "dq_tail dq = dq_tail (deque w1)" "\<forall>a. a \<noteq> x \<longrightarrow> h a = task_mem sh a"
    using deque_task_cache_rel [OF ownedD(1) [OF o1] tx xn] c by auto
  let ?g = "g\<lparr>g_free := x # g_free g, g_hand := remove1 x (g_hand g)\<rparr>"
  have "moved B g (w1, sh) ?g (w1\<lparr>deque := dq\<rparr>, sh\<lparr>task_mem := h\<rparr>)"
  proof (rule deque_moved [OF o1, where A = "{x}"])
    show "{x} \<subseteq> set (cells g (w1, sh))" using x by (simp add: cells_def places_def besides_def)
    show "{x} \<inter> set (concat (g_chan g) @ g_root g) = {}" using owned_distinct(5) [OF o1] x by auto
    show "lone h y" if "y \<in> set (g_hand ?g)" for y
    proof -
      have y: "y \<in> set (g_hand g)" "y \<noteq> x" using that owned_distinct(4) [OF o1] by auto
      then show ?thesis using lone_frame [of h y "task_mem sh"] d(3) ownedD(3) [OF o1 y(1)] by simp
    qed
    show "dll h NULL (g_acc ?g) NULL"
    proof -
      have "\<forall>a \<in> set (g_acc g). h a = task_mem sh a" using d(3) owned_distinct(5) [OF o1] x by auto
      then show ?thesis using ownedD(4) [OF o1] dll_cong [of "g_acc g" h "task_mem sh"] by simp
    qed
  qed (use d x t w1 in auto)
  then show ?thesis using moved_trans [OF m0] e s w1 by simp
qed

end
