(* ===== verification/Accounts.thy ===== *)
theory Accounts
  imports Transfers
begin

text \<open>
  What a worker does with task objects from step to step. The steps of a worker are followed together with the
  task objects it creates, pushes and calls. The main program and the tasks are arbitrary except that they
  push only task objects they have allocated and not yet pushed, and that they leave the links of task objects
  alone. Every step keeps the places of the objects in order and accounts for the tasks it pushes and calls.
\<close>

section \<open>The tasks on a stack of activations\<close>

text \<open>The task a suspended loop has called, with the one that was running before.\<close>

fun frame_task :: "frame \<Rightarrow> (addr \<times> addr) option" where
  "frame_task (Schedule (Resume task this stolen)) = Some (task, this)"
| "frame_task (Barrier (Resume task this stolen)) = Some (task, this)"
| "frame_task (Force this f n (FChild task prev)) = Some (task, prev)"
| "frame_task (Force this f n (FStolen task prev)) = Some (task, prev)"
| "frame_task f = None"

text \<open>The first of the tasks a loop has received and is about to accept.\<close>

fun accept_of :: "frame \<Rightarrow> addr option" where
  "accept_of (Schedule (Accept task)) = Some task"
| "accept_of (Barrier (Accept task)) = Some task"
| "accept_of (Force this f n (FAccept task)) = Some task"
| "accept_of f = None"

fun running :: "frame list \<Rightarrow> addr list" where
  "running [] = []"
| "running (f # fs) = (case frame_task f of None \<Rightarrow> running fs | Some (task, prev) \<Rightarrow> task # running fs)"

definition top_task :: "addr \<Rightarrow> frame list \<Rightarrow> addr" where
  "top_task r fs = hd (running fs @ [r])"

fun resumes :: "addr \<Rightarrow> frame list \<Rightarrow> bool" where
  "resumes r [] = True"
| "resumes r (f # fs) = (resumes r fs \<and> (case frame_task f of None \<Rightarrow> True | Some (task, prev) \<Rightarrow> prev = top_task r fs))"

lemma top_task_Cons: "top_task r (f # fs) = (case frame_task f of None \<Rightarrow> top_task r fs | Some (task, prev) \<Rightarrow> task)"
  by (auto simp: top_task_def split: option.split)

text \<open>
  What a worker with the root task \<open>r\<close> (\<open>NULL\<close> for all but the master) has in its hands: the objects \<open>F\<close> it has
  allocated and not yet pushed, and the tasks its loops have called.
\<close>

definition holding :: "addr \<Rightarrow> addr set \<Rightarrow> own \<Rightarrow> addr list \<Rightarrow> frame list \<Rightarrow> wst \<Rightarrow> bool" where
  "holding r B g F fs s \<longleftrightarrow> owned B g s \<and> mset (g_hand g) = mset F + mset (running fs) \<and>
     g_root g = (if r = NULL then [] else [r]) \<and> resumes r fs \<and> current_task (fst s) = top_task r fs \<and>
     (\<forall>f \<in> set (tl fs). accept_of f = None) \<and>
     (case accept_of (hd fs) of None \<Rightarrow> g_acc g = [] | Some task \<Rightarrow> g_acc g \<noteq> [] \<and> hd (g_acc g) = task)"

text \<open>
  A step that pushes the tasks \<open>P\<close>, calls the tasks \<open>C\<close> and splits off as many as the counter says.
\<close>

definition accounts :: "addr \<Rightarrow> addr set \<Rightarrow> own \<Rightarrow> wst \<Rightarrow> addr list \<Rightarrow> addr list \<Rightarrow> addr list \<Rightarrow> frame list \<Rightarrow> wst \<Rightarrow> bool" where
  "accounts r B g s P C F' fs' s' \<longleftrightarrow> (\<exists>g' D. holding r B g' F' fs' s' \<and> moved B g s g' s' \<and>
     queued g' + mset C = queued g + mset P + D \<and> tasks_split (fst s') = tasks_split (fst s) + of_nat (size D))"

lemma holdingD:
  assumes "holding r B g F (f # fs) s"
  shows "owned B g s" "mset (g_hand g) = mset F + mset (running (f # fs))" "resumes r fs" "current_task (fst s) = top_task r (f # fs)"
    "\<forall>f \<in> set fs. accept_of f = None" "accept_of f = None \<Longrightarrow> g_acc g = []"
    "accept_of f = Some task \<Longrightarrow> \<exists>vs. g_acc g = task # vs"
    "frame_task f = Some (x, p) \<Longrightarrow> x \<in> set (g_hand g) \<and> p = top_task r fs"
proof -
  show m: "mset (g_hand g) = mset F + mset (running (f # fs))" using assms by (simp add: holding_def)
  show "accept_of f = Some task \<Longrightarrow> \<exists>vs. g_acc g = task # vs" using assms by (cases "g_acc g") (auto simp: holding_def)
  show "frame_task f = Some (x, p) \<Longrightarrow> x \<in> set (g_hand g) \<and> p = top_task r fs"
    using assms m by (auto simp: holding_def simp flip: set_mset_mset)
qed (use assms in \<open>auto simp: holding_def split: option.splits\<close>)

section \<open>Steps of loops\<close>

text \<open>A step that has nothing to do with tasks.\<close>

lemma aside_accounts:
  assumes h: "holding r B g F (f # fs) s" and a: "aside s s'"
    and f: "frame_task f' = frame_task f" "accept_of f' = accept_of f"
  shows "accounts r B g s [] [] F (f' # fs) s'"
proof -
  have m: "moved B g s g s'" by (rule aside_moved [OF holdingD(1) [OF h] a])
  have "holding r B g F (f' # fs) s'"
    using h f a moved_owned [OF m] by (simp add: holding_def aside_def top_task_Cons)
  then show ?thesis using m a unfolding accounts_def by (intro exI [of _ g] exI [of _ "{#}"]) (simp add: aside_def)
qed

lemma accounts_aside:
  assumes "accounts r B g s P C F' (f # fs) s1" "aside s1 s'" "frame_task f' = frame_task f" "accept_of f' = accept_of f"
  shows "accounts r B g s P C F' (f' # fs) s'"
proof -
  obtain g1 D where h: "holding r B g1 F' (f # fs) s1" "moved B g s g1 s1" "queued g1 + mset C = queued g + mset P + D"
    "tasks_split (fst s1) = tasks_split (fst s) + of_nat (size D)" using assms(1) unfolding accounts_def by blast
  obtain g2 D2 where h2: "holding r B g2 F' (f' # fs) s'" "moved B g1 s1 g2 s'" "queued g2 = queued g1 + D2"
    "tasks_split (fst s') = tasks_split (fst s1) + of_nat (size D2)"
    using aside_accounts [OF h(1) assms(2-4)] unfolding accounts_def by auto
  have "queued g2 + mset C = queued g + mset P + (D + D2)" using h2(3) h(3) by (metis (no_types, lifting) union_assoc union_commute)
  then show ?thesis using h2 h(4) moved_trans [OF h(2) h2(2)] unfolding accounts_def
    by (intro exI [of _ g2] exI [of _ "D + D2"]) simp
qed

text \<open>Handling requests.\<close>

lemma conserves_accounts:
  assumes h: "holding r B g F (f # fs) s" and c: "conserves {} s s'"
    and f: "frame_task f' = frame_task f" "accept_of f = None" "accept_of f' = None"
  shows "accounts r B g s [] [] F (f' # fs) s'"
proof -
  note H = holdingD [OF h]
  obtain g' D where g': "moved B g s g' s'" "g_hand g' = g_hand g" "g_acc g' = []" "queued g' = queued g + D"
    "tasks_split (fst s') = tasks_split (fst s) + of_nat (size D)" "current_task (fst s') = current_task (fst s)"
    by (rule conservesD [OF c H(1)]) (use H(6) f(2) in auto)
  have "holding r B g' F (f' # fs) s'"
    using h f g' moved_owned [OF g'(1)] by (simp add: holding_def top_task_Cons moved_def)
  then show ?thesis using g' unfolding accounts_def by (intro exI [of _ g'] exI [of _ D]) simp
qed

text \<open>Calling a task that has been popped or accepted.\<close>

lemma call_accounts:
  assumes h: "holding r B g F (f # fs) s" and m: "moved B g s g1 s1" "g_hand g1 = x # g_hand g" "g_acc g1 = []"
      "queued g1 + {#x#} = queued g + D" "tasks_split (fst s1) = tasks_split (fst s) + of_nat (size D)"
      "current_task (fst s1) = current_task (fst s)"
    and f: "frame_task f = None" "frame_task f' = Some (x, get_current_task (fst s1))" "accept_of f' = None"
  shows "accounts r B g s [] [x] F (Code x # f' # fs) (set_current_task x (fst s1), snd s1)"
proof -
  note H = holdingD [OF h]
  let ?s = "(set_current_task x (fst s1), snd s1)"
  have "owned B g1 ?s" using moved_owned [OF m(1)] m(2) by (simp add: owned_def well_placed_def cells_def set_current_task_def)
  then have m2: "moved B g s g1 ?s" using m(1) by (simp add: moved_def)
  have "holding r B g1 F (Code x # f' # fs) ?s"
    using h m f H(4) moved_owned [OF m2] by (auto simp: holding_def top_task_Cons set_current_task_def get_current_task_def moved_def)
  then show ?thesis using m m2 unfolding accounts_def by (intro exI [of _ g1] exI [of _ D]) (simp add: set_current_task_def)
qed


lemma pop_accounts:
  assumes h: "holding r B g F (f # fs) s" and cfg: "MAXSTEAL cfg = 1" and p: "RT_pop env cfg children s = Some (x, s1)"
    and rd: "ready s" and f: "frame_task f = None" "accept_of f = None" "accept_of f' = None"
  shows "x = NULL \<Longrightarrow> frame_task f' = None \<Longrightarrow> accounts r B g s [] [] F (f' # fs) s1"
    "x \<noteq> NULL \<Longrightarrow> frame_task f' = Some (x, get_current_task (fst s1)) \<Longrightarrow>
      accounts r B g s [] [x] F (Code x # f' # fs) (set_current_task x (fst s1), snd s1)"
proof -
  note H = holdingD [OF h]
  have acc: "g_acc g = []" using H(6) f(2) by simp
  obtain g' D where g': "moved B g s g' s1" "g_hand g' = (if x = NULL then g_hand g else x # g_hand g)" "g_acc g' = []"
    "queued g' + (if x = NULL then {#} else {#x#}) = queued g + D"
    "tasks_split (fst s1) = tasks_split (fst s) + of_nat (size D)" "current_task (fst s1) = current_task (fst s)"
    using RT_pop_conserves [OF cfg p rd H(1) acc] by blast
  show "accounts r B g s [] [] F (f' # fs) s1" if x: "x = NULL" "frame_task f' = None"
  proof -
    have "holding r B g' F (f' # fs) s1"
      using h x f g' moved_owned [OF g'(1)] by (simp add: holding_def top_task_Cons moved_def)
    then show ?thesis using g' x unfolding accounts_def by (intro exI [of _ g'] exI [of _ D]) simp
  qed
  show "accounts r B g s [] [x] F (Code x # f' # fs) (set_current_task x (fst s1), snd s1)"
    if x: "x \<noteq> NULL" "frame_task f' = Some (x, get_current_task (fst s1))"
    by (rule call_accounts [OF h g'(1) _ g'(3) _ g'(5,6) f(1) x(2) f(3)]) (use g' x in simp_all)
qed

lemma receive_accounts:
  assumes h: "holding r B g F (f # fs) s" and cfg: "MAXSTEAL cfg = 1" and p: "RECV_TASK rand cfg idle s = Some (res, s')"
    and inv: "linv {#} s" and f: "frame_task f = None" "accept_of f = None" "frame_task f' = None" "accept_of f' = res"
  shows "accounts r B g s [] [] F (f' # fs) s'"
proof -
  note H = holdingD [OF h]
  have acc: "g_acc g = []" using H(6) f(2) by simp
  obtain g' where g': "moved B g s g' s'" "g_hand g' = g_hand g" "queued g' = queued g"
    "case res of None \<Rightarrow> g_acc g' = [] | Some task \<Rightarrow> g_acc g' \<noteq> [] \<and> hd (g_acc g') = task"
    "tasks_split (fst s') = tasks_split (fst s)" "current_task (fst s') = current_task (fst s)"
    using RECV_TASK_conserves [OF inv cfg p H(1) acc] by blast
  have "holding r B g' F (f' # fs) s'"
    using h f g' moved_owned [OF g'(1)] by (simp add: holding_def top_task_Cons moved_def split: option.splits)
  then show ?thesis using g' unfolding accounts_def by (intro exI [of _ g'] exI [of _ "{#}"]) simp
qed

lemma accept_accounts:
  assumes h: "holding r B g F (f # fs) s" and p: "accept_tasks env cfg task s = Some (task', s1)"
    and rd: "ready s" and f: "frame_task f = None" "accept_of f = Some task"
  shows "task' = task \<and> (\<forall>f'. frame_task f' = Some (task, get_current_task (fst s1)) \<and> accept_of f' = None \<longrightarrow>
    accounts r B g s [] [task] F (Code task # f' # fs) (set_current_task task (fst s1), snd s1))"
proof -
  note H = holdingD [OF h]
  obtain vs where acc: "g_acc g = task # vs" using H(7) f(2) by blast
  obtain g' D where g': "task' = task" "moved B g s g' s1" "g_hand g' = task # g_hand g" "g_acc g' = []"
    "queued g' + {#task#} = queued g + D" "tasks_split (fst s1) = tasks_split (fst s) + of_nat (size D)"
    "current_task (fst s1) = current_task (fst s)"
    using accept_tasks_conserves [OF p rd H(1) acc] by blast
  then show ?thesis using call_accounts [OF h g'(2-7) f(1)] by blast
qed

text \<open>The function of a task has returned: the task object goes to the free list.\<close>

lemma finish_accounts:
  assumes h: "holding r B g F (f # fs) s" and p: "finish_task x prev s = Some s'"
    and f: "frame_task f = Some (x, prev)" "accept_of f = None" "frame_task f' = None" "accept_of f' = None"
  shows "accounts r B g s [] [] F (f' # fs) s'"
proof -
  note H = holdingD [OF h]
  have x: "x \<in> set (g_hand g)" "prev = top_task r fs" using H(8) f(1) by auto
  let ?g = "g\<lparr>g_free := x # g_free g, g_hand := remove1 x (g_hand g)\<rparr>"
  have m: "mset (remove1 x (g_hand g)) = mset F + mset (running fs)" using H(2) f(1) by simp
  have "prev = NULL \<or> prev \<in> set (remove1 x (g_hand g) @ g_root g)"
  proof (cases "running fs")
    case Nil
    then show ?thesis using x(2) h by (simp add: top_task_def holding_def)
  next
    case (Cons y ys)
    then have "prev \<in># mset (remove1 x (g_hand g))" unfolding m using x(2) by (simp add: top_task_def)
    then show ?thesis by (simp flip: set_mset_mset)
  qed
  note c = finish_task_conserves [OF p H(1) x(1) this]
  then have mv: "moved B g s ?g s'" by blast
  have "holding r B ?g F (f' # fs) s'"
    using h f c m x(2) moved_owned [OF mv] H(6) by (simp add: holding_def top_task_Cons)
  then show ?thesis using c mv unfolding accounts_def
    by (intro exI [of _ ?g] exI [of _ "{#}"]) (simp add: queued_def)
qed

section \<open>Steps of the loops\<close>

definition calls :: "addr option \<Rightarrow> addr list" where
  "calls c = (case c of None \<Rightarrow> [] | Some task \<Rightarrow> [task])"

lemma calls_simps [simp]: "calls None = []" "calls (Some x) = [x]"
  by (simp_all add: calls_def)

lemma call_task_Some:
  "call_task task pc s = Some (pc', c, s') \<longleftrightarrow>
     c = Some task \<and> pc' = pc (get_current_task (fst s)) \<and> s' = (set_current_task task (fst s), snd s)"
  by (auto simp: call_task_def run_task_enter_def)

lemma decline_all_aside:
  assumes "decline_all_steal_requests rand cfg s = Some s'" "linv {#} s"
  shows "aside s s'"
proof -
  obtain w sh where s: "s = (w, sh)" by (cases s)
  obtain res w1 sh1 where r: "RECV_REQ cfg (w, sh) = Some (res, w1, sh1)" and
    d: "(case res of None \<Rightarrow> Some (w1, sh1) | Some req \<Rightarrow>
         let req = (if req_ID req = ID w1 \<and> req_state req = STATE_WORKING then req\<lparr>req_state := STATE_IDLE\<rparr> else req)
         in decline_steal_request rand cfg req (w1, sh1)) = Some s'"
    using assms(1) s by (auto simp: decline_all_steal_requests_def bind_eq_Some_conv)
  then have k: "s' = (w1, sh1) \<or> (\<exists>req. decline_steal_request rand cfg req (w1, sh1) = Some s')"
    by (cases res) (auto simp: Let_def)
  note a = RECV_REQ_aside [OF assms(2) [unfolded s] r]
  show ?thesis using k a s decline_aside aside_trans by blast
qed

lemma try_send_aside': "try_send_steal_request rand cfg idle s = Some s' \<Longrightarrow> aside s s'"
  using try_send_aside [of rand cfg idle "fst s" "snd s" s'] by simp

lemma schedule_accounts:
  assumes st: "schedule_step env cfg pc s = Some (pc', c, s')" and cfg: "MAXSTEAL cfg = 1"
    and l: "local_ok cfg X (Schedule pc # fs) s" and h: "holding r B g F (Schedule pc # fs) s"
  shows "accounts r B g s [] (calls c) F (called c (Schedule pc' # fs)) s'"
proof -
  have inv: "linv {#} s" using l by (simp add: local_ok_def)
  have rd: "\<not> waits (Schedule pc # fs) \<Longrightarrow> ready s" by (rule local_busy(1) [OF l])
  show ?thesis
  proof (cases pc)
    case Pop
    then obtain x s1 where p: "RT_pop env cfg False s = Some (x, s1)"
      and n: "(if x \<noteq> NULL then call_task x (\<lambda>this. Resume x this False) s1 else go Send_Request s1) = Some (pc', c, s')"
      using st by (auto simp: bind_eq_Some_conv)
    show ?thesis using n pop_accounts [OF h cfg p rd, of "Schedule pc'"] Pop
      by (auto simp: call_task_Some called_def split: if_splits)
  next
    case Send_Request
    then show ?thesis using st aside_accounts [OF h try_send_aside'] by (auto simp: bind_eq_Some_conv)
  next
    case Receive
    then obtain res s1 where p: "RECV_TASK (env_rand env) cfg True s = Some (res, s1)" "s' = s1" "c = None"
      "pc' = (case res of None \<Rightarrow> Decline | Some task \<Rightarrow> Accept task)"
      using st by (auto simp: bind_eq_Some_conv split: option.splits)
    show ?thesis using receive_accounts [OF h cfg p(1) inv, of "Schedule pc'"] p Receive by (cases res) auto
  next
    case Decline
    then have "aside s s'" "c = None" "pc' = Receive" using st decline_all_aside [OF _ inv] by (auto simp: bind_eq_Some_conv split: if_splits)
    then show ?thesis using aside_accounts [OF h, of s' "Schedule Receive"] Decline by simp
  next
    case (Accept task)
    then obtain task' s1 where p: "accept_tasks env cfg task s = Some (task', s1)"
      and n: "call_task task' (\<lambda>this. Resume task' this True) s1 = Some (pc', c, s')"
      using st by (auto simp: bind_eq_Some_conv)
    show ?thesis using n accept_accounts [OF h p rd] Accept by (auto simp: call_task_Some called_def)
  next
    case (Resume task this stolen)
    then show ?thesis using st finish_accounts [OF h, of task this s' "Schedule pc'"]
      by (cases "stolen \<and> tasking_finished (fst s')") (auto simp: bind_eq_Some_conv)
  qed (use st in simp)
qed

lemma barrier_accounts:
  assumes st: "barrier_step env cfg pc s = Some (pc', c, s')" and cfg: "MAXSTEAL cfg = 1"
    and l: "local_ok cfg X (Barrier pc # fs) s" and h: "holding r B g F (Barrier pc # fs) s"
  shows "accounts r B g s [] (calls c) F (called c (Barrier pc' # fs)) s'"
proof -
  have inv: "linv {#} s" using l by (simp add: local_ok_def)
  have rd: "\<not> waits (Barrier pc # fs) \<Longrightarrow> ready s" by (rule local_busy(1) [OF l])
  show ?thesis
  proof (cases pc)
    case Pop
    then obtain x w1 sh1 where p: "RT_pop env cfg False s = Some (x, w1, sh1)"
      and n: "(if x \<noteq> NULL then call_task x (\<lambda>this. Resume x this False) (w1, sh1)
     else if num_workers sh1 = 1 then go Leave (w1\<lparr>quiescent := True\<rparr>, sh1)
     else if quiescent w1 then go Leave (w1, sh1)
     else go Send_Request (w1, sh1)) = Some (pc', c, s')"
      using st by (auto simp: bind_eq_Some_conv)
    show ?thesis
    proof (cases "x = NULL")
      case True
      then have e: "aside (w1, sh1) s'" "c = None" "frame_task (Barrier pc') = None" "accept_of (Barrier pc') = None"
        using n by (auto simp: aside_def split: if_splits)
      have "accounts r B g s [] [] F (Barrier pc' # fs) (w1, sh1)" using pop_accounts(1) [OF h cfg p rd _ _ e(4) True] e(3) Pop by simp
      from accounts_aside [OF this e(1)] show ?thesis using e by simp
    next
      case False
      then show ?thesis using n pop_accounts(2) [OF h cfg p rd, of "Barrier pc'"] Pop
        by (auto simp: call_task_Some called_def)
    qed
  next
    case Send_Request
    then show ?thesis using st aside_accounts [OF h try_send_aside'] by (auto simp: bind_eq_Some_conv)
  next
    case Receive
    then obtain res s1 where p: "RECV_TASK (env_rand env) cfg True s = Some (res, s1)" "s' = s1" "c = None"
      "pc' = (case res of None \<Rightarrow> Decline | Some task \<Rightarrow> Accept task)"
      using st by (auto simp: bind_eq_Some_conv split: option.splits)
    show ?thesis using receive_accounts [OF h cfg p(1) inv, of "Barrier pc'"] p Receive by (cases res) auto
  next
    case Decline
    then have "aside s s'" "c = None" "frame_task (Barrier pc') = None" "accept_of (Barrier pc') = None"
      using st decline_all_aside [OF _ inv] by (auto simp: bind_eq_Some_conv)
    then show ?thesis using aside_accounts [OF h, of s' "Barrier pc'"] Decline by simp
  next
    case (Accept task)
    then obtain task' s1 where p: "accept_tasks env cfg task s = Some (task', s1)"
      and n: "call_task task' (\<lambda>this. Resume task' this True) s1 = Some (pc', c, s')"
      using st by (auto simp: bind_eq_Some_conv)
    show ?thesis using n accept_accounts [OF h p rd] Accept by (auto simp: call_task_Some called_def)
  next
    case (Resume task this stolen)
    then show ?thesis using st finish_accounts [OF h, of task this s' "Barrier pc'"] by (auto simp: bind_eq_Some_conv)
  qed (use st in simp)
qed

text \<open>Looking at a future has nothing to do with tasks.\<close>

lemma if_ready_accounts:
  assumes i: "if_ready f n cont s = Some (pc', c, s')" and a: "accounts r B g s0 P C F (Force this f n pc # fs) s"
    and f: "frame_task (Force this f n pc) = None" "accept_of (Force this f n pc) = None"
    and cont: "\<And>s1. cont s1 = Some (pc', c, s') \<Longrightarrow> aside s1 s' \<and> c = None \<and>
      frame_task (Force this f n pc') = None \<and> accept_of (Force this f n pc') = None"
  shows "accounts r B g s0 P C F (Force this f n pc' # fs) s' \<and> c = None"
proof -
  obtain w sh where s: "s = (w, sh)" by (cases s)
  obtain m where k: "s' = (w, sh\<lparr>fut_mem := m\<rparr>) \<and> c = None \<and> (\<exists>res. pc' = FReturn res) \<or> cont (w, sh\<lparr>fut_mem := m\<rparr>) = Some (pc', c, s')"
    using i s by (auto simp: if_ready_def bind_eq_Some_conv Let_def split: if_splits)
  have "aside s (w, sh\<lparr>fut_mem := m\<rparr>)" using s by (simp add: aside_def)
  then have "aside s s' \<and> c = None \<and> frame_task (Force this f n pc') = None \<and> accept_of (Force this f n pc') = None"
    using k cont aside_trans by fastforce
  then show ?thesis using accounts_aside [OF a, of s' "Force this f n pc'"] f by simp
qed

lemma force_accounts:
  assumes st: "force_step env cfg this f n pc s = Some (pc', c, s')" and cfg: "MAXSTEAL cfg = 1"
    and l: "local_ok cfg X (Force this f n pc # fs) s" and h: "holding r B g F (Force this f n pc # fs) s"
  shows "accounts r B g s [] (calls c) F (called c (Force this f n pc' # fs)) s'"
proof -
  have rd: "ready s" by (rule local_busy(1) [OF l]) simp
  have inv: "linv {#} s" using rd by (simp add: ready_def)
  show ?thesis
  proof (cases pc)
    case FStart
    then show ?thesis using if_ready_accounts [of f n "go FPop" s pc' c s' r B g s "[]" "[]" F this FStart fs] st aside_accounts [OF h aside_refl] by auto
  next
    case FPop
    then obtain x s1 where p: "RT_pop env cfg True s = Some (x, s1)"
      and n: "(if x \<noteq> NULL then call_task x (FChild x) s1 else do {
        assertion (get_current_task (fst s1) = this); go FWhile s1 }) = Some (pc', c, s')"
      using st by (auto simp: bind_eq_Some_conv)
    show ?thesis using n pop_accounts [OF h cfg p rd, of "Force this f n pc'"] FPop
      by (auto simp: call_task_Some called_def bind_eq_Some_conv split: if_splits)
  next
    case (FChild task prev)
    then obtain s1 where p: "finish_task task prev s = Some s1" and i: "if_ready f n (go FPop) s1 = Some (pc', c, s')"
      using st by (auto simp: bind_eq_Some_conv)
    have "accounts r B g s [] [] F (Force this f n FPop # fs) s1" by (rule finish_accounts [OF h p]) (use FChild in simp_all)
    from if_ready_accounts [OF i this] show ?thesis by auto
  next
    case FWhile
    then have i: "if_ready f n (\<lambda>s. try_send_steal_request (env_rand env) cfg False s \<bind> (\<lambda>s. go FReceive s)) s = Some (pc', c, s')"
      using st by simp
    have a: "accounts r B g s [] [] F (Force this f n FWhile # fs) s" by (rule aside_accounts [OF h aside_refl]) (simp_all add: FWhile)
    have k: "aside s1 s' \<and> c = None \<and> frame_task (Force this f n pc') = None \<and> accept_of (Force this f n pc') = None"
      if "try_send_steal_request (env_rand env) cfg False s1 \<bind> (\<lambda>s. go FReceive s) = Some (pc', c, s')" for s1
    proof -
      have "try_send_steal_request (env_rand env) cfg False s1 = Some s'" "pc' = FReceive" "c = None"
        using that by (auto simp: bind_eq_Some_conv)
      then show ?thesis using try_send_aside' [of "env_rand env" cfg False s1 s'] by simp
    qed
    have "accounts r B g s [] [] F (Force this f n pc' # fs) s' \<and> c = None"
      by (rule if_ready_accounts [OF i a _ _ k]) simp_all
    then show ?thesis by auto
  next
    case FReceive
    then obtain res s1 where p: "RECV_TASK (env_rand env) cfg False s = Some (res, s1)" "c = None"
      "aside s1 s'" "pc' = (case res of None \<Rightarrow> FHandle | Some task \<Rightarrow> FAccept task)"
      using st try_send_aside' by (auto simp: bind_eq_Some_conv split: option.splits)
    have "accounts r B g s [] [] F (Force this f n pc' # fs) s1"
      by (rule receive_accounts [OF h cfg p(1) inv]) (use p(4) FReceive in \<open>auto split: option.split\<close>)
    from accounts_aside [OF this p(3)] show ?thesis using p(2) by simp
  next
    case FHandle
    then obtain s1 where p: "handle_loop env cfg s = Some s1" and i: "if_ready f n (go FReceive) s1 = Some (pc', c, s')"
      using st by (auto simp: bind_eq_Some_conv)
    have "conserves {} s s1" using handle_loop_conserves [OF cfg p] rd by (auto simp: ready_def)
    then have "accounts r B g s [] [] F (Force this f n FReceive # fs) s1" by (rule conserves_accounts [OF h]) (use FHandle in simp_all)
    from if_ready_accounts [OF i this] show ?thesis by auto
  next
    case (FAccept task)
    then obtain task' s1 where p: "accept_tasks env cfg task s = Some (task', s1)"
      and n: "call_task task' (FStolen task') s1 = Some (pc', c, s')"
      using st by (auto simp: bind_eq_Some_conv)
    show ?thesis using n accept_accounts [OF h p rd] FAccept by (auto simp: call_task_Some called_def)
  next
    case (FStolen task prev)
    then show ?thesis using st finish_accounts [OF h, of task prev s' "Force this f n pc'"] by (auto simp: bind_eq_Some_conv)
  qed (use st in simp)
qed


section \<open>Steps of a worker with the tasks it creates, pushes and calls\<close>

text \<open>
  The code of a task and the main program may write to the task objects \<open>T\<close> that their worker has in its
  hands and to the root task \<open>r\<close>. They leave the links of the objects alone, and the root task
  stays a task that is no loop.
\<close>

definition own_write :: "addr \<Rightarrow> addr list \<Rightarrow> shared \<Rightarrow> shared \<Rightarrow> bool" where
  "own_write r T sh sh' \<longleftrightarrow> user_memory sh sh' \<and> (\<exists>ms. mallocs sh = ms @ mallocs sh') \<and>
     (\<forall>a. a \<notin> set (r # T) \<or> a = NULL \<longrightarrow> task_mem sh' a = task_mem sh a) \<and>
     (\<forall>a t. deref (task_mem sh) a = Some t \<longrightarrow> (\<exists>t'. deref (task_mem sh') a = Some t' \<and>
       t_prev t' = t_prev t \<and> t_next t' = t_next t \<and> (a = r \<longrightarrow> t_splittable t' = t_splittable t)))"

fun user_frame :: "frame \<Rightarrow> bool" where
  "user_frame (Code task) = True"
| "user_frame Main_Program = True"
| "user_frame f = False"

text \<open>
  A step of a worker from the stack \<open>fs\<close>, with the objects \<open>F\<close> it has allocated and not pushed, that pushes the
  tasks \<open>P\<close> and calls the tasks \<open>C\<close>.
\<close>

type_synonym tracked = "frame list \<times> addr list \<times> wst"

inductive own_step :: "env \<Rightarrow> config \<Rightarrow> addr \<Rightarrow> tracked \<Rightarrow> addr list \<Rightarrow> addr list \<Rightarrow> tracked \<Rightarrow> bool"
  for env cfg r
where
  Own_Schedule: "schedule_step env cfg pc s = Some (pc', c, s') \<Longrightarrow>
     own_step env cfg r (Schedule pc # fs, F, s) [] (calls c) (called c (Schedule pc' # fs), F, s')"
| Own_Barrier: "barrier_step env cfg pc s = Some (pc', c, s') \<Longrightarrow>
     own_step env cfg r (Barrier pc # fs, F, s) [] (calls c) (called c (Barrier pc' # fs), F, s')"
| Own_Barrier_Return: "quiescent (fst s) \<Longrightarrow> own_step env cfg r (Barrier Leave # fs, F, s) [] [] (fs, F, s)"
| Own_Force: "force_step env cfg this f n pc s = Some (pc', c, s') \<Longrightarrow>
     own_step env cfg r (Force this f n pc # fs, F, s) [] (calls c) (called c (Force this f n pc' # fs), F, s')"
| Own_Force_Return: "force_return f n res s = Some (data, s') \<Longrightarrow>
     own_step env cfg r (Force this f n (FReturn res) # fs, F, s) [] [] (fs, F, s')"
| Own_Code_Return: "own_step env cfg r (Code task # fs, F, s) [] [] (fs, F, s)"
| Own_Write: "user_frame u \<Longrightarrow> own_write r (F @ running fs) sh sh' \<Longrightarrow>
     own_step env cfg r (u # fs, F, w, sh) [] [] (u # fs, F, w, sh')"
| Own_Alloc: "user_frame u \<Longrightarrow> RT_task_alloc (env_junk env) s = Some (x, s') \<Longrightarrow>
     own_step env cfg r (u # fs, F, s) [] [] (u # fs, if x = NULL then F else x # F, s')"
| Own_Push: "user_frame u \<Longrightarrow> x \<in> set F \<Longrightarrow> RT_push env cfg x s = Some s' \<Longrightarrow>
     own_step env cfg r (u # fs, F, s) [x] [] (u # fs, remove1 x F, s')"
| Own_Poll: "user_frame u \<Longrightarrow> RT_poll env cfg s = Some s' \<Longrightarrow> own_step env cfg r (u # fs, F, s) [] [] (u # fs, F, s')"
| Own_Force_Enter: "user_frame u \<Longrightarrow>
     own_step env cfg r (u # fs, F, s) [] [] (Force (get_current_task (fst s)) f n FStart # u # fs, F, s)"
| Own_Barrier_Enter: "user_frame u \<Longrightarrow> barrier_enter s = Some True \<Longrightarrow>
     own_step env cfg r (u # fs, F, s) [] [] (Barrier Pop # u # fs, F, s)"

lemma user_frame_step: "user_frame u \<Longrightarrow> user_step env cfg (u # fs, s) c \<Longrightarrow> worker_step env cfg (u # fs, s) c"
  by (cases u) (auto intro: Step_Code Step_Main)

lemma own_worker_step:
  assumes "own_step env cfg r (fs, F, s) P C (fs', F', s')"
  shows "worker_step env cfg (fs, s) (fs', s')"
  using assms
proof cases
  case (Own_Write u gs sh sh' w)
  then show ?thesis by (auto simp: own_write_def intro: user_frame_step User_Memory)
qed (auto intro: worker_step.intros user_frame_step user_step.intros)

lemma user_frame_simps: "user_frame u \<Longrightarrow> frame_task u = None \<and> accept_of u = None \<and> \<not> waits (u # fs)"
  by (cases u) auto

lemma aside_enter:
  assumes h: "holding r B g F (u # fs) s" and u: "accept_of u = None" and f: "frame_task f = None" "accept_of f = None"
  shows "accounts r B g s [] [] F (f # u # fs) s"
proof -
  have "holding r B g F (f # u # fs) s" using h u f by (simp add: holding_def top_task_Cons)
  then show ?thesis unfolding accounts_def
    by (intro exI [of _ g] exI [of _ "{#}"]) (simp add: moved_refl holding_def)
qed

lemma aside_return:
  assumes h: "holding r B g F (f # fs) s" and f: "frame_task f = None" "accept_of f = None" and fs: "fs \<noteq> []" and a: "aside s s'"
  shows "accounts r B g s [] [] F fs s'"
proof -
  have "moved B g s g s'" by (rule aside_moved [OF holdingD(1) [OF h] a])
  moreover obtain f' gs where fs': "fs = f' # gs" using fs by (cases fs) auto
  have "holding r B g F fs s'"
    using h f a moved_owned [OF calculation] holdingD(5) [OF h] unfolding fs' by (simp add: holding_def aside_def top_task_Cons)
  ultimately show ?thesis unfolding accounts_def using a by (intro exI [of _ g] exI [of _ "{#}"]) (simp add: aside_def)
qed

lemma own_write_moved:
  assumes o: "owned B g (w, sh)" and r: "g_root g = (if r = NULL then [] else [r])"
    and T: "set T \<subseteq> set (g_hand g)" and u: "own_write r T sh sh'"
  shows "moved B g (w, sh) g (w, sh')"
proof -
  let ?sh = "sh\<lparr>task_mem := task_mem sh'\<rparr>"
  have k: "\<exists>t'. deref (task_mem sh') a = Some t' \<and> t_prev t' = t_prev t \<and> t_next t' = t_next t \<and>
      (a = r \<longrightarrow> t_splittable t' = t_splittable t)" if "deref (task_mem sh) a = Some t" for a t
    using u that unfolding own_write_def by blast
  have m: "moved B g (w, sh) g (w, ?sh)"
  proof (rule write_moved [OF o])
    show "task_mem sh' a = task_mem sh a" if "a \<notin> set (g_hand g @ g_root g)" for a
      using u that r T by (cases "r = NULL"; cases "a = NULL") (auto simp: own_write_def)
    show "lone (task_mem sh') x" if "x \<in> set (g_hand g)" for x
      using ownedD(3) [OF o that] k [of x] unfolding lone_links by fastforce
    show "\<exists>t. deref (task_mem sh') y = Some t \<and> \<not> t_splittable t" if "y \<in> set (g_root g)" for y
      using ownedD(5) [OF o that] k [of y] that r by (fastforce split: if_splits)
  qed
  have "aside (w, ?sh) (w, sh')" using u by (auto simp: own_write_def aside_def user_memory_def)
  from moved_trans [OF m aside_moved [OF moved_owned [OF m] this]] show ?thesis .
qed

lemma stack_ok_not_Nil: "stack_ok me fs \<Longrightarrow> fs \<noteq> []"
  by (cases fs) auto

text \<open>Every step accounts for the tasks it pushes and calls.\<close>

lemma own_step_accounts:
  assumes st: "own_step env cfg r (fs, F, s) P C (fs', F', s')" and cfg: "MAXSTEAL cfg = 1"
    and l: "local_ok cfg X fs s" and h: "holding r B g F fs s"
  shows "accounts r B g s P C F' fs' s'"
  using st
proof cases
  case (Own_Schedule pc pc' c gs)
  then show ?thesis using schedule_accounts [OF _ cfg] l h by blast
next
  case (Own_Barrier pc pc' c gs)
  then show ?thesis using barrier_accounts [OF _ cfg] l h by blast
next
  case Own_Barrier_Return
  have "stack_ok (ID (fst s)) fs" using l by (simp add: local_ok_def worker_ok_def)
  then show ?thesis using aside_return [of r B g F "Barrier Leave" fs' s s] h Own_Barrier_Return
    by (auto simp: stack_ok_barrier dest: stack_ok_not_Nil)
next
  case (Own_Force this f n pc pc' c gs)
  then show ?thesis using force_accounts [OF _ cfg] l h by blast
next
  case (Own_Force_Return f n res data this)
  have k: "stack_ok (ID (fst s)) fs" using l by (simp add: local_ok_def worker_ok_def)
  have "aside s s'" using Own_Force_Return by (auto simp: force_return_def aside_def bind_eq_Some_conv)
  then show ?thesis using aside_return [of r B g F "Force this f n (FReturn res)" fs' s s'] h k Own_Force_Return
    by (auto dest: stack_ok_not_Nil)
next
  case (Own_Code_Return task)
  have "stack_ok (ID (fst s)) fs" using l by (simp add: local_ok_def worker_ok_def)
  then show ?thesis using aside_return [of r B g F "Code task" fs' s s] h Own_Code_Return
    by (auto dest: stack_ok_not_Nil)
next
  case (Own_Write u gs sh sh' w)
  note u = user_frame_simps [OF Own_Write(8), of gs]
  have h': "holding r B g F (u # gs) (w, sh)" using h Own_Write by simp
  note H = holdingD [OF h']
  have "set (F @ running gs) \<subseteq> set (g_hand g)" using H(2) u by (auto simp flip: set_mset_mset)
  moreover have "g_root g = (if r = NULL then [] else [r])" using h by (simp add: holding_def)
  ultimately have m: "moved B g (w, sh) g (w, sh')" using own_write_moved [OF H(1) _ _ Own_Write(9)] by blast
  have "holding r B g F (u # gs) (w, sh')" using h' moved_owned [OF m] by (simp add: holding_def)
  then show ?thesis using m Own_Write unfolding accounts_def by (intro exI [of _ g] exI [of _ "{#}"]) simp
next
  case (Own_Alloc u x gs)
  note u = user_frame_simps [OF Own_Alloc(6), of gs]
  have h': "holding r B g F (u # gs) s" using h Own_Alloc by simp
  obtain w sh w' sh' where s: "s = (w, sh)" "s' = (w', sh')" by (cases s; cases s')
  have al: "RT_task_alloc (env_junk env) (w, sh) = Some (x, w', sh')" using Own_Alloc s by simp
  note A = alloc_moved [OF holdingD(1) [OF h', unfolded s] al]
  show ?thesis
  proof (cases "x = NULL")
    case True
    then show ?thesis using A aside_accounts [OF h' aside_refl, of u] Own_Alloc s by simp
  next
    case False
    then obtain fl dq where m: "moved B g (w, sh) (g\<lparr>g_free := fl, g_hand := x # g_hand g\<rparr>) (w', sh')" "w' = w\<lparr>deque := dq\<rparr>"
      using A by blast
    have "holding r B (g\<lparr>g_free := fl, g_hand := x # g_hand g\<rparr>) (x # F) (u # gs) (w', sh')"
      using h' moved_owned [OF m(1)] m(2) s u by (simp add: holding_def)
    then show ?thesis using m s Own_Alloc False unfolding accounts_def
      by (intro exI [of _ "g\<lparr>g_free := fl, g_hand := x # g_hand g\<rparr>"] exI [of _ "{#}"]) (simp add: queued_def)
  qed
next
  case (Own_Push u x gs)
  note u = user_frame_simps [OF Own_Push(6), of gs]
  have h': "holding r B g F (u # gs) s" using h Own_Push by simp
  note H = holdingD [OF h']
  have rd: "ready s" by (rule local_busy(1) [OF l]) (use u Own_Push in simp)
  have mh: "mset (g_hand g) = mset F + mset (running gs)" and acc: "g_acc g = []" using H(2,6) u by simp_all
  have x: "x \<in> set (g_hand g)" using Own_Push(7) mh by (auto simp flip: set_mset_mset)
  obtain w sh where s: "s = (w, sh)" by (cases s)
  have "distinct (F @ running gs)" using owned_distinct(4) [OF H(1) [unfolded s]] mh mset_eq_imp_distinct_iff [of "g_hand g" "F @ running gs"] by simp
  then have "x \<notin> set (running gs)" using Own_Push(7) by auto
  moreover have "x \<notin> set (g_root g)" using owned_distinct(5) [OF H(1) [unfolded s]] x by auto
  moreover have "x \<noteq> NULL" using ownedD(9,10) [OF H(1) [unfolded s]] x by (auto simp: cells_def places_def besides_def)
  ultimately have "top_task r gs \<noteq> x" using h' by (cases "running gs") (auto simp: top_task_def holding_def split: if_splits)
  then have cx: "current_task (fst s) \<noteq> x" using H(4) u by (simp add: top_task_Cons)
  obtain g' D where g': "moved B g s g' s'" "g_hand g' = remove1 x (g_hand g)" "g_acc g' = []" "queued g' = queued g + {#x#} + D"
    "tasks_split (fst s') = tasks_split (fst s) + of_nat (size D)" "current_task (fst s') = current_task (fst s)"
    using RT_push_conserves [OF cfg Own_Push(8) rd H(1) acc x cx] by blast
  have "mset (remove1 x (g_hand g)) = mset (remove1 x F) + mset (running gs)" using mh Own_Push(7) by simp
  then have "holding r B g' (remove1 x F) (u # gs) s'"
    using h' g' u moved_owned [OF g'(1)] by (simp add: holding_def top_task_Cons moved_def)
  then show ?thesis using g' Own_Push unfolding accounts_def by (intro exI [of _ g'] exI [of _ D]) simp
next
  case (Own_Poll u gs)
  note u = user_frame_simps [OF Own_Poll(6), of gs]
  have rd: "ready s" by (rule local_busy(1) [OF l]) (use u Own_Poll in simp)
  show ?thesis using conserves_accounts [OF _ RT_poll_conserves [OF cfg Own_Poll(7) rd], of r B g F u gs u] u h Own_Poll by simp
next
  case (Own_Force_Enter u gs f n)
  then show ?thesis using aside_enter [of r B g F u gs s] user_frame_simps [OF Own_Force_Enter(7), of gs] h by simp
next
  case (Own_Barrier_Enter u gs)
  then show ?thesis using aside_enter [of r B g F u gs s] user_frame_simps [OF Own_Barrier_Enter(7), of gs] h by simp
qed

end
