(* ===== verification/Conservation.thy ===== *)
theory Conservation
  imports Accounts Startup
begin

text \<open>
  No task is lost and none is run twice. The views of the workers on their task objects are put together: the objects
  of a worker are those of no other, so that its steps leave the others' alone. In every run the tasks
  that have been called and those that wait are the tasks that have been pushed, or split off from
  loops; when termination is detected, all of them have been called.
\<close>

section \<open>The system\<close>

text \<open>
  A run of the system with its history: the objects that each worker has allocated and not pushed, and the tasks
  that have been pushed and called so far.
\<close>

record hist =
  now :: sys
  unpushed :: "addr list list"
  spawned :: "addr list"
  executed :: "addr list"

definition root_of :: "addr \<Rightarrow> nat \<Rightarrow> addr" where
  "root_of r i = (if i = 0 then r else NULL)"

inductive tracked_step :: "env \<Rightarrow> config \<Rightarrow> addr \<Rightarrow> hist \<Rightarrow> hist \<Rightarrow> bool" for env cfg r where
  Track_Run: "i < length (workers (now h)) \<Longrightarrow> \<not> blocked (workers (now h) ! i) \<Longrightarrow>
     own_step env cfg (root_of r i) (stacks (now h) ! i, unpushed h ! i, workers (now h) ! i, mem (now h)) P C (fs, F, w, sh) \<Longrightarrow>
     tracked_step env cfg r h \<lparr>now = \<lparr>stacks = (stacks (now h))[i := fs], workers = (workers (now h))[i := w], mem = sh\<rparr>,
       unpushed = (unpushed h)[i := F], spawned = P @ spawned h, executed = C @ executed h\<rparr>"
| Track_Wake: "i < length (workers (now h)) \<Longrightarrow> blocked (workers (now h) ! i) \<Longrightarrow> signals (mem (now h)) ! i \<Longrightarrow>
     peek (chan_tasks (mem (now h)) ! i) \<Longrightarrow>
     tracked_step env cfg r h (h\<lparr>now := (now h)\<lparr>workers := (workers (now h))[i := (workers (now h) ! i)\<lparr>blocked := False\<rparr>]\<rparr>\<rparr>)"

text \<open>Runs from the initial state. The blocks that \<^verbatim>\<open>malloc\<close> hands out are distinct.\<close>

inductive tracked :: "env \<Rightarrow> config \<Rightarrow> addr \<Rightarrow> hist \<Rightarrow> bool" for env cfg where
  Track_Init: "tasking_init env cfg envval n ms = Some (Inr z) \<Longrightarrow> distinct ms \<Longrightarrow> NULL \<notin> set ms \<Longrightarrow> length ms < 2 ^ 32 \<Longrightarrow>
     tracked env cfg (current_task (workers z ! 0))
       \<lparr>now = z, unpushed = replicate (length (workers z)) [], spawned = [], executed = []\<rparr>"
| Track_Step: "tracked env cfg r h \<Longrightarrow> tracked_step env cfg r h h' \<Longrightarrow> tracked env cfg r h'"

lemma tracked_sys_step: "tracked_step env cfg r h h' \<Longrightarrow> sys_step env cfg (now h) (now h')"
  by (induction rule: tracked_step.induct) (auto intro: sys_step.intros own_worker_step)

lemma tracked_reachable: "tracked env cfg r h \<Longrightarrow> reachable env cfg (now h)"
  by (induction rule: tracked.induct) (auto intro: reachable.intros tracked_sys_step)

text \<open>The objects that only one worker has, and the addresses that the others leave to worker \<open>i\<close>.\<close>

definition foot :: "own \<Rightarrow> worker \<Rightarrow> addr list" where
  "foot g w = g_dq g @ dq_tail (deque w) # g_free g @ g_hand g @ g_acc g @ g_root g"

definition area :: "addr set \<Rightarrow> (nat \<Rightarrow> own) \<Rightarrow> worker list \<Rightarrow> nat \<Rightarrow> addr set" where
  "area A G ws i = A - (\<Union>j \<in> {..<length ws} - {i}. set (foot (G j) (ws ! j)))"

definition sys_owned :: "addr \<Rightarrow> addr set \<Rightarrow> (nat \<Rightarrow> own) \<Rightarrow> addr list list \<Rightarrow> sys \<Rightarrow> bool" where
  "sys_owned r A G U z \<longleftrightarrow> finite A \<and> NULL \<notin> A \<and> card A < 2 ^ 32 \<and> length U = length (workers z) \<and>
     (\<forall>i < length (workers z). g_chan (G i) = g_chan (G 0) \<and>
       holding (root_of r i) (area A G (workers z) i) (G i) (U ! i) (stacks z ! i) (workers z ! i, mem z))"

definition total :: "(nat \<Rightarrow> own) \<Rightarrow> nat \<Rightarrow> addr multiset" where
  "total G n = (\<Sum>i<n. mset (g_dq (G i)) + mset (g_acc (G i))) + mset (concat (g_chan (G 0)))"

lemma cells_foot: "mset (cells g (w, sh)) = mset (foot g w) + mset (concat (g_chan g) @ mallocs sh)"
  by (simp add: cells_def places_def besides_def foot_def)

text \<open>What another worker does outside of the objects of a worker.\<close>

lemma owned_others:
  assumes o: "owned B g (w, sh)" and m: "\<forall>a \<in> set (foot g w). task_mem sh' a = task_mem sh a"
    and ch: "length ch = nat (num_workers sh')" "num_workers sh' = num_workers sh"
      "\<And>k. k < length ch \<Longrightarrow> in_chan (task_mem sh') (chan_tasks sh' ! k) (ch ! k)"
    and d: "distinct (concat ch @ mallocs sh')" "set (foot g w) \<inter> set (concat ch @ mallocs sh') = {}"
    and B: "set (foot g w) \<subseteq> B'" "set (concat ch @ mallocs sh') \<subseteq> B'" "NULL \<notin> B'" "finite B'" "card B' < 2 ^ 32"
  shows "owned B' (g\<lparr>g_chan := ch\<rparr>) (w, sh')"
proof -
  let ?g = "g\<lparr>g_chan := ch\<rparr>"
  have f: "foot ?g w = foot g w" by (simp add: foot_def)
  have "mset (cells g (w, sh)) = mset (foot g w @ concat (g_chan g) @ mallocs sh)" by (simp add: cells_foot)
  then have "distinct (foot g w @ concat (g_chan g) @ mallocs sh)" using ownedD(8) [OF o] mset_eq_imp_distinct_iff by blast
  then have df: "distinct (foot g w @ concat ch @ mallocs sh')" using d by auto
  have e: "mset (cells ?g (w, sh')) = mset (foot g w @ concat ch @ mallocs sh')" using cells_foot [of ?g w sh'] f by simp
  have "distinct (cells ?g (w, sh'))" using df mset_eq_imp_distinct_iff [OF e] by simp
  moreover have "set (cells ?g (w, sh')) \<subseteq> B'" using mset_eq_setD [OF e] B by simp
  moreover have "well_placed (task_mem sh') ?g (w, sh')"
  proof -
    let ?e = "g\<lparr>g_chan := []\<rparr>"
    have "well_placed (task_mem sh) ?e (w, sh)" using o by (simp add: owned_def well_placed_def outside_def)
    moreover have "\<forall>a \<in> set (places ?e (deque w)). task_mem sh' a = task_mem sh a" using m by (simp add: foot_def places_def besides_def)
    ultimately have "well_placed (task_mem sh') ?e (w, sh)" using well_placed_frame [of "task_mem sh" ?e "(w, sh)"] by simp
    then show ?thesis using ch(3) by (simp add: well_placed_def outside_def)
  qed
  ultimately show ?thesis using B ch(1,2) ownedD(7) [OF o] by (simp add: owned_def)
qed

lemma holding_others: "holding r B g F fs (w, sh) \<Longrightarrow> owned B' (g\<lparr>g_chan := ch\<rparr>) (w, sh') \<Longrightarrow>
    holding r B' (g\<lparr>g_chan := ch\<rparr>) F fs (w, sh')"
  by (simp add: holding_def split: option.splits)

lemma owned_parts:
  assumes "owned B g (w, sh)"
  shows "set (foot g w) \<subseteq> B" "set (concat (g_chan g) @ mallocs sh) \<subseteq> B" "distinct (concat (g_chan g) @ mallocs sh)"
    "set (foot g w) \<inter> set (concat (g_chan g) @ mallocs sh) = {}"
proof -
  have e: "mset (cells g (w, sh)) = mset (foot g w @ concat (g_chan g) @ mallocs sh)" by (simp add: cells_foot)
  note d = mset_eq_imp_distinct_iff [OF e] mset_eq_setD [OF e]
  show "set (foot g w) \<subseteq> B" "set (concat (g_chan g) @ mallocs sh) \<subseteq> B" "distinct (concat (g_chan g) @ mallocs sh)"
    "set (foot g w) \<inter> set (concat (g_chan g) @ mallocs sh) = {}"
    using ownedD(8,9) [OF assms] unfolding d by auto
qed

lemma area_subset: "area A G ws i \<subseteq> A"
  by (auto simp: area_def)

lemma area_disjoint: "j < length ws \<Longrightarrow> j \<noteq> i \<Longrightarrow> set (foot (G j) (ws ! j)) \<inter> area A G ws i = {}"
  by (auto simp: area_def)

text \<open>A step of one worker.\<close>

lemma sys_owned_step:
  assumes so: "sys_owned r A G U z" and i: "i < length (workers z)"
    and mv: "moved (area A G (workers z) i) (G i) (workers z ! i, mem z) g' (w, sh)"
    and h: "holding (root_of r i) (area A G (workers z) i) g' F fs (w, sh)" and ls: "length (stacks z) = length (workers z)"
  defines "G' \<equiv> \<lambda>j. if j = i then g' else (G j)\<lparr>g_chan := g_chan g'\<rparr>"
  shows "sys_owned r A G' (U[i := F]) \<lparr>stacks = (stacks z)[i := fs], workers = (workers z)[i := w], mem = sh\<rparr>"
proof -
  let ?ws = "(workers z)[i := w]" and ?B = "area A G (workers z) i"
  have A: "finite A" "NULL \<notin> A" "card A < 2 ^ 32" "length U = length (workers z)" using so by (simp_all add: sys_owned_def)
  have old: "holding (root_of r j) (area A G (workers z) j) (G j) (U ! j) (stacks z ! j) (workers z ! j, mem z)"
    if "j < length (workers z)" for j using so that by (simp add: sys_owned_def)
  have ft: "foot (G' j) (?ws ! j) = foot (G j) (workers z ! j)" if "j \<noteq> i" for j using that by (simp add: G'_def foot_def)
  have ai: "area A G' ?ws i = ?B" using ft by (simp add: area_def)
  have o': "owned ?B g' (w, sh)" by (rule moved_owned [OF mv])
  note p' = owned_parts [OF o']
  have fi: "foot (G' i) (?ws ! i) = foot g' w" using i by (simp add: G'_def)
  have "holding (root_of r j) (area A G' ?ws j) (G' j) (U[i := F] ! j) ((stacks z)[i := fs] ! j) (?ws ! j, sh)"
    if j: "j < length (workers z)" for j
  proof (cases "j = i")
    case True
    then show ?thesis using h ai i A(4) ls by (simp add: G'_def)
  next
    case False
    let ?w = "workers z ! j"
    have dj: "set (foot (G j) ?w) \<inter> ?B = {}" by (rule area_disjoint [OF j False])
    have oj: "owned (area A G (workers z) j) (G j) (?w, mem z)" using old [OF j] by (simp add: holding_def)
    note pj = owned_parts [OF oj]
    have "owned (area A G' ?ws j) ((G j)\<lparr>g_chan := g_chan g'\<rparr>) (?w, sh)"
    proof (rule owned_others [OF oj])
      show "\<forall>a \<in> set (foot (G j) ?w). task_mem sh a = task_mem (mem z) a" using mv dj by (auto simp: moved_def)
      show "length (g_chan g') = nat (num_workers sh)" by (rule ownedD(6) [OF o'])
      show "num_workers sh = num_workers (mem z)" using mv by (simp add: moved_def)
      show "in_chan (task_mem sh) (chan_tasks sh ! k) (g_chan g' ! k)" if "k < length (g_chan g')" for k
        by (rule ownedD(2) [OF o']) (use that ownedD(6) [OF o'] in simp)
      show "distinct (concat (g_chan g') @ mallocs sh)" by (rule p'(3))
      show "set (foot (G j) ?w) \<inter> set (concat (g_chan g') @ mallocs sh) = {}" using dj p'(2) by blast
      have "set (foot (G' k) (?ws ! k)) \<inter> (set (foot (G j) ?w) \<union> set (concat (g_chan g') @ mallocs sh)) = {}"
        if k: "k < length (workers z)" "k \<noteq> j" for k
      proof (cases "k = i")
        case True
        then show ?thesis unfolding True fi using p'(1,4) dj by blast
      next
        case ki: False
        then show ?thesis unfolding ft [OF ki]
          using pj(1) area_disjoint [OF k, of G A] p'(2) area_disjoint [OF k(1) ki, of G A] by blast
      qed
      moreover have "set (foot (G j) ?w) \<subseteq> A" using pj(1) area_subset [of A G "workers z" j] by blast
      moreover have "set (concat (g_chan g') @ mallocs sh) \<subseteq> A" using p'(2) area_subset [of A G "workers z" i] by blast
      ultimately show "set (foot (G j) ?w) \<subseteq> area A G' ?ws j" "set (concat (g_chan g') @ mallocs sh) \<subseteq> area A G' ?ws j"
        unfolding area_def by (auto simp del: set_append)
      show "NULL \<notin> area A G' ?ws j" "finite (area A G' ?ws j)" using area_subset [of A G' ?ws j] A finite_subset by auto
      show "card (area A G' ?ws j) < 2 ^ 32" using card_mono [OF A(1) area_subset [of A G' ?ws j]] A(3) by simp
    qed
    from holding_others [OF old [OF j] this] show ?thesis using False by (simp add: G'_def)
  qed
  then show ?thesis using A by (simp add: sys_owned_def G'_def)
qed


lemma total_step:
  assumes "i < n" "g_chan (G i) = g_chan (G 0)"
  shows "total (\<lambda>j. if j = i then g' else (G j)\<lparr>g_chan := g_chan g'\<rparr>) n + queued (G i) = total G n + queued g'"
proof -
  let ?G = "\<lambda>j. if j = i then g' else (G j)\<lparr>g_chan := g_chan g'\<rparr>"
  let ?f = "\<lambda>g. mset (g_dq g) + mset (g_acc g)"
  have s: "(\<Sum>j<n. ?f (H j)) = ?f (H i) + (\<Sum>j\<in>{..<n} - {i}. ?f (H j))" for H :: "nat \<Rightarrow> own"
    using assms(1) by (intro sum.remove) auto
  have "(\<Sum>j\<in>{..<n} - {i}. ?f (?G j)) = (\<Sum>j\<in>{..<n} - {i}. ?f (G j))" by (rule sum.cong) auto
  moreover have "g_chan (?G 0) = g_chan g'" by simp
  ultimately show ?thesis unfolding total_def s [of ?G] s [of G] queued_def using assms(2) by (simp add: ac_simps)
qed

definition splits :: "sys \<Rightarrow> uint" where
  "splits z = (\<Sum>i<length (workers z). tasks_split (workers z ! i))"

lemma splits_step:
  assumes "i < length (workers z)"
  shows "splits \<lparr>stacks = ss, workers = (workers z)[i := w], mem = sh\<rparr> + tasks_split (workers z ! i) = splits z + tasks_split w"
proof -
  have s: "(\<Sum>j<length (workers z). tasks_split (ws ! j)) = tasks_split (ws ! i) + (\<Sum>j\<in>{..<length (workers z)} - {i}. tasks_split (ws ! j))"
    for ws :: "worker list" using assms by (intro sum.remove) auto
  have "(\<Sum>j\<in>{..<length (workers z)} - {i}. tasks_split ((workers z)[i := w] ! j)) =
      (\<Sum>j\<in>{..<length (workers z)} - {i}. tasks_split (workers z ! j))" by (rule sum.cong) auto
  then show ?thesis using assms s [of "workers z"] s [of "(workers z)[i := w]"] by (simp add: splits_def)
qed

text \<open>
  The tasks that have been called and those that wait are those that have been pushed or split off.
\<close>

definition balanced :: "addr \<Rightarrow> hist \<Rightarrow> bool" where
  "balanced r h \<longleftrightarrow> (\<exists>A G D. sys_owned r A G (unpushed h) (now h) \<and>
     total G (length (workers (now h))) + mset (executed h) = mset (spawned h) + D \<and> splits (now h) = of_nat (size D))"

lemma balanced_step:
  assumes st: "tracked_step env cfg r h h'" and cfg: "MAXSTEAL cfg = 1" and inv: "sys_inv cfg (now h)" and b: "balanced r h"
  shows "balanced r h'"
proof -
  let ?z = "now h"
  obtain A G D where so: "sys_owned r A G (unpushed h) ?z" and t: "total G (length (workers ?z)) + mset (executed h) = mset (spawned h) + D"
    and sp: "splits ?z = of_nat (size D)" using b unfolding balanced_def by blast
  have ls: "length (stacks ?z) = length (workers ?z)" using sys_invD(1,2) [OF inv] by simp
  have hold: "holding (root_of r i) (area A G (workers ?z) i) (G i) (unpushed h ! i) (stacks ?z ! i) (workers ?z ! i, mem ?z)"
    "g_chan (G i) = g_chan (G 0)" if "i < length (workers ?z)" for i using so that by (simp_all add: sys_owned_def)
  show ?thesis using st
  proof cases
    case (Track_Run i P C fs F w sh)
    note i = Track_Run(2)
    have l: "local_ok cfg (Quiescence.others i ?z) (stacks ?z ! i) (workers ?z ! i, mem ?z)"
      by (rule sys_local [OF inv]) (use i sys_invD(2) [OF inv] in simp)
    from own_step_accounts [OF Track_Run(4) cfg l hold(1) [OF i]] obtain g' D' where
      g': "holding (root_of r i) (area A G (workers ?z) i) g' F fs (w, sh)"
        "moved (area A G (workers ?z) i) (G i) (workers ?z ! i, mem ?z) g' (w, sh)"
        "queued g' + mset C = queued (G i) + mset P + D'" "tasks_split w = tasks_split (workers ?z ! i) + of_nat (size D')"
      unfolding accounts_def by auto
    let ?G = "\<lambda>j. if j = i then g' else (G j)\<lparr>g_chan := g_chan g'\<rparr>"
    have "total ?G (length (workers ?z)) + queued (G i) + mset C + mset (executed h) = total G (length (workers ?z)) + (queued g' + mset C) + mset (executed h)"
      using total_step [OF i hold(2) [OF i], of g'] by (simp add: ac_simps)
    also have "\<dots> = (total G (length (workers ?z)) + mset (executed h)) + queued (G i) + mset P + D'" unfolding g'(3) by (simp add: ac_simps)
    also have "\<dots> = mset (spawned h) + D + queued (G i) + mset P + D'" unfolding t by simp
    finally have "total ?G (length (workers ?z)) + mset (C @ executed h) = mset (P @ spawned h) + (D + D')" by (simp add: ac_simps)
    moreover have "splits (now h') = of_nat (size (D + D'))"
      using splits_step [OF i, of "(stacks ?z)[i := fs]" w sh] g'(4) sp Track_Run(1) by simp
    moreover have "sys_owned r A ?G (unpushed h') (now h')"
      using sys_owned_step [OF so i g'(2,1) ls] Track_Run(1) by simp
    ultimately show ?thesis unfolding balanced_def using Track_Run(1) by (intro exI [of _ A] exI [of _ ?G] exI [of _ "D + D'"]) simp
  next
    case (Track_Wake i)
    note i = Track_Wake(2)
    let ?w = "(workers ?z ! i)\<lparr>blocked := False\<rparr>"
    have a: "aside (workers ?z ! i, mem ?z) (?w, mem ?z)" by (simp add: aside_def)
    have m: "moved (area A G (workers ?z) i) (G i) (workers ?z ! i, mem ?z) (G i) (?w, mem ?z)"
      using aside_moved [OF _ a] hold(1) [OF i] by (simp add: holding_def)
    have "holding (root_of r i) (area A G (workers ?z) i) (G i) (unpushed h ! i) (stacks ?z ! i) (?w, mem ?z)"
      using hold(1) [OF i] moved_owned [OF m] by (simp add: holding_def)
    note s = sys_owned_step [OF so i m this ls]
    let ?G = "\<lambda>j. if j = i then G i else (G j)\<lparr>g_chan := g_chan (G i)\<rparr>"
    have z: "now h' = \<lparr>stacks = (stacks ?z)[i := stacks ?z ! i], workers = (workers ?z)[i := ?w], mem = mem ?z\<rparr>"
      using Track_Wake(1) by (cases ?z) simp
    have "sys_owned r A ?G (unpushed h') (now h')" using s Track_Wake(1) unfolding z by simp
    moreover have "total ?G (length (workers ?z)) = total G (length (workers ?z))" using total_step [OF i hold(2) [OF i], of "G i"] by simp
    moreover have "splits (now h') = of_nat (size D)" using splits_step [OF i, of _ ?w "mem ?z"] sp unfolding z by simp
    ultimately show ?thesis unfolding balanced_def using Track_Wake(1) t by (intro exI [of _ A] exI [of _ ?G] exI [of _ D]) simp
  qed
qed


section \<open>The beginning\<close>

lemma malloc_fields:
  assumes "malloc sh = (p, sh')"
  shows "\<exists>ms. sh' = sh\<lparr>mallocs := ms\<rparr> \<and> (\<exists>k. mallocs sh = k @ ms \<and> (p \<noteq> NULL \<longrightarrow> k = [p]))"
proof (cases "mallocs sh")
  case Nil
  then have "sh' = sh\<lparr>mallocs := []\<rparr>" "p = NULL" using assms by (simp_all add: malloc_def)
  then show ?thesis using Nil by auto
next
  case (Cons q ms)
  then show ?thesis using assms by (intro exI [of _ ms]) (auto simp: malloc_def)
qed

lemma alloc_task_channels_fields:
  "alloc_task_channels i n (w, sh) = Some (w', sh') \<Longrightarrow>
    \<exists>st cs. w' = w\<lparr>channel_stack := st\<rparr> \<and> sh' = sh\<lparr>chan_tasks := cs\<rparr>"
proof (induction "n - i" arbitrary: i w sh)
  case 0
  then have "w' = w" "sh' = sh" by (auto simp: alloc_task_channels.simps [of i n])
  then show ?case by (intro exI [of _ "channel_stack w"] exI [of _ "chan_tasks sh"]) simp
next
  case (Suc k)
  have "i < n" using Suc.hyps(2) by simp
  then obtain cs st where r: "alloc_task_channels (i + 1) n (w\<lparr>channel_stack := st\<rparr>, sh\<lparr>chan_tasks := cs\<rparr>) = Some (w', sh')"
    using Suc.prems by (auto simp: alloc_task_channels.simps [of i n "(w, sh)"] CHANNEL_PUSH_def bind_eq_Some_conv)
  have "k = n - (i + 1)" using Suc.hyps(2) by simp
  from Suc.hyps(1) [OF this r] show ?case by auto
qed

text \<open>What \<^verbatim>\<open>RT_init\<close> does to the memory: it makes a deque.\<close>

definition equipped :: "shared \<Rightarrow> wst \<Rightarrow> bool" where
  "equipped sh s \<longleftrightarrow> deque_rel (task_mem (snd s)) (deque (fst s)) [] [] \<and> tasks_split (fst s) = 0 \<and>
     (\<forall>a. a \<noteq> dq_tail (deque (fst s)) \<longrightarrow> task_mem (snd s) a = task_mem sh a) \<and>
     (\<exists>k. mallocs sh = k @ mallocs (snd s) \<and> dq_tail (deque (fst s)) \<in> set k)"

lemma RT_init_equipped:
  assumes rt: "RT_init env cfg (w, sh) = Some (w', sh')" and w: "tasks_split w = 0"
  shows "equipped sh (w', sh') \<and> current_task w' = current_task w"
proof -
  obtain p1 sh1 where m1: "malloc sh = (p1, sh1)" by (cases "malloc sh")
  obtain p2 sh2 where m2: "malloc sh1 = (p2, sh2)" by (cases "malloc sh1")
  have N: "num_workers sh2 = num_workers sh" using malloc_fields [OF m1] malloc_fields [OF m2] by auto
  obtain dq h reqs where d: "deque_new (p1 \<noteq> NULL) p2 (env_junk env) (task_mem sh2) = Some (Some dq, h)"
    and rest: "(let (p, sh3) = malloc (sh2\<lparr>task_mem := h, chan_requests := reqs\<rparr>) in do {
     st \<leftarrow> bounded_stack_alloc (p \<noteq> NULL) 8 (of_int (MAXSTEAL cfg));
     (w, sh) \<leftarrow> alloc_task_channels 0 (nat (MAXSTEAL cfg)) (w\<lparr>deque := dq, channel_stack := st\<rparr>, sh3);
     assertion (uint (bs_top (channel_stack w)) = MAXSTEAL cfg);
     let (p, sh) = malloc sh;
     ws \<leftarrow> bounded_queue_alloc (p \<noteq> NULL) 24 2;
     t \<leftarrow> worker_tree_init (ID w) (num_workers sh2 - 1);
     sg \<leftarrow> write_at (signals sh) (nat (ID w)) False;
     Some (w\<lparr>work_sharing_requests := ws, tree := t, requested := 0,
       victim_sel := (victim_sel w)\<lparr>vs_seed := of_int (ID w)\<rparr>\<rparr>, sh\<lparr>signals := sg\<rparr>)
     }) = Some (w', sh')"
    using rt m1 m2 N by (auto simp: RT_init_def bind_eq_Some_conv)
  have p1: "p1 \<noteq> NULL" using d by (auto simp: deque_new_def)
  then have p2: "p2 \<noteq> NULL" using d deque_new_null by fastforce
  obtain dq' h' where "deque_new True p2 (env_junk env) (task_mem sh2) = Some (Some dq', h')" "deque_rel h' dq' [] []"
    "dq_tail dq' = p2" "\<forall>a. a \<noteq> p2 \<longrightarrow> h' a = task_mem sh2 a" using deque_new_rel [OF p2] by blast
  then have dq: "deque_rel h dq [] []" "dq_tail dq = p2" "\<forall>a. a \<noteq> p2 \<longrightarrow> h a = task_mem sh2 a" using d p1 by simp_all
  obtain ms2 where s2: "sh2 = sh\<lparr>mallocs := ms2\<rparr>" "mallocs sh = [p1, p2] @ ms2"
    using malloc_fields [OF m1] malloc_fields [OF m2] p1 p2 by auto
  let ?sh2 = "sh2\<lparr>task_mem := h, chan_requests := reqs\<rparr>"
  obtain p3 sh3 where m3: "malloc ?sh2 = (p3, sh3)" by (cases "malloc ?sh2")
  obtain st w4 sh4 where al: "alloc_task_channels 0 (nat (MAXSTEAL cfg)) (w\<lparr>deque := dq, channel_stack := st\<rparr>, sh3) = Some (w4, sh4)"
    and fin: "deque w' = deque w4" "tasks_split w' = tasks_split w4" "current_task w' = current_task w4"
      "task_mem sh' = task_mem (snd (malloc sh4))" "mallocs sh' = mallocs (snd (malloc sh4))"
    using rest m3 by (auto simp: Let_def bind_eq_Some_conv case_prod_beta)
  obtain p5 sh5 where m5: "malloc sh4 = (p5, sh5)" by (cases "malloc sh4")
  obtain cs st' where f4: "w4 = w\<lparr>deque := dq, channel_stack := st'\<rparr>" "sh4 = sh3\<lparr>chan_tasks := cs\<rparr>"
    using alloc_task_channels_fields [OF al] by auto
  obtain k3 ms3 where s3: "sh3 = ?sh2\<lparr>mallocs := ms3\<rparr>" "ms2 = k3 @ ms3" using malloc_fields [OF m3] s2 by auto
  obtain k5 ms5 where s5: "sh5 = sh4\<lparr>mallocs := ms5\<rparr>" "ms3 = k5 @ ms5" using malloc_fields [OF m5] s3 f4 by auto
  have "mallocs sh = ([p1, p2] @ k3 @ k5) @ mallocs sh'" using s2 s3 s5 fin m5 by simp
  then have "\<exists>k. mallocs sh = k @ mallocs sh' \<and> p2 \<in> set k" by (metis in_set_conv_decomp append_Cons append_Nil)
  then show ?thesis using dq fin f4 s2 s3 s5 m5 w by (simp add: equipped_def)
qed


definition dummies :: "worker list \<Rightarrow> addr list" where
  "dummies ws = map (\<lambda>w. dq_tail (deque w)) ws"

lemma deque_rel_empty_frame: "deque_rel h dq [] [] \<Longrightarrow> h' (dq_tail dq) = h (dq_tail dq) \<Longrightarrow> deque_rel h' dq [] []"
  by (rule deque_rel_frame [of h]) (simp_all add: nodes_def)

lemma start_workers_equipped:
  assumes "start_workers env cfg is sh = Some (ws, sh')" "distinct (mallocs sh)"
  shows "(\<exists>k. mallocs sh = k @ mallocs sh' \<and> set (dummies ws) \<subseteq> set k) \<and> distinct (dummies ws) \<and>
    (\<forall>w \<in> set ws. deque_rel (task_mem sh') (deque w) [] [] \<and> tasks_split w = 0 \<and> current_task w = NULL) \<and>
    (\<forall>a. a \<notin> set (dummies ws) \<longrightarrow> task_mem sh' a = task_mem sh a)"
  using assms
proof (induction "is" arbitrary: sh ws)
  case Nil
  then show ?case by (simp add: dummies_def)
next
  case (Cons i "is")
  obtain w sh1 ws' where w: "worker_entry_fn env cfg i sh = Some (w, sh1)" and ws: "ws = w # ws'" "start_workers env cfg is sh1 = Some (ws', sh')"
    using Cons.prems(1) by (auto simp: bind_eq_Some_conv)
  let ?q = "dq_tail (deque w)"
  have e: "equipped sh (w, sh1)" "current_task w = NULL"
    using RT_init_equipped [OF w [unfolded worker_entry_fn_def]] by (simp_all add: thread_private_def set_current_task_def)
  then obtain k where k: "mallocs sh = k @ mallocs sh1" "?q \<in> set k" by (auto simp: equipped_def)
  have "distinct (mallocs sh1)" using Cons.prems(2) k(1) by simp
  note IH = Cons.IH [OF ws(2) this]
  then obtain k' where k': "mallocs sh1 = k' @ mallocs sh'" "set (dummies ws') \<subseteq> set k'" by blast
  have q: "?q \<notin> set (dummies ws')" using k k' Cons.prems(2) by auto
  have "deque_rel (task_mem sh') (deque w) [] []"
    by (rule deque_rel_empty_frame [of "task_mem sh1"]) (use e(1) IH q in \<open>simp_all add: equipped_def\<close>)
  moreover have "task_mem sh' a = task_mem sh a" if "a \<notin> set (dummies ws)" for a
    using that IH e(1) ws(1) by (simp add: equipped_def dummies_def)
  moreover have "\<exists>k. mallocs sh = k @ mallocs sh' \<and> set (dummies ws) \<subseteq> set k"
    using k k' ws(1) by (intro exI [of _ "k @ k'"]) (auto simp: dummies_def)
  ultimately show ?case using IH e q ws(1) by (simp add: equipped_def dummies_def)
qed

lemma tasking_init_equipped:
  assumes t: "tasking_init env cfg envval n ms = Some (Inr z)" and ms: "distinct ms"
  shows "distinct (current_task (workers z ! 0) # dummies (workers z) @ mallocs (mem z)) \<and>
    set (current_task (workers z ! 0) # dummies (workers z) @ mallocs (mem z)) \<subseteq> set ms \<and>
    (\<forall>w \<in> set (workers z). deque_rel (task_mem (mem z)) (deque w) [] [] \<and> tasks_split w = 0) \<and>
    (\<forall>i < length (workers z). 0 < i \<longrightarrow> current_task (workers z ! i) = NULL) \<and>
    (\<exists>t. deref (task_mem (mem z)) (current_task (workers z ! 0)) = Some t \<and> \<not> t_splittable t)"
proof -
  obtain N where N: "get_num_workers envval n = Inr N" using t by (auto simp: tasking_init_def split: sum.splits)
  obtain ws sh where ws: "start_workers env cfg [1..N - 1] (boot env cfg N ms) = Some (ws, sh)"
    using t N by (auto simp: tasking_init_def bind_eq_Some_conv)
  obtain r sh1 where m: "malloc sh = (r, sh1)" by (cases "malloc sh")
  obtain h w sh2 where r: "r \<noteq> NULL" and h: "assign ((task_mem sh1)(r \<mapsto> env_junk env)) r root_task = Some h"
    and w: "RT_init env cfg (set_current_task r (thread_private\<lparr>ID := 0,
         num_tasks_exec := 0, tasking_finished := False\<rparr>), sh1\<lparr>task_mem := h\<rparr>) = Some (w, sh2)"
    and z: "z = \<lparr>stacks = [Main_Program] # replicate (length ws) [Schedule Pop], workers = w # ws, mem = sh2\<rparr>"
    using t N ws m by (auto simp: tasking_init_def bind_eq_Some_conv)
  have hr: "h = (task_mem sh1)(r \<mapsto> root_task (env_junk env))" using h r by (auto simp: assign_def deref_def)
  note S = start_workers_equipped [OF ws]
  have b: "mallocs (boot env cfg N ms) = ms" by (simp add: boot_def)
  obtain k1 where k1: "ms = k1 @ mallocs sh" "set (dummies ws) \<subseteq> set k1" using S ms unfolding b by blast
  have s1: "mallocs sh = r # mallocs sh1" "task_mem sh1 = task_mem sh" using malloc_fields [OF m] r by auto
  have e: "equipped (sh1\<lparr>task_mem := h\<rparr>) (w, sh2)" "current_task w = r"
    using RT_init_equipped [OF w] by (simp_all add: thread_private_def set_current_task_def)
  let ?q = "dq_tail (deque w)"
  obtain k2 where k2: "mallocs sh1 = k2 @ mallocs sh2" "?q \<in> set k2" using e(1) by (auto simp: equipped_def)
  have ms': "ms = k1 @ r # k2 @ mallocs sh2" using k1 s1 k2 by simp
  have fr: "task_mem sh2 a = task_mem sh a" if "a \<in> set (dummies ws)" for a
  proof -
    have "a \<in> set k1" using that k1(2) by blast
    then have "a \<noteq> ?q" "a \<noteq> r" using ms ms' k2(2) by auto
    then show ?thesis using e(1) hr s1(2) by (simp add: equipped_def)
  qed
  have "deque_rel (task_mem sh2) (deque v) [] []" if "v \<in> set ws" for v
    by (rule deque_rel_empty_frame [of "task_mem sh"]) (use S that fr ms b in \<open>auto simp: dummies_def\<close>)
  moreover have "distinct (r # dummies (w # ws) @ mallocs sh2)" "set (r # dummies (w # ws) @ mallocs sh2) \<subseteq> set ms"
    using S ms k1(2) k2(2) ms' b by (auto simp: dummies_def)
  moreover have "r \<noteq> ?q" using ms ms' k2(2) by auto
  then have "task_mem sh2 r = h r" using e(1) by (simp add: equipped_def)
  then have "deref (task_mem sh2) r = Some (root_task (env_junk env))" using hr r by (simp add: deref_def)
  ultimately show ?thesis
    using z e S ms b by (auto simp: equipped_def root_task_def nth_Cons split: nat.splits)
qed


lemma balanced_init:
  assumes t: "tasking_init env cfg envval n ms = Some (Inr z)" and cfg: "MAXSTEAL cfg = 1"
    and ms: "distinct ms" "NULL \<notin> set ms" "length ms < 2 ^ 32"
  shows "balanced (current_task (workers z ! 0)) \<lparr>now = z, unpushed = replicate (length (workers z)) [], spawned = [], executed = []\<rparr>"
proof -
  let ?r = "current_task (workers z ! 0)" and ?h = "task_mem (mem z)" and ?n = "length (workers z)"
  obtain N where N: "fresh N (mem z)" "N \<le> MAXWORKERS" "1 \<le> N" "stacks z = [Main_Program] # replicate (nat N - 1) [Schedule Pop]"
    using tasking_init_workers [OF t cfg] by blast
  have nw: "num_workers (mem z) = N" using N(1) by (simp add: fresh_def)
  have n: "?n = nat N" using sys_invD(2) [OF tasking_init_inv [OF t cfg]] nw by simp
  note E = tasking_init_equipped [OF t ms(1)]
  have r: "?r \<noteq> NULL" using E ms(2) by auto
  define G where "G = (\<lambda>i :: nat. \<lparr>g_dq = [], g_free = [], g_chan = replicate (nat N) [], g_hand = [], g_acc = [],
    g_root = (if i = 0 then [?r] else [])\<rparr>)"
  have foot: "foot (G i) (workers z ! i) = dq_tail (deque (workers z ! i)) # (if i = 0 then [?r] else [])" for i
    by (simp add: foot_def G_def)
  have q: "dq_tail (deque (workers z ! i)) = dummies (workers z) ! i" "length (dummies (workers z)) = ?n" if "i < ?n" for i
    using that by (simp_all add: dummies_def)
  have d: "distinct (dummies (workers z))" "?r \<notin> set (dummies (workers z))" "distinct (mallocs (mem z))"
    "set (?r # dummies (workers z)) \<inter> set (mallocs (mem z)) = {}" using E by auto
  have sub: "set (foot (G i) (workers z ! i)) \<subseteq> set (?r # dummies (workers z))" if "i < ?n" for i
    using that nth_mem [of i "dummies (workers z)"] q [OF that] by (auto simp: foot)
  have nr: "dq_tail (deque (workers z ! i)) \<noteq> ?r" if "i < ?n" for i using d(2) q [OF that] that by (metis nth_mem)
  have dis: "set (foot (G i) (workers z ! i)) \<inter> set (foot (G j) (workers z ! j)) = {}" if "i < ?n" "j < ?n" "i \<noteq> j" for i j
    using that d(1) q [OF that(1)] q [OF that(2)] nr [OF that(1)] nr [OF that(2)] by (auto simp: foot nth_eq_iff_index_eq)
  have c0: "concat (replicate (nat N) []) = []" by simp
  have "holding (root_of ?r i) (area (set ms) G (workers z) i) (G i) [] (stacks z ! i) (workers z ! i, mem z)" if i: "i < ?n" for i
  proof -
    let ?w = "workers z ! i" and ?B = "area (set ms) G (workers z) i"
    have cells: "cells (G i) (?w, mem z) = foot (G i) ?w @ mallocs (mem z)"
      by (simp add: cells_def places_def besides_def foot_def G_def)
    have "set (foot (G i) ?w @ mallocs (mem z)) \<inter> set (foot (G j) (workers z ! j)) = {}" if "j < ?n" "j \<noteq> i" for j
      using dis [OF i that(1)] that(2) sub [OF that(1)] d(4) by auto
    then have B: "set (cells (G i) (?w, mem z)) \<subseteq> ?B" unfolding cells area_def using E sub [OF i] by auto
    have "distinct (cells (G i) (?w, mem z))" unfolding cells using d(3,4) sub [OF i] nr [OF i] by (auto simp: foot)
    moreover have "deque_rel ?h (deque ?w) [] []" using E i by simp
    moreover have "in_chan ?h (chan_tasks (mem z) ! k) []" if "k < nat N" for k
    proof -
      have "k < length (chan_tasks (mem z))" using N(1,2) that by (simp add: fresh_def)
      then have "chan_tasks (mem z) ! k \<in> set (chan_tasks (mem z))" by simp
      then have "chan_tasks (mem z) ! k = [[]]" using N(1) by (auto simp: fresh_def)
      then show ?thesis by (simp add: in_chan_def)
    qed
    moreover have "NULL \<notin> ?B" "finite ?B" "card ?B < 2 ^ 32"
      using ms area_subset [of "set ms" G "workers z" i] finite_subset card_mono [of "set ms" ?B] card_length [of ms] by auto
    ultimately have "owned ?B (G i) (?w, mem z)"
      using B E i nw by (auto simp: owned_def well_placed_def outside_def G_def)
    moreover have "stacks z ! i = [if i = 0 then Main_Program else Schedule Pop]" using i n N(4) by (cases i) auto
    moreover have "current_task ?w = root_of ?r i" using E i by (simp add: root_of_def)
    ultimately show ?thesis using r by (simp add: holding_def G_def root_of_def top_task_def)
  qed
  then have "sys_owned ?r (set ms) G (replicate ?n []) z"
    using ms card_length [of ms] by (simp add: sys_owned_def G_def)
  moreover have "total G ?n = {#}" by (simp add: total_def G_def)
  moreover have "splits z = 0" using E by (simp add: splits_def)
  ultimately show ?thesis unfolding balanced_def by (intro exI [of _ "set ms"] exI [of _ G] exI [of _ "{#}"]) simp
qed

lemma tracked_balanced:
  assumes "tracked env cfg r h" "MAXSTEAL cfg = 1"
  shows "balanced r h"
  using assms
proof (induction rule: tracked.induct)
  case (Track_Step r h h')
  then show ?case using balanced_step reachable_inv [OF tracked_reachable] by blast
qed (rule balanced_init)


section \<open>Consequences\<close>

text \<open>
  The tasks \<open>Q\<close> that wait in the deque of worker \<open>i\<close>, in its task channel or among the tasks it has received and is
  about to accept.
\<close>

definition waiting_at :: "sys \<Rightarrow> nat \<Rightarrow> addr list \<Rightarrow> bool" where
  "waiting_at z i Q \<longleftrightarrow> (let h = task_mem (mem z); w = workers z ! i in
     \<exists>ts fs us vs. Q = ts @ us @ vs \<and> deque_rel h (deque w) ts fs \<and> in_chan h (chan_tasks (mem z) ! i) us \<and>
       dll h NULL vs NULL \<and> (case accept_of (hd (stacks z ! i)) of None \<Rightarrow> vs = [] | Some task \<Rightarrow> vs \<noteq> [] \<and> hd vs = task))"

definition waiting_list :: "(nat \<Rightarrow> own) \<Rightarrow> nat \<Rightarrow> addr list" where
  "waiting_list G i = g_dq (G i) @ g_chan (G i) ! i @ g_acc (G i)"

lemma sys_ownedD:
  assumes "sys_owned r A G U z" "i < length (workers z)"
  shows "owned (area A G (workers z) i) (G i) (workers z ! i, mem z)" "g_chan (G i) = g_chan (G 0)"
    "mset (g_hand (G i)) = mset (U ! i) + mset (running (stacks z ! i))"
    "case accept_of (hd (stacks z ! i)) of None \<Rightarrow> g_acc (G i) = [] | Some task \<Rightarrow> g_acc (G i) \<noteq> [] \<and> hd (g_acc (G i)) = task"
  using assms by (simp_all add: sys_owned_def holding_def)

lemma waiting_list_at:
  assumes "sys_owned r A G U z" "i < length (workers z)" "length (workers z) = nat (num_workers (mem z))"
  shows "waiting_at z i (waiting_list G i)"
proof -
  note s = sys_ownedD [OF assms(1,2)] note o = ownedD [OF s(1)]
  show ?thesis unfolding waiting_at_def waiting_list_def Let_def
    using o(1,4) o(2) [of i] s(4) assms(2,3) by (intro exI conjI) auto
qed

lemma total_concat:
  assumes "length (g_chan (G 0)) = n" "\<forall>i < n. g_chan (G i) = g_chan (G 0)"
  shows "total G n = mset (concat (map (waiting_list G) [0..<n]))"
proof -
  let ?f = "\<lambda>i. mset (g_dq (G i)) + mset (g_acc (G i))"
  have c: "mset (concat xs) = (\<Sum>i<length xs. mset (xs ! i))" for xs :: "addr list list"
  proof (induction xs rule: rev_induct)
    case (snoc x xs)
    have "(\<Sum>i<length xs. mset ((xs @ [x]) ! i)) = (\<Sum>i<length xs. mset (xs ! i))" by (rule sum.cong) (simp_all add: nth_append)
    then show ?case using snoc by simp
  qed simp
  have "mset (concat (map (waiting_list G) [0..<n])) = (\<Sum>i<n. mset (waiting_list G i))"
    using c [of "map (waiting_list G) [0..<n]"] by simp
  also have "\<dots> = (\<Sum>i<n. ?f i + mset (g_chan (G 0) ! i))"
  proof (rule sum.cong [OF refl])
    fix i assume "i \<in> {..<n}"
    then have "g_chan (G i) = g_chan (G 0)" using assms(2) by blast
    then show "mset (waiting_list G i) = ?f i + mset (g_chan (G 0) ! i)" by (simp add: waiting_list_def)
  qed
  also have "\<dots> = total G n" using c [of "g_chan (G 0)"] assms(1) by (simp add: sum.distrib total_def)
  finally show ?thesis ..
qed

text \<open>The tasks that a worker has in hand or that wait for it are those of no other worker.\<close>

lemma feet_disjoint:
  assumes "sys_owned r A G U z" "i < length (workers z)" "j < length (workers z)" "i \<noteq> j"
  shows "set (foot (G i) (workers z ! i)) \<inter> set (foot (G j) (workers z ! j)) = {}"
  using owned_parts(1) [OF sys_ownedD(1) [OF assms(1,2)]] area_disjoint [OF assms(3), of i G A] assms(4) by blast

lemma hand_set:
  assumes "sys_owned r A G U z" "i < length (workers z)"
  shows "set (g_hand (G i)) = set (U ! i) \<union> set (running (stacks z ! i))"
    "distinct (g_hand (G i)) \<longleftrightarrow> distinct (U ! i @ running (stacks z ! i))"
proof -
  have e: "mset (g_hand (G i)) = mset (U ! i @ running (stacks z ! i))" using sys_ownedD(3) [OF assms] by simp
  show "set (g_hand (G i)) = set (U ! i) \<union> set (running (stacks z ! i))" using mset_eq_setD [OF e] by simp
  show "distinct (g_hand (G i)) \<longleftrightarrow> distinct (U ! i @ running (stacks z ! i))" by (rule mset_eq_imp_distinct_iff [OF e])
qed

lemma concat_disjoint:
  assumes "distinct (concat xs)" "i < length xs" "j < length xs" "i \<noteq> j"
  shows "set (xs ! i) \<inter> set (xs ! j) = {}"
  using assms
proof (induction xs arbitrary: i j)
  case (Cons x xs)
  have "set x \<inter> set (xs ! k) = {}" if "k < length xs" for k using nth_mem [OF that] Cons.prems(1) by fastforce
  then show ?case using Cons by (cases i; cases j) auto
qed simp

lemma objects_distinct:
  assumes so: "sys_owned r A G U z" and i: "i < length (workers z)" and n: "length (workers z) = nat (num_workers (mem z))"
  shows "distinct (waiting_list G i @ U ! i @ running (stacks z ! i))"
    "j < length (workers z) \<Longrightarrow> i \<noteq> j \<Longrightarrow> set (waiting_list G i @ U ! i @ running (stacks z ! i)) \<inter>
       set (waiting_list G j @ U ! j @ running (stacks z ! j)) = {}"
proof -
  have len: "length (g_chan (G 0)) = length (workers z)"
    using ownedD(6) [OF sys_ownedD(1) [OF so i]] sys_ownedD(2) [OF so i] n by simp
  have dc: "distinct (concat (g_chan (G 0)))" using owned_parts(3) [OF sys_ownedD(1) [OF so i]] sys_ownedD(2) [OF so i] by simp
  have objs: "set (waiting_list G k @ U ! k @ running (stacks z ! k)) \<subseteq> set (foot (G k) (workers z ! k)) \<union> set (g_chan (G 0) ! k)"
    "set (g_chan (G 0) ! k) \<subseteq> set (concat (g_chan (G 0)))"
    "set (foot (G k) (workers z ! k)) \<inter> set (concat (g_chan (G 0))) = {}" if k: "k < length (workers z)" for k
    using hand_set(1) [OF so k] sys_ownedD(2) [OF so k] nth_mem [of k "g_chan (G 0)"] len k owned_parts(4) [OF sys_ownedD(1) [OF so k]]
    by (auto simp: waiting_list_def foot_def)
  show "distinct (waiting_list G i @ U ! i @ running (stacks z ! i))"
  proof -
    have "distinct (g_chan (G 0) ! i)" using dc len i by (simp add: distinct_concat_iff)
    moreover have "distinct (g_dq (G i) @ g_acc (G i) @ g_hand (G i))"
      using ownedD(8) [OF sys_ownedD(1) [OF so i]] by (auto simp: cells_def places_def besides_def)
    ultimately show ?thesis
      using objs(2,3) [OF i] hand_set [OF so i] sys_ownedD(2) [OF so i] unfolding waiting_list_def foot_def by auto
  qed
  assume j: "j < length (workers z)" "i \<noteq> j"
  have "set (g_chan (G 0) ! i) \<inter> set (g_chan (G 0) ! j) = {}"
    by (rule concat_disjoint [OF dc]) (use i j len in simp_all)
  then show "set (waiting_list G i @ U ! i @ running (stacks z ! i)) \<inter> set (waiting_list G j @ U ! j @ running (stacks z ! j)) = {}"
    using objs [OF i] objs [OF j(1)] feet_disjoint [OF so i j] by blast
qed


theorem tasks_balance:
  assumes t: "tracked env cfg r h" and cfg: "MAXSTEAL cfg = 1"
  shows "\<exists>Q D. length Q = length (workers (now h)) \<and>
    (\<forall>i < length Q. waiting_at (now h) i (Q ! i) \<and> distinct (Q ! i @ unpushed h ! i @ running (stacks (now h) ! i))) \<and>
    (\<forall>i < length Q. \<forall>j < length Q. i \<noteq> j \<longrightarrow> set (Q ! i @ unpushed h ! i @ running (stacks (now h) ! i)) \<inter>
       set (Q ! j @ unpushed h ! j @ running (stacks (now h) ! j)) = {}) \<and>
    mset (executed h) + mset (concat Q) = mset (spawned h) + D \<and> splits (now h) = of_nat (size D)"
proof -
  let ?z = "now h" and ?n = "length (workers (now h))"
  note inv = reachable_inv [OF tracked_reachable [OF t] cfg]
  have n: "?n = nat (num_workers (mem ?z))" by (rule sys_invD(2) [OF inv])
  obtain A G D where so: "sys_owned r A G (unpushed h) ?z" and e: "total G ?n + mset (executed h) = mset (spawned h) + D"
    and s: "splits ?z = of_nat (size D)" using tracked_balanced [OF t cfg] unfolding balanced_def by blast
  let ?Q = "map (waiting_list G) [0..<?n]"
  have n0: "0 < ?n" using n sys_invD(4) [OF inv] by simp
  have "length (g_chan (G 0)) = ?n" using ownedD(6) [OF sys_ownedD(1) [OF so n0]] n by simp
  moreover have "\<forall>i < ?n. g_chan (G i) = g_chan (G 0)" using sys_ownedD(2) [OF so] by blast
  ultimately have "mset (executed h) + mset (concat ?Q) = mset (spawned h) + D" using total_concat [of G ?n] e by (simp add: ac_simps)
  then show ?thesis
    using s waiting_list_at [OF so _ n] objects_distinct [OF so _ n] by (intro exI [of _ ?Q] exI [of _ D]) simp
qed

text \<open>Nothing waits for an idle worker.\<close>

lemma idle_waiting:
  assumes "waiting_at z i Q" "all_idle z" "i < nat (num_workers (mem z))" "accept_of (hd (stacks z ! i)) = None"
  shows "Q = []"
proof -
  have "deque_empty (deque (workers z ! i))" "chan_tasks (mem z) ! i = [[]]" using assms(2,3) by (auto simp: all_idle_def)
  then show ?thesis using assms(1,4) deque_empty_rel by (auto simp: waiting_at_def in_chan_def Let_def split: if_splits)
qed

text \<open>A worker that has just received tasks has not found the system quiescent.\<close>

lemma accept_keeps_quiescent:
  assumes st: "worker_step env cfg (fs, w, sh) (fs', w', sh')" and cfg: "MAXSTEAL cfg = 1" and l: "local_ok cfg X fs (w, sh)"
    and t: "\<forall>f \<in> set (tl fs). accept_of f = None" and a: "accept_of (hd fs') = Some task"
  shows "quiescent w' = quiescent w"
proof -
  note L = local_okD [OF l]
  have R: "quiescent w' = quiescent w" if "RECV_TASK rand cfg idle (w, sh) = Some (res, w', sh')" for rand idle res
    using RECV_TASK_ok [OF L(1,2) cfg that] by simp
  have k: "stack_ok (ID w) fs" using L(3) by (simp add: worker_ok_def)
  have ret: False if "fs = f # fs'" "\<not> base_frame (ID w) f" for f using that t a k by (cases fs') (auto dest: stack_ok_not_Nil)
  show ?thesis using st
  proof cases
    case (Step_Schedule pc pc' c gs)
    then show ?thesis using a R
      by (cases pc) (auto simp: called_def bind_eq_Some_conv call_task_Some split: if_splits option.splits)
  next
    case (Step_Barrier pc pc' c gs)
    then show ?thesis using a R
      by (cases pc) (auto simp: called_def bind_eq_Some_conv call_task_Some split: if_splits option.splits)
  next
    case (Step_Force this f n pc pc' c gs)
    then show ?thesis using a R
      by (cases pc) (auto simp: called_def bind_eq_Some_conv call_task_Some if_ready_def Let_def split: if_splits option.splits)
  next
    case (Step_Code tk gs)
    then show ?thesis using a by (auto elim: user_step.cases)
  next
    case (Step_Main gs)
    then show ?thesis using a by (auto elim: user_step.cases)
  qed (use ret in \<open>auto simp: base_frame_def\<close>)
qed


text \<open>When the master finds the system quiescent, every task has been called, and the worker threads have finished theirs.\<close>

lemma tasks_done:
  assumes t: "tracked env cfg r h" and st: "tracked_step env cfg r h h'" and cfg: "MAXSTEAL cfg = 1"
    and N: "1 < num_workers (mem (now h))" and q: "\<not> quiescent (workers (now h) ! 0)" "quiescent (workers (now h') ! 0)"
  shows "(\<exists>D. mset (executed h') = mset (spawned h') + D \<and> splits (now h') = of_nat (size D)) \<and>
    (\<forall>i < length (workers (now h')). 0 < i \<longrightarrow> running (stacks (now h') ! i) = [])"
proof -
  let ?z = "now h" and ?z' = "now h'"
  note inv = reachable_inv [OF tracked_reachable [OF t] cfg] and s = tracked_sys_step [OF st]
  have inv': "sys_inv cfg ?z'" by (rule sys_step_inv [OF s cfg inv])
  have idle: "all_idle ?z'" using detected_idle [OF inv'] sys_step_detects [OF s cfg inv q N] by blast
  have acc: "accept_of (hd (stacks ?z' ! 0)) = None"
  proof (rule ccontr)
    assume "accept_of (hd (stacks ?z' ! 0)) \<noteq> None"
    then obtain task where a: "accept_of (hd (stacks ?z' ! 0)) = Some task" by blast
    show False using st
    proof cases
      case (Track_Run i P C fs F w sh)
      have i: "i < nat (num_workers (mem ?z))" using Track_Run(2) sys_invD(2) [OF inv] by simp
      have i0: "i = 0" using Track_Run(1,2) q by (cases "i = 0") auto
      have "\<forall>f \<in> set (tl (stacks ?z ! i)). accept_of f = None"
        using tracked_balanced [OF t cfg] Track_Run(2) by (auto simp: balanced_def sys_owned_def holding_def)
      then have "quiescent w = quiescent (workers ?z ! 0)"
        using accept_keeps_quiescent [OF own_worker_step [OF Track_Run(4)] cfg sys_local [OF inv i]] a i0 Track_Run(1) sys_invD(1) [OF inv] i by simp
      then show False using q Track_Run(1,2) i0 by simp
    next
      case (Track_Wake i)
      then show False using q by (cases "i = 0") auto
    qed
  qed
  obtain Q D where Q: "length Q = length (workers ?z')" "\<forall>i < length Q. waiting_at ?z' i (Q ! i)"
    "mset (executed h') + mset (concat Q) = mset (spawned h') + D" "splits ?z' = of_nat (size D)"
    using tasks_balance [OF Track_Step [OF t st] cfg] by blast
  have n: "length (workers ?z') = nat (num_workers (mem ?z'))" by (rule sys_invD(2) [OF inv'])
  have stack: "stacks ?z' ! i = [Schedule Receive] \<or> stacks ?z' ! i = [Schedule Decline]" if "i < length (workers ?z')" "0 < i" for i
    using idle that n by (simp add: all_idle_def)
  have "Q ! i = []" if i: "i < length Q" for i
    by (rule idle_waiting [of ?z' i]) (use Q(1,2) idle n i acc stack [of i] in \<open>cases "i = 0"; auto\<close>)+
  then have c: "concat Q = []" by (auto simp: in_set_conv_nth)
  have "mset (executed h') = mset (spawned h') + D" using Q(3) unfolding c by simp
  moreover have "running (stacks ?z' ! i) = []" if "i < length (workers ?z')" "0 < i" for i using stack [OF that] by auto
  ultimately show ?thesis using Q(4) by blast
qed

end
