(* ===== verification/Simulation.thy ===== *)
theory Simulation
  imports Startup
begin

text \<open>
  Running the system. A schedule says which worker moves next and what its task or the main program
  does if that is what it runs; every run is a sequence of steps of \<^theory_text>\<open>Machine\<close>, so it reaches
  reachable states. The runs below start two workers and serve as concrete instances.
\<close>

declare share_work.simps [code] pop_loop.simps [code] handle_loop.simps [code] poll_loop.simps [code]
  convert_futures.simps [code] find_tail.simps [code]

datatype user_action = Allocate | Push addr | Poll | Enter_Barrier | Wait_For addr nat | Return

definition user_next :: "env \<Rightarrow> config \<Rightarrow> user_action \<Rightarrow> frame list \<times> wst \<Rightarrow> (frame list \<times> wst) option" where
  "user_next env cfg a c = (let (fs, s) = c in case a of
     Allocate \<Rightarrow> do { (_, s) \<leftarrow> RT_task_alloc (env_junk env) s; Some (fs, s) }
   | Push task \<Rightarrow> do { s \<leftarrow> RT_push env cfg task s; Some (fs, s) }
   | Poll \<Rightarrow> do { s \<leftarrow> RT_poll env cfg s; Some (fs, s) }
   | Enter_Barrier \<Rightarrow> do { b \<leftarrow> barrier_enter s; assertion b; Some (Barrier Pop # fs, s) }
   | Wait_For f n \<Rightarrow> Some (Force (get_current_task (fst s)) f n FStart # fs, s)
   | Return \<Rightarrow> None)"

lemma user_next_step: "user_next env cfg a (fs, s) = Some c \<Longrightarrow> user_step env cfg (fs, s) c"
  by (cases a)
    (auto simp: user_next_def bind_eq_Some_conv
      intro: User_Alloc User_Push User_Poll User_Barrier User_Force)

definition worker_next :: "env \<Rightarrow> config \<Rightarrow> user_action \<Rightarrow> frame list \<times> wst \<Rightarrow> (frame list \<times> wst) option" where
  "worker_next env cfg a c = (let (fs, s) = c in case fs of
     Schedule pc # gs \<Rightarrow> do { (pc, c, s) \<leftarrow> schedule_step env cfg pc s; Some (called c (Schedule pc # gs), s) }
   | Barrier pc # gs \<Rightarrow>
       if pc = Leave then do { assertion (quiescent (fst s)); Some (gs, s) }
       else do { (pc, c, s) \<leftarrow> barrier_step env cfg pc s; Some (called c (Barrier pc # gs), s) }
   | Force this f n pc # gs \<Rightarrow>
       (case pc of
          FReturn r \<Rightarrow> do { (_, s) \<leftarrow> force_return f n r s; Some (gs, s) }
        | _ \<Rightarrow> do { (pc, c, s) \<leftarrow> force_step env cfg this f n pc s; Some (called c (Force this f n pc # gs), s) })
   | Code task # gs \<Rightarrow> if a = Return then Some (gs, s) else user_next env cfg a (fs, s)
   | Main_Program # gs \<Rightarrow> user_next env cfg a (fs, s)
   | [] \<Rightarrow> None)"

lemma worker_next_step:
  assumes "worker_next env cfg a (fs, s) = Some c"
  shows "worker_step env cfg (fs, s) c"
proof (cases fs)
  case (Cons f gs)
  show ?thesis
  proof (cases f)
    case (Force this f n pc)
    show ?thesis
    proof (cases "\<exists>r. pc = FReturn r")
      case True
      then show ?thesis
        using assms Cons Force by (auto simp: worker_next_def bind_eq_Some_conv intro: Step_Force_Return)
    next
      case False
      then have "force_step env cfg this f n pc s \<bind> (\<lambda>(pc, c, s). Some (called c (Force this f n pc # gs), s)) = Some c"
        using assms Cons Force by (cases pc) (simp_all add: worker_next_def del: force_step.simps)
      then show ?thesis using Cons Force by (auto simp: bind_eq_Some_conv simp del: force_step.simps intro: Step_Force)
    qed
  qed (use assms Cons in \<open>auto simp: worker_next_def bind_eq_Some_conv split: if_splits
      intro: Step_Schedule Step_Barrier Step_Barrier_Return Step_Code Step_Code_Return Step_Main user_next_step\<close>)
qed (use assms in \<open>simp add: worker_next_def\<close>)

text \<open>A sleeping worker wakes up if it can.\<close>

definition advance :: "env \<Rightarrow> config \<Rightarrow> nat \<times> user_action \<Rightarrow> sys \<Rightarrow> sys option" where
  "advance env cfg ia z = (let (i, a) = ia; w = workers z ! i in
     if \<not> i < length (workers z) then None
     else if blocked w then
       if signals (mem z) ! i \<and> peek (chan_tasks (mem z) ! i)
       then Some (z\<lparr>workers := (workers z)[i := w\<lparr>blocked := False\<rparr>]\<rparr>) else None
     else do {
       (fs, w, sh) \<leftarrow> worker_next env cfg a (stacks z ! i, w, mem z);
       Some \<lparr>stacks = (stacks z)[i := fs], workers = (workers z)[i := w], mem = sh\<rparr>
     })"

lemma advance_step:
  assumes "advance env cfg ia z = Some z'"
  shows "sys_step env cfg z z'"
proof -
  obtain i a where ia: "ia = (i, a)" by (cases ia)
  show ?thesis
  proof (cases "blocked (workers z ! i)")
    case True
    then show ?thesis using assms ia by (auto simp: advance_def Let_def split: if_splits intro: Wake)
  next
    case False
    then show ?thesis
      using assms ia
      by (auto simp: advance_def Let_def bind_eq_Some_conv split: if_splits intro!: Run dest!: worker_next_step)
  qed
qed

fun run :: "env \<Rightarrow> config \<Rightarrow> (nat \<times> user_action) list \<Rightarrow> sys \<Rightarrow> sys option" where
  "run env cfg [] z = Some z"
| "run env cfg (ia # is) z = do { z \<leftarrow> advance env cfg ia z; run env cfg is z }"

lemma run_reachable: "run env cfg is z = Some z' \<Longrightarrow> reachable env cfg z \<Longrightarrow> reachable env cfg z'"
proof (induction "is" arbitrary: z)
  case (Cons ia "is")
  obtain z1 where z1: "advance env cfg ia z = Some z1" "run env cfg is z1 = Some z'"
    using Cons.prems(1) by (auto simp: bind_eq_Some_conv)
  have "reachable env cfg z1" by (rule Step [OF Cons.prems(2) advance_step [OF z1(1)]])
  then show ?case by (rule Cons.IH [OF z1(2)])
qed simp

section \<open>Two workers\<close>

definition demo_env :: env where
  "demo_env = \<lparr>env_rand = (\<lambda>s. (uint s div 2, s + 7)), env_junk = blank_task, env_bytes = (\<lambda>_. 0),
     env_exit_fn = 64, env_refusals = []\<rparr>"

definition demo :: "(nat \<times> user_action) list \<Rightarrow> sys option" where
  "demo is = (case tasking_init demo_env default_config (Some 2) 8
       [1000, 2000, 3000, 4000, 5000, 6000, 7000, 8000, 9000, 10000, 11000] of
     Some (Inr z) \<Rightarrow> run demo_env default_config is z | _ \<Rightarrow> None)"

lemma demo_reachable: "demo is = Some z \<Longrightarrow> reachable demo_env default_config z"
  by (auto simp: demo_def split: option.splits sum.splits intro: run_reachable Start)

text \<open>The main program enters a barrier, and both workers run out of work.\<close>

definition to_barrier :: "(nat \<times> user_action) list" where
  "to_barrier = [(1, Return), (1, Return), (0, Enter_Barrier), (0, Return), (0, Return), (1, Return),
     (1, Return), (0, Return)]"

lemma start_run:
  "(case demo [] of None \<Rightarrow> False | Some z \<Rightarrow> num_workers (mem z) = 2 \<and> requested (workers z ! 0) = 0 \<and>
     length (workers z) = 2 \<and> refusals (mem z) = [])"
  by code_simp

lemma to_barrier_run:
  "(case demo to_barrier of None \<Rightarrow> False | Some z \<Rightarrow> num_workers (mem z) = 2 \<and> \<not> quiescent (workers z ! 0) \<and>
     requested (workers z ! 1) = 1 \<and> length (workers z) = 2 \<and>
     (case advance demo_env default_config (0, Return) z of None \<Rightarrow> False
      | Some z' \<Rightarrow> quiescent (workers z' ! 0) \<and> requested (workers z' ! 0) = 0 \<and> num_workers (mem z') = 2))"
  by code_simp

text \<open>The worker thread sends its request to the master and is still awake.\<close>

definition to_request :: "(nat \<times> user_action) list" where
  "to_request = [(1, Return), (1, Return)]"

lemma to_request_run:
  "(case demo to_request of None \<Rightarrow> False | Some z \<Rightarrow> num_workers (mem z) = 2 \<and> length (workers z) = 2 \<and>
     \<not> blocked (workers z ! 0) \<and> \<not> blocked (workers z ! 1) \<and>
     (case RECV_REQ default_config (workers z ! 0, mem z) of
        Some (Some r, w, sh) \<Rightarrow> length (chan_requests sh ! 0) \<noteq> length (chan_requests (mem z) ! 0)
      | _ \<Rightarrow> False) \<and>
     RECV_REQ default_config (workers z ! 1, mem z) \<noteq> None)"
  by code_simp

end
