(* ===== verification/Tracking.thy ===== *)
theory Tracking
  imports Conservation Simulation
begin

text \<open>
  Running the system with the history of its tasks: the schedules of \<^theory_text>\<open>Simulation\<close> for the steps of
  \<^theory_text>\<open>Conservation\<close>. A run in which a task is created, stolen and run, and in which termination is
  detected afterwards, serves as a concrete instance.
\<close>

definition user_own :: "env \<Rightarrow> config \<Rightarrow> user_action \<Rightarrow> tracked \<Rightarrow> (addr list \<times> tracked) option" where
  "user_own env cfg a c = (let (fs, F, s) = c in case a of
     Allocate \<Rightarrow> do {
       (x, s) \<leftarrow> RT_task_alloc (env_junk env) s;
       Some ([], fs, if x = NULL then F else x # F, s)
     }
   | Push x \<Rightarrow> do {
       assertion (x \<in> set F);
       s \<leftarrow> RT_push env cfg x s;
       Some ([x], fs, remove1 x F, s)
     }
   | Poll \<Rightarrow> do { s \<leftarrow> RT_poll env cfg s; Some ([], fs, F, s) }
   | Enter_Barrier \<Rightarrow> do { b \<leftarrow> barrier_enter s; assertion b; Some ([], Barrier Pop # fs, F, s) }
   | Wait_For f n \<Rightarrow> Some ([], Force (get_current_task (fst s)) f n FStart # fs, F, s)
   | Return \<Rightarrow> None)"

lemma user_own_step:
  assumes "user_own env cfg a (u # fs, F, s) = Some (P, c)" "user_frame u"
  shows "own_step env cfg r (u # fs, F, s) P [] c"
proof (cases a)
  case Allocate
  then obtain x s1 where "RT_task_alloc (env_junk env) s = Some (x, s1)" "P = []" "c = (u # fs, if x = NULL then F else x # F, s1)"
    using assms(1) by (auto simp: user_own_def bind_eq_Some_conv)
  then show ?thesis using Own_Alloc [OF assms(2)] by simp
qed (use assms in \<open>auto simp: user_own_def bind_eq_Some_conv
    intro: Own_Push Own_Poll Own_Barrier_Enter Own_Force_Enter\<close>)

definition own_next :: "env \<Rightarrow> config \<Rightarrow> user_action \<Rightarrow> tracked \<Rightarrow> (addr list \<times> addr list \<times> tracked) option" where
  "own_next env cfg a c = (let (fs, F, s) = c in case fs of
     Schedule pc # gs \<Rightarrow> do { (pc, c, s) \<leftarrow> schedule_step env cfg pc s; Some ([], calls c, called c (Schedule pc # gs), F, s) }
   | Barrier pc # gs \<Rightarrow>
       if pc = Leave then do { assertion (quiescent (fst s)); Some ([], [], gs, F, s) }
       else do { (pc, c, s) \<leftarrow> barrier_step env cfg pc s; Some ([], calls c, called c (Barrier pc # gs), F, s) }
   | Code task # gs \<Rightarrow>
       if a = Return then Some ([], [], gs, F, s)
       else do { (P, c) \<leftarrow> user_own env cfg a c; Some (P, [], c) }
   | Main_Program # gs \<Rightarrow> do { (P, c) \<leftarrow> user_own env cfg a c; Some (P, [], c) }
   | _ \<Rightarrow> None)"

lemma own_next_step:
  assumes "own_next env cfg a (fs, F, s) = Some (P, C, c)"
  shows "own_step env cfg r (fs, F, s) P C c"
proof (cases fs)
  case (Cons f gs)
  then show ?thesis using assms
    by (cases f) (auto simp: own_next_def bind_eq_Some_conv split: if_splits
      intro: Own_Schedule Own_Barrier Own_Barrier_Return Own_Code_Return user_own_step)
qed (use assms in \<open>simp add: own_next_def\<close>)

definition track :: "env \<Rightarrow> config \<Rightarrow> nat \<times> user_action \<Rightarrow> hist \<Rightarrow> hist option" where
  "track env cfg ia h = (let (i, a) = ia; z = now h; w = workers z ! i in
     if \<not> i < length (workers z) then None
     else if blocked w then
       if signals (mem z) ! i \<and> peek (chan_tasks (mem z) ! i)
       then Some (h\<lparr>now := z\<lparr>workers := (workers z)[i := w\<lparr>blocked := False\<rparr>]\<rparr>\<rparr>) else None
     else do {
       (P, C, fs, F, w, sh) \<leftarrow> own_next env cfg a (stacks z ! i, unpushed h ! i, w, mem z);
       Some \<lparr>now = \<lparr>stacks = (stacks z)[i := fs], workers = (workers z)[i := w], mem = sh\<rparr>,
         unpushed = (unpushed h)[i := F], spawned = P @ spawned h, executed = C @ executed h\<rparr>
     })"

lemma track_tracked:
  assumes "track env cfg ia h = Some h'"
  shows "tracked_step env cfg r h h'"
proof -
  obtain i a where ia: "ia = (i, a)" by (cases ia)
  show ?thesis
  proof (cases "blocked (workers (now h) ! i)")
    case True
    then show ?thesis using assms ia by (auto simp: track_def Let_def split: if_splits intro: Track_Wake)
  next
    case False
    then obtain P C fs F w sh where "own_next env cfg a (stacks (now h) ! i, unpushed h ! i, workers (now h) ! i, mem (now h)) =
        Some (P, C, fs, F, w, sh)" and i: "i < length (workers (now h))"
      and h': "h' = \<lparr>now = \<lparr>stacks = (stacks (now h))[i := fs], workers = (workers (now h))[i := w], mem = sh\<rparr>,
         unpushed = (unpushed h)[i := F], spawned = P @ spawned h, executed = C @ executed h\<rparr>"
      using assms ia by (auto simp: track_def Let_def bind_eq_Some_conv split: if_splits)
    from own_next_step [OF this(1)] show ?thesis unfolding h' by (rule Track_Run [OF i False])
  qed
qed

fun track_run :: "env \<Rightarrow> config \<Rightarrow> (nat \<times> user_action) list \<Rightarrow> hist \<Rightarrow> hist option" where
  "track_run env cfg [] h = Some h"
| "track_run env cfg (ia # is) h = do { h \<leftarrow> track env cfg ia h; track_run env cfg is h }"

lemma track_run_tracked: "track_run env cfg is h = Some h' \<Longrightarrow> tracked env cfg r h \<Longrightarrow> tracked env cfg r h'"
proof (induction "is" arbitrary: h)
  case (Cons ia "is")
  obtain h1 where h1: "track env cfg ia h = Some h1" "track_run env cfg is h1 = Some h'"
    using Cons.prems(1) by (auto simp: bind_eq_Some_conv)
  show ?case by (rule Cons.IH [OF h1(2) Track_Step [OF Cons.prems(2) track_tracked [OF h1(1)]]])
qed simp

section \<open>Two workers\<close>

definition demo_mallocs :: "addr list" where
  "demo_mallocs = [1000, 2000, 3000, 4000, 5000, 6000, 7000, 8000, 9000, 10000, 11000]"

definition demo_track :: "(nat \<times> user_action) list \<Rightarrow> hist option" where
  "demo_track is = (case tasking_init demo_env default_config (Some 2) 8 demo_mallocs of
     Some (Inr z) \<Rightarrow> track_run demo_env default_config is \<lparr>now = z, unpushed = replicate (length (workers z)) [], spawned = [], executed = []\<rparr>
   | _ \<Rightarrow> None)"

lemma demo_tracked:
  assumes "demo_track is = Some h"
  shows "\<exists>r. tracked demo_env default_config r h"
proof -
  obtain z where z: "tasking_init demo_env default_config (Some 2) 8 demo_mallocs = Some (Inr z)"
    and h: "track_run demo_env default_config is \<lparr>now = z, unpushed = replicate (length (workers z)) [], spawned = [], executed = []\<rparr> = Some h"
    using assms by (auto simp: demo_track_def split: option.splits sum.splits)
  show ?thesis using track_run_tracked [OF h Track_Init [OF z]] by (auto simp: demo_mallocs_def)
qed

text \<open>
  The worker thread asks for work, the main program creates a task and hands it over, and the worker runs it. Then
  the main program enters a barrier, and both workers run out of work.
\<close>

definition to_push :: "(nat \<times> user_action) list" where
  "to_push = [(1, Return), (1, Return), (0, Allocate), (0, Push 10000)]"

definition to_done :: "(nat \<times> user_action) list" where
  "to_done = to_push @ [(1, Return), (1, Return), (1, Return), (1, Return), (1, Return), (1, Return),
     (0, Enter_Barrier), (0, Return), (0, Return), (1, Return), (1, Return), (0, Return)]"

lemma to_push_run:
  "(case demo_track to_push of None \<Rightarrow> False | Some h \<Rightarrow> spawned h = [10000] \<and> executed h = [] \<and> splits (now h) = 0)"
  by code_simp

lemma to_done_run:
  "(case demo_track to_done of None \<Rightarrow> False | Some h \<Rightarrow> num_workers (mem (now h)) = 2 \<and> \<not> quiescent (workers (now h) ! 0) \<and>
     (case track demo_env default_config (0, Return) h of None \<Rightarrow> False
      | Some h' \<Rightarrow> quiescent (workers (now h') ! 0) \<and> spawned h' = [10000] \<and> executed h' = [10000] \<and> splits (now h') = 0))"
  by code_simp

end
