(* ===== verification/Counters.thy ===== *)
theory Counters
  imports Startup
begin

text \<open>
  The private variables of a worker that few operations change: its identity, whether it has finished, the counters of the requests it has sent, and the account of
  its task channels and requests under way. The locale \<open>private_relation\<close> states what a relation between the private states of a worker has to satisfy
  for the operations that change one of these, and carries it through all others to every step of the system.
\<close>

section \<open>Operations that leave them alone\<close>

definition private_key ::
  "worker \<Rightarrow> (int \<times> bool \<times> uint \<times> uint \<times> uint) \<times> chan_ref bounded_stack \<times> int \<times> int \<times> bool"
where
  "private_key w = ((ID w, tasking_finished w, requests_sent w, requests_steal_one w, requests_steal_half w),
     channel_stack w, requested w, dropped_steal_requests w, blocked w)"

lemma private_key_updates [simp]:
  "private_key (w\<lparr>deque := dq\<rparr>) = private_key w" "private_key (w\<lparr>work_sharing_requests := q\<rparr>) = private_key w"
  "private_key (w\<lparr>tree := t\<rparr>) = private_key w" "private_key (w\<lparr>last_victim := i\<rparr>) = private_key w"
  "private_key (w\<lparr>last_thief := i\<rparr>) = private_key w" "private_key (w\<lparr>victim_sel := vs\<rparr>) = private_key w"
  "private_key (w\<lparr>quiescent := b\<rparr>) = private_key w" "private_key (w\<lparr>num_recent_steals := i\<rparr>) = private_key w"
  "private_key (w\<lparr>stealhalf := b\<rparr>) = private_key w" "private_key (w\<lparr>checkpoint := i\<rparr>) = private_key w"
  "private_key (w\<lparr>num_tasks_exec := i\<rparr>) = private_key w" "private_key (w\<lparr>current_task := a\<rparr>) = private_key w"
  "private_key (w\<lparr>requests_handled := u\<rparr>) = private_key w" "private_key (w\<lparr>requests_declined := u\<rparr>) = private_key w"
  "private_key (w\<lparr>tasks_sent := u\<rparr>) = private_key w" "private_key (w\<lparr>tasks_split := u\<rparr>) = private_key w"
  "private_key (w\<lparr>futures_converted := u\<rparr>) = private_key w"
  by (simp_all add: private_key_def)

lemma same_control_key: "same_control w w' \<Longrightarrow> private_key w' = private_key w"
  by (simp add: same_control_def same_protocol_def private_key_def)

lemma SEND_REQ_WORKER_private: "SEND_REQ_WORKER cfg i r (w, sh) = Some (w', sh') \<Longrightarrow> w' = w"
  by (auto simp: SEND_REQ_WORKER_def Let_def bind_eq_Some_conv split: option.splits prod.splits if_splits)

lemma next_victim_key: "next_victim rand cfg N r w = Some (v, r', w') \<Longrightarrow> private_key w' = private_key w"
  using next_victim_fields [of rand cfg N r w v r' w'] private_key_updates(6) [of "victim_sel w'" w] by simp

lemma hold_failed_key: "hold_failed r w = Some w' \<Longrightarrow> private_key w' = private_key w"
  by (auto simp: hold_failed_def ENQUEUE_WORK_SHARING_REQUEST_def bind_eq_Some_conv split: if_splits)

lemma recv_own_key: "recv_own q w = Some (r, q', w') \<Longrightarrow> private_key w' = private_key w"
  by (induction q arbitrary: w) (auto simp: bind_eq_Some_conv dest!: hold_failed_key split: if_splits)

lemma RECV_REQ_key:
  assumes "RECV_REQ cfg (w, sh) = Some (r, w', sh')"
  shows "private_key w' = private_key w"
proof -
  obtain q r1 q1 where "recv_own q w = Some (r1, q1, w')"
    using assms unfolding RECV_REQ_def Let_def by (auto simp: bind_eq_Some_conv split: if_splits)
  then show ?thesis by (rule recv_own_key)
qed

lemma convert_futures_key: "convert_futures env t s = Some s' \<Longrightarrow> private_key (fst s') = private_key (fst s)"
  using convert_futures_fields same_control_key by blast

lemma split_loop_key:
  assumes sp: "split_loop env cfg task r (w, sh) = Some (w', sh')"
  shows "private_key w' = private_key w"
proof -
  obtain dup w1 sh1 where al: "RT_task_alloc (env_junk env) (w, sh) = Some (dup, w1, sh1)" and ne: "req_ID r \<noteq> ID w"
    using sp by (auto simp: split_loop_def split: Option.bind_splits)
  obtain t h1 split h2 h3 where h3: "deref (task_mem sh1) task = Some t"
      "assign (task_mem sh1) dup (\<lambda>_. t) = Some h1" "SPLIT_FUNC cfg (w1, sh1) t = Some split"
      "assign h1 dup (\<lambda>d. d\<lparr>t_start := split, t_cur := split, t_end := t_end t\<rparr>) = Some h2"
      "(if VICTIM cfg = Last_Victim then assign h2 dup (\<lambda>d. d\<lparr>t_victim := ID w1\<rparr>) else Some h2) = Some h3"
    using sp al ne by (auto simp: split_loop_def Let_def bind_eq_Some_conv)
  let ?sh = "sh1\<lparr>task_mem := h3\<rparr>"
  obtain w2 sh2 where pf: "(if t_has_future t then patch_future env dup (w1, ?sh) else Some (w1, ?sh)) = Some (w2, sh2)"
    using sp al ne h3 by (auto simp: split_loop_def Let_def bind_eq_Some_conv)
  have w': "private_key w' = private_key w2"
    using sp al ne h3 pf by (auto simp: split_loop_def Let_def bind_eq_Some_conv)
  have "private_key w1 = private_key w" using RT_task_alloc_fields [OF al] by auto
  moreover have "private_key w2 = private_key w1"
    using pf patch_future_fields [of env dup w1 ?sh w2 sh2] same_control_key by (auto split: if_splits)
  ultimately show ?thesis using w' by simp
qed

lemma reactivate_key: "reactivate cfg r (w, sh) = Some (w', sh') \<Longrightarrow> private_key w' = private_key w"
  using reactivate_fields [of cfg r w sh w' sh'] by auto

lemma RT_task_alloc_key: "RT_task_alloc junk s = Some (t, s') \<Longrightarrow> private_key (fst s') = private_key (fst s)"
  using RT_task_alloc_fields [of junk "fst s" "snd s" t "fst s'" "snd s'"] by auto

lemma finish_task_key: "finish_task task this s = Some s' \<Longrightarrow> private_key (fst s') = private_key (fst s)"
  using finish_task_fields [of task this "fst s" "snd s" "fst s'" "snd s'"] same_control_key by simp

section \<open>All steps\<close>

text \<open>
  The operations that change one of the variables: a request of one's own is forgotten or, with several requests, its channel
  put aside; a worker goes to sleep, with condition variables, or wakes up; a task is received; a request is sent. A transitive relation between private states that
  these keep holds between the states of a worker before and after any step.
\<close>

locale private_relation =
  fixes cfg :: config and R :: "worker \<Rightarrow> worker \<Rightarrow> bool"
  assumes keep: "private_key w' = private_key w \<Longrightarrow> R w w'"
    and trans: "R w w' \<Longrightarrow> R w' w'' \<Longrightarrow> R w w''"
    and forget: "FORGET_REQ r w = Some w' \<Longrightarrow> R w w'"
    and put_aside: "1 < MAXSTEAL cfg \<Longrightarrow> CHANNEL_PUSH c w = Some w' \<Longrightarrow>
      R w (w'\<lparr>dropped_steal_requests := dropped_steal_requests w' + 1\<rparr>)"
    and sleep: "(b \<Longrightarrow> BACKOFF cfg = Wait_Cond \<and> ID w \<noteq> MASTER_ID) \<Longrightarrow> R w (w\<lparr>blocked := b\<rparr>)"
    and receive: "RECV_TASK rand cfg idle (w, sh) = Some (Some task, w', sh') \<Longrightarrow> R w w'"
    and send: "try_send_steal_request rand cfg idle (w, sh) = Some (w', sh') \<Longrightarrow> R w w'"
begin

lemma keeps: "R w w1 \<Longrightarrow> private_key w' = private_key w1 \<Longrightarrow> R w w'" "private_key w1 = private_key w \<Longrightarrow> R w1 w' \<Longrightarrow> R w w'"
  using keep trans by blast+

lemma become_quiescent:
  assumes "become_quiescent cfg r (w, sh) = Some (w', sh')"
  shows "R w w'"
proof (cases "ID w = MASTER_ID")
  case True
  then have "FORGET_REQ r (w\<lparr>quiescent := True\<rparr>) = Some w'" using assms
    by (auto simp: become_quiescent_def detect_termination_def split: Option.bind_splits)
  from forget [OF this] show ?thesis by (rule keeps(2) [rotated]) simp
next
  case False
  then obtain w1 sh1 where sd: "SEND_REQ_WORKER cfg (tree_parent (tree w)) (r\<lparr>req_state := STATE_FAILED\<rparr>) (w, sh) = Some (w1, sh1)"
    using assms by (auto simp: become_quiescent_def Let_def split: Option.bind_splits)
  let ?w = "w\<lparr>tree := (tree w)\<lparr>waiting_for_tasks := True\<rparr>\<rparr>"
  have "w1 = w" by (rule SEND_REQ_WORKER_private [OF sd])
  then have "w' = ?w \<or> BACKOFF cfg = Wait_Cond \<and> (\<exists>b. w' = ?w\<lparr>blocked := b\<rparr>)" using assms False sd
    by (auto simp: become_quiescent_def Let_def split: Option.bind_splits if_splits)
  then show ?thesis using sleep [of _ ?w] keeps(2) [of ?w w w'] keep [of w' w] False by auto
qed

lemma decline:
  assumes d: "decline_steal_request rand cfg r (w, sh) = Some (w', sh')"
  shows "R w w'"
proof -
  let ?r = "r\<lparr>req_try := req_try r + 1\<rparr>" and ?w = "w\<lparr>requests_declined := requests_declined w + 1\<rparr>"
  consider (rest) "become_quiescent cfg ?r (?w, sh) = Some (w', sh')"
    | (drop) w1 where "1 < MAXSTEAL cfg" "CHANNEL_PUSH (req_chan r) ?w = Some w1" "w' = w1\<lparr>dropped_steal_requests := dropped_steal_requests w1 + 1\<rparr>"
    | (again) N r1 v r2 w1 where "next_victim rand cfg N r1 ?w = Some (v, r2, w1)"
        "SEND_REQ_WORKER cfg v r2 (w1, sh) = Some (w', sh') \<or> FORGET_REQ r2 w1 = Some w'"
    using d unfolding decline_steal_request_def Let_def
    by (fastforce simp: bind_eq_Some_conv split: if_splits)
  then have "R ?w w'"
  proof cases
    case rest
    then show ?thesis by (rule become_quiescent)
  next
    case drop
    then show ?thesis using put_aside by simp
  next
    case again
    then have "R w1 w'" using forget SEND_REQ_WORKER_private [of cfg v r2 w1 sh w' sh'] keep by auto
    then show ?thesis by (rule keeps(2) [OF next_victim_key [OF again(1)]])
  qed
  then show ?thesis by (rule keeps(2) [rotated]) simp
qed

lemma decline_all:
  assumes "decline_all_steal_requests rand cfg s = Some s'"
  shows "R (fst s) (fst s')"
proof -
  obtain w sh where s: "s = (w, sh)" by (cases s)
  obtain r w1 sh1 where r: "RECV_REQ cfg (w, sh) = Some (r, w1, sh1)"
    and d: "s' = (w1, sh1) \<or> (\<exists>q. decline_steal_request rand cfg q (w1, sh1) = Some s')"
    using assms unfolding s decline_all_steal_requests_def Let_def
    by (force simp: bind_eq_Some_conv split: option.splits)
  have "R w1 (fst s')" using d decline [of rand _ w1 sh1 "fst s'" "snd s'"] keep by auto
  then show ?thesis using keeps(2) [OF RECV_REQ_key [OF r]] s by simp
qed

lemma handle_steal_request:
  assumes h: "handle_steal_request env cfg r (w, sh) = Some (w', sh')"
  shows "R w w'"
proof (cases "req_ID r = ID w")
  case True
  then have "FORGET_REQ r w = Some w' \<or> decline_steal_request (env_rand env) cfg r (w, sh) = Some (w', sh')"
    using h unfolding handle_steal_request_def Let_def by (auto split: Option.bind_splits if_splits)
  then show ?thesis using forget decline by blast
next
  case False
  then obtain task loot w1 sh1 where st: "steal_tasks cfg r (w, sh) = Some (task, loot, w1, sh1)"
    using h by (auto simp: handle_steal_request_def split: Option.bind_splits)
  have w1: "private_key w1 = private_key w" using steal_tasks_fields [OF st] by auto
  show ?thesis
  proof (cases "task = NULL")
    case True
    then have "decline_steal_request (env_rand env) cfg r (w1, sh1) = Some (w', sh')"
      using h False st by (auto simp: handle_steal_request_def split: Option.bind_splits)
    from decline [OF this] show ?thesis by (rule keeps(2) [OF w1])
  next
    case task: False
    then obtain sh2 w2 sh3 where c: "convert_futures env task (w1, sh2) = Some (w2, sh3)" and w': "private_key w' = private_key w2"
      using h False st by (fastforce simp: handle_steal_request_def Let_def split: Option.bind_splits if_splits)
    then show ?thesis using convert_futures_key [OF c] w1 by (simp add: keep)
  qed
qed

lemma handle:
  assumes h: "handle env cfg r (w, sh) = Some (b, w', sh')"
  shows "R w w'"
proof -
  have "handle_steal_request env cfg r (w, sh) = Some (w', sh') \<or> split_loop env cfg (get_current_task w) r (w, sh) = Some (w', sh') \<or>
    FORGET_REQ r w = Some w' \<or> w' = w \<or> decline_steal_request (env_rand env) cfg r (w, sh) = Some (w', sh')"
    using h unfolding handle_def Let_def by (auto split: Option.bind_splits if_splits)
  then show ?thesis
    by (elim disjE) (auto intro: handle_steal_request keep split_loop_key forget decline)
qed

lemma share_work:
  assumes "share_work env cfg s = Some s'"
  shows "R (fst s) (fst s')"
proof -
  have "c = cfg \<longrightarrow> R (fst s) (fst s')" if "share_work env c s = Some s'" for c
  proof (rule share_work.raw_induct [OF _ that])
    fix sw :: "env \<Rightarrow> config \<Rightarrow> wst \<Rightarrow> wst option" and env c s s'
    assume IH: "\<And>env c s s'. sw env c s = Some s' \<Longrightarrow> c = cfg \<longrightarrow> R (fst s) (fst s')"
      and step: "(if \<not> bounded_queue_empty (work_sharing_requests (fst s)) then do {
          req \<leftarrow> NEXT_WORK_SHARING_REQUEST (fst s);
          assertion (req_ID req = tree_left_child (tree (fst s)) \<or> req_ID req = tree_right_child (tree (fst s)));
          (work, s) \<leftarrow> handle env c req s;
          if work then do { s \<leftarrow> reactivate c req s; sw env c s } else Some s
        } else Some s) = Some s'"
    obtain w sh where s: "s = (w, sh)" by (cases s)
    show "c = cfg \<longrightarrow> R (fst s) (fst s')"
    proof (cases "s' = s")
      case False
      then obtain r b w1 sh1 where h: "handle env c r (w, sh) = Some (b, w1, sh1)"
        and rest: "s' = (w1, sh1) \<or> (\<exists>w2 sh2. reactivate c r (w1, sh1) = Some (w2, sh2) \<and> sw env c (w2, sh2) = Some s')"
        using step s by (auto simp: bind_eq_Some_conv split: if_splits)
      from rest have "c = cfg \<longrightarrow> R w1 (fst s')"
      proof
        assume "\<exists>w2 sh2. reactivate c r (w1, sh1) = Some (w2, sh2) \<and> sw env c (w2, sh2) = Some s'"
        then obtain w2 sh2 where a: "reactivate c r (w1, sh1) = Some (w2, sh2)" "sw env c (w2, sh2) = Some s'" by blast
        show ?thesis using keeps(2) [OF reactivate_key [OF a(1)]] IH [OF a(2)] by simp
      qed (simp add: keep)
      then show ?thesis using handle [of env r w sh b w1 sh1] h s trans by auto
    qed (simp add: keep)
  qed
  then show ?thesis using assms by blast
qed

text \<open>The loops that receive requests and do something with each of them.\<close>

lemma receive_loop:
  assumes "RECV_REQ cfg s \<bind> (\<lambda>(r, s). case r of None \<Rightarrow> Some s | Some req \<Rightarrow> f req s \<bind> lp) = Some s'"
    and "\<And>r w sh s2. f r (w, sh) = Some s2 \<Longrightarrow> R w (fst s2)"
    and "\<And>s2. lp s2 = Some s' \<Longrightarrow> R (fst s2) (fst s')"
  shows "R (fst s) (fst s')"
proof -
  obtain w sh where s: "s = (w, sh)" by (cases s)
  obtain r w1 sh1 where r: "RECV_REQ cfg (w, sh) = Some (r, w1, sh1)"
    and d: "s' = (w1, sh1) \<or> (\<exists>q s2. f q (w1, sh1) = Some s2 \<and> lp s2 = Some s')"
    using assms(1) s by (force simp: bind_eq_Some_conv split: option.splits)
  have "R w1 (fst s')" using d assms(2,3) keep trans by fastforce
  then show ?thesis using keeps(2) [OF RECV_REQ_key [OF r]] s by simp
qed

lemma handle_loop:
  assumes "handle_loop env cfg s = Some s'"
  shows "R (fst s) (fst s')"
proof -
  have "c = cfg \<longrightarrow> R (fst s) (fst s')" if "handle_loop env c s = Some s'" for c
  proof (rule handle_loop.raw_induct [OF _ that], rule impI)
    fix lp :: "env \<Rightarrow> config \<Rightarrow> wst \<Rightarrow> wst option" and env c s s'
    assume IH: "\<And>env c s s'. lp env c s = Some s' \<Longrightarrow> c = cfg \<longrightarrow> R (fst s) (fst s')" and c: "c = cfg"
      and step: "RECV_REQ c s \<bind> (\<lambda>(r, s). case r of None \<Rightarrow> Some s
        | Some req \<Rightarrow> handle_steal_request env c req s \<bind> lp env c) = Some s'"
    show "R (fst s) (fst s')"
    proof (rule receive_loop [OF step [unfolded c]])
      show "R w (fst s2)" if "handle_steal_request env cfg r (w, sh) = Some s2" for r w sh s2
        using handle_steal_request [of env r w sh "fst s2" "snd s2"] that by simp
    qed (use IH in blast)
  qed
  then show ?thesis using assms by blast
qed

lemma poll_loop:
  assumes "poll_loop env cfg s = Some s'"
  shows "R (fst s) (fst s')"
proof -
  have "c = cfg \<longrightarrow> R (fst s) (fst s')" if "poll_loop env c s = Some s'" for c
  proof (rule poll_loop.raw_induct [OF _ that], rule impI)
    fix lp :: "env \<Rightarrow> config \<Rightarrow> wst \<Rightarrow> wst option" and env c s s'
    assume IH: "\<And>env c s s'. lp env c s = Some s' \<Longrightarrow> c = cfg \<longrightarrow> R (fst s) (fst s')" and c: "c = cfg"
      and step: "RECV_REQ c s \<bind> (\<lambda>(r, s). case r of None \<Rightarrow> Some s
        | Some req \<Rightarrow> handle env c req s \<bind> (\<lambda>(_, s). lp env c s)) = Some s'"
    show "R (fst s) (fst s')"
    proof (rule receive_loop [OF step [unfolded bind_snd c]])
      show "R w (fst s2)" if "map_option snd (handle env cfg r (w, sh)) = Some s2" for r w sh s2
        using handle [of env r w sh _ "fst s2" "snd s2"] that by auto
    qed (use IH in blast)
  qed
  then show ?thesis using assms by blast
qed

lemma pop_loop:
  assumes "pop_loop env cfg task s = Some s'"
  shows "R (fst s) (fst s')"
proof -
  have "c = cfg \<longrightarrow> R (fst s) (fst s')" if "pop_loop env c task s = Some s'" for c
  proof (rule pop_loop.raw_induct [OF _ that], rule impI)
    fix lp :: "env \<Rightarrow> config \<Rightarrow> addr \<Rightarrow> wst \<Rightarrow> wst option" and env c task s s'
    assume IH: "\<And>env c task s s'. lp env c task s = Some s' \<Longrightarrow> c = cfg \<longrightarrow> R (fst s) (fst s')" and c: "c = cfg"
      and step: "RECV_REQ c s \<bind> (\<lambda>(r, s). case r of None \<Rightarrow> Some s
       | Some req \<Rightarrow> do {
           let (w, sh) = s;
           splittable \<leftarrow> SPLITTABLE (task_mem sh) task;
           s \<leftarrow>
             (if deque_empty (deque w) \<and> splittable then
                if req_ID req \<noteq> ID w then split_loop env c task req (w, sh)
                else do { w \<leftarrow> FORGET_REQ req w; Some (w, sh) }
              else handle_steal_request env c req (w, sh));
           lp env c task s
         }) = Some s'"
    obtain w sh where s: "s = (w, sh)" by (cases s)
    obtain r w1 sh1 where r: "RECV_REQ cfg (w, sh) = Some (r, w1, sh1)"
      and d: "s' = (w1, sh1) \<or> (\<exists>q w2 sh2. lp env cfg task (w2, sh2) = Some s' \<and>
        (split_loop env cfg task q (w1, sh1) = Some (w2, sh2) \<or> FORGET_REQ q w1 = Some w2 \<or>
         handle_steal_request env cfg q (w1, sh1) = Some (w2, sh2)))"
      using step s c by (fastforce simp: bind_eq_Some_conv split: option.splits if_splits)
    from d have "R w1 (fst s')"
    proof
      assume "\<exists>q w2 sh2. lp env cfg task (w2, sh2) = Some s' \<and> (split_loop env cfg task q (w1, sh1) = Some (w2, sh2) \<or>
        FORGET_REQ q w1 = Some w2 \<or> handle_steal_request env cfg q (w1, sh1) = Some (w2, sh2))"
      then obtain q w2 sh2 where lp: "lp env cfg task (w2, sh2) = Some s'"
        and q: "split_loop env cfg task q (w1, sh1) = Some (w2, sh2) \<or> FORGET_REQ q w1 = Some w2 \<or>
          handle_steal_request env cfg q (w1, sh1) = Some (w2, sh2)" by blast
      have "R w1 w2" using q by (elim disjE) (auto intro: handle_steal_request keep split_loop_key forget)
      then show ?thesis using IH [OF lp] trans by simp
    qed (simp add: keep)
    then show "R (fst s) (fst s')" using keeps(2) [OF RECV_REQ_key [OF r]] s by simp
  qed
  then show ?thesis using assms by blast
qed

lemma RT_poll: "RT_poll env cfg s = Some s' \<Longrightarrow> R (fst s) (fst s')"
  by (auto simp: RT_poll_def bind_eq_Some_conv dest!: share_work poll_loop intro: trans split: if_splits)

lemma RT_push:
  assumes "RT_push env cfg task s = Some s'"
  shows "R (fst s) (fst s')"
proof -
  obtain w sh dq h where s: "s = (w, sh)" and p: "deque_push (task_mem sh) (deque w) task = Some (dq, h)"
    using assms by (cases s) (auto simp: RT_push_def Let_def bind_eq_Some_conv)
  let ?w = "if quiescent w then w\<lparr>deque := dq, quiescent := False\<rparr> else w\<lparr>deque := dq\<rparr>" and ?sh = "sh\<lparr>task_mem := h\<rparr>"
  obtain s2 where l: "share_work env cfg (?w, ?sh) = Some s2" "handle_loop env cfg s2 = Some s'"
    using assms p s by (cases "quiescent w") (auto simp: RT_push_def Let_def bind_eq_Some_conv)
  have "R ?w (fst s')" using trans share_work [OF l(1)] handle_loop [OF l(2)] by simp
  then show ?thesis by (rule keeps(2) [rotated]) (simp add: s)
qed

lemma accept_tasks:
  assumes "accept_tasks env cfg task s = Some (task', s')"
  shows "R (fst s) (fst s')"
proof -
  obtain w sh where s: "s = (w, sh)" by (cases s)
  let ?note = "\<lambda>w. if STEAL cfg = Steal_Adaptive then w\<lparr>num_recent_steals := num_recent_steals w + 1\<rparr> else w"
  obtain t w1 where t: "deref (task_mem sh) task = Some t"
    and a: "(if VICTIM cfg = Last_Victim \<and> t_victim t \<noteq> - 1 then do {
         assertion (t_victim t \<noteq> ID w);
         Some (w\<lparr>last_victim := t_victim t\<rparr>)
       } else Some w) = Some w1"
    and r: "do {
      (task, w, sh) \<leftarrow> (if t_next t \<noteq> NULL then do {
          (dq, h) \<leftarrow> deque_prepend_list (task_mem sh) (deque w1) task;
          (task, dq, h) \<leftarrow> deque_pop h dq;
          Some (task, w1\<lparr>deque := dq\<rparr>, sh\<lparr>task_mem := h\<rparr>)
        } else Some (task, w1, sh));
      s \<leftarrow> share_work env cfg (?note w, sh);
      Some (task, s)
    } = Some (task', s')"
    using assms unfolding s accept_tasks_def Let_def by (auto simp: bind_eq_Some_conv [of "deref _ _"] bind_eq_Some_conv [of "If _ _ _"])
  obtain w2 sh2 where w2: "private_key w2 = private_key w1" and l: "share_work env cfg (?note w2, sh2) = Some s'"
  proof (cases "t_next t = NULL")
    case True
    then show thesis using r that [of w1 sh] by (auto simp: bind_eq_Some_conv)
  next
    case False
    then obtain dq h where "share_work env cfg (?note (w1\<lparr>deque := dq\<rparr>), sh\<lparr>task_mem := h\<rparr>) = Some s'"
      using r by (auto simp: bind_eq_Some_conv)
    then show thesis by (intro that [of "w1\<lparr>deque := dq\<rparr>"]) simp_all
  qed
  have "private_key w1 = private_key w" using a by (auto simp: bind_eq_Some_conv split: if_splits)
  then have k: "private_key (?note w2) = private_key w" using w2 by simp
  have "R (?note w2) (fst s')" using share_work [OF l] by simp
  from keeps(2) [OF k this] show ?thesis using s by simp
qed

lemma try_send: "try_send_steal_request rand cfg idle s = Some s' \<Longrightarrow> R (fst s) (fst s')"
  using send [of rand idle "fst s" "snd s" "fst s'" "snd s'"] by simp

text \<open>If there is no task to be received a request may be sent.\<close>

lemma recv_task_loop_none: "recv_task_loop i n s = Some (None, s') \<Longrightarrow> s' = s"
proof (induction i n s rule: recv_task_loop.induct)
  case (1 i n s)
  obtain w sh where s: "s = (w, sh)" by (cases s)
  show ?case
  proof (cases "i < n")
    case True
    then obtain chans q where c: "read_at (chan_tasks sh) (nat (ID w)) = Some chans" "read_at chans i = Some q" "list_get q = None"
      "recv_task_loop (i + 1) n (w, sh) = Some (None, s')"
      using "1.prems" s recv_task_loop.simps [of i n s] by (auto split: Option.bind_splits option.splits)
    from "1.IH" [OF s [symmetric] refl True c(1-3) c(4)] show ?thesis using s by simp
  qed (use "1.prems" s recv_task_loop.simps [of i n s] in simp)
qed

lemma RECV_TASK:
  assumes "RECV_TASK rand cfg idle s = Some (r, s')"
  shows "R (fst s) (fst s')"
proof (cases r)
  case None
  then have "try_send_steal_request rand cfg idle s = Some s'"
    using assms recv_task_loop_none [of 0 "nat (MAXSTEAL cfg)" s]
    unfolding RECV_TASK_def by (auto simp: bind_eq_Some_conv Let_def split: option.splits if_splits)
  then show ?thesis by (rule try_send)
next
  case (Some task)
  then show ?thesis using receive [of rand idle "fst s" "snd s" task "fst s'" "snd s'"] assms by simp
qed

lemma RT_pop:
  assumes "RT_pop env cfg children s = Some (task, s')"
  shows "R (fst s) (fst s')"
proof -
  obtain w sh where s: "s = (w, sh)" by (cases s)
  let ?pop = "if children then deque_pop_child (task_mem sh) (deque w) (get_current_task w) else deque_pop (task_mem sh) (deque w)"
  obtain dq h where p: "?pop = Some (task, dq, h)"
    using assms unfolding s RT_pop_def Let_def by (auto simp: bind_eq_Some_conv)
  let ?w = "w\<lparr>deque := dq\<rparr>" and ?sh = "sh\<lparr>task_mem := h\<rparr>"
  let ?steal = "case STEAL_EARLY_THRESHOLD cfg of None \<Rightarrow> Some (?w, ?sh) | Some early \<Rightarrow>
      if task \<noteq> NULL then do {
        t \<leftarrow> deref (task_mem ?sh) task;
        if \<not> t_splittable t then try_steal env cfg early (?w, ?sh) else Some (?w, ?sh)
      } else Some (?w, ?sh)"
  obtain s2 s3 where d: "?steal = Some s2" and sw: "share_work env cfg s2 = Some s3" "pop_loop env cfg task s3 = Some s'"
    using assms p unfolding s RT_pop_def Let_def by (auto simp: bind_eq_Some_conv)
  have "s2 = (?w, ?sh) \<or> try_send_steal_request (env_rand env) cfg False (?w, ?sh) = Some s2"
    using d by (auto simp: try_steal_def bind_eq_Some_conv split: option.splits if_splits)
  then have "R ?w (fst s2)" using try_send [of "env_rand env" False "(?w, ?sh)" s2] by (auto simp: keep)
  moreover have "R (fst s) ?w" using s by (simp add: keep)
  ultimately show ?thesis using share_work [OF sw(1)] pop_loop [OF sw(2)] trans by blast
qed

lemma call_task:
  assumes "call_task task pc s = Some (pc', c, s')"
  shows "R (fst s) (fst s')"
  using assms by (auto simp: call_task_def run_task_enter_def set_current_task_def intro: keep)

lemma accepted:
  assumes "accept_tasks env cfg task s = Some (t, s1)" "call_task t pc s1 = Some (pc', c, s')"
  shows "R (fst s) (fst s')"
  using accept_tasks [OF assms(1)] call_task [OF assms(2)] trans by blast

lemma popped:
  assumes "RT_pop env cfg b s = Some (task, s1)" "call_task task pc s1 = Some (pc', c, s') \<or> s' = s1"
  shows "R (fst s) (fst s')"
  using assms(2) RT_pop [OF assms(1)] call_task [of task pc s1 pc' c s'] trans by blast

lemma go: "go pc s = Some (pc', c, s') \<Longrightarrow> R (fst s) (fst s')"
  by (simp add: go_def keep)

lemma schedule_step:
  assumes "schedule_step env cfg pc s = Some (pc', c, s')"
  shows "R (fst s) (fst s')"
proof (cases pc)
  case Pop
  then obtain task s1 where p: "RT_pop env cfg False s = Some (task, s1)"
    and d: "call_task task (\<lambda>this. Resume task this False) s1 = Some (pc', c, s') \<or> s' = s1"
    using assms by (auto simp: bind_eq_Some_conv go_def split: if_splits)
  show ?thesis by (rule popped [OF p d])
next
  case Send_Request
  then show ?thesis using assms by (auto simp: bind_eq_Some_conv go_def dest!: try_send)
next
  case Receive
  then show ?thesis using assms by (auto simp: bind_eq_Some_conv go_def dest!: RECV_TASK split: option.splits)
next
  case Decline
  then show ?thesis using assms
    by (auto simp: bind_eq_Some_conv go_def dest!: decline_all intro: keep split: if_splits)
next
  case (Accept task)
  then obtain t s1 pc1 where a: "accept_tasks env cfg task s = Some (t, s1)" "call_task t pc1 s1 = Some (pc', c, s')"
    using assms by (auto simp: bind_eq_Some_conv)
  show ?thesis by (rule accepted [OF a])
next
  case (Resume task this stolen)
  then show ?thesis using assms by (auto simp: bind_eq_Some_conv go_def dest!: finish_task_key intro: keep)
qed (use assms in simp)

lemma barrier_step:
  assumes "barrier_step env cfg pc s = Some (pc', c, s')"
  shows "R (fst s) (fst s')"
proof (cases pc)
  case Pop
  then obtain task w1 sh1 where p: "RT_pop env cfg False s = Some (task, w1, sh1)"
    and d: "call_task task (\<lambda>this. Resume task this False) (w1, sh1) = Some (pc', c, s') \<or> private_key (fst s') = private_key w1"
    using assms by (auto simp: bind_eq_Some_conv go_def split: if_splits)
  from d have "R w1 (fst s')"
  proof
    assume "call_task task (\<lambda>this. Resume task this False) (w1, sh1) = Some (pc', c, s')"
    from call_task [OF this] show ?thesis by simp
  qed (rule keep)
  then show ?thesis using RT_pop [OF p] trans by auto
next
  case Send_Request
  then show ?thesis using assms by (auto simp: bind_eq_Some_conv go_def dest!: try_send)
next
  case Receive
  then show ?thesis using assms by (auto simp: bind_eq_Some_conv go_def dest!: RECV_TASK split: option.splits)
next
  case Decline
  then show ?thesis using assms by (auto simp: bind_eq_Some_conv go_def dest!: decline_all intro: keep)
next
  case (Accept task)
  then obtain t s1 pc1 where a: "accept_tasks env cfg task s = Some (t, s1)" "call_task t pc1 s1 = Some (pc', c, s')"
    using assms by (auto simp: bind_eq_Some_conv)
  show ?thesis by (rule accepted [OF a])
next
  case (Resume task this stolen)
  then show ?thesis using assms by (auto simp: bind_eq_Some_conv go_def dest!: finish_task_key intro: keep)
qed (use assms in simp)

lemma if_ready:
  assumes "if_ready f n cont s = Some (pc', c, s')" "\<And>s1 x. cont s1 = Some (pc', c, s') \<Longrightarrow> R (fst s1) (fst s')"
  shows "R (fst s) (fst s')"
  using assms(1) assms(2) [of "(fst s, _)"] by (auto simp: if_ready_def Let_def bind_eq_Some_conv go_def keep split: if_splits)

lemma force_step:
  assumes "force_step env cfg this f n pc s = Some (pc', c, s')"
  shows "R (fst s) (fst s')"
proof (cases pc)
  case FStart
  then show ?thesis using assms by (auto intro: if_ready go)
next
  case FPop
  then obtain task s1 where p: "RT_pop env cfg True s = Some (task, s1)"
    and d: "call_task task (FChild task) s1 = Some (pc', c, s') \<or> s' = s1"
    using assms by (auto simp: bind_eq_Some_conv go_def split: if_splits)
  show ?thesis by (rule popped [OF p d])
next
  case (FChild task prev)
  then obtain s1 where l: "finish_task task prev s = Some s1" and r: "if_ready f n (go FPop) s1 = Some (pc', c, s')"
    using assms by (auto simp: bind_eq_Some_conv)
  have "R (fst s1) (fst s')" by (rule if_ready [OF r]) (rule go)
  then show ?thesis using finish_task_key [OF l] keep trans by blast
next
  case FWhile
  let ?f = "\<lambda>s. do { s \<leftarrow> try_send_steal_request (env_rand env) cfg False s; go FReceive s }"
  have r: "if_ready f n ?f s = Some (pc', c, s')" using assms FWhile by simp
  show ?thesis by (rule if_ready [OF r]) (auto simp: bind_eq_Some_conv go_def dest!: try_send)
next
  case FReceive
  then obtain r s1 where l: "RECV_TASK (env_rand env) cfg False s = Some (r, s1)"
    and d: "s' = s1 \<or> try_send_steal_request (env_rand env) cfg False s1 = Some s'"
    using assms by (auto simp: bind_eq_Some_conv go_def split: option.splits)
  have "R (fst s1) (fst s')" using d try_send [of _ False s1 s'] keep by auto
  then show ?thesis using RECV_TASK [OF l] trans by blast
next
  case FHandle
  then obtain s1 where l: "handle_loop env cfg s = Some s1" and r: "if_ready f n (go FReceive) s1 = Some (pc', c, s')"
    using assms by (auto simp: bind_eq_Some_conv)
  have "R (fst s1) (fst s')" by (rule if_ready [OF r]) (rule go)
  then show ?thesis using handle_loop [OF l] trans by blast
next
  case (FAccept task)
  then obtain t s1 pc1 where a: "accept_tasks env cfg task s = Some (t, s1)" "call_task t pc1 s1 = Some (pc', c, s')"
    using assms by (auto simp: bind_eq_Some_conv)
  show ?thesis by (rule accepted [OF a])
next
  case (FStolen task prev)
  then show ?thesis using assms by (auto simp: bind_eq_Some_conv go_def dest!: finish_task_key intro: keep)
qed (use assms in simp)

lemma user_step:
  assumes "user_step env cfg c c'"
  shows "R (fst (snd c)) (fst (snd c'))"
  using assms
  by cases (auto intro: keep RT_task_alloc_key dest: RT_push RT_poll)

lemma worker_step:
  assumes "worker_step env cfg c c'"
  shows "R (fst (snd c)) (fst (snd c'))"
  using assms
proof cases
  case (Step_Force_Return f n r s data s' this fs)
  then have "fst s' = fst s" by (auto simp: force_return_def bind_eq_Some_conv)
  then show ?thesis using Step_Force_Return by (simp add: keep)
qed (auto intro: keep schedule_step barrier_step force_step dest: user_step)

lemma sys_step:
  assumes "sys_step env cfg z z'"
  shows "length (workers z') = length (workers z) \<and> (\<forall>i < length (workers z). R (workers z ! i) (workers z' ! i))"
  using assms
proof cases
  case (Run i fs w sh)
  then show ?thesis using worker_step [OF Run(4)] by (auto simp: nth_list_update intro: keep)
next
  case (Wake i)
  then show ?thesis using sleep [of False "workers z ! i"] by (auto simp: nth_list_update intro: keep)
qed

end

section \<open>The operations that change them\<close>

lemma CHANNEL_PUSH_private:
  assumes "CHANNEL_PUSH c w = Some w'"
  shows "w' = w\<lparr>channel_stack := channel_stack w'\<rparr> \<and> bounded_stack_push (channel_stack w) c = Some (channel_stack w')"
  using assms by (auto simp: CHANNEL_PUSH_def bind_eq_Some_conv)

lemma recv_task_loop_some:
  "recv_task_loop i n s = Some (Some task, w', sh') \<Longrightarrow> \<exists>c. CHANNEL_PUSH c (fst s) = Some w'"
proof (induction i n s rule: recv_task_loop.induct)
  case (1 i n s)
  obtain w sh where s: "s = (w, sh)" by (cases s)
  show ?case
  proof (cases "i < n")
    case True
    then obtain chans q where c: "read_at (chan_tasks sh) (nat (ID w)) = Some chans" "read_at chans i = Some q"
      using "1.prems" s recv_task_loop.simps [of i n s] by (auto split: Option.bind_splits)
    show ?thesis
    proof (cases "list_get q")
      case None
      then have "recv_task_loop (i + 1) n (w, sh) = Some (Some task, w', sh')"
        using "1.prems" True c s recv_task_loop.simps [of i n s] by simp
      from "1.IH" [OF s [symmetric] refl True c None this] show ?thesis using s by simp
    next
      case (Some x)
      then show ?thesis
        using "1.prems" True c s recv_task_loop.simps [of i n s] by (cases x) (auto split: Option.bind_splits)
    qed
  qed (use "1.prems" s recv_task_loop.simps [of i n s] in simp)
qed

lemma RECV_TASK_private:
  assumes "RECV_TASK rand cfg idle (w, sh) = Some (Some task, w', sh')"
  shows "fst (private_key w') = fst (private_key w) \<and> (\<exists>c. bounded_stack_push (channel_stack w) c = Some (channel_stack w')) \<and>
    0 \<le> requested w' \<and> requested w' < MAXSTEAL cfg \<and> dropped_steal_requests w' = 0 \<and> blocked w' = blocked w"
proof -
  obtain w1 sh1 where l: "recv_task_loop 0 (nat (MAXSTEAL cfg)) (w, sh) = Some (Some task, w1, sh1)"
    and d: "fst (private_key w') = fst (private_key w1)" "channel_stack w' = channel_stack w1" "blocked w' = blocked w1"
      "0 \<le> requested w'" "requested w' < MAXSTEAL cfg" "dropped_steal_requests w' = 0"
    using assms unfolding RECV_TASK_def
    by (auto simp: bind_eq_Some_conv Let_def private_key_def split: option.splits if_splits)
  from recv_task_loop_some [OF l] obtain c where c: "CHANNEL_PUSH c w = Some w1" by auto
  note p = CHANNEL_PUSH_private [OF c]
  have "fst (private_key w1) = fst (private_key w)" "blocked w1 = blocked w" by (subst p [THEN conjunct1], simp add: private_key_def)+
  then show ?thesis using d p by metis
qed

lemma try_send_private:
  assumes "try_send_steal_request rand cfg idle (w, sh) = Some (w', sh')"
  shows "private_key w' = private_key w \<or>
    requested w < MAXSTEAL cfg \<and> ID w' = ID w \<and> tasking_finished w' = tasking_finished w \<and> requests_sent w' = requests_sent w + 1 \<and>
    (STEAL cfg \<noteq> Steal_Adaptive \<or> requests_steal_one w' = requests_steal_one w + 1 \<and> requests_steal_half w' = requests_steal_half w \<or>
      requests_steal_one w' = requests_steal_one w \<and> requests_steal_half w' = requests_steal_half w + 1) \<and>
    (\<exists>c. bounded_stack_pop (channel_stack w) = Some (c, channel_stack w')) \<and> requested w' = requested w + 1 \<and>
    dropped_steal_requests w' = dropped_steal_requests w \<and> blocked w' = blocked w"
proof (cases "requested w < MAXSTEAL cfg")
  case True
  let ?w = "adapt_stealhalf cfg w"
  obtain r w1 where r: "STEAL_REQUEST_INIT (num_workers sh) ?w = Some (r, w1)"
    using assms True by (auto simp: try_send_steal_request_def Let_def bind_eq_Some_conv)
  let ?r = "r\<lparr>req_state := if idle then STATE_IDLE else STATE_WORKING\<rparr>"
  obtain v r2 w2 where v: "next_victim rand cfg (num_workers sh) ?r w1 = Some (v, r2, w2)"
    using assms True r by (auto simp: try_send_steal_request_def Let_def bind_eq_Some_conv)
  obtain w3 sh3 where d: "SEND_REQ_WORKER cfg v r2 (w2, sh) = Some (w3, sh3)"
    using assms True r v by (auto simp: try_send_steal_request_def Let_def bind_eq_Some_conv)
  have a: "private_key ?w = private_key w" by (simp add: adapt_stealhalf_def Let_def)
  obtain c st where p: "bounded_stack_pop (channel_stack ?w) = Some (c, st)" "w1 = ?w\<lparr>channel_stack := st\<rparr>"
    using r by (auto simp: STEAL_REQUEST_INIT_def CHANNEL_POP_def bind_eq_Some_conv)
  have k: "private_key w3 = private_key w1" using next_victim_key [OF v] SEND_REQ_WORKER_private [OF d] by simp
  let ?w4 = "w3\<lparr>requested := requested w3 + 1, requests_sent := requests_sent w3 + 1\<rparr>"
  have e: "w' = (if STEAL cfg = Steal_Adaptive
      then if stealhalf ?w4 then ?w4\<lparr>requests_steal_half := requests_steal_half ?w4 + 1\<rparr>
        else ?w4\<lparr>requests_steal_one := requests_steal_one ?w4 + 1\<rparr> else ?w4)"
    using assms True r v d by (auto simp: try_send_steal_request_def Let_def bind_eq_Some_conv)
  show ?thesis unfolding e using True p a k by (simp add: private_key_def)
next
  case False
  then show ?thesis using assms by (simp add: try_send_steal_request_def)
qed

section \<open>The beginning\<close>

lemma alloc_task_channels_private:
  "alloc_task_channels i n s = Some s' \<Longrightarrow> fst s' = (fst s)\<lparr>channel_stack := channel_stack (fst s')\<rparr> \<and>
    bs_capacity (channel_stack (fst s')) = bs_capacity (channel_stack (fst s)) \<and>
    length (bs_buffer (channel_stack (fst s'))) = length (bs_buffer (channel_stack (fst s)))"
proof (induction i n s rule: alloc_task_channels.induct)
  case (1 i n s)
  obtain w sh where s: "s = (w, sh)" by (cases s)
  show ?case
  proof (cases "i < n")
    case True
    then obtain chans chans' where c: "read_at (chan_tasks sh) (nat (ID w)) = Some chans" "write_at chans i [] = Some chans'"
      using "1.prems" s alloc_task_channels.simps [of i n s] by (auto split: Option.bind_splits)
    let ?sh = "sh\<lparr>chan_tasks := (chan_tasks sh)[nat (ID w) := chans']\<rparr>"
    obtain w1 where p: "CHANNEL_PUSH (ID w, i) w = Some w1" and r: "alloc_task_channels (i + 1) n (w1, ?sh) = Some s'"
      using "1.prems" True s c alloc_task_channels.simps [of i n s] by (auto simp: Let_def split: Option.bind_splits)
    note ih = "1.IH" [OF s [symmetric] refl True c refl p r]
    obtain st where st: "bounded_stack_push (channel_stack w) (ID w, i) = Some st" "w1 = w\<lparr>channel_stack := st\<rparr>"
      using p by (auto simp: CHANNEL_PUSH_def bind_eq_Some_conv)
    have "bs_capacity st = bs_capacity (channel_stack w)" "length (bs_buffer st) = length (bs_buffer (channel_stack w))"
      using st(1) by (auto simp: bounded_stack_push_def bind_eq_Some_conv write_at_Some)
    then show ?thesis using ih st(2) s by simp
  qed (use "1.prems" s alloc_task_channels.simps [of i n s] in simp)
qed

definition fresh_private :: "config \<Rightarrow> worker \<Rightarrow> bool" where
  "fresh_private cfg w \<longleftrightarrow> (\<exists>i. fst (private_key w) = (i, False, 0, 0, 0)) \<and> requested w = 0 \<and> dropped_steal_requests w = 0 \<and> \<not> blocked w \<and>
     uint (bs_top (channel_stack w)) = MAXSTEAL cfg \<and> bs_capacity (channel_stack w) = of_int (MAXSTEAL cfg) \<and>
     length (bs_buffer (channel_stack w)) = unat (of_int (MAXSTEAL cfg) * 8 :: uint) div 8"

lemma RT_init_private:
  assumes "RT_init env cfg (w, sh) = Some (w', sh')" "fst (private_key w) = (i, False, 0, 0, 0)" "dropped_steal_requests w = 0" "\<not> blocked w"
  shows "fresh_private cfg w'"
proof -
  obtain dq st n sh1 w1 sh2 b where a: "alloc_task_channels 0 n (w\<lparr>deque := dq, channel_stack := st\<rparr>, sh1) = Some (w1, sh2)"
    and st: "bounded_stack_alloc b 8 (of_int (MAXSTEAL cfg)) = Some st"
    and w': "uint (bs_top (channel_stack w1)) = MAXSTEAL cfg" "channel_stack w' = channel_stack w1" "fst (private_key w') = fst (private_key w1)"
      "requested w' = 0" "dropped_steal_requests w' = dropped_steal_requests w1" "blocked w' = blocked w1"
    using assms(1) unfolding RT_init_def Let_def by (fastforce simp: bind_eq_Some_conv case_prod_beta private_key_def)
  note p = alloc_task_channels_private [OF a, simplified]
  have "fst (private_key w1) = fst (private_key w)" "dropped_steal_requests w1 = dropped_steal_requests w" "blocked w1 = blocked w"
    by (subst p [THEN conjunct1], simp add: private_key_def)+
  moreover have "bs_capacity st = of_int (MAXSTEAL cfg)" "length (bs_buffer st) = unat (of_int (MAXSTEAL cfg) * 8 :: uint) div 8"
    using st by (auto simp: bounded_stack_alloc_def Let_def split: if_splits)
  ultimately show ?thesis using w' p assms(2-4) by (simp add: fresh_private_def)
qed

lemma start_workers_private:
  "start_workers env cfg is sh = Some (ws, sh') \<Longrightarrow> \<forall>w \<in> set ws. fresh_private cfg w"
proof (induction "is" arbitrary: sh ws)
  case (Cons i "is")
  then obtain w sh1 ws' where w: "worker_entry_fn env cfg i sh = Some (w, sh1)" and r: "start_workers env cfg is sh1 = Some (ws', sh')" "ws = w # ws'"
    by (auto simp: bind_eq_Some_conv)
  have "fresh_private cfg w"
    by (rule RT_init_private [OF w [unfolded worker_entry_fn_def], of i])
      (simp_all add: private_key_def thread_private_def set_current_task_def)
  then show ?case using Cons.IH [OF r(1)] r(2) by auto
qed simp

lemma tasking_init_private:
  assumes t: "tasking_init env cfg envval n ms = Some (Inr z)"
  shows "(\<forall>w \<in> set (workers z). fresh_private cfg w) \<and> (\<forall>fs \<in> set (stacks z). Schedule Leave \<notin> set fs) \<and>
    length (stacks z) = length (workers z)"
proof -
  obtain N where N: "get_num_workers envval n = Inr N"
    using t by (auto simp: tasking_init_def split: sum.splits)
  obtain ws sh where ws: "start_workers env cfg [1..N - 1] (boot env cfg N ms) = Some (ws, sh)"
    using t N by (auto simp: tasking_init_def bind_eq_Some_conv)
  obtain root sh1 where m: "malloc sh = (root, sh1)" by (cases "malloc sh")
  obtain h w sh2 where w: "RT_init env cfg (set_current_task root (thread_private\<lparr>ID := 0,
         num_tasks_exec := 0, tasking_finished := False\<rparr>), sh1\<lparr>task_mem := h\<rparr>) = Some (w, sh2)"
    and z: "z = \<lparr>stacks = [Main_Program] # replicate (length ws) [Schedule Pop], workers = w # ws, mem = sh2\<rparr>"
    using t N ws m by (auto simp: tasking_init_def bind_eq_Some_conv)
  have "fresh_private cfg w"
    by (rule RT_init_private [OF w, of 0]) (simp_all add: private_key_def thread_private_def set_current_task_def)
  then show ?thesis using start_workers_private [OF ws] z by auto
qed

section \<open>Invariants\<close>

text \<open>What \<^verbatim>\<open>tasking_statistics\<close> asserts in an adaptive build: every request sent was counted as one of two kinds.\<close>

definition books :: "config \<Rightarrow> worker \<Rightarrow> bool" where
  "books cfg w \<longleftrightarrow> (STEAL cfg = Steal_Adaptive \<longrightarrow> requests_steal_one w + requests_steal_half w = requests_sent w)"

text \<open>
  With one request per worker, its task channel is on its stack unless the request is under way; and only condition variables put a worker to sleep,
  never the master.
\<close>

definition spare :: "config \<Rightarrow> worker \<Rightarrow> bool" where
  "spare cfg w \<longleftrightarrow> (MAXSTEAL cfg = 1 \<longrightarrow> bs_capacity (channel_stack w) = 1 \<and> length (bs_buffer (channel_stack w)) = 1 \<and>
     dropped_steal_requests w = 0 \<and>
     (requested w = 0 \<and> bs_top (channel_stack w) = 1 \<or> requested w = 1 \<and> bs_top (channel_stack w) = 0)) \<and>
   (blocked w \<longrightarrow> BACKOFF cfg = Wait_Cond \<and> ID w \<noteq> MASTER_ID)"

interpretation counted: private_relation cfg "\<lambda>w w'. books cfg w \<longrightarrow> books cfg w'" for cfg
proof
qed (auto simp: books_def private_key_def FORGET_REQ_def CHANNEL_PUSH_def bind_eq_Some_conv dest!: RECV_TASK_private try_send_private)

interpretation identity: private_relation cfg "\<lambda>w w'. ID w' = ID w \<and> tasking_finished w' = tasking_finished w" for cfg
proof
qed (auto simp: private_key_def FORGET_REQ_def CHANNEL_PUSH_def bind_eq_Some_conv dest!: RECV_TASK_private try_send_private)

lemma push_one: "bounded_stack_push st c = Some st' \<Longrightarrow> bs_capacity st = 1 \<Longrightarrow> bs_top st = 0 \<or> bs_top st = 1 \<Longrightarrow>
    bs_top st = 0 \<and> bs_top st' = 1 \<and> bs_capacity st' = 1 \<and> length (bs_buffer st') = length (bs_buffer st)"
  by (auto simp: bounded_stack_push_def bounded_stack_full_def bind_eq_Some_conv write_at_Some)

lemma pop_one: "bounded_stack_pop st = Some (c, st') \<Longrightarrow> bs_top st = 0 \<or> bs_top st = 1 \<Longrightarrow>
    bs_top st' = 0 \<and> bs_capacity st' = bs_capacity st \<and> bs_buffer st' = bs_buffer st"
  by (auto simp: bounded_stack_pop_def bounded_stack_empty_def bind_eq_Some_conv Let_def)

interpretation stock: private_relation cfg "\<lambda>w w'. spare cfg w \<longrightarrow> spare cfg w'" for cfg
proof
  show "spare cfg w \<longrightarrow> spare cfg w'" if f: "FORGET_REQ r w = Some w'" for r w w'
  proof
    assume s: "spare cfg w"
    obtain st where st: "w' = w\<lparr>requested := requested w - 1, channel_stack := st\<rparr>" "requested w \<noteq> 0" "bounded_stack_push (channel_stack w) (req_chan r) = Some st"
      using f by (auto simp: FORGET_REQ_def CHANNEL_PUSH_def bind_eq_Some_conv)
    show "spare cfg w'" using s push_one [OF st(3)] st(1,2) by (auto simp: spare_def)
  qed
  show "spare cfg w \<longrightarrow> spare cfg (w'\<lparr>dropped_steal_requests := dropped_steal_requests w' + 1\<rparr>)"
    if "1 < MAXSTEAL cfg" "CHANNEL_PUSH c w = Some w'" for c w w'
    using that by (auto simp: spare_def CHANNEL_PUSH_def bind_eq_Some_conv)
  show "spare cfg w \<longrightarrow> spare cfg w'" if rt: "RECV_TASK rand cfg idle (w, sh) = Some (Some task, w', sh')" for rand idle w sh task w' sh'
  proof
    assume s: "spare cfg w"
    obtain c where p: "bounded_stack_push (channel_stack w) c = Some (channel_stack w')" "0 \<le> requested w'" "requested w' < MAXSTEAL cfg"
      "dropped_steal_requests w' = 0" "blocked w' = blocked w" "ID w' = ID w"
      using RECV_TASK_private [OF rt] by (auto simp: private_key_def)
    show "spare cfg w'" using s push_one [OF p(1)] p(2-6) by (auto simp: spare_def)
  qed
  show "spare cfg w \<longrightarrow> spare cfg w'" if ts: "try_send_steal_request rand cfg idle (w, sh) = Some (w', sh')" for rand idle w sh w' sh'
  proof
    assume s: "spare cfg w"
    consider "private_key w' = private_key w" | c where "requested w < MAXSTEAL cfg" "bounded_stack_pop (channel_stack w) = Some (c, channel_stack w')"
      "requested w' = requested w + 1" "dropped_steal_requests w' = dropped_steal_requests w" "blocked w' = blocked w" "ID w' = ID w"
      using try_send_private [OF ts] by blast
    then show "spare cfg w'"
    proof cases
      case 1
      then show ?thesis using s by (simp add: spare_def private_key_def)
    next
      case 2
      then show ?thesis using s pop_one [OF 2(2)] by (auto simp: spare_def)
    qed
  qed
  show "spare cfg w \<longrightarrow> spare cfg w'" if "private_key w' = private_key w" for w w' using that by (simp add: spare_def private_key_def)
  show "spare cfg w \<longrightarrow> spare cfg (w\<lparr>blocked := b\<rparr>)" if "b \<Longrightarrow> BACKOFF cfg = Wait_Cond \<and> ID w \<noteq> MASTER_ID" for b w
    using that by (cases b) (simp_all add: spare_def)
qed blast

text \<open>What holds initially and is kept by every step holds in every reachable state.\<close>

lemma reachable_private:
  assumes "reachable env cfg z" "w \<in> set (workers z)" "private_relation cfg (\<lambda>w w'. P w \<longrightarrow> P w')" "\<And>w. fresh_private cfg w \<Longrightarrow> P w"
  shows "P w"
  using assms(1,2)
proof (induction arbitrary: w rule: reachable.induct)
  case (Start envval n ms z)
  then show ?case using tasking_init_private [OF Start(1)] assms(4) by blast
next
  case (Step z z')
  note s = private_relation.sys_step [OF assms(3) Step(2)]
  obtain i where "i < length (workers z')" "w = workers z' ! i" using Step.prems by (metis in_set_conv_nth)
  then show ?case using s Step.IH [of "workers z ! i"] by simp
qed

lemma reachable_books: "reachable env cfg z \<Longrightarrow> w \<in> set (workers z) \<Longrightarrow> books cfg w"
  by (erule (1) reachable_private [OF _ _ counted.private_relation_axioms]) (auto simp: fresh_private_def books_def private_key_def)

lemma reachable_spare: "reachable env cfg z \<Longrightarrow> w \<in> set (workers z) \<Longrightarrow> spare cfg w"
  by (erule (1) reachable_private [OF _ _ stock.private_relation_axioms])
    (auto simp: fresh_private_def spare_def uint_1_eq word_uint_eq_iff)

text \<open>The scheduling loop of a worker thread ends only when tasking has finished.\<close>

lemma schedule_leave:
  assumes "schedule_step env cfg pc s = Some (Leave, c, s')"
  shows "tasking_finished (fst s')"
  using assms
  by (cases pc) (auto simp: bind_eq_Some_conv go_def call_task_def run_task_enter_def split: if_splits option.splits)

lemma called_stays: "Schedule Leave \<notin> set (called c (f # fs)) \<longleftrightarrow> f \<noteq> Schedule Leave \<and> Schedule Leave \<notin> set fs"
  by (auto simp: called_def split: option.split)

lemma worker_stays:
  assumes "worker_step env cfg (fs, s) (fs', s')" "Schedule Leave \<notin> set fs" "\<not> tasking_finished (fst s)"
  shows "Schedule Leave \<notin> set fs'"
proof -
  have nf: "\<not> tasking_finished (fst s')" using identity.worker_step [OF assms(1)] assms(3) by simp
  show ?thesis using assms(1)
  proof cases
    case (Step_Schedule pc pc' c gs)
    then show ?thesis using assms(2) nf schedule_leave [of env cfg pc s c s'] by (auto simp: called_stays)
  next
    case (Step_Code task gs)
    then show ?thesis using assms(2) by (auto elim: user_step.cases)
  next
    case (Step_Main gs)
    then show ?thesis using assms(2) by (auto elim: user_step.cases)
  qed (use assms(2) in \<open>auto simp: called_stays\<close>)
qed

definition all_stay :: "sys \<Rightarrow> bool" where
  "all_stay z \<longleftrightarrow> length (stacks z) = length (workers z) \<and> (\<forall>w \<in> set (workers z). \<not> tasking_finished w) \<and>
     (\<forall>fs \<in> set (stacks z). Schedule Leave \<notin> set fs)"

lemma all_stay_step:
  assumes "sys_step env cfg z z'" "all_stay z"
  shows "all_stay z'"
proof -
  note i = identity.sys_step [OF assms(1)]
  have f: "\<forall>w \<in> set (workers z'). \<not> tasking_finished w"
  proof
    fix w assume "w \<in> set (workers z')"
    then obtain k where "k < length (workers z')" "w = workers z' ! k" by (metis in_set_conv_nth)
    then show "\<not> tasking_finished w" using i assms(2) by (simp add: all_stay_def)
  qed
  show ?thesis using assms(1)
  proof cases
    case (Run i fs w sh)
    have "Schedule Leave \<notin> set fs"
      by (rule worker_stays [OF Run(4)]) (use assms(2) Run in \<open>auto simp: all_stay_def\<close>)
    then have "\<forall>gs \<in> set ((stacks z)[i := fs]). Schedule Leave \<notin> set gs"
      using assms(2) set_update_subset_insert [of "stacks z" i fs] by (auto simp: all_stay_def)
    then show ?thesis using f assms(2) Run by (simp add: all_stay_def)
  next
    case (Wake i)
    then show ?thesis using f assms(2) by (simp add: all_stay_def)
  qed
qed

lemma reachable_stay: "reachable env cfg z \<Longrightarrow> all_stay z"
proof (induction rule: reachable.induct)
  case (Start envval n ms z)
  then show ?case using tasking_init_private [OF Start(1)] by (auto simp: all_stay_def fresh_private_def private_key_def)
qed (rule all_stay_step)

end
