(* ===== verification/Exit_Action.thy ===== *)
theory Exit_Action
  imports Tracking Counters
begin

text \<open>
  The exit action and what idle workers do with it, one call at a time: \<^verbatim>\<open>RT_EXIT_FN\<close> sends a task to each child, an idle worker finds
  nothing to receive or to decline until the task arrives, and receiving, accepting and finishing the task succeed.
\<close>

section \<open>The exit action\<close>

text \<open>A task that runs the exit action.\<close>

definition exit_task :: "env \<Rightarrow> config \<Rightarrow> task_heap \<Rightarrow> addr \<Rightarrow> bool" where
  "exit_task env cfg h x \<longleftrightarrow> (\<exists>t. deref h x = Some t \<and> t_fn t = env_exit_fn env \<and> t_next t = NULL \<and>
     (VICTIM cfg = Last_Victim \<longrightarrow> t_victim t = - 1))"

lemma exit_task_frame: "exit_task env cfg h x \<Longrightarrow> h' x = h x \<Longrightarrow> exit_task env cfg h' x"
  by (auto simp: exit_task_def deref_def)

text \<open>An object can be allocated if one is cached or \<^verbatim>\<open>malloc\<close> succeeds.\<close>

lemma alloc_ready:
  assumes o: "owned B g (w, sh)" and m: "mallocs sh \<noteq> []"
  shows "\<exists>x dq sh' t. RT_task_alloc junk (w, sh) = Some (x, w\<lparr>deque := dq\<rparr>, sh') \<and> x \<noteq> NULL \<and> deref (task_mem sh') x = Some (zeroed t) \<and>
    sh' = sh\<lparr>task_mem := task_mem sh', mallocs := mallocs sh'\<rparr> \<and> length (mallocs sh) \<le> length (mallocs sh') + 1 \<and>
    (\<forall>a. a \<noteq> x \<longrightarrow> task_mem sh' a = task_mem sh a) \<and> x \<in> set (g_free g @ mallocs sh)"
proof (cases "g_free g")
  case Nil
  then have f: "freelist (deque w) = NULL" using deque_rel_D(2) [OF ownedD(1) [OF o]] by simp
  obtain p ms where p: "mallocs sh = p # ms" using m by (cases "mallocs sh") auto
  have pn: "p \<noteq> NULL" using ownedD(9,10) [OF o] p by (auto simp: cells_def)
  have "w = w\<lparr>deque := deque w\<rparr>" by simp
  moreover have "RT_task_alloc junk (w, sh) = Some (p, w, sh\<lparr>mallocs := ms, task_mem := (task_mem sh)(p \<mapsto> zeroed junk)\<rparr>)"
    using f p pn by (simp add: RT_task_alloc_def malloc_def deque_task_new_def task_new_eq)
  ultimately show ?thesis using p pn
    by (intro exI [of _ p] exI [of _ "deque w"] exI [of _ "sh\<lparr>mallocs := ms, task_mem := (task_mem sh)(p \<mapsto> zeroed junk)\<rparr>"] exI [of _ junk])
      (simp add: deref_def)
next
  case (Cons y fs)
  have r: "deque_rel (task_mem sh) (deque w) (g_dq g) (y # fs)" using ownedD(1) [OF o] Cons by simp
  have fr: "freelist (deque w) = y" "y \<noteq> NULL" using deque_rel_D(2) [OF r] by auto
  obtain dq h t where d: "deque_task_new NULL junk (task_mem sh) (deque w) = Some (y, dq, h)"
    "deref h y = Some t" "t = zeroed t" "\<forall>a. a \<noteq> y \<longrightarrow> h a = task_mem sh a"
    using deque_task_new_cached [OF r, of NULL junk] by blast
  then show ?thesis using fr Cons
    by (intro exI [of _ y] exI [of _ dq] exI [of _ "sh\<lparr>task_mem := h\<rparr>"] exI [of _ t]) (simp add: RT_task_alloc_def)
qed

text \<open>
  What notifying the children \<open>cs\<close> does: every one of them has got the exit action, and has been signalled, and nothing else has changed
  but the deque of the notifier, from whose free list the tasks may come.
\<close>

definition notified :: "env \<Rightarrow> config \<Rightarrow> nat set \<Rightarrow> addr set \<Rightarrow> own \<Rightarrow> wst \<Rightarrow> own \<Rightarrow> wst \<Rightarrow> bool" where
  "notified env cfg cs B g s g' s' \<longleftrightarrow> moved B g s g' s' \<and> g_hand g' = g_hand g \<and> g_acc g' = [] \<and> g_dq g' = g_dq g \<and>
     fst s' = (fst s)\<lparr>deque := deque (fst s')\<rparr> \<and> num_workers (snd s') = num_workers (snd s) \<and> chan_requests (snd s') = chan_requests (snd s) \<and>
     length (chan_tasks (snd s')) = length (chan_tasks (snd s)) \<and> length (signals (snd s')) = length (signals (snd s)) \<and>
     (\<forall>i. i \<notin> cs \<longrightarrow> chan_tasks (snd s') ! i = chan_tasks (snd s) ! i \<and> signals (snd s') ! i = signals (snd s) ! i) \<and>
     (\<forall>i \<in> cs. (\<exists>x. chan_tasks (snd s') ! i = [[x]] \<and> exit_task env cfg (task_mem (snd s')) x) \<and>
       (BACKOFF cfg = Wait_Cond \<longrightarrow> signals (snd s') ! i)) \<and>
     length (mallocs (snd s)) \<le> length (mallocs (snd s')) + card cs \<and>
     (\<forall>a \<in> set (concat (g_chan g)). task_mem (snd s') a = task_mem (snd s) a) \<and> set (concat (g_chan g)) \<subseteq> set (concat (g_chan g'))"

lemma notified_refl: "owned B g s \<Longrightarrow> g_acc g = [] \<Longrightarrow> notified env cfg {} B g s g s"
  by (simp add: notified_def moved_refl)

lemma fill_empty:
  assumes "xs ! c = []"
  shows "set (concat xs) \<subseteq> set (concat (xs[c := ys]))"
proof
  fix y assume "y \<in> set (concat xs)"
  then obtain us where "us \<in> set xs" "y \<in> set us" by auto
  then obtain i where i: "i < length xs" "y \<in> set (xs ! i)" by (metis in_set_conv_nth)
  then have "i \<noteq> c" using assms by auto
  then have "xs[c := ys] ! i = xs ! i" by simp
  then have "xs ! i \<in> set (xs[c := ys])" using i(1) by (metis length_list_update nth_mem)
  then show "y \<in> set (concat (xs[c := ys]))" using i(2) by auto
qed

lemma notify_child_ok:
  assumes o: "owned B g (w, sh)" "g_acc g = []" and m: "mallocs sh \<noteq> []"
    and c: "c < nat (num_workers sh)" "c < length (chan_tasks sh)" "chan_tasks sh ! c = [[]]" "c < length (signals sh)"
  shows "\<exists>g' s'. notify_child env cfg (int c) (w, sh) = Some s' \<and> notified env cfg {c} B g (w, sh) g' s'"
proof -
  obtain x dq sh1 t where a: "RT_task_alloc (env_junk env) (w, sh) = Some (x, w\<lparr>deque := dq\<rparr>, sh1)" "x \<noteq> NULL"
    "deref (task_mem sh1) x = Some (zeroed t)" "sh1 = sh\<lparr>task_mem := task_mem sh1, mallocs := mallocs sh1\<rparr>"
    "length (mallocs sh) \<le> length (mallocs sh1) + 1" "\<forall>a. a \<noteq> x \<longrightarrow> task_mem sh1 a = task_mem sh a" "x \<in> set (g_free g @ mallocs sh)"
    using alloc_ready [OF o(1) m, of "env_junk env"] by blast
  have f1: "num_workers sh1 = num_workers sh" "chan_requests sh1 = chan_requests sh" "chan_tasks sh1 = chan_tasks sh" "signals sh1 = signals sh"
    by (subst a(4), simp)+
  let ?w = "w\<lparr>deque := dq\<rparr>"
  let ?t = "if VICTIM cfg = Last_Victim then (zeroed t)\<lparr>t_fn := env_exit_fn env, t_victim := - 1\<rparr> else (zeroed t)\<lparr>t_fn := env_exit_fn env\<rparr>"
  let ?sh2 = "sh1\<lparr>task_mem := (task_mem sh1)(x \<mapsto> ?t)\<rparr>"
  let ?sh3 = "?sh2\<lparr>chan_tasks := (chan_tasks sh)[c := [[x]]]\<rparr>"
  let ?sh4 = "if BACKOFF cfg = Wait_Cond then ?sh3\<lparr>signals := (signals sh)[c := True]\<rparr> else ?sh3"
  obtain fs where m1: "moved B g (w, sh) (g\<lparr>g_free := fs, g_hand := x # g_hand g\<rparr>) (?w, sh1)"
    using alloc_moved [OF o(1) a(1)] a(2) by auto
  let ?g1 = "g\<lparr>g_free := fs, g_hand := x # g_hand g\<rparr>"
  have m2: "moved B ?g1 (?w, sh1) ?g1 (?w, ?sh2)"
    by (rule update_moved [OF moved_owned [OF m1] _ a(3)]) simp_all
  let ?g2 = "?g1\<lparr>g_hand := g_hand g, g_acc := [x]\<rparr>"
  have m3: "moved B ?g1 (?w, ?sh2) ?g2 (?w, ?sh2)"
    by (rule hand_chain [OF moved_owned [OF m2]]) (use o(2) ownedD(7) [OF o(1)] in auto)
  have ce: "g_chan g ! c = []" using ownedD(2) [OF o(1) c(1)] c(3) by (auto simp: in_chan_def split: if_splits)
  let ?g3 = "?g2\<lparr>g_acc := [], g_chan := (g_chan g)[c := [x]]\<rparr>"
  have m4: "moved B ?g2 (?w, ?sh2) ?g3 (?w, ?sh3)"
    using send_moved(1) [OF moved_owned [OF m3], of c] c(1,2) ce f1 by simp
  have m5: "moved B ?g3 (?w, ?sh3) ?g3 (?w, ?sh4)"
    by (rule aside_moved [OF moved_owned [OF m4]]) (simp add: aside_def)
  have mv: "moved B g (w, sh) ?g3 (?w, ?sh4)"
    by (rule moved_trans [OF moved_trans [OF moved_trans [OF moved_trans [OF m1 m2] m3] m4] m5])
  have xc: "x \<notin> set (concat (g_chan g))" using a(7) ownedD(8) [OF o(1)] by (auto simp: cells_def places_def besides_def)
  have "async_action env cfg (env_exit_fn env) (int c, 0) (w, sh) = Some (?w, ?sh3)"
    using a(1-3) c(2,3) f1 send_task_empty [of "int c" ?sh2 0 x]
    by (cases "VICTIM cfg = Last_Victim") (simp_all add: async_action_def heap_simps)
  then have n: "notify_child env cfg (int c) (w, sh) = Some (?w, ?sh4)"
    using c(4) f1 by (simp add: notify_child_def SIGNAL_def write_at_def)
  define sh4 where "sh4 = ?sh4"
  have f4: "num_workers sh4 = num_workers sh" "chan_requests sh4 = chan_requests sh" "chan_tasks sh4 = (chan_tasks sh)[c := [[x]]]"
    "signals sh4 = (if BACKOFF cfg = Wait_Cond then (signals sh)[c := True] else signals sh)" "mallocs sh4 = mallocs sh1"
    "\<forall>a. a \<noteq> x \<longrightarrow> task_mem sh4 a = task_mem sh a"
    using f1 a(6) by (simp_all add: sh4_def)
  have e4: "exit_task env cfg (task_mem sh4) x" using a(2) by (auto simp: exit_task_def deref_def sh4_def)
  have "set (concat (g_chan g)) \<subseteq> set (concat ((g_chan g)[c := [x]]))" by (rule fill_empty [OF ce])
  then have "notified env cfg {c} B g (w, sh) ?g3 (?w, sh4)"
    unfolding notified_def using mv [folded sh4_def] c(2,4) f4 e4 a(5) xc by auto
  then show ?thesis using n [folded sh4_def] by blast
qed

lemma message_owned:
  assumes "owned B g (w, sh)" "i < nat (num_workers sh)" "chan_tasks sh ! i = [[x]]"
  shows "x \<in> set (concat (g_chan g))"
proof -
  have "g_chan g ! i \<noteq> [] \<and> hd (g_chan g ! i) = x" using ownedD(2) [OF assms(1,2)] assms(3) by (auto simp: in_chan_def split: if_splits)
  moreover have "g_chan g ! i \<in> set (g_chan g)" using ownedD(6) [OF assms(1)] assms(2) by simp
  ultimately show ?thesis using hd_in_set [of "g_chan g ! i"] by auto
qed

lemma notified_trans:
  assumes a: "notified env cfg cs B g s g1 s1" and b: "notified env cfg ds B g1 s1 g2 s2" and d: "cs \<inter> ds = {}" "finite cs" "finite ds"
    and c: "\<forall>i \<in> cs. i < nat (num_workers (snd s))"
  shows "notified env cfg (cs \<union> ds) B g s g2 s2"
proof -
  note A = a [unfolded notified_def] and B = b [unfolded notified_def]
  have o: "owned B g1 (fst s1, snd s1)" using A by (simp add: moved_def)
  have "exit_task env cfg (task_mem (snd s2)) x" if "i \<in> cs" "chan_tasks (snd s1) ! i = [[x]]" "exit_task env cfg (task_mem (snd s1)) x" for i x
  proof -
    have "x \<in> set (concat (g_chan g1))" by (rule message_owned [OF o]) (use that c A in auto)
    then show ?thesis using that(3) B exit_task_frame by metis
  qed
  then have ex: "\<forall>i \<in> cs. \<exists>x. chan_tasks (snd s2) ! i = [[x]] \<and> exit_task env cfg (task_mem (snd s2)) x"
    using A B d(1) by (metis disjoint_iff)
  moreover have "card (cs \<union> ds) = card cs + card ds" using d by (simp add: card_Un_disjoint)
  moreover have "fst s2 = (fst s)\<lparr>deque := deque (fst s2)\<rparr>" using A B by (metis worker.surjective worker.update_convs(2))
  ultimately show ?thesis unfolding notified_def
    using A B d(1) moved_trans [of B g s g1 s1 g2 s2] by (auto simp del: set_concat)
qed

text \<open>The children of a worker.\<close>

definition kids :: "int \<Rightarrow> int \<Rightarrow> nat set" where
  "kids N i = {c. int c < N \<and> (int c = 2 * i + 1 \<or> int c = 2 * i + 2)}"

lemma kids_parent: "0 \<le> i \<Longrightarrow> c \<in> kids N i \<longleftrightarrow> 0 < c \<and> int c < N \<and> (int c - 1) div 2 = i"
  unfolding kids_def by auto presburger+

lemma notify_link:
  assumes o: "owned B g (w, sh)" "g_acc g = []" and l: "link = - 1 \<and> cs = {} \<or> (\<exists>c. link = int c \<and> cs = {c})"
    and c: "\<forall>c \<in> cs. c < nat (num_workers sh) \<and> c < length (chan_tasks sh) \<and> c < length (signals sh) \<and> chan_tasks sh ! c = [[]]"
    and m: "card cs \<le> length (mallocs sh)"
  shows "\<exists>g' s'. notify_child env cfg link (w, sh) = Some s' \<and> notified env cfg cs B g (w, sh) g' s'"
  using l
proof (elim disjE exE conjE)
  assume "link = - 1" "cs = {}"
  then show ?thesis using notified_refl [OF o] by (auto simp: notify_child_def)
next
  fix k assume k: "link = int k" "cs = {k}"
  then have "mallocs sh \<noteq> []" using m by auto
  then show ?thesis using notify_child_ok [OF o, of k env cfg] c k by auto
qed

lemma RT_EXIT_FN_ok:
  assumes o: "owned B g (w, sh)" "g_acc g = []" and t: "tree_ok (num_workers sh) w" "subtrees_idle w" "\<not> tasking_finished w"
    and q: "ID w = 0 \<longrightarrow> quiescent w" and ch: "chans_ok sh" "\<forall>c \<in> kids (num_workers sh) (ID w). chan_tasks sh ! c = [[]]"
    and m: "card (kids (num_workers sh) (ID w)) \<le> length (mallocs sh)"
  shows "\<exists>g' w1 sh'. RT_EXIT_FN env cfg (w, sh) =
      Some ((if ID w \<noteq> 0 then w1\<lparr>num_tasks_exec := num_tasks_exec w - 1\<rparr> else w1)\<lparr>tasking_finished := True\<rparr>, sh') \<and>
    notified env cfg (kids (num_workers sh) (ID w)) B g (w, sh) g' (w1, sh')"
proof -
  let ?N = "num_workers sh"
  define l r where "l = {c \<in> kids ?N (ID w). int c = 2 * ID w + 1}" and "r = {c \<in> kids ?N (ID w). int c = 2 * ID w + 2}"
  note L = tree_ok_links [OF t(1)]
  have k: "kids ?N (ID w) = l \<union> r" "l \<inter> r = {}" by (auto simp: kids_def l_def r_def)
  have "l \<subseteq> {nat (2 * ID w + 1)}" "r \<subseteq> {nat (2 * ID w + 2)}" using L(4) by (auto simp: l_def r_def)
  then have fin: "finite l" "finite r" using finite_subset by blast+
  have kN: "c < nat ?N" "c < length (chan_tasks sh)" "c < length (signals sh)" if "c \<in> kids ?N (ID w)" for c
    using that chans_okD(3,4) [OF ch(1)] by (auto simp: kids_def)
  have cl: "tree_left_child (tree w) = - 1 \<and> l = {} \<or> (\<exists>c. tree_left_child (tree w) = int c \<and> l = {c})"
    using L(1,4) by (auto simp: l_def kids_def intro!: exI [of _ "nat (2 * ID w + 1)"])
  have cr: "tree_right_child (tree w) = - 1 \<and> r = {} \<or> (\<exists>c. tree_right_child (tree w) = int c \<and> r = {c})"
    using L(2,4) by (auto simp: r_def kids_def intro!: exI [of _ "nat (2 * ID w + 2)"])
  have ck: "card l + card r \<le> length (mallocs sh)" using m k fin by (simp add: card_Un_disjoint)
  have free: "\<forall>c \<in> kids ?N (ID w). c < nat ?N \<and> c < length (chan_tasks sh) \<and> c < length (signals sh) \<and> chan_tasks sh ! c = [[]]"
    using kN ch(2) by blast
  obtain g1 s1 where s1: "notify_child env cfg (tree_left_child (tree w)) (w, sh) = Some s1" "notified env cfg l B g (w, sh) g1 s1"
    using notify_link [OF o cl, of env cfg] free k(1) ck by auto
  note A = s1(2) [unfolded notified_def, simplified]
  obtain w1 sh1 where p: "s1 = (w1, sh1)" by (cases s1)
  have o1: "owned B g1 (w1, sh1)" "g_acc g1 = []" using A p by (simp_all add: moved_def)
  have tr: "tree w1 = tree w" "ID w1 = ID w" using A p by (metis fst_conv worker.select_convs worker.surjective worker.update_convs(2))+
  have "\<forall>c \<in> r. c < nat (num_workers sh1) \<and> c < length (chan_tasks sh1) \<and> c < length (signals sh1) \<and> chan_tasks sh1 ! c = [[]]"
    using A p free k by auto
  moreover have "card r \<le> length (mallocs sh1)" using A p ck by simp
  ultimately obtain g2 s2 where s2: "notify_child env cfg (tree_right_child (tree w)) (w1, sh1) = Some s2" "notified env cfg r B g1 (w1, sh1) g2 s2"
    using notify_link [OF o1 cr, of env cfg] by blast
  have n: "notified env cfg (kids ?N (ID w)) B g (w, sh) g2 s2"
    unfolding k(1) by (rule notified_trans [OF s1(2) s2(2) [folded p]]) (use k fin kN in auto)
  obtain w2 sh2 where p2: "s2 = (w2, sh2)" by (cases s2)
  have tr2: "ID w2 = ID w" "num_tasks_exec w2 = num_tasks_exec w" using n p2 unfolding notified_def by (metis fst_conv worker.select_convs worker.surjective worker.update_convs(2))+
  have "RT_EXIT_FN env cfg (w, sh) =
      Some ((if ID w \<noteq> 0 then w2\<lparr>num_tasks_exec := num_tasks_exec w - 1\<rparr> else w2)\<lparr>tasking_finished := True\<rparr>, sh2)"
    using t(2,3) q s1(1) s2(1) p p2 tr tr2 by (simp add: RT_EXIT_FN_def subtrees_idle_def)
  then show ?thesis using n p2 by blast
qed

section \<open>Steps of idle workers\<close>

text \<open>What holds of every worker while the runtime shuts down.\<close>

definition idle_worker :: "config \<Rightarrow> int \<Rightarrow> worker \<Rightarrow> bool" where
  "idle_worker cfg N w \<longleftrightarrow> held_ok N w \<and> subtrees_idle w \<and> deque_empty (deque w) \<and> spare cfg w"

lemma idle_workerD:
  assumes "idle_worker cfg N w"
  shows "held_ok N w" "subtrees_idle w" "deque_empty (deque w)" "spare cfg w" "tree_ok N w" "0 \<le> ID w" "ID w < N"
  using assms tree_ok_links(4,5) [of N w] by (auto simp: idle_worker_def held_ok_def)

lemma idle_worker_cong:
  assumes "ID w' = ID w" "tree w' = tree w" "work_sharing_requests w' = work_sharing_requests w" "requested w' = requested w"
    "channel_stack w' = channel_stack w" "deque_empty (deque w') = deque_empty (deque w)" "dropped_steal_requests w' = dropped_steal_requests w"
    "blocked w' = blocked w"
  shows "idle_worker cfg N w' \<longleftrightarrow> idle_worker cfg N w"
  using assms by (simp add: idle_worker_def held_ok_def subtrees_idle_def spare_def tree_ok_def)

text \<open>There is no request to be received anywhere.\<close>

definition no_requests :: "shared \<Rightarrow> bool" where
  "no_requests sh \<longleftrightarrow> (\<forall>q \<in> set (chan_requests sh). q = [])"

lemma RECV_REQ_lvl_empty:
  assumes "\<forall>q \<in> set cs. q = []" "nat N \<le> length cs" "1 \<le> N" "c = - 1 \<or> 0 \<le> c \<and> c < N"
  shows "RECV_REQ_lvl N cs c 0 = Some (None, cs)"
proof (cases "c = - 1")
  case True
  then show ?thesis using assms(3) by (subst RECV_REQ_lvl.simps) simp
next
  case False
  then have c: "0 \<le> c" "c < N" "N \<le> int (length cs)" using assms(2,4) by linarith+
  obtain r cs' where r: "RECV_REQ_lvl N cs c 0 = Some (r, cs')"
    using RECV_REQ_lvl_spec [OF c(1,3) _ c(2), of 0] by auto
  have "\<not> (\<exists>x j q. r = Some x \<and> c \<noteq> - 1 \<and> j \<in> subtree (N - 1) c \<and> cs ! nat j = x # q \<and> cs' = cs[nat j := q])"
    using subtree_nth [OF c(1) _ assms(2,3)] assms(1) nth_mem by (metis list.distinct(1))
  then show ?thesis using RECV_REQ_lvl_below [OF r assms(2-4)] r by blast
qed

lemma decline_nothing:
  assumes w: "idle_worker cfg (num_workers sh) w" and ch: "chans_ok sh" "no_requests sh"
  shows "decline_all_steal_requests rand cfg (w, sh) = Some (w, sh)"
proof -
  let ?N = "num_workers sh" and ?cs = "chan_requests sh"
  note W = idle_workerD [OF w] and C = chans_okD [OF ch(1)]
  have i: "nat (ID w) < length ?cs" using W(6,7) C(2) by linarith
  have e: "?cs ! nat (ID w) = []" using ch(2) nth_mem [OF i] by (auto simp: no_requests_def)
  have u: "?cs[nat (ID w) := []] = ?cs" using e list_update_id [of ?cs "nat (ID w)"] by simp
  have l: "RECV_REQ_lvl ?N ?cs c 0 = Some (None, ?cs)" if "c = - 1 \<or> 0 \<le> c \<and> c < ?N" for c
    by (rule RECV_REQ_lvl_empty) (use ch(2) C that in \<open>auto simp: no_requests_def\<close>)
  have k: "left_child (ID w) (?N - 1) = Some (if 2 * ID w + 1 \<le> ?N - 1 then 2 * ID w + 1 else - 1)"
    "right_child (ID w) (?N - 1) = Some (if 2 * ID w + 2 \<le> ?N - 1 then 2 * ID w + 2 else - 1)"
    using W(6,7) by (simp_all add: left_child_def right_child_def)
  have "RECV_REQ cfg (w, sh) = Some (None, w, sh)"
    using i e u k l W(6) W(2) [unfolded subtrees_idle_def] by (simp add: RECV_REQ_def read_at_def Let_def)
  then show ?thesis by (simp add: decline_all_steal_requests_def)
qed

lemma receive_nothing:
  assumes w: "idle_worker cfg (num_workers sh) w" and ch: "chans_ok sh" and cfg: "MAXSTEAL cfg = 1"
    and r: "requested w = 1" "chan_tasks sh ! nat (ID w) = [[]]"
  shows "RECV_TASK rand cfg idle (w, sh) = Some (None, w, sh)"
  using recv_task_loop_one [OF ch idle_workerD(6,7) [OF w]] r cfg by (simp add: RECV_TASK_def try_send_steal_request_def)

lemma receive_exit:
  assumes w: "idle_worker cfg (num_workers sh) w" and ch: "chans_ok sh" and cfg: "MAXSTEAL cfg = 1"
    and r: "requested w = 1" "chan_tasks sh ! nat (ID w) = [[x]]"
  shows "\<exists>w'. RECV_TASK rand cfg idle (w, sh) = Some (Some x, w', sh\<lparr>chan_tasks := (chan_tasks sh)[nat (ID w) := [[]]]\<rparr>) \<and>
    idle_worker cfg (num_workers sh) w' \<and> ID w' = ID w \<and> deque w' = deque w \<and> current_task w' = current_task w \<and> blocked w' = blocked w \<and>
    tasking_finished w' = tasking_finished w"
proof -
  note W = idle_workerD [OF w]
  have st: "bs_capacity (channel_stack w) = 1" "length (bs_buffer (channel_stack w)) = 1" "dropped_steal_requests w = 0" "bs_top (channel_stack w) = 0"
    using W(4) cfg r(1) by (auto simp: spare_def)
  let ?st = "(channel_stack w)\<lparr>bs_buffer := (bs_buffer (channel_stack w))[0 := Some (ID w, 0)], bs_top := 1\<rparr>"
  let ?sh = "sh\<lparr>chan_tasks := (chan_tasks sh)[nat (ID w) := [[]]]\<rparr>"
  have p: "CHANNEL_PUSH (ID w, 0) w = Some (w\<lparr>channel_stack := ?st\<rparr>)"
    using st by (simp add: CHANNEL_PUSH_def bounded_stack_push_def bounded_stack_full_def write_at_def)
  have loop: "recv_task_loop 0 (Suc 0) (w, sh) = Some (Some x, w\<lparr>channel_stack := ?st\<rparr>, ?sh)"
    using recv_task_loop_one [OF ch W(6,7)] r(2) p by simp
  let ?w1 = "w\<lparr>channel_stack := ?st, requested := 0\<rparr>"
  let ?w' = "if waiting_for_tasks (tree w) then ?w1\<lparr>tree := (tree w)\<lparr>waiting_for_tasks := False\<rparr>, dropped_steal_requests := 0\<rparr> else ?w1"
  have "RECV_TASK rand cfg idle (w, sh) = Some (Some x, ?w', ?sh)"
    using loop cfg r(1) st by (simp add: RECV_TASK_def)
  moreover have "set (bs_buffer ?st) \<subseteq> {None, Some (ID w, 0)}"
    using W(1) set_update_subset_insert [of "bs_buffer (channel_stack w)" 0] by (auto simp: held_ok_def)
  then have "idle_worker cfg (num_workers sh) ?w'"
    using w st by (auto simp: idle_worker_def held_ok_def subtrees_idle_def spare_def tree_ok_def)
  ultimately show ?thesis by auto
qed

lemma share_nothing:
  assumes w: "idle_worker cfg N w" and c: "current_task w = NULL"
  shows "share_work env cfg (w, sh) = Some (w, sh)"
proof (cases "held w")
  case Nil
  then show ?thesis using idle_workerD(1) [OF w] by (subst share_work.simps) (simp add: held_ok_def bounded_queue_empty_items)
next
  case (Cons r rs)
  note W = idle_workerD [OF w]
  have bq: "bq_inv (work_sharing_requests w)" using W(1) by (simp add: held_ok_def)
  have r: "NEXT_WORK_SHARING_REQUEST w = Some r" using bounded_queue_head_item [OF bq Cons] by (simp add: NEXT_WORK_SHARING_REQUEST_def)
  have "req_state r = STATE_FAILED" "req_ID r = tree_left_child (tree w) \<or> req_ID r = tree_right_child (tree w)"
    using W(1) Cons by (auto simp: held_ok_def)
  then have "handle env cfg r (w, sh) = Some (False, w, sh)"
    using W(3) c by (simp add: handle_def get_current_task_def SPLITTABLE_def)
  then show ?thesis using r \<open>req_ID r = _ \<or> _\<close> bq Cons
    by (subst share_work.simps) (simp add: bounded_queue_empty_items)
qed

lemma accept_exit:
  assumes w: "idle_worker cfg N w" and c: "current_task w = NULL" and x: "exit_task env cfg (task_mem sh) x"
  shows "\<exists>w'. accept_tasks env cfg x (w, sh) = Some (x, w', sh) \<and> idle_worker cfg N w' \<and> ID w' = ID w \<and> deque w' = deque w \<and>
    current_task w' = NULL \<and> blocked w' = blocked w \<and> tasking_finished w' = tasking_finished w"
proof -
  obtain t where t: "deref (task_mem sh) x = Some t" "t_next t = NULL" "VICTIM cfg = Last_Victim \<longrightarrow> t_victim t = - 1"
    using x by (auto simp: exit_task_def)
  let ?w = "if STEAL cfg = Steal_Adaptive then w\<lparr>num_recent_steals := num_recent_steals w + 1\<rparr> else w"
  have i: "idle_worker cfg N ?w" using w idle_worker_cong [of ?w w] by simp
  have "accept_tasks env cfg x (w, sh) = Some (x, ?w, sh)"
    using t share_nothing [OF i, of env sh] c by (auto simp: accept_tasks_def)
  then show ?thesis using i c by auto
qed

lemma finish_exit:
  assumes o: "owned B g (w, sh)" and x: "x \<in> set (g_hand g)" and w: "idle_worker cfg N w"
  shows "\<exists>w' h. finish_task x this (w, sh) = Some (w', sh\<lparr>task_mem := h\<rparr>) \<and> idle_worker cfg N w' \<and> ID w' = ID w \<and>
    blocked w' = blocked w \<and> tasking_finished w' = tasking_finished w \<and> (\<forall>a. a \<noteq> x \<longrightarrow> h a = task_mem sh a)"
proof -
  obtain t where t: "deref (task_mem sh) x = Some t" using ownedD(3) [OF o x] by (auto simp: lone_links)
  let ?w = "if t_splittable t then (set_current_task this w)\<lparr>num_tasks_exec := num_tasks_exec w + signed_take_bit 31 \<bar>t_end t - t_start t\<bar>\<rparr>
    else (set_current_task this w)\<lparr>num_tasks_exec := num_tasks_exec w + 1\<rparr>"
  have l: "run_task_leave x this (w, sh) = Some (?w, sh)"
    using t by (simp add: run_task_leave_def set_current_task_def)
  have f: "deque ?w = deque w" by (simp add: set_current_task_def)
  have xn: "x \<notin> nodes (deque w) (g_dq g) (g_free g)" using owned_distinct(1) [OF o] x by auto
  obtain dq h where d: "deque_task_cache (task_mem sh) (deque w) x = Some (dq, h)" "deque_rel h dq (g_dq g) (x # g_free g)"
    "\<forall>a. a \<noteq> x \<longrightarrow> h a = task_mem sh a"
    using deque_task_cache_rel [OF ownedD(1) [OF o] t xn] by blast
  have "deque_empty dq = deque_empty (deque w)" using deque_empty_rel [OF d(2)] deque_empty_rel [OF ownedD(1) [OF o]] by simp
  then have "idle_worker cfg N (?w\<lparr>deque := dq\<rparr>)"
    using w idle_worker_cong [of "?w\<lparr>deque := dq\<rparr>" w] by (simp add: set_current_task_def)
  moreover have "finish_task x this (w, sh) = Some (?w\<lparr>deque := dq\<rparr>, sh\<lparr>task_mem := h\<rparr>)" using l d(1) f by (simp add: finish_task_def)
  ultimately show ?thesis using d(3)
    by (intro exI [of _ "?w\<lparr>deque := dq\<rparr>"] exI [of _ h]) (simp add: set_current_task_def)
qed

end
