(* ===== verification/Exit.thy ===== *)
theory Exit
  imports Exit_Action
begin

text \<open>
  Shutting down the running system. When the main program calls \<^verbatim>\<open>tasking_exit\<close> after a barrier, every worker thread
  waits for tasks. The exit action of the master sends a task to each of its children, which do the same when they run it, until all workers
  have left their scheduling loops. The steps of the workers interleave in any way.
\<close>

section \<open>The steps\<close>

text \<open>
  The steps after the main program has decided to shut down: a worker runs the exit action, takes a step of its scheduling loop, or wakes up.
\<close>

inductive shutdown_step :: "env \<Rightarrow> config \<Rightarrow> sys \<Rightarrow> sys \<Rightarrow> bool" for env cfg where
  Shutdown_Exit: "i < length (workers z) \<Longrightarrow> \<not> blocked (workers z ! i) \<Longrightarrow>
     exit_step env cfg (stacks z ! i, workers z ! i, mem z) (fs, w, sh) \<Longrightarrow>
     shutdown_step env cfg z \<lparr>stacks = (stacks z)[i := fs], workers = (workers z)[i := w], mem = sh\<rparr>"
| Shutdown_Schedule: "i < length (workers z) \<Longrightarrow> \<not> blocked (workers z ! i) \<Longrightarrow> stacks z ! i = Schedule pc # fs \<Longrightarrow>
     schedule_step env cfg pc (workers z ! i, mem z) = Some (pc', c, w, sh) \<Longrightarrow>
     shutdown_step env cfg z \<lparr>stacks = (stacks z)[i := called c (Schedule pc' # fs)], workers = (workers z)[i := w], mem = sh\<rparr>"
| Shutdown_Wake: "i < length (workers z) \<Longrightarrow> blocked (workers z ! i) \<Longrightarrow> signals (mem z) ! i \<Longrightarrow> peek (chan_tasks (mem z) ! i) \<Longrightarrow>
     shutdown_step env cfg z (z\<lparr>workers := (workers z)[i := (workers z ! i)\<lparr>blocked := False\<rparr>]\<rparr>)"

section \<open>The invariant of the shutdown\<close>

text \<open>How far a worker thread has come: it waits, has been sent the exit action, has received it, runs it, has run it, has left its loop.\<close>

datatype stage = Asleep | Notified addr | Accepting addr | Running addr | Returned addr | Gone

definition receiving :: "frame list \<Rightarrow> bool" where
  "receiving fs \<longleftrightarrow> fs = [Schedule Receive] \<or> fs = [Schedule Decline]"

fun at_stage :: "env \<Rightarrow> config \<Rightarrow> shared \<Rightarrow> nat \<Rightarrow> frame list \<Rightarrow> worker \<Rightarrow> stage \<Rightarrow> bool" where
  "at_stage env cfg sh i fs w Asleep \<longleftrightarrow> receiving fs \<and> chan_tasks sh ! i = [[]] \<and> requested w = 1 \<and> \<not> tasking_finished w"
| "at_stage env cfg sh i fs w (Notified x) \<longleftrightarrow> receiving fs \<and> chan_tasks sh ! i = [[x]] \<and> exit_task env cfg (task_mem sh) x \<and>
     requested w = 1 \<and> (blocked w \<longrightarrow> signals sh ! i) \<and> \<not> tasking_finished w"
| "at_stage env cfg sh i fs w (Accepting x) \<longleftrightarrow> fs = [Schedule (Accept x)] \<and> chan_tasks sh ! i = [[]] \<and>
     exit_task env cfg (task_mem sh) x \<and> \<not> blocked w \<and> \<not> tasking_finished w"
| "at_stage env cfg sh i fs w (Running x) \<longleftrightarrow> fs = [Code x, Schedule (Resume x NULL True)] \<and> chan_tasks sh ! i = [[]] \<and>
     exit_task env cfg (task_mem sh) x \<and> \<not> blocked w \<and> \<not> tasking_finished w"
| "at_stage env cfg sh i fs w (Returned x) \<longleftrightarrow> fs = [Schedule (Resume x NULL True)] \<and> chan_tasks sh ! i = [[]] \<and> \<not> blocked w \<and> tasking_finished w"
| "at_stage env cfg sh i fs w Gone \<longleftrightarrow> fs = [Schedule Leave] \<and> chan_tasks sh ! i = [[]] \<and> tasking_finished w"

fun task_of :: "stage \<Rightarrow> addr option" where
  "task_of (Notified x) = Some x"
| "task_of (Accepting x) = Some x"
| "task_of (Running x) = Some x"
| "task_of _ = None"

lemma at_stage_frame:
  assumes "at_stage env cfg sh i fs w st" "chan_tasks sh' ! i = chan_tasks sh ! i" "signals sh' ! i = signals sh ! i"
    "\<And>x. task_of st = Some x \<Longrightarrow> task_mem sh' x = task_mem sh x"
  shows "at_stage env cfg sh' i fs w st"
  using assms by (cases st) (auto intro: exit_task_frame)

definition master_ok :: "shared \<Rightarrow> frame list \<Rightarrow> worker \<Rightarrow> bool" where
  "master_ok sh fs w \<longleftrightarrow> chan_tasks sh ! 0 = [[]] \<and> \<not> blocked w \<and>
     (fs = [Main_Program] \<and> \<not> tasking_finished w \<and> quiescent w \<or> fs = [] \<and> tasking_finished w)"

text \<open>The main program keeps its objects after it has left.\<close>

definition shown :: "sys \<Rightarrow> sys" where
  "shown z = z\<lparr>stacks := (stacks z)[0 := [Main_Program]]\<rparr>"

text \<open>
  A worker waits as long as its parent has not run the exit action. There is memory for every notification that is left.
\<close>

definition asleep :: "(nat \<Rightarrow> stage) \<Rightarrow> nat \<Rightarrow> nat set" where
  "asleep S n = {i. 0 < i \<and> i < n \<and> S i = Asleep}"

definition exiting :: "env \<Rightarrow> config \<Rightarrow> addr \<Rightarrow> addr set \<Rightarrow> (nat \<Rightarrow> own) \<Rightarrow> addr list list \<Rightarrow> (nat \<Rightarrow> stage) \<Rightarrow> sys \<Rightarrow> bool" where
  "exiting env cfg r A G U S z \<longleftrightarrow> (let N = num_workers (mem z); n = nat N in
     chans_ok (mem z) \<and> no_requests (mem z) \<and> length (workers z) = n \<and> length (stacks z) = n \<and> sys_owned r A G U (shown z) \<and>
     (\<forall>i < n. ID (workers z ! i) = int i \<and> idle_worker cfg N (workers z ! i)) \<and> master_ok (mem z) (stacks z ! 0) (workers z ! 0) \<and>
     (\<forall>i. 0 < i \<longrightarrow> i < n \<longrightarrow> at_stage env cfg (mem z) i (stacks z ! i) (workers z ! i) (S i) \<and>
       (S i = Asleep \<longleftrightarrow> \<not> tasking_finished (workers z ! ((i - 1) div 2)))) \<and>
     card (asleep S n) \<le> length (mallocs (mem z)))"

lemma exitingD:
  assumes "exiting env cfg r A G U S z"
  shows "chans_ok (mem z)" "no_requests (mem z)" "length (workers z) = nat (num_workers (mem z))" "length (stacks z) = length (workers z)"
    "sys_owned r A G U (shown z)" "\<And>i. i < length (workers z) \<Longrightarrow> ID (workers z ! i) = int i"
    "\<And>i. i < length (workers z) \<Longrightarrow> idle_worker cfg (num_workers (mem z)) (workers z ! i)"
    "master_ok (mem z) (stacks z ! 0) (workers z ! 0)"
    "\<And>i. 0 < i \<Longrightarrow> i < length (workers z) \<Longrightarrow> at_stage env cfg (mem z) i (stacks z ! i) (workers z ! i) (S i)"
    "\<And>i. 0 < i \<Longrightarrow> i < length (workers z) \<Longrightarrow> S i = Asleep \<longleftrightarrow> \<not> tasking_finished (workers z ! ((i - 1) div 2))"
    "card (asleep S (length (workers z))) \<le> length (mallocs (mem z))" "1 \<le> num_workers (mem z)" "0 < length (workers z)"
  using assms chans_okD(1) [of "mem z"] by (auto simp: exiting_def Let_def)

text \<open>What worker \<open>i\<close> has in its hands.\<close>

lemma exiting_owned:
  assumes e: "exiting env cfg r A G U S z" and i: "i < length (workers z)"
  shows "holding (root_of r i) (area A G (workers z) i) (G i) (U ! i) (if i = 0 then [Main_Program] else stacks z ! i) (workers z ! i, mem z)"
    "g_chan (G i) = g_chan (G 0)"
  using exitingD(5) [OF e] i exitingD(4) [OF e] by (auto simp: sys_owned_def shown_def)

text \<open>The tasks of other workers are safe from what a worker does.\<close>

lemma others_tasks:
  assumes e: "exiting env cfg r A G U S z" and i: "i < length (workers z)" and j: "0 < j" "j < length (workers z)" "j \<noteq> i"
    and mv: "moved (area A G (workers z) i) (G i) (workers z ! i, mem z) g' (w, sh)"
    and k: "\<forall>a \<in> set (concat (g_chan (G i))). task_mem sh a = task_mem (mem z) a" and x: "task_of (S j) = Some x"
  shows "task_mem sh x = task_mem (mem z) x"
proof -
  note E = exitingD [OF e] and h = exiting_owned [OF e j(2)]
  have o: "owned (area A G (workers z) j) (G j) (workers z ! j, mem z)" using h(1) by (simp add: holding_def)
  note st = E(9) [OF j(1,2)]
  have foot: "task_mem sh a = task_mem (mem z) a" if "a \<in> set (foot (G j) (workers z ! j))" for a
    using mv area_disjoint [OF j(2,3), of G A] that by (auto simp: moved_def)
  consider "S j = Notified x" | "S j = Accepting x" | "S j = Running x" using x by (cases "S j") auto
  then show ?thesis
  proof cases
    case 1
    then have "chan_tasks (mem z) ! j = [[x]]" using st by simp
    from message_owned [OF o _ this] have "x \<in> set (concat (g_chan (G j)))" using j(2) E(3) by simp
    then show ?thesis using k exiting_owned(2) [OF e i] h(2) by auto
  next
    case 2
    then have "stacks z ! j = [Schedule (Accept x)]" using st by simp
    then have "x \<in> set (g_acc (G j))" using h(1) j(1) by (cases "g_acc (G j)") (auto simp: holding_def)
    then show ?thesis using foot by (simp add: foot_def)
  next
    case 3
    then have "stacks z ! j = [Code x, Schedule (Resume x NULL True)]" using st by simp
    then have "x \<in># mset (g_hand (G j))" using h(1) j(1) by (simp add: holding_def)
    then show ?thesis using foot by (simp add: foot_def)
  qed
qed

lemma kids_asleep:
  assumes e: "exiting env cfg r A G U S z" and i: "i < length (workers z)" and nf: "\<not> tasking_finished (workers z ! i)"
    and k: "j \<in> kids (num_workers (mem z)) (int i)"
  shows "0 < j" "j < length (workers z)" "S j = Asleep" "(j - 1) div 2 = i"
proof -
  note E = exitingD [OF e]
  show j: "0 < j" "j < length (workers z)" "(j - 1) div 2 = i" using k kids_parent [of "int i" j "num_workers (mem z)"] E(3) by auto
  then show "S j = Asleep" using E(10) [OF j(1,2)] nf by simp
qed

text \<open>The stages of the other workers after a step that notifies the workers \<open>cs\<close>.\<close>

lemma others_stages:
  assumes e: "exiting env cfg r A G U S z" and i: "i < length (workers z)" and j: "0 < j" "j < length (workers z)" "j \<noteq> i"
    and mv: "moved (area A G (workers z) i) (G i) (workers z ! i, mem z) g' (w, sh)"
    and k: "\<forall>a \<in> set (concat (g_chan (G i))). task_mem sh a = task_mem (mem z) a"
    and ch: "j \<notin> cs \<longrightarrow> chan_tasks sh ! j = chan_tasks (mem z) ! j \<and> signals sh ! j = signals (mem z) ! j"
    and cs: "j \<in> cs \<longrightarrow> S j = Asleep \<and> (\<exists>x. chan_tasks sh ! j = [[x]] \<and> exit_task env cfg (task_mem sh) x) \<and> (BACKOFF cfg = Wait_Cond \<longrightarrow> signals sh ! j)"
  shows "at_stage env cfg sh j (stacks z ! j) (workers z ! j) (if j \<in> cs then Notified (hd (hd (chan_tasks sh ! j))) else S j)"
proof (cases "j \<in> cs")
  case True
  note E = exitingD [OF e]
  have "spare cfg (workers z ! j)" by (rule idle_workerD(4) [OF E(7) [OF j(2)]])
  then have "blocked (workers z ! j) \<longrightarrow> signals sh ! j" using cs True by (auto simp: spare_def)
  moreover have "at_stage env cfg (mem z) j (stacks z ! j) (workers z ! j) Asleep" using E(9) [OF j(1,2)] cs True by simp
  ultimately show ?thesis using True cs by auto
next
  case False
  have "at_stage env cfg sh j (stacks z ! j) (workers z ! j) (S j)"
    by (rule at_stage_frame [OF exitingD(9) [OF e j(1,2)]]) (use ch False others_tasks [OF e i j mv k] in auto)
  then show ?thesis using False by simp
qed

text \<open>A step of worker \<open>i\<close> that notifies the workers \<open>cs\<close> takes the system from one such state to another.\<close>

lemma exiting_step:
  assumes e: "exiting env cfg r A G U S z" and i: "i < length (workers z)"
    and mv: "moved (area A G (workers z) i) (G i) (workers z ! i, mem z) g' (w, sh)"
    and ho: "holding (root_of r i) (area A G (workers z) i) g' (U ! i) (if i = 0 then [Main_Program] else fs) (w, sh)"
    and k: "\<forall>a \<in> set (concat (g_chan (G i))). task_mem sh a = task_mem (mem z) a"
    and w: "ID w = int i" "idle_worker cfg (num_workers (mem z)) w" and sh: "chans_ok sh" "no_requests sh"
    and ch: "\<forall>j. j \<noteq> i \<longrightarrow> j \<notin> cs \<longrightarrow> chan_tasks sh ! j = chan_tasks (mem z) ! j \<and> signals sh ! j = signals (mem z) ! j"
    and cs: "\<forall>j \<in> cs. (\<exists>x. chan_tasks sh ! j = [[x]] \<and> exit_task env cfg (task_mem sh) x) \<and> (BACKOFF cfg = Wait_Cond \<longrightarrow> signals sh ! j)"
    and fin: "cs = {} \<and> tasking_finished w = tasking_finished (workers z ! i) \<or>
      cs = kids (num_workers (mem z)) (int i) \<and> \<not> tasking_finished (workers z ! i) \<and> tasking_finished w"
    and st: "if i = 0 then master_ok sh fs w else at_stage env cfg sh i fs w st" "0 < i \<Longrightarrow> st = Asleep \<longleftrightarrow> S i = Asleep"
    and ms: "length (mallocs (mem z)) \<le> length (mallocs sh) + card cs"
  shows "\<exists>G' U' S'. exiting env cfg r A G' U' S' \<lparr>stacks = (stacks z)[i := fs], workers = (workers z)[i := w], mem = sh\<rparr> \<and>
    (0 < i \<longrightarrow> S' i = st) \<and> (\<forall>j. j \<noteq> i \<longrightarrow> j \<notin> cs \<longrightarrow> S' j = S j)"
proof -
  note E = exitingD [OF e]
  let ?n = "length (workers z)" and ?N = "num_workers (mem z)"
  let ?z = "\<lparr>stacks = (stacks z)[i := fs], workers = (workers z)[i := w], mem = sh\<rparr>"
  have nw: "num_workers sh = ?N" using mv by (simp add: moved_def)
  let ?fs = "if i = 0 then [Main_Program] else fs"
  have "sys_owned r A (\<lambda>j. if j = i then g' else (G j)\<lparr>g_chan := g_chan g'\<rparr>) (U[i := U ! i])
      \<lparr>stacks = (stacks (shown z))[i := ?fs], workers = (workers (shown z))[i := w], mem = sh\<rparr>"
    by (rule sys_owned_step [OF E(5)]) (use i mv ho E(4) in \<open>simp_all add: shown_def\<close>)
  moreover have "(stacks (shown z))[i := ?fs] = ((stacks z)[i := fs])[0 := [Main_Program]]"
    by (cases "i = 0") (simp_all add: shown_def list_update_swap)
  ultimately obtain G' where own: "sys_owned r A G' U (shown ?z)" by (auto simp: shown_def)
  have kid: "0 < j \<and> j < ?n \<and> j \<noteq> i \<and> S j = Asleep \<and> (j - 1) div 2 = i" if "j \<in> cs" for j
  proof -
    have k: "j \<in> kids ?N (int i)" "\<not> tasking_finished (workers z ! i)" using fin that by auto
    note K = kids_asleep [OF e i k(2,1)]
    then have "j \<noteq> i" by linarith
    then show ?thesis using K by simp
  qed
  define S' where "S' = (\<lambda>j. if j = i then st else if j \<in> cs then Notified (hd (hd (chan_tasks sh ! j))) else S j)"
  have stage: "at_stage env cfg sh j ((stacks z)[i := fs] ! j) ((workers z)[i := w] ! j) (S' j)" if j: "0 < j" "j < ?n" for j
  proof (cases "j = i")
    case True
    then show ?thesis using st(1) i E(4) j(1) by (simp add: S'_def)
  next
    case False
    have "at_stage env cfg sh j (stacks z ! j) (workers z ! j) (if j \<in> cs then Notified (hd (hd (chan_tasks sh ! j))) else S j)"
      by (rule others_stages [OF e i j False mv k]) (use ch cs kid False in auto)
    then show ?thesis using False by (simp add: S'_def)
  qed
  have parent: "S' j = Asleep \<longleftrightarrow> \<not> tasking_finished ((workers z)[i := w] ! ((j - 1) div 2))" if j: "0 < j" "j < ?n" for j
  proof -
    have p: "(j - 1) div 2 < ?n" "(j - 1) div 2 \<noteq> j" using j by linarith+
    have kids: "j \<in> kids ?N (int i) \<longleftrightarrow> (j - 1) div 2 = i" using kids_parent [of "int i" j ?N] j E(3) by auto
    have "S' j = Asleep \<longleftrightarrow> S j = Asleep \<and> j \<notin> cs" using st(2) kid [of j] j(1) by (auto simp: S'_def)
    then show ?thesis using E(10) [OF j] fin kids p i by (cases "(j - 1) div 2 = i") auto
  qed
  have "asleep S' ?n = asleep S ?n - cs" using kid st(2) by (auto simp: asleep_def S'_def)
  moreover have "cs \<subseteq> asleep S ?n" "finite (asleep S ?n)" using kid by (auto simp: asleep_def)
  ultimately have "card (asleep S' ?n) + card cs = card (asleep S ?n)"
    by (metis card_Diff_subset card_mono finite_subset le_add_diff_inverse2)
  then have mal: "card (asleep S' ?n) \<le> length (mallocs sh)" using E(11) ms by linarith
  have id: "ID ((workers z)[i := w] ! j) = int j \<and> idle_worker cfg ?N ((workers z)[i := w] ! j)" if "j < ?n" for j
    using E(6,7) w that i by (cases "j = i") auto
  have "master_ok sh ((stacks z)[i := fs] ! 0) ((workers z)[i := w] ! 0)"
  proof (cases "i = 0")
    case True
    then show ?thesis using st(1) i E(4) by simp
  next
    case False
    have "0 \<notin> cs" using kid by blast
    then have "chan_tasks sh ! 0 = chan_tasks (mem z) ! 0" using ch False by simp
    then show ?thesis using E(8) False by (simp add: master_ok_def)
  qed
  then have "exiting env cfg r A G' U S' ?z"
    using own stage parent mal id sh nw E(3,4) by (simp add: exiting_def Let_def)
  then show ?thesis by (intro exI conjI) (auto simp: S'_def)
qed

section \<open>The steps of the shutdown\<close>

text \<open>The exit action succeeds wherever it is run.\<close>

lemma notified_worker:
  assumes n: "notified env cfg cs B g (w, sh) g' (w', sh')" and g: "owned B g (w, sh)"
  shows "ID w' = ID w" "current_task w' = current_task w" "blocked w' = blocked w" "tasking_finished w' = tasking_finished w"
    "idle_worker cfg N w' = idle_worker cfg N w"
proof -
  have o: "owned B g' (w', sh')" "g_dq g' = g_dq g" and e: "w' = w\<lparr>deque := deque w'\<rparr>" using n by (simp_all add: notified_def moved_def)
  show f: "ID w' = ID w" "current_task w' = current_task w" "blocked w' = blocked w" "tasking_finished w' = tasking_finished w"
    by (subst e, simp)+
  have "deque_empty (deque w') = deque_empty (deque w)"
    using deque_empty_rel [OF ownedD(1) [OF o(1)]] deque_empty_rel [OF ownedD(1) [OF g]] o(2) by simp
  then show "idle_worker cfg N w' = idle_worker cfg N w"
    by (intro idle_worker_cong) (subst e, simp)+
qed

lemma exit_action_runs:
  assumes e: "exiting env cfg r A G U S z" and i: "i < length (workers z)" and nf: "\<not> tasking_finished (workers z ! i)"
    and q: "i = 0 \<longrightarrow> quiescent (workers z ! i)" and acc: "g_acc (G i) = []"
  shows "\<exists>g' w sh. RT_EXIT_FN env cfg (workers z ! i, mem z) = Some (w, sh) \<and>
    moved (area A G (workers z) i) (G i) (workers z ! i, mem z) g' (w, sh) \<and> g_hand g' = g_hand (G i) \<and> g_acc g' = [] \<and>
    (\<forall>a \<in> set (concat (g_chan (G i))). task_mem sh a = task_mem (mem z) a) \<and>
    ID w = int i \<and> idle_worker cfg (num_workers (mem z)) w \<and> chans_ok sh \<and> no_requests sh \<and> tasking_finished w \<and>
    blocked w = blocked (workers z ! i) \<and> current_task w = current_task (workers z ! i) \<and>
    (\<forall>j. j \<notin> kids (num_workers (mem z)) (int i) \<longrightarrow> chan_tasks sh ! j = chan_tasks (mem z) ! j \<and> signals sh ! j = signals (mem z) ! j) \<and>
    (\<forall>j \<in> kids (num_workers (mem z)) (int i). (\<exists>x. chan_tasks sh ! j = [[x]] \<and> exit_task env cfg (task_mem sh) x) \<and>
      (BACKOFF cfg = Wait_Cond \<longrightarrow> signals sh ! j)) \<and>
    length (mallocs (mem z)) \<le> length (mallocs sh) + card (kids (num_workers (mem z)) (int i))"
proof -
  note E = exitingD [OF e]
  let ?w = "workers z ! i" and ?N = "num_workers (mem z)" and ?B = "area A G (workers z) i" and ?n = "length (workers z)"
  note W = idle_workerD [OF E(7) [OF i]] and id = E(6) [OF i]
  have o: "owned ?B (G i) (?w, mem z)" using exiting_owned(1) [OF e i] by (simp add: holding_def)
  note kid = kids_asleep [OF e i nf]
  have empty: "\<forall>c \<in> kids ?N (int i). chan_tasks (mem z) ! c = [[]]" using E(9) [OF kid(1,2)] kid(3) by fastforce
  have "kids ?N (int i) \<subseteq> asleep S ?n" "finite (asleep S ?n)" using kid by (auto simp: asleep_def)
  then have "card (kids ?N (int i)) \<le> length (mallocs (mem z))" using card_mono E(11) le_trans by blast
  from RT_EXIT_FN_ok [OF o acc W(5,2) nf _ E(1), of env cfg] this empty q id obtain g' w1 sh where
    x: "RT_EXIT_FN env cfg (?w, mem z) =
      Some ((if ID ?w \<noteq> 0 then w1\<lparr>num_tasks_exec := num_tasks_exec ?w - 1\<rparr> else w1)\<lparr>tasking_finished := True\<rparr>, sh)"
    and n: "notified env cfg (kids ?N (int i)) ?B (G i) (?w, mem z) g' (w1, sh)" by auto
  let ?w' = "(if ID ?w \<noteq> 0 then w1\<lparr>num_tasks_exec := num_tasks_exec ?w - 1\<rparr> else w1)\<lparr>tasking_finished := True\<rparr>"
  note V = notified_worker [OF n o] and D = n [unfolded notified_def, simplified]
  have m1: "moved ?B (G i) (?w, mem z) g' (w1, sh)" using D by simp
  have m: "moved ?B (G i) (?w, mem z) g' (?w', sh)"
    by (rule moved_trans [OF m1 control_moved [OF moved_owned [OF m1]]]) simp_all
  have "idle_worker cfg ?N ?w' = idle_worker cfg ?N w1" by (rule idle_worker_cong) simp_all
  then have iw: "idle_worker cfg ?N ?w'" using V(5) E(7) [OF i] by simp
  have "length (chan_tasks sh ! j) = 1" if "j < nat ?N" for j
    using D chans_okD(5) [OF E(1) that] by (cases "j \<in> kids ?N (int i)") auto
  then have ch: "chans_ok sh" "no_requests sh"
    using D E(1,2) by (simp_all add: chans_ok_def no_requests_def Let_def)
  show ?thesis using x m D iw ch V id by (intro exI [of _ g'] exI [of _ ?w'] exI [of _ sh]) auto
qed

text \<open>The main program starts the exit action.\<close>

lemma master_exits:
  assumes e: "exiting env cfg r A G U S z" and s: "stacks z ! 0 = [Main_Program]"
  shows "\<exists>w sh G' U' S'. RT_EXIT_FN env cfg (workers z ! 0, mem z) = Some (w, sh) \<and>
    exiting env cfg r A G' U' S' \<lparr>stacks = (stacks z)[0 := []], workers = (workers z)[0 := w], mem = sh\<rparr> \<and>
    (\<forall>j. 0 < j \<longrightarrow> S j \<noteq> Asleep \<longrightarrow> S' j = S j)"
proof -
  note E = exitingD [OF e]
  have i: "0 < length (workers z)" by (rule E(13))
  have mo: "\<not> tasking_finished (workers z ! 0)" "quiescent (workers z ! 0)" "\<not> blocked (workers z ! 0)" "chan_tasks (mem z) ! 0 = [[]]"
    using E(8) s by (auto simp: master_ok_def)
  note h = exiting_owned [OF e i]
  have acc: "g_acc (G 0) = []" using h(1) by (simp add: holding_def)
  from exit_action_runs [OF e i mo(1) _ acc] mo(2) obtain g' w sh where x: "RT_EXIT_FN env cfg (workers z ! 0, mem z) = Some (w, sh)"
    and mv: "moved (area A G (workers z) 0) (G 0) (workers z ! 0, mem z) g' (w, sh)" "g_hand g' = g_hand (G 0)" "g_acc g' = []"
    and k: "\<forall>a \<in> set (concat (g_chan (G 0))). task_mem sh a = task_mem (mem z) a"
    and w: "ID w = int 0" "idle_worker cfg (num_workers (mem z)) w" "chans_ok sh" "no_requests sh" "tasking_finished w"
      "blocked w = blocked (workers z ! 0)" "current_task w = current_task (workers z ! 0)"
    and ch: "\<forall>j. j \<notin> kids (num_workers (mem z)) (int 0) \<longrightarrow> chan_tasks sh ! j = chan_tasks (mem z) ! j \<and> signals sh ! j = signals (mem z) ! j"
      "\<forall>j \<in> kids (num_workers (mem z)) (int 0). (\<exists>x. chan_tasks sh ! j = [[x]] \<and> exit_task env cfg (task_mem sh) x) \<and>
        (BACKOFF cfg = Wait_Cond \<longrightarrow> signals sh ! j)"
      "length (mallocs (mem z)) \<le> length (mallocs sh) + card (kids (num_workers (mem z)) (int 0))"
    by (auto simp del: set_concat)
  have ho: "holding (root_of r 0) (area A G (workers z) 0) g' (U ! 0) (if 0 = (0 :: nat) then [Main_Program] else []) (w, sh)"
    using h(1) mv w(7) by (auto simp: holding_def moved_def)
  have "0 \<notin> kids (num_workers (mem z)) (int 0)" by (simp add: kids_def)
  then have "master_ok sh [] w" using mo ch(1) w(5,6) by (simp add: master_ok_def)
  then obtain G' U' S' where "exiting env cfg r A G' U' S' \<lparr>stacks = (stacks z)[0 := []], workers = (workers z)[0 := w], mem = sh\<rparr>"
    "\<forall>j. j \<noteq> 0 \<longrightarrow> j \<notin> kids (num_workers (mem z)) (int 0) \<longrightarrow> S' j = S j"
    using exiting_step [OF e i mv(1) ho k w(1-4) _ ch(2) _ _ _ ch(3), of Asleep] ch(1) w(5) mo(1) by auto
  moreover have "j \<notin> kids (num_workers (mem z)) (int 0)" if "S j \<noteq> Asleep" for j
    using that kids_asleep(3) [OF e i mo(1)] by blast
  ultimately show ?thesis using x by blast
qed

text \<open>A worker thread runs the exit action.\<close>

lemma worker_exits:
  assumes e: "exiting env cfg r A G U S z" and i: "0 < i" "i < length (workers z)" and s: "S i = Running x"
  shows "\<exists>w sh G' U' S'. RT_EXIT_FN env cfg (workers z ! i, mem z) = Some (w, sh) \<and>
    exiting env cfg r A G' U' S' \<lparr>stacks = (stacks z)[i := [Schedule (Resume x NULL True)]], workers = (workers z)[i := w], mem = sh\<rparr> \<and>
    S' i = Returned x \<and> (\<forall>j. j \<noteq> i \<longrightarrow> S j \<noteq> Asleep \<longrightarrow> S' j = S j)"
proof -
  note E = exitingD [OF e]
  have st: "stacks z ! i = [Code x, Schedule (Resume x NULL True)]" "chan_tasks (mem z) ! i = [[]]" "\<not> blocked (workers z ! i)"
    "\<not> tasking_finished (workers z ! i)" using E(9) [OF i] s by auto
  note h = exiting_owned [OF e i(2)]
  have acc: "g_acc (G i) = []" using h(1) st(1) i(1) by (simp add: holding_def)
  from exit_action_runs [OF e i(2) st(4) _ acc] i(1) obtain g' w sh where x: "RT_EXIT_FN env cfg (workers z ! i, mem z) = Some (w, sh)"
    and mv: "moved (area A G (workers z) i) (G i) (workers z ! i, mem z) g' (w, sh)" "g_hand g' = g_hand (G i)" "g_acc g' = []"
    and k: "\<forall>a \<in> set (concat (g_chan (G i))). task_mem sh a = task_mem (mem z) a"
    and w: "ID w = int i" "idle_worker cfg (num_workers (mem z)) w" "chans_ok sh" "no_requests sh" "tasking_finished w"
      "blocked w = blocked (workers z ! i)" "current_task w = current_task (workers z ! i)"
    and ch: "\<forall>j. j \<notin> kids (num_workers (mem z)) (int i) \<longrightarrow> chan_tasks sh ! j = chan_tasks (mem z) ! j \<and> signals sh ! j = signals (mem z) ! j"
      "\<forall>j \<in> kids (num_workers (mem z)) (int i). (\<exists>x. chan_tasks sh ! j = [[x]] \<and> exit_task env cfg (task_mem sh) x) \<and>
        (BACKOFF cfg = Wait_Cond \<longrightarrow> signals sh ! j)"
      "length (mallocs (mem z)) \<le> length (mallocs sh) + card (kids (num_workers (mem z)) (int i))"
    by (auto simp del: set_concat)
  let ?fs = "[Schedule (Resume x NULL True)]"
  have ho: "holding (root_of r i) (area A G (workers z) i) g' (U ! i) (if i = 0 then [Main_Program] else ?fs) (w, sh)"
    using h(1) mv w(7) st(1) i(1) by (auto simp: holding_def moved_def top_task_def)
  have "i \<notin> kids (num_workers (mem z)) (int i)" using i(1) by (simp add: kids_def)
  then have stg: "at_stage env cfg sh i ?fs w (Returned x)" using st ch(1) w(5,6) by simp
  then obtain G' U' S' where "exiting env cfg r A G' U' S' \<lparr>stacks = (stacks z)[i := ?fs], workers = (workers z)[i := w], mem = sh\<rparr>"
    "S' i = Returned x" "\<forall>j. j \<noteq> i \<longrightarrow> j \<notin> kids (num_workers (mem z)) (int i) \<longrightarrow> S' j = S j"
    using exiting_step [OF e i(2) mv(1) ho k w(1-4) _ ch(2) _ _ _ ch(3), of "Returned x"] ch(1) w(5) st(4) i(1) s by auto
  moreover have "j \<notin> kids (num_workers (mem z)) (int i)" if "S j \<noteq> Asleep" for j
    using that kids_asleep(3) [OF e i(2) st(4)] by blast
  ultimately show ?thesis using x by blast
qed

text \<open>A step in which a worker notifies nobody.\<close>

lemma exiting_quiet:
  assumes e: "exiting env cfg r A G U S z" and i: "0 < i" "i < length (workers z)"
    and mv: "moved (area A G (workers z) i) (G i) (workers z ! i, mem z) g' (w, sh)"
    and ho: "holding (root_of r i) (area A G (workers z) i) g' (U ! i) fs (w, sh)"
    and k: "\<forall>a \<in> set (concat (g_chan (G i))). task_mem sh a = task_mem (mem z) a"
    and w: "ID w = int i" "idle_worker cfg (num_workers (mem z)) w" "tasking_finished w = tasking_finished (workers z ! i)"
    and sh: "chan_requests sh = chan_requests (mem z)" "chan_tasks sh = (chan_tasks (mem z))[i := [q]]" "signals sh = signals (mem z)"
      "mallocs sh = mallocs (mem z)"
    and st: "at_stage env cfg sh i fs w st" "st = Asleep \<longleftrightarrow> S i = Asleep"
    and z': "z' = \<lparr>stacks = (stacks z)[i := fs], workers = (workers z)[i := w], mem = sh\<rparr>"
  shows "\<exists>G' U' S'. exiting env cfg r A G' U' S' z' \<and> S' i = st \<and> (\<forall>j. j \<noteq> i \<longrightarrow> S' j = S j)"
proof -
  note E = exitingD [OF e]
  have n: "num_workers sh = num_workers (mem z)" using mv by (simp add: moved_def)
  have l: "length (chan_tasks sh ! j) = 1" if "j < nat (num_workers sh)" for j
    using chans_okD(3) [OF E(1)] chans_okD(5) [OF E(1), of j] that n sh(2) by (cases "j = i") auto
  have ok: "chans_ok sh" "no_requests sh" using E(1,2) l n sh by (simp_all add: chans_ok_def no_requests_def Let_def)
  have c: "\<forall>j. j \<noteq> i \<longrightarrow> j \<notin> {} \<longrightarrow> chan_tasks sh ! j = chan_tasks (mem z) ! j \<and> signals sh ! j = signals (mem z) ! j" using sh by simp
  show ?thesis using exiting_step [where cs = "{}" and fs = fs and st = st, OF e i(2) mv _ k w(1,2) ok c] ho w(3) st i(1) sh(4)
    unfolding z' by simp
qed

lemma stage_facts:
  assumes e: "exiting env cfg r A G U S z" and i: "0 < i" "i < length (workers z)"
  shows "owned (area A G (workers z) i) (G i) (workers z ! i, mem z)" "i < nat (num_workers (mem z))" "i < length (chan_tasks (mem z))"
    "holding (root_of r i) (area A G (workers z) i) (G i) (U ! i) (stacks z ! i) (workers z ! i, mem z)"
    "chan_tasks (mem z) ! i = [q] \<Longrightarrow> chan_tasks (mem z) = (chan_tasks (mem z))[i := [q]]"
proof -
  show "holding (root_of r i) (area A G (workers z) i) (G i) (U ! i) (stacks z ! i) (workers z ! i, mem z)"
    using exiting_owned(1) [OF e i(2)] i by simp
  then show "owned (area A G (workers z) i) (G i) (workers z ! i, mem z)" by (simp add: holding_def)
  show "i < nat (num_workers (mem z))" "i < length (chan_tasks (mem z))" using i exitingD(1,3) [OF e] chans_okD(3) [of "mem z"] by auto
  show "chan_tasks (mem z) ! i = [q] \<Longrightarrow> chan_tasks (mem z) = (chan_tasks (mem z))[i := [q]]" by (metis list_update_id)
qed

text \<open>Waiting changes nothing, and a worker that has been notified can wake up.\<close>

lemma waits_on:
  assumes e: "exiting env cfg r A G U S z" and i: "0 < i" "i < length (workers z)" and cfg: "MAXSTEAL cfg = 1"
    and s: "S i = Asleep \<or> stacks z ! i = [Schedule Decline]" "stacks z ! i = [Schedule pc]" "receiving (stacks z ! i)"
  shows "\<exists>pc' G' U' S'. schedule_step env cfg pc (workers z ! i, mem z) = Some (pc', None, workers z ! i, mem z) \<and>
    exiting env cfg r A G' U' S' (z\<lparr>stacks := (stacks z)[i := [Schedule pc']]\<rparr>) \<and> (\<forall>j. S' j = S j) \<and> (pc = Decline \<longrightarrow> pc' = Receive)"
proof -
  note E = exitingD [OF e] and F = stage_facts [OF e i]
  let ?w = "workers z ! i"
  have st: "at_stage env cfg (mem z) i (stacks z ! i) ?w (S i)" by (rule E(9) [OF i])
  have step: "schedule_step env cfg pc (?w, mem z) = Some (if pc = Decline then Receive else Decline, None, ?w, mem z)"
  proof (cases "pc = Decline")
    case True
    then show ?thesis using decline_nothing [OF E(7) [OF i(2)] E(1,2)] by (simp add: go_def)
  next
    case False
    then have "pc = Receive" "S i = Asleep" using s by (auto simp: receiving_def)
    then show ?thesis using receive_nothing [OF E(7) [OF i(2)] E(1) cfg] st E(6) [OF i(2)] idle_workerD(3) [OF E(7) [OF i(2)]]
      by (simp add: go_def)
  qed
  let ?fs = "[Schedule (if pc = Decline then Receive else Decline)]" and ?z = "z\<lparr>stacks := (stacks z)[i := [Schedule (if pc = Decline then Receive else Decline)]]\<rparr>"
  have rec: "receiving ?fs" using s by (auto simp: receiving_def)
  obtain q where q: "chan_tasks (mem z) ! i = [q]" using st s(2,3) by (cases "S i") (auto simp: receiving_def)
  have h: "holding (root_of r i) (area A G (workers z) i) (G i) (U ! i) ?fs (?w, mem z)"
    using F(4) s(2,3) by (auto simp: holding_def receiving_def top_task_def)
  have st': "at_stage env cfg (mem z) i ?fs ?w (S i)" using st rec s(2,3) by (cases "S i") (auto simp: receiving_def)
  have z: "?z = \<lparr>stacks = (stacks z)[i := ?fs], workers = (workers z)[i := ?w], mem = mem z\<rparr>" by (cases z) simp
  obtain G' U' S' where x: "exiting env cfg r A G' U' S' ?z" "S' i = S i" "\<forall>j. j \<noteq> i \<longrightarrow> S' j = S j"
    using exiting_quiet [OF e i moved_refl [OF F(1)] h _ E(6) [OF i(2)] E(7) [OF i(2)] refl refl F(5) [OF q] refl refl st' refl z] by blast
  have "\<forall>j. S' j = S j" using x(2,3) by metis
  then show ?thesis using step x(1)
    by (intro exI [of _ "if pc = Decline then Receive else Decline"] exI [of _ G'] exI [of _ U'] exI [of _ S']) simp
qed

lemma wakes:
  assumes e: "exiting env cfg r A G U S z" and i: "0 < i" "i < length (workers z)" and s: "S i = Notified x"
  shows "\<exists>G' U' S'. exiting env cfg r A G' U' S' (z\<lparr>workers := (workers z)[i := (workers z ! i)\<lparr>blocked := False\<rparr>]\<rparr>) \<and> (\<forall>j. S' j = S j)"
proof -
  note E = exitingD [OF e] and F = stage_facts [OF e i]
  let ?w = "(workers z ! i)\<lparr>blocked := False\<rparr>"
  have st: "at_stage env cfg (mem z) i (stacks z ! i) (workers z ! i) (S i)" by (rule E(9) [OF i])
  have m: "moved (area A G (workers z) i) (G i) (workers z ! i, mem z) (G i) (?w, mem z)" by (rule control_moved [OF F(1)]) simp_all
  have h: "holding (root_of r i) (area A G (workers z) i) (G i) (U ! i) (stacks z ! i) (?w, mem z)"
    using F(4) moved_owned [OF m] by (simp add: holding_def)
  have w: "idle_worker cfg (num_workers (mem z)) ?w"
    using E(7) [OF i(2)] by (auto simp: idle_worker_def held_ok_def subtrees_idle_def spare_def tree_ok_def)
  have st': "at_stage env cfg (mem z) i (stacks z ! i) ?w (S i)" and q: "chan_tasks (mem z) ! i = [[x]]" using st s by simp_all
  have z: "z\<lparr>workers := (workers z)[i := ?w]\<rparr> = \<lparr>stacks = (stacks z)[i := stacks z ! i], workers = (workers z)[i := ?w], mem = mem z\<rparr>"
    by (cases z) simp
  have id: "ID ?w = int i" and f: "tasking_finished ?w = tasking_finished (workers z ! i)" using E(6) [OF i(2)] by simp_all
  obtain G' U' S' where x: "exiting env cfg r A G' U' S' (z\<lparr>workers := (workers z)[i := ?w]\<rparr>)" "S' i = S i" "\<forall>j. j \<noteq> i \<longrightarrow> S' j = S j"
    using exiting_quiet [OF e i m h _ id w f refl F(5) [OF q] refl refl st' refl z] by blast
  have "\<forall>j. S' j = S j" using x(2,3) by metis
  then show ?thesis using x(1) by blast
qed

text \<open>A worker that has been notified receives the task, accepts it, runs it and leaves its loop.\<close>

lemma receives:
  assumes e: "exiting env cfg r A G U S z" and i: "0 < i" "i < length (workers z)" and cfg: "MAXSTEAL cfg = 1"
    and s: "S i = Notified x" "stacks z ! i = [Schedule Receive]" "\<not> blocked (workers z ! i)"
  shows "\<exists>w sh G' U' S'. schedule_step env cfg Receive (workers z ! i, mem z) = Some (Accept x, None, w, sh) \<and>
    exiting env cfg r A G' U' S' \<lparr>stacks = (stacks z)[i := [Schedule (Accept x)]], workers = (workers z)[i := w], mem = sh\<rparr> \<and>
    S' i = Accepting x \<and> (\<forall>j. j \<noteq> i \<longrightarrow> S' j = S j)"
proof -
  note E = exitingD [OF e] and F = stage_facts [OF e i]
  let ?w = "workers z ! i" and ?sh = "(mem z)\<lparr>chan_tasks := (chan_tasks (mem z))[i := [[]]]\<rparr>" and ?fs = "[Schedule (Accept x)]"
  have st: "chan_tasks (mem z) ! i = [[x]]" "exit_task env cfg (task_mem (mem z)) x" "requested ?w = 1" "\<not> tasking_finished ?w"
    using E(9) [OF i] s(1) by simp_all
  have id: "nat (ID ?w) = i" using E(6) [OF i(2)] by simp
  obtain w where r: "RECV_TASK (env_rand env) cfg True (?w, mem z) = Some (Some x, w, ?sh)" and w: "idle_worker cfg (num_workers (mem z)) w"
    "ID w = ID ?w" "deque w = deque ?w" "current_task w = current_task ?w" "blocked w = blocked ?w" "tasking_finished w = tasking_finished ?w"
    using receive_exit [OF E(7) [OF i(2)] E(1) cfg st(3), of x "env_rand env" True] st(1) id by auto
  have acc: "g_acc (G i) = []" using F(4) s(2) by (simp add: holding_def)
  obtain us where us: "us \<noteq> []" "hd us = x" and m: "moved (area A G (workers z) i) (G i) (?w, mem z)
      ((G i)\<lparr>g_chan := (g_chan (G i))[i := []], g_acc := us\<rparr>) (?w, ?sh)"
    using receive_moved [OF F(1) acc F(2,3) st(1)] by auto
  let ?g = "(G i)\<lparr>g_chan := (g_chan (G i))[i := []], g_acc := us\<rparr>"
  have m': "moved (area A G (workers z) i) (G i) (?w, mem z) ?g (w, ?sh)"
    by (rule moved_trans [OF m control_moved [OF moved_owned [OF m] w(3,4)]])
  have h: "holding (root_of r i) (area A G (workers z) i) ?g (U ! i) ?fs (w, ?sh)"
    using F(4) moved_owned [OF m'] us s(2) w(4) by (simp add: holding_def top_task_def)
  have stg: "at_stage env cfg ?sh i ?fs w (Accepting x)" using st F(3) w(5,6) s(3) by simp
  have id': "ID w = int i" using w(2) E(6) [OF i(2)] by simp
  have k: "\<forall>a \<in> set (concat (g_chan (G i))). task_mem ?sh a = task_mem (mem z) a" by simp
  have sh: "chan_requests ?sh = chan_requests (mem z)" "chan_tasks ?sh = (chan_tasks (mem z))[i := [[]]]" "signals ?sh = signals (mem z)"
    "mallocs ?sh = mallocs (mem z)" by simp_all
  have ns: "Accepting x = Asleep \<longleftrightarrow> S i = Asleep" using s(1) by simp
  obtain G' U' S' where x: "exiting env cfg r A G' U' S' \<lparr>stacks = (stacks z)[i := ?fs], workers = (workers z)[i := w], mem = ?sh\<rparr>"
    "S' i = Accepting x" "\<forall>j. j \<noteq> i \<longrightarrow> S' j = S j"
    using exiting_quiet [OF e i m' h k id' w(1,6) sh stg ns refl] by blast
  have "schedule_step env cfg Receive (?w, mem z) = Some (Accept x, None, w, ?sh)" using r by (simp add: go_def)
  then show ?thesis using x by blast
qed

lemma accepts:
  assumes e: "exiting env cfg r A G U S z" and i: "0 < i" "i < length (workers z)" and s: "S i = Accepting x"
  shows "\<exists>w G' U' S'. schedule_step env cfg (Accept x) (workers z ! i, mem z) = Some (Resume x NULL True, Some x, w, mem z) \<and>
    exiting env cfg r A G' U' S' \<lparr>stacks = (stacks z)[i := [Code x, Schedule (Resume x NULL True)]], workers = (workers z)[i := w], mem = mem z\<rparr> \<and>
    S' i = Running x \<and> (\<forall>j. j \<noteq> i \<longrightarrow> S' j = S j)"
proof -
  note E = exitingD [OF e] and F = stage_facts [OF e i]
  let ?w = "workers z ! i" and ?fs = "[Code x, Schedule (Resume x NULL True)]"
  have st: "stacks z ! i = [Schedule (Accept x)]" "chan_tasks (mem z) ! i = [[]]" "exit_task env cfg (task_mem (mem z)) x"
    "\<not> blocked ?w" "\<not> tasking_finished ?w"
    using E(9) [OF i] s by simp_all
  have c: "current_task ?w = NULL" using F(4) st(1) i(1) by (simp add: holding_def top_task_def root_of_def)
  obtain w where r: "accept_tasks env cfg x (?w, mem z) = Some (x, w, mem z)" and w: "idle_worker cfg (num_workers (mem z)) w"
    "ID w = ID ?w" "deque w = deque ?w" "current_task w = NULL" "blocked w = blocked ?w" "tasking_finished w = tasking_finished ?w"
    using accept_exit [OF E(7) [OF i(2)] c st(3)] by auto
  obtain vs where vs: "g_acc (G i) = x # vs" using F(4) st(1) by (cases "g_acc (G i)") (auto simp: holding_def)
  obtain t where t: "deref (task_mem (mem z)) x = Some t" "t_next t = NULL" using st(3) by (auto simp: exit_task_def)
  have "hd (vs @ [NULL]) = NULL" using ownedD(4) [OF F(1)] vs t by auto
  moreover have "NULL \<notin> set vs" using ownedD(9,10) [OF F(1)] vs by (auto simp: cells_def places_def besides_def)
  ultimately have a: "g_acc (G i) = [x]" using vs by (cases vs) auto
  let ?g = "(G i)\<lparr>g_acc := [], g_hand := x # g_hand (G i)\<rparr>" and ?w' = "set_current_task x w"
  have m1: "moved (area A G (workers z) i) (G i) (?w, mem z) ?g (?w, mem z)" by (rule acc_hand [OF F(1) a])
  have "owned (area A G (workers z) i) ?g (?w', mem z)"
    using moved_owned [OF m1] w(3) by (simp add: owned_def well_placed_def cells_def set_current_task_def)
  then have m: "moved (area A G (workers z) i) (G i) (?w, mem z) ?g (?w', mem z)" by (simp add: moved_def)
  have h: "holding (root_of r i) (area A G (workers z) i) ?g (U ! i) ?fs (?w', mem z)"
    using F(4) moved_owned [OF m] st(1) i(1) by (simp add: holding_def top_task_def set_current_task_def root_of_def)
  have stg: "at_stage env cfg (mem z) i ?fs ?w' (Running x)" using st w(5,6) by (simp add: set_current_task_def)
  have iw: "idle_worker cfg (num_workers (mem z)) ?w'" using w(1) idle_worker_cong [of ?w' w] by (simp add: set_current_task_def)
  have id: "ID ?w' = int i" and f: "tasking_finished ?w' = tasking_finished ?w" using w(2,6) E(6) [OF i(2)] by (simp_all add: set_current_task_def)
  have ns: "Running x = Asleep \<longleftrightarrow> S i = Asleep" using s by simp
  obtain G' U' S' where x: "exiting env cfg r A G' U' S' \<lparr>stacks = (stacks z)[i := ?fs], workers = (workers z)[i := ?w'], mem = mem z\<rparr>"
    "S' i = Running x" "\<forall>j. j \<noteq> i \<longrightarrow> S' j = S j"
    using exiting_quiet [OF e i m h _ id iw f refl F(5) [OF st(2)] refl refl stg ns refl] by blast
  have "schedule_step env cfg (Accept x) (?w, mem z) = Some (Resume x NULL True, Some x, ?w', mem z)"
    using r w(4) by (simp add: call_task_def run_task_enter_def get_current_task_def)
  then show ?thesis using x by blast
qed

lemma finishes:
  assumes e: "exiting env cfg r A G U S z" and i: "0 < i" "i < length (workers z)" and s: "S i = Returned x"
  shows "\<exists>w sh G' U' S'. schedule_step env cfg (Resume x NULL True) (workers z ! i, mem z) = Some (Leave, None, w, sh) \<and>
    exiting env cfg r A G' U' S' \<lparr>stacks = (stacks z)[i := [Schedule Leave]], workers = (workers z)[i := w], mem = sh\<rparr> \<and>
    S' i = Gone \<and> (\<forall>j. j \<noteq> i \<longrightarrow> S' j = S j)"
proof -
  note E = exitingD [OF e] and F = stage_facts [OF e i]
  let ?w = "workers z ! i" and ?fs = "[Schedule Leave]"
  have st: "stacks z ! i = [Schedule (Resume x NULL True)]" "chan_tasks (mem z) ! i = [[]]" "\<not> blocked ?w" "tasking_finished ?w"
    using E(9) [OF i] s by simp_all
  have hand: "mset (g_hand (G i)) = add_mset x (mset (U ! i))" using F(4) st(1) by (simp add: holding_def)
  then have xh: "x \<in> set (g_hand (G i))" by (simp flip: set_mset_mset)
  obtain w h where r: "finish_task x NULL (?w, mem z) = Some (w, (mem z)\<lparr>task_mem := h\<rparr>)" and w: "idle_worker cfg (num_workers (mem z)) w"
    "ID w = ID ?w" "blocked w = blocked ?w" "tasking_finished w = tasking_finished ?w" and h: "\<forall>a. a \<noteq> x \<longrightarrow> h a = task_mem (mem z) a"
    using finish_exit [OF F(1) xh E(7) [OF i(2)], of NULL] by blast
  let ?sh = "(mem z)\<lparr>task_mem := h\<rparr>" and ?g = "(G i)\<lparr>g_free := x # g_free (G i), g_hand := remove1 x (g_hand (G i))\<rparr>"
  have m: "moved (area A G (workers z) i) (G i) (?w, mem z) ?g (w, ?sh)" and c: "current_task w = NULL"
    using finish_task_conserves [OF r F(1) xh] by simp_all
  have ho: "holding (root_of r i) (area A G (workers z) i) ?g (U ! i) ?fs (w, ?sh)"
    using F(4) moved_owned [OF m] st(1) i(1) hand c by (simp add: holding_def top_task_def root_of_def)
  have "x \<notin> set (concat (g_chan (G i)))" using xh ownedD(8) [OF F(1)] by (auto simp: cells_def places_def besides_def)
  then have k: "\<forall>a \<in> set (concat (g_chan (G i))). task_mem ?sh a = task_mem (mem z) a" using h by auto
  have stg: "at_stage env cfg ?sh i ?fs w Gone" using st w(4) by simp
  have id: "ID w = int i" using w(2) E(6) [OF i(2)] by simp
  have sh: "chan_requests ?sh = chan_requests (mem z)" "chan_tasks ?sh = (chan_tasks (mem z))[i := [[]]]" "signals ?sh = signals (mem z)"
    "mallocs ?sh = mallocs (mem z)" using F(5) [OF st(2)] by simp_all
  have ns: "Gone = Asleep \<longleftrightarrow> S i = Asleep" using s by simp
  obtain G' U' S' where x: "exiting env cfg r A G' U' S' \<lparr>stacks = (stacks z)[i := ?fs], workers = (workers z)[i := w], mem = ?sh\<rparr>"
    "S' i = Gone" "\<forall>j. j \<noteq> i \<longrightarrow> S' j = S j"
    using exiting_quiet [OF e i m ho k id w(1,4) sh stg ns refl] by blast
  have "schedule_step env cfg (Resume x NULL True) (?w, mem z) = Some (Leave, None, w, ?sh)" using r w(4) st(4) by (simp add: go_def)
  then show ?thesis using x by blast
qed

section \<open>Every step keeps the invariant, and the shutdown can always go on\<close>

inductive_cases exit_stepE: "exit_step env cfg (fs, s) (fs', s')"

lemma peek_one: "\<not> peek [[]]" "peek [[x]]"
  by (simp_all add: peek_def)

lemma exits_on:
  assumes e: "exiting env cfg r A G U S z" and i: "i < length (workers z)"
    and x: "exit_step env cfg (stacks z ! i, workers z ! i, mem z) (fs, w, sh)"
  shows "\<exists>G' U' S'. exiting env cfg r A G' U' S' \<lparr>stacks = (stacks z)[i := fs], workers = (workers z)[i := w], mem = sh\<rparr>"
proof -
  note E = exitingD [OF e]
  show ?thesis
  proof (cases "i = 0")
    case True
    then have "stacks z ! 0 = [Main_Program]" using x E(8) by (auto simp: master_ok_def elim: exit_stepE)
    moreover from this have "RT_EXIT_FN env cfg (workers z ! 0, mem z) = Some (w, sh)" "fs = []"
      using x True by (auto simp: RT_async_action_def elim: exit_stepE)
    ultimately show ?thesis using master_exits [OF e] True by auto
  next
    case False
    then have i0: "0 < i" by simp
    have "at_stage env cfg (mem z) i (stacks z ! i) (workers z ! i) (S i)" by (rule E(9) [OF i0 i])
    then obtain y where y: "S i = Running y" "stacks z ! i = [Code y, Schedule (Resume y NULL True)]"
      using x by (cases "S i") (auto simp: receiving_def elim: exit_stepE)
    then have "RT_EXIT_FN env cfg (workers z ! i, mem z) = Some (w, sh)" "fs = [Schedule (Resume y NULL True)]"
      using x by (auto elim: exit_stepE)
    then show ?thesis using worker_exits [OF e i0 i y(1)] by auto
  qed
qed

lemma schedules_on:
  assumes e: "exiting env cfg r A G U S z" and i: "i < length (workers z)" "\<not> blocked (workers z ! i)" and cfg: "MAXSTEAL cfg = 1"
    and fs: "stacks z ! i = Schedule pc # fs" and x: "schedule_step env cfg pc (workers z ! i, mem z) = Some (pc', c, w, sh)"
  shows "\<exists>G' U' S'. exiting env cfg r A G' U' S' \<lparr>stacks = (stacks z)[i := called c (Schedule pc' # fs)], workers = (workers z)[i := w], mem = sh\<rparr>"
proof -
  note E = exitingD [OF e]
  have i0: "0 < i" using E(8) fs by (cases "i = 0") (auto simp: master_ok_def)
  have st: "at_stage env cfg (mem z) i (stacks z ! i) (workers z ! i) (S i)" by (rule E(9) [OF i0 i(1)])
  have wait: ?thesis if asl: "S i = Asleep \<or> stacks z ! i = [Schedule Decline]" and rec: "receiving (stacks z ! i)"
  proof -
    have s: "stacks z ! i = [Schedule pc]" "fs = []" using rec fs by (auto simp: receiving_def)
    obtain G' U' S' where "exiting env cfg r A G' U' S' (z\<lparr>stacks := (stacks z)[i := [Schedule pc']]\<rparr>)" "c = None" "w = workers z ! i" "sh = mem z"
      using waits_on [OF e i0 i(1) cfg asl s(1) rec] x by auto
    moreover have "z\<lparr>stacks := (stacks z)[i := [Schedule pc']]\<rparr> =
        \<lparr>stacks = (stacks z)[i := [Schedule pc']], workers = (workers z)[i := workers z ! i], mem = mem z\<rparr>"
      by (cases z) simp
    ultimately show ?thesis using s(2) unfolding called_def by (metis option.simps(4))
  qed
  show ?thesis
  proof (cases "S i")
    case Asleep
    then show ?thesis using wait st by simp
  next
    case (Notified y)
    then have "receiving (stacks z ! i)" using st by simp
    then consider "stacks z ! i = [Schedule Decline]" | "stacks z ! i = [Schedule Receive]" by (auto simp: receiving_def)
    then show ?thesis
    proof cases
      case 1
      then show ?thesis using wait by (simp add: receiving_def)
    next
      case 2
      then show ?thesis using receives [OF e i0 i(1) cfg Notified 2 i(2)] x fs by (auto simp: called_def)
    qed
  next
    case (Accepting y)
    then show ?thesis using accepts [OF e i0 i(1) Accepting] x fs st by (auto simp: called_def simp del: schedule_step.simps)
  next
    case (Returned y)
    then show ?thesis using finishes [OF e i0 i(1) Returned] x fs st by (auto simp: called_def simp del: schedule_step.simps)
  qed (use st fs x in auto)
qed

theorem exiting_preserved:
  assumes e: "exiting env cfg r A G U S z" and cfg: "MAXSTEAL cfg = 1" and s: "shutdown_step env cfg z z'"
  shows "\<exists>G' U' S'. exiting env cfg r A G' U' S' z'"
  using s
proof cases
  case (Shutdown_Exit i fs w sh)
  then show ?thesis using exits_on [OF e, of i fs w sh] by blast
next
  case (Shutdown_Schedule i pc fs pc' c w sh)
  then show ?thesis using schedules_on [OF e _ _ cfg, of i pc fs pc' c w sh] by blast
next
  case (Shutdown_Wake i)
  note E = exitingD [OF e]
  have i0: "0 < i" using E(8) Shutdown_Wake(3) by (cases "i = 0") (auto simp: master_ok_def)
  have "at_stage env cfg (mem z) i (stacks z ! i) (workers z ! i) (S i)" by (rule E(9) [OF i0 Shutdown_Wake(2)])
  then obtain x where "S i = Notified x" using Shutdown_Wake(3,5) by (cases "S i") (auto simp: peek_one)
  then show ?thesis using wakes [OF e i0 Shutdown_Wake(2)] Shutdown_Wake(1) by blast
qed

text \<open>How far a worker has come, as a number.\<close>

fun rank :: "frame list \<Rightarrow> worker \<Rightarrow> stage \<Rightarrow> nat" where
  "rank fs w Asleep = 0"
| "rank fs w (Notified x) = (if blocked w then 1 else if fs = [Schedule Decline] then 2 else 3)"
| "rank fs w (Accepting x) = 4"
| "rank fs w (Running x) = 5"
| "rank fs w (Returned x) = 6"
| "rank fs w Gone = 7"

definition advanced :: "(nat \<Rightarrow> stage) \<Rightarrow> sys \<Rightarrow> nat" where
  "advanced S z = (if tasking_finished (workers z ! 0) then 1 else 0) +
     (\<Sum>i = 1..<length (workers z). rank (stacks z ! i) (workers z ! i) (S i))"

lemma rank_7: "rank fs w st \<le> 7"
  by (cases st) simp_all

lemma rank_frame:
  assumes "at_stage env cfg sh i fs w st" "at_stage env cfg sh' i fs w' st'" "st \<noteq> Asleep" "\<not> blocked w"
  shows "rank fs w' st' \<le> rank fs w st"
  using assms by (cases st; cases st') (auto simp: receiving_def)

lemma advanced_bound: "advanced S z \<le> 1 + 7 * length (workers z)"
proof -
  have "(\<Sum>i = 1..<length (workers z). rank (stacks z ! i) (workers z ! i) (S i)) \<le> (\<Sum>i = 1..<length (workers z). 7)"
    by (intro sum_mono rank_7)
  also have "\<dots> \<le> 7 * length (workers z)" by simp
  finally show ?thesis by (simp add: advanced_def)
qed

text \<open>A worker whose parent has run the exit action is never stuck until it has left its loop.\<close>

lemma advances:
  assumes e: "exiting env cfg r A G U S z" and i: "0 < i" "i < length (workers z)" and cfg: "MAXSTEAL cfg = 1"
    and s: "S i \<noteq> Asleep" "S i \<noteq> Gone"
  shows "\<exists>fs w sh G' U' S'. shutdown_step env cfg z \<lparr>stacks = (stacks z)[i := fs], workers = (workers z)[i := w], mem = sh\<rparr> \<and>
    exiting env cfg r A G' U' S' \<lparr>stacks = (stacks z)[i := fs], workers = (workers z)[i := w], mem = sh\<rparr> \<and>
    (\<forall>j. j \<noteq> i \<longrightarrow> S j \<noteq> Asleep \<longrightarrow> S' j = S j) \<and> rank (stacks z ! i) (workers z ! i) (S i) < rank fs w (S' i)"
proof (cases "S i")
  case (Notified x)
  note E = exitingD [OF e]
  have st: "receiving (stacks z ! i)" "chan_tasks (mem z) ! i = [[x]]" "blocked (workers z ! i) \<longrightarrow> signals (mem z) ! i"
    using E(9) [OF i] Notified by simp_all
  consider "blocked (workers z ! i)" | "\<not> blocked (workers z ! i)" "stacks z ! i = [Schedule Decline]"
    | "\<not> blocked (workers z ! i)" "stacks z ! i = [Schedule Receive]" using st(1) by (auto simp: receiving_def)
  then show ?thesis
  proof cases
    case 1
    have z: "z\<lparr>workers := (workers z)[i := (workers z ! i)\<lparr>blocked := False\<rparr>]\<rparr> =
      \<lparr>stacks = (stacks z)[i := stacks z ! i], workers = (workers z)[i := (workers z ! i)\<lparr>blocked := False\<rparr>], mem = mem z\<rparr>" by (cases z) simp
    obtain G' U' S' where x: "exiting env cfg r A G' U' S'
        \<lparr>stacks = (stacks z)[i := stacks z ! i], workers = (workers z)[i := (workers z ! i)\<lparr>blocked := False\<rparr>], mem = mem z\<rparr>" "\<forall>j. S' j = S j"
      using wakes [OF e i Notified] unfolding z by blast
    then show ?thesis using Shutdown_Wake [OF i(2) 1, of env cfg, unfolded z] st(2,3) 1 Notified peek_one(2) [of x] st(1)
      by (intro exI [of _ "stacks z ! i"] exI [of _ "(workers z ! i)\<lparr>blocked := False\<rparr>"] exI [of _ "mem z"] exI [of _ G'] exI [of _ U'] exI [of _ S']) simp
  next
    case 2
    have z: "z\<lparr>stacks := (stacks z)[i := [Schedule Receive]]\<rparr> =
      \<lparr>stacks = (stacks z)[i := [Schedule Receive]], workers = (workers z)[i := workers z ! i], mem = mem z\<rparr>" by (cases z) simp
    obtain G' U' S' where x: "schedule_step env cfg Decline (workers z ! i, mem z) = Some (Receive, None, workers z ! i, mem z)"
      "exiting env cfg r A G' U' S' \<lparr>stacks = (stacks z)[i := [Schedule Receive]], workers = (workers z)[i := workers z ! i], mem = mem z\<rparr>"
      "\<forall>j. S' j = S j" using waits_on [OF e i cfg disjI2 [OF 2(2)] 2(2) st(1)] unfolding z [symmetric] by blast
    then show ?thesis using Shutdown_Schedule [OF i(2) 2(1,2) x(1)] 2 Notified
      by (intro exI [of _ "[Schedule Receive]"] exI [of _ "workers z ! i"] exI [of _ "mem z"] exI [of _ G'] exI [of _ U'] exI [of _ S'])
        (simp add: called_def)
  next
    case 3
    obtain w sh G' U' S' where x: "schedule_step env cfg Receive (workers z ! i, mem z) = Some (Accept x, None, w, sh)"
      "exiting env cfg r A G' U' S' \<lparr>stacks = (stacks z)[i := [Schedule (Accept x)]], workers = (workers z)[i := w], mem = sh\<rparr>"
      "S' i = Accepting x" "\<forall>j. j \<noteq> i \<longrightarrow> S' j = S j" using receives [OF e i cfg Notified 3(2,1)] by blast
    then show ?thesis using Shutdown_Schedule [OF i(2) 3 x(1)] 3 Notified
      by (intro exI [of _ "[Schedule (Accept x)]"] exI [of _ w] exI [of _ sh] exI [of _ G'] exI [of _ U'] exI [of _ S']) (simp add: called_def)
  qed
next
  case (Accepting x)
  have st: "stacks z ! i = [Schedule (Accept x)]" "\<not> blocked (workers z ! i)" using exitingD(9) [OF e i] Accepting by simp_all
  let ?fs = "[Code x, Schedule (Resume x NULL True)]"
  obtain w G' U' S' where x: "schedule_step env cfg (Accept x) (workers z ! i, mem z) = Some (Resume x NULL True, Some x, w, mem z)"
    "exiting env cfg r A G' U' S' \<lparr>stacks = (stacks z)[i := ?fs], workers = (workers z)[i := w], mem = mem z\<rparr>"
    "S' i = Running x" "\<forall>j. j \<noteq> i \<longrightarrow> S' j = S j" using accepts [OF e i Accepting] by blast
  then show ?thesis using Shutdown_Schedule [OF i(2) st(2,1) x(1)] Accepting
    by (intro exI [of _ ?fs] exI [of _ w] exI [of _ "mem z"] exI [of _ G'] exI [of _ U'] exI [of _ S']) (simp add: called_def)
next
  case (Running x)
  have st: "stacks z ! i = [Code x, Schedule (Resume x NULL True)]" "\<not> blocked (workers z ! i)" "exit_task env cfg (task_mem (mem z)) x"
    using exitingD(9) [OF e i] Running by simp_all
  then obtain t where "deref (task_mem (mem z)) x = Some t" "t_fn t = env_exit_fn env" by (auto simp: exit_task_def)
  moreover let ?fs = "[Schedule (Resume x NULL True)]"
  obtain w sh G' U' S' where x: "RT_EXIT_FN env cfg (workers z ! i, mem z) = Some (w, sh)"
    "exiting env cfg r A G' U' S' \<lparr>stacks = (stacks z)[i := ?fs], workers = (workers z)[i := w], mem = sh\<rparr>"
    "S' i = Returned x" "\<forall>j. j \<noteq> i \<longrightarrow> S j \<noteq> Asleep \<longrightarrow> S' j = S j" using worker_exits [OF e i Running] by blast
  ultimately have "exit_step env cfg (stacks z ! i, workers z ! i, mem z) (?fs, w, sh)"
    using Exit_Task [of "(workers z ! i, mem z)" x t env cfg "(w, sh)"] st(1) by simp
  from Shutdown_Exit [OF i(2) st(2) this] show ?thesis using x Running
    by (intro exI [of _ ?fs] exI [of _ w] exI [of _ sh] exI [of _ G'] exI [of _ U'] exI [of _ S']) simp
next
  case (Returned x)
  have st: "stacks z ! i = [Schedule (Resume x NULL True)]" "\<not> blocked (workers z ! i)" using exitingD(9) [OF e i] Returned by simp_all
  obtain w sh G' U' S' where x: "schedule_step env cfg (Resume x NULL True) (workers z ! i, mem z) = Some (Leave, None, w, sh)"
    "exiting env cfg r A G' U' S' \<lparr>stacks = (stacks z)[i := [Schedule Leave]], workers = (workers z)[i := w], mem = sh\<rparr>"
    "S' i = Gone" "\<forall>j. j \<noteq> i \<longrightarrow> S' j = S j" using finishes [OF e i Returned] by blast
  then show ?thesis using Shutdown_Schedule [OF i(2) st(2,1) x(1)] Returned
    by (intro exI [of _ "[Schedule Leave]"] exI [of _ w] exI [of _ sh] exI [of _ G'] exI [of _ U'] exI [of _ S']) (simp add: called_def)
qed (use s in auto)

text \<open>Everybody has run the exit action: the main program is past it, the worker threads have left their loops, and no message is left.\<close>

definition shut_down :: "sys \<Rightarrow> bool" where
  "shut_down z \<longleftrightarrow> stacks z = [] # replicate (length (workers z) - 1) [Schedule Leave] \<and> (\<forall>w \<in> set (workers z). tasking_finished w) \<and>
     take (length (workers z)) (chan_tasks (mem z)) = replicate (length (workers z)) [[]] \<and> no_requests (mem z)"

lemma advanced_less:
  assumes i: "0 < i" "i < length (workers z)" and l: "length (stacks z) = length (workers z)"
    and o: "\<forall>j. j \<noteq> i \<longrightarrow> S j \<noteq> Asleep \<longrightarrow> S' j = S j" and r: "rank (stacks z ! i) (workers z ! i) (S i) < rank fs w (S' i)"
  shows "advanced S z < advanced S' \<lparr>stacks = (stacks z)[i := fs], workers = (workers z)[i := w], mem = sh\<rparr>"
proof -
  let ?n = "length (workers z)"
  have "(\<Sum>j = 1..<?n. rank (stacks z ! j) (workers z ! j) (S j)) <
      (\<Sum>j = 1..<?n. rank ((stacks z)[i := fs] ! j) ((workers z)[i := w] ! j) (S' j))"
  proof (rule sum_strict_mono_ex1)
    show "\<forall>j \<in> {1..<?n}. rank (stacks z ! j) (workers z ! j) (S j) \<le> rank ((stacks z)[i := fs] ! j) ((workers z)[i := w] ! j) (S' j)"
    proof
      fix j assume "j \<in> {1..<?n}"
      show "rank (stacks z ! j) (workers z ! j) (S j) \<le> rank ((stacks z)[i := fs] ! j) ((workers z)[i := w] ! j) (S' j)"
      proof (cases "j = i")
        case True
        then show ?thesis using r i l by simp
      next
        case False
        then show ?thesis using o by (cases "S j = Asleep") simp_all
      qed
    qed
    show "\<exists>j \<in> {1..<?n}. rank (stacks z ! j) (workers z ! j) (S j) < rank ((stacks z)[i := fs] ! j) ((workers z)[i := w] ! j) (S' j)"
      using r i l by (intro bexI [of _ i]) simp_all
  qed simp
  then show ?thesis using i by (simp add: advanced_def)
qed

lemma master_advances:
  assumes e: "exiting env cfg r A G U S z" and s: "stacks z ! 0 = [Main_Program]"
  shows "\<exists>z' G' U' S'. shutdown_step env cfg z z' \<and> exiting env cfg r A G' U' S' z' \<and> length (workers z') = length (workers z) \<and>
    advanced S z < advanced S' z'"
proof -
  note E = exitingD [OF e]
  let ?n = "length (workers z)"
  obtain w sh G' U' S' where x: "RT_EXIT_FN env cfg (workers z ! 0, mem z) = Some (w, sh)" and
    e': "exiting env cfg r A G' U' S' \<lparr>stacks = (stacks z)[0 := []], workers = (workers z)[0 := w], mem = sh\<rparr>" and
    o: "\<forall>j. 0 < j \<longrightarrow> S j \<noteq> Asleep \<longrightarrow> S' j = S j" using master_exits [OF e s] by blast
  let ?z = "\<lparr>stacks = (stacks z)[0 := []], workers = (workers z)[0 := w], mem = sh\<rparr>"
  have m: "\<not> tasking_finished (workers z ! 0)" "\<not> blocked (workers z ! 0)" using E(8) s by (simp_all add: master_ok_def)
  have f: "tasking_finished w" using exitingD(8) [OF e'] E(4,13) by (simp add: master_ok_def)
  have "exit_step env cfg (stacks z ! 0, workers z ! 0, mem z) ([], w, sh)"
    using Exit_Main [of env cfg "(workers z ! 0, mem z)" "(w, sh)"] x s by (simp add: RT_async_action_def)
  then have step: "shutdown_step env cfg z ?z" by (rule Shutdown_Exit [OF E(13) m(2)])
  have "(\<Sum>j = 1..<?n. rank (stacks z ! j) (workers z ! j) (S j)) \<le>
      (\<Sum>j = 1..<?n. rank ((stacks z)[0 := []] ! j) ((workers z)[0 := w] ! j) (S' j))"
  proof (rule sum_mono)
    fix j assume "j \<in> {1..<?n}"
    then show "rank (stacks z ! j) (workers z ! j) (S j) \<le> rank ((stacks z)[0 := []] ! j) ((workers z)[0 := w] ! j) (S' j)"
      using o by (cases "S j = Asleep") simp_all
  qed
  then have "advanced S z < advanced S' ?z" using m(1) f E(13) by (simp add: advanced_def)
  moreover have "length (workers ?z) = ?n" by simp
  ultimately show ?thesis using step e' by blast
qed

text \<open>As long as a worker is left, the first of them has got the exit action.\<close>

lemma next_worker:
  assumes e: "exiting env cfg r A G U S z"
  shows "stacks z ! 0 = [Main_Program] \<or> (\<exists>i. 0 < i \<and> i < length (workers z) \<and> S i \<noteq> Asleep \<and> S i \<noteq> Gone) \<or>
    stacks z ! 0 = [] \<and> (\<forall>i. 0 < i \<longrightarrow> i < length (workers z) \<longrightarrow> S i = Gone)"
proof (cases "stacks z ! 0 = [Main_Program] \<or> (\<forall>i. 0 < i \<longrightarrow> i < length (workers z) \<longrightarrow> S i = Gone)")
  case True
  then show ?thesis using exitingD(8) [OF e] by (auto simp: master_ok_def)
next
  case False
  note E = exitingD [OF e]
  let ?P = "\<lambda>i. 0 < i \<and> i < length (workers z) \<and> S i \<noteq> Gone"
  define i where "i = (LEAST i. ?P i)"
  have "\<exists>i. ?P i" using False by blast
  then have i: "?P i" unfolding i_def by (rule LeastI_ex)
  define p where "p = (i - 1) div 2"
  have p: "p < i" "p < length (workers z)" using i unfolding p_def by linarith+
  have "tasking_finished (workers z ! p)"
  proof (cases "p = 0")
    case True
    then show ?thesis using E(8) False by (auto simp: master_ok_def)
  next
    case False
    then have "S p = Gone" using not_less_Least [of p ?P] p by (auto simp: i_def)
    then show ?thesis using E(9) [of p] False p(2) by simp
  qed
  then have "S i \<noteq> Asleep" using E(10) [of i] i by (simp add: p_def)
  then show ?thesis using i by blast
qed

lemma all_gone:
  assumes e: "exiting env cfg r A G U S z" and s: "stacks z ! 0 = []" "\<forall>i. 0 < i \<longrightarrow> i < length (workers z) \<longrightarrow> S i = Gone"
  shows "shut_down z"
proof -
  note E = exitingD [OF e]
  let ?n = "length (workers z)"
  have g: "stacks z ! i = [Schedule Leave]" "chan_tasks (mem z) ! i = [[]]" "tasking_finished (workers z ! i)" if "0 < i" "i < ?n" for i
    using E(9) [OF that] s(2) that by simp_all
  have m: "chan_tasks (mem z) ! 0 = [[]]" "tasking_finished (workers z ! 0)" using E(8) s(1) by (auto simp: master_ok_def)
  have st: "stacks z = [] # replicate (?n - 1) [Schedule Leave]"
  proof (rule nth_equalityI)
    show "length (stacks z) = length ([] # replicate (?n - 1) [Schedule Leave])" using E(4,13) by simp
    show "stacks z ! i = ([] # replicate (?n - 1) [Schedule Leave]) ! i" if "i < length (stacks z)" for i
      using g(1) [of i] that E(4) s(1) by (cases i) auto
  qed
  have "tasking_finished w" if w: "w \<in> set (workers z)" for w
  proof -
    obtain i where "i < ?n" "w = workers z ! i" using w by (metis in_set_conv_nth)
    then show ?thesis using g(3) [of i] m(2) by (cases "i = 0") auto
  qed
  then have shut: "shut_down z \<longleftrightarrow> take ?n (chan_tasks (mem z)) = replicate ?n [[]]" using st E(2) by (simp add: shut_down_def)
  have "?n \<le> length (chan_tasks (mem z))" using chans_okD(3) [OF E(1)] E(3) by simp
  moreover have "chan_tasks (mem z) ! i = [[]]" if "i < ?n" for i using g(2) [of i] m(1) that by (cases "i = 0") simp_all
  ultimately have "take ?n (chan_tasks (mem z)) = replicate ?n [[]]" by (intro nth_equalityI) simp_all
  then show ?thesis using shut by simp
qed

lemma shutdown_progress:
  assumes e: "exiting env cfg r A G U S z" and cfg: "MAXSTEAL cfg = 1"
  shows "shut_down z \<or> (\<exists>z' G' U' S'. shutdown_step env cfg z z' \<and> exiting env cfg r A G' U' S' z' \<and>
    length (workers z') = length (workers z) \<and> advanced S z < advanced S' z')"
proof -
  note E = exitingD [OF e]
  let ?n = "length (workers z)"
  consider "stacks z ! 0 = [Main_Program]" | i where "0 < i" "i < ?n" "S i \<noteq> Asleep" "S i \<noteq> Gone"
    | "stacks z ! 0 = []" "\<forall>i. 0 < i \<longrightarrow> i < ?n \<longrightarrow> S i = Gone"
    using next_worker [OF e] by blast
  then show ?thesis
  proof cases
    case 1
    then show ?thesis using master_advances [OF e] by blast
  next
    case (2 i)
    obtain fs w sh G' U' S' where x: "shutdown_step env cfg z \<lparr>stacks = (stacks z)[i := fs], workers = (workers z)[i := w], mem = sh\<rparr>"
      "exiting env cfg r A G' U' S' \<lparr>stacks = (stacks z)[i := fs], workers = (workers z)[i := w], mem = sh\<rparr>"
      "\<forall>j. j \<noteq> i \<longrightarrow> S j \<noteq> Asleep \<longrightarrow> S' j = S j" "rank (stacks z ! i) (workers z ! i) (S i) < rank fs w (S' i)"
      using advances [OF e 2(1,2) cfg 2(3,4)] by blast
    have "length (workers \<lparr>stacks = (stacks z)[i := fs], workers = (workers z)[i := w], mem = sh\<rparr>) = ?n" by simp
    then show ?thesis using x(1,2) advanced_less [OF 2(1,2) E(4) x(3,4)] by blast
  next
    case 3
    then show ?thesis using all_gone [OF e] by blast
  qed
qed

lemma shutdown_ends:
  assumes "exiting env cfg r A G U S z" "MAXSTEAL cfg = 1"
  shows "\<exists>z'. (shutdown_step env cfg)\<^sup>*\<^sup>* z z' \<and> shut_down z'"
  using assms(1)
proof (induction "2 + 7 * length (workers z) - advanced S z" arbitrary: z G U S rule: less_induct)
  case less
  from shutdown_progress [OF less.prems assms(2)] show ?case
  proof (elim disjE exE conjE)
    fix z' G' U' S' assume s: "shutdown_step env cfg z z'" "exiting env cfg r A G' U' S' z'" "length (workers z') = length (workers z)"
      "advanced S z < advanced S' z'"
    have "2 + 7 * length (workers z') - advanced S' z' < 2 + 7 * length (workers z) - advanced S z"
      using s(3,4) advanced_bound [of S z] by linarith
    from less.hyps [OF this s(2)] show ?thesis using s(1) by (meson converse_rtranclp_into_rtranclp)
  qed blast
qed

lemma exiting_reached:
  assumes "(shutdown_step env cfg)\<^sup>*\<^sup>* z z'" "MAXSTEAL cfg = 1" "exiting env cfg r A G U S z"
  shows "\<exists>G' U' S'. exiting env cfg r A G' U' S' z'"
  using assms
proof (induction rule: rtranclp_induct)
  case (step y z')
  then show ?case using exiting_preserved by blast
qed blast

section \<open>After the barrier\<close>

text \<open>No request is in a channel when the subtrees of the master are idle and it has sent none itself.\<close>

lemma idle_no_requests:
  assumes inv: "sys_inv cfg z" and m: "subtrees_idle (workers z ! 0)" "requested (workers z ! 0) = 0"
  shows "no_requests (mem z)"
proof -
  let ?N = "num_workers (mem z)" and ?cs = "chan_requests (mem z)"
  have False if r: "r \<in> set (concat ?cs)" for r
  proof -
    obtain q where "q \<in> set ?cs" "r \<in> set q" using r by auto
    then obtain j where j: "j < length ?cs" "r \<in> set (?cs ! j)" by (metis in_set_conv_nth)
    have g: "0 \<le> req_ID r" "req_ID r < ?N" using chans_okD(6) [OF sys_invD(3) [OF inv] j] by (auto simp: good_req_def)
    have t: "tok r \<in># toks (concat ?cs)" using r by (auto simp: in_toks)
    then have c1: "1 \<le> size (filter_mset (\<lambda>t. fst t = req_ID r) (toks (concat ?cs)))"
      using token_count [of "req_ID r" "req_state r"] by (simp add: tok_def)
    show False
    proof (cases "req_ID r = 0")
      case True
      have "int (occupancy (pool z) (answers (mem z)) (int 0)) = requested (workers z ! 0)" by (rule sys_invD(7) [OF inv]) (use g in simp)
      then show False using c1 m(2) True unfolding occupancy_def pool_def filter_union_mset size_union by simp
    next
      case False
      define p where "p = (req_ID r - 1) div 2"
      have p: "0 \<le> p" "p < ?N" "req_ID r = 2 * p + 1 \<or> req_ID r = 2 * p + 2" using g False unfolding p_def by presburger+
      have "subtrees_idle (workers z ! nat p)"
      proof (cases "p = 0")
        case True
        then show ?thesis using m(1) by simp
      next
        case False
        then have "(p, STATE_FAILED) \<in># pool z" using all_failed [OF inv m(1), of p] p by simp
        moreover have "nat p < nat ?N" using p by simp
        ultimately show ?thesis using sys_invD(5,8) [OF inv, of "nat p"] p by (simp add: worker_ok_def)
      qed
      from idle_children [OF inv p(1,2) this p(3) g(2)] have "1 \<le> size (filter_mset (\<lambda>t. fst t = req_ID r) (toks (concat (map held (workers z)))))"
        by (rule token_count)
      then show False using c1 sys_single [OF inv g] unfolding occupancy_def pool_def filter_union_mset size_union by linarith
    qed
  qed
  then show ?thesis unfolding no_requests_def by (metis concat.simps(1) concat_eq_Nil_conv list.set_intros(1) neq_Nil_conv)
qed

lemma exiting_starts:
  assumes t: "tracked env cfg r h" and cfg: "MAXSTEAL cfg = 1" and st: "stacks (now h) ! 0 = [Main_Program]"
    and rest: "rested (workers (now h) ! 0)" and ms: "length (workers (now h)) \<le> length (mallocs (mem (now h))) + 1"
  shows "\<exists>A G U. exiting env cfg r A G U (\<lambda>i. Asleep) (now h)"
proof -
  let ?z = "now h" and ?N = "num_workers (mem (now h))" and ?n = "length (workers (now h))"
  have m: "quiescent (workers ?z ! 0)" "subtrees_idle (workers ?z ! 0)" "deque_empty (deque (workers ?z ! 0))" "requested (workers ?z ! 0) = 0"
    using rest by (simp_all add: rested_def)
  note re = tracked_reachable [OF t]
  note inv = reachable_inv [OF re cfg]
  note I = sys_invD [OF inv]
  obtain A G where so: "sys_owned r A G (unpushed h) ?z" using tracked_balanced [OF t cfg] unfolding balanced_def by blast
  have "(stacks ?z)[0 := [Main_Program]] = stacks ?z" by (metis st list_update_id)
  then have own: "sys_owned r A G (unpushed h) (shown ?z)" using so by (simp add: shown_def)
  have stay: "\<not> tasking_finished (workers ?z ! i)" "spare cfg (workers ?z ! i)" if "i < ?n" for i
    using reachable_stay [OF re] reachable_spare [OF re] that by (auto simp: all_stay_def)
  have idle: "all_idle ?z" by (rule detected_idle [OF inv m(2-4)])
  have sub: "subtrees_idle (workers ?z ! i) \<and> (0 < i \<longrightarrow> requested (workers ?z ! i) = 1)" if i: "i < nat ?N" for i
  proof (cases "i = 0")
    case False
    then have f: "(int i, STATE_FAILED) \<in># pool ?z" using all_failed [OF inv m(2), of "int i"] i by simp
    have "1 \<le> requested (workers ?z ! i)" using I(7) [OF i] token_count [OF f] unfolding occupancy_def by linarith
    then show ?thesis using I(5,6,8) [OF i] f by (auto simp: worker_ok_def held_ok_def)
  qed (use m(2) in simp)
  have w: "ID (workers ?z ! i) = int i \<and> idle_worker cfg ?N (workers ?z ! i)" if i: "i < nat ?N" for i
    using I(2,5,6) i sub [OF i] idle stay(2) [of i] by (simp add: idle_worker_def all_idle_def)
  have n: "0 < ?n" using I(2,4) by simp
  have master: "master_ok (mem ?z) (stacks ?z ! 0) (workers ?z ! 0)"
    using st m(1) stay [OF n] w [of 0] idle n I(2) by (simp add: master_ok_def all_idle_def spare_def)
  have stage: "at_stage env cfg (mem ?z) i (stacks ?z ! i) (workers ?z ! i) Asleep" if "0 < i" "i < nat ?N" for i
    using that idle sub stay(1) [of i] I(2) by (simp add: all_idle_def receiving_def)
  have par: "\<not> tasking_finished (workers ?z ! ((i - 1) div 2))" if "i < nat ?N" for i using stay(1) [of "(i - 1) div 2"] that I(2) by linarith
  have "asleep (\<lambda>i. Asleep) (nat ?N) = {1..<?n}" using I(2) by (auto simp: asleep_def)
  then have "card (asleep (\<lambda>i. Asleep) (nat ?N)) \<le> length (mallocs (mem ?z))" using ms by simp
  then have "exiting env cfg r A G (unpushed h) (\<lambda>i. Asleep) ?z"
    unfolding exiting_def Let_def using I(1-3) own w master stage par idle_no_requests [OF inv m(2,4)] by auto
  then show ?thesis by blast
qed

text \<open>No assertion stops a worker: as long as it is neither asleep nor gone, it can take a step.\<close>

lemma shutdown_unstuck:
  assumes e: "exiting env cfg r A G U S z" and cfg: "MAXSTEAL cfg = 1" and i: "i < length (workers z)" "\<not> blocked (workers z ! i)"
    and s: "stacks z ! i \<noteq> []" "stacks z ! i \<noteq> [Schedule Leave]"
  shows "\<exists>fs w sh. shutdown_step env cfg z \<lparr>stacks = (stacks z)[i := fs], workers = (workers z)[i := w], mem = sh\<rparr> \<and> fs \<noteq> stacks z ! i"
proof (cases "i = 0")
  case True
  then have m: "stacks z ! 0 = [Main_Program]" using exitingD(8) [OF e] s by (auto simp: master_ok_def)
  obtain w sh where x: "RT_EXIT_FN env cfg (workers z ! 0, mem z) = Some (w, sh)" using master_exits [OF e m] by blast
  have "exit_step env cfg (stacks z ! 0, workers z ! 0, mem z) ([], w, sh)"
    using Exit_Main [of env cfg "(workers z ! 0, mem z)" "(w, sh)"] x m by (simp add: RT_async_action_def)
  from Shutdown_Exit [OF _ _ this] show ?thesis using True i m by (intro exI [of _ "[]"] exI [of _ w] exI [of _ sh]) simp
next
  case False
  then have i0: "0 < i" by simp
  note st = exitingD(9) [OF e i0 i(1)]
  show ?thesis
  proof (cases "S i = Asleep")
    case True
    then obtain pc where pc: "stacks z ! i = [Schedule pc]" "receiving (stacks z ! i)" using st by (auto simp: receiving_def)
    obtain pc' where x: "schedule_step env cfg pc (workers z ! i, mem z) = Some (pc', None, workers z ! i, mem z)"
      using waits_on [OF e i0 i(1) cfg disjI1 [OF True] pc] by blast
    have "pc' \<noteq> pc" using x pc by (auto simp: receiving_def go_def bind_eq_Some_conv split: if_splits option.splits)
    then show ?thesis using Shutdown_Schedule [OF i pc(1) x] pc(1)
      by (intro exI [of _ "[Schedule pc']"] exI [of _ "workers z ! i"] exI [of _ "mem z"]) (simp add: called_def)
  next
    case False
    have "S i \<noteq> Gone" using st s(2) by auto
    from advances [OF e i0 i(1) cfg False this] obtain fs w sh G' U' S' where
      x: "shutdown_step env cfg z \<lparr>stacks = (stacks z)[i := fs], workers = (workers z)[i := w], mem = sh\<rparr>"
        "exiting env cfg r A G' U' S' \<lparr>stacks = (stacks z)[i := fs], workers = (workers z)[i := w], mem = sh\<rparr>"
        "rank (stacks z ! i) (workers z ! i) (S i) < rank fs w (S' i)" by blast
    have "at_stage env cfg sh i fs w (S' i)" using exitingD(9) [OF x(2) i0] i exitingD(4) [OF e] by simp
    then have "fs \<noteq> stacks z ! i" using rank_frame [OF st _ False i(2)] x(3) by (metis leD)
    then show ?thesis using x(1) by blast
  qed
qed

lemma shutdown_exiting:
  assumes "tracked env cfg r h" "MAXSTEAL cfg = 1" "stacks (now h) ! 0 = [Main_Program]" "rested (workers (now h) ! 0)"
    "length (workers (now h)) \<le> length (mallocs (mem (now h))) + 1" "(shutdown_step env cfg)\<^sup>*\<^sup>* (now h) z"
  shows "\<exists>A G U S. exiting env cfg r A G U S z"
  using exiting_starts [OF assms(1-5)] exiting_reached [OF assms(6,2)] by blast

text \<open>A barrier that is about to leave returns to the main program.\<close>

lemma barrier_returns:
  assumes t: "tracked env cfg r h" and cfg: "MAXSTEAL cfg = 1" and s: "stacks (now h) ! 0 = [Barrier Leave, Main_Program]"
    "quiescent (workers (now h) ! 0)"
  shows "tracked_step env cfg r h (h\<lparr>now := (now h)\<lparr>stacks := (stacks (now h))[0 := [Main_Program]]\<rparr>\<rparr>)"
proof -
  let ?w = "workers (now h) ! 0"
  note re = tracked_reachable [OF t]
  note I = sys_invD [OF reachable_inv [OF re cfg]]
  have n: "0 < length (workers (now h))" "ID ?w = 0" using I(2,4) I(5) [of 0] by simp_all
  then have b: "\<not> blocked ?w" using reachable_spare [OF re, of ?w] by (auto simp: spare_def)
  have "own_step env cfg (root_of r 0) (stacks (now h) ! 0, unpushed h ! 0, ?w, mem (now h)) [] [] ([Main_Program], unpushed h ! 0, ?w, mem (now h))"
    unfolding s(1) using s(2) by (intro Own_Barrier_Return) simp
  from Track_Run [OF n(1) b this] show ?thesis by (cases h; cases "now h") simp
qed

section \<open>Two workers shut down\<close>

lemma to_exit_run:
  "(case demo_track to_done of None \<Rightarrow> False | Some h \<Rightarrow> num_workers (mem (now h)) = 2 \<and> \<not> quiescent (workers (now h) ! 0) \<and>
     (case track demo_env default_config (0, Return) h of None \<Rightarrow> False
      | Some h1 \<Rightarrow> quiescent (workers (now h1) ! 0) \<and> length (workers (now h1)) = 2 \<and>
       (case stacks (now h1) ! 0 of [Barrier Leave, Main_Program] \<Rightarrow> length (mallocs (mem (now h1))) = 1 | _ \<Rightarrow> False)))"
  by code_simp

text \<open>The main program of two workers, back from the barrier.\<close>

lemma demo_rests:
  "\<exists>r h. tracked demo_env default_config r h \<and> stacks (now h) ! 0 = [Main_Program] \<and> rested (workers (now h) ! 0) \<and>
    length (workers (now h)) = 2 \<and> length (mallocs (mem (now h))) = 1"
proof -
  obtain h h1 where h: "demo_track to_done = Some h" "num_workers (mem (now h)) = 2" "\<not> quiescent (workers (now h) ! 0)"
    and h1: "track demo_env default_config (0, Return) h = Some h1" "quiescent (workers (now h1) ! 0)" "length (workers (now h1)) = 2"
      "stacks (now h1) ! 0 = [Barrier Leave, Main_Program]" "length (mallocs (mem (now h1))) = 1"
    using to_exit_run by (auto split: option.splits list.splits frame.splits sched_pc.splits)
  obtain r where r: "tracked demo_env default_config r h" using demo_tracked [OF h(1)] by blast
  have cfg: "MAXSTEAL default_config = 1" by (simp add: default_config_def)
  note t = track_tracked [OF h1(1), of r]
  note t1 = Track_Step [OF r t]
  have "rested (workers (now h1) ! 0)"
    using sys_step_detects [OF tracked_sys_step [OF t] cfg reachable_inv [OF tracked_reachable [OF r] cfg] h(3) h1(2)] h(2) h1(2)
    by (simp add: rested_def)
  moreover have "length (stacks (now h1)) = 2" using reachable_stay [OF tracked_reachable [OF t1]] h1(3) by (simp add: all_stay_def)
  ultimately show ?thesis using Track_Step [OF t1 barrier_returns [OF t1 cfg h1(4,2)]] h1(3,5)
    by (intro exI [of _ r] exI [of _ "h1\<lparr>now := (now h1)\<lparr>stacks := (stacks (now h1))[0 := [Main_Program]]\<rparr>\<rparr>"]) simp
qed

end
