(* ===== verification/Shutdown.thy ===== *)
theory Shutdown
  imports Simulation Counters Channel_Cache Complex_Main
begin

text \<open>
  What the runtime allocates when it starts and frees when it shuts down (\<^verbatim>\<open>RT_init\<close>, \<^verbatim>\<open>RT_exit\<close>, the end of
  \<^verbatim>\<open>tasking_exit\<close>), and the statistics it prints in between. Here the channels are objects in memory, with the
  caches of \<^theory_text>\<open>Channel_Cache\<close> if the runtime is built with \<^verbatim>\<open>CHANNEL_CACHE\<close>: the parameter \<open>CC\<close> is the
  capacity of a cache, or \<open>None\<close>. The structures of the deque, of the stack of channels and of the queue of requests are one block
  of memory each.
\<close>

section \<open>Definitions\<close>

record rt_memory =
  rm_cache :: cache_state
  rm_tasks :: task_heap
  rm_blocks :: "unit heap"

text \<open>
  The pointers a worker keeps. \<open>rv_deque\<close> is the structure its deque pointer leads to, \<open>None\<close> if the pointer is \<open>NULL\<close>.
\<close>

record rt_vars =
  rv_deque_ptr :: addr
  rv_deque :: "deque option"
  rv_requests :: addr
  rv_tasks :: "addr list"
  rv_stack :: addr
  rv_queue :: addr

text \<open>
  What \<^verbatim>\<open>malloc\<close> returns to \<^verbatim>\<open>RT_init\<close>. For the channel number \<open>k\<close>, \<open>im_chan k\<close> is the address of the channel, whether its buffer
  can be allocated, and whether a cache for its type can.
\<close>

record init_mallocs =
  im_deque :: addr
  im_dummy :: addr
  im_chan :: "nat \<Rightarrow> addr \<times> bool \<times> bool"
  im_stack :: addr
  im_queue :: addr

definition rt_channel_alloc ::
  "nat option \<Rightarrow> init_mallocs \<Rightarrow> nat \<Rightarrow> uint \<Rightarrow> uint \<Rightarrow> int \<Rightarrow> cache_state \<Rightarrow> (addr \<times> cache_state) option"
where
  "rt_channel_alloc CC im k sz n impl st = (let (p, b, c) = im_chan im k; junk = \<lambda>_. 0 in
     case CC of
       Some cap \<Rightarrow> channel_alloc cap p b c junk (\<lambda>_. NULL) sz n impl st
     | None \<Rightarrow>
         (case channel_new (p \<noteq> NULL) b junk sz n impl of
            None \<Rightarrow> Some (NULL, st)
          | Some c \<Rightarrow> Some (p, st\<lparr>channels := (channels st)(p \<mapsto> c)\<rparr>)))"

definition rt_channel_free :: "nat option \<Rightarrow> addr \<Rightarrow> cache_state \<Rightarrow> cache_state option" where
  "rt_channel_free CC chan st = (case CC of
     Some cap \<Rightarrow> channel_free cap chan st
   | None \<Rightarrow>
       if chan = NULL then Some st
       else do {
         h \<leftarrow> c_free (channels st) chan;
         Some (st\<lparr>channels := h\<rparr>)
       })"

text \<open>The loop of \<^verbatim>\<open>RT_init\<close> over the task channels; the request channel is number 0.\<close>

fun init_task_channels ::
  "nat option \<Rightarrow> init_mallocs \<Rightarrow> nat list \<Rightarrow> cache_state \<Rightarrow> (addr list \<times> cache_state) option"
where
  "init_task_channels CC im [] st = Some ([], st)"
| "init_task_channels CC im (i # is) st = do {
     (chan, st) \<leftarrow> rt_channel_alloc CC im (Suc i) 8 1 SPSC st;
     (chans, st) \<leftarrow> init_task_channels CC im is st;
     Some (chan # chans, st)
   }"

definition new_block :: "addr \<Rightarrow> unit heap \<Rightarrow> unit heap" where
  "new_block p b = (if p = NULL then b else b(p \<mapsto> ()))"

text \<open>
  \<^verbatim>\<open>RT_init\<close> as far as memory is concerned. A stack that could not be allocated fails an assertion of
  \<^verbatim>\<open>CHANNEL_PUSH\<close>.
\<close>

definition RT_init_memory ::
  "nat option \<Rightarrow> env \<Rightarrow> config \<Rightarrow> int \<Rightarrow> init_mallocs \<Rightarrow> rt_memory \<Rightarrow> (rt_vars \<times> rt_memory) option"
where
  "RT_init_memory CC env cfg N im m = do {
     (dq, h) \<leftarrow> deque_new (im_deque im \<noteq> NULL) (im_dummy im) (env_junk env) (rm_tasks m);
     let b = new_block (im_deque im) (rm_blocks m);
     (rq, st) \<leftarrow> rt_channel_alloc CC im 0 24 (of_int (MAXSTEAL cfg * N)) MPSC (rm_cache m);
     let b = new_block (im_stack im) b;
     (ts, st) \<leftarrow> init_task_channels CC im [0..<nat (MAXSTEAL cfg)] st;
     assertion (MAXSTEAL cfg \<le> 0 \<or> im_stack im \<noteq> NULL);
     let b = new_block (im_queue im) b;
     Some (\<lparr>rv_deque_ptr = im_deque im, rv_deque = dq, rv_requests = rq, rv_tasks = ts, rv_stack = im_stack im,
         rv_queue = im_queue im\<rparr>, \<lparr>rm_cache = st, rm_tasks = h, rm_blocks = b\<rparr>)
   }"

text \<open>The loop of \<^verbatim>\<open>RT_exit\<close>: no task may be left in a channel.\<close>

fun exit_task_channels :: "nat option \<Rightarrow> addr list \<Rightarrow> cache_state \<Rightarrow> cache_state option" where
  "exit_task_channels CC [] st = Some st"
| "exit_task_channels CC (chan # chans) st = do {
     c \<leftarrow> deref (channels st) chan;
     n \<leftarrow> channel_peek c;
     assertion (n = 0);
     st \<leftarrow> rt_channel_free CC chan st;
     exit_task_channels CC chans st
   }"

definition RT_exit :: "nat option \<Rightarrow> rt_vars \<Rightarrow> rt_memory \<Rightarrow> rt_memory option" where
  "RT_exit CC v m = do {
     h \<leftarrow> (case rv_deque v of None \<Rightarrow> Some (rm_tasks m) | Some dq \<Rightarrow> deque_delete (rm_tasks m) dq);
     b \<leftarrow> c_free (rm_blocks m) (rv_deque_ptr v);
     st \<leftarrow> rt_channel_free CC (rv_requests v) (rm_cache m);
     st \<leftarrow> (case CC of None \<Rightarrow> Some st | Some _ \<Rightarrow> channel_cache_free st);
     st \<leftarrow> exit_task_channels CC (rv_tasks v) st;
     b \<leftarrow> c_free b (rv_stack v);
     b \<leftarrow> c_free b (rv_queue v);
     Some \<lparr>rm_cache = st, rm_tasks = h, rm_blocks = b\<rparr>
   }"

text \<open>
  The statistics. Every line is a name and a number; the percentages are shares of the requests a worker has sent. Worker threads and the main
  program print them between the barrier that ends the scheduling and \<^verbatim>\<open>RT_exit\<close>.
  \<^verbatim>\<open>PROFILE_RESULTS\<close>, which is empty with \<^verbatim>\<open>NTIME\<close>, the default, is in \<^theory_text>\<open>Profiling\<close>.
\<close>

datatype stat = Count string uint | Percent string rat

definition percent :: "uint \<Rightarrow> uint \<Rightarrow> rat" where
  "percent k n = (if n > 0 then of_nat (unat k) / of_nat (unat n) * 100 else 0)"

definition tasking_statistics :: "config \<Rightarrow> worker \<Rightarrow> stat list option" where
  "tasking_statistics cfg w = do {
     let counts = [Count ''steal requests sent'' (requests_sent w), Count ''steal requests handled'' (requests_handled w),
       Count ''steal requests declined'' (requests_declined w), Count ''tasks executed'' (word_of_int (num_tasks_exec w)),
       Count ''tasks sent'' (tasks_sent w), Count ''tasks split'' (tasks_split w)];
     steals \<leftarrow> (if STEAL cfg = Steal_Adaptive then do {
         assertion (requests_steal_one w + requests_steal_half w = requests_sent w);
         Some [Percent ''steal-one'' (percent (requests_steal_one w) (requests_sent w)),
           Percent ''steal-half'' (percent (requests_steal_half w) (requests_sent w))]
       } else Some []);
     Some (counts @ steals @ [Count ''futures converted'' (futures_converted w)])
   }"

text \<open>
  A thread with its private memory. When its scheduling loop has ended and all threads have met at the barrier it prints its statistics and frees what
  it owns; the main program does the same in \<^verbatim>\<open>tasking_exit\<close>, and then frees the arrays of threads and IDs and the root task. The
  threads free different objects, so the order does not matter.
\<close>

record rt_thread =
  th_worker :: worker
  th_vars :: rt_vars
  th_caches :: "channel_cache list"
  th_cache_len :: uint

definition enter_thread :: "rt_thread \<Rightarrow> rt_memory \<Rightarrow> rt_memory" where
  "enter_thread t m = m\<lparr>rm_cache := (rm_cache m)\<lparr>caches := th_caches t, channel_cache_len := th_cache_len t\<rparr>\<rparr>"

definition worker_exit :: "nat option \<Rightarrow> config \<Rightarrow> rt_thread \<Rightarrow> rt_memory \<Rightarrow> (stat list \<times> rt_memory) option" where
  "worker_exit CC cfg t m = do {
     out \<leftarrow> tasking_statistics cfg (th_worker t);
     m \<leftarrow> RT_exit CC (th_vars t) (enter_thread t m);
     Some (out, m)
   }"

fun join_workers :: "nat option \<Rightarrow> config \<Rightarrow> rt_thread list \<Rightarrow> rt_memory \<Rightarrow> (stat list list \<times> rt_memory) option" where
  "join_workers CC cfg [] m = Some ([], m)"
| "join_workers CC cfg (t # ts) m = do {
     (out, m) \<leftarrow> worker_exit CC cfg t m;
     (outs, m) \<leftarrow> join_workers CC cfg ts m;
     Some (out # outs, m)
   }"

text \<open>
  \<^verbatim>\<open>tasking_exit\<close> after its barrier; what precedes the barrier is the exit action (\<^const>\<open>RT_async_action\<close>). The first of the threads is the main program.
\<close>

definition tasking_exit_end ::
  "nat option \<Rightarrow> config \<Rightarrow> rt_thread list \<Rightarrow> addr \<Rightarrow> addr \<Rightarrow> addr \<Rightarrow> rt_memory \<Rightarrow> (stat list list \<times> rt_memory) option"
where
  "tasking_exit_end CC cfg ts worker_threads IDs current m = do {
     (outs, m) \<leftarrow> join_workers CC cfg ts m;
     b \<leftarrow> c_free (rm_blocks m) worker_threads;
     b \<leftarrow> c_free b IDs;
     t \<leftarrow> deref (rm_tasks m) current;
     assertion (is_root_task t);
     h \<leftarrow> c_free (rm_tasks m) current;
     Some (outs, m\<lparr>rm_tasks := h, rm_blocks := b\<rparr>)
   }"

section \<open>Freeing\<close>

text \<open>
  What a worker owns when it shuts down: its deque with the tasks and free objects in it, its channels, of
  which the task channels are empty, the channels in its caches, and three blocks.
\<close>

definition cache_ready :: "nat option \<Rightarrow> cache_state \<Rightarrow> bool" where
  "cache_ready CC st \<longleftrightarrow> (case CC of
     None \<Rightarrow> caches st = [] \<and> channel_cache_len st = 0
   | Some cap \<Rightarrow> cache_inv cap st)"

definition own_chans :: "rt_vars \<Rightarrow> addr list" where
  "own_chans v = rv_requests v # rv_tasks v"

definition own_blocks :: "rt_vars \<Rightarrow> addr list" where
  "own_blocks v = [rv_deque_ptr v, rv_stack v, rv_queue v]"

definition own_nodes :: "rt_vars \<Rightarrow> addr list \<Rightarrow> addr list \<Rightarrow> addr set" where
  "own_nodes v ts fs = nodes (the (rv_deque v)) ts fs"

definition live :: "'o heap \<Rightarrow> addr list \<Rightarrow> bool" where
  "live h as \<longleftrightarrow> distinct as \<and> (\<forall>a \<in> set as. \<exists>x. deref h a = Some x)"

definition intact :: "nat option \<Rightarrow> rt_vars \<Rightarrow> rt_memory \<Rightarrow> addr list \<Rightarrow> addr list \<Rightarrow> bool" where
  "intact CC v m ts fs \<longleftrightarrow>
     (\<exists>dq. rv_deque v = Some dq \<and> deque_rel (rm_tasks m) dq ts fs) \<and> live (rm_blocks m) (own_blocks v) \<and>
     live (channels (rm_cache m)) (own_chans v) \<and> set (own_chans v) \<inter> set (all_cached (caches (rm_cache m))) = {} \<and>
     (\<forall>a \<in> set (rv_tasks v). \<exists>c. deref (channels (rm_cache m)) a = Some c \<and> chan_inv c \<and> chan_slots c = []) \<and>
     cache_ready CC (rm_cache m)"

lemma live_free:
  assumes "live h (a # as)"
  shows "c_free h a = Some (h(a := None))" "live (h(a := None)) as"
  using assms by (auto simp: live_def heap_simps deref_def)

lemma restrict_drop: "(h(a := None)) |` (- B) = h |` (- insert a B)"
  by (auto simp: restrict_map_def fun_eq_iff)

lemma free_requests:
  assumes "cache_ready CC st" "deref (channels st) a = Some c" "a \<notin> set (all_cached (caches st))"
  shows "\<exists>st'. rt_channel_free CC a st = Some st' \<and>
    (case CC of None \<Rightarrow> Some st' | Some _ \<Rightarrow> channel_cache_free st') =
      Some (st\<lparr>channels := channels st |` (- insert a (set (all_cached (caches st)))), caches := [], channel_cache_len := 0\<rparr>)"
proof (cases CC)
  case None
  then show ?thesis
    using assms by (cases st) (auto simp: cache_ready_def rt_channel_free_def heap_simps restrict_map_def fun_eq_iff deref_def)
next
  case (Some cap)
  have inv: "cache_inv cap st" using assms(1) Some by (simp add: cache_ready_def)
  then have ok: "caches_ok cap (channels st) (caches st)" and len: "channel_cache_len st = of_nat (length (caches st))"
    by (simp_all add: cache_inv_def)
  note sk = caches_ok_stocked [OF ok]
  have "\<forall>p \<in> set (caches st). num_cached p \<le> cap \<and> length (cache p) = cap" using ok by (simp add: caches_ok_def cache_ok_def)
  from put_cached_spec [OF this, of a "ch_itemsize c" "ch_size c - 1" "ch_impl c"]
  obtain r where r: "put_cached cap a (ch_itemsize c) (ch_size c - 1) (ch_impl c) (caches st) = Some r"
    and sp: "case r of None \<Rightarrow> True | Some ps \<Rightarrow> map cache_key ps = map cache_key (caches st) \<and>
       (\<forall>p \<in> set ps. num_cached p \<le> cap \<and> length (cache p) = cap) \<and> mset (all_cached ps) = add_mset a (mset (all_cached (caches st)))"
    by (auto split: option.splits)
  have np: "a \<noteq> NULL" using assms(2) by auto
  show ?thesis
  proof (cases r)
    case None
    have "stocked ((channels st)(a := None)) (caches st)" using sk assms(3) by (auto simp: stocked_def deref_def)
    then show ?thesis
      using Some None r np assms(2) len
      by (simp add: rt_channel_free_def channel_free_def heap_simps channel_cache_free_stocked restrict_drop
          del: restrict_fun_upd)
  next
    case ps: (Some ps)
    have m: "mset (all_cached ps) = mset (a # all_cached (caches st))" using sp ps by simp
    have "distinct (all_cached ps)" using mset_eq_imp_distinct_iff [OF m] assms(3) sk by (simp add: stocked_def)
    moreover have st: "set (all_cached ps) = insert a (set (all_cached (caches st)))" using mset_eq_setD [OF m] by simp
    ultimately have "stocked (channels st) ps" using sk assms(2) sp ps by (auto simp: stocked_def)
    moreover have "map cache_key ps = map cache_key (caches st)" using sp ps by simp
    then have "length ps = length (caches st)" using map_eq_imp_length_eq by blast
    ultimately show ?thesis
      using Some ps r np assms(2) len st by (simp add: rt_channel_free_def channel_free_def channel_cache_free_stocked)
  qed
qed

lemma free_task_channels:
  assumes "live (channels st) as" "\<forall>a \<in> set as. \<exists>c. deref (channels st) a = Some c \<and> chan_inv c \<and> chan_slots c = []"
    and "caches st = []"
  shows "exit_task_channels CC as st = Some (st\<lparr>channels := channels st |` (- set as)\<rparr>)"
  using assms
proof (induction as arbitrary: st)
  case Nil
  then show ?case by (simp add: restrict_map_def)
next
  case (Cons a as)
  from Cons.prems(2) obtain c where c: "deref (channels st) a = Some c" "chan_inv c" "chan_slots c = []" by auto
  obtain n where n: "channel_peek c = Some n" "n = 0"
    using channel_peek_items [OF c(2)] c(3) by (auto simp: unat_eq_zero)
  let ?st = "st\<lparr>channels := (channels st)(a := None)\<rparr>"
  have f: "rt_channel_free CC a st = Some ?st"
    using c(1) Cons.prems(3) by (auto simp: rt_channel_free_def channel_free_def heap_simps split: option.split)
  have "a \<notin> set as" using Cons.prems(1) by (simp add: live_def)
  then have "\<forall>b \<in> set as. \<exists>c. deref (channels ?st) b = Some c \<and> chan_inv c \<and> chan_slots c = []"
    using Cons.prems(2) by (auto simp: deref_def)
  moreover have "live (channels ?st) as" "caches ?st = []" using live_free(2) [OF Cons.prems(1)] Cons.prems(3) by simp_all
  ultimately have "exit_task_channels CC as ?st = Some (?st\<lparr>channels := channels ?st |` (- set as)\<rparr>)" by (intro Cons.IH)
  then show ?case using c(1) n f by (simp add: restrict_drop del: restrict_fun_upd)
qed

text \<open>\<^verbatim>\<open>RT_exit\<close> frees what the worker owns and nothing else.\<close>

definition own_cells :: "rt_vars \<Rightarrow> channel_cache list \<Rightarrow> addr set" where
  "own_cells v ps = set (own_chans v) \<union> set (all_cached ps)"

definition without :: "addr set \<Rightarrow> addr set \<Rightarrow> addr set \<Rightarrow> rt_memory \<Rightarrow> rt_memory" where
  "without C T B m = m\<lparr>rm_cache := (rm_cache m)\<lparr>channels := channels (rm_cache m) |` (- C), caches := [], channel_cache_len := 0\<rparr>,
     rm_tasks := rm_tasks m |` (- T), rm_blocks := rm_blocks m |` (- B)\<rparr>"

lemma live_restrict: "live h as \<Longrightarrow> set as \<inter> B = {} \<Longrightarrow> live (h |` (- B)) as"
  by (auto simp: live_def deref_def restrict_map_def split: if_splits)

lemma deque_delete_restrict:
  assumes "deque_rel h dq ts fs"
  shows "deque_delete h dq = Some (h |` (- nodes dq ts fs))"
proof -
  obtain h' where h': "deque_delete h dq = Some h'" "dom h' = dom h - nodes dq ts fs" "\<forall>a. a \<notin> nodes dq ts fs \<longrightarrow> h' a = h a"
    using deque_delete_rel [OF assms] by blast
  have "h' a = (h |` (- nodes dq ts fs)) a" for a
    using h'(2,3) by (cases "a \<in> nodes dq ts fs") (auto simp: restrict_map_def)
  then have "h' = h |` (- nodes dq ts fs)" by blast
  then show ?thesis using h'(1) by simp
qed

lemma RT_exit_without:
  assumes "intact CC v m ts fs"
  shows "RT_exit CC v m = Some (without (own_cells v (caches (rm_cache m))) (own_nodes v ts fs) (set (own_blocks v)) m)"
proof -
  let ?st = "rm_cache m" and ?b = "rm_blocks m"
  obtain dq where dq: "rv_deque v = Some dq" "deque_rel (rm_tasks m) dq ts fs" using assms by (auto simp: intact_def)
  have b: "live ?b [rv_deque_ptr v, rv_stack v, rv_queue v]" using assms by (simp add: intact_def own_blocks_def)
  note b1 = live_free [OF b] and b2 = live_free [OF live_free(2) [OF b]] and b3 = live_free [OF live_free(2) [OF live_free(2) [OF b]]]
  have be: "?b(rv_deque_ptr v := None, rv_stack v := None, rv_queue v := None) = ?b |` (- set (own_blocks v))"
    by (auto simp: own_blocks_def restrict_map_def fun_eq_iff)
  let ?C = "insert (rv_requests v) (set (all_cached (caches ?st)))"
  let ?st1 = "?st\<lparr>channels := channels ?st |` (- ?C), caches := [], channel_cache_len := 0\<rparr>"
  have ch: "live (channels ?st) (own_chans v)" "set (own_chans v) \<inter> set (all_cached (caches ?st)) = {}" "cache_ready CC ?st"
    using assms by (simp_all add: intact_def)
  then obtain c where "deref (channels ?st) (rv_requests v) = Some c" "rv_requests v \<notin> set (all_cached (caches ?st))"
    by (auto simp: live_def own_chans_def)
  from free_requests [OF ch(3) this] obtain st' where st': "rt_channel_free CC (rv_requests v) ?st = Some st'"
    "(case CC of None \<Rightarrow> Some st' | Some _ \<Rightarrow> channel_cache_free st') = Some ?st1" by blast
  have dj: "set (rv_tasks v) \<inter> ?C = {}" using ch(1,2) by (auto simp: own_chans_def live_def)
  have "live (channels ?st1) (rv_tasks v)"
    using live_restrict [OF _ dj] ch(1) by (auto simp: own_chans_def live_def)
  moreover have "\<forall>a \<in> set (rv_tasks v). \<exists>c. deref (channels ?st1) a = Some c \<and> chan_inv c \<and> chan_slots c = []"
    using assms dj by (fastforce simp: intact_def deref_def restrict_map_def)
  ultimately have t: "exit_task_channels CC (rv_tasks v) ?st1 = Some (?st1\<lparr>channels := channels ?st1 |` (- set (rv_tasks v))\<rparr>)"
    by (intro free_task_channels) simp_all
  have ce: "channels ?st1 |` (- set (rv_tasks v)) = channels ?st |` (- own_cells v (caches ?st))"
    by (auto simp: own_cells_def own_chans_def restrict_map_def fun_eq_iff)
  show ?thesis
    using dq deque_delete_restrict [OF dq(2)] b1(1) b2(1) b3(1) be st' t ce
    by (simp add: RT_exit_def without_def own_nodes_def)
qed

section \<open>All threads\<close>

text \<open>A thread with the tasks in its deque and the objects of its free list. No two threads own the same object.\<close>

type_synonym exiting = "rt_thread \<times> addr list \<times> addr list"

definition ex_cells :: "exiting \<Rightarrow> addr set" where
  "ex_cells x = own_cells (th_vars (fst x)) (th_caches (fst x))"

definition ex_nodes :: "exiting \<Rightarrow> addr set" where
  "ex_nodes x = own_nodes (th_vars (fst x)) (fst (snd x)) (snd (snd x))"

definition ex_blocks :: "exiting \<Rightarrow> addr set" where
  "ex_blocks x = set (own_blocks (th_vars (fst x)))"

fun apart :: "exiting list \<Rightarrow> bool" where
  "apart [] = True"
| "apart (x # xs) = (apart xs \<and> (\<forall>y \<in> set xs.
     ex_cells x \<inter> ex_cells y = {} \<and> ex_nodes x \<inter> ex_nodes y = {} \<and> ex_blocks x \<inter> ex_blocks y = {}))"

definition ready_to_exit :: "nat option \<Rightarrow> config \<Rightarrow> rt_memory \<Rightarrow> exiting \<Rightarrow> bool" where
  "ready_to_exit CC cfg m x \<longleftrightarrow> tasking_statistics cfg (th_worker (fst x)) \<noteq> None \<and>
     intact CC (th_vars (fst x)) (enter_thread (fst x) m) (fst (snd x)) (snd (snd x))"

definition unentered :: "rt_memory \<Rightarrow> bool" where
  "unentered m \<longleftrightarrow> caches (rm_cache m) = [] \<and> channel_cache_len (rm_cache m) = 0"

lemma without_simps:
  "channels (rm_cache (without C T B m)) = channels (rm_cache m) |` (- C)"
  "rm_tasks (without C T B m) = rm_tasks m |` (- T)" "rm_blocks (without C T B m) = rm_blocks m |` (- B)"
  "unentered (without C T B m)" "without C T B (enter_thread t m) = without C T B m"
  by (simp_all add: without_def unentered_def enter_thread_def Int_commute restrict_map_def)

lemma without_without: "without C' T' B' (without C T B m) = without (C \<union> C') (T \<union> T') (B \<union> B') m"
  by (simp add: without_def Compl_Un Int_commute)

lemma without_nothing: "unentered m \<Longrightarrow> without {} {} {} m = m"
  by (cases m) (simp add: without_def unentered_def restrict_map_def)

lemma enter_thread_simps:
  "channels (rm_cache (enter_thread t m)) = channels (rm_cache m)" "caches (rm_cache (enter_thread t m)) = th_caches t"
  "channel_cache_len (rm_cache (enter_thread t m)) = th_cache_len t"
  "rm_tasks (enter_thread t m) = rm_tasks m" "rm_blocks (enter_thread t m) = rm_blocks m"
  by (simp_all add: enter_thread_def)

lemma cache_ready_restrict:
  assumes "cache_ready CC st" "set (all_cached (caches st)) \<inter> C = {}" "channels st' = channels st |` (- C)"
    "caches st' = caches st" "channel_cache_len st' = channel_cache_len st"
  shows "cache_ready CC st'"
proof (cases CC)
  case (Some cap)
  then have "caches_ok cap (channels st) (caches st)" using assms(1) by (simp add: cache_ready_def cache_inv_def)
  then have "caches_ok cap (channels st') (caches st)"
    by (rule caches_ok_heap) (use assms(2,3) in \<open>auto simp: deref_def restrict_map_def\<close>)
  then show ?thesis using Some assms by (simp add: cache_ready_def cache_inv_def)
qed (use assms in \<open>simp add: cache_ready_def\<close>)

lemma intact_without:
  assumes "intact CC v (enter_thread t m) ts fs" "own_cells v (th_caches t) \<inter> C = {}" "own_nodes v ts fs \<inter> T = {}"
    "set (own_blocks v) \<inter> B = {}"
  shows "intact CC v (enter_thread t (without C T B m)) ts fs"
proof -
  note a = assms(1) [unfolded intact_def, simplified enter_thread_simps]
  have c: "set (own_chans v) \<inter> C = {}" "set (all_cached (th_caches t)) \<inter> C = {}" using assms(2) by (auto simp: own_cells_def)
  obtain dq where dq: "rv_deque v = Some dq" "deque_rel (rm_tasks m) dq ts fs" using a by blast
  have "deque_rel (rm_tasks m |` (- T)) dq ts fs"
    by (rule deque_rel_frame [OF dq(2)]) (use assms(3) dq(1) in \<open>auto simp: own_nodes_def restrict_map_def\<close>)
  moreover have "cache_ready CC (rm_cache (enter_thread t (without C T B m)))"
    by (rule cache_ready_restrict [of CC "rm_cache (enter_thread t m)" C])
      (use a c in \<open>simp_all add: enter_thread_simps without_simps\<close>)
  moreover have "\<forall>a \<in> set (rv_tasks v). \<exists>c. deref (channels (rm_cache m) |` (- C)) a = Some c \<and> chan_inv c \<and> chan_slots c = []"
    using a c(1) by (fastforce simp: own_chans_def deref_def restrict_map_def)
  moreover have "live (channels (rm_cache m) |` (- C)) (own_chans v)" "live (rm_blocks m |` (- B)) (own_blocks v)"
    using a c(1) assms(4) by (auto intro: live_restrict)
  ultimately show ?thesis
    using a c dq(1)
    by (simp add: intact_def enter_thread_simps without_simps)
qed

lemma join_workers_without:
  assumes "\<forall>x \<in> set xs. ready_to_exit CC cfg m x" "apart xs" "unentered m"
  shows "\<exists>outs. join_workers CC cfg (map fst xs) m =
    Some (outs, without (\<Union> (ex_cells ` set xs)) (\<Union> (ex_nodes ` set xs)) (\<Union> (ex_blocks ` set xs)) m) \<and>
    map Some outs = map (tasking_statistics cfg \<circ> th_worker \<circ> fst) xs"
  using assms
proof (induction xs arbitrary: m)
  case Nil
  then show ?case by (simp add: without_nothing)
next
  case (Cons x xs)
  obtain t ts fs where x: "x = (t, ts, fs)" by (cases x)
  have r: "ready_to_exit CC cfg m x" using Cons.prems(1) by simp
  then obtain out where out: "tasking_statistics cfg (th_worker t) = Some out" using x by (auto simp: ready_to_exit_def)
  let ?m = "without (ex_cells x) (ex_nodes x) (ex_blocks x) m"
  have e: "worker_exit CC cfg t m = Some (out, ?m)"
    using r out x RT_exit_without [of CC "th_vars t" "enter_thread t m" ts fs]
    by (simp add: worker_exit_def ready_to_exit_def without_simps enter_thread_simps ex_cells_def ex_nodes_def ex_blocks_def)
  have "\<forall>y \<in> set xs. ready_to_exit CC cfg ?m y"
  proof
    fix y assume y: "y \<in> set xs"
    have dj: "ex_cells y \<inter> ex_cells x = {}" "ex_nodes y \<inter> ex_nodes x = {}" "ex_blocks y \<inter> ex_blocks x = {}"
      using Cons.prems(2) y by auto
    show "ready_to_exit CC cfg ?m y"
      using Cons.prems(1) y dj unfolding ready_to_exit_def ex_cells_def [of y] ex_nodes_def [of y] ex_blocks_def [of y]
      by (auto intro: intact_without)
  qed
  moreover have "apart xs" using Cons.prems(2) by simp
  moreover have "unentered ?m" by (rule without_simps)
  ultimately obtain outs where o: "join_workers CC cfg (map fst xs) ?m =
      Some (outs, without (\<Union> (ex_cells ` set xs)) (\<Union> (ex_nodes ` set xs)) (\<Union> (ex_blocks ` set xs)) ?m)"
    "map Some outs = map (tasking_statistics cfg \<circ> th_worker \<circ> fst) xs"
    using Cons.IH by blast
  show ?case using e o out x by (simp add: without_without)
qed

section \<open>What the initialisation allocates\<close>

text \<open>Memory for everything, at addresses that are not in use; \<open>K\<close> is the number of task channels.\<close>

definition chan_addr :: "init_mallocs \<Rightarrow> nat \<Rightarrow> addr" where
  "chan_addr im k = fst (im_chan im k)"

definition plenty :: "init_mallocs \<Rightarrow> nat \<Rightarrow> rt_memory \<Rightarrow> bool" where
  "plenty im K m \<longleftrightarrow> distinct [im_deque im, im_stack im, im_queue im, NULL] \<and> im_dummy im \<noteq> NULL \<and> rm_tasks m (im_dummy im) = None \<and>
     rm_blocks m (im_deque im) = None \<and> rm_blocks m (im_stack im) = None \<and> rm_blocks m (im_queue im) = None \<and>
     distinct (map (chan_addr im) [0..<Suc K]) \<and>
     (\<forall>k \<le> K. chan_addr im k \<noteq> NULL \<and> channels (rm_cache m) (chan_addr im k) = None \<and> fst (snd (im_chan im k)))"

definition unstocked :: "nat option \<Rightarrow> cache_state \<Rightarrow> bool" where
  "unstocked CC st \<longleftrightarrow> cache_ready CC st \<and> all_cached (caches st) = []"

lemma rt_channel_alloc_new:
  assumes "unstocked CC st" "chan_addr im k \<noteq> NULL" "fst (snd (im_chan im k))" "channels st (chan_addr im k) = None" "valid_impl impl"
    "unat n < 2 ^ 31" "Suc (unat n) * unat sz < 2 ^ 32"
  shows "\<exists>ch st'. rt_channel_alloc CC im k sz n impl st = Some (chan_addr im k, st') \<and>
    channels st' = (channels st)(chan_addr im k \<mapsto> ch) \<and> reusable sz n impl ch \<and> unstocked CC st'"
proof -
  obtain p b c where pc: "im_chan im k = (p, b, c)" by (cases "im_chan im k")
  have p: "chan_addr im k = p" "b" "p \<noteq> NULL" "channels st p = None" using assms(2-4) pc by (simp_all add: chan_addr_def)
  obtain ch where new: "channel_new True True (\<lambda>_. 0) sz n impl = Some ch" by (simp add: channel_new_def Let_def)
  note re = channel_new_reusable [OF new assms(5-7)]
  show ?thesis
  proof (cases CC)
    case None
    then show ?thesis using assms(1) p pc new re by (auto simp: rt_channel_alloc_def unstocked_def cache_ready_def)
  next
    case (Some cap)
    then have inv: "cache_inv cap st" and e: "all_cached (caches st) = []" using assms(1) by (simp_all add: unstocked_def cache_ready_def)
    have "\<forall>q \<in> set (caches st). num_cached q \<le> length (cache q)" using inv by (auto simp: cache_inv_def caches_ok_def cache_ok_def)
    from take_cached_spec [OF this, of sz n impl] e have miss: "take_cached sz n impl (caches st) = Some None"
      by (auto split: option.splits) (metis not_None_eq surj_pair)
    let ?st = "st\<lparr>channels := (channels st)(p \<mapsto> ch)\<rparr>"
    obtain st' where st': "channel_alloc cap p True c (\<lambda>_. 0) (\<lambda>_. NULL) sz n impl st = Some (p, st')" "cache_inv cap st'"
        "channels st' = (channels st)(p \<mapsto> ch)"
      using channel_alloc_fresh [OF inv p(3,4) new assms(5) miss assms(6,7), of c "\<lambda>_. NULL"] by blast
    have "cache_inv cap ?st" using inv e by (auto simp: cache_inv_def intro: caches_ok_heap)
    moreover have "st' = snd (channel_cache_alloc cap c (\<lambda>_. NULL) sz n impl ?st)"
      using st'(1) assms(5) miss new p(3) by (auto simp: channel_alloc_def Let_def)
    ultimately have "all_cached (caches st') = []"
      using cache_alloc_ok [of cap ?st c "\<lambda>_. NULL" sz n impl "fst (channel_cache_alloc cap c (\<lambda>_. NULL) sz n impl ?st)" st'] e
      by simp
    then show ?thesis using Some p pc st' re by (auto simp: rt_channel_alloc_def unstocked_def cache_ready_def)
  qed
qed

lemma init_task_channels_new:
  assumes "unstocked CC st" "distinct (map (\<lambda>i. chan_addr im (Suc i)) is)"
    "\<forall>i \<in> set is. chan_addr im (Suc i) \<noteq> NULL \<and> fst (snd (im_chan im (Suc i))) \<and> channels st (chan_addr im (Suc i)) = None"
  shows "\<exists>st'. init_task_channels CC im is st = Some (map (\<lambda>i. chan_addr im (Suc i)) is, st') \<and> unstocked CC st' \<and>
    (\<forall>a. a \<notin> set (map (\<lambda>i. chan_addr im (Suc i)) is) \<longrightarrow> channels st' a = channels st a) \<and>
    (\<forall>a \<in> set (map (\<lambda>i. chan_addr im (Suc i)) is). \<exists>c. deref (channels st') a = Some c \<and> reusable 8 1 SPSC c)"
  using assms
proof (induction "is" arbitrary: st)
  case (Cons i js)
  let ?p = "chan_addr im (Suc i)"
  obtain ch st1 where c: "rt_channel_alloc CC im (Suc i) 8 1 SPSC st = Some (?p, st1)"
    "channels st1 = (channels st)(?p \<mapsto> ch)" "reusable 8 1 SPSC ch" "unstocked CC st1"
    using rt_channel_alloc_new [OF Cons.prems(1), of im "Suc i" SPSC 1 8] Cons.prems(3) by (auto simp: valid_impl_def)
  have d: "distinct (map (\<lambda>i. chan_addr im (Suc i)) js)" "?p \<notin> set (map (\<lambda>i. chan_addr im (Suc i)) js)" using Cons.prems(2) by auto
  have "\<forall>i \<in> set js. chan_addr im (Suc i) \<noteq> NULL \<and> fst (snd (im_chan im (Suc i))) \<and> channels st1 (chan_addr im (Suc i)) = None"
    using Cons.prems(3) c(2) d(2) by (auto simp: image_iff)
  from Cons.IH [OF c(4) d(1) this] obtain st' where r: "init_task_channels CC im js st1 = Some (map (\<lambda>i. chan_addr im (Suc i)) js, st')"
    "unstocked CC st'" "\<forall>a. a \<notin> set (map (\<lambda>i. chan_addr im (Suc i)) js) \<longrightarrow> channels st' a = channels st1 a"
    "\<forall>a \<in> set (map (\<lambda>i. chan_addr im (Suc i)) js). \<exists>c. deref (channels st') a = Some c \<and> reusable 8 1 SPSC c" by blast
  have "channels st' ?p = Some ch" using r(3) d(2) c(2) by simp
  then have "deref (channels st') ?p = Some ch" using Cons.prems(3) by (simp add: deref_def)
  then show ?case using c r by auto
qed simp

lemma request_capacity:
  assumes "0 \<le> x" "x < 2 ^ 26"
  shows "unat (of_int x :: uint) < 2 ^ 31" "Suc (unat (of_int x :: uint)) * unat (24 :: uint) < 2 ^ 32"
proof -
  have "uint (of_int x :: uint) = x" using assms by (simp add: uint_word_of_int_eq take_bit_int_eq_self)
  then have "unat (of_int x :: uint) = nat x" by (metis nat_uint_eq)
  then show "unat (of_int x :: uint) < 2 ^ 31" "Suc (unat (of_int x :: uint)) * unat (24 :: uint) < 2 ^ 32"
    using assms by simp_all
qed

text \<open>The worker owns what it has allocated, and that is all that has been added to the memory.\<close>

lemma RT_init_memory_intact:
  assumes "plenty im (nat (MAXSTEAL cfg)) m" "unstocked CC (rm_cache m)" "0 \<le> MAXSTEAL cfg * N" "MAXSTEAL cfg * N < 2 ^ 26"
  shows "\<exists>v m'. RT_init_memory CC env cfg N im m = Some (v, m') \<and> intact CC v m' [] [] \<and>
    own_chans v = map (chan_addr im) [0..<Suc (nat (MAXSTEAL cfg))] \<and> all_cached (caches (rm_cache m')) = [] \<and>
    own_nodes v [] [] = {im_dummy im} \<and> own_blocks v = [im_deque im, im_stack im, im_queue im] \<and>
    (\<forall>a. a \<notin> set (own_chans v) \<longrightarrow> channels (rm_cache m') a = channels (rm_cache m) a) \<and>
    (\<forall>a. a \<noteq> im_dummy im \<longrightarrow> rm_tasks m' a = rm_tasks m a) \<and>
    rm_blocks m' = (rm_blocks m)(im_deque im \<mapsto> (), im_stack im \<mapsto> (), im_queue im \<mapsto> ())"
proof -
  note pl = assms(1) [unfolded plenty_def]
  let ?K = "nat (MAXSTEAL cfg)" and ?st = "rm_cache m"
  have ca: "\<And>k. k \<le> ?K \<Longrightarrow> chan_addr im k \<noteq> NULL \<and> channels ?st (chan_addr im k) = None \<and> fst (snd (im_chan im k))"
    using pl by blast
  obtain dq h where dq: "deque_new True (im_dummy im) (env_junk env) (rm_tasks m) = Some (Some dq, h)" "deque_rel h dq [] []"
    "dq_tail dq = im_dummy im" "\<forall>a. a \<noteq> im_dummy im \<longrightarrow> h a = rm_tasks m a"
    using deque_new_rel [of "im_dummy im" "env_junk env" "rm_tasks m"] pl by auto
  note sm = request_capacity [OF assms(3,4)]
  obtain ch st1 where c: "rt_channel_alloc CC im 0 24 (of_int (MAXSTEAL cfg * N)) MPSC ?st = Some (chan_addr im 0, st1)"
    "channels st1 = (channels ?st)(chan_addr im 0 \<mapsto> ch)" "unstocked CC st1"
    using rt_channel_alloc_new [OF assms(2), of im 0 MPSC _ 24, OF _ _ _ _ sm] ca [of 0] by (auto simp: valid_impl_def)
  let ?ts = "map (\<lambda>i. chan_addr im (Suc i)) [0..<?K]"
  have dist: "distinct (chan_addr im 0 # ?ts)"
  proof -
    have "map (chan_addr im) [0..<Suc ?K] = chan_addr im 0 # ?ts"
      by (simp add: map_upt_Suc del: upt_Suc)
    then show ?thesis using pl by (metis (no_types, lifting))
  qed
  have "\<forall>i \<in> set [0..<?K]. chan_addr im (Suc i) \<noteq> NULL \<and> fst (snd (im_chan im (Suc i))) \<and> channels st1 (chan_addr im (Suc i)) = None"
  proof
    fix i assume i: "i \<in> set [0..<?K]"
    then have "chan_addr im (Suc i) \<noteq> chan_addr im 0" using dist by force
    then show "chan_addr im (Suc i) \<noteq> NULL \<and> fst (snd (im_chan im (Suc i))) \<and> channels st1 (chan_addr im (Suc i)) = None"
      using ca [of "Suc i"] i c(2) by simp
  qed
  from init_task_channels_new [OF c(3) _ this] dist obtain st2 where t: "init_task_channels CC im [0..<?K] st1 = Some (?ts, st2)"
    "unstocked CC st2" "\<forall>a. a \<notin> set ?ts \<longrightarrow> channels st2 a = channels st1 a"
    "\<forall>a \<in> set ?ts. \<exists>c. deref (channels st2) a = Some c \<and> reusable 8 1 SPSC c" by auto
  let ?v = "\<lparr>rv_deque_ptr = im_deque im, rv_deque = Some dq, rv_requests = chan_addr im 0, rv_tasks = ?ts, rv_stack = im_stack im,
         rv_queue = im_queue im\<rparr>"
  let ?b = "(rm_blocks m)(im_deque im \<mapsto> (), im_stack im \<mapsto> (), im_queue im \<mapsto> ())"
  let ?m = "\<lparr>rm_cache = st2, rm_tasks = h, rm_blocks = ?b\<rparr>"
  have i: "RT_init_memory CC env cfg N im m = Some (?v, ?m)"
    using pl dq(1) c(1) t(1) by (simp add: RT_init_memory_def new_block_def)
  have oc: "own_chans ?v = map (chan_addr im) [0..<Suc ?K]"
    by (simp add: own_chans_def map_upt_Suc del: upt_Suc)
  have "chan_addr im 0 \<notin> set ?ts" using dist by simp
  then have "channels st2 (chan_addr im 0) = Some ch" using t(3) c(2) by simp
  then have lc: "live (channels st2) (own_chans ?v)"
    using dist t(4) ca [of 0] by (auto simp: live_def own_chans_def deref_def)
  have lb: "live ?b (own_blocks ?v)" using pl by (auto simp: live_def own_blocks_def deref_def)
  have "intact CC ?v ?m [] []"
    using dq(2) lc lb t(2,4) by (auto simp: intact_def unstocked_def reusable_def)
  moreover have "\<forall>a. a \<notin> set (own_chans ?v) \<longrightarrow> channels st2 a = channels ?st a"
    using t(3) c(2) by (auto simp: own_chans_def)
  ultimately show ?thesis
    using i oc dq(3,4) t(2) by (intro exI [of _ ?v] exI [of _ ?m]) (simp add: own_nodes_def nodes_def own_blocks_def unstocked_def)
qed

section \<open>Properties\<close>

text \<open>
  Property C33. Shutting a worker down undoes its initialisation: if memory can be allocated, \<^verbatim>\<open>RT_exit\<close> after
  \<^verbatim>\<open>RT_init\<close> fails no assertion and leaves the memory as it was, with and without \<^verbatim>\<open>CHANNEL_CACHE\<close>. In particular the order of
  the calls is right: the request channel may go into a cache, which is freed next, and the task channels, freed after the
  caches, do not end up in one.
\<close>

theorem RT_init_exit_roundtrip:
  assumes "plenty im (nat (MAXSTEAL cfg)) m" "unentered m" "0 \<le> MAXSTEAL cfg * N" "MAXSTEAL cfg * N < 2 ^ 26"
  shows "\<exists>v m'. RT_init_memory CC env cfg N im m = Some (v, m') \<and> m' \<noteq> m \<and> RT_exit CC v m' = Some m"
proof -
  have "unstocked CC (rm_cache m)"
    using assms(2) by (auto simp: unstocked_def cache_ready_def unentered_def cache_inv_def caches_ok_def split: option.split)
  from RT_init_memory_intact [OF assms(1) this assms(3,4), of env] obtain v m' where
    i: "RT_init_memory CC env cfg N im m = Some (v, m')" and ok: "intact CC v m' [] []"
    and o: "own_chans v = map (chan_addr im) [0..<Suc (nat (MAXSTEAL cfg))]" "all_cached (caches (rm_cache m')) = []"
      "own_nodes v [] [] = {im_dummy im}" "own_blocks v = [im_deque im, im_stack im, im_queue im]"
    and f: "\<forall>a. a \<notin> set (own_chans v) \<longrightarrow> channels (rm_cache m') a = channels (rm_cache m) a"
      "\<forall>a. a \<noteq> im_dummy im \<longrightarrow> rm_tasks m' a = rm_tasks m a"
      "rm_blocks m' = (rm_blocks m)(im_deque im \<mapsto> (), im_stack im \<mapsto> (), im_queue im \<mapsto> ())"
    by blast
  note pl = assms(1) [unfolded plenty_def]
  have "\<forall>a \<in> set (own_chans v). channels (rm_cache m) a = None" using pl o(1) by (auto simp: less_Suc_eq_le simp del: upt_Suc)
  then have "channels (rm_cache m') |` (- own_cells v (caches (rm_cache m'))) = channels (rm_cache m)"
    using f(1) o(2) by (auto simp: own_cells_def restrict_map_def fun_eq_iff)
  moreover have "rm_tasks m' |` (- own_nodes v [] []) = rm_tasks m"
    using f(2) o(3) pl by (auto simp: restrict_map_def fun_eq_iff)
  moreover have "rm_blocks m' |` (- set (own_blocks v)) = rm_blocks m"
    using f(3) o(4) pl by (auto simp: restrict_map_def fun_eq_iff)
  ultimately have "without (own_cells v (caches (rm_cache m'))) (own_nodes v [] []) (set (own_blocks v)) m' = m"
    using assms(2) by (cases m; cases m') (simp add: without_def unentered_def)
  then have "RT_exit CC v m' = Some m" using RT_exit_without [OF ok] by simp
  moreover have "m' \<noteq> m" using f(3) pl by (metis fun_upd_same option.distinct(1))
  ultimately show ?thesis using i by blast
qed

definition demo_mallocs_init :: init_mallocs where
  "demo_mallocs_init = \<lparr>im_deque = 8, im_dummy = 16, im_chan = (\<lambda>k. (of_nat k * 8 + 64, True, True)), im_stack = 24, im_queue = 32\<rparr>"

definition empty_memory :: rt_memory where
  "empty_memory = \<lparr>rm_cache = \<lparr>channels = Map.empty, caches = [], channel_cache_len = 0\<rparr>, rm_tasks = Map.empty, rm_blocks = Map.empty\<rparr>"

lemma demo_plenty: "plenty demo_mallocs_init 1 empty_memory"
  by (auto simp: plenty_def demo_mallocs_init_def empty_memory_def chan_addr_def le_Suc_eq)

theorem RT_init_exit_roundtrip_witness:
  "\<exists>v m. RT_init_memory (Some 100) demo_env default_config 4 demo_mallocs_init empty_memory = Some (v, m) \<and>
    RT_exit (Some 100) v m = Some empty_memory"
  using RT_init_exit_roundtrip [of demo_mallocs_init default_config empty_memory 4 "Some 100" demo_env] demo_plenty
  by (auto simp: default_config_def unentered_def empty_memory_def)

text \<open>
  Property C34. The end of the program frees all of the runtime's memory: if every thread owns its deque, its channels, the channels in its
  caches and its blocks, no two threads own the same object, no task is left in a task channel and the counters agree, then the part of \<^verbatim>\<open>tasking_exit\<close> that follows
  the barrier fails no assertion, prints the statistics of every worker, and leaves exactly the objects
  that belong to none of the threads, are not the root task and not the two arrays of the main program: what the threads own is
  freed, once, and nothing else is.
\<close>

theorem tasking_exit_frees_all:
  assumes "\<forall>x \<in> set xs. ready_to_exit CC cfg m x" "apart xs" "unentered m"
    and "live (rm_blocks m) [wt, ids]" "\<forall>x \<in> set xs. {wt, ids} \<inter> ex_blocks x = {}"
    and "deref (rm_tasks m) r = Some t" "is_root_task t" "\<forall>x \<in> set xs. r \<notin> ex_nodes x"
  shows "\<exists>outs m'. tasking_exit_end CC cfg (map fst xs) wt ids r m = Some (outs, m') \<and> length outs = length xs \<and>
    channels (rm_cache m') = channels (rm_cache m) |` (- (\<Union> (ex_cells ` set xs))) \<and>
    rm_tasks m' = rm_tasks m |` (- insert r (\<Union> (ex_nodes ` set xs))) \<and>
    rm_blocks m' = rm_blocks m |` (- ({wt, ids} \<union> \<Union> (ex_blocks ` set xs))) \<and> unentered m'"
proof -
  let ?m = "without (\<Union> (ex_cells ` set xs)) (\<Union> (ex_nodes ` set xs)) (\<Union> (ex_blocks ` set xs)) m"
  obtain outs where o: "join_workers CC cfg (map fst xs) m = Some (outs, ?m)"
    "map Some outs = map (tasking_statistics cfg \<circ> th_worker \<circ> fst) xs"
    using join_workers_without [OF assms(1-3)] by blast
  have "length outs = length xs" using arg_cong [OF o(2), of length] by simp
  moreover have "live (rm_blocks ?m) [wt, ids]"
    using live_restrict [OF assms(4), of "\<Union> (ex_blocks ` set xs)"] assms(5) by (auto simp: without_simps)
  note b = live_free [OF this]
  have r: "deref (rm_tasks ?m) r = Some t" using assms(6,8) by (auto simp: without_simps deref_def restrict_map_def)
  let ?m' = "?m\<lparr>rm_tasks := (rm_tasks ?m)(r := None), rm_blocks := (rm_blocks ?m)(wt := None, ids := None)\<rparr>"
  have "tasking_exit_end CC cfg (map fst xs) wt ids r m = Some (outs, ?m')"
    using o(1) b(1) live_free(1) [OF b(2)] r assms(7) by (simp add: tasking_exit_end_def heap_simps)
  moreover have "rm_tasks ?m' = rm_tasks m |` (- insert r (\<Union> (ex_nodes ` set xs)))"
    "rm_blocks ?m' = rm_blocks m |` (- ({wt, ids} \<union> \<Union> (ex_blocks ` set xs)))"
    by (auto simp: without_simps restrict_map_def fun_eq_iff)
  moreover have "unentered ?m'" "channels (rm_cache ?m') = channels (rm_cache m) |` (- (\<Union> (ex_cells ` set xs)))"
    using without_simps(4) by (simp_all add: without_simps unentered_def)
  ultimately show ?thesis by blast
qed

text \<open>A program with one worker: the main program with its root task and the two arrays.\<close>

definition main_memory :: rt_memory where
  "main_memory = empty_memory\<lparr>rm_tasks := [40 \<mapsto> root_task (env_junk demo_env)], rm_blocks := [48 \<mapsto> (), 56 \<mapsto> ()]\<rparr>"

definition leave_thread :: "rt_memory \<Rightarrow> rt_memory" where
  "leave_thread m = m\<lparr>rm_cache := (rm_cache m)\<lparr>caches := [], channel_cache_len := 0\<rparr>\<rparr>"

definition thread_of :: "worker \<Rightarrow> rt_vars \<Rightarrow> rt_memory \<Rightarrow> rt_thread" where
  "thread_of w v m = \<lparr>th_worker = w, th_vars = v, th_caches = caches (rm_cache m), th_cache_len = channel_cache_len (rm_cache m)\<rparr>"

lemma enter_leave: "enter_thread (thread_of w v m) (leave_thread m) = m"
  by (simp add: enter_thread_def thread_of_def leave_thread_def)

theorem tasking_exit_frees_all_witness:
  "\<exists>v m outs m'. RT_init_memory (Some 100) demo_env default_config 1 demo_mallocs_init main_memory = Some (v, m) \<and>
    tasking_exit_end (Some 100) default_config [thread_of thread_private v m] 48 56 40 (leave_thread m) = Some (outs, m') \<and>
    rm_tasks m' = Map.empty \<and> rm_blocks m' = Map.empty"
proof -
  have pl: "plenty demo_mallocs_init (nat (MAXSTEAL default_config)) main_memory"
    using demo_plenty by (simp add: plenty_def main_memory_def demo_mallocs_init_def default_config_def empty_memory_def)
  have un: "unstocked (Some 100) (rm_cache main_memory)"
    by (simp add: unstocked_def cache_ready_def main_memory_def empty_memory_def cache_inv_def caches_ok_def)
  obtain v m where i: "RT_init_memory (Some 100) demo_env default_config 1 demo_mallocs_init main_memory = Some (v, m)"
    and ok: "intact (Some 100) v m [] []" and o: "own_nodes v [] [] = {16}" "own_blocks v = [8, 24, 32]"
    and f: "\<forall>a. a \<noteq> 16 \<longrightarrow> rm_tasks m a = rm_tasks main_memory a"
      "rm_blocks m = (rm_blocks main_memory)(8 \<mapsto> (), 24 \<mapsto> (), 32 \<mapsto> ())"
    using RT_init_memory_intact [OF pl un, of 1 demo_env] by (auto simp: default_config_def demo_mallocs_init_def)
  let ?t = "thread_of thread_private v m" and ?r = "root_task (env_junk demo_env)"
  have r: "deref (rm_tasks (leave_thread m)) 40 = Some ?r"
    using f(1) by (simp add: leave_thread_def deref_def main_memory_def)
  have b: "live (rm_blocks (leave_thread m)) [48, 56]"
    using f(2) by (simp add: live_def leave_thread_def deref_def main_memory_def)
  have "\<forall>x \<in> set [(?t, [], [])]. ready_to_exit (Some 100) default_config (leave_thread m) x"
    using ok by (simp add: ready_to_exit_def enter_leave)
      (simp add: thread_of_def tasking_statistics_def thread_private_def)
  moreover have "\<forall>x \<in> set [(?t, [], [])]. {48, 56} \<inter> ex_blocks x = {}" "\<forall>x \<in> set [(?t, [], [])]. 40 \<notin> ex_nodes x"
    using o by (simp_all add: ex_blocks_def ex_nodes_def thread_of_def)
  moreover have "unentered (leave_thread m)" by (simp add: unentered_def leave_thread_def)
  moreover have "is_root_task ?r" by (simp add: is_root_task_def root_task_def)
  ultimately obtain outs m' where e: "tasking_exit_end (Some 100) default_config [?t] 48 56 40 (leave_thread m) = Some (outs, m')"
    "rm_tasks m' = rm_tasks (leave_thread m) |` (- insert 40 (ex_nodes (?t, [], [])))"
    "rm_blocks m' = rm_blocks (leave_thread m) |` (- ({48, 56} \<union> ex_blocks (?t, [], [])))"
    using tasking_exit_frees_all [of "[(?t, [], [])]" "Some 100" default_config "leave_thread m" 48 56 40 ?r] r b by auto
  have "rm_tasks m' = Map.empty" "rm_blocks m' = Map.empty"
    using e(2,3) o f by (auto simp: ex_blocks_def ex_nodes_def thread_of_def leave_thread_def main_memory_def restrict_map_def
        empty_memory_def fun_eq_iff)
  then show ?thesis using i e(1) by blast
qed

text \<open>
  Property C36. The statistics add up: in every reachable state, whatever the tasks do and whatever the build options are, the assertion of
  \<^verbatim>\<open>tasking_statistics\<close> holds for every worker, so that its numbers are printed. All request counters are private to a worker and only
  \<^verbatim>\<open>try_send_steal_request\<close> changes them.
\<close>

theorem statistics_agree:
  assumes "reachable env cfg z" "i < length (workers z)"
  shows "\<exists>out. tasking_statistics cfg (workers z ! i) = Some out \<and> Count ''steal requests sent'' (requests_sent (workers z ! i)) \<in> set out"
  using reachable_books [OF assms(1), of "workers z ! i"] assms(2) by (auto simp: tasking_statistics_def books_def)

theorem statistics_agree_witness:
  "\<exists>z out. demo to_barrier = Some z \<and> tasking_statistics default_config (workers z ! 1) = Some out"
proof -
  obtain z where z: "demo to_barrier = Some z" "length (workers z) = 2"
    using to_barrier_run by (auto split: option.splits)
  then show ?thesis using statistics_agree [OF demo_reachable [OF z(1)], of 1] by auto
qed

text \<open>
  Property C35. No worker thread leaves its scheduling loop, and no worker considers tasking finished, before the main program shuts the runtime down:
  only \<^verbatim>\<open>RT_EXIT_FN\<close> sets \<^verbatim>\<open>tasking_finished\<close>.
\<close>

theorem threads_stay:
  assumes "reachable env cfg z" "i < length (workers z)"
  shows "\<not> tasking_finished (workers z ! i) \<and> Schedule Leave \<notin> set (stacks z ! i)"
  using reachable_stay [OF assms(1)] assms(2) by (simp add: all_stay_def)

theorem threads_stay_witness:
  "\<exists>z. demo to_barrier = Some z \<and> \<not> tasking_finished (workers z ! 1) \<and> Schedule Leave \<notin> set (stacks z ! 1)"
proof -
  obtain z where z: "demo to_barrier = Some z" "length (workers z) = 2"
    using to_barrier_run by (auto split: option.splits)
  then show ?thesis using threads_stay [OF demo_reachable [OF z(1)], of 1] by auto
qed

end
