(* ===== verification/Eager.thy ===== *)
theory Eager
  imports Worker_State
begin

text \<open>
  The other build of futures (\<^verbatim>\<open>future_internal.h\<close> without \<^verbatim>\<open>LAZY_FUTURES\<close>): a future is a channel from the beginning.
  And \<^verbatim>\<open>REDUCE\<close> (\<^verbatim>\<open>EXPERIMENTAL\<close>), which collects the results of the parts that were split off from a loop task, in
  both builds.
\<close>

section \<open>Definitions\<close>

text \<open>
  \<^verbatim>\<open>FUTURE_ALLOC(fun)\<close> is \<^verbatim>\<open>fun_channel()\<close>, an unbuffered channel for a result of type \<^verbatim>\<open>rty\<close>, here of \<open>rsz\<close> bytes; \<open>p\<close> is the address
  \<^verbatim>\<open>malloc\<close> returns.
\<close>

definition fun_channel :: "addr \<Rightarrow> (nat \<Rightarrow> byte) \<Rightarrow> nat \<Rightarrow> channel heap \<Rightarrow> addr \<times> channel heap" where
  "fun_channel p junk rsz h = (case channel_new (p \<noteq> NULL) True junk (of_nat rsz) 0 SPSC of
     Some c \<Rightarrow> (p, h(p \<mapsto> c)) | None \<Rightarrow> (NULL, h))"

definition FUTURE_SET_eager :: "addr \<Rightarrow> byte list \<Rightarrow> channel heap \<Rightarrow> channel heap option" where
  "FUTURE_SET_eager fut res h = do {
     c \<leftarrow> deref h fut;
     (_, c) \<leftarrow> channel_send c res (of_nat (length res));
     assign h fut (\<lambda>_. c)
   }"

text \<open>The macro \<^verbatim>\<open>READY\<close> of this build: the received bytes go to the buffer of the caller.\<close>

definition READY_eager :: "addr \<Rightarrow> nat \<Rightarrow> channel heap \<Rightarrow> (byte list option \<times> channel heap) option" where
  "READY_eager chan n h = do {
     c \<leftarrow> deref h chan;
     (r, c) \<leftarrow> channel_receive c (of_nat n);
     h \<leftarrow> assign h chan (\<lambda>_. c);
     Some (r, h)
   }"

text \<open>
  \<^verbatim>\<open>FUTURE_GET\<close>: one poll by \<^verbatim>\<open>RT_force_future\<close>, and \<^verbatim>\<open>channel_free\<close> when it has returned. While there is no result \<^verbatim>\<open>RT_force_future\<close> runs
  tasks and polls again.
\<close>

definition FUTURE_GET_eager :: "addr \<Rightarrow> nat \<Rightarrow> channel heap \<Rightarrow> (byte list option \<times> channel heap) option" where
  "FUTURE_GET_eager fut n h = do {
     c \<leftarrow> deref h fut;
     assertion (channel_impl c = SPSC);
     (r, h) \<leftarrow> READY_eager fut n h;
     case r of
       None \<Rightarrow> Some (None, h)
     | Some data \<Rightarrow> do { h \<leftarrow> c_free h fut; Some (Some data, h) }
   }"

text \<open>
  \<^verbatim>\<open>REDUCE(op, var)\<close>. \<open>await\<close> is \<^verbatim>\<open>AWAIT\<close>, which may run any number of tasks before it returns the result; with \<^verbatim>\<open>LAZY_FUTURES\<close>
  the future itself was allocated on the heap too and is freed.
\<close>

partial_function (option) REDUCE ::
  "bool \<Rightarrow> (addr \<Rightarrow> shared \<Rightarrow> ('v \<times> shared) option) \<Rightarrow> ('a \<Rightarrow> 'v \<Rightarrow> 'a) \<Rightarrow> addr \<Rightarrow> 'a \<Rightarrow> shared \<Rightarrow> ('a \<times> shared) option"
where
  "REDUCE lazy await opr this var sh = do {
     t \<leftarrow> deref (task_mem sh) this;
     if t_futures t \<noteq> NULL then do {
       let p = t_futures t;
       node \<leftarrow> deref (fut_nodes sh) p;
       h \<leftarrow> assign (task_mem sh) this (\<lambda>t. t\<lparr>t_futures := fn_next node\<rparr>);
       (v, sh) \<leftarrow> await (fn_f node) (sh\<lparr>task_mem := h\<rparr>);
       let var = opr var v;
       node \<leftarrow> deref (fut_nodes sh) p;
       sh \<leftarrow> (if lazy then do {
           fs \<leftarrow> c_free (fm_futures (fut_mem sh)) (fn_f node);
           Some (sh\<lparr>fut_mem := (fut_mem sh)\<lparr>fm_futures := fs\<rparr>\<rparr>)
         } else Some sh);
       ns \<leftarrow> c_free (fut_nodes sh) p;
       REDUCE lazy await opr this var (sh\<lparr>fut_nodes := ns\<rparr>)
     } else Some (var, sh)
   }"

text \<open>
  \<^verbatim>\<open>AWAIT\<close> of a future whose result has arrived: the first poll of \<^verbatim>\<open>RT_force_future\<close> succeeds. One definition for each build.
\<close>

definition await_lazy :: "nat \<Rightarrow> addr \<Rightarrow> shared \<Rightarrow> (byte list \<times> shared) option" where
  "await_lazy n f sh = do {
     (r, m) \<leftarrow> future_get f n (fut_mem sh);
     data \<leftarrow> r;
     Some (data, sh\<lparr>fut_mem := m\<rparr>)
   }"

definition await_eager :: "nat \<Rightarrow> addr \<Rightarrow> shared \<Rightarrow> (byte list \<times> shared) option" where
  "await_eager n f sh = do {
     (r, h) \<leftarrow> FUTURE_GET_eager f n (fm_channels (fut_mem sh));
     data \<leftarrow> r;
     Some (data, sh\<lparr>fut_mem := (fut_mem sh)\<lparr>fm_channels := h\<rparr>\<rparr>)
   }"

section \<open>Reductions\<close>

text \<open>The list of futures of a task: the addresses of the nodes and of the futures.\<close>

fun node_chain :: "future_node heap \<Rightarrow> addr \<Rightarrow> (addr \<times> addr) list \<Rightarrow> bool" where
  "node_chain ns p [] \<longleftrightarrow> p = NULL"
| "node_chain ns p ((q, f) # qs) \<longleftrightarrow> p = q \<and> (\<exists>node. deref ns q = Some node \<and> fn_f node = f \<and> node_chain ns (fn_next node) qs)"

lemma node_chain_cong: "node_chain ns p qs \<Longrightarrow> \<forall>q \<in> fst ` set qs. ns' q = ns q \<Longrightarrow> node_chain ns' p qs"
  by (induction ns p qs rule: node_chain.induct) (auto simp: deref_def)

text \<open>
  What \<^verbatim>\<open>REDUCE\<close> needs of a build: \<open>waiting fs sh\<close> says that the results \<open>val\<close> of the futures \<open>fs\<close> have arrived. \<^verbatim>\<open>AWAIT\<close> returns the result of the first one and
  keeps the others, the nodes and the task; the future itself can then be freed, if it is on the heap.
\<close>

locale reduction =
  fixes lazy :: bool and await :: "addr \<Rightarrow> shared \<Rightarrow> ('v \<times> shared) option" and val :: "addr \<Rightarrow> 'v"
    and waiting :: "addr list \<Rightarrow> shared \<Rightarrow> bool"
  assumes await_first: "waiting (f # fs) sh \<Longrightarrow> \<exists>sh'. await f sh = Some (val f, sh') \<and> task_mem sh' = task_mem sh \<and>
      fut_nodes sh' = fut_nodes sh \<and> (lazy \<longrightarrow> deref (fm_futures (fut_mem sh')) f \<noteq> None) \<and>
      fm_futures (fut_mem sh') = fm_futures (fut_mem sh) \<and> waiting fs sh'"
    and waiting_frame: "waiting fs sh \<Longrightarrow> fut_mem sh' = fut_mem sh \<Longrightarrow> waiting fs sh'"
    and waiting_free: "waiting fs sh \<Longrightarrow> f \<notin> set fs \<Longrightarrow> lazy \<Longrightarrow>
      waiting fs (sh\<lparr>fut_mem := (fut_mem sh)\<lparr>fm_futures := (fm_futures (fut_mem sh))(f := None)\<rparr>\<rparr>)"
begin

lemma reduce:
  assumes "deref (task_mem sh) this = Some t" "node_chain (fut_nodes sh) (t_futures t) qs" "distinct (map fst qs)" "distinct (map snd qs)"
    "waiting (map snd qs) sh"
  shows "\<exists>sh'. REDUCE lazy await opr this var sh = Some (foldl opr var (map (\<lambda>q. val (snd q)) qs), sh') \<and>
    deref (task_mem sh') this = Some (t\<lparr>t_futures := NULL\<rparr>) \<and> fut_nodes sh' = fut_nodes sh |` (- set (map fst qs)) \<and>
    fm_futures (fut_mem sh') = (if lazy then fm_futures (fut_mem sh) |` (- set (map snd qs)) else fm_futures (fut_mem sh))"
  using assms
proof (induction qs arbitrary: sh t var)
  case Nil
  then have "REDUCE lazy await opr this var sh = Some (var, sh)" by (simp add: REDUCE.simps [of _ _ _ _ _ sh])
  moreover have "t = t\<lparr>t_futures := NULL\<rparr>" using Nil.prems(2) by simp
  ultimately show ?case using Nil.prems(1) by (auto simp: restrict_map_def)
next
  case (Cons q qs)
  obtain p f where q: "q = (p, f)" by (cases q)
  obtain node where node: "t_futures t = p" "deref (fut_nodes sh) p = Some node" "fn_f node = f" "node_chain (fut_nodes sh) (fn_next node) qs"
    using Cons.prems(2) q by auto
  have np: "p \<noteq> NULL" "this \<noteq> NULL" using node(2) Cons.prems(1) by auto
  let ?t = "t\<lparr>t_futures := fn_next node\<rparr>" and ?h = "(task_mem sh)(this \<mapsto> t\<lparr>t_futures := fn_next node\<rparr>)"
  let ?sh = "sh\<lparr>task_mem := ?h\<rparr>"
  have "waiting (f # map snd qs) ?sh" by (rule waiting_frame [of _ sh]) (use Cons.prems(5) q in simp_all)
  from await_first [OF this] obtain sh1 where a: "await f ?sh = Some (val f, sh1)" "task_mem sh1 = ?h" "fut_nodes sh1 = fut_nodes sh"
    "lazy \<longrightarrow> deref (fm_futures (fut_mem sh1)) f \<noteq> None" "fm_futures (fut_mem sh1) = fm_futures (fut_mem sh)" "waiting (map snd qs) sh1"
    by auto
  let ?fut = "if lazy then (fm_futures (fut_mem sh1))(f := None) else fm_futures (fut_mem sh1)"
  let ?sh2 = "sh1\<lparr>fut_mem := (fut_mem sh1)\<lparr>fm_futures := ?fut\<rparr>, fut_nodes := (fut_nodes sh)(p := None)\<rparr>"
  have fr: "c_free (fm_futures (fut_mem sh1)) f = Some ?fut" if lazy
    using a(4) that by (auto simp: heap_simps)
  have step: "REDUCE lazy await opr this var sh = REDUCE lazy await opr this (opr var (val f)) ?sh2"
    using Cons.prems(1) node np a(1-3) fr
    by (cases lazy) (simp_all add: REDUCE.simps [of _ _ _ _ _ sh] heap_simps)
  have f: "f \<notin> set (map snd qs)" "p \<notin> set (map fst qs)" using Cons.prems(3,4) q by auto
  have w1: "waiting (map snd qs) (sh1\<lparr>fut_mem := (fut_mem sh1)\<lparr>fm_futures := ?fut\<rparr>\<rparr>)"
    using waiting_free [OF a(6) f(1)] a(6) by (cases lazy) simp_all
  have w2: "waiting (map snd qs) ?sh2" by (rule waiting_frame [OF w1]) simp
  have nc: "node_chain (fut_nodes ?sh2) (t_futures ?t) qs"
    using node_chain_cong [OF node(4), of "(fut_nodes sh)(p := None)"] f(2) by force
  have dt: "deref (task_mem ?sh2) this = Some ?t" using a(2) np by (simp add: deref_def)
  have ds: "distinct (map fst qs)" "distinct (map snd qs)" using Cons.prems(3,4) q by simp_all
  obtain sh' where r: "REDUCE lazy await opr this (opr var (val f)) ?sh2 =
      Some (foldl opr (opr var (val f)) (map (\<lambda>q. val (snd q)) qs), sh')"
    "deref (task_mem sh') this = Some (?t\<lparr>t_futures := NULL\<rparr>)" "fut_nodes sh' = fut_nodes ?sh2 |` (- set (map fst qs))"
    "fm_futures (fut_mem sh') = (if lazy then fm_futures (fut_mem ?sh2) |` (- set (map snd qs)) else fm_futures (fut_mem ?sh2))"
    using Cons.IH [OF dt nc ds w2, of "opr var (val f)"] by blast
  have "fut_nodes sh' = fut_nodes sh |` (- set (map fst (q # qs)))"
    using r(3) q by (auto simp: restrict_map_def fun_eq_iff)
  moreover have "fm_futures (fut_mem sh') = (if lazy then fm_futures (fut_mem sh) |` (- set (map snd (q # qs))) else fm_futures (fut_mem sh))"
    using r(4) q a(5) by (auto simp: restrict_map_def fun_eq_iff)
  ultimately show ?case using step r(1,2) q by simp
qed

end

section \<open>Results that have arrived\<close>

text \<open>The channel of a future with a result of \<open>n\<close> bytes in it.\<close>

definition holds_result :: "nat \<Rightarrow> byte list \<Rightarrow> channel \<Rightarrow> bool" where
  "holds_result n res c \<longleftrightarrow> ch_impl c = SPSC \<and> (\<exists>c'. channel_receive c (of_nat n) = Some (Some res, c') \<and> ch_impl c' = SPSC)"

definition eager_waiting :: "nat \<Rightarrow> (addr \<Rightarrow> byte list) \<Rightarrow> addr list \<Rightarrow> shared \<Rightarrow> bool" where
  "eager_waiting n val fs sh \<longleftrightarrow> distinct fs \<and>
     (\<forall>f \<in> set fs. \<exists>c. deref (fm_channels (fut_mem sh)) f = Some c \<and> holds_result n (val f) c)"

definition chan_of :: "fut_mem \<Rightarrow> addr \<Rightarrow> addr" where
  "chan_of m f = (case deref (fm_futures m) f of
     Some fut \<Rightarrow> (case lf_val fut of FChan p \<Rightarrow> p | FBuf _ \<Rightarrow> NULL) | None \<Rightarrow> NULL)"

definition lazy_waiting :: "nat \<Rightarrow> (addr \<Rightarrow> byte list) \<Rightarrow> addr list \<Rightarrow> shared \<Rightarrow> bool" where
  "lazy_waiting n val fs sh \<longleftrightarrow> distinct (map (chan_of (fut_mem sh)) fs) \<and>
     (\<forall>f \<in> set fs. \<exists>c. converted f (chan_of (fut_mem sh) f) c (fut_mem sh) \<and> holds_result n (val f) c)"

lemma FUTURE_GET_arrived:
  assumes "deref h f = Some c" "holds_result n res c"
  shows "FUTURE_GET_eager f n h = Some (Some res, h(f := None))"
proof -
  obtain c' where c': "channel_receive c (of_nat n) = Some (Some res, c')" "ch_impl c = SPSC"
    using assms(2) by (auto simp: holds_result_def)
  have np: "f \<noteq> NULL" using assms(1) by auto
  then show ?thesis
    using assms(1) c' by (simp add: FUTURE_GET_eager_def READY_eager_def channel_impl_def heap_simps c_free_def)
qed

lemma future_get_arrived:
  assumes "converted f p c m" "holds_result n res c"
  shows "future_get f n m = Some (Some res, m\<lparr>fm_channels := (fm_channels m)(p := None)\<rparr>)"
proof -
  obtain c' where c': "channel_receive c (of_nat n) = Some (Some res, c')" "ch_impl c' = SPSC"
    using assms(2) by (auto simp: holds_result_def)
  have f: "deref (fm_futures m) f = Some (new_future\<lparr>lf_val := FChan p, has_channel := True\<rparr>)"
    and d: "deref (fm_channels m) p = Some c" using assms(1) by (simp_all add: converted_def)
  then have np: "p \<noteq> NULL" by auto
  then show ?thesis
    using f d c' by (simp add: future_get_def future_ready_def force_future_return_def heap_simps channel_impl_def)
qed

interpretation eager_parts: reduction False "await_eager n" val "eager_waiting n val" for n val
proof
  fix f fs sh assume w: "eager_waiting n val (f # fs) sh"
  let ?m = "fut_mem sh"
  obtain c where c: "deref (fm_channels ?m) f = Some c" "holds_result n (val f) c" using w by (auto simp: eager_waiting_def)
  let ?sh = "sh\<lparr>fut_mem := ?m\<lparr>fm_channels := (fm_channels ?m)(f := None)\<rparr>\<rparr>"
  have "await_eager n f sh = Some (val f, ?sh)" using FUTURE_GET_arrived [OF c] by (simp add: await_eager_def)
  moreover have "eager_waiting n val fs ?sh" using w by (auto simp: eager_waiting_def deref_def)
  ultimately show "\<exists>sh'. await_eager n f sh = Some (val f, sh') \<and> task_mem sh' = task_mem sh \<and> fut_nodes sh' = fut_nodes sh \<and>
      (False \<longrightarrow> deref (fm_futures (fut_mem sh')) f \<noteq> None) \<and> fm_futures (fut_mem sh') = fm_futures (fut_mem sh) \<and> eager_waiting n val fs sh'"
    by (intro exI [of _ ?sh]) simp
qed (simp_all add: eager_waiting_def)

interpretation lazy_parts: reduction True "await_lazy n" val "lazy_waiting n val" for n val
proof
  fix f fs sh assume w: "lazy_waiting n val (f # fs) sh"
  let ?m = "fut_mem sh"
  let ?p = "chan_of ?m f"
  obtain c where c: "converted f ?p c ?m" "holds_result n (val f) c" using w by (auto simp: lazy_waiting_def)
  let ?m' = "?m\<lparr>fm_channels := (fm_channels ?m)(?p := None)\<rparr>"
  let ?sh = "sh\<lparr>fut_mem := ?m'\<rparr>"
  have "await_lazy n f sh = Some (val f, ?sh)" using future_get_arrived [OF c] by (simp add: await_lazy_def)
  moreover have co: "chan_of ?m' = chan_of ?m" by (simp add: chan_of_def fun_eq_iff)
  have "\<exists>d. converted g (chan_of ?m' g) d ?m' \<and> holds_result n (val g) d" if g: "g \<in> set fs" for g
  proof -
    obtain d where "converted g (chan_of ?m g) d ?m" "holds_result n (val g) d" using w g by (auto simp: lazy_waiting_def)
    moreover have "?p \<notin> chan_of ?m ` set fs" using w by (simp add: lazy_waiting_def)
    then have "chan_of ?m g \<noteq> ?p" using g by (metis image_eqI)
    ultimately show ?thesis unfolding co by (auto simp: converted_def deref_def)
  qed
  then have "lazy_waiting n val fs ?sh" using w co by (simp add: lazy_waiting_def)
  moreover have "deref (fm_futures ?m) f \<noteq> None" using c(1) by (simp add: converted_def)
  ultimately show "\<exists>sh'. await_lazy n f sh = Some (val f, sh') \<and> task_mem sh' = task_mem sh \<and> fut_nodes sh' = fut_nodes sh \<and>
      (True \<longrightarrow> deref (fm_futures (fut_mem sh')) f \<noteq> None) \<and> fm_futures (fut_mem sh') = fm_futures (fut_mem sh) \<and> lazy_waiting n val fs sh'"
    by (intro exI [of _ ?sh]) simp
next
  fix fs sh f assume w: "lazy_waiting n val fs sh" and f: "f \<notin> set fs"
  let ?m = "fut_mem sh"
  let ?m' = "?m\<lparr>fm_futures := (fm_futures ?m)(f := None)\<rparr>"
  have co: "chan_of ?m' g = chan_of ?m g" if "g \<in> set fs" for g using that f by (auto simp: chan_of_def deref_def)
  then have mp: "map (chan_of ?m') fs = map (chan_of ?m) fs" by simp
  have "distinct (map (chan_of ?m') fs)" unfolding mp using w by (simp add: lazy_waiting_def)
  moreover have "\<exists>d. converted g (chan_of ?m' g) d ?m' \<and> holds_result n (val g) d" if g: "g \<in> set fs" for g
    using w g co [OF g] f by (auto simp: lazy_waiting_def converted_def deref_def)
  ultimately show "lazy_waiting n val fs (sh\<lparr>fut_mem := ?m'\<rparr>)" using w by (simp add: lazy_waiting_def)
qed (simp_all add: lazy_waiting_def)

section \<open>Properties\<close>

text \<open>
  What the creator of a future and its task do, for each build: the creator polls the future twice, the task stores its result, the creator polls again. With
  \<^verbatim>\<open>LAZY_FUTURES\<close> the task may have been stolen after the first poll, which converts the future.
\<close>

definition eager_session ::
  "addr \<Rightarrow> (nat \<Rightarrow> byte) \<Rightarrow> nat \<Rightarrow> byte list \<Rightarrow> channel heap \<Rightarrow> (byte list option list \<times> channel heap) option"
where
  "eager_session p junk rsz res h = do {
     let (f, h) = fun_channel p junk rsz h;
     (r\<^sub>0, h) \<leftarrow> FUTURE_GET_eager f (length res) h;
     (r\<^sub>1, h) \<leftarrow> FUTURE_GET_eager f (length res) h;
     h \<leftarrow> FUTURE_SET_eager f res h;
     (r\<^sub>2, h) \<leftarrow> FUTURE_GET_eager f (length res) h;
     Some ([r\<^sub>0, r\<^sub>1, r\<^sub>2], h)
   }"

definition lazy_session ::
  "bool \<Rightarrow> addr \<Rightarrow> (nat \<Rightarrow> byte) \<Rightarrow> task \<Rightarrow> byte list \<Rightarrow> fut_mem \<Rightarrow> (byte list option list \<times> fut_mem) option"
where
  "lazy_session stolen p junk t res m = do {
     let f = future_of_task t;
     let m = FUTURE_ALLOC f m;
     (r\<^sub>0, m) \<leftarrow> future_get f (length res) m;
     m \<leftarrow> (if stolen then FUTURE_CONVERT p junk t m else Some m);
     (r\<^sub>1, m) \<leftarrow> future_get f (length res) m;
     m \<leftarrow> FUTURE_SET f res m;
     (r\<^sub>2, m) \<leftarrow> future_get f (length res) m;
     Some ([r\<^sub>0, r\<^sub>1, r\<^sub>2], m)
   }"

lemma eager_session_result:
  assumes "p \<noteq> NULL" "length res \<le> rsz" "rsz < 2 ^ 31"
  shows "eager_session p junk rsz res h = Some ([None, None, Some res], h(p := None))"
proof -
  obtain c where c: "channel_new True True junk (of_nat rsz) 0 SPSC = Some c" by (simp add: channel_new_def Let_def)
  have rs: "unat (of_nat rsz :: uint) = rsz" using assms(3) by (simp add: unat_of_nat take_bit_eq_mod)
  have ci: "chan_inv c" "chan_slots c = []" "ch_itemsize c = of_nat rsz" "chan_cap c = 1"
    using channel_new_inv [OF c] rs assms(3) by auto
  have im: "ch_impl c = SPSC" using c by (auto simp: channel_new_def Let_def)
  let ?h0 = "h(p \<mapsto> c)"
  have a: "fun_channel p junk rsz h = (p, ?h0)" using c assms(1) by (simp add: fun_channel_def)
  have d: "deref ?h0 p = Some c" using assms(1) by (simp add: deref_def)
  obtain c1 c2 where m: "channel_send c res (of_nat (length res)) = Some (True, c1)"
    "channel_receive c1 (of_nat (length res)) = Some (Some res, c2)" "ch_impl c1 = SPSC" "ch_impl c2 = SPSC"
    using message_roundtrip [OF ci(1,2,4) im, of res] assms(2,3) ci(3) rs by auto
  have "FUTURE_GET_eager p (length res) ?h0 = Some (None, ?h0)"
    using d im channel_receive_empty [OF ci(1,2)] by (simp add: FUTURE_GET_eager_def READY_eager_def channel_impl_def heap_simps)
  moreover have "FUTURE_SET_eager p res ?h0 = Some (h(p \<mapsto> c1))"
    using d m(1) assms(1) by (simp add: FUTURE_SET_eager_def heap_simps)
  moreover have "FUTURE_GET_eager p (length res) (h(p \<mapsto> c1)) = Some (Some res, h(p := None))"
    using FUTURE_GET_arrived [of "h(p \<mapsto> c1)" p c1 "length res" res] m assms(1) by (simp add: holds_result_def deref_def)
  ultimately show ?thesis using a by (simp add: eager_session_def)
qed

lemma lazy_session_result:
  assumes "future_of_task t \<noteq> NULL" "p \<noteq> NULL" "length res \<le> 8"
  shows "\<exists>m'. lazy_session stolen p junk t res m = Some ([None, None, Some res], m') \<and>
    fm_channels m' = (if stolen then (fm_channels m)(p := None) else fm_channels m)"
proof -
  let ?f = "future_of_task t"
  let ?m = "FUTURE_ALLOC ?f m"
  have new: "deref (fm_futures ?m) ?f = Some new_future" using future_alloc_deref [OF assms(1)] .
  have ch: "fm_channels ?m = fm_channels m" by (simp add: FUTURE_ALLOC_def)
  obtain m1 where m1: "FUTURE_SET ?f res ?m = Some m1" "future_get ?f (length res) ?m = Some (None, ?m)"
    "future_get ?f (length res) m1 = Some (Some res, m1)" "fm_channels m1 = fm_channels ?m"
    using lazy_roundtrip [OF new assms(3)] by blast
  obtain m2 c where m2: "FUTURE_CONVERT p junk t ?m = Some m2" "converted ?f p c m2"
    "chan_inv c" "chan_slots c = []" "ch_itemsize c = 8" "chan_cap c = 1" "ch_impl c = SPSC" "fm_channels m2 = (fm_channels ?m)(p \<mapsto> c)"
    using FUTURE_CONVERT_new [of ?m t p junk] new assms(2) by auto
  obtain m3 m4 where m3: "FUTURE_SET ?f res m2 = Some m3" "future_get ?f (length res) m2 = Some (None, m2)"
    "future_get ?f (length res) m3 = Some (Some res, m4)" "fm_channels m4 = (fm_channels m2)(p := None)"
    using converted_roundtrip [OF m2(2-7) assms(3)] by blast
  show ?thesis using m1 m2(1,8) m3 ch by (cases stolen) (simp_all add: lazy_session_def)
qed

text \<open>
  Property C28. Both builds of futures agree: whoever polls a future sees the same, whether the future is a channel from the beginning, stays in the frame of its creator, or is
  converted to a channel when its task is stolen: nothing before the task has stored its result, of up to eight bytes, and the bytes of the result afterwards. Taking the
  result frees the channel, if there is one.
\<close>

theorem eager_lazy_agree:
  assumes "future_of_task t \<noteq> NULL" "p \<noteq> NULL" "q \<noteq> NULL" "length res \<le> 8" "length res \<le> rsz" "rsz < 2 ^ 31"
  shows "\<exists>rs m'. eager_session p junk rsz res h = Some (rs, h(p := None)) \<and> lazy_session stolen q junk t res m = Some (rs, m') \<and>
    rs = [None, None, Some res] \<and> fm_channels m' = (if stolen then (fm_channels m)(q := None) else fm_channels m)"
  using eager_session_result [OF assms(2,5,6)] lazy_session_result [OF assms(1,3,4)] by auto

theorem eager_lazy_agree_witness:
  "\<exists>h m'. eager_session 64 (\<lambda>_. 0) 8 [7, 9] Map.empty = Some ([None, None, Some [7, 9]], h) \<and>
    lazy_session True 72 (\<lambda>_. 0) (blank_task\<lparr>t_data := bytes_of_ptr 16\<rparr>) [7, 9] \<lparr>fm_futures = Map.empty, fm_channels = Map.empty\<rparr> =
      Some ([None, None, Some [7, 9]], m') \<and> fm_channels m' = Map.empty"
proof -
  have "future_of_task (blank_task\<lparr>t_data := bytes_of_ptr 16\<rparr>) \<noteq> NULL" by (simp add: future_of_task_def ptr_bytes_roundtrip)
  from eager_lazy_agree [OF this, of 64 72 "[7, 9]" 8 "\<lambda>_. 0" Map.empty True "\<lparr>fm_futures = Map.empty, fm_channels = Map.empty\<rparr>"]
  show ?thesis by auto
qed

text \<open>
  Property C29. \<^verbatim>\<open>REDUCE\<close> combines the results of all parts of a split loop, each once, from the most recent split to the first, in both builds of
  futures: it returns, leaves the list of the task empty, and frees the nodes and, with lazy futures, the futures, once each.
\<close>

theorem REDUCE_folds:
  assumes "deref (task_mem sh) this = Some t" "node_chain (fut_nodes sh) (t_futures t) qs"
    "distinct (map fst qs)" "distinct (map snd qs)"
    and "if lazy then lazy_waiting n val (map snd qs) sh else eager_waiting n val (map snd qs) sh"
  shows "\<exists>sh'. REDUCE lazy (if lazy then await_lazy n else await_eager n) opr this var sh = Some (foldl opr var (map (\<lambda>q. val (snd q)) qs), sh') \<and>
    deref (task_mem sh') this = Some (t\<lparr>t_futures := NULL\<rparr>) \<and> fut_nodes sh' = fut_nodes sh |` (- set (map fst qs)) \<and>
    fm_futures (fut_mem sh') = (if lazy then fm_futures (fut_mem sh) |` (- set (map snd qs)) else fm_futures (fut_mem sh))"
  using lazy_parts.reduce [OF assms(1-4), of n val opr var] eager_parts.reduce [OF assms(1-4), of n val opr var] assms(5)
  by (cases lazy) simp_all

lemma result_channel: "\<exists>c. holds_result 1 [x] c"
proof -
  obtain c where c: "channel_new True True (\<lambda>_. 0) 1 0 SPSC = Some c" by (simp add: channel_new_def Let_def)
  have "chan_inv c" "chan_slots c = []" "ch_itemsize c = 1" "chan_cap c = 1" using channel_new_inv [OF c] by auto
  moreover have "ch_impl c = SPSC" using c by (auto simp: channel_new_def Let_def)
  ultimately obtain c1 c2 where "channel_receive c1 (of_nat (length [x])) = Some (Some [x], c2)" "ch_impl c1 = SPSC" "ch_impl c2 = SPSC"
    using message_roundtrip [of c "[x]"] by auto
  then show ?thesis unfolding holds_result_def by (intro exI [of _ c1]) auto
qed

definition two_parts :: "channel \<Rightarrow> channel \<Rightarrow> shared" where
  "two_parts c d = \<lparr>num_workers = 1, chan_requests = [], chan_tasks = [], task_mem = [16 \<mapsto> blank_task\<lparr>t_futures := 24\<rparr>],
     fut_mem = \<lparr>fm_futures = Map.empty, fm_channels = [64 \<mapsto> c, 72 \<mapsto> d]\<rparr>,
     fut_nodes = [24 \<mapsto> \<lparr>fn_f = 64, fn_r = NULL, fn_await = NULL, fn_next = 32\<rparr>, 32 \<mapsto> \<lparr>fn_f = 72, fn_r = NULL, fn_await = NULL, fn_next = NULL\<rparr>],
     mallocs = [], signals = [], refusals = []\<rparr>"

theorem REDUCE_folds_witness:
  "\<exists>c d sh'. REDUCE False (await_eager 1) (\<lambda>a bs. a + unat (hd bs)) 16 1 (two_parts c d) = Some (13, sh') \<and> fut_nodes sh' = Map.empty"
proof -
  obtain c d where r: "holds_result 1 [5] c" "holds_result 1 [7] d" using result_channel by metis
  let ?sh = "two_parts c d" and ?val = "\<lambda>f. if f = (64 :: addr) then [5 :: byte] else [7]" and ?qs = "[(24, 64), (32, 72)] :: (addr \<times> addr) list"
  have w: "eager_waiting 1 ?val (map snd ?qs) ?sh" using r by (simp add: eager_waiting_def two_parts_def deref_def)
  have "deref (task_mem ?sh) 16 = Some (blank_task\<lparr>t_futures := 24\<rparr>)"
    "node_chain (fut_nodes ?sh) (t_futures (blank_task\<lparr>t_futures := 24\<rparr>)) ?qs"
    by (simp_all add: two_parts_def deref_def)
  from REDUCE_folds [OF this, of False 1 ?val "\<lambda>a bs. a + unat (hd bs)" 1] w obtain sh' where
    "REDUCE False (await_eager 1) (\<lambda>a bs. a + unat (hd bs)) 16 1 ?sh = Some (13, sh')" "fut_nodes sh' = fut_nodes ?sh |` (- {24, 32})"
    by auto
  moreover have "fut_nodes ?sh |` (- {24, 32}) = Map.empty" by (auto simp: two_parts_def restrict_map_def fun_eq_iff)
  ultimately show ?thesis by auto
qed

end
