(* ===== verification/Profiling.thy ===== *)
theory Profiling
  imports Prelude Complex_Main
begin

text \<open>
  Timers that count the cycles spent in different parts of the runtime (\<^verbatim>\<open>timer.h\<close>, \<^verbatim>\<open>profile.h\<close>), and wall-clock time (\<^verbatim>\<open>wtime.h\<close>). The time
  stamp counter is a 64-bit word whose halves the processor returns in two registers; its readings are
  arguments of the operations. A \<^verbatim>\<open>double\<close> is a rational number here: rounding is not modelled.
\<close>

unbundle bit_operations_syntax

section \<open>Definitions\<close>

type_synonym ticks = "64 word"

record mytimer =
  tm_start :: ticks
  tm_end :: ticks
  tm_elapsed :: ticks
  tm_GHZ :: rat

datatype timer_unit = timer_us | timer_ms | timer_s

definition getticks :: "32 word \<Rightarrow> 32 word \<Rightarrow> ticks" where
  "getticks lo hi = push_bit 32 (ucast hi) OR ucast lo"

definition timer_new :: "rat \<Rightarrow> mytimer \<Rightarrow> mytimer" where
  "timer_new GHZ timer = timer\<lparr>tm_elapsed := 0, tm_GHZ := GHZ\<rparr>"

definition timer_start :: "ticks \<Rightarrow> mytimer \<Rightarrow> mytimer" where
  "timer_start now timer = timer\<lparr>tm_start := now\<rparr>"

definition timer_end :: "ticks \<Rightarrow> mytimer \<Rightarrow> mytimer" where
  "timer_end now timer = (let timer = timer\<lparr>tm_end := now\<rparr>
     in timer\<lparr>tm_elapsed := tm_elapsed timer + (tm_end timer - tm_start timer)\<rparr>)"

definition CYCLES_PER_SEC :: "rat \<Rightarrow> rat" where "CYCLES_PER_SEC t = t * 10 ^ 9"
definition CYCLES_PER_MSEC :: "rat \<Rightarrow> rat" where "CYCLES_PER_MSEC t = t * 10 ^ 6"
definition CYCLES_PER_USEC :: "rat \<Rightarrow> rat" where "CYCLES_PER_USEC t = t * 10 ^ 3"

definition timer_elapsed :: "mytimer \<Rightarrow> timer_unit \<Rightarrow> rat" where
  "timer_elapsed timer opt = (let cycles = of_nat (unat (tm_elapsed timer)) in
     case opt of
       timer_us \<Rightarrow> cycles / CYCLES_PER_USEC (tm_GHZ timer)
     | timer_ms \<Rightarrow> cycles / CYCLES_PER_MSEC (tm_GHZ timer)
     | timer_s \<Rightarrow> cycles / CYCLES_PER_SEC (tm_GHZ timer))"

text \<open>The variable arguments are a list; \<^verbatim>\<open>NULL\<close>, here \<open>None\<close>, ends it.\<close>

fun add_timers :: "timer_unit \<Rightarrow> mytimer option list \<Rightarrow> rat \<Rightarrow> rat option" where
  "add_timers opt [] elapsed = None"
| "add_timers opt (None # ts) elapsed = Some elapsed"
| "add_timers opt (Some t # ts) elapsed = add_timers opt ts (elapsed + timer_elapsed t opt)"

definition timers_elapsed :: "mytimer \<Rightarrow> timer_unit \<Rightarrow> mytimer option list \<Rightarrow> rat option" where
  "timers_elapsed timer opt args = add_timers opt args (timer_elapsed timer opt)"

definition timer_cycles :: "mytimer \<Rightarrow> ticks" where
  "timer_cycles timer = tm_elapsed timer"

text \<open>
  \<^verbatim>\<open>BLOCK(before, after) { ... }\<close> is a \<^verbatim>\<open>for\<close> loop whose variable is set by a comma expression after \<^verbatim>\<open>before\<close>. \<^verbatim>\<open>PROFILE\<close>
  starts and stops a timer around a block.
\<close>

partial_function (option) block_loop :: "('s \<Rightarrow> 's) \<Rightarrow> ('s \<Rightarrow> 's option) \<Rightarrow> int \<Rightarrow> 's \<Rightarrow> 's option" where
  "block_loop after body i s =
     (if i = 0 then do { s \<leftarrow> body s; block_loop after body (i + 1) (after s) } else Some s)"

definition BLOCK :: "('s \<Rightarrow> 's) \<Rightarrow> ('s \<Rightarrow> 's) \<Rightarrow> ('s \<Rightarrow> 's option) \<Rightarrow> 's \<Rightarrow> 's option" where
  "BLOCK before after body s = block_loop after body 0 (before s)"

text \<open>A profiled block: the state has a clock, which the body advances, and the timer.\<close>

record 'u profiled =
  pf_clock :: ticks
  pf_timer :: mytimer
  pf_user :: 'u

definition PROFILE_START :: "'u profiled \<Rightarrow> 'u profiled" where
  "PROFILE_START s = s\<lparr>pf_timer := timer_start (pf_clock s) (pf_timer s)\<rparr>"

definition PROFILE_STOP :: "'u profiled \<Rightarrow> 'u profiled" where
  "PROFILE_STOP s = s\<lparr>pf_timer := timer_end (pf_clock s) (pf_timer s)\<rparr>"

definition PROFILE :: "('u profiled \<Rightarrow> 'u profiled option) \<Rightarrow> 'u profiled \<Rightarrow> 'u profiled option" where
  "PROFILE body s = BLOCK PROFILE_START PROFILE_STOP body s"

text \<open>
  The timers of a worker and the line \<^verbatim>\<open>PROFILE_RESULTS\<close> prints: the time spent running tasks, sending and
  receiving requests, sending and receiving tasks, in the deque, and idle, in microseconds, and the total.
\<close>

record worker_timers =
  timer_run_tasks :: mytimer
  timer_enq_deq_tasks :: mytimer
  timer_send_recv_tasks :: mytimer
  timer_send_recv_sreqs :: mytimer
  timer_idle :: mytimer

definition PROFILE_RESULTS :: "worker_timers \<Rightarrow> rat list option" where
  "PROFILE_RESULTS ts = do {
     total \<leftarrow> timers_elapsed (timer_run_tasks ts) timer_us
       [Some (timer_send_recv_sreqs ts), Some (timer_send_recv_tasks ts), Some (timer_enq_deq_tasks ts), Some (timer_idle ts), None];
     Some [timer_elapsed (timer_run_tasks ts) timer_us, timer_elapsed (timer_send_recv_sreqs ts) timer_us,
       timer_elapsed (timer_send_recv_tasks ts) timer_us, timer_elapsed (timer_enq_deq_tasks ts) timer_us,
       timer_elapsed (timer_idle ts) timer_us, total]
   }"

text \<open>Several profiled blocks one after the other.\<close>

fun profile_all :: "('u profiled \<Rightarrow> 'u profiled option) list \<Rightarrow> 'u profiled \<Rightarrow> 'u profiled option" where
  "profile_all [] s = Some s"
| "profile_all (b # bs) s = do { s \<leftarrow> PROFILE b s; profile_all bs s }"

text \<open>
  Wall-clock time (\<^verbatim>\<open>wtime.h\<close>). A \<^verbatim>\<open>struct timeval\<close> is what \<^verbatim>\<open>gettimeofday\<close> stores; \<^verbatim>\<open>WTIME(unit)\<close> runs the statement that follows it and then prints
  how long it took. The condition of its loop prints when the variable is not zero, and is false then.
\<close>

record timeval =
  tv_sec :: int
  tv_usec :: int

definition Wtime_sec :: "timeval \<Rightarrow> rat" where
  "Wtime_sec tv = of_int (tv_sec tv) + of_int (tv_usec tv) / 10 ^ 6"

definition Wtime_msec :: "timeval \<Rightarrow> rat" where
  "Wtime_msec tv = of_int (tv_sec tv) * 10 ^ 3 + of_int (tv_usec tv) / 10 ^ 3"

definition Wtime_usec :: "timeval \<Rightarrow> rat" where
  "Wtime_usec tv = of_int (tv_sec tv) * 10 ^ 6 + of_int (tv_usec tv)"

definition readtsc :: "32 word \<Rightarrow> 32 word \<Rightarrow> ticks" where
  "readtsc lo hi = push_bit 32 (ucast hi) OR ucast lo"

record 'u timed =
  td_now :: timeval
  td_printed :: "rat list"
  td_user :: 'u

partial_function (option) WTIME_loop ::
  "(timeval \<Rightarrow> rat) \<Rightarrow> rat \<Rightarrow> ('u timed \<Rightarrow> 'u timed option) \<Rightarrow> int \<Rightarrow> 'u timed \<Rightarrow> 'u timed option"
where
  "WTIME_loop Wtime start body i s =
     (if i = 0 then do { s \<leftarrow> body s; WTIME_loop Wtime start body (i + 1) s }
      else Some (s\<lparr>td_printed := td_printed s @ [Wtime (td_now s) - start]\<rparr>))"

definition WTIME :: "(timeval \<Rightarrow> rat) \<Rightarrow> ('u timed \<Rightarrow> 'u timed option) \<Rightarrow> 'u timed \<Rightarrow> 'u timed option" where
  "WTIME Wtime body s = WTIME_loop Wtime (Wtime (td_now s)) body 0 s"

section \<open>The time stamp counter\<close>

lemma getticks_value: "unat (getticks lo hi) = unat hi * 2 ^ 32 + unat lo"
proof -
  let ?h = "push_bit 32 (ucast hi) :: ticks" and ?l = "ucast lo :: ticks"
  have lt: "unat x < 2 ^ 32" for x :: "32 word"
  proof -
    have "unat x < 2 ^ LENGTH(32)" by (rule unsigned_less)
    then show ?thesis by simp
  qed
  note b = lt [of hi] lt [of lo]
  have "\<not> bit ?h n \<or> \<not> bit ?l n" for n using bit_word_less [of lo n] by (auto simp: bit_push_bit_iff bit_ucast_iff)
  then have "getticks lo hi = ?h + ?l" by (simp add: getticks_def disjunctive_add)
  moreover have l: "unat (ucast x :: ticks) = unat x" for x :: "32 word"
    using lt [of x] by (simp add: unsigned_ucast_eq take_bit_nat_eq_self_iff)
  moreover have "unat ?h = unat hi * 2 ^ 32"
    using b(1) l [of hi] by (simp add: push_bit_eq_mult unat_word_ariths)
  ultimately show ?thesis using b l [of lo] by (simp add: unat_word_ariths)
qed

section \<open>Blocks\<close>

text \<open>The loop runs its body once.\<close>

lemma BLOCK_once: "BLOCK before after body s = do { s \<leftarrow> body (before s); Some (after s) }"
  by (simp add: BLOCK_def block_loop.simps)

text \<open>A block that takes \<open>d\<close> cycles and does not use the timer itself.\<close>

definition takes :: "('u profiled \<Rightarrow> 'u profiled option) \<Rightarrow> nat \<Rightarrow> bool" where
  "takes body d \<longleftrightarrow> (\<forall>s s'. body s = Some s' \<longrightarrow> pf_timer s' = pf_timer s \<and> pf_clock s' = pf_clock s + of_nat d)"

lemma PROFILE_takes:
  assumes "takes body d" "PROFILE body s = Some s'"
  shows "tm_elapsed (pf_timer s') = tm_elapsed (pf_timer s) + of_nat d"
proof -
  obtain s1 where b: "body (PROFILE_START s) = Some s1" and s': "s' = PROFILE_STOP s1"
    using assms(2) by (auto simp: PROFILE_def BLOCK_once bind_eq_Some_conv)
  have "pf_timer s1 = timer_start (pf_clock s) (pf_timer s)" "pf_clock s1 = pf_clock s + of_nat d"
    using assms(1) b by (auto simp: takes_def PROFILE_START_def)
  then show ?thesis using s' by (simp add: PROFILE_STOP_def timer_end_def timer_start_def)
qed

lemma profile_all_takes:
  assumes "list_all2 takes bs ds" "profile_all bs s = Some s'"
  shows "tm_elapsed (pf_timer s') = tm_elapsed (pf_timer s) + of_nat (sum_list ds)"
  using assms
proof (induction bs ds arbitrary: s rule: list_all2_induct)
  case (Cons b bs d ds)
  then obtain s1 where p: "PROFILE b s = Some s1" and r: "profile_all bs s1 = Some s'" by (auto simp: bind_eq_Some_conv)
  show ?case using PROFILE_takes [OF Cons.hyps(1) p] Cons.IH [OF r] by simp
qed simp

section \<open>Properties\<close>

text \<open>
  Property C37. A timer counts the cycles of the blocks it profiles: however often it is started and stopped, and even if the time
  stamp counter wraps around in a block, the number of cycles is the sum of those of the blocks, as long as the
  sum fits into 64 bits.
\<close>

theorem profiled_cycles:
  assumes "list_all2 takes bs ds" "profile_all bs s = Some s'" "tm_elapsed (pf_timer s) = 0" "sum_list ds < 2 ^ 64"
  shows "unat (timer_cycles (pf_timer s')) = sum_list ds"
  using profile_all_takes [OF assms(1,2)] assms(3,4) by (simp add: timer_cycles_def unat_of_nat)

definition tick :: "nat \<Rightarrow> nat profiled \<Rightarrow> nat profiled option" where
  "tick d s = Some (s\<lparr>pf_clock := pf_clock s + of_nat d, pf_user := pf_user s + 1\<rparr>)"

theorem profiled_cycles_witness:
  "\<exists>s'. profile_all [tick 5, tick 7] \<lparr>pf_clock = - 3, pf_timer = timer_new 2 \<lparr>tm_start = 0, tm_end = 0, tm_elapsed = 9, tm_GHZ = 1\<rparr>, pf_user = 0\<rparr> = Some s' \<and>
    pf_user s' = 2 \<and> unat (timer_cycles (pf_timer s')) = 12"
proof -
  let ?s = "\<lparr>pf_clock = - 3, pf_timer = timer_new 2 \<lparr>tm_start = 0, tm_end = 0, tm_elapsed = 9, tm_GHZ = 1\<rparr>, pf_user = 0 :: nat\<rparr>"
  obtain s' where s': "profile_all [tick 5, tick 7] ?s = Some s'" "pf_user s' = 2"
    by (simp add: PROFILE_def BLOCK_once tick_def PROFILE_START_def PROFILE_STOP_def)
  have "unat (timer_cycles (pf_timer s')) = sum_list [5, 7]"
    by (rule profiled_cycles [OF _ s'(1)]) (auto simp: takes_def tick_def timer_new_def)
  then show ?thesis using s' by simp
qed

text \<open>The last number of the profile of a worker is the sum of the others.\<close>

lemma profile_results_total:
  "\<exists>xs. length xs = 5 \<and> PROFILE_RESULTS ts = Some (xs @ [sum_list xs])"
  by (intro exI [of _ "[timer_elapsed (timer_run_tasks ts) timer_us, timer_elapsed (timer_send_recv_sreqs ts) timer_us,
       timer_elapsed (timer_send_recv_tasks ts) timer_us, timer_elapsed (timer_enq_deq_tasks ts) timer_us,
       timer_elapsed (timer_idle ts) timer_us]"]) (simp add: PROFILE_RESULTS_def timers_elapsed_def)

text \<open>
  \<^verbatim>\<open>WTIME\<close> runs its body once and prints the difference of the times before and after it. The three units measure the
  same time.
\<close>

lemma WTIME_once:
  "WTIME Wtime body s =
     do { s' \<leftarrow> body s; Some (s'\<lparr>td_printed := td_printed s' @ [Wtime (td_now s') - Wtime (td_now s)]\<rparr>) }"
  by (cases "body s") (simp_all add: WTIME_def WTIME_loop.simps)

lemma Wtime_units:
  "Wtime_usec tv = 10 ^ 3 * Wtime_msec tv" "Wtime_msec tv = 10 ^ 3 * Wtime_sec tv"
  by (simp_all add: Wtime_usec_def Wtime_msec_def Wtime_sec_def field_simps)

lemma readtsc_value: "unat (readtsc lo hi) = unat hi * 2 ^ 32 + unat lo"
  using getticks_value [of lo hi] by (simp add: readtsc_def getticks_def)

end
