(* ===== verification/Atomic.thy ===== *)
theory Atomic
  imports Prelude
begin

text \<open>
  Atomic operations on an \<^verbatim>\<open>int\<close> (\<^verbatim>\<open>atomic.h\<close>). The built-ins of the compiler are modelled as what they are documented to do, one
  indivisible step on a 32-bit word that wraps around. Every operation takes the value of the variable and gives its
  result and the new value. That they are indivisible is the promise of the compiler and is not shown here.
\<close>

section \<open>Definitions\<close>

type_synonym atomic_t = "32 word"

definition ATOMIC_INIT :: "atomic_t \<Rightarrow> atomic_t" where
  "ATOMIC_INIT i = i"

definition atomic_read :: "atomic_t \<Rightarrow> atomic_t \<times> atomic_t" where
  "atomic_read v = (v, v)"

definition atomic_set :: "atomic_t \<Rightarrow> atomic_t \<Rightarrow> unit \<times> atomic_t" where
  "atomic_set i v = ((), i)"

definition atomic_add :: "atomic_t \<Rightarrow> atomic_t \<Rightarrow> atomic_t \<times> atomic_t" where
  "atomic_add i v = (v + i, v + i)"

definition atomic_sub :: "atomic_t \<Rightarrow> atomic_t \<Rightarrow> atomic_t \<times> atomic_t" where
  "atomic_sub i v = (v - i, v - i)"

definition atomic_sub_and_test :: "atomic_t \<Rightarrow> atomic_t \<Rightarrow> bool \<times> atomic_t" where
  "atomic_sub_and_test i v = (let v = v - i in (\<not> (v \<noteq> 0), v))"

definition atomic_add_and_test :: "atomic_t \<Rightarrow> atomic_t \<Rightarrow> bool \<times> atomic_t" where
  "atomic_add_and_test i v = (let v = v + i in (\<not> (v \<noteq> 0), v))"

definition atomic_inc :: "atomic_t \<Rightarrow> atomic_t \<times> atomic_t" where
  "atomic_inc v = atomic_add 1 v"

definition atomic_dec :: "atomic_t \<Rightarrow> atomic_t \<times> atomic_t" where
  "atomic_dec v = atomic_sub 1 v"

definition atomic_dec_and_test :: "atomic_t \<Rightarrow> bool \<times> atomic_t" where
  "atomic_dec_and_test v = atomic_sub_and_test 1 v"

definition atomic_inc_and_test :: "atomic_t \<Rightarrow> bool \<times> atomic_t" where
  "atomic_inc_and_test v = atomic_add_and_test 1 v"

definition atomic_CAS :: "atomic_t \<Rightarrow> atomic_t \<Rightarrow> atomic_t \<Rightarrow> bool \<times> atomic_t" where
  "atomic_CAS oldval newval v = (v = oldval, if v = oldval then newval else v)"

section \<open>What the operations compute\<close>

text \<open>The tests say whether the new value is zero, and taking away what was added restores the old value, also when it wraps around.\<close>

lemma atomic_tests:
  "fst (atomic_add_and_test i v) \<longleftrightarrow> fst (atomic_add i v) = 0" "fst (atomic_sub_and_test i v) \<longleftrightarrow> fst (atomic_sub i v) = 0"
  "snd (atomic_add_and_test i v) = snd (atomic_add i v)" "snd (atomic_sub_and_test i v) = snd (atomic_sub i v)"
  by (simp_all add: atomic_add_and_test_def atomic_sub_and_test_def atomic_add_def atomic_sub_def Let_def)

lemma atomic_sub_add: "snd (atomic_sub i (snd (atomic_add i v))) = v"
  by (simp add: atomic_add_def atomic_sub_def)

lemma atomic_dec_last: "fst (atomic_dec_and_test v) \<longleftrightarrow> v = 1"
  by (simp add: atomic_dec_and_test_def atomic_sub_and_test_def Let_def)

text \<open>Of two exchanges that expect the same value, the second fails if the first has changed it.\<close>

lemma atomic_CAS_twice:
  "x \<noteq> old \<Longrightarrow> atomic_CAS old y (snd (atomic_CAS old x v)) = (False, if v = old then x else v)"
  by (simp add: atomic_CAS_def)

end
