(* ===== verification/Backoff.thy ===== *)
theory Backoff
  imports Worker_State
begin

text \<open>
  Going to sleep and waking up, access by access: how the mutex and the condition variable of a worker are used in \<^verbatim>\<open>decline_steal_request\<close> and
  \<^verbatim>\<open>WAIT\<close> by the worker that goes to sleep, and in \<^verbatim>\<open>share_work\<close> and \<^verbatim>\<open>SIGNAL\<close> by its parent, the only one that wakes it up. A signal that finds
  nobody waiting is lost, and a worker may wake up without a signal. In the machine of all workers these calls are single steps.
\<close>

section \<open>Definitions\<close>

text \<open>
  Where the child is: about to lock, to send its failed request, to look for a task, to wait; in the set of those that wait; about
  to lock again, to unlock, and to receive the task it has found.
\<close>

datatype child_pc = C_Lock | C_Send | C_Peek | C_Wait | C_Asleep | C_Relock | C_Unlock | C_Receive

text \<open>Where the parent is: about to receive a failed request, to send a task, and in \<^verbatim>\<open>SIGNAL\<close> to lock, to signal, to unlock.\<close>

datatype parent_pc = P_Request | P_Task | P_Lock | P_Signal | P_Unlock

datatype holder = Child | Parent

text \<open>
  The mutex and the wait set of \<^verbatim>\<open>backoff[ID]\<close> (the child is in the set at \<^const>\<open>C_Asleep\<close>), the failed requests in the channel of the parent,
  and the task channel of the child.
\<close>

record backoff =
  bo_lock :: "holder option"
  bo_child :: child_pc
  bo_parent :: parent_pc
  bo_failed :: nat
  bo_tasks :: "addr list"

text \<open>A step of the child: the result is \<^const>\<open>None\<close> while it has to wait for the mutex or for a signal.\<close>

definition child_next :: "backoff \<Rightarrow> backoff option" where
  "child_next s = (case bo_child s of
     C_Lock \<Rightarrow> if bo_lock s = None then Some (s\<lparr>bo_lock := Some Child, bo_child := C_Send\<rparr>) else None
   | C_Send \<Rightarrow> Some (s\<lparr>bo_failed := bo_failed s + 1, bo_child := C_Peek\<rparr>)
   | C_Peek \<Rightarrow> Some (s\<lparr>bo_child := if peek [bo_tasks s] then C_Unlock else C_Wait\<rparr>)
   | C_Wait \<Rightarrow> Some (s\<lparr>bo_lock := None, bo_child := C_Asleep\<rparr>)
   | C_Asleep \<Rightarrow> None
   | C_Relock \<Rightarrow> if bo_lock s = None then Some (s\<lparr>bo_lock := Some Child, bo_child := C_Peek\<rparr>) else None
   | C_Unlock \<Rightarrow> Some (s\<lparr>bo_lock := None, bo_child := C_Receive\<rparr>)
   | C_Receive \<Rightarrow> (case list_get (bo_tasks s) of
        None \<Rightarrow> None
      | Some (x, q) \<Rightarrow> Some (s\<lparr>bo_tasks := q, bo_child := C_Lock\<rparr>)))"

text \<open>
  A step of the parent, which sends the task \<open>x\<close>. The task channel of a worker holds one message; \<^const>\<open>None\<close> also stands for a send that fails.
\<close>

definition parent_next :: "addr \<Rightarrow> backoff \<Rightarrow> backoff option" where
  "parent_next x s = (case bo_parent s of
     P_Request \<Rightarrow> if 0 < bo_failed s then Some (s\<lparr>bo_failed := bo_failed s - 1, bo_parent := P_Task\<rparr>) else None
   | P_Task \<Rightarrow> (case list_put 1 x (bo_tasks s) of
        None \<Rightarrow> None
      | Some q \<Rightarrow> Some (s\<lparr>bo_tasks := q, bo_parent := P_Lock\<rparr>))
   | P_Lock \<Rightarrow> if bo_lock s = None then Some (s\<lparr>bo_lock := Some Parent, bo_parent := P_Signal\<rparr>) else None
   | P_Signal \<Rightarrow> Some (s\<lparr>bo_child := (if bo_child s = C_Asleep then C_Relock else bo_child s), bo_parent := P_Unlock\<rparr>)
   | P_Unlock \<Rightarrow> Some (s\<lparr>bo_lock := None, bo_parent := P_Request\<rparr>))"

text \<open>The two threads interleave, and \<^verbatim>\<open>pthread_cond_wait\<close> may return without a signal.\<close>

inductive backoff_step :: "backoff \<Rightarrow> backoff \<Rightarrow> bool" where
  Child_Step: "child_next s = Some s' \<Longrightarrow> backoff_step s s'"
| Parent_Step: "parent_next x s = Some s' \<Longrightarrow> backoff_step s s'"
| Spurious: "bo_child s = C_Asleep \<Longrightarrow> backoff_step s (s\<lparr>bo_child := C_Relock\<rparr>)"

definition backoff_init :: backoff where
  "backoff_init = \<lparr>bo_lock = None, bo_child = C_Lock, bo_parent = P_Request, bo_failed = 0, bo_tasks = []\<rparr>"

section \<open>The invariant\<close>

text \<open>
  The mutex is held where the code holds it; a request that is not answered is with the parent, and its answer is in the task channel. A child
  that is about to wait, or waits, although there is a task will be signalled after it has begun to wait.
\<close>

fun child_locks :: "child_pc \<Rightarrow> bool" where
  "child_locks C_Send = True"
| "child_locks C_Peek = True"
| "child_locks C_Wait = True"
| "child_locks C_Unlock = True"
| "child_locks c = False"

fun parent_locks :: "parent_pc \<Rightarrow> bool" where
  "parent_locks P_Signal = True"
| "parent_locks P_Unlock = True"
| "parent_locks p = False"

fun child_open :: "child_pc \<Rightarrow> nat" where
  "child_open C_Lock = 0"
| "child_open C_Send = 0"
| "child_open c = 1"

fun parent_open :: "parent_pc \<Rightarrow> nat" where
  "parent_open P_Task = 1"
| "parent_open p = 0"

text \<open>A child with a task in its channel cannot miss it at \<open>c\<close> when its parent is at \<open>p\<close>.\<close>

fun will_know :: "child_pc \<Rightarrow> parent_pc \<Rightarrow> bool" where
  "will_know C_Wait p = (p = P_Lock)"
| "will_know C_Asleep p = (p = P_Lock \<or> p = P_Signal)"
| "will_know c p = True"

definition backoff_inv :: "backoff \<Rightarrow> bool" where
  "backoff_inv s \<longleftrightarrow> bo_lock s = (if child_locks (bo_child s) then Some Child else if parent_locks (bo_parent s) then Some Parent else None) \<and>
     \<not> (child_locks (bo_child s) \<and> parent_locks (bo_parent s)) \<and>
     bo_failed s + parent_open (bo_parent s) + length (bo_tasks s) = child_open (bo_child s) \<and>
     (bo_child s = C_Unlock \<or> bo_child s = C_Receive \<longrightarrow> bo_tasks s \<noteq> []) \<and>
     (bo_tasks s \<noteq> [] \<longrightarrow> will_know (bo_child s) (bo_parent s))"

lemma peek_single: "peek [q] \<longleftrightarrow> q \<noteq> []"
  by (simp add: peek_def)

lemmas channel_steps = list_get_def list_put_def peek_single

lemma child_next_inv:
  assumes "child_next s = Some s'" "backoff_inv s"
  shows "backoff_inv s'"
proof -
  obtain l c p f q where s: "s = \<lparr>bo_lock = l, bo_child = c, bo_parent = p, bo_failed = f, bo_tasks = q\<rparr>" by (cases s)
  show ?thesis using assms unfolding s
    by (cases c; cases q) (auto simp: child_next_def backoff_inv_def channel_steps split: if_splits)
qed

lemma parent_next_inv:
  assumes "parent_next x s = Some s'" "backoff_inv s"
  shows "backoff_inv s'"
proof -
  obtain l c p f q where s: "s = \<lparr>bo_lock = l, bo_child = c, bo_parent = p, bo_failed = f, bo_tasks = q\<rparr>" by (cases s)
  show ?thesis using assms unfolding s
    by (cases p; cases c; cases q) (auto simp: parent_next_def backoff_inv_def channel_steps split: if_splits)
qed

lemma spurious_inv: "bo_child s = C_Asleep \<Longrightarrow> backoff_inv s \<Longrightarrow> backoff_inv (s\<lparr>bo_child := C_Relock\<rparr>)"
  by (simp add: backoff_inv_def)

lemma backoff_step_inv: "backoff_step s s' \<Longrightarrow> backoff_inv s \<Longrightarrow> backoff_inv s'"
  using child_next_inv parent_next_inv spurious_inv by (elim backoff_step.cases) blast+

lemma backoff_reachable: "backoff_step\<^sup>*\<^sup>* backoff_init s \<Longrightarrow> backoff_inv s"
proof (induction rule: rtranclp_induct)
  case base
  show ?case by (simp add: backoff_inv_def backoff_init_def)
next
  case (step s s')
  then show ?case using backoff_step_inv by blast
qed

section \<open>A task in the channel is received\<close>

fun child_left :: "child_pc \<Rightarrow> nat" where
  "child_left C_Wait = 6"
| "child_left C_Asleep = 5"
| "child_left C_Relock = 4"
| "child_left C_Peek = 3"
| "child_left C_Unlock = 2"
| "child_left C_Receive = 1"
| "child_left _ = 0"

fun parent_left :: "parent_pc \<Rightarrow> nat" where
  "parent_left P_Lock = 3"
| "parent_left P_Signal = 2"
| "parent_left P_Unlock = 1"
| "parent_left _ = 0"

definition steps_left :: "backoff \<Rightarrow> nat" where
  "steps_left s = child_left (bo_child s) + parent_left (bo_parent s)"

lemma steps_left_9: "steps_left s \<le> 9"
  by (cases "bo_child s"; cases "bo_parent s") (simp_all add: steps_left_def)

text \<open>While a task waits every step, of whichever thread, brings the child closer to it.\<close>

lemma steps_left_less:
  assumes "backoff_step s s'" "backoff_inv s" "bo_tasks s \<noteq> []" "bo_tasks s' \<noteq> []"
  shows "steps_left s' < steps_left s"
  using assms
proof cases
  case Child_Step
  obtain l c p f q where s: "s = \<lparr>bo_lock = l, bo_child = c, bo_parent = p, bo_failed = f, bo_tasks = q\<rparr>" by (cases s)
  show ?thesis using Child_Step assms(2-4) unfolding s
    by (cases c; cases q) (auto simp: child_next_def backoff_inv_def steps_left_def channel_steps split: if_splits)
next
  case (Parent_Step x)
  obtain l c p f q where s: "s = \<lparr>bo_lock = l, bo_child = c, bo_parent = p, bo_failed = f, bo_tasks = q\<rparr>" by (cases s)
  show ?thesis using Parent_Step assms(2-4) unfolding s
    by (cases p; cases c; cases q) (auto simp: parent_next_def backoff_inv_def steps_left_def channel_steps split: if_splits)
qed (simp add: steps_left_def)

text \<open>And some thread can take a step.\<close>

lemma backoff_moves:
  assumes "backoff_inv s" "bo_tasks s \<noteq> []"
  shows "child_next s \<noteq> None \<or> parent_next x s \<noteq> None"
proof -
  obtain l c p f q where s: "s = \<lparr>bo_lock = l, bo_child = c, bo_parent = p, bo_failed = f, bo_tasks = q\<rparr>" by (cases s)
  show ?thesis using assms unfolding s
    by (cases c; cases p; cases q) (simp_all add: child_next_def parent_next_def backoff_inv_def channel_steps)
qed

definition waits_step :: "backoff \<Rightarrow> backoff \<Rightarrow> bool" where
  "waits_step s s' \<longleftrightarrow> backoff_step s s' \<and> bo_tasks s \<noteq> [] \<and> bo_tasks s' \<noteq> []"

lemma waits_steps:
  assumes "(waits_step ^^ n) s s'" "backoff_inv s"
  shows "n + steps_left s' \<le> steps_left s \<and> backoff_inv s'"
  using assms(1)
proof (induction n arbitrary: s')
  case (Suc n)
  then obtain s1 where s1: "(waits_step ^^ n) s s1" "waits_step s1 s'" by auto
  then have "n + steps_left s1 \<le> steps_left s" "backoff_inv s1" using Suc.IH by auto
  then show ?case using s1(2) steps_left_less [of s1 s'] backoff_step_inv [of s1 s'] by (auto simp: waits_step_def)
qed (use assms(2) in simp)

text \<open>
  Property C6. No wakeup is lost, in any interleaving of the accesses of the worker that goes to sleep and of its parent, wakeups without a signal included.
  The parent never finds the task channel of the child full. If the child waits for a signal although a task is in its channel, the signal is still to come.
  As long as the task is there, one of the two threads can take a step that does not depend on spurious wakeups, and they take at most nine steps, of whatever thread, before the
  child has received it.
\<close>

theorem no_lost_wakeup:
  assumes "backoff_step\<^sup>*\<^sup>* backoff_init s"
  shows "(bo_parent s = P_Task \<longrightarrow> bo_tasks s = []) \<and>
    (bo_child s = C_Asleep \<and> bo_tasks s \<noteq> [] \<longrightarrow> bo_parent s \<in> {P_Lock, P_Signal}) \<and>
    (bo_tasks s \<noteq> [] \<longrightarrow> child_next s \<noteq> None \<or> (\<forall>x. parent_next x s \<noteq> None)) \<and>
    (\<forall>n s'. (waits_step ^^ n) s s' \<longrightarrow> n \<le> 9)"
proof -
  have inv: "backoff_inv s" by (rule backoff_reachable [OF assms])
  have "n \<le> 9" if "(waits_step ^^ n) s s'" for n s'
    using waits_steps [OF that inv] steps_left_9 [of s] by linarith
  moreover have "bo_parent s = P_Task \<longrightarrow> bo_tasks s = []" using inv by (cases "bo_child s") (auto simp: backoff_inv_def)
  moreover have "bo_child s = C_Asleep \<and> bo_tasks s \<noteq> [] \<longrightarrow> bo_parent s \<in> {P_Lock, P_Signal}" using inv by (auto simp: backoff_inv_def)
  ultimately show ?thesis using backoff_moves [OF inv] by blast
qed

text \<open>The child has looked for a task and found none, and the parent sends one before it waits.\<close>

definition late_task :: backoff where
  "late_task = \<lparr>bo_lock = Some Child, bo_child = C_Wait, bo_parent = P_Lock, bo_failed = 0, bo_tasks = [8]\<rparr>"

lemma late_task_reached: "backoff_step\<^sup>*\<^sup>* backoff_init late_task"
proof -
  let ?a = "\<lparr>bo_lock = Some Child, bo_child = C_Send, bo_parent = P_Request, bo_failed = 0, bo_tasks = []\<rparr>"
  let ?b = "?a\<lparr>bo_failed := 1, bo_child := C_Peek\<rparr>" let ?c = "?b\<lparr>bo_child := C_Wait\<rparr>" let ?d = "?c\<lparr>bo_failed := 0, bo_parent := P_Task\<rparr>"
  have "backoff_step backoff_init ?a" "backoff_step ?a ?b" "backoff_step ?b ?c"
    by (rule Child_Step, simp add: child_next_def backoff_init_def channel_steps)+
  moreover have "backoff_step ?c ?d" "backoff_step ?d late_task"
    by (rule Parent_Step [of 8], simp add: parent_next_def late_task_def channel_steps)+
  ultimately show ?thesis by (meson rtranclp.rtrancl_into_rtrancl rtranclp.rtrancl_refl)
qed

theorem no_lost_wakeup_witness: "backoff_step\<^sup>*\<^sup>* backoff_init late_task \<and> {s. (waits_step ^^ 10) late_task s} = {}"
proof
  show "backoff_step\<^sup>*\<^sup>* backoff_init late_task" by (rule late_task_reached)
  have "n \<le> 9" if "(waits_step ^^ n) late_task s'" for n s'
    using no_lost_wakeup [OF late_task_reached] that by blast
  from this [of 10] show "{s. (waits_step ^^ 10) late_task s} = {}" by auto
qed

section \<open>The protocol in single steps\<close>

text \<open>
  What the machine of all workers makes of it, where a call is one step: \<^const>\<open>SIGNAL\<close> sets a flag that is reset when the worker goes to sleep, and
  a blocked worker with the flag set and a task in its channel may wake up. The state is whether the child is blocked, the flag, the number of failed requests the
  parent has not answered, and the task channel.
\<close>

inductive call_step :: "bool \<times> bool \<times> nat \<times> addr list \<Rightarrow> bool \<times> bool \<times> nat \<times> addr list \<Rightarrow> bool" where
  Call_Decline: "call_step (False, sg, n, q) (\<not> peek [q], False, n + 1, q)"
| Call_Share: "list_put 1 x q = Some q' \<Longrightarrow> call_step (b, sg, Suc n, q) (b, True, n, q')"
| Call_Wake: "peek [q] \<Longrightarrow> call_step (True, True, n, q) (False, True, n, q)"
| Call_Receive: "list_get q = Some (x, q') \<Longrightarrow> call_step (False, sg, n, q) (False, sg, n, q')"

fun as_calls :: "backoff \<Rightarrow> bool \<times> bool \<times> nat \<times> addr list \<Rightarrow> bool" where
  "as_calls s (b, sg, n, q) \<longleftrightarrow> b = (bo_child s \<in> {C_Peek, C_Wait, C_Asleep, C_Relock}) \<and> (q \<noteq> [] \<longrightarrow> sg) \<and>
     n = bo_failed s + (if bo_parent s = P_Task then 1 else 0) \<and> q = bo_tasks s"

text \<open>Every interleaving of the accesses does what some sequence of whole calls does.\<close>

lemma child_calls:
  assumes "child_next s = Some s'" "backoff_inv s" "as_calls s a"
  shows "\<exists>a'. call_step\<^sup>=\<^sup>= a a' \<and> as_calls s' a'"
proof -
  obtain b sg n q where a: "a = (b, sg, n, q)" by (cases a)
  have q: "bo_tasks s = q" "n = bo_failed s + (if bo_parent s = P_Task then 1 else 0)" "q \<noteq> [] \<longrightarrow> sg"
    "b = (bo_child s \<in> {C_Peek, C_Wait, C_Asleep, C_Relock})" using assms(3) a by simp_all
  show ?thesis
  proof (cases "bo_child s")
    case C_Send
    then have "q = []" "b = False" using assms(2) q by (auto simp: backoff_inv_def)
    then have "call_step a (True, False, n + 1, q)" using Call_Decline [of sg n q] a by (simp add: peek_single)
    moreover have "as_calls s' (True, False, n + 1, q)" using assms(1) C_Send q \<open>q = []\<close> by (auto simp: child_next_def)
    ultimately show ?thesis by blast
  next
    case C_Peek
    show ?thesis
    proof (cases "q = []")
      case True
      then have "as_calls s' a" using assms(1,3) C_Peek q a by (auto simp: child_next_def peek_single)
      then show ?thesis by blast
    next
      case False
      then have "call_step a (False, True, n, q)" using Call_Wake [of q n] q C_Peek a by (simp add: peek_single)
      moreover have "as_calls s' (False, True, n, q)" using assms(1) C_Peek q False by (auto simp: child_next_def peek_single)
      ultimately show ?thesis by blast
    qed
  next
    case C_Receive
    then obtain x q' where x: "q = x # q'" using assms(1) q by (auto simp: child_next_def list_get_def split: list.splits)
    then have "call_step a (False, sg, n, q')" using Call_Receive [of q x q' sg n] q C_Receive a by (simp add: list_get_def)
    moreover have "as_calls s' (False, sg, n, q')" using assms(1) C_Receive q x by (auto simp: child_next_def list_get_def)
    ultimately show ?thesis by blast
  qed (use assms(1,3) a in \<open>auto simp: child_next_def split: if_splits\<close>)
qed

lemma parent_calls:
  assumes "parent_next x s = Some s'" "as_calls s a"
  shows "\<exists>a'. call_step\<^sup>=\<^sup>= a a' \<and> as_calls s' a'"
proof -
  obtain b sg n q where a: "a = (b, sg, n, q)" by (cases a)
  show ?thesis
  proof (cases "bo_parent s")
    case P_Task
    then obtain q' where q': "list_put 1 x q = Some q'" "s' = s\<lparr>bo_tasks := q', bo_parent := P_Lock\<rparr>"
      using assms a by (auto simp: parent_next_def split: option.splits)
    have "call_step a (b, True, bo_failed s, q')" using Call_Share [OF q'(1), of b sg "bo_failed s"] assms(2) a P_Task by simp
    moreover have "as_calls s' (b, True, bo_failed s, q')" using assms(2) a q'(2) by simp
    ultimately show ?thesis by blast
  next
    case P_Signal
    then have "as_calls s' a" using assms a by (auto simp: parent_next_def)
    then show ?thesis by blast
  qed (use assms a in \<open>auto simp: parent_next_def split: if_splits\<close>)
qed

theorem backoff_refines_calls:
  assumes "backoff_step\<^sup>*\<^sup>* backoff_init s"
  shows "\<exists>a. call_step\<^sup>*\<^sup>* (False, False, 0, []) a \<and> as_calls s a"
  using assms
proof (induction rule: rtranclp_induct)
  case base
  have "as_calls backoff_init (False, False, 0, [])" by (simp add: backoff_init_def)
  then show ?case by blast
next
  case (step s s')
  then obtain a where a: "call_step\<^sup>*\<^sup>* (False, False, 0, []) a" "as_calls s a" by blast
  have inv: "backoff_inv s" by (rule backoff_reachable [OF step(1)])
  have "\<exists>a'. call_step\<^sup>=\<^sup>= a a' \<and> as_calls s' a'"
    using step(2)
  proof cases
    case Spurious
    then have "as_calls s' a" using a(2) by (cases a) auto
    then show ?thesis by blast
  qed (use child_calls [OF _ inv a(2)] parent_calls [OF _ a(2)] in blast)+
  then obtain a' where "call_step\<^sup>=\<^sup>= a a'" and as: "as_calls s' a'" by blast
  then have a': "call_step a a' \<or> a = a'" by (auto elim!: sup2E)
  have "call_step\<^sup>*\<^sup>* (False, False, 0, []) a'" using a' rtranclp.rtrancl_into_rtrancl [OF a(1)] a(1) by blast
  then show ?case using as by blast
qed

end
