(* ===== verification/Spec2Isabelle.thy ===== *)
theory Spec2Isabelle
  imports Channel_Cache Channel_Conc Spawn Consumers Tracking Exit Shutdown Eager Profiling Atomic Backoff
begin

text \<open>
  A verification library for a runtime system for fine-grained task parallelism by work stealing
  (\<^verbatim>\<open>src/src\<close>, \<^verbatim>\<open>src/include\<close>).

  \<^bold>\<open>The program.\<close> A fixed number of workers, one thread each, execute tasks. A worker keeps its tasks in a
  private deque; workers share no deque and take no locks, but exchange messages through channels
  in shared memory. A worker without tasks is a thief: it sends a steal request to a victim, and the
  request is answered with tasks, passed on to another worker, or returned to the thief after enough
  attempts. The last failed request is given to the thief's parent in a binary tree of workers, which
  keeps it until it has work to share (lifeline); a worker that has handed over its request waits to
  be woken. When the requests of both subtrees of the root are held and the root is out of work too,
  the root detects termination, on which the barrier of the main program relies. Tasks may compute
  the value of a future, and may be loops over a range of iterations, which are split when a thief
  asks for work.

  \<^bold>\<open>Conventions.\<close> C integers are words where wrap-around, shifts or bits matter (indices of rings, bit
  fields, counters of the deque, bytes) and unbounded integers where the code keeps them far from
  their limits (worker IDs, loop bounds). Pointers are 64-bit words, memory is a partial function from
  addresses, and \<^verbatim>\<open>malloc\<close> takes the next of a given list of addresses, so that running out of memory
  can be expressed. The result of an operation is an option: \<^const>\<open>None\<close> stands for a failed assertion, an
  invalid access and, for loops defined with \<^theory_text>\<open>partial_function\<close>, for not terminating. A
  theorem that an operation returns \<^const>\<open>Some\<close> therefore says that it terminates without an error.
  The build options (\<^verbatim>\<open>MAXSTEAL\<close>, \<^verbatim>\<open>STEAL\<close>, \<^verbatim>\<open>SPLIT\<close>, \<^verbatim>\<open>BACKOFF\<close>, ...) are the record \<^typ>\<open>config\<close>. What is outside of
  the program (\<^verbatim>\<open>rand_r\<close>, contents of fresh memory, how often sends of requests are refused by channels that are not full) is the record \<^typ>\<open>env\<close>.

  \<^bold>\<open>Theories.\<close>
  \<^item> \<^theory_text>\<open>Prelude\<close>: the option monad with assertions, memory, lemmas on lists and words.
  \<^item> \<^theory_text>\<open>Interfaces\<close>: the locales \<open>bounded_fifo\<close>, \<open>bounded_lifo\<close> and \<open>work_deque\<close>, the contracts of the
    containers, with what clients derive from them once; ring arithmetic.
  \<^item> \<^theory_text>\<open>Bits\<close> (\<^verbatim>\<open>bit.h\<close>), \<^theory_text>\<open>Worker_Tree\<close> (\<^verbatim>\<open>worker_tree.h\<close>), \<^theory_text>\<open>Bounded_Stack\<close>, \<^theory_text>\<open>Bounded_Queue\<close>
    (\<^verbatim>\<open>bounded_stack.h\<close>, \<^verbatim>\<open>bounded_queue.h\<close>).
  \<^item> \<^theory_text>\<open>Channel\<close> (\<^verbatim>\<open>channel_shm/channel.c\<close>): the three kinds of channels as rings of bytes, one model for
    each of the send and receive functions; they refine a bounded queue of messages and interpret
    \<open>bounded_fifo\<close>. \<^theory_text>\<open>Channel_Conc\<close>: threads that send and receive on one channel, step by step, every step
    one access to shared memory or one operation on a lock. \<^theory_text>\<open>Channel_Cache\<close>: the cache of freed channels
    (\<^verbatim>\<open>CHANNEL_CACHE\<close>).
  \<^item> \<^theory_text>\<open>Task\<close>, \<^theory_text>\<open>Deque\<close> (\<^verbatim>\<open>task.h\<close>, \<^verbatim>\<open>deque.c\<close>): task objects in memory and the doubly linked deque with
    its free list; every operation implements the list of tasks and interprets \<open>work_deque\<close>.
  \<^item> \<^theory_text>\<open>Futures\<close> (\<^verbatim>\<open>future_internal.h\<close>): lazily allocated futures, their conversion to channels when
    the task is sent away.
  \<^item> \<^theory_text>\<open>Victims\<close>, \<^theory_text>\<open>Worker_State\<close>, \<^theory_text>\<open>Stealing\<close>, \<^theory_text>\<open>Scheduling\<close>, \<^theory_text>\<open>Splitting\<close> (\<^verbatim>\<open>runtime.c\<close>): victim
    selection on the bit field of potential victims; the state of a worker and the shared state, with
    the macros on them; sending, receiving and declining requests; answering requests, sharing work,
    \<^verbatim>\<open>RT_push\<close>, \<^verbatim>\<open>RT_pop\<close>, \<^verbatim>\<open>RT_poll\<close> and the exit action; splitting of loops.
  \<^item> \<^theory_text>\<open>Backoff\<close> (\<^verbatim>\<open>WAIT\<close>, \<^verbatim>\<open>SIGNAL\<close>, the end of \<^verbatim>\<open>decline_steal_request\<close>): how a worker goes to sleep and is woken up by its parent, every step one
    operation on the mutex, on the condition variable or on a channel; it refines the whole calls of \<^theory_text>\<open>Machine\<close>.
  \<^item> \<^theory_text>\<open>Machine\<close> (\<^verbatim>\<open>schedule\<close>, \<^verbatim>\<open>RT_barrier\<close>, \<^verbatim>\<open>RT_force_future\<close>, \<^verbatim>\<open>WAIT\<close>): workers as interleaved machines with
    a stack of activations. \<^theory_text>\<open>Startup\<close> (\<^verbatim>\<open>tasking_init\<close>, \<^verbatim>\<open>worker_entry_fn\<close>, \<^verbatim>\<open>RT_init\<close>): the initial
    states and reachability. \<^theory_text>\<open>Simulation\<close>: executable schedules, sound for the step relation, which
    provide concrete reachable states.
  \<^item> \<^theory_text>\<open>Tokens\<close>, \<^theory_text>\<open>Busy\<close>, \<^theory_text>\<open>Idle\<close>, \<^theory_text>\<open>Activations\<close>, \<^theory_text>\<open>Quiescence\<close>: the invariant of the running
    system. An abstract protocol moves tokens, one for each worker, between a pool of requests and the task
    channels; every operation of a busy worker, then of an idle one, is a sequence of its steps.
    The invariant of a worker ties its requests to what it does (a failed request means that it and its
    subtree are idle, and that it waits or has been signalled), and the invariant of the system is that of
    all workers. \<^theory_text>\<open>Consumers\<close>: which request channels a worker receives from, and that no other worker that is
    awake does at the same time.
  \<^item> \<^theory_text>\<open>Ownership\<close>, \<^theory_text>\<open>Transfers\<close>, \<^theory_text>\<open>Accounts\<close>, \<^theory_text>\<open>Conservation\<close>: where the task objects are. Every object is in one
    place (a deque, a free list, a task channel, the hands of a worker), and every operation moves objects between the
    places its worker sees. The steps of the machine are followed together with the tasks that are
    created, pushed and called. \<^theory_text>\<open>Tracking\<close>: executable schedules for such runs.
  \<^item> \<^theory_text>\<open>Spawn\<close> (\<^verbatim>\<open>async_internal.h\<close>, \<^verbatim>\<open>future_internal.h\<close>): what the macros of the interface expand to, the
    loop \<^verbatim>\<open>ASYNC_FOR\<close> together with all the splits of its task, and the block \<^verbatim>\<open>AWAIT_ALL\<close>.
  \<^item> \<^theory_text>\<open>Eager\<close> (\<^verbatim>\<open>future_internal.h\<close> without \<^verbatim>\<open>LAZY_FUTURES\<close>, and \<^verbatim>\<open>REDUCE\<close>): futures that are channels, and the
    reduction over the parts of a loop; the locale \<open>reduction\<close> is what it needs of a build, interpreted for both.
  \<^item> \<^theory_text>\<open>Counters\<close>: which operations change the private variables of a worker that are counted or that end its loop. The locale
    \<open>private_relation\<close> carries a relation on them through every operation and every step of the system.
  \<^item> \<^theory_text>\<open>Exit_Action\<close>, \<^theory_text>\<open>Exit\<close> (\<^verbatim>\<open>tasking_exit\<close> up to its barrier, \<^verbatim>\<open>RT_EXIT_FN\<close>, \<^verbatim>\<open>schedule\<close>): the exit action and how it spreads through the
    tree of workers, with an invariant of the states between the call and the end of the last scheduling loop, and a measure of how far the workers have come.
  \<^item> \<^theory_text>\<open>Shutdown\<close> (\<^verbatim>\<open>tasking_exit\<close>, \<^verbatim>\<open>RT_exit\<close>, \<^verbatim>\<open>tasking_statistics\<close>): what is freed and printed at the end, against what \<^verbatim>\<open>RT_init\<close> has
    allocated. \<^theory_text>\<open>Profiling\<close> (\<^verbatim>\<open>timer.h\<close>, \<^verbatim>\<open>profile.h\<close>, \<^verbatim>\<open>wtime.h\<close>): timers and profiled blocks. \<^theory_text>\<open>Atomic\<close> (\<^verbatim>\<open>atomic.h\<close>): the atomic operations, which
    no other part of the runtime uses.

  \<^bold>\<open>What is shown.\<close> For the containers: functional behaviour on every branch, the invariants of the
  representation, overflow and underflow. For the runtime: requests visit no worker twice and come back, by every policy of choosing victims; requests of
  subtrees are found; splits partition the iterations that are left, with and without a future; every iteration of a loop is
  executed once; results of futures arrive. For the channels with several threads: they are linearizable, fail no
  assertion and do not deadlock, but senders of an MPSC channel may be refused any number of times by an empty one. No wakeup is lost between a worker that goes to sleep
  and its parent. For the system, for any interleaving and any behaviour of the tasks:
  requests are conserved, there is always room in the channels for those that are sent, request channels have one receiver at a time, sleeping workers
  with work have been signalled, and termination is detected only if no task is left. If the tasks push only objects
  they have allocated and not yet pushed, no task is lost and none is run twice, and when termination is detected all of them
  have been run. The initialisation establishes the invariants. Until the main program shuts the runtime down no worker leaves its loop, and
  the counters it prints agree. After a barrier the exit action reaches every worker, no assertion fails on the way, and all workers can
  always get to the end of their loops. \<^verbatim>\<open>RT_exit\<close> gives back the memory \<^verbatim>\<open>RT_init\<close> has taken, and the end of \<^verbatim>\<open>tasking_exit\<close> frees
  every object of the runtime once. Both builds of futures behave the same, and reductions combine every result once. Timers hold the cycles of what they profile. The theorems about the
  running system, but for those on the counters and the loops, are for \<^verbatim>\<open>MAXSTEAL\<close> = 1, which is the default; the
  other build options are arbitrary. \<^verbatim>\<open>WAIT\<close> is reached only if \<^verbatim>\<open>MAXSTEAL\<close> is 1.

  \<^bold>\<open>Granularity and bounds.\<close> A step of the machine is one call into the runtime from the loops, the
  tasks or the main program. The channels between workers are bounded lists in the machine, which is
  what \<^theory_text>\<open>Channel\<close> proves of the rings, and \<^theory_text>\<open>Channel_Conc\<close> for sends and receives of several threads whose
  accesses to memory interleave (sequentially consistent, as the barriers in the code are meant to make
  them). A send of a request may in addition be refused without need, as often as the environment says. Locking, sending the failed request and waiting are one step of
  the machine, and \<^verbatim>\<open>SIGNAL\<close> sets a flag; \<^theory_text>\<open>Backoff\<close> justifies it. Tasks and the main program are arbitrary sequences of calls and of
  accesses to memory other than the runtime's own. Limits of the program that the models keep: at most 32 workers
  (\<^verbatim>\<open>MAXWORKERS\<close>, the width of the bit field of victims), 120 bytes of arguments, 8 bytes for the value of a future.
  No definition uses fuel. The journey of a request (\<^theory_text>\<open>Stealing\<close>) runs over a given list of states, and as many of them as there are workers are enough.

  \<^bold>\<open>Not modelled.\<close> Barriers and joins of threads, initialising and destroying mutexes and conditions, and pinning of threads (system calls); the
  text the runtime prints around its numbers, and rounding: a \<^verbatim>\<open>double\<close> is a rational number. The
  generic lists of \<^verbatim>\<open>list.h\<close>, copied from the Linux kernel, which no file of the runtime includes; the preprocessor headers that choose an overload
  by the number of arguments; test programs and benchmarks, also those under \<^verbatim>\<open>TEST\<close> in the files of the runtime.
  That no assertion can fail is shown for the containers, the channels, the initialisation and the shutdown, but not for the whole of the
  running system: its invariants hold for the steps that succeed.
\<close>

section \<open>Sleeping workers\<close>

text \<open>
  In the steps of the system, which are whole calls, a worker that sleeps while a task waits in its channel has been signalled and can wake up.
  That this is so access by access is shown in \<^theory_text>\<open>Backoff\<close>.
\<close>

lemma signalled_sleeper_wakes:
  assumes "reachable env cfg z" "MAXSTEAL cfg = 1" "BACKOFF cfg = Wait_Cond"
    and "i < length (workers z)" "blocked (workers z ! i)" "peek (chan_tasks (mem z) ! i)"
  shows "\<exists>z'. sys_step env cfg z z' \<and> \<not> blocked (workers z' ! i)"
proof -
  note inv = reachable_inv [OF assms(1,2)]
  have "signals (mem z) ! i"
    using asleep_signalled [OF inv _ assms(5,6)] assms(3,4) sys_invD(2) [OF inv] by (simp add: signalled_def)
  from Wake [OF assms(4,5) this assms(6)] show ?thesis
    using assms(4) by (intro exI conjI) (assumption, simp)
qed

section \<open>Properties of the running system\<close>

text \<open>
  Property C1. Termination detection is sound: in the step in which the master of several
  workers finds the system quiescent (\<^verbatim>\<open>detect_termination\<close>, reached from the barrier), the deque and
  the task channel of every worker are empty, so no task is queued or in transit, and every worker
  thread waits for tasks at the bottom of its scheduling loop, so none is running there; each of
  them has handed its failed request over. The master is at rest: its subtrees are idle and no request of its own is under way, which
  is what the exit action asserts. This holds for every interleaving of the workers and
  every behaviour of the tasks and the main program.
\<close>

theorem termination_detection:
  assumes "reachable env cfg z" "sys_step env cfg z z'" "MAXSTEAL cfg = 1" "1 < num_workers (mem z)"
    and "\<not> quiescent (workers z ! 0)" "quiescent (workers z' ! 0)"
  shows "all_idle z' \<and> rested (workers z' ! 0) \<and>
    (\<forall>i. 0 < i \<longrightarrow> i < num_workers (mem z') \<longrightarrow> (i, STATE_FAILED) \<in># toks (pending z'))"
proof -
  note inv = reachable_inv [OF assms(1,3)]
  have inv': "sys_inv cfg z'" by (rule sys_step_inv [OF assms(2,3) inv])
  note d = sys_step_detects [OF assms(2,3) inv assms(5,6,4)]
  show ?thesis using detected_idle [OF inv'] all_failed [OF inv'] d pool_pending [of z'] assms(6) by (auto simp: rested_def)
qed

theorem termination_detection_witness:
  "\<exists>z z'. demo to_barrier = Some z \<and> sys_step demo_env default_config z z' \<and> all_idle z'"
proof -
  obtain z z' where z: "demo to_barrier = Some z" "num_workers (mem z) = 2" "\<not> quiescent (workers z ! 0)"
    and z': "advance demo_env default_config (0, Return) z = Some z'" "quiescent (workers z' ! 0)"
    using to_barrier_run by (auto split: option.splits)
  have "all_idle z'"
    using termination_detection [OF demo_reachable [OF z(1)] advance_step [OF z'(1)]] z z'
    by (simp add: default_config_def)
  then show ?thesis using z(1) advance_step [OF z'(1)] by blast
qed

text \<open>
  Property C2. Tasks are conserved: in every run in which the tasks and the main program push only task objects they have
  allocated and not yet pushed, no task is lost and none is run twice. At every moment the tasks that have been called,
  together with those that wait (in a deque, in a task channel, or received and about to be accepted), are the tasks that
  have been pushed and those split off from loops, as many as the counters \<^verbatim>\<open>tasks_split\<close> say. Every task object is in one
  place: no object waits at two places, or waits while it is run or while it is being set up, on the same worker or on two.
\<close>

theorem tasks_conserved:
  assumes "tracked env cfg r h" "MAXSTEAL cfg = 1"
  shows "\<exists>Q D. length Q = length (workers (now h)) \<and>
    (\<forall>i < length Q. waiting_at (now h) i (Q ! i) \<and> distinct (Q ! i @ unpushed h ! i @ running (stacks (now h) ! i))) \<and>
    (\<forall>i < length Q. \<forall>j < length Q. i \<noteq> j \<longrightarrow> set (Q ! i @ unpushed h ! i @ running (stacks (now h) ! i)) \<inter>
       set (Q ! j @ unpushed h ! j @ running (stacks (now h) ! j)) = {}) \<and>
    mset (executed h) + mset (concat Q) = mset (spawned h) + D \<and> splits (now h) = of_nat (size D)"
  by (rule tasks_balance [OF assms])

theorem tasks_conserved_witness:
  "\<exists>h Q D. demo_track to_push = Some h \<and> (\<forall>i < length Q. waiting_at (now h) i (Q ! i)) \<and>
    mset (concat Q) = {#10000#} + D \<and> of_nat (size D) = (0 :: uint)"
proof -
  obtain h where h: "demo_track to_push = Some h" "spawned h = [10000]" "executed h = []" "splits (now h) = 0"
    using to_push_run by (auto split: option.splits)
  obtain r where r: "tracked demo_env default_config r h" using demo_tracked [OF h(1)] by blast
  obtain Q D where "\<forall>i < length Q. waiting_at (now h) i (Q ! i)" "mset (executed h) + mset (concat Q) = mset (spawned h) + D"
    "splits (now h) = of_nat (size D)"
    using tasks_conserved [OF r] by (auto simp: default_config_def)
  then show ?thesis using h by (intro exI [of _ h] exI [of _ Q] exI [of _ D]) simp
qed

text \<open>
  Property C3. When the master of several workers detects termination, every task that was ever pushed has been called,
  exactly as often as it was pushed (task objects are recycled), and so has every task split off from a loop; and the worker
  threads have returned from all of theirs.
\<close>

theorem tasks_all_executed:
  assumes "tracked env cfg r h" "tracked_step env cfg r h h'" "MAXSTEAL cfg = 1" "1 < num_workers (mem (now h))"
    and "\<not> quiescent (workers (now h) ! 0)" "quiescent (workers (now h') ! 0)"
  shows "(\<exists>D. mset (executed h') = mset (spawned h') + D \<and> splits (now h') = of_nat (size D)) \<and>
    (\<forall>i < length (workers (now h')). 0 < i \<longrightarrow> running (stacks (now h') ! i) = [])"
  by (rule tasks_done [OF assms])

theorem tasks_all_executed_witness:
  "\<exists>h h'. demo_track to_done = Some h \<and> track demo_env default_config (0, Return) h = Some h' \<and> spawned h' = [10000] \<and>
    (\<exists>D. mset (executed h') = {#10000#} + D \<and> of_nat (size D) = (0 :: uint))"
proof -
  obtain h h' where h: "demo_track to_done = Some h" "num_workers (mem (now h)) = 2" "\<not> quiescent (workers (now h) ! 0)"
    and h': "track demo_env default_config (0, Return) h = Some h'" "quiescent (workers (now h') ! 0)" "spawned h' = [10000]"
      "splits (now h') = 0"
    using to_done_run by (auto split: option.splits)
  obtain r where r: "tracked demo_env default_config r h" using demo_tracked [OF h(1)] by blast
  obtain D where "mset (executed h') = mset (spawned h') + D" "splits (now h') = of_nat (size D)"
    using tasks_all_executed [OF r track_tracked [OF h'(1)] _ _ h(3) h'(2)] h(2) by (auto simp: default_config_def)
  then show ?thesis using h h' by (intro exI [of _ h] exI [of _ h'] conjI exI [of _ D]) simp_all
qed

text \<open>
  Property C4. Steal requests are conserved: in every reachable state the requests of a worker that
  are on their way or kept by another worker, together with the tasks waiting in its channel, are as
  many as the worker's counter \<^verbatim>\<open>requested\<close> says, and at most one. So no request is lost or duplicated,
  no request is answered twice, and an answer never finds the task channel full.
\<close>

theorem requests_conserved:
  assumes "reachable env cfg z" "MAXSTEAL cfg = 1" "i < length (workers z)"
  shows "int (length (filter (\<lambda>r. req_ID r = int i) (pending z)) + length (concat (chan_tasks (mem z) ! i))) =
      requested (workers z ! i) \<and> requested (workers z ! i) \<le> 1"
proof -
  note inv = reachable_inv [OF assms(1,2)]
  show ?thesis by (rule request_conservation [OF inv]) (use assms(3) sys_invD(2) [OF inv] in simp)
qed

theorem requests_conserved_witness:
  "\<exists>z. demo to_barrier = Some z \<and>
    length (filter (\<lambda>r. req_ID r = 1) (pending z)) + length (concat (chan_tasks (mem z) ! 1)) = 1"
proof -
  obtain z where z: "demo to_barrier = Some z" "requested (workers z ! 1) = 1" "length (workers z) = 2"
    using to_barrier_run by (auto split: option.splits)
  show ?thesis
    using requests_conserved [OF demo_reachable [OF z(1)], of 1] z by (simp add: default_config_def)
qed

text \<open>
  Property C5. The data of the runtime stays well formed: in every reachable state, every request in a channel or kept by a worker names a worker and that worker's task
  channel; a failed request is only ever with the parent of its sender; a worker keeps nothing but failed requests of its children, and its flags
  say exactly which of its subtrees they come from; its links in the tree are right; its stack holds no channel but its own; and it counts at most one request.
\<close>

theorem state_well_formed:
  assumes "reachable env cfg z" "MAXSTEAL cfg = 1"
  shows "chans_ok (mem z) \<and> length (workers z) = nat (num_workers (mem z)) \<and> length (stacks z) = length (workers z) \<and>
    (\<forall>i < length (workers z). ID (workers z ! i) = int i \<and> held_ok (num_workers (mem z)) (workers z ! i))"
  using sys_invD [OF reachable_inv [OF assms]] by simp

theorem state_well_formed_witness:
  "\<exists>z. demo to_request = Some z \<and> chans_ok (mem z) \<and> held_ok 2 (workers z ! 1)"
proof -
  obtain z where z: "demo to_request = Some z" "num_workers (mem z) = 2" "length (workers z) = 2"
    using to_request_run by (auto split: option.splits prod.splits)
  show ?thesis using state_well_formed [OF demo_reachable [OF z(1)]] z by (auto simp: default_config_def)
qed

text \<open>
  Property C7. The runtime shuts down. When the main program calls \<^verbatim>\<open>tasking_exit\<close> after a barrier has left it at rest, the exit action
  (\<^verbatim>\<open>RT_async_action\<close>, \<^verbatim>\<open>RT_EXIT_FN\<close>) spreads from the main program through the tree of workers, waking up those that sleep. In whatever way
  the workers interleave, no assertion stops one of them: a worker that neither sleeps nor has left its loop can take a step. And from every state
  they get into, they can go on until the main program has got past the exit action, every worker thread has left its scheduling loop and no message is
  left in any channel. What it takes is memory for one task per worker thread.
\<close>

theorem shutdown_completes:
  assumes "tracked env cfg r h" "MAXSTEAL cfg = 1" "stacks (now h) ! 0 = [Main_Program]" "rested (workers (now h) ! 0)"
    and "length (workers (now h)) \<le> length (mallocs (mem (now h))) + 1" "(shutdown_step env cfg)\<^sup>*\<^sup>* (now h) z"
  shows "(\<exists>z'. (shutdown_step env cfg)\<^sup>*\<^sup>* z z' \<and> shut_down z') \<and>
    (\<forall>i < length (workers z). blocked (workers z ! i) \<or> stacks z ! i = [] \<or> stacks z ! i = [Schedule Leave] \<or>
       (\<exists>fs w sh. shutdown_step env cfg z \<lparr>stacks = (stacks z)[i := fs], workers = (workers z)[i := w], mem = sh\<rparr> \<and> fs \<noteq> stacks z ! i))"
proof -
  obtain A G U S where e: "exiting env cfg r A G U S z" using shutdown_exiting [OF assms] by blast
  show ?thesis using shutdown_ends [OF e assms(2)] shutdown_unstuck [OF e assms(2)] by blast
qed

theorem shutdown_completes_witness:
  "\<exists>r h z. tracked demo_env default_config r h \<and> length (workers (now h)) = 2 \<and>
    (shutdown_step demo_env default_config)\<^sup>*\<^sup>* (now h) z \<and> shut_down z"
proof -
  obtain r h where h: "tracked demo_env default_config r h" "stacks (now h) ! 0 = [Main_Program]" "rested (workers (now h) ! 0)"
    "length (workers (now h)) = 2" "length (mallocs (mem (now h))) = 1" using demo_rests by blast
  have cfg: "MAXSTEAL default_config = 1" by (simp add: default_config_def)
  show ?thesis using shutdown_completes [OF h(1) cfg h(2,3) _ rtranclp.rtrancl_refl] h(1,4,5) by auto
qed

text \<open>
  Property C8. Request channels never overflow: a worker with no request under way finds room for one in the channel of every
  worker. Sending it therefore appends it to that channel, unless the send is refused three times in a row although the channel
  is not full, which is what concurrent senders can cause: then, and only then, the assertion in \<^verbatim>\<open>SEND_REQ\<close> fails.
\<close>

theorem request_send_outcome:
  assumes "reachable env cfg z" "MAXSTEAL cfg = 1" "i < length (workers z)" "requested (workers z ! i) = 0"
    and "good_req (num_workers (mem z)) r" "req_ID r = int i" "0 \<le> v" "v < num_workers (mem z)"
  shows "length (chan_requests (mem z) ! nat v) < nat (MAXSTEAL cfg * num_workers (mem z)) \<and>
    SEND_REQ_WORKER cfg v r (workers z ! i, mem z) = (let (k, sh) = next_refusals (mem z) in
      if k < 3 then Some (workers z ! i, sh\<lparr>chan_requests := (chan_requests sh)[nat v := chan_requests sh ! nat v @ [r]]\<rparr>)
      else None)"
proof -
  note inv = reachable_inv [OF assms(1,2)]
  have i: "i < nat (num_workers (mem z))" using assms(3) sys_invD(2) [OF inv] by simp
  have l: "linv ({#} + {#tok r#}) (workers z ! i, mem z)"
    by (rule spare_request [OF inv i assms(4,6)])
  then have nf: "\<not> tasking_finished (workers z ! i)" by (simp add: linv_def)
  obtain k sh where k: "next_refusals (mem z) = (k, sh)" by (cases "next_refusals (mem z)")
  note f = next_refusals_fields [OF k]
  have room: "length (chan_requests (mem z) ! nat v) < nat (MAXSTEAL cfg * num_workers (mem z))" "nat v < length (chan_requests (mem z))"
    using request_room [OF l assms(5), of "nat v"] chans_okD(2) [OF sys_invD(3) [OF inv]] assms(2,7,8) by auto
  then show ?thesis using k f nf assms(7) by (simp add: SEND_REQ_WORKER_def list_put_def)
qed

theorem request_send_outcome_witness:
  "\<exists>z r s. demo [] = Some z \<and> SEND_REQ_WORKER default_config 1 r (workers z ! 0, mem z) = Some s \<and> req_ID r = 0"
proof -
  obtain z where z: "demo [] = Some z" "num_workers (mem z) = 2" "requested (workers z ! 0) = 0" "length (workers z) = 2" "refusals (mem z) = []"
    using start_run by (auto split: option.splits)
  show ?thesis
    using request_send_outcome [OF demo_reachable [OF z(1)], of 0 "fresh_request 2 0" 1] z
    by (intro exI [of _ z] exI [of _ "fresh_request 2 0"])
      (simp add: default_config_def fresh_request_def good_req_def next_refusals_def)
qed

text \<open>
  Property C15. Initialisation succeeds for every number of workers that fits the static arrays,
  if memory can be allocated, and gives every worker its place in the tree.
\<close>

theorem tasking_init_succeeds:
  assumes "0 < k" "MAXSTEAL cfg = 1" "4 * nat (min k MAXWORKERS) < length ms" "NULL \<notin> set ms"
  shows "\<exists>z. tasking_init env cfg (Some k) n ms = Some (Inr z) \<and> num_workers (mem z) = min k MAXWORKERS \<and>
    length (workers z) = nat (min k MAXWORKERS) \<and>
    (\<forall>i < length (workers z). ID (workers z ! i) = int i \<and> tree_ok (min k MAXWORKERS) (workers z ! i))"
proof -
  have N: "get_num_workers (Some k) n = Inr (min k MAXWORKERS)" using assms(1) by (simp add: get_num_workers_def)
  obtain z where z: "tasking_init env cfg (Some k) n ms = Some (Inr z)"
    using tasking_init_returns [OF N _ _ assms(2-4), of env] assms(1) by (auto simp: MAXWORKERS_def)
  have nw: "num_workers (mem z) = min k MAXWORKERS"
    using tasking_init_workers [OF z assms(2)] N by (auto simp: fresh_def)
  note inv = tasking_init_inv [OF z assms(2)]
  show ?thesis using z nw sys_invD(2,5,6) [OF inv] by (auto simp: held_ok_def)
qed

theorem tasking_init_succeeds_witness:
  "\<exists>z. tasking_init demo_env default_config (Some 100) 4 (replicate 200 8) = Some (Inr z) \<and>
    length (workers z) = 32"
  using tasking_init_succeeds [of 100 default_config "replicate 200 8" demo_env 4]
  by (auto simp: default_config_def MAXWORKERS_def)

text \<open>
  Property C16. Without \<^verbatim>\<open>NUM_THREADS\<close>, on a machine with more processors than \<^verbatim>\<open>MAXWORKERS\<close>, the initialisation
  writes beyond the end of the static arrays: the number of processors is not truncated.
\<close>

theorem tasking_init_many_processors:
  assumes "MAXSTEAL cfg = 1" "MAXWORKERS < n"
  shows "tasking_init env cfg None n ms = None"
proof -
  have N: "get_num_workers None n = Inr n" by (simp add: get_num_workers_def)
  have "tasking_init env cfg None n ms \<noteq> Some (Inr z)" for z
    using tasking_init_workers [OF _ assms(1), of env None n ms z] N assms(2) by auto
  moreover have "tasking_init env cfg None n ms \<noteq> Some (Inl e)" for e
    by (auto simp: tasking_init_def N bind_eq_Some_conv split: prod.splits)
  ultimately show ?thesis by (metis not_None_eq sum.exhaust)
qed

theorem tasking_init_many_processors_witness:
  "tasking_init demo_env default_config None 64 (replicate 1000 8) = None"
  by (rule tasking_init_many_processors) (simp_all add: default_config_def MAXWORKERS_def)

text \<open>
  Property C9. A request channel has one receiver at a time: of two workers that are awake in the same state,
  at most one takes a request from a given request channel, even though a worker receives from the channels of its idle
  subtrees too. This is the contract of the channels of kind \<^verbatim>\<open>MPSC\<close>, which do not lock their receiver.
\<close>

theorem request_channel_one_receiver:
  assumes "reachable env cfg z" "MAXSTEAL cfg = 1" "BACKOFF cfg = Wait_Cond"
    and "i < length (workers z)" "j < length (workers z)" "i \<noteq> j"
    and "\<not> blocked (workers z ! i)" "\<not> blocked (workers z ! j)"
    and "RECV_REQ cfg (workers z ! i, mem z) = Some (r, w, sh)" "RECV_REQ cfg (workers z ! j, mem z) = Some (r', w', sh')"
    and "0 \<le> c" "c < num_workers (mem z)"
  shows "chan_requests sh ! nat c = chan_requests (mem z) ! nat c \<or> chan_requests sh' ! nat c = chan_requests (mem z) ! nat c"
proof (rule ccontr)
  note inv = reachable_inv [OF assms(1,2)]
  assume n: "\<not> ?thesis"
  have i: "i < nat (num_workers (mem z))" and j: "j < nat (num_workers (mem z))" using assms(4,5) sys_invD(2) [OF inv] by simp_all
  have "serves z i c" "serves z j c"
    using RECV_REQ_serves [OF inv i assms(9,11,12)] RECV_REQ_serves [OF inv j assms(10-12)] n by simp_all
  then show False using served_once [OF inv reachable_asleep [OF assms(1-3)] i assms(7) j assms(8)] assms(6) by simp
qed

theorem request_channel_one_receiver_witness:
  "\<exists>z r w sh r' w' sh'. demo to_request = Some z \<and> RECV_REQ default_config (workers z ! 0, mem z) = Some (Some r, w, sh) \<and>
    RECV_REQ default_config (workers z ! 1, mem z) = Some (r', w', sh') \<and>
    chan_requests sh ! 0 \<noteq> chan_requests (mem z) ! 0 \<and> chan_requests sh' ! 0 = chan_requests (mem z) ! 0"
proof -
  obtain z r w sh r' w' sh' where z: "demo to_request = Some z" "num_workers (mem z) = 2" "length (workers z) = 2"
    "\<not> blocked (workers z ! 0)" "\<not> blocked (workers z ! 1)"
    "RECV_REQ default_config (workers z ! 0, mem z) = Some (Some r, w, sh)"
    "RECV_REQ default_config (workers z ! 1, mem z) = Some (r', w', sh')"
    "length (chan_requests sh ! 0) \<noteq> length (chan_requests (mem z) ! 0)"
    using to_request_run by (auto split: option.splits prod.splits)
  have "chan_requests sh' ! 0 = chan_requests (mem z) ! 0"
    using request_channel_one_receiver [OF demo_reachable [OF z(1)], of 0 1 "Some r" w sh r' w' sh' 0] z
    by (auto simp: default_config_def)
  then show ?thesis using z by fastforce
qed

end
